(* ===== verification/Prelude.thy ===== *)
theory Prelude
  imports Complex_Main "HOL-Library.AList" "HOL-Library.Multiset" "HOL-Library.Char_ord"
    "HOL-Library.List_Lexorder"
begin

text \<open>
  What every component shares: the value of a call that may raise, Python's insertion-ordered
  dict as an association list, stable sorting, the median of the statistics module, and the
  few string operations the code uses. A Python str is the list of its characters, restricted to
  the code points U+0000 to U+00FF that \<^typ>\<open>char\<close> holds; bytes are lists of \<^typ>\<open>char\<close> too. A Python
  float is the rational number it denotes: the rounding of float additions and divisions is
  not modelled.
\<close>

named_theorems res_simps \<open>facts that evaluate calls which may raise\<close>
named_theorems dict_simps \<open>look-ups, updates and totals of insertion-ordered dicts\<close>

section \<open>Calls that may raise\<close>

text \<open>The exceptions the modelled code raises (or lets a library call raise).\<close>

datatype exn =
    KeyError string
  | TypeError
  | AttributeError
  | ValueError
  | AssertionError
  | IndexError
  | TradeTooLarge int int int
  | Unreachable
  | SwapError
  | OrderRejected string
  | FillRequestRejected string
  | FillResponseRejected string
  | OverflowError
  | IntegrityError
  | XLMError

type_synonym 'a res = "exn + 'a"

fun rbind :: "'e + 'a \<Rightarrow> ('a \<Rightarrow> 'e + 'b) \<Rightarrow> 'e + 'b" where
  "rbind (Inl e) f = Inl e"
| "rbind (Inr x) f = f x"

fun foldr_res :: "('s \<Rightarrow> 'x \<Rightarrow> 'e + 's) \<Rightarrow> 's \<Rightarrow> 'x list \<Rightarrow> 'e + 's" where
  "foldr_res f s [] = Inr s"
| "foldr_res f s (x # xs) = rbind (f s x) (\<lambda>s'. foldr_res f s' xs)"

fun map_res :: "('x \<Rightarrow> 'e + 'y) \<Rightarrow> 'x list \<Rightarrow> 'e + 'y list" where
  "map_res f [] = Inr []"
| "map_res f (x # xs) = rbind (f x) (\<lambda>y. rbind (map_res f xs) (\<lambda>ys. Inr (y # ys)))"

text \<open>A check that raises.\<close>

definition require :: "bool \<Rightarrow> exn \<Rightarrow> unit res" where
  "require b e = (if b then Inr () else Inl e)"

lemma require_conv [res_simps]: "require b e = Inr x \<longleftrightarrow> b"
  by (simp add: require_def)

lemma rbind_Inr_conv: "rbind m f = Inr y \<longleftrightarrow> (\<exists>x. m = Inr x \<and> f x = Inr y)"
  by (cases m) auto

lemma rbind_Inl_conv: "rbind m f = Inl e \<longleftrightarrow> m = Inl e \<or> (\<exists>x. m = Inr x \<and> f x = Inl e)"
  by (cases m) auto

lemma rbind_InrE:
  assumes "rbind m f = Inr y"
  obtains x where "m = Inr x" "f x = Inr y"
  using assms by (auto simp: rbind_Inr_conv)

lemma rbind_cong [fundef_cong]:
  "m = m' \<Longrightarrow> (\<And>x. m' = Inr x \<Longrightarrow> f x = g x) \<Longrightarrow> rbind m f = rbind m' g"
  by (cases m) auto

lemma rbind_Inr_right [simp]: "rbind m Inr = m"
  by (cases m) auto

lemma foldr_res_append [res_simps]:
  "foldr_res f s (xs @ ys) = rbind (foldr_res f s xs) (\<lambda>s'. foldr_res f s' ys)"
proof (induction xs arbitrary: s)
  case (Cons x xs)
  then show ?case by (cases "f s x") auto
qed simp

text \<open>An invariant that one step keeps is kept by the whole loop.\<close>

lemma foldr_res_invariant:
  assumes "foldr_res f s xs = Inr s'" "I s"
    and "\<And>s x s'. x \<in> set xs \<Longrightarrow> I s \<Longrightarrow> f s x = Inr s' \<Longrightarrow> I s'"
  shows "I s'"
  using assms
proof (induction xs arbitrary: s)
  case (Cons x xs)
  from Cons.prems(1) obtain t where t: "f s x = Inr t" "foldr_res f t xs = Inr s'"
    by (auto simp: rbind_Inr_conv)
  have "I t" by (rule Cons.prems(3)[OF _ Cons.prems(2) t(1)]) simp
  with t(2) show ?case by (rule Cons.IH) (rule Cons.prems(3), auto)
qed simp

lemmas res_cases = rbind_Inr_conv rbind_Inl_conv

section \<open>Insertion-ordered dicts\<close>

text \<open>
  A Python dict keeps its keys in insertion order: \<^const>\<open>AList.update\<close> overwrites in place and
  appends a new key at the end, \<^const>\<open>AList.delete\<close> drops a key, \<^const>\<open>map_of\<close> looks one up.
\<close>

type_synonym ('k, 'v) dict = "('k \<times> 'v) list"

definition get_or :: "('k, 'v) dict \<Rightarrow> 'k \<Rightarrow> 'v \<Rightarrow> 'v" where
  "get_or d k v0 = (case map_of d k of None \<Rightarrow> v0 | Some v \<Rightarrow> v)"

abbreviation keys :: "('k, 'v) dict \<Rightarrow> 'k list" where
  "keys d \<equiv> map fst d"

abbreviation wf_dict :: "('k, 'v) dict \<Rightarrow> bool" where
  "wf_dict d \<equiv> distinct (map fst d)"

definition has_key :: "('k, 'v) dict \<Rightarrow> 'k \<Rightarrow> bool" where
  "has_key d k = (k \<in> set (map fst d))"

lemma has_key_map_of [dict_simps]: "has_key d k \<longleftrightarrow> map_of d k \<noteq> None"
  by (auto simp: has_key_def map_of_eq_None_iff)

lemma has_key_update [simp]: "has_key (AList.update k v d) k' \<longleftrightarrow> k = k' \<or> has_key d k'"
  by (auto simp: dict_simps update_conv')

lemma has_key_delete [simp]: "has_key (AList.delete k d) k' \<longleftrightarrow> k \<noteq> k' \<and> has_key d k'"
  by (auto simp: dict_simps delete_conv')

lemma get_or_update [simp]:
  "get_or (AList.update k v d) k' v0 = (if k = k' then v else get_or d k' v0)"
  by (simp add: get_or_def update_conv')

lemma get_or_delete [simp]:
  "get_or (AList.delete k d) k' v0 = (if k = k' then v0 else get_or d k' v0)"
  by (simp add: get_or_def delete_conv')

lemma map_of_update_iff [dict_simps]:
  "map_of (AList.update k v d) k' = (if k = k' then Some v else map_of d k')"
  by (simp add: update_conv')

lemma map_of_delete_iff [dict_simps]:
  "map_of (AList.delete k d) k' = (if k = k' then None else map_of d k')"
  by (simp add: delete_conv')

lemma wf_dict_update [simp]: "wf_dict d \<Longrightarrow> wf_dict (AList.update k v d)"
  by (rule distinct_update)

lemma wf_dict_delete [simp]: "wf_dict d \<Longrightarrow> wf_dict (AList.delete k d)"
  by (rule distinct_delete)

lemma delete_notin: "\<not> has_key d k \<Longrightarrow> AList.delete k d = d"
  by (induction d) (auto simp: has_key_def)

lemma update_notin: "\<not> has_key d k \<Longrightarrow> AList.update k v d = d @ [(k, v)]"
  by (induction d) (auto simp: has_key_def)

lemma set_update_sub: "p \<in> set (AList.update k v al) \<Longrightarrow> p = (k, v) \<or> p \<in> set al"
  by (induction al) (auto split: if_splits)

lemma length_update_dict:
  "length (AList.update k v d) = (if has_key d k then length d else Suc (length d))"
  by (induction d) (auto simp: has_key_def)

lemma length_delete_dict:
  "wf_dict d \<Longrightarrow> length (AList.delete k d) = (if has_key d k then length d - 1 else length d)"
proof (induction d)
  case (Cons p d)
  then show ?case
    by (cases d) (auto simp: has_key_def delete_notin)
qed (simp add: has_key_def)

text \<open>The total of a measure over a dict, and how it moves.\<close>

definition dict_sum :: "('v \<Rightarrow> int) \<Rightarrow> ('k, 'v) dict \<Rightarrow> int" where
  "dict_sum f d = sum_list (map (\<lambda>(_, v). f v) d)"

lemma dict_sum_simps [simp]:
  "dict_sum f [] = 0" "dict_sum f ((k, v) # d) = f v + dict_sum f d"
  "dict_sum f (d @ d') = dict_sum f d + dict_sum f d'"
  by (simp_all add: dict_sum_def)

lemma dict_sum_update [dict_simps]:
  assumes "wf_dict d"
  shows "dict_sum f (AList.update k v d)
    = dict_sum f d + f v - (case map_of d k of None \<Rightarrow> 0 | Some w \<Rightarrow> f w)"
  using assms
proof (induction d)
  case (Cons p d)
  show ?case
  proof (cases "fst p = k")
    case True
    then show ?thesis by (cases p) simp
  next
    case False
    with Cons show ?thesis by (cases p) simp
  qed
qed (simp add: dict_sum_def)

lemma dict_sum_delete [dict_simps]:
  assumes "wf_dict d"
  shows "dict_sum f (AList.delete k d)
    = dict_sum f d - (case map_of d k of None \<Rightarrow> 0 | Some w \<Rightarrow> f w)"
  using assms
proof (induction d)
  case (Cons p d)
  show ?case
  proof (cases "fst p = k")
    case True
    with Cons.prems have "\<not> has_key d k" by (auto simp: has_key_def)
    with True show ?thesis by (cases p) (simp add: delete_notin)
  next
    case False
    with Cons show ?thesis by (cases p) simp
  qed
qed (simp add: dict_sum_def)

lemma dict_sum_nonneg: "(\<And>k v. (k, v) \<in> set d \<Longrightarrow> 0 \<le> f v) \<Longrightarrow> 0 \<le> dict_sum f d"
  by (induction d) fastforce+

lemma dict_sum_filter_le:
  "(\<And>k v. (k, v) \<in> set d \<Longrightarrow> 0 \<le> f v) \<Longrightarrow> dict_sum f (filter P d) \<le> dict_sum f d"
proof (induction d)
  case (Cons p d)
  then have "dict_sum f (filter P d) \<le> dict_sum f d" "0 \<le> f (snd p)"
    by (metis list.set_intros(2), metis list.set_intros(1) prod.collapse)
  then show ?case by (cases p) simp
qed simp

text \<open>Which keys a filter keeps, and the split of a dict's keys by a list of them.\<close>

lemma key_filter_iff:
  assumes "wf_dict d" "(k, v) \<in> set d"
  shows "k \<in> set (map fst (filter P d)) \<longleftrightarrow> P (k, v)"
proof
  assume "k \<in> set (map fst (filter P d))"
  then obtain w where w: "(k, w) \<in> set d" "P (k, w)" by auto
  with assms have "w = v" by (metis eq_key_imp_eq_value)
  with w show "P (k, v)" by simp
qed (use assms in force)

lemma keys_split:
  assumes "set ks \<subseteq> set (keys d)"
  shows "set (keys d) = set ks \<union> set (keys (filter (\<lambda>(k, _). k \<notin> set ks) d))"
    "set ks \<inter> set (keys (filter (\<lambda>(k, _). k \<notin> set ks) d)) = {}"
proof -
  have e: "set (keys (filter (\<lambda>(k, _). k \<notin> set ks) d)) = set (keys d) - set ks"
    by (induction d) auto
  show "set (keys d) = set ks \<union> set (keys (filter (\<lambda>(k, _). k \<notin> set ks) d))"
    unfolding e using assms by blast
  show "set ks \<inter> set (keys (filter (\<lambda>(k, _). k \<notin> set ks) d)) = {}" unfolding e by blast
qed

end
