(* ===== verification/Pystd.thy ===== *)
theory Pystd
  imports Prelude
begin

text \<open>
  The operations of Python's language and standard library that the modelled code calls:
  \<^verbatim>\<open>str.split\<close>, \<^verbatim>\<open>str.join\<close>, \<^verbatim>\<open>str.startswith\<close>, the length of a UTF-8 encoding,
  \<^verbatim>\<open>bytes.hex\<close> and \<^verbatim>\<open>bytes.fromhex\<close>, \<^verbatim>\<open>int.from_bytes\<close>, \<^verbatim>\<open>sorted(key=...)\<close> (which is
  stable, as \<^const>\<open>sort_key\<close> is) and \<^verbatim>\<open>statistics.median\<close>.
\<close>

section \<open>Strings\<close>

fun split_on :: "char \<Rightarrow> string \<Rightarrow> string list" where
  "split_on c [] = [[]]"
| "split_on c (x # xs) =
     (if x = c then [] # split_on c xs
      else (case split_on c xs of [] \<Rightarrow> [[x]] | w # ws \<Rightarrow> (x # w) # ws))"

fun join_with :: "char \<Rightarrow> string list \<Rightarrow> string" where
  "join_with c [] = []"
| "join_with c [w] = w"
| "join_with c (w # v # ws) = w @ c # join_with c (v # ws)"

lemma split_on_nonempty [simp]: "split_on c s \<noteq> []"
  by (induction s) (auto split: list.splits)

lemma split_on_word: "c \<notin> set w \<Longrightarrow> split_on c w = [w]"
  by (induction w) auto

lemma split_on_append_word: "c \<notin> set w \<Longrightarrow> split_on c (w @ c # s) = w # split_on c s"
  by (induction w) auto

lemma split_on_join:
  "ws \<noteq> [] \<Longrightarrow> (\<And>w. w \<in> set ws \<Longrightarrow> c \<notin> set w) \<Longrightarrow> split_on c (join_with c ws) = ws"
  by (induction c ws rule: join_with.induct) (auto simp: split_on_word split_on_append_word)

definition startswith :: "string \<Rightarrow> string \<Rightarrow> bool" where
  "startswith s p \<longleftrightarrow> take (length p) s = p"

lemma startswith_append [simp]: "startswith (p @ s) p"
  by (simp add: startswith_def)

text \<open>Code points below 128 take one byte in UTF-8, those from 128 to 255 two.\<close>

definition utf8_encode :: "string \<Rightarrow> string" where
  "utf8_encode s = concat (map (\<lambda>c. let n = (of_char c :: nat) in
     if n < 128 then [c] else [char_of (192 + n div 64), char_of (128 + n mod 64)]) s)"

lemma utf8_encode_append [simp]: "utf8_encode (s @ t) = utf8_encode s @ utf8_encode t"
  by (simp add: utf8_encode_def)

lemma length_utf8_encode: "length s \<le> length (utf8_encode s)" "length (utf8_encode s) \<le> 2 * length s"
  by (induction s) (auto simp: utf8_encode_def Let_def)

section \<open>Hexadecimal\<close>

definition hexval :: "char \<Rightarrow> nat option" where
  "hexval c = (let n = (of_char c :: nat) in
     if 48 \<le> n \<and> n \<le> 57 then Some (n - 48)
     else if 97 \<le> n \<and> n \<le> 102 then Some (n - 87)
     else if 65 \<le> n \<and> n \<le> 70 then Some (n - 55)
     else None)"

definition hexdigit :: "nat \<Rightarrow> char" where
  "hexdigit n = (if n < 10 then char_of (n + 48) else char_of (n + 87))"

text \<open>The C locale's white space, which \<^verbatim>\<open>bytes.fromhex\<close> skips before each pair of digits.\<close>

definition ascii_space :: "char \<Rightarrow> bool" where
  "ascii_space c = (let n = (of_char c :: nat) in n = 32 \<or> (9 \<le> n \<and> n \<le> 13))"

fun fromhex :: "string \<Rightarrow> string option" where
  "fromhex [] = Some []"
| "fromhex [c] = (if ascii_space c then Some [] else None)"
| "fromhex (c # d # s) =
     (if ascii_space c then fromhex (d # s)
      else (case (hexval c, hexval d) of
              (Some a, Some b) \<Rightarrow> map_option ((#) (char_of (16 * a + b))) (fromhex s)
            | _ \<Rightarrow> None))"

fun tohex :: "string \<Rightarrow> string" where
  "tohex [] = []"
| "tohex (b # bs) = hexdigit ((of_char b :: nat) div 16) # hexdigit (of_char b mod 16) # tohex bs"

lemma hexval_hexdigit [simp]: "n < 16 \<Longrightarrow> hexval (hexdigit n) = Some n"
  by (auto simp: hexval_def hexdigit_def Let_def)

lemma ascii_space_hexdigit [simp]: "n < 16 \<Longrightarrow> \<not> ascii_space (hexdigit n)"
  by (auto simp: ascii_space_def hexdigit_def Let_def)

lemma fromhex_tohex [simp]: "fromhex (tohex bs) = Some bs"
proof (induction bs)
  case (Cons b bs)
  have "(of_char b :: nat) div 16 < 16" by (simp add: less_mult_imp_div_less)
  moreover have "16 * ((of_char b :: nat) div 16) + of_char b mod 16 = of_char b" by simp
  ultimately show ?case using Cons by simp
qed simp

lemma length_tohex [simp]: "length (tohex bs) = 2 * length bs"
  by (induction bs) auto

lemma fromhex_spaces: "\<forall>c\<in>set w. ascii_space c \<Longrightarrow> fromhex w = Some []"
  by (induction w rule: fromhex.induct) auto

text \<open>White space after the digits changes nothing that \<^const>\<open>fromhex\<close> returns.\<close>

lemma fromhex_append_spaces:
  assumes "\<forall>c\<in>set w. ascii_space c" "fromhex s \<noteq> None"
  shows "fromhex (s @ w) = fromhex s"
  using assms
proof (induction s rule: fromhex.induct)
  case 1
  then show ?case by (simp add: fromhex_spaces)
next
  case (2 c)
  then have "ascii_space c" by (simp split: if_splits)
  moreover from this 2 have "fromhex (c # w) = Some []" by (intro fromhex_spaces) auto
  ultimately show ?case by simp
next
  case (3 c d s)
  show ?case
  proof (cases "ascii_space c")
    case True
    with 3 show ?thesis by simp
  next
    case False
    with 3 show ?thesis by (auto split: option.splits)
  qed
qed

text \<open>Big-endian value of a byte string.\<close>

definition int_from_bytes :: "string \<Rightarrow> nat" where
  "int_from_bytes bs = foldl (\<lambda>n b. 256 * n + of_char b) 0 bs"

lemma int_from_bytes_lt: "int_from_bytes bs < 256 ^ length bs"
proof (induction bs rule: rev_induct)
  case (snoc b bs)
  note b = nat_of_char_less_256 [of b]
  from snoc have "Suc (int_from_bytes bs) \<le> 256 ^ length bs" by simp
  then have le: "256 * Suc (int_from_bytes bs) \<le> 256 * 256 ^ length bs" by (rule mult_le_mono2)
  have "256 * int_from_bytes bs + of_char b < 256 * Suc (int_from_bytes bs)" using b by simp
  also note le
  finally show ?case by (simp add: int_from_bytes_def)
qed (simp add: int_from_bytes_def)

section \<open>Sorting and the median\<close>

definition median :: "rat list \<Rightarrow> rat" where
  "median xs = (let ys = sort xs; n = length ys in
     if odd n then ys ! (n div 2) else (ys ! (n div 2 - 1) + ys ! (n div 2)) / 2)"

lemma median_singleton [simp]: "median [x] = x"
  by (simp add: median_def)

lemma median_bounds:
  assumes "xs \<noteq> []" "\<forall>x\<in>set xs. lo \<le> x \<and> x \<le> hi"
  shows "lo \<le> median xs" "median xs \<le> hi"
proof -
  let ?ys = "sort xs"
  have nth: "lo \<le> ?ys ! i \<and> ?ys ! i \<le> hi" if "i < length xs" for i
  proof -
    from that have "?ys ! i \<in> set ?ys" by (intro nth_mem) simp
    with assms(2) show ?thesis by simp
  qed
  from assms(1) have l: "length xs > 0" by simp
  then have i: "length xs div 2 < length xs" "length xs div 2 - 1 < length xs" by linarith+
  show "lo \<le> median xs" "median xs \<le> hi"
    using nth[OF i(1)] nth[OF i(2)] by (auto simp: median_def Let_def)
qed

text \<open>Sorting the dict of groups or entries by a key keeps exactly the same elements.\<close>

lemma set_sort_key_eq [simp]: "set (sort_key f xs) = set xs"
  by simp

lemma sorted_sort_key_map: "sorted (map f (sort_key f xs))"
  by simp

end
