(* ===== verification/Params.thy ===== *)
theory Params
  imports Pystd
begin

text \<open>The protocol constants of \<^verbatim>\<open>src/src/params.py\<close>. Python's integers are \<^typ>\<open>int\<close>.\<close>

definition TICKS_PER_LAPSE :: int where "TICKS_PER_LAPSE = 100000000"

definition SUPPLY_CAP :: int where "SUPPLY_CAP = 21000000 * TICKS_PER_LAPSE"

definition EMISSION_DECAY_DENOMINATOR :: int where
  "EMISSION_DECAY_DENOMINATOR = 10 ^ 40"

definition EMISSION_DECAY_NUMERATOR :: int where
  "EMISSION_DECAY_NUMERATOR = 1386294265029292275522718605160789"

definition BLOCK_SIZE_LIMIT :: int where "BLOCK_SIZE_LIMIT = 2000000"

definition MIN_RELAY_FEE_RATE :: int where "MIN_RELAY_FEE_RATE = 1"

definition MAX_PEERS :: int where "MAX_PEERS = 125"

definition PEERS_PER_MESSAGE_LIMIT :: nat where "PEERS_PER_MESSAGE_LIMIT = 50"

definition ADDRESS_WORD_COUNT :: nat where "ADDRESS_WORD_COUNT = 12"

definition WORD_BITS :: nat where "WORD_BITS = 11"

definition VDF_ITERATIONS :: int where "VDF_ITERATIONS = 12200000"

definition VDF_ADJUST_INTERVAL :: nat where "VDF_ADJUST_INTERVAL = 10080"

definition VDF_ADJUST_MIN_SECONDS :: rat where "VDF_ADJUST_MIN_SECONDS = 100"

definition VDF_ADJUST_NUMERATOR :: int where "VDF_ADJUST_NUMERATOR = 51"

definition VDF_ADJUST_DENOMINATOR :: int where "VDF_ADJUST_DENOMINATOR = 50"

definition GENESIS_MESSAGE :: string where
  "GENESIS_MESSAGE = ''LapseCoin genesis. No premine. No authority. Every node earns. '' @
     ''The chain is its own clock: one VDF per block, real elapsed time.''"

definition TIMESTAMP_SKEW_SECONDS :: rat where "TIMESTAMP_SKEW_SECONDS = 30"

definition MIN_BLOCK_SPACING_SECONDS :: rat where "MIN_BLOCK_SPACING_SECONDS = 90"

definition GENESIS_TIMESTAMP :: int where "GENESIS_TIMESTAMP = 1787869281"

lemmas param_defs = TICKS_PER_LAPSE_def SUPPLY_CAP_def EMISSION_DECAY_DENOMINATOR_def
  EMISSION_DECAY_NUMERATOR_def BLOCK_SIZE_LIMIT_def MAX_PEERS_def
  PEERS_PER_MESSAGE_LIMIT_def ADDRESS_WORD_COUNT_def WORD_BITS_def VDF_ITERATIONS_def
  VDF_ADJUST_INTERVAL_def VDF_ADJUST_MIN_SECONDS_def VDF_ADJUST_NUMERATOR_def
  VDF_ADJUST_DENOMINATOR_def TIMESTAMP_SKEW_SECONDS_def MIN_BLOCK_SPACING_SECONDS_def
  GENESIS_TIMESTAMP_def

end
