(* ===== verification/Crypto.thy ===== *)
theory Crypto
  imports Params
begin

text \<open>
  JSON values and \<^verbatim>\<open>src/src/crypto.py\<close>: addresses and the hashing and signing entry points.
  The third-party code is a parameter of everything that uses it, the record \<open>prims\<close>:
  orjson's serializer (a total function here: every object handed to it came off the wire or was
  built from JSON values), SHA-256, FALCON-512 from liboqs and the chiavdf functions, each an
  \<^typ>\<open>'a option\<close> where the code catches what they raise. The word list that
  \<^verbatim>\<open>_load_wordlist\<close> reads from \<^verbatim>\<open>bip39_english.txt\<close> is a field too.
  A JSON integer or float off the wire keeps its kind; Python's \<^verbatim>\<open>isinstance(x, int)\<close> accepts
  a bool, and so does \<open>jint\<close>.
\<close>

section \<open>JSON values\<close>

datatype json =
    JNull
  | JBool bool
  | JInt int
  | JFloat rat
  | JStr string
  | JArr "json list"
  | JObj "(string \<times> json) list"

fun is_str :: "json \<Rightarrow> bool" where
  "is_str (JStr s) = True"
| "is_str _ = False"

text \<open>\<^verbatim>\<open>isinstance(x, int)\<close>, with the value: bool is a subclass of int.\<close>

fun jint :: "json \<Rightarrow> int option" where
  "jint (JInt n) = Some n"
| "jint (JBool b) = Some (if b then 1 else 0)"
| "jint _ = None"

text \<open>\<^verbatim>\<open>isinstance(x, (int, float))\<close>, with the value.\<close>

fun jnum :: "json \<Rightarrow> rat option" where
  "jnum (JInt n) = Some (of_int n)"
| "jnum (JBool b) = Some (if b then 1 else 0)"
| "jnum (JFloat r) = Some r"
| "jnum _ = None"

lemma jint_jnum: "jint v = Some n \<Longrightarrow> jnum v = Some (of_int n)"
  by (cases v) auto

text \<open>\<^verbatim>\<open>d.get(k)\<close> on a dict, None standing for a missing key.\<close>

definition jget :: "(string, json) dict \<Rightarrow> string \<Rightarrow> json" where
  "jget d k = get_or d k JNull"

text \<open>Python's truth value of a JSON value, as in \<^verbatim>\<open>if x:\<close> or \<^verbatim>\<open>x or y\<close>.\<close>

fun truthy :: "json \<Rightarrow> bool" where
  "truthy JNull = False"
| "truthy (JBool b) = b"
| "truthy (JInt n) = (n \<noteq> 0)"
| "truthy (JFloat r) = (r \<noteq> 0)"
| "truthy (JStr s) = (s \<noteq> [])"
| "truthy (JArr xs) = (xs \<noteq> [])"
| "truthy (JObj d) = (d \<noteq> [])"

section \<open>Third-party code\<close>

record prims =
  dumps :: "json \<Rightarrow> string"
  sha256_digest :: "string \<Rightarrow> string"
  falcon_sign :: "string \<Rightarrow> string \<Rightarrow> string"
  falcon_verify :: "string \<Rightarrow> string \<Rightarrow> string \<Rightarrow> bool option"
  vdf_prove :: "string \<Rightarrow> string \<Rightarrow> int \<Rightarrow> int \<Rightarrow> string"
  vdf_create_discriminant :: "string \<Rightarrow> int \<Rightarrow> string option"
  vdf_verify_n :: "string \<Rightarrow> string \<Rightarrow> string \<Rightarrow> int \<Rightarrow> int \<Rightarrow> int \<Rightarrow> bool option"
  words :: "string list"

section \<open>Word list\<close>

text \<open>White space as \<^verbatim>\<open>str.strip\<close> sees it, for the code points below 256.\<close>

definition str_space :: "char \<Rightarrow> bool" where
  "str_space c = (let n = (of_char c :: nat) in
     n = 32 \<or> (9 \<le> n \<and> n \<le> 13) \<or> (28 \<le> n \<and> n \<le> 31) \<or> n = 133 \<or> n = 160)"

definition strip :: "string \<Rightarrow> string" where
  "strip s = rev (dropWhile str_space (rev (dropWhile str_space s)))"

definition load_wordlist :: "string list \<Rightarrow> string list res" where
  "load_wordlist file_lines =
     (let ws = filter (\<lambda>w. w \<noteq> []) (map strip file_lines)
      in if length ws = 2048 then Inr ws else Inl AssertionError)"

text \<open>
  What the code relies on about the list it loaded: the length the assertion checks, no
  duplicates (the BIP39 list has none), and no dot inside a word (the words are lower-case letters).
\<close>

definition good_wordlist :: "string list \<Rightarrow> bool" where
  "good_wordlist ws \<longleftrightarrow> length ws = 2048 \<and> distinct ws \<and> (\<forall>w\<in>set ws. CHR ''.'' \<notin> set w)"

lemma load_wordlist_length: "load_wordlist ls = Inr ws \<Longrightarrow> length ws = 2048"
  by (auto simp: load_wordlist_def Let_def split: if_splits)

section \<open>Hashing, signatures, serialization\<close>

definition sha256 :: "prims \<Rightarrow> string \<Rightarrow> string" where
  "sha256 P data = sha256_digest P data"

definition sha256_hex :: "prims \<Rightarrow> string \<Rightarrow> string" where
  "sha256_hex P data = tohex (sha256_digest P data)"

definition sign :: "prims \<Rightarrow> string \<Rightarrow> string \<Rightarrow> string" where
  "sign P msg sk = falcon_sign P msg sk"

definition verify :: "prims \<Rightarrow> string \<Rightarrow> string \<Rightarrow> string \<Rightarrow> bool" where
  "verify P msg sig pk = (case falcon_verify P msg sig pk of None \<Rightarrow> False | Some b \<Rightarrow> b)"

definition canonical_json :: "prims \<Rightarrow> json \<Rightarrow> string" where
  "canonical_json P j = dumps P j"

definition without :: "string \<Rightarrow> (string, json) dict \<Rightarrow> (string, json) dict" where
  "without k d = filter (\<lambda>(k', _). k' \<noteq> k) d"

definition serialize_for_signing :: "prims \<Rightarrow> (string, json) dict \<Rightarrow> string" where
  "serialize_for_signing P tx = canonical_json P (JObj (without ''signature'' tx))"

section \<open>Addresses\<close>

text \<open>The loop of \<^verbatim>\<open>public_key_to_address\<close>: the words in the order it appends them.\<close>

fun addr_words :: "string list \<Rightarrow> nat \<Rightarrow> nat \<Rightarrow> string list" where
  "addr_words ws 0 bits = []"
| "addr_words ws (Suc n) bits = ws ! take_bit WORD_BITS bits # addr_words ws n (drop_bit WORD_BITS bits)"

definition address_bits :: "prims \<Rightarrow> string \<Rightarrow> nat" where
  "address_bits P pk = drop_bit (17 * 8 - ADDRESS_WORD_COUNT * WORD_BITS)
     (int_from_bytes (take 17 (sha256 P pk)))"

definition public_key_to_address :: "prims \<Rightarrow> string \<Rightarrow> string" where
  "public_key_to_address P pk =
     join_with CHR ''.'' (rev (addr_words (words P) ADDRESS_WORD_COUNT (address_bits P pk)))"

definition burn_address :: "prims \<Rightarrow> string" where
  "burn_address P = join_with CHR ''.'' (take ADDRESS_WORD_COUNT (words P))"

definition is_valid_address :: "prims \<Rightarrow> json \<Rightarrow> bool" where
  "is_valid_address P addr = (case addr of
     JStr s \<Rightarrow> (let ws = split_on CHR ''.'' s in
        length ws = ADDRESS_WORD_COUNT \<and> (\<forall>w\<in>set ws. w \<in> set (words P)))
   | _ \<Rightarrow> False)"

lemma length_addr_words [simp]: "length (addr_words ws n bits) = n"
  by (induction n arbitrary: bits) auto

lemma take_bit_word_lt: "take_bit WORD_BITS (b :: nat) < 2048"
  by (simp add: take_bit_eq_mod WORD_BITS_def)

lemma addr_words_mem: "length ws = 2048 \<Longrightarrow> set (addr_words ws n bits) \<subseteq> set ws"
  using take_bit_word_lt by (induction n arbitrary: bits) auto

text \<open>With distinct words the words read back the bits they were taken from.\<close>

lemma addr_words_inj:
  assumes "good_wordlist ws" "a < 2048 ^ n" "b < 2048 ^ n"
  shows "addr_words ws n a = addr_words ws n b \<longleftrightarrow> a = b"
  using assms(2,3)
proof (induction n arbitrary: a b)
  case (Suc n)
  have split: "c = 2048 * drop_bit WORD_BITS c + take_bit WORD_BITS c" for c :: nat
    by (simp add: drop_bit_eq_div take_bit_eq_mod WORD_BITS_def)
  have small: "drop_bit WORD_BITS c < 2048 ^ n" if "c < 2048 ^ Suc n" for c :: nat
    using that by (simp add: drop_bit_eq_div WORD_BITS_def less_mult_imp_div_less mult.commute)
  have "ws ! take_bit WORD_BITS a = ws ! take_bit WORD_BITS b
      \<longleftrightarrow> take_bit WORD_BITS a = take_bit WORD_BITS b"
    using assms(1) take_bit_word_lt by (simp add: good_wordlist_def nth_eq_iff_index_eq)
  with Suc.IH[OF small small] Suc.prems split[of a] split[of b] show ?case by auto
qed simp

lemma address_bits_lt: "address_bits P pk < 2048 ^ ADDRESS_WORD_COUNT"
proof -
  let ?b = "take 17 (sha256 P pk)"
  have "int_from_bytes ?b < 256 ^ length ?b" by (rule int_from_bytes_lt)
  also have "\<dots> \<le> (256::nat) ^ 17" by (rule power_increasing) auto
  finally have "int_from_bytes ?b < 2 ^ 136" by simp
  then show ?thesis
    by (simp add: address_bits_def drop_bit_eq_div ADDRESS_WORD_COUNT_def WORD_BITS_def
        less_mult_imp_div_less)
qed

lemma split_address:
  assumes "good_wordlist (words P)"
  shows "split_on CHR ''.'' (public_key_to_address P pk)
    = rev (addr_words (words P) ADDRESS_WORD_COUNT (address_bits P pk))"
proof -
  have "set (addr_words (words P) ADDRESS_WORD_COUNT (address_bits P pk)) \<subseteq> set (words P)"
    using assms addr_words_mem by (simp add: good_wordlist_def)
  moreover have "rev (addr_words (words P) ADDRESS_WORD_COUNT (address_bits P pk)) \<noteq> []"
    by (metis ADDRESS_WORD_COUNT_def length_addr_words length_rev list.size(3) zero_neq_numeral)
  ultimately show ?thesis
    using assms unfolding public_key_to_address_def
    by (intro split_on_join) (auto simp: good_wordlist_def)
qed

text \<open>Every address derived from a public key is one \<^verbatim>\<open>is_valid_address\<close> accepts, and two
  public keys share an address exactly when their SHA-256 digests agree on the first 132 bits:
  the words lose none of the bits they encode.\<close>

theorem address_of_key:
  assumes "good_wordlist (words P)"
  shows "is_valid_address P (JStr (public_key_to_address P pk))
    \<and> (public_key_to_address P pk = public_key_to_address P pk'
        \<longleftrightarrow> address_bits P pk = address_bits P pk')"
proof -
  let ?ws = "\<lambda>k. addr_words (words P) ADDRESS_WORD_COUNT (address_bits P k)"
  have "set (?ws pk) \<subseteq> set (words P)"
    using assms addr_words_mem by (simp add: good_wordlist_def)
  then have "is_valid_address P (JStr (public_key_to_address P pk))"
    using split_address[OF assms, of pk] by (auto simp: is_valid_address_def)
  moreover have "public_key_to_address P pk = public_key_to_address P pk' \<longleftrightarrow> ?ws pk = ?ws pk'"
    using split_address[OF assms] unfolding public_key_to_address_def by (metis rev_rev_ident)
  moreover have "?ws pk = ?ws pk' \<longleftrightarrow> address_bits P pk = address_bits P pk'"
    by (rule addr_words_inj[OF assms address_bits_lt address_bits_lt])
  ultimately show ?thesis by simp
qed

section \<open>A concrete instance\<close>

text \<open>
  Concrete functions in the place of the third-party code, for the examples that show a theorem's
  hypotheses can hold: a compact serializer with sorted keys, an injective digest that gives every
  key the same address, a signature scheme and a delay function that accept everything.
\<close>

fun digits :: "nat \<Rightarrow> string" where
  "digits n = (if n < 10 then [char_of (48 + n)] else digits (n div 10) @ [char_of (48 + n mod 10)])"

declare digits.simps [simp del]

fun commas :: "string list \<Rightarrow> string" where
  "commas [] = []"
| "commas [x] = x"
| "commas (x # y # xs) = x @ CHR '','' # commas (y # xs)"

definition quoted :: "string \<Rightarrow> string" where
  "quoted s = CHR 0x22 # s @ [CHR 0x22]"

fun compact_json :: "json \<Rightarrow> string" where
  "compact_json JNull = ''null''"
| "compact_json (JBool b) = (if b then ''true'' else ''false'')"
| "compact_json (JInt n) = (if n < 0 then CHR ''-'' # digits (nat (- n)) else digits (nat n))"
| "compact_json (JFloat r) = ''0.0''"
| "compact_json (JStr s) = quoted s"
| "compact_json (JArr xs) = CHR ''['' # commas (map compact_json xs) @ '']''"
| "compact_json (JObj d) = CHR ''{'' # commas (map (\<lambda>(k, v). quoted k @ CHR '':'' # v)
     (sort_key fst (map (\<lambda>(k, v). (k, compact_json v)) d))) @ ''}''"

definition demo_prims :: prims where
  "demo_prims = \<lparr>dumps = compact_json, sha256_digest = (\<lambda>s. replicate 17 (CHR 0x00) @ s),
     falcon_sign = (\<lambda>_ _. [CHR 0x01]), falcon_verify = (\<lambda>_ _ _. Some True),
     vdf_prove = (\<lambda>_ _ _ _. replicate 200 (CHR 0x02)),
     vdf_create_discriminant = (\<lambda>c _. Some c),
     vdf_verify_n = (\<lambda>_ _ _ _ _ _. Some True),
     words = [''a'', ''b'']\<rparr>"

definition demo_addr :: "char \<Rightarrow> string" where
  "demo_addr c = join_with CHR ''.'' (replicate 12 [c])"

lemma demo_words [simp]: "words demo_prims = [''a'', ''b'']"
  by (simp add: demo_prims_def)

lemma demo_prims_fields [simp]:
  "falcon_verify demo_prims m sg k = Some True"
  "vdf_verify_n demo_prims d x b i z r = Some True"
  "vdf_create_discriminant demo_prims c z = Some c"
  "sha256_digest demo_prims d = replicate 17 (CHR 0x00) @ d"
  "dumps demo_prims = compact_json"
  by (simp_all add: demo_prims_def)

lemma demo_burn: "burn_address demo_prims = ''a.b''"
  by (simp add: burn_address_def ADDRESS_WORD_COUNT_def)

lemma demo_key_address: "public_key_to_address demo_prims pk = demo_addr CHR ''a''"
proof -
  have "address_bits demo_prims pk = 0"
    by (simp add: address_bits_def sha256_def int_from_bytes_def numeral_eq_Suc)
  then show ?thesis
    by (simp add: public_key_to_address_def demo_addr_def ADDRESS_WORD_COUNT_def numeral_eq_Suc)
qed

lemma demo_valid_address [simp]:
  "is_valid_address demo_prims (JStr (demo_addr CHR ''a''))"
  "is_valid_address demo_prims (JStr (demo_addr CHR ''b''))"
  by (simp_all add: is_valid_address_def demo_addr_def ADDRESS_WORD_COUNT_def numeral_eq_Suc)

lemma demo_addr_neq [simp]: "demo_addr CHR ''a'' \<noteq> demo_addr CHR ''b''"
  "demo_addr CHR ''b'' \<noteq> demo_addr CHR ''a''" "demo_addr CHR ''a'' \<noteq> ''a.b''"
  by (simp_all add: demo_addr_def numeral_eq_Suc)

text \<open>A word list of the right length, without duplicates or dots.\<close>

definition demo_wordlist :: "string list" where
  "demo_wordlist = map (\<lambda>n. replicate (Suc n) CHR ''w'') [0..<2048]"

theorem address_of_key_witness:
  "good_wordlist demo_wordlist
   \<and> is_valid_address (demo_prims\<lparr>words := demo_wordlist\<rparr>)
       (JStr (public_key_to_address (demo_prims\<lparr>words := demo_wordlist\<rparr>) ''k''))"
proof -
  have g: "good_wordlist demo_wordlist"
    by (auto simp: good_wordlist_def demo_wordlist_def distinct_map inj_on_def)
  then show ?thesis using address_of_key[of "demo_prims\<lparr>words := demo_wordlist\<rparr>" "''k''" "''k''"] by simp
qed

end
