(* ===== verification/Tx.thy ===== *)
theory Tx
  imports Crypto
begin

text \<open>
  \<^verbatim>\<open>src/src/tx.py\<close>: a transaction is the JSON dict that came off the wire, so every type check
  of \<^verbatim>\<open>validate\<close> is a branch here. A check returns \<open>Inr None\<close> for \<^verbatim>\<open>(True, None)\<close>,
  \<open>Inr (Some e)\<close> for \<^verbatim>\<open>(False, error)\<close> and \<open>Inl\<close> for an exception that leaves it.
  The ledger a transaction is checked against is duck-typed in the code (a State or a mempool
  overlay): here it is its two look-ups and the board-post counter.
\<close>

type_synonym tx = "(string, json) dict"

datatype tx_error =
    UnexpectedFields "string list"
  | MissingField string
  | OutputsNotNonEmptyList
  | TooManyOutputs
  | OutputMissingKeys
  | AmountNotPositive
  | InvalidAddress
  | SendToSelf
  | FeeNegative
  | NonceNotInt
  | MemoNotString
  | MemoNullByte
  | MemoTooLong
  | FromBurnAddress
  | KeysNotStrings
  | PubkeyMismatch
  | InvalidSignature
  | MalformedKey
  | BadNonce int int
  | InsufficientBalance int int
  | BoardFeeTooLow int int

section \<open>Constants\<close>

definition REQUIRED_FIELDS :: "string list" where
  "REQUIRED_FIELDS = [''from'', ''pubkey'', ''outputs'', ''nonce'', ''fee'', ''signature'']"

definition OPTIONAL_FIELDS :: "string list" where
  "OPTIONAL_FIELDS = [''memo'']"

definition ALLOWED_FIELDS :: "string list" where
  "ALLOWED_FIELDS = REQUIRED_FIELDS @ OPTIONAL_FIELDS"

definition MAX_MEMO_BYTES :: nat where "MAX_MEMO_BYTES = 200"

definition BOARD_MEMO_TAG :: string where "BOARD_MEMO_TAG = ''[board] ''"

definition BOARD_BASE_FEE :: int where "BOARD_BASE_FEE = 1"
definition BOARD_STEP_SIZE :: int where "BOARD_STEP_SIZE = 250"
definition BOARD_FEE_RATIO :: int where "BOARD_FEE_RATIO = 3"

definition MAX_OUTPUTS :: nat where "MAX_OUTPUTS = 500"

section \<open>Reading fields\<close>

text \<open>
  The reads that raise: \<^verbatim>\<open>d[k]\<close> on a missing key, and using a value of another type. An integer
  field that holds a bool reads as 0 or 1, as it does in Python arithmetic.
\<close>

definition read_str :: "string \<Rightarrow> (string, json) dict \<Rightarrow> string res" where
  "read_str k d = (case map_of d k of
     None \<Rightarrow> Inl (KeyError k) | Some (JStr s) \<Rightarrow> Inr s | Some _ \<Rightarrow> Inl TypeError)"

definition read_int :: "string \<Rightarrow> (string, json) dict \<Rightarrow> int res" where
  "read_int k d = (case map_of d k of
     None \<Rightarrow> Inl (KeyError k)
   | Some v \<Rightarrow> (case jint v of None \<Rightarrow> Inl TypeError | Some n \<Rightarrow> Inr n))"

fun read_output :: "json \<Rightarrow> (string \<times> int) res" where
  "read_output (JObj d) = rbind (read_int ''amount'' d) (\<lambda>n. rbind (read_str ''to'' d) (\<lambda>a. Inr (a, n)))"
| "read_output _ = Inl TypeError"

definition read_outputs :: "tx \<Rightarrow> (string \<times> int) list res" where
  "read_outputs t = (case map_of t ''outputs'' of
     None \<Rightarrow> Inl (KeyError ''outputs'')
   | Some (JArr os) \<Rightarrow> map_res read_output os
   | Some _ \<Rightarrow> Inl TypeError)"

text \<open>What \<^verbatim>\<open>apply_tx\<close> reads of a transaction.\<close>

record transfer =
  t_from :: string
  t_outs :: "(string \<times> int) list"
  t_fee :: int
  t_nonce :: int

definition read_tx :: "tx \<Rightarrow> transfer res" where
  "read_tx t = rbind (read_str ''from'' t) (\<lambda>a. rbind (read_outputs t) (\<lambda>os.
     rbind (read_int ''fee'' t) (\<lambda>f. rbind (read_int ''nonce'' t) (\<lambda>n.
       Inr \<lparr>t_from = a, t_outs = os, t_fee = f, t_nonce = n\<rparr>))))"

text \<open>
  The reads of code that only sees transactions already validated (the mempool, block packing):
  total, with a default where the code would raise.
\<close>

definition tx_nonce :: "tx \<Rightarrow> int" where
  "tx_nonce t = (case jint (jget t ''nonce'') of None \<Rightarrow> 0 | Some n \<Rightarrow> n)"

definition tx_fee :: "tx \<Rightarrow> int" where
  "tx_fee t = (case jint (jget t ''fee'') of None \<Rightarrow> 0 | Some n \<Rightarrow> n)"

definition tx_from :: "tx \<Rightarrow> json" where
  "tx_from t = jget t ''from''"

definition outs_total :: "(string \<times> int) list \<Rightarrow> int" where
  "outs_total os = sum_list (map snd os)"

section \<open>Creation, hash, sizes\<close>

definition create_tx :: "prims \<Rightarrow> string \<Rightarrow> string \<Rightarrow> json list \<Rightarrow> int \<Rightarrow> int \<Rightarrow> string \<Rightarrow> string \<Rightarrow> tx" where
  "create_tx P from_addr pubkey_hex outputs nonce fee sk memo =
     (let body = [(''from'', JStr from_addr), (''pubkey'', JStr pubkey_hex),
                  (''outputs'', JArr outputs), (''nonce'', JInt nonce), (''fee'', JInt fee)] @
                 (if memo \<noteq> [] then [(''memo'', JStr memo)] else []);
          msg = serialize_for_signing P body;
          sig = sign P msg sk
      in AList.update ''signature'' (JStr (tohex sig)) body)"

definition tx_hash :: "prims \<Rightarrow> tx \<Rightarrow> string" where
  "tx_hash P t = sha256_hex P (canonical_json P (JObj (without ''signature'' t)))"

definition tx_size :: "prims \<Rightarrow> tx \<Rightarrow> int" where
  "tx_size P t = int (length (canonical_json P (JObj (without ''signature'' t))))"

definition fee_rate :: "prims \<Rightarrow> tx \<Rightarrow> rat" where
  "fee_rate P t = of_int (tx_fee t) / of_int (max (tx_size P t) 1)"

definition tx_size_in_block :: "prims \<Rightarrow> tx \<Rightarrow> nat \<Rightarrow> int" where
  "tx_size_in_block P t position =
     int (length (canonical_json P (JObj t))) + (if position > 0 then 1 else 0)"

definition is_board_post :: "tx \<Rightarrow> bool" where
  "is_board_post t = (case map_of t ''memo'' of
     Some (JStr s) \<Rightarrow> startswith s BOARD_MEMO_TAG | _ \<Rightarrow> False)"

definition board_fee_floor :: "int \<Rightarrow> int" where
  "board_fee_floor total_board_posts =
     BOARD_BASE_FEE * BOARD_FEE_RATIO ^ nat (total_board_posts div BOARD_STEP_SIZE)"

section \<open>Validation\<close>

definition check_not_from_burn_address :: "prims \<Rightarrow> tx \<Rightarrow> tx_error option res" where
  "check_not_from_burn_address P t =
     Inr (if tx_from t = JStr (burn_address P) then Some FromBurnAddress else None)"

text \<open>
  \<^verbatim>\<open>k in x\<close> for an output entry \<^verbatim>\<open>x\<close> of any JSON type: key of a dict, element of a list,
  substring of a string, and a TypeError for everything that is not iterable.
\<close>

fun has_substring :: "string \<Rightarrow> string \<Rightarrow> bool" where
  "has_substring k [] = (k = [])"
| "has_substring k (c # cs) = (startswith (c # cs) k \<or> has_substring k cs)"

fun py_in :: "string \<Rightarrow> json \<Rightarrow> bool res" where
  "py_in k (JObj d) = Inr (has_key d k)"
| "py_in k (JArr xs) = Inr (JStr k \<in> set xs)"
| "py_in k (JStr s) = Inr (has_substring k s)"
| "py_in k _ = Inl TypeError"

text \<open>The body of the loop over the outputs; indexing a list or a string by a key raises.\<close>

definition check_output :: "prims \<Rightarrow> json \<Rightarrow> json \<Rightarrow> tx_error option res" where
  "check_output P sender out =
     rbind (py_in ''to'' out) (\<lambda>has_to.
     rbind (if has_to then py_in ''amount'' out else Inr False) (\<lambda>both.
       if \<not> both then Inr (Some OutputMissingKeys)
       else (case out of
         JObj d \<Rightarrow>
           (case jint (jget d ''amount'') of
              None \<Rightarrow> Inr (Some AmountNotPositive)
            | Some n \<Rightarrow>
                if n \<le> 0 then Inr (Some AmountNotPositive)
                else if \<not> is_valid_address P (jget d ''to'') then Inr (Some InvalidAddress)
                else if jget d ''to'' = sender then Inr (Some SendToSelf)
                else Inr None)
       | _ \<Rightarrow> Inl TypeError)))"

fun check_outputs :: "prims \<Rightarrow> json \<Rightarrow> json list \<Rightarrow> tx_error option res" where
  "check_outputs P sender [] = Inr None"
| "check_outputs P sender (out # outs) =
     rbind (check_output P sender out) (\<lambda>r. case r of
       Some e \<Rightarrow> Inr (Some e) | None \<Rightarrow> check_outputs P sender outs)"

text \<open>The checks after the loop: fee, nonce and memo.\<close>

definition check_fee_nonce_memo :: "tx \<Rightarrow> tx_error option" where
  "check_fee_nonce_memo t =
     (case jint (jget t ''fee'') of
        None \<Rightarrow> Some FeeNegative
      | Some fee \<Rightarrow>
          if fee < 0 then Some FeeNegative
          else if jint (jget t ''nonce'') = None then Some NonceNotInt
          else (case map_of t ''memo'' of
                  None \<Rightarrow> None
                | Some (JStr memo) \<Rightarrow>
                    if CHR 0x00 \<in> set memo then Some MemoNullByte
                    else if length (utf8_encode memo) > MAX_MEMO_BYTES then Some MemoTooLong
                    else None
                | Some _ \<Rightarrow> Some MemoNotString))"

definition check_fields_and_outputs :: "prims \<Rightarrow> tx \<Rightarrow> tx_error option res" where
  "check_fields_and_outputs P t =
     (let unexpected = filter (\<lambda>k. k \<notin> set ALLOWED_FIELDS) (keys t) in
      if unexpected \<noteq> [] then Inr (Some (UnexpectedFields (sort unexpected)))
      else (case find (\<lambda>f. \<not> has_key t f) REQUIRED_FIELDS of
        Some f \<Rightarrow> Inr (Some (MissingField f))
      | None \<Rightarrow>
          (case jget t ''outputs'' of
             JArr outs \<Rightarrow>
               if outs = [] then Inr (Some OutputsNotNonEmptyList)
               else if length outs > MAX_OUTPUTS then Inr (Some TooManyOutputs)
               else rbind (check_outputs P (tx_from t) outs) (\<lambda>r. case r of
                 Some e \<Rightarrow> Inr (Some e)
               | None \<Rightarrow> Inr (check_fee_nonce_memo t))
           | _ \<Rightarrow> Inr (Some OutputsNotNonEmptyList))))"

text \<open>
  The signature check with its cache of verdicts. \<open>cache\<close> answers a key as the LRU cache
  does (an entry may have been evicted); the second component is what the call stores. Every
  exception inside the code's \<^verbatim>\<open>try\<close> is \<^const>\<open>MalformedKey\<close>.
\<close>

type_synonym sig_key = "string \<times> string \<times> string"

definition check_signature ::
    "prims \<Rightarrow> (sig_key \<Rightarrow> bool option) \<Rightarrow> tx \<Rightarrow> tx_error option \<times> (sig_key \<times> bool) option" where
  "check_signature P cache t =
     (case (jget t ''pubkey'', jget t ''signature'') of
        (JStr pubkey_hex, JStr sig_hex) \<Rightarrow>
          (case (fromhex pubkey_hex, fromhex sig_hex) of
             (Some pubkey_bytes, Some sig_bytes) \<Rightarrow>
               if JStr (public_key_to_address P pubkey_bytes) \<noteq> tx_from t
               then (Some PubkeyMismatch, None)
               else
                 (let signed = serialize_for_signing P t;
                      key = (sha256 P signed, sig_hex, pubkey_hex)
                  in case cache key of
                       Some verdict \<Rightarrow> (if verdict then None else Some InvalidSignature, None)
                     | None \<Rightarrow>
                         (let verdict = verify P signed sig_bytes pubkey_bytes
                          in (if verdict then None else Some InvalidSignature, Some (key, verdict))))
           | _ \<Rightarrow> (Some MalformedKey, None))
      | _ \<Rightarrow> (Some KeysNotStrings, None))"

definition check_nonce :: "(string \<Rightarrow> int) \<Rightarrow> tx \<Rightarrow> tx_error option res" where
  "check_nonce get_nonce t =
     rbind (read_str ''from'' t) (\<lambda>a. rbind (read_int ''nonce'' t) (\<lambda>n.
       Inr (if n \<noteq> get_nonce a + 1 then Some (BadNonce (get_nonce a + 1) n) else None)))"

definition check_balance :: "(string \<Rightarrow> int) \<Rightarrow> tx \<Rightarrow> tx_error option res" where
  "check_balance get_balance t =
     rbind (read_outputs t) (\<lambda>os. rbind (read_str ''from'' t) (\<lambda>a. rbind (read_int ''fee'' t) (\<lambda>f.
       let required = outs_total os + f in
       Inr (if required > get_balance a then Some (InsufficientBalance (get_balance a) required)
            else None))))"

definition check_board_fee :: "int \<Rightarrow> int option \<Rightarrow> tx \<Rightarrow> tx_error option res" where
  "check_board_fee total_board_posts floor_override t =
     (if \<not> is_board_post t then Inr None
      else (let floor = (case floor_override of Some f \<Rightarrow> f | None \<Rightarrow> board_fee_floor total_board_posts)
            in rbind (read_int ''fee'' t) (\<lambda>f.
                 Inr (if f < floor then Some (BoardFeeTooLow f floor) else None))))"

text \<open>\<^verbatim>\<open>ok, err = check(*args); if not ok: return False, err\<close>, one check after the other.\<close>

definition and_then :: "'e option res \<Rightarrow> 'e option res \<Rightarrow> 'e option res" where
  "and_then m k = rbind m (\<lambda>r. case r of Some e \<Rightarrow> Inr (Some e) | None \<Rightarrow> k)"

definition tx_validate ::
    "prims \<Rightarrow> (sig_key \<Rightarrow> bool option) \<Rightarrow> (string \<Rightarrow> int) \<Rightarrow> (string \<Rightarrow> int) \<Rightarrow> int \<Rightarrow> int option
      \<Rightarrow> tx \<Rightarrow> tx_error option res" where
  "tx_validate P cache get_balance get_nonce total_board_posts floor_override t =
     and_then (check_fields_and_outputs P t)
    (and_then (check_not_from_burn_address P t)
    (and_then (Inr (fst (check_signature P cache t)))
    (and_then (check_nonce get_nonce t)
    (and_then (check_balance get_balance t)
              (check_board_fee total_board_posts floor_override t)))))"

section \<open>What a validated transaction is\<close>

lemma and_then_None [res_simps]:
  "and_then m k = Inr None \<longleftrightarrow> m = Inr None \<and> k = Inr None"
  by (auto simp: and_then_def rbind_Inr_conv split: option.splits)

text \<open>Each output that passed reads back as an address of the right form and a positive amount.\<close>

lemma check_output_read:
  assumes "check_output P sender out = Inr None"
  shows "\<exists>a n. read_output out = Inr (a, n) \<and> 0 < n \<and> is_valid_address P (JStr a) \<and> JStr a \<noteq> sender"
proof (cases out)
  case (JObj d)
  with assms obtain n where n: "jint (jget d ''amount'') = Some n" "0 < n"
      and a: "is_valid_address P (jget d ''to'')" "jget d ''to'' \<noteq> sender"
      and k: "has_key d ''to''" "has_key d ''amount''"
    by (auto simp: check_output_def split: if_splits option.splits)
  from a(1) obtain s where s: "jget d ''to'' = JStr s"
    by (auto simp: is_valid_address_def split: json.splits)
  with n k show ?thesis using a JObj
    by (auto simp: read_int_def read_str_def jget_def get_or_def dict_simps split: option.splits)
qed (use assms in \<open>auto simp: check_output_def res_cases split: if_splits\<close>)

lemma check_outputs_read:
  "check_outputs P sender outs = Inr None \<Longrightarrow>
     \<exists>os. map_res read_output outs = Inr os \<and> length os = length outs
        \<and> (\<forall>(a, n)\<in>set os. 0 < n \<and> is_valid_address P (JStr a) \<and> JStr a \<noteq> sender)"
proof (induction outs)
  case (Cons out outs)
  then have "check_output P sender out = Inr None" and c: "check_outputs P sender outs = Inr None"
    by (auto simp: rbind_Inr_conv split: option.splits)
  from check_output_read[OF this(1)] obtain a n where
    "read_output out = Inr (a, n)" "0 < n" "is_valid_address P (JStr a)" "JStr a \<noteq> sender" by blast
  with Cons.IH[OF c] show ?case by fastforce
qed simp

lemma read_check_output:
  assumes "read_output out = Inr (a, n)" "0 < n" "is_valid_address P (JStr a)" "JStr a \<noteq> sender"
  shows "check_output P sender out = Inr None"
proof (cases out)
  case (JObj d)
  with assms show ?thesis
    by (auto simp: check_output_def read_int_def read_str_def jget_def get_or_def dict_simps
        rbind_Inr_conv split: option.splits json.splits)
qed (use assms in auto)

lemma read_check_outputs:
  assumes "map_res read_output outs = Inr os"
    and "\<forall>(a, n)\<in>set os. 0 < n \<and> is_valid_address P (JStr a) \<and> JStr a \<noteq> sender"
  shows "check_outputs P sender outs = Inr None"
  using assms
proof (induction outs arbitrary: os)
  case (Cons out outs)
  then obtain a n os' where "read_output out = Inr (a, n)" "map_res read_output outs = Inr os'"
      "os = (a, n) # os'"
    by (auto simp: rbind_Inr_conv)
  with Cons show ?case by (auto simp: read_check_output)
qed simp

text \<open>The declarative side: the shape of the dict, of the payment, and of the memo.\<close>

definition memo_ok :: "tx \<Rightarrow> bool" where
  "memo_ok t \<longleftrightarrow> (\<forall>m. map_of t ''memo'' = Some m \<longrightarrow>
     (\<exists>s. m = JStr s \<and> CHR 0x00 \<notin> set s \<and> length (utf8_encode s) \<le> MAX_MEMO_BYTES))"

definition fields_ok :: "tx \<Rightarrow> bool" where
  "fields_ok t \<longleftrightarrow> set (keys t) \<subseteq> set ALLOWED_FIELDS \<and> set REQUIRED_FIELDS \<subseteq> set (keys t)"

definition transfer_ok :: "prims \<Rightarrow> transfer \<Rightarrow> bool" where
  "transfer_ok P v \<longleftrightarrow> t_outs v \<noteq> [] \<and> length (t_outs v) \<le> MAX_OUTPUTS \<and> 0 \<le> t_fee v
     \<and> (\<forall>(a, n)\<in>set (t_outs v). 0 < n \<and> is_valid_address P (JStr a) \<and> a \<noteq> t_from v)"

lemma check_fee_nonce_memo_None:
  "check_fee_nonce_memo t = None \<longleftrightarrow>
     (\<exists>f n. jint (jget t ''fee'') = Some f \<and> 0 \<le> f \<and> jint (jget t ''nonce'') = Some n) \<and> memo_ok t"
  by (auto simp: check_fee_nonce_memo_def memo_ok_def split: option.splits json.splits)

lemma fields_ok_find: "fields_ok t \<longleftrightarrow>
    filter (\<lambda>k. k \<notin> set ALLOWED_FIELDS) (keys t) = [] \<and> find (\<lambda>f. \<not> has_key t f) REQUIRED_FIELDS = None"
  by (auto simp: fields_ok_def filter_empty_conv find_None_iff has_key_def)

lemma fields_ok_has: "fields_ok t \<Longrightarrow> k \<in> set REQUIRED_FIELDS \<Longrightarrow> \<exists>v. map_of t k = Some v"
  unfolding fields_ok_def by (metis map_of_eq_None_iff not_Some_eq set_map subset_eq)

lemma map_res_length: "map_res f xs = Inr ys \<Longrightarrow> length ys = length xs"
  by (induction xs arbitrary: ys) (auto simp: rbind_Inr_conv)

lemma check_fields_None:
  assumes a: "tx_from t = JStr a"
  shows "check_fields_and_outputs P t = Inr None \<longleftrightarrow>
     fields_ok t \<and> memo_ok t \<and> (\<exists>v. read_tx t = Inr v \<and> t_from v = a \<and> transfer_ok P v)"
    (is "?L \<longleftrightarrow> ?R")
proof
  assume L: ?L
  then have f: "fields_ok t"
    by (auto simp: check_fields_and_outputs_def fields_ok_find Let_def split: if_splits option.splits)
  from L obtain outs where o: "jget t ''outputs'' = JArr outs" "outs \<noteq> []" "length outs \<le> MAX_OUTPUTS"
      "check_outputs P (JStr a) outs = Inr None" "check_fee_nonce_memo t = None"
    by (auto simp: check_fields_and_outputs_def a Let_def rbind_Inr_conv
        split: if_splits option.splits json.splits)
  from check_outputs_read[OF o(4)] obtain os where os: "map_res read_output outs = Inr os"
      "length os = length outs"
      "\<forall>(b, n)\<in>set os. 0 < n \<and> is_valid_address P (JStr b) \<and> JStr b \<noteq> JStr a" by blast
  from o(5) obtain fe n where fn: "jint (jget t ''fee'') = Some fe" "0 \<le> fe"
      "jint (jget t ''nonce'') = Some n" "memo_ok t" by (auto simp: check_fee_nonce_memo_None)
  have "read_tx t = Inr \<lparr>t_from = a, t_outs = os, t_fee = fe, t_nonce = n\<rparr>"
    using fields_ok_has[OF f, of "''from''"] fields_ok_has[OF f, of "''outputs''"]
      fields_ok_has[OF f, of "''fee''"] fields_ok_has[OF f, of "''nonce''"] a o(1) os(1) fn
    by (auto simp: read_tx_def read_str_def read_int_def read_outputs_def tx_from_def jget_def
        get_or_def REQUIRED_FIELDS_def)
  moreover have "transfer_ok P \<lparr>t_from = a, t_outs = os, t_fee = fe, t_nonce = n\<rparr>"
    using o(2,3) os fn(2) by (auto simp: transfer_ok_def)
  ultimately show ?R using f fn(4) by auto
next
  assume ?R
  then obtain v where f: "fields_ok t" and m: "memo_ok t" and v: "read_tx t = Inr v" "t_from v = a"
    and t: "transfer_ok P v" by blast
  from v(1) obtain outs where o: "map_of t ''outputs'' = Some (JArr outs)"
      "map_res read_output outs = Inr (t_outs v)"
    and fn: "read_int ''fee'' t = Inr (t_fee v)" "read_int ''nonce'' t = Inr (t_nonce v)"
    by (auto simp: read_tx_def read_outputs_def rbind_Inr_conv split: option.splits json.splits)
  have "check_outputs P (JStr a) outs = Inr None"
    using t v(2) by (intro read_check_outputs[OF o(2)]) (auto simp: transfer_ok_def)
  moreover have "check_fee_nonce_memo t = None"
    using fn m t by (auto simp: check_fee_nonce_memo_None read_int_def jget_def get_or_def
        transfer_ok_def split: option.splits)
  moreover have "outs \<noteq> []" "length outs \<le> MAX_OUTPUTS"
    using t map_res_length[OF o(2)] o(2) by (auto simp: transfer_ok_def)
  ultimately show ?L
    using f o(1) by (auto simp: check_fields_and_outputs_def fields_ok_find a Let_def jget_def get_or_def)
qed

lemma signature_from:
  "fst (check_signature P cache t) = None \<Longrightarrow> \<exists>a. tx_from t = JStr a"
  by (cases "tx_from t") (auto simp: check_signature_def Let_def split: json.splits option.splits if_splits)

lemma read_tx_from: "read_tx t = Inr v \<Longrightarrow> tx_from t = JStr (t_from v)"
  by (auto simp: read_tx_def read_str_def tx_from_def jget_def get_or_def rbind_Inr_conv
      split: option.splits json.splits)

lemma read_tx_parts:
  "read_tx t = Inr v \<longleftrightarrow> read_str ''from'' t = Inr (t_from v) \<and> read_outputs t = Inr (t_outs v)
     \<and> read_int ''fee'' t = Inr (t_fee v) \<and> read_int ''nonce'' t = Inr (t_nonce v)"
  by (cases v) (auto simp: read_tx_def rbind_Inr_conv)

lemma check_nonce_read:
  "read_tx t = Inr v \<Longrightarrow> check_nonce g t = Inr None \<longleftrightarrow> t_nonce v = g (t_from v) + 1"
  by (simp add: read_tx_parts check_nonce_def)

lemma check_balance_read:
  "read_tx t = Inr v \<Longrightarrow> check_balance g t = Inr None \<longleftrightarrow> outs_total (t_outs v) + t_fee v \<le> g (t_from v)"
  by (auto simp: read_tx_parts check_balance_def Let_def)

lemma check_board_fee_read:
  "read_tx t = Inr v \<Longrightarrow> check_board_fee posts ov t = Inr None \<longleftrightarrow>
     (if is_board_post t
      then (case ov of Some f \<Rightarrow> f | None \<Rightarrow> board_fee_floor posts) \<le> t_fee v else True)"
  by (auto simp: read_tx_parts check_board_fee_def Let_def)

text \<open>\<^verbatim>\<open>tx.validate\<close> accepts a transaction exactly when its dict carries the required fields and
  no unknown one, every output is a positive integer amount to a well-formed address other than the
  sender, the memo is short enough, the sender is not the burn address, the signature check passes,
  the nonce is the sender's next one, the balance covers outputs plus fee, and a board post pays the
  floor (the frozen one when the caller gives it).\<close>

theorem tx_validate_iff:
  "tx_validate P cache bal non posts ov t = Inr None \<longleftrightarrow>
     fields_ok t \<and> memo_ok t \<and> fst (check_signature P cache t) = None \<and>
     (\<exists>v. read_tx t = Inr v \<and> transfer_ok P v \<and> t_from v \<noteq> burn_address P
        \<and> t_nonce v = non (t_from v) + 1
        \<and> outs_total (t_outs v) + t_fee v \<le> bal (t_from v)
        \<and> (if is_board_post t
            then (case ov of Some f \<Rightarrow> f | None \<Rightarrow> board_fee_floor posts) \<le> t_fee v else True))"
    (is "?L \<longleftrightarrow> ?R")
proof (cases "fst (check_signature P cache t) = None")
  case True
  then obtain a where a: "tx_from t = JStr a" using signature_from by blast
  have "t_from v = a" if "read_tx t = Inr v" for v using read_tx_from[OF that] a by simp
  with True show ?thesis
    by (auto simp: tx_validate_def res_simps check_fields_None[OF a] check_not_from_burn_address_def a
        check_nonce_read check_balance_read check_board_fee_read)
next
  case False
  then show ?thesis unfolding tx_validate_def and_then_None sum.inject by blast
qed

text \<open>The facts a ledger needs about an accepted transaction.\<close>

lemma tx_validate_read:
  assumes "tx_validate P cache bal non posts ov t = Inr None"
  obtains v where "read_tx t = Inr v" "transfer_ok P v" "t_from v \<noteq> burn_address P"
    "t_nonce v = non (t_from v) + 1" "outs_total (t_outs v) + t_fee v \<le> bal (t_from v)"
  using assms by (simp only: tx_validate_iff) blast

section \<open>The signature and its cache\<close>

lemma keys_update_present [simp]: "k \<in> set (keys d) \<Longrightarrow> keys (AList.update k v d) = keys d"
  by (induction d) auto

lemma without_update [simp]: "without k (AList.update k v d) = without k d"
  by (induction d) (auto simp: without_def)

lemma jget_update [simp]: "jget (AList.update k v d) k' = (if k = k' then v else jget d k')"
  by (simp add: jget_def)

lemma check_signature_spaces:
  assumes "map_of t ''signature'' = Some (JStr sg)" "fromhex sg \<noteq> None"
    and "\<forall>c\<in>set w. ascii_space c"
  shows "fst (check_signature P (\<lambda>_. None) (AList.update ''signature'' (JStr (sg @ w)) t))
    = fst (check_signature P (\<lambda>_. None) t)"
proof (cases "jget t ''pubkey''")
  case (JStr pk)
  have "jget t ''signature'' = JStr sg" using assms(1) by (simp add: jget_def get_or_def)
  moreover have "fromhex (sg @ w) = fromhex sg" by (rule fromhex_append_spaces) (use assms in auto)
  ultimately show ?thesis using JStr
    by (simp add: check_signature_def serialize_for_signing_def tx_from_def Let_def split: option.split)
qed (simp_all add: check_signature_def)

text \<open>The signature field is malleable by anyone: \<^verbatim>\<open>bytes.fromhex\<close> skips white space, so
  appending white space to the signature's hex changes neither the verdict of \<^verbatim>\<open>validate\<close> (asked
  with no cached verdict) nor the transaction's hash, its priced size or its fee rate, however
  much is appended. The signature field has no length bound.\<close>

theorem signature_padding:
  assumes "map_of t ''signature'' = Some (JStr sg)" and "fromhex sg \<noteq> None"
    and "\<forall>c\<in>set w. ascii_space c"
  defines "t' \<equiv> AList.update ''signature'' (JStr (sg @ w)) t"
  shows "tx_validate P (\<lambda>_. None) bal non posts ov t' = tx_validate P (\<lambda>_. None) bal non posts ov t
    \<and> tx_hash P t' = tx_hash P t \<and> tx_size P t' = tx_size P t \<and> fee_rate P t' = fee_rate P t
    \<and> jget t' ''signature'' = JStr (sg @ w)"
proof -
  have "''signature'' \<in> set (keys t)"
    using assms(1) by (metis domI dom_map_of_conv_image_fst set_map)
  then have ks: "keys t' = keys t" unfolding t'_def by (rule keys_update_present)
  then have hk: "has_key t' k = has_key t k" for k by (simp only: has_key_def)
  have g: "jget t' k = jget t k" if "k \<noteq> ''signature''" for k using that by (simp add: t'_def)
  have mo: "map_of t' ''memo'' = map_of t ''memo''" by (simp add: t'_def dict_simps)
  have gs: "jget t' ''fee'' = jget t ''fee''" "jget t' ''nonce'' = jget t ''nonce''"
    "jget t' ''outputs'' = jget t ''outputs''" "tx_from t' = tx_from t"
    by (simp_all add: g tx_from_def)
  have fnm: "check_fee_nonce_memo t' = check_fee_nonce_memo t"
    unfolding check_fee_nonce_memo_def mo gs ..
  have f: "check_fields_and_outputs P t' = check_fields_and_outputs P t"
    unfolding check_fields_and_outputs_def ks hk gs fnm ..
  have s: "fst (check_signature P (\<lambda>_. None) t') = fst (check_signature P (\<lambda>_. None) t)"
    unfolding t'_def by (rule check_signature_spaces[OF assms(1-3)])
  have r: "read_str ''from'' t' = read_str ''from'' t" "read_int ''nonce'' t' = read_int ''nonce'' t"
    "read_int ''fee'' t' = read_int ''fee'' t" "read_outputs t' = read_outputs t"
    by (simp_all add: t'_def read_str_def read_int_def read_outputs_def dict_simps)
  have b: "is_board_post t' = is_board_post t" by (simp add: is_board_post_def mo)
  have "tx_validate P (\<lambda>_. None) bal non posts ov t' = tx_validate P (\<lambda>_. None) bal non posts ov t"
    unfolding tx_validate_def f s check_nonce_def check_balance_def check_board_fee_def r b
      check_not_from_burn_address_def gs ..
  moreover have "without ''signature'' t' = without ''signature'' t" by (simp add: t'_def)
  moreover have "jget t' ''signature'' = JStr (sg @ w)" by (simp add: t'_def)
  ultimately show ?thesis by (simp add: tx_hash_def tx_size_def fee_rate_def tx_fee_def gs)
qed

text \<open>
  The cache answers only what \<^const>\<open>verify\<close> answered for some message with the same digest;
  eviction may drop entries. Where SHA-256 does not collide, it is transparent.
\<close>

definition sound_cache :: "prims \<Rightarrow> (sig_key \<Rightarrow> bool option) \<Rightarrow> bool" where
  "sound_cache P cache \<longleftrightarrow> (\<forall>h sg pk b. cache (h, sg, pk) = Some b \<longrightarrow>
     (\<exists>msg sgb pkb. h = sha256 P msg \<and> fromhex sg = Some sgb \<and> fromhex pk = Some pkb
        \<and> b = verify P msg sgb pkb))"

text \<open>The cache as it is after the call.\<close>

definition stored :: "(sig_key \<Rightarrow> bool option) \<Rightarrow> (sig_key \<times> bool) option \<Rightarrow> sig_key \<Rightarrow> bool option" where
  "stored cache w = (case w of None \<Rightarrow> cache | Some (k, b) \<Rightarrow> cache(k := Some b))"

text \<open>The signature cache is transparent: with a cache that holds only verdicts \<^verbatim>\<open>verify\<close> gave,
  whatever was evicted from it, and no SHA-256 collision with the bytes being checked, the
  cached check answers what the uncached one answers, and what it stores keeps the cache sound.\<close>

theorem signature_cache_transparent:
  assumes "sound_cache P cache"
    and "\<And>msg. sha256 P msg = sha256 P (serialize_for_signing P t) \<Longrightarrow> msg = serialize_for_signing P t"
  shows "fst (check_signature P cache t) = fst (check_signature P (\<lambda>_. None) t)
    \<and> sound_cache P (stored cache (snd (check_signature P cache t)))"
proof (cases "jget t ''pubkey''")
  case pk: (JStr pk)
  show ?thesis
  proof (cases "jget t ''signature''")
    case sg: (JStr sg)
    show ?thesis
    proof (cases "fromhex pk = None \<or> fromhex sg = None")
      case True
      with pk sg assms(1) show ?thesis
        by (auto simp: check_signature_def stored_def split: option.splits)
    next
      case False
      then obtain pkb sgb where b: "fromhex pk = Some pkb" "fromhex sg = Some sgb" by auto
      let ?m = "serialize_for_signing P t"
      have hit: "v = verify P ?m sgb pkb" if "cache (sha256 P ?m, sg, pk) = Some v" for v
        using assms that b unfolding sound_cache_def by (metis option.inject)
      have "sound_cache P (cache((sha256 P ?m, sg, pk) := Some (verify P ?m sgb pkb)))"
        using assms(1) b unfolding sound_cache_def by auto
      with pk sg b hit assms(1) show ?thesis
        by (auto simp: check_signature_def stored_def Let_def split: option.split)
    qed
  qed (use pk assms(1) in \<open>simp_all add: check_signature_def stored_def\<close>)
qed (use assms(1) in \<open>simp_all add: check_signature_def stored_def\<close>)

text \<open>A transaction built by \<^verbatim>\<open>create\<close> from a key pair passes the signature check, given
  FALCON's correctness: the signature of a message under the secret key verifies under the public one.\<close>

theorem create_tx_verifies:
  assumes "\<And>msg. falcon_verify P msg (falcon_sign P msg sk) pk = Some True"
    and "from_addr = public_key_to_address P pk"
  shows "fst (check_signature P (\<lambda>_. None)
    (create_tx P from_addr (tohex pk) outs nonce fee sk memo)) = None"
proof -
  let ?t = "create_tx P from_addr (tohex pk) outs nonce fee sk memo"
  let ?body = "[(''from'', JStr from_addr), (''pubkey'', JStr (tohex pk)), (''outputs'', JArr outs),
      (''nonce'', JInt nonce), (''fee'', JInt fee)] @ (if memo \<noteq> [] then [(''memo'', JStr memo)] else [])"
  let ?msg = "serialize_for_signing P ?body"
  have t: "?t = AList.update ''signature'' (JStr (tohex (falcon_sign P ?msg sk))) ?body"
    unfolding create_tx_def Let_def sign_def by (rule refl)
  then have m: "serialize_for_signing P ?t = ?msg"
    unfolding serialize_for_signing_def by (simp only: without_update)
  have g: "jget ?t ''pubkey'' = JStr (tohex pk)" "jget ?t ''from'' = JStr from_addr"
    "jget ?t ''signature'' = JStr (tohex (falcon_sign P ?msg sk))"
    unfolding t by (simp_all add: jget_def get_or_def)
  show ?thesis
    using assms(1) by (simp add: check_signature_def g tx_from_def m verify_def assms(2)[symmetric] Let_def)
qed

section \<open>Fee floor\<close>

text \<open>The board fee floor is a staircase: constant inside a step of 250 posts, tripled from one
  step to the next, never falling, and 1 tick for the first step.\<close>

theorem board_fee_floor_staircase:
  assumes "0 \<le> n" and "n \<le> m"
  shows "board_fee_floor n \<le> board_fee_floor m
    \<and> board_fee_floor (n + BOARD_STEP_SIZE) = 3 * board_fee_floor n
    \<and> board_fee_floor n = board_fee_floor (BOARD_STEP_SIZE * (n div BOARD_STEP_SIZE))
    \<and> 0 < board_fee_floor n \<and> board_fee_floor 0 = 1"
proof -
  note defs = board_fee_floor_def BOARD_BASE_FEE_def BOARD_FEE_RATIO_def BOARD_STEP_SIZE_def
  have "n div 250 \<le> m div 250" using assms(2) by (rule zdiv_mono1) simp
  then have "board_fee_floor n \<le> board_fee_floor m" by (simp add: defs power_increasing)
  moreover have "nat (n div 250 + 1) = Suc (nat (n div 250))"
    using assms(1) by (simp add: Suc_nat_eq_nat_zadd1 pos_imp_zdiv_nonneg_iff)
  then have "board_fee_floor (n + BOARD_STEP_SIZE) = 3 * board_fee_floor n" by (simp add: defs)
  ultimately show ?thesis by (simp add: defs)
qed

section \<open>Examples\<close>

definition demo_tx :: "int \<Rightarrow> int \<Rightarrow> tx" where
  "demo_tx nonce amount =
     [(''from'', JStr (demo_addr CHR ''a'')), (''pubkey'', JStr ''00''),
      (''outputs'', JArr [JObj [(''to'', JStr (demo_addr CHR ''b'')), (''amount'', JInt amount)]]),
      (''nonce'', JInt nonce), (''fee'', JInt 1), (''signature'', JStr ''00'')]"

lemma demo_tx_read: "read_tx (demo_tx n m) = Inr \<lparr>t_from = demo_addr CHR ''a'',
    t_outs = [(demo_addr CHR ''b'', m)], t_fee = 1, t_nonce = n\<rparr>"
  by (simp add: demo_tx_def read_tx_def read_str_def read_int_def read_outputs_def)

lemma demo_hex: "fromhex ''00'' = Some [char_of (0::nat)]"
  by (simp add: ascii_space_def hexval_def)

lemma demo_tx_signature: "fst (check_signature demo_prims (\<lambda>_. None) (demo_tx n m)) = None"
  by (simp add: check_signature_def demo_tx_def jget_def get_or_def demo_hex demo_key_address
      tx_from_def verify_def Let_def del: fromhex.simps)

lemma demo_tx_fields: "fields_ok (demo_tx n m)" "memo_ok (demo_tx n m)" "\<not> is_board_post (demo_tx n m)"
  by (simp_all add: fields_ok_def ALLOWED_FIELDS_def REQUIRED_FIELDS_def OPTIONAL_FIELDS_def
      demo_tx_def memo_ok_def is_board_post_def)

lemma demo_tx_valid:
  assumes "0 < m" "bal (demo_addr CHR ''a'') \<ge> m + 1" "n = non (demo_addr CHR ''a'') + 1"
  shows "tx_validate demo_prims (\<lambda>_. None) bal non posts ov (demo_tx n m) = Inr None"
proof -
  have "fields_ok (demo_tx n m) \<and> memo_ok (demo_tx n m)
      \<and> fst (check_signature demo_prims (\<lambda>_. None) (demo_tx n m)) = None
      \<and> transfer_ok demo_prims \<lparr>t_from = demo_addr CHR ''a'', t_outs = [(demo_addr CHR ''b'', m)],
          t_fee = 1, t_nonce = n\<rparr>"
    using assms by (simp add: demo_tx_fields demo_tx_signature transfer_ok_def MAX_OUTPUTS_def)
  moreover have "check_fields_and_outputs demo_prims (demo_tx n m) = Inr None"
    using calculation check_fields_None[of "demo_tx n m" "demo_addr CHR ''a''" demo_prims]
    by (simp add: demo_tx_read read_tx_from)
  ultimately show ?thesis using assms
    by (simp add: tx_validate_def res_simps check_not_from_burn_address_def demo_burn
        check_nonce_read[OF demo_tx_read] check_balance_read[OF demo_tx_read]
        check_board_fee_read[OF demo_tx_read] demo_tx_fields read_tx_from[OF demo_tx_read] outs_total_def)
qed

theorem signature_padding_witness:
  "tx_validate demo_prims (\<lambda>_. None) (\<lambda>_. 10) (\<lambda>_. 0) 0 None
     (AList.update ''signature'' (JStr (''00'' @ ''   '')) (demo_tx 1 5)) = Inr None"
proof -
  have v: "tx_validate demo_prims (\<lambda>_. None) (\<lambda>_. 10) (\<lambda>_. 0) 0 None (demo_tx 1 5) = Inr None"
    by (rule demo_tx_valid) simp_all
  have "map_of (demo_tx 1 5) ''signature'' = Some (JStr ''00'')" by (simp add: demo_tx_def)
  moreover have "fromhex ''00'' \<noteq> None" by (simp add: demo_hex del: fromhex.simps)
  moreover have "\<forall>c\<in>set ''   ''. ascii_space c" by (simp add: ascii_space_def)
  ultimately show ?thesis using signature_padding[of "demo_tx 1 5" "''00''" "''   ''"] v by metis
qed

theorem signature_cache_transparent_witness:
  "sound_cache demo_prims (\<lambda>_. None)
   \<and> sound_cache demo_prims (stored (\<lambda>_. None) (snd (check_signature demo_prims (\<lambda>_. None) (demo_tx 1 5))))"
proof -
  have s: "sound_cache demo_prims (\<lambda>_. None)" by (simp add: sound_cache_def)
  moreover have "msg = msg'" if "sha256 demo_prims msg = sha256 demo_prims msg'" for msg msg'
    using that by (simp add: sha256_def)
  ultimately show ?thesis using signature_cache_transparent[of demo_prims "\<lambda>_. None" "demo_tx 1 5"] by blast
qed

theorem create_tx_verifies_witness:
  "fst (check_signature demo_prims (\<lambda>_. None)
     (create_tx demo_prims (demo_addr CHR ''a'') (tohex ''k'') [] 1 1 ''s'' ''hi'')) = None"
  by (rule create_tx_verifies) (simp_all add: demo_key_address)

theorem board_fee_floor_staircase_witness:
  "board_fee_floor 499 \<le> board_fee_floor 500 \<and> board_fee_floor 500 = 9"
  using board_fee_floor_staircase[of 499 500]
  by (simp add: board_fee_floor_def BOARD_BASE_FEE_def BOARD_FEE_RATIO_def BOARD_STEP_SIZE_def)

section \<open>An exception that leaves validate\<close>

text \<open>Validation is not total on wire data: a transaction with the right fields whose first
  output is a number (so that \<^verbatim>\<open>"to" not in out\<close> asks membership in a number) makes
  \<^verbatim>\<open>validate\<close> raise TypeError instead of returning a verdict, whatever the ledger.\<close>

theorem tx_validate_raises:
  assumes "fields_ok t" and "jget t ''outputs'' = JArr (JInt n # outs)" and "length outs < MAX_OUTPUTS"
  shows "tx_validate P cache bal non posts ov t = Inl TypeError"
proof -
  have "check_output P (tx_from t) (JInt n) = Inl TypeError" by (simp add: check_output_def)
  with assms have "check_fields_and_outputs P t = Inl TypeError"
    by (simp add: check_fields_and_outputs_def fields_ok_find)
  then show ?thesis by (simp add: tx_validate_def and_then_def)
qed

theorem tx_validate_raises_witness:
  "tx_validate demo_prims (\<lambda>_. None) (\<lambda>_. 0) (\<lambda>_. 0) 0 None
     (AList.update ''outputs'' (JArr [JInt 7]) (demo_tx 1 5)) = Inl TypeError"
  by (rule tx_validate_raises[where n = 7 and outs = "[]"])
    (simp_all add: demo_tx_def fields_ok_def ALLOWED_FIELDS_def REQUIRED_FIELDS_def OPTIONAL_FIELDS_def
      jget_def get_or_def MAX_OUTPUTS_def)

end
