(* ===== verification/Ledger.thy ===== *)
theory Ledger
  imports Tx
begin

text \<open>
  \<^verbatim>\<open>src/src/state.py\<close>: balances, nonces, emission and board-post counters, and the dirty set.
  The interface a transaction is applied through (\<^verbatim>\<open>get_balance\<close>, \<^verbatim>\<open>get_nonce\<close>, \<^verbatim>\<open>credit\<close>,
  \<^verbatim>\<open>debit\<close>, \<^verbatim>\<open>set_nonce\<close>) is the locale \<open>ledger\<close>: the State here and the mempool's
  overlay both provide it. The methods that mutate the object return the new one.
\<close>

record state =
  balances :: "(string, int) dict"
  nonces :: "(string, int) dict"
  total_minted :: int
  total_board_posts :: int
  dirty :: "string set"

definition compute_can_mint :: "int \<Rightarrow> int" where
  "compute_can_mint minted = max 0 (SUPPLY_CAP - minted)"

definition compute_reward :: "int \<Rightarrow> int" where
  "compute_reward minted =
     (compute_can_mint minted * EMISSION_DECAY_NUMERATOR) div EMISSION_DECAY_DENOMINATOR"

definition empty_state :: state where
  "empty_state = \<lparr>balances = [], nonces = [], total_minted = 0, total_board_posts = 0, dirty = {}\<rparr>"

definition get_balance :: "state \<Rightarrow> string \<Rightarrow> int" where
  "get_balance s addr = get_or (balances s) addr 0"

definition get_nonce :: "state \<Rightarrow> string \<Rightarrow> int" where
  "get_nonce s addr = get_or (nonces s) addr 0"

definition get_all_balances :: "state \<Rightarrow> int list" where
  "get_all_balances s = map snd (balances s)"

definition credit :: "state \<Rightarrow> string \<Rightarrow> int \<Rightarrow> state res" where
  "credit s addr amount =
     (if amount \<le> 0 then Inl ValueError
      else Inr (s\<lparr>balances := AList.update addr (get_balance s addr + amount) (balances s),
                  dirty := insert addr (dirty s)\<rparr>))"

definition debit :: "state \<Rightarrow> string \<Rightarrow> int \<Rightarrow> state res" where
  "debit s addr amount =
     (if amount \<le> 0 then Inl ValueError
      else (let bal = get_balance s addr in
        if bal < amount then Inl ValueError
        else (let remaining = bal - amount in
          Inr (s\<lparr>balances := (if remaining \<noteq> 0 then AList.update addr remaining (balances s)
                              else AList.delete addr (balances s)),
                 dirty := insert addr (dirty s)\<rparr>))))"

definition set_nonce :: "state \<Rightarrow> string \<Rightarrow> int \<Rightarrow> state" where
  "set_nonce s addr nonce =
     s\<lparr>nonces := AList.update addr nonce (nonces s), dirty := insert addr (dirty s)\<rparr>"

definition dirty_addresses :: "state \<Rightarrow> string set" where
  "dirty_addresses s = dirty s"

definition mark_persisted :: "state \<Rightarrow> state" where
  "mark_persisted s = s\<lparr>dirty := {}\<rparr>"

text \<open>
  The body \<^verbatim>\<open>State.apply_tx\<close> and \<^verbatim>\<open>_Overlay.apply_tx\<close> share, over the ledger operations:
  debit the sender, credit every output, advance the nonce. All reads of the transaction come
  first; a call that raises is abandoned with its state by every caller.
\<close>

definition credit_all :: "('s \<Rightarrow> string \<Rightarrow> int \<Rightarrow> 's res) \<Rightarrow> 's \<Rightarrow> (string \<times> int) list \<Rightarrow> 's res" where
  "credit_all cr s outs = foldr_res (\<lambda>s (a, n). cr s a n) s outs"

definition pay :: "('s \<Rightarrow> string \<Rightarrow> int \<Rightarrow> 's res) \<Rightarrow> ('s \<Rightarrow> string \<Rightarrow> int \<Rightarrow> 's res)
    \<Rightarrow> ('s \<Rightarrow> string \<Rightarrow> int \<Rightarrow> 's) \<Rightarrow> 's \<Rightarrow> transfer \<Rightarrow> 's res" where
  "pay db cr sn s v =
     rbind (db s (t_from v) (outs_total (t_outs v) + t_fee v)) (\<lambda>s1.
     rbind (credit_all cr s1 (t_outs v)) (\<lambda>s2.
       Inr (sn s2 (t_from v) (t_nonce v))))"

definition apply_tx :: "state \<Rightarrow> tx \<Rightarrow> state res" where
  "apply_tx s t = rbind (read_tx t) (\<lambda>v.
     rbind (pay debit credit set_nonce s v) (\<lambda>s'.
       Inr (if is_board_post t then s'\<lparr>total_board_posts := total_board_posts s' + 1\<rparr> else s')))"

definition state_can_mint :: "state \<Rightarrow> int" where
  "state_can_mint s = compute_can_mint (total_minted s)"

definition compute_block_reward :: "state \<Rightarrow> int" where
  "compute_block_reward s = compute_reward (total_minted s)"

definition apply_reward_distribution :: "state \<Rightarrow> (string \<times> int) list \<Rightarrow> state res" where
  "apply_reward_distribution s distribution =
     foldr_res (\<lambda>s (addr, amount).
       if amount \<ge> 1
       then rbind (credit s addr amount) (\<lambda>s'. Inr (s'\<lparr>total_minted := total_minted s' + amount\<rparr>))
       else Inr s) s distribution"

definition from_snapshot :: "(string, int) dict \<Rightarrow> (string, int) dict \<Rightarrow> int \<Rightarrow> int \<Rightarrow> state" where
  "from_snapshot bals nons minted posts =
     empty_state\<lparr>balances := filter (\<lambda>(_, bal). bal \<noteq> 0) bals, nonces := nons,
                 total_minted := minted, total_board_posts := posts\<rparr>"

definition snapshot :: "state \<Rightarrow> state" where
  "snapshot s = \<lparr>balances = balances s, nonces = nonces s, total_minted = total_minted s,
     total_board_posts = total_board_posts s, dirty = dirty s\<rparr>"

definition all_balances :: "state \<Rightarrow> (string, int) dict" where
  "all_balances s = balances s"

definition all_nonces :: "state \<Rightarrow> (string, int) dict" where
  "all_nonces s = nonces s"

lemma snapshot_id [simp]: "snapshot s = s"
  by (simp add: snapshot_def)

section \<open>The ledger interface\<close>

text \<open>What one address receives from a list of outputs.\<close>

definition received :: "(string \<times> int) list \<Rightarrow> string \<Rightarrow> int" where
  "received outs b = sum_list (map (\<lambda>(a, n). if a = b then n else 0) outs)"

lemma received_simps [simp]:
  "received [] b = 0" "received ((a, n) # outs) b = (if a = b then n else 0) + received outs b"
  by (simp_all add: received_def)

locale ledger =
  fixes bal :: "'s \<Rightarrow> string \<Rightarrow> int"
    and non :: "'s \<Rightarrow> string \<Rightarrow> int"
    and cr :: "'s \<Rightarrow> string \<Rightarrow> int \<Rightarrow> 's res"
    and db :: "'s \<Rightarrow> string \<Rightarrow> int \<Rightarrow> 's res"
    and sn :: "'s \<Rightarrow> string \<Rightarrow> int \<Rightarrow> 's"
    and inv :: "'s \<Rightarrow> bool"
  assumes cr_ok: "inv s \<Longrightarrow> 0 < n \<Longrightarrow> \<exists>s'. cr s a n = Inr s' \<and> inv s'
      \<and> (\<forall>b. bal s' b = bal s b + (if b = a then n else 0)) \<and> non s' = non s"
    and cr_bad: "n \<le> 0 \<Longrightarrow> cr s a n = Inl ValueError"
    and db_ok: "inv s \<Longrightarrow> 0 < n \<Longrightarrow> n \<le> bal s a \<Longrightarrow> \<exists>s'. db s a n = Inr s' \<and> inv s'
      \<and> (\<forall>b. bal s' b = bal s b - (if b = a then n else 0)) \<and> non s' = non s"
    and db_bad: "n \<le> 0 \<or> bal s a < n \<Longrightarrow> db s a n = Inl ValueError"
    and sn_inv: "inv s \<Longrightarrow> inv (sn s a k)"
    and sn_bal: "bal (sn s a k) = bal s"
    and sn_non: "non (sn s a k) = (non s)(a := k)"
begin

lemma credit_all_ok:
  assumes "inv s" "\<forall>(a, n)\<in>set outs. 0 < n"
  shows "\<exists>s'. credit_all cr s outs = Inr s' \<and> inv s'
    \<and> (\<forall>b. bal s' b = bal s b + received outs b) \<and> non s' = non s"
  using assms
proof (induction outs arbitrary: s)
  case (Cons p outs)
  obtain a n where p: "p = (a, n)" by (cases p)
  with Cons.prems obtain s1 where s1: "cr s a n = Inr s1" "inv s1"
      "\<forall>b. bal s1 b = bal s b + (if b = a then n else 0)" "non s1 = non s"
    using cr_ok[of s n a] by auto
  from Cons.IH[OF s1(2)] Cons.prems s1 p show ?case
    by (auto simp: credit_all_def)
qed (simp add: credit_all_def)

text \<open>A payment whose amounts are positive and covered goes through, and moves exactly them.\<close>

lemma pay_ok:
  assumes "inv s" "\<forall>(a, n)\<in>set (t_outs v). 0 < n" "0 < outs_total (t_outs v) + t_fee v"
    and "outs_total (t_outs v) + t_fee v \<le> bal s (t_from v)"
  shows "\<exists>s'. pay db cr sn s v = Inr s' \<and> inv s'
    \<and> (\<forall>b. bal s' b = bal s b + received (t_outs v) b
         - (if b = t_from v then outs_total (t_outs v) + t_fee v else 0))
    \<and> non s' = (non s)(t_from v := t_nonce v)"
proof -
  from db_ok[OF assms(1,3,4)] obtain s1 where s1: "db s (t_from v) (outs_total (t_outs v) + t_fee v) = Inr s1"
      "inv s1" "\<forall>b. bal s1 b = bal s b - (if b = t_from v then outs_total (t_outs v) + t_fee v else 0)"
      "non s1 = non s" by blast
  from credit_all_ok[OF s1(2) assms(2)] obtain s2 where s2: "credit_all cr s1 (t_outs v) = Inr s2"
      "inv s2" "\<forall>b. bal s2 b = bal s1 b + received (t_outs v) b" "non s2 = non s1" by blast
  show ?thesis using s1 s2 by (simp add: pay_def sn_inv sn_bal sn_non)
qed

lemma pay_uncovered:
  "bal s (t_from v) < outs_total (t_outs v) + t_fee v \<Longrightarrow> pay db cr sn s v = Inl ValueError"
  by (simp add: pay_def db_bad)

end

text \<open>A ledger with a total that its operations move by exactly the amounts they are given.\<close>

locale ledger_total = ledger bal non cr db sn inv
  for bal :: "'s \<Rightarrow> string \<Rightarrow> int" and non :: "'s \<Rightarrow> string \<Rightarrow> int"
    and cr :: "'s \<Rightarrow> string \<Rightarrow> int \<Rightarrow> 's res" and db :: "'s \<Rightarrow> string \<Rightarrow> int \<Rightarrow> 's res"
    and sn :: "'s \<Rightarrow> string \<Rightarrow> int \<Rightarrow> 's" and inv :: "'s \<Rightarrow> bool" +
  fixes tot :: "'s \<Rightarrow> int"
  assumes tot_cr: "inv s \<Longrightarrow> cr s a n = Inr s' \<Longrightarrow> inv s' \<and> tot s' = tot s + n"
    and tot_db: "inv s \<Longrightarrow> db s a n = Inr s' \<Longrightarrow> inv s' \<and> tot s' = tot s - n"
    and tot_sn: "tot (sn s a k) = tot s"
begin

lemma credit_all_total:
  "inv s \<Longrightarrow> credit_all cr s outs = Inr s' \<Longrightarrow> inv s' \<and> tot s' = tot s + outs_total outs"
proof (induction outs arbitrary: s)
  case (Cons p outs)
  obtain a n where p: "p = (a, n)" by (cases p)
  with Cons.prems(2) obtain s1 where s1: "cr s a n = Inr s1" "credit_all cr s1 outs = Inr s'"
    by (auto simp: credit_all_def rbind_Inr_conv)
  with tot_cr[OF Cons.prems(1) s1(1)] Cons.IH[of s1] p show ?case by (simp add: outs_total_def)
qed (simp add: credit_all_def outs_total_def)

text \<open>Paying burns the fee: everything else the sender loses, a recipient gets.\<close>

lemma pay_total:
  assumes "inv s" "pay db cr sn s v = Inr s'"
  shows "inv s'" "tot s' = tot s - t_fee v"
proof -
  from assms(2) obtain s1 s2 where s: "db s (t_from v) (outs_total (t_outs v) + t_fee v) = Inr s1"
      "credit_all cr s1 (t_outs v) = Inr s2" "s' = sn s2 (t_from v) (t_nonce v)"
    by (auto simp: pay_def rbind_Inr_conv)
  from tot_db[OF assms(1) s(1)] credit_all_total[OF _ s(2)]
  have "inv s2" "tot s2 = tot s - t_fee v" by auto
  with s(3) show "inv s'" "tot s' = tot s - t_fee v" by (simp_all add: sn_inv tot_sn)
qed

end

section \<open>State is a ledger\<close>

definition state_inv :: "state \<Rightarrow> bool" where
  "state_inv s \<longleftrightarrow> wf_dict (balances s) \<and> wf_dict (nonces s) \<and> (\<forall>(a, n)\<in>set (balances s). 0 < n)"

definition total_supply :: "state \<Rightarrow> int" where
  "total_supply s = dict_sum id (balances s)"

lemma set_update_subset: "set (AList.update k v d) \<subseteq> insert (k, v) (set d)"
  by (induction d) auto

lemma set_delete_subset: "set (AList.delete k d) \<subseteq> set d"
  by (auto simp: AList.delete_eq)

lemma get_balance_nonneg: "state_inv s \<Longrightarrow> 0 \<le> get_balance s a"
  by (auto simp: state_inv_def get_balance_def get_or_def dest!: map_of_SomeD split: option.split)

lemma tsupply_update:
  "state_inv s \<Longrightarrow> dict_sum id (AList.update a n (balances s)) = total_supply s + n - get_balance s a"
  by (simp add: state_inv_def total_supply_def dict_sum_update get_balance_def get_or_def split: option.split)

lemma tsupply_delete:
  "state_inv s \<Longrightarrow> dict_sum id (AList.delete a (balances s)) = total_supply s - get_balance s a"
  by (simp add: state_inv_def total_supply_def dict_sum_delete get_balance_def get_or_def split: option.split)

lemma state_inv_update:
  assumes "state_inv s" "0 < n"
  shows "state_inv (s\<lparr>balances := AList.update a n (balances s), dirty := d\<rparr>)"
proof -
  have "0 < snd p" if "p \<in> set (AList.update a n (balances s))" for p
  proof -
    from set_update_subset[of a n "balances s"] that have "p = (a, n) \<or> p \<in> set (balances s)" by blast
    with assms show ?thesis by (auto simp: state_inv_def)
  qed
  with assms(1) show ?thesis by (auto simp: state_inv_def)
qed

lemma state_inv_delete:
  "state_inv s \<Longrightarrow> state_inv (s\<lparr>balances := AList.delete a (balances s), dirty := d\<rparr>)"
  using set_delete_subset[of a "balances s"] by (auto simp: state_inv_def)

lemma credit_InrD:
  assumes "state_inv s" "credit s a n = Inr s'"
  shows "0 < n" "state_inv s'" "total_supply s' = total_supply s + n"
    "get_balance s' b = get_balance s b + (if b = a then n else 0)" "get_nonce s' = get_nonce s"
    "total_minted s' = total_minted s" "dirty s' = insert a (dirty s)" "total_board_posts s' = total_board_posts s"
proof -
  from assms(2) have n: "0 < n"
    and s': "s' = s\<lparr>balances := AList.update a (get_balance s a + n) (balances s), dirty := insert a (dirty s)\<rparr>"
    by (auto simp: credit_def split: if_splits)
  have "0 < get_balance s a + n" using get_balance_nonneg[OF assms(1), of a] n by simp
  then show "state_inv s'" unfolding s' by (rule state_inv_update[OF assms(1)])
  show "total_supply s' = total_supply s + n" using tsupply_update[OF assms(1)] s' by (simp add: total_supply_def)
qed (use assms(2) in \<open>auto simp: credit_def get_balance_def get_nonce_def split: if_splits\<close>)

lemma debit_InrD:
  assumes "state_inv s" "debit s a n = Inr s'"
  shows "0 < n" "n \<le> get_balance s a" "state_inv s'" "total_supply s' = total_supply s - n"
    "get_balance s' b = get_balance s b - (if b = a then n else 0)" "get_nonce s' = get_nonce s"
    "total_minted s' = total_minted s" "dirty s' = insert a (dirty s)" "total_board_posts s' = total_board_posts s"
proof -
  let ?r = "get_balance s a - n"
  from assms(2) have n: "0 < n" "0 \<le> ?r"
    and s': "s' = s\<lparr>balances := (if ?r \<noteq> 0 then AList.update a ?r (balances s)
        else AList.delete a (balances s)), dirty := insert a (dirty s)\<rparr>"
    by (auto simp: debit_def Let_def split: if_splits)
  show "state_inv s'" unfolding s'
    using state_inv_update[OF assms(1), of ?r] state_inv_delete[OF assms(1)] n by auto
  show "total_supply s' = total_supply s - n" using tsupply_update[OF assms(1)] tsupply_delete[OF assms(1)] s'
    by (simp add: total_supply_def)
qed (use assms(2) in \<open>auto simp: debit_def get_balance_def get_nonce_def Let_def split: if_splits\<close>)

interpretation led: ledger_total get_balance get_nonce credit debit set_nonce state_inv total_supply
proof unfold_locales
  fix s a and n :: int assume s: "state_inv s" "0 < n"
  then obtain s' where s': "credit s a n = Inr s'" by (auto simp: credit_def)
  from credit_InrD[OF s(1) this] s' show "\<exists>s'. credit s a n = Inr s' \<and> state_inv s'
      \<and> (\<forall>b. get_balance s' b = get_balance s b + (if b = a then n else 0)) \<and> get_nonce s' = get_nonce s"
    by blast
next
  fix s a and n :: int assume s: "state_inv s" "0 < n" "n \<le> get_balance s a"
  then obtain s' where s': "debit s a n = Inr s'" by (auto simp: debit_def Let_def)
  from debit_InrD[OF s(1) this] s' show "\<exists>s'. debit s a n = Inr s' \<and> state_inv s'
      \<and> (\<forall>b. get_balance s' b = get_balance s b - (if b = a then n else 0)) \<and> get_nonce s' = get_nonce s"
    by blast
next
  fix s a n s' assume s: "state_inv s" "credit s a n = Inr s'"
  from credit_InrD[OF s] show "state_inv s' \<and> total_supply s' = total_supply s + n" by blast
next
  fix s a n s' assume s: "state_inv s" "debit s a n = Inr s'"
  from debit_InrD[OF s] show "state_inv s' \<and> total_supply s' = total_supply s - n" by blast
qed (auto simp: credit_def debit_def set_nonce_def state_inv_def total_supply_def get_balance_def
    get_nonce_def fun_eq_iff)

section \<open>Applying transactions\<close>

lemma set_nonce_frame [simp]:
  "state_inv s \<Longrightarrow> state_inv (set_nonce s a k)"
  "total_minted (set_nonce s a k) = total_minted s"
  "total_board_posts (set_nonce s a k) = total_board_posts s"
  "dirty (set_nonce s a k) = insert a (dirty s)"
  by (auto simp: set_nonce_def state_inv_def)

lemma state_inv_posts [simp]: "state_inv (s\<lparr>total_board_posts := n\<rparr>) = state_inv s"
  by (simp add: state_inv_def)

lemma state_posts_frame [simp]:
  "get_balance (s\<lparr>total_board_posts := n\<rparr>) = get_balance s"
  "get_nonce (s\<lparr>total_board_posts := n\<rparr>) = get_nonce s"
  "total_supply (s\<lparr>total_board_posts := n\<rparr>) = total_supply s"
  by (auto simp: get_balance_def get_nonce_def total_supply_def fun_eq_iff)

lemma state_minted_frame [simp]:
  "get_balance (s\<lparr>total_minted := n\<rparr>) = get_balance s"
  "get_nonce (s\<lparr>total_minted := n\<rparr>) = get_nonce s"
  "total_supply (s\<lparr>total_minted := n\<rparr>) = total_supply s"
  "state_inv (s\<lparr>total_minted := n\<rparr>) = state_inv s"
  by (auto simp: get_balance_def get_nonce_def total_supply_def fun_eq_iff state_inv_def)

lemma credit_minted:
  assumes "credit s a n = Inr s'"
  shows "total_minted s' = total_minted s" "total_board_posts s' = total_board_posts s"
    "dirty s' = insert a (dirty s)"
  using assms by (auto simp: credit_def split: if_splits)

lemma debit_minted:
  assumes "debit s a n = Inr s'"
  shows "total_minted s' = total_minted s" "total_board_posts s' = total_board_posts s"
    "dirty s' = insert a (dirty s)"
  using assms by (auto simp: debit_def Let_def split: if_splits)

lemma credit_all_minted:
  assumes "credit_all credit s outs = Inr s'"
  shows "total_minted s' = total_minted s" "total_board_posts s' = total_board_posts s"
proof -
  from assms have "foldr_res (\<lambda>s (a, n). credit s a n) s outs = Inr s'" by (simp add: credit_all_def)
  then show "total_minted s' = total_minted s"
    by (rule foldr_res_invariant[where I = "\<lambda>x. total_minted x = total_minted s"])
      (auto dest: credit_minted)
  from assms have "foldr_res (\<lambda>s (a, n). credit s a n) s outs = Inr s'" by (simp add: credit_all_def)
  then show "total_board_posts s' = total_board_posts s"
    by (rule foldr_res_invariant[where I = "\<lambda>x. total_board_posts x = total_board_posts s"])
      (auto dest: credit_minted)
qed

lemma pay_minted:
  assumes "pay debit credit set_nonce s v = Inr s'"
  shows "total_minted s' = total_minted s" "total_board_posts s' = total_board_posts s"
proof -
  from assms obtain s1 s2 where s: "debit s (t_from v) (outs_total (t_outs v) + t_fee v) = Inr s1"
      "credit_all credit s1 (t_outs v) = Inr s2" "s' = set_nonce s2 (t_from v) (t_nonce v)"
    by (auto simp: pay_def rbind_Inr_conv)
  from debit_minted[OF s(1)] credit_all_minted[OF s(2)] s(3)
  show "total_minted s' = total_minted s" "total_board_posts s' = total_board_posts s" by simp_all
qed

text \<open>Any successful application keeps the invariant and burns exactly the fee.\<close>

lemma apply_tx_InrD:
  assumes "state_inv s" "apply_tx s t = Inr s'"
  obtains v where "read_tx t = Inr v" "state_inv s'" "total_supply s' = total_supply s - t_fee v"
    "total_minted s' = total_minted s"
    "total_board_posts s' = total_board_posts s + (if is_board_post t then 1 else 0)"
proof -
  from assms(2) obtain v s1 where v: "read_tx t = Inr v" "pay debit credit set_nonce s v = Inr s1"
      "s' = (if is_board_post t then s1\<lparr>total_board_posts := total_board_posts s1 + 1\<rparr> else s1)"
    by (auto simp: apply_tx_def rbind_Inr_conv)
  show thesis using led.pay_total[OF assms(1) v(2)] pay_minted[OF v(2)] v(3)
    by (intro that[OF v(1)]) auto
qed

lemma outs_total_pos:
  "outs \<noteq> [] \<Longrightarrow> \<forall>(a, n)\<in>set outs. 0 < n \<Longrightarrow> 0 < outs_total outs"
proof (induction outs)
  case (Cons p outs)
  then show ?case by (cases "outs = []"; cases p) (auto simp: outs_total_def)
qed simp

text \<open>The effect of a transaction that passed validation.\<close>

lemma validated_tx_effect:
  assumes "state_inv s"
    and "tx_validate P cache (get_balance s) (get_nonce s) (total_board_posts s) ov t = Inr None"
  shows "\<exists>v s'. read_tx t = Inr v \<and> apply_tx s t = Inr s' \<and> state_inv s'
    \<and> get_balance s' = (\<lambda>b. get_balance s b + received (t_outs v) b
        - (if b = t_from v then outs_total (t_outs v) + t_fee v else 0))
    \<and> get_nonce s' = (get_nonce s)(t_from v := get_nonce s (t_from v) + 1)
    \<and> total_supply s' = total_supply s - t_fee v \<and> total_minted s' = total_minted s
    \<and> total_board_posts s' = total_board_posts s + (if is_board_post t then 1 else 0)"
proof -
  from assms(2) obtain v where v: "read_tx t = Inr v" "transfer_ok P v"
      "t_nonce v = get_nonce s (t_from v) + 1"
      "outs_total (t_outs v) + t_fee v \<le> get_balance s (t_from v)"
    by (rule tx_validate_read)
  then have pos: "\<forall>(a, n)\<in>set (t_outs v). 0 < n" by (auto simp: transfer_ok_def)
  with v(2) outs_total_pos[of "t_outs v"] have tot: "0 < outs_total (t_outs v) + t_fee v"
    by (simp add: transfer_ok_def)
  from led.pay_ok[OF assms(1) pos tot v(4)] obtain s1 where s1: "pay debit credit set_nonce s v = Inr s1"
      "state_inv s1"
      "\<forall>b. get_balance s1 b = get_balance s b + received (t_outs v) b
         - (if b = t_from v then outs_total (t_outs v) + t_fee v else 0)"
      "get_nonce s1 = (get_nonce s)(t_from v := t_nonce v)" by blast
  have "total_supply s1 = total_supply s - t_fee v" by (rule led.pay_total[OF assms(1) s1(1)])
  then show ?thesis using v(1,3) s1 pay_minted[OF s1(1)]
    by (simp add: apply_tx_def fun_eq_iff)
qed

text \<open>C5: A transaction that \<^verbatim>\<open>tx.validate\<close> accepted against a State applies without an
  exception: the sender loses outputs plus fee, each recipient gains its outputs, the sender's
  nonce becomes the transaction's, the sum of all balances falls by exactly the fee, emission is
  untouched, the post counter moves by one for a board post, and no zero balance is stored.\<close>

theorem validated_tx_applies:
  assumes "state_inv s"
    and "tx_validate P cache (get_balance s) (get_nonce s) (total_board_posts s) ov t = Inr None"
  shows "\<exists>v s'. read_tx t = Inr v \<and> apply_tx s t = Inr s' \<and> state_inv s'
    \<and> get_balance s' = (\<lambda>b. get_balance s b + received (t_outs v) b
        - (if b = t_from v then outs_total (t_outs v) + t_fee v else 0))
    \<and> get_nonce s' = (get_nonce s)(t_from v := get_nonce s (t_from v) + 1)
    \<and> total_supply s' = total_supply s - t_fee v \<and> total_minted s' = total_minted s
    \<and> total_board_posts s' = total_board_posts s + (if is_board_post t then 1 else 0)"
  using assms by (rule validated_tx_effect)

section \<open>Emission\<close>

lemma reward_facts:
  assumes "0 \<le> minted" and "minted \<le> SUPPLY_CAP" and "minted \<le> minted'"
  shows "0 \<le> compute_reward minted \<and> minted + compute_reward minted \<le> SUPPLY_CAP
    \<and> compute_reward minted' \<le> compute_reward minted
    \<and> (compute_reward minted = 0 \<longleftrightarrow> SUPPLY_CAP - minted < 7213476)"
proof -
  define c where "c = SUPPLY_CAP - minted"
  have c: "0 \<le> c" "compute_can_mint minted = c" using assms(2) by (simp_all add: c_def compute_can_mint_def)
  have r: "compute_reward minted = (c * 1386294265029292275522718605160789) div 10 ^ 40"
    using c(2) by (simp add: compute_reward_def EMISSION_DECAY_NUMERATOR_def EMISSION_DECAY_DENOMINATOR_def)
  have le: "c * 1386294265029292275522718605160789 \<le> c * 10 ^ 40" using c(1) by simp
  have "compute_reward minted \<le> (c * 10 ^ 40) div 10 ^ 40" unfolding r by (rule zdiv_mono1[OF le]) simp
  then have "compute_reward minted \<le> c" by simp
  moreover have "0 \<le> compute_reward minted" unfolding r using c(1) by simp
  moreover have "compute_reward minted = 0 \<longleftrightarrow> c < 7213476"
    unfolding r zdiv_eq_0_iff using c(1) by simp linarith
  moreover have "compute_reward minted' \<le> compute_reward minted"
    unfolding compute_reward_def EMISSION_DECAY_NUMERATOR_def EMISSION_DECAY_DENOMINATOR_def
    using assms(3) by (intro zdiv_mono1 mult_right_mono) (auto simp: compute_can_mint_def)
  ultimately show ?thesis by (simp add: c_def)
qed

text \<open>Emission never mints past the cap: the reward is never negative, never more than what
  is left to mint, falls (weakly) as more is minted, and is zero exactly from the point where less
  than 7213476 ticks are left.\<close>

theorem reward_bounds:
  assumes "0 \<le> minted" and "minted \<le> SUPPLY_CAP" and "minted \<le> minted'"
  shows "0 \<le> compute_reward minted \<and> minted + compute_reward minted \<le> SUPPLY_CAP
    \<and> compute_reward minted' \<le> compute_reward minted
    \<and> (compute_reward minted = 0 \<longleftrightarrow> SUPPLY_CAP - minted < 7213476)"
  using assms by (rule reward_facts)

lemma apply_reward_step:
  assumes "state_inv s" "1 \<le> n"
  shows "\<exists>s'. apply_reward_distribution s [(a, n)] = Inr s' \<and> state_inv s'
    \<and> total_supply s' = total_supply s + n \<and> total_minted s' = total_minted s + n
    \<and> (\<forall>b. get_balance s' b = get_balance s b + (if b = a then n else 0))
    \<and> get_nonce s' = get_nonce s \<and> total_board_posts s' = total_board_posts s"
proof -
  from assms(2) obtain s1 where s1: "credit s a n = Inr s1" by (auto simp: credit_def)
  from credit_InrD[OF assms(1) s1] assms(2) s1 show ?thesis
    by (simp add: apply_reward_distribution_def)
qed

text \<open>
  The dirty set covers every change: outside it the state still reads as the base it was last
  persisted against.
\<close>

definition tracks :: "state \<Rightarrow> state \<Rightarrow> bool" where
  "tracks base s \<longleftrightarrow> (\<forall>a. a \<notin> dirty s \<longrightarrow>
     get_balance s a = get_balance base a \<and> get_nonce s a = get_nonce base a)"

lemma tracks_credit: "tracks base s \<Longrightarrow> credit s a n = Inr s' \<Longrightarrow> tracks base s'"
  by (auto simp: tracks_def credit_def get_balance_def get_nonce_def split: if_splits)

lemma tracks_debit: "tracks base s \<Longrightarrow> debit s a n = Inr s' \<Longrightarrow> tracks base s'"
  by (auto simp: tracks_def debit_def get_balance_def get_nonce_def Let_def split: if_splits)

lemma tracks_set_nonce: "tracks base s \<Longrightarrow> tracks base (set_nonce s a n)"
  by (auto simp: tracks_def set_nonce_def get_balance_def get_nonce_def)

lemma tracks_frame [simp]:
  "tracks base (s\<lparr>total_minted := n\<rparr>) = tracks base s"
  "tracks base (s\<lparr>total_board_posts := n\<rparr>) = tracks base s"
  by (simp_all add: tracks_def)

lemma tracks_credit_all: "tracks base s \<Longrightarrow> credit_all credit s outs = Inr s' \<Longrightarrow> tracks base s'"
  unfolding credit_all_def
  by (erule foldr_res_invariant[where I = "tracks base"]) (auto intro: tracks_credit)

lemma tracks_pay: "tracks base s \<Longrightarrow> pay debit credit set_nonce s v = Inr s' \<Longrightarrow> tracks base s'"
  by (auto simp: pay_def rbind_Inr_conv intro!: tracks_set_nonce intro: tracks_credit_all tracks_debit)

text \<open>The dirty set is sound: starting from a State whose clean addresses read as they do on
  disk, applying a transaction or crediting a reward distribution leaves every clean address
  reading as on disk, so writing only the dirty addresses loses no change.\<close>

theorem dirty_tracks_changes:
  assumes "tracks base s"
  shows "(\<forall>s'. apply_tx s t = Inr s' \<longrightarrow> tracks base s')
    \<and> (\<forall>s'. apply_reward_distribution s payouts = Inr s' \<longrightarrow> tracks base s')
    \<and> tracks s (mark_persisted s)"
proof (intro conjI allI impI)
  fix s' assume "apply_tx s t = Inr s'"
  then obtain v s3 where "pay debit credit set_nonce s v = Inr s3"
      "s' = (if is_board_post t then s3\<lparr>total_board_posts := total_board_posts s3 + 1\<rparr> else s3)"
    by (auto simp: apply_tx_def rbind_Inr_conv)
  with tracks_pay[OF assms] show "tracks base s'" by simp
next
  fix s' assume "apply_reward_distribution s payouts = Inr s'"
  then show "tracks base s'"
    unfolding apply_reward_distribution_def using assms
    by (rule foldr_res_invariant[where I = "tracks base"])
      (auto simp: rbind_Inr_conv split: if_splits; erule (1) tracks_credit)
next
  show "tracks s (mark_persisted s)"
    by (simp add: tracks_def mark_persisted_def get_balance_def get_nonce_def)
qed

section \<open>Examples\<close>

definition demo_state :: state where
  "demo_state = \<lparr>balances = [(demo_addr CHR ''a'', 10)], nonces = [], total_minted = 10,
     total_board_posts = 0, dirty = {}\<rparr>"

lemma demo_state_simps [simp]: "state_inv demo_state" "get_balance demo_state (demo_addr CHR ''a'') = 10"
  "get_nonce demo_state a = 0" "total_supply demo_state = 10" "total_minted demo_state = 10"
  by (simp_all add: demo_state_def state_inv_def get_balance_def get_nonce_def get_or_def total_supply_def)

theorem validated_tx_applies_witness:
  "\<exists>s'. apply_tx demo_state (demo_tx 1 5) = Inr s' \<and> total_supply s' = 9"
proof -
  have "tx_validate demo_prims (\<lambda>_. None) (get_balance demo_state) (get_nonce demo_state)
      (total_board_posts demo_state) None (demo_tx 1 5) = Inr None"
    by (rule demo_tx_valid) simp_all
  from validated_tx_applies[OF demo_state_simps(1) this] obtain v s' where
    "read_tx (demo_tx 1 5) = Inr v" "apply_tx demo_state (demo_tx 1 5) = Inr s'"
    "total_supply s' = total_supply demo_state - t_fee v" by blast
  moreover from this(1) have "t_fee v = 1" by (auto simp: demo_tx_read)
  ultimately show ?thesis by (intro exI[of _ s']) simp
qed

theorem reward_bounds_witness:
  "0 \<le> compute_reward 0 \<and> compute_reward 0 = 291121795 \<and> compute_reward 5 \<le> compute_reward 0"
  using reward_bounds[of 0 5]
  by (simp add: compute_reward_def compute_can_mint_def param_defs)

theorem dirty_tracks_changes_witness:
  "tracks demo_state (mark_persisted demo_state)
   \<and> (\<exists>s'. apply_tx demo_state (demo_tx 1 5) = Inr s' \<and> tracks demo_state s')"
proof -
  have t: "tracks demo_state demo_state" by (simp add: tracks_def)
  have "tx_validate demo_prims (\<lambda>_. None) (get_balance demo_state) (get_nonce demo_state)
      (total_board_posts demo_state) None (demo_tx 1 5) = Inr None"
    by (rule demo_tx_valid) simp_all
  from validated_tx_effect[OF demo_state_simps(1) this] obtain s' where "apply_tx demo_state (demo_tx 1 5) = Inr s'"
    by blast
  with dirty_tracks_changes[OF t, of "demo_tx 1 5" "[]"] show ?thesis by blast
qed

end
