(* ===== verification/Vdf.thy ===== *)
theory Vdf
  imports Crypto
begin

text \<open>
  \<^verbatim>\<open>src/src/vdf.py\<close>: the wrapper around chiavdf. \<^verbatim>\<open>chiavdf.prove\<close>,
  \<^verbatim>\<open>create_discriminant\<close> and \<^verbatim>\<open>verify_n_wesolowski\<close> are fields of \<^typ>\<open>prims\<close>; whether the
  handle was cancelled by the time \<^verbatim>\<open>prove\<close> returned, and the two clock readings, are arguments.
\<close>

definition DISC_SIZE_BITS :: int where "DISC_SIZE_BITS = 1024"

definition FORM_SIZE :: nat where "FORM_SIZE = 100"

definition N_WESOLOWSKI :: int where "N_WESOLOWSKI = 0"

definition GENERATOR :: string where
  "GENERATOR = CHR 0x08 # replicate (FORM_SIZE - 1) (CHR 0x00)"

text \<open>An \<^verbatim>\<open>EvaluationHandle\<close>: the flag and whether the shutdown file exists.\<close>

record eval_handle =
  h_cancelled :: bool
  h_file :: bool

definition new_handle :: eval_handle where
  "new_handle = \<lparr>h_cancelled = False, h_file = True\<rparr>"

definition handle_cancel :: "eval_handle \<Rightarrow> eval_handle" where
  "handle_cancel h = h\<lparr>h_cancelled := True, h_file := False\<rparr>"

definition handle_cleanup :: "eval_handle \<Rightarrow> eval_handle" where
  "handle_cleanup h = h\<lparr>h_file := False\<rparr>"

text \<open>
  \<^verbatim>\<open>evaluate\<close>: the handle as it is when \<^verbatim>\<open>prove\<close> returns comes in, and goes out cleaned up;
  \<open>None\<close> is the exception \<^verbatim>\<open>Cancelled\<close>.
\<close>

definition vdf_evaluate :: "prims \<Rightarrow> string \<Rightarrow> int \<Rightarrow> eval_handle option \<Rightarrow> rat \<Rightarrow> rat
    \<Rightarrow> (string \<times> string \<times> rat) option \<times> eval_handle option" where
  "vdf_evaluate P challenge iterations handle t0 t1 =
     (let result = vdf_prove P challenge GENERATOR DISC_SIZE_BITS iterations;
          handle' = map_option handle_cleanup handle
      in (case handle' of
            Some h \<Rightarrow> if h_cancelled h then None
                      else Some (tohex (take FORM_SIZE result), tohex (drop FORM_SIZE result), t1 - t0)
          | None \<Rightarrow> Some (tohex (take FORM_SIZE result), tohex (drop FORM_SIZE result), t1 - t0),
          handle'))"

text \<open>
  \<^verbatim>\<open>verify\<close>: every exception inside the \<^verbatim>\<open>try\<close> is False. The iteration count comes from the
  block's JSON; chiavdf takes an integer and raises on anything else.
\<close>

definition vdf_verify :: "prims \<Rightarrow> string \<Rightarrow> string \<Rightarrow> string \<Rightarrow> json \<Rightarrow> bool" where
  "vdf_verify P challenge out proof iterations =
     (case (vdf_create_discriminant P challenge DISC_SIZE_BITS, fromhex out, fromhex proof, jint iterations) of
        (Some disc, Some o_bytes, Some p_bytes, Some n) \<Rightarrow>
          (case vdf_verify_n P disc GENERATOR (o_bytes @ p_bytes) n DISC_SIZE_BITS N_WESOLOWSKI of
             Some b \<Rightarrow> b | None \<Rightarrow> False)
      | _ \<Rightarrow> False)"

lemma vdf_verify_int: "vdf_verify P c out pr v \<Longrightarrow> \<exists>n. jint v = Some n"
  by (auto simp: vdf_verify_def split: option.splits)

text \<open>What \<^verbatim>\<open>evaluate\<close> returns and the block stores as two hex strings is put back together by
  \<^verbatim>\<open>verify\<close> byte for byte: verifying an evaluation's output hands chiavdf exactly the blob that
  \<^verbatim>\<open>prove\<close> returned, with the same generator, iteration count and discriminant size, and nothing
  is returned at all from a cancelled evaluation.\<close>

theorem evaluate_verify_roundtrip:
  "case vdf_evaluate P challenge n handle t0 t1 of
     (Some (out, proof, elapsed), _) \<Rightarrow>
        vdf_verify P challenge out proof (JInt n)
          = (case vdf_create_discriminant P challenge DISC_SIZE_BITS of None \<Rightarrow> False
             | Some disc \<Rightarrow> vdf_verify_n P disc GENERATOR
                  (vdf_prove P challenge GENERATOR DISC_SIZE_BITS n) n DISC_SIZE_BITS N_WESOLOWSKI = Some True)
        \<and> elapsed = t1 - t0
   | (None, h') \<Rightarrow> (\<exists>h. handle = Some h \<and> h_cancelled h \<and> h' = Some (handle_cleanup h))"
  by (auto simp: vdf_evaluate_def vdf_verify_def Let_def handle_cleanup_def split: option.splits)

end
