(* ===== verification/Block.thy ===== *)
theory Block
  imports Ledger Vdf
begin

text \<open>
  \<^verbatim>\<open>src/src/block.py\<close>: a block is the JSON dict that came off the wire or out of
  \<^verbatim>\<open>create\<close>, and a chain the list of them. \<^verbatim>\<open>time.time()\<close> is the argument \<open>now\<close>.
  A check returns \<open>Inr None\<close> for \<^verbatim>\<open>(True, None)\<close>, \<open>Inr (Some e)\<close> for \<^verbatim>\<open>(False, error)\<close>
  and \<open>Inl\<close> for an exception. Transactions are checked without the signature cache, which
  \<^theory_text>\<open>Tx\<close> proves transparent.
\<close>

type_synonym block = "(string, json) dict"
type_synonym blocks = "block list"

datatype block_error =
    SizeExceeded int
  | HashMismatch
  | NoParent
  | ParentHashMismatch
  | HeightMismatch
  | TimestampMissing
  | TimestampInFuture
  | TimestampTooEarly
  | InvalidBuilder
  | MissingVdf
  | IterationsMismatch
  | InvalidVdf
  | TxNotDict
  | InvalidTx tx_error

section \<open>Reading a block\<close>

definition read_field :: "string \<Rightarrow> (string, json) dict \<Rightarrow> json res" where
  "read_field k d = (case map_of d k of None \<Rightarrow> Inl (KeyError k) | Some v \<Rightarrow> Inr v)"

definition read_num :: "string \<Rightarrow> (string, json) dict \<Rightarrow> rat res" where
  "read_num k d = rbind (read_field k d) (\<lambda>v. case jnum v of None \<Rightarrow> Inl TypeError | Some x \<Rightarrow> Inr x)"

text \<open>Python's \<^verbatim>\<open>==\<close> between JSON values, one of which is a number, a string or None.\<close>

definition py_eq :: "json \<Rightarrow> json \<Rightarrow> bool" where
  "py_eq a b = (case (jnum a, jnum b) of (Some x, Some y) \<Rightarrow> x = y | _ \<Rightarrow> a = b)"

text \<open>What a \<^verbatim>\<open>for\<close> loop over a JSON value runs over.\<close>

fun iter_json :: "json \<Rightarrow> json list res" where
  "iter_json (JArr xs) = Inr xs"
| "iter_json (JObj d) = Inr (map (\<lambda>(k, _). JStr k) d)"
| "iter_json (JStr s) = Inr (map (\<lambda>c. JStr [c]) s)"
| "iter_json _ = Inl TypeError"

text \<open>\<^verbatim>\<open>v * a // b\<close> for a JSON value \<^verbatim>\<open>v\<close> and integers, \<^verbatim>\<open>b > 0\<close>, and \<^verbatim>\<open>v + a\<close>.\<close>

fun mul_floordiv :: "json \<Rightarrow> int \<Rightarrow> int \<Rightarrow> json res" where
  "mul_floordiv (JInt n) a b = Inr (JInt (n * a div b))"
| "mul_floordiv (JBool t) a b = Inr (JInt ((if t then 1 else 0) * a div b))"
| "mul_floordiv (JFloat r) a b = Inr (JFloat (of_int \<lfloor>r * of_int a / of_int b\<rfloor>))"
| "mul_floordiv _ a b = Inl TypeError"

fun add_int :: "json \<Rightarrow> int \<Rightarrow> json res" where
  "add_int (JInt n) a = Inr (JInt (n + a))"
| "add_int (JBool t) a = Inr (JInt ((if t then 1 else 0) + a))"
| "add_int (JFloat r) a = Inr (JFloat (r + of_int a))"
| "add_int _ a = Inl TypeError"

section \<open>The required iteration count\<close>

definition block_delta :: "blocks \<Rightarrow> nat \<Rightarrow> rat res" where
  "block_delta chain h = rbind (read_num ''timestamp'' (chain ! h)) (\<lambda>a.
     rbind (read_num ''timestamp'' (chain ! (h - 1))) (\<lambda>b. Inr (a - b)))"

definition iterations_of :: "block \<Rightarrow> json" where
  "iterations_of blk = get_or blk ''vdf_iterations'' (JInt VDF_ITERATIONS)"

definition get_vdf_iterations :: "blocks \<Rightarrow> json res" where
  "get_vdf_iterations chain =
     (let next_height = length chain in
      if next_height < VDF_ADJUST_INTERVAL then Inr (JInt VDF_ITERATIONS)
      else (let last_boundary = (next_height div VDF_ADJUST_INTERVAL) * VDF_ADJUST_INTERVAL in
        if next_height > last_boundary then Inr (iterations_of (chain ! last_boundary))
        else (let window_start = last_boundary - VDF_ADJUST_INTERVAL;
                  prior_iterations = iterations_of (chain ! window_start)
              in rbind (map_res (block_delta chain) [max window_start 1..<last_boundary]) (\<lambda>deltas.
                   if deltas \<noteq> [] \<and> median deltas < VDF_ADJUST_MIN_SECONDS
                   then mul_floordiv prior_iterations VDF_ADJUST_NUMERATOR VDF_ADJUST_DENOMINATOR
                   else Inr prior_iterations))))"

definition BLOCK_TIME_MEDIAN_WINDOW :: nat where "BLOCK_TIME_MEDIAN_WINDOW = 30"

definition ODDS_WINDOW_BLOCKS :: nat where "ODDS_WINDOW_BLOCKS = 720"

text \<open>
  \<^verbatim>\<open>block_time_stats\<close>: own interval, local median and their difference; \<open>height\<close> is a height
  of the chain.
\<close>

definition block_time_stats :: "blocks \<Rightarrow> nat \<Rightarrow> (rat \<times> rat \<times> rat) option res" where
  "block_time_stats chain height =
     (if height = 0 then Inr None
      else rbind (block_delta chain height) (\<lambda>own.
        (let lo = max 1 (height + 1 - BLOCK_TIME_MEDIAN_WINDOW)
         in rbind (map_res (block_delta chain) [lo..<height + 1]) (\<lambda>deltas.
              Inr (Some (own, median deltas, own - median deltas))))))"

text \<open>The rows of the newest iteration regime, oldest first; a builder that is falsy reads as the empty string.\<close>

fun race_rows :: "blocks \<Rightarrow> json \<Rightarrow> nat list \<Rightarrow> (nat \<times> rat \<times> json) list res" where
  "race_rows chain cur [] = Inr []"
| "race_rows chain cur (h # hs) =
     (if \<not> py_eq (jget (chain ! h) ''vdf_iterations'') cur then Inr []
      else rbind (block_delta chain h) (\<lambda>d. rbind (race_rows chain cur hs) (\<lambda>rows.
        Inr ((h, d, if truthy (jget (chain ! h) ''builder'') then jget (chain ! h) ''builder''
                    else JStr []) # rows))))"

definition race_window :: "blocks \<Rightarrow> (nat \<times> rat \<times> json) list res" where
  "race_window chain =
     (let n = length chain in
      if n < 2 then Inr []
      else rbind (race_rows chain (jget (last chain) ''vdf_iterations'')
                   (rev [max 1 (n - ODDS_WINDOW_BLOCKS)..<n])) (\<lambda>rows. Inr (rev rows)))"

section \<open>Challenge, keys, creation, hash\<close>

definition vdf_challenge :: "prims \<Rightarrow> string \<Rightarrow> string \<Rightarrow> string res" where
  "vdf_challenge P previous_hash builder =
     (case fromhex previous_hash of
        None \<Rightarrow> Inl ValueError
      | Some bs \<Rightarrow> Inr (sha256 P (bs @ utf8_encode builder)))"

definition tie_break_key :: "block \<Rightarrow> json res" where
  "tie_break_key blk =
     (if truthy (jget blk ''vdf_output'') then Inr (jget blk ''vdf_output'') else read_field ''hash'' blk)"

definition block_hash :: "prims \<Rightarrow> block \<Rightarrow> string" where
  "block_hash P blk = sha256_hex P (canonical_json P (JObj (without ''hash'' blk)))"

definition create_genesis :: "prims \<Rightarrow> block" where
  "create_genesis P =
     (let blk = [(''height'', JInt 0), (''previous_hash'', JStr (replicate 64 (CHR ''0''))),
                 (''transactions'', JArr []), (''builder'', JNull),
                 (''timestamp'', JInt GENESIS_TIMESTAMP), (''message'', JStr GENESIS_MESSAGE),
                 (''vdf_output'', JNull), (''vdf_proof'', JNull),
                 (''vdf_iterations'', JInt VDF_ITERATIONS)]
      in AList.update ''hash'' (JStr (block_hash P blk)) blk)"

definition create_block :: "prims \<Rightarrow> rat \<Rightarrow> json \<Rightarrow> json \<Rightarrow> json list \<Rightarrow> json \<Rightarrow> json \<Rightarrow> json
    \<Rightarrow> json option \<Rightarrow> json option \<Rightarrow> block" where
  "create_block P now height previous_hash transactions builder vdf_out vdf_proof timestamp iterations =
     (let blk = [(''height'', height), (''previous_hash'', previous_hash),
                 (''timestamp'', case timestamp of Some t \<Rightarrow> t | None \<Rightarrow> JFloat now),
                 (''transactions'', JArr transactions), (''builder'', builder),
                 (''vdf_output'', vdf_out), (''vdf_proof'', vdf_proof),
                 (''vdf_iterations'', case iterations of Some n \<Rightarrow> n | None \<Rightarrow> JInt VDF_ITERATIONS)]
      in AList.update ''hash'' (JStr (block_hash P blk)) blk)"

definition block_size :: "prims \<Rightarrow> block \<Rightarrow> int" where
  "block_size P blk = int (length (canonical_json P (JObj blk)))"

text \<open>\<^verbatim>\<open>t.get("fee", 0)\<close>, on an entry that need not be a dict.\<close>

fun fee_of :: "json \<Rightarrow> int res" where
  "fee_of (JObj d) = (case map_of d ''fee'' of None \<Rightarrow> Inr 0
     | Some v \<Rightarrow> (case jint v of None \<Rightarrow> Inl TypeError | Some n \<Rightarrow> Inr n))"
| "fee_of _ = Inl AttributeError"

definition block_fees :: "block \<Rightarrow> int res" where
  "block_fees blk = rbind (iter_json (get_or blk ''transactions'' (JArr []))) (\<lambda>ts.
     rbind (map_res fee_of ts) (\<lambda>fees. Inr (sum_list fees)))"

section \<open>Validation\<close>

definition check_hash :: "prims \<Rightarrow> block \<Rightarrow> block_error option res" where
  "check_hash P blk = Inr (if jget blk ''hash'' \<noteq> JStr (block_hash P blk) then Some HashMismatch else None)"

definition check_parent :: "block \<Rightarrow> blocks \<Rightarrow> block_error option res" where
  "check_parent blk chain =
     rbind (read_field ''height'' blk) (\<lambda>height.
       if py_eq height (JInt 0) then Inr None
       else if chain = [] then Inr (Some NoParent)
       else
         rbind (read_field ''previous_hash'' blk) (\<lambda>prev.
         rbind (read_field ''hash'' (last chain)) (\<lambda>parent_hash.
           if \<not> py_eq prev parent_hash then Inr (Some ParentHashMismatch)
           else rbind (read_num ''height'' (last chain)) (\<lambda>parent_height.
             Inr (if jnum height \<noteq> Some (parent_height + 1) then Some HeightMismatch else None)))))"

definition check_timestamp :: "rat \<Rightarrow> block \<Rightarrow> blocks \<Rightarrow> block_error option res" where
  "check_timestamp now blk chain =
     (case jnum (jget blk ''timestamp'') of
        None \<Rightarrow> Inr (Some TimestampMissing)
      | Some ts \<Rightarrow>
          if ts > now + TIMESTAMP_SKEW_SECONDS then Inr (Some TimestampInFuture)
          else if chain = [] then Inr None
          else rbind (read_num ''timestamp'' (last chain)) (\<lambda>parent_ts.
            Inr (if ts < parent_ts + MIN_BLOCK_SPACING_SECONDS then Some TimestampTooEarly else None)))"

definition check_builder_and_vdf :: "prims \<Rightarrow> block \<Rightarrow> blocks \<Rightarrow> block_error option res" where
  "check_builder_and_vdf P blk chain =
     rbind (read_field ''height'' blk) (\<lambda>height.
       if py_eq height (JInt 0) then Inr None
       else (case jget blk ''builder'' of
         JStr builder \<Rightarrow>
           if \<not> is_valid_address P (JStr builder) then Inr (Some InvalidBuilder)
           else (case (jget blk ''vdf_output'', jget blk ''vdf_proof'') of
             (JStr out, JStr proof) \<Rightarrow>
               rbind (get_vdf_iterations chain) (\<lambda>expected.
                 if \<not> py_eq (iterations_of blk) expected then Inr (Some IterationsMismatch)
                 else if chain = [] then Inl IndexError
                 else rbind (read_str ''hash'' (last chain)) (\<lambda>parent_hash.
                   rbind (vdf_challenge P parent_hash builder) (\<lambda>challenge.
                     Inr (if vdf_verify P challenge out proof (iterations_of blk)
                          then None else Some InvalidVdf))))
           | _ \<Rightarrow> Inr (Some MissingVdf))
       | _ \<Rightarrow> Inr (Some InvalidBuilder)))"

text \<open>
  \<^verbatim>\<open>_apply_transactions\<close> changes the state it is given; the state comes back beside the verdict,
  as far as the loop got.
\<close>

fun apply_tx_list :: "prims \<Rightarrow> int \<Rightarrow> json list \<Rightarrow> state \<Rightarrow> (block_error option \<times> state) res" where
  "apply_tx_list P board_floor [] s = Inr (None, s)"
| "apply_tx_list P board_floor (JObj t # ts) s =
     rbind (tx_validate P (\<lambda>_. None) (get_balance s) (get_nonce s) (total_board_posts s) (Some board_floor) t)
       (\<lambda>r. case r of
          Some e \<Rightarrow> Inr (Some (InvalidTx e), s)
        | None \<Rightarrow> rbind (apply_tx s t) (\<lambda>s'. apply_tx_list P board_floor ts s'))"
| "apply_tx_list P board_floor (_ # ts) s = Inr (Some TxNotDict, s)"

definition apply_transactions :: "prims \<Rightarrow> block \<Rightarrow> state \<Rightarrow> (block_error option \<times> state) res" where
  "apply_transactions P blk s =
     rbind (read_field ''transactions'' blk) (\<lambda>v. rbind (iter_json v) (\<lambda>ts.
       apply_tx_list P (board_fee_floor (total_board_posts s)) ts s))"

definition block_validate :: "prims \<Rightarrow> rat \<Rightarrow> block \<Rightarrow> state \<Rightarrow> blocks \<Rightarrow> (block_error option \<times> state) res" where
  "block_validate P now blk s chain =
     (let size = block_size P blk in
      if size > BLOCK_SIZE_LIMIT then Inr (Some (SizeExceeded size), s)
      else rbind
        (and_then (check_hash P blk)
        (and_then (check_parent blk chain)
        (and_then (check_timestamp now blk chain)
                  (check_builder_and_vdf P blk chain))))
        (\<lambda>r. case r of
           Some e \<Rightarrow> Inr (Some e, s)
         | None \<Rightarrow> apply_transactions P blk s))"

section \<open>Assembly\<close>

text \<open>
  The candidates come from the mempool: they have been validated, so nonces and fees are read with
  the total readers, and everything that is not a dict is dropped as the code drops it.
\<close>

definition tx_dicts :: "json list \<Rightarrow> tx list" where
  "tx_dicts js = List.map_filter (\<lambda>j. case j of JObj d \<Rightarrow> Some d | _ \<Rightarrow> None) js"

definition drop_cheap_posts :: "int \<Rightarrow> json list \<Rightarrow> json list" where
  "drop_cheap_posts min_fee txs =
     (if min_fee \<noteq> 0
      then filter (\<lambda>j. \<not> (case j of JObj t \<Rightarrow> is_board_post t \<and> tx_fee t < min_fee | _ \<Rightarrow> False)) txs
      else txs)"

definition add_to_group :: "(json, tx list) dict \<Rightarrow> tx \<Rightarrow> (json, tx list) dict" where
  "add_to_group d t = AList.update (tx_from t) (get_or d (tx_from t) [] @ [t]) d"

definition group_by_sender :: "tx list \<Rightarrow> (json, tx list) dict" where
  "group_by_sender ts = foldl add_to_group [] ts"

text \<open>\<^verbatim>\<open>sorted(..., reverse=True)\<close> keeps the order of equal elements.\<close>

definition sender_groups :: "prims \<Rightarrow> tx list \<Rightarrow> tx list list" where
  "sender_groups P ts =
     sort_key (\<lambda>g. - fee_rate P (hd g)) (map (\<lambda>(_, g). sort_key tx_nonce g) (group_by_sender ts))"

text \<open>The inner loop over one group, with its \<^verbatim>\<open>break\<close>, and the loop over the groups.\<close>

fun fill_group :: "prims \<Rightarrow> tx list \<Rightarrow> int \<Rightarrow> tx list \<Rightarrow> tx list \<times> int" where
  "fill_group P valid running [] = (valid, running)"
| "fill_group P valid running (t # ts) =
     (let t_size = tx_size_in_block P t (length valid) in
      if running + t_size > BLOCK_SIZE_LIMIT then (valid, running)
      else fill_group P (valid @ [t]) (running + t_size) ts)"

fun fill_groups :: "prims \<Rightarrow> tx list \<Rightarrow> int \<Rightarrow> tx list list \<Rightarrow> tx list \<times> int" where
  "fill_groups P valid running [] = (valid, running)"
| "fill_groups P valid running (g # gs) =
     (let (valid', running') = fill_group P valid running g in fill_groups P valid' running' gs)"

text \<open>\<^verbatim>\<open>max(time.time(), tip["timestamp"] + MIN_BLOCK_SPACING_SECONDS)\<close>\<close>

definition assemble_timestamp :: "rat \<Rightarrow> block \<Rightarrow> json res" where
  "assemble_timestamp now tip = rbind (read_field ''timestamp'' tip) (\<lambda>v. rbind (add_int v 90) (\<lambda>floor.
     Inr (case jnum floor of Some x \<Rightarrow> if x > now then floor else JFloat now | None \<Rightarrow> JFloat now)))"

definition assemble :: "prims \<Rightarrow> rat \<Rightarrow> block \<Rightarrow> json list \<Rightarrow> string \<Rightarrow> json \<Rightarrow> int \<Rightarrow> block res" where
  "assemble P now tip txs builder_addr iterations min_fee =
     rbind (read_field ''height'' tip) (\<lambda>h. rbind (add_int h 1) (\<lambda>next_height.
     rbind (assemble_timestamp now tip) (\<lambda>timestamp.
     rbind (read_field ''hash'' tip) (\<lambda>tip_hash.
       (let skeleton = create_block P now next_height tip_hash [] (JStr builder_addr) JNull JNull
                         (Some timestamp) (Some iterations);
            base_size = block_size P skeleton;
            groups = sender_groups P (tx_dicts (drop_cheap_posts min_fee txs));
            (valid_txs, running) = fill_groups P [] base_size groups
        in Inr (AList.delete ''hash''
             (AList.update ''tx_bytes'' (JInt (running - base_size))
               (AList.update ''transactions'' (JArr (map JObj valid_txs)) skeleton))))))))"

section \<open>What an accepted block is\<close>

lemma block_validate_None:
  "block_validate P now blk s chain = Inr (None, s') \<longleftrightarrow>
     block_size P blk \<le> BLOCK_SIZE_LIMIT \<and> check_hash P blk = Inr None \<and> check_parent blk chain = Inr None
     \<and> check_timestamp now blk chain = Inr None \<and> check_builder_and_vdf P blk chain = Inr None
     \<and> apply_transactions P blk s = Inr (None, s')"
proof (cases "block_size P blk \<le> BLOCK_SIZE_LIMIT")
  case True
  then have "block_validate P now blk s chain = Inr (None, s') \<longleftrightarrow>
      and_then (check_hash P blk) (and_then (check_parent blk chain)
        (and_then (check_timestamp now blk chain) (check_builder_and_vdf P blk chain))) = Inr None
      \<and> apply_transactions P blk s = Inr (None, s')"
    by (auto simp: block_validate_def Let_def rbind_Inr_conv split: option.splits)
  with True show ?thesis by (simp add: res_simps)
qed (simp add: block_validate_def Let_def)

text \<open>A block that can be a parent: the fields its child's checks read are there and have their types.\<close>

definition parent_ok :: "block \<Rightarrow> string \<Rightarrow> rat \<Rightarrow> rat \<Rightarrow> bool" where
  "parent_ok b h height ts \<longleftrightarrow> map_of b ''hash'' = Some (JStr h) \<and> read_num ''height'' b = Inr height
     \<and> read_num ''timestamp'' b = Inr ts"

lemma jget_Some: "jget d k = v \<Longrightarrow> v \<noteq> JNull \<Longrightarrow> map_of d k = Some v"
  by (auto simp: jget_def get_or_def split: option.splits)

lemma py_eq_str [simp]: "py_eq v (JStr s) \<longleftrightarrow> v = JStr s"
  by (cases v) (auto simp: py_eq_def)

lemma check_hash_None: "check_hash P blk = Inr None \<longleftrightarrow> jget blk ''hash'' = JStr (block_hash P blk)"
  by (simp add: check_hash_def)

lemma check_parent_None:
  assumes "parent_ok (last chain) ph n pts" "chain \<noteq> []" "jget blk ''height'' = v" "jnum v = Some h" "h \<noteq> 0"
  shows "check_parent blk chain = Inr None \<longleftrightarrow> jget blk ''previous_hash'' = JStr ph \<and> h = n + 1"
proof -
  from assms(3,4) have "map_of blk ''height'' = Some v" by (intro jget_Some) auto
  with assms show ?thesis
    by (auto simp: check_parent_def read_field_def parent_ok_def py_eq_def rbind_Inr_conv jget_def get_or_def
        split: option.splits if_splits)
qed

lemma check_timestamp_None:
  assumes "parent_ok (last chain) ph n pts" "chain \<noteq> []"
  shows "check_timestamp now blk chain = Inr None \<longleftrightarrow>
    (\<exists>ts. jnum (jget blk ''timestamp'') = Some ts \<and> pts + MIN_BLOCK_SPACING_SECONDS \<le> ts
        \<and> ts \<le> now + TIMESTAMP_SKEW_SECONDS)"
  using assms by (auto simp: check_timestamp_def parent_ok_def split: option.splits)

lemma check_builder_None:
  assumes "parent_ok (last chain) ph n pts" "chain \<noteq> []" "jget blk ''height'' = v" "jnum v = Some h" "h \<noteq> 0"
  shows "check_builder_and_vdf P blk chain = Inr None \<longleftrightarrow>
    (\<exists>a out proof required bs. jget blk ''builder'' = JStr a \<and> is_valid_address P (JStr a)
      \<and> jget blk ''vdf_output'' = JStr out \<and> jget blk ''vdf_proof'' = JStr proof
      \<and> get_vdf_iterations chain = Inr required \<and> py_eq (iterations_of blk) required
      \<and> fromhex ph = Some bs \<and> vdf_verify P (sha256 P (bs @ utf8_encode a)) out proof (iterations_of blk))"
proof -
  from assms(3,4) have m: "map_of blk ''height'' = Some v" by (intro jget_Some) auto
  have z: "\<not> py_eq v (JInt 0)" using assms(4,5) by (simp add: py_eq_def)
  have r: "read_str ''hash'' (last chain) = Inr ph" using assms(1) by (simp add: parent_ok_def read_str_def)
  show ?thesis
  proof (cases "jget blk ''builder''")
    case b: (JStr a)
    show ?thesis
    proof (cases "jget blk ''vdf_output''")
      case o: (JStr out)
      show ?thesis
        using assms(2) by (cases "jget blk ''vdf_proof''")
          (auto simp: check_builder_and_vdf_def read_field_def m z b o r rbind_Inr_conv vdf_challenge_def
            split: option.splits)
    qed (simp_all add: check_builder_and_vdf_def read_field_def m z b)
  qed (simp_all add: check_builder_and_vdf_def read_field_def m z)
qed

text \<open>C3: A block at a height other than 0 on top of a parent is accepted exactly when it is within the
  size limit, its hash is the hash of its own content, it names the parent's hash and the next
  height, its time is at least 90 s after the parent's and at most 30 s ahead of the clock, its builder
  is a well-formed address, its iteration count is the one the chain requires and its VDF proof verifies
  for that count over the challenge made of the parent's hash and the builder, and its
  transactions apply one after the other.\<close>

theorem block_validate_iff:
  assumes "parent_ok (last chain) ph n pts" and "chain \<noteq> []"
    and "jget blk ''height'' = v" and "jnum v = Some h" and "h \<noteq> 0"
  shows "block_validate P now blk s chain = Inr (None, s') \<longleftrightarrow>
     block_size P blk \<le> BLOCK_SIZE_LIMIT
   \<and> jget blk ''hash'' = JStr (block_hash P blk)
   \<and> jget blk ''previous_hash'' = JStr ph \<and> h = n + 1
   \<and> (\<exists>ts. jnum (jget blk ''timestamp'') = Some ts \<and> pts + 90 \<le> ts \<and> ts \<le> now + 30)
   \<and> (\<exists>a out proof required bs. jget blk ''builder'' = JStr a \<and> is_valid_address P (JStr a)
        \<and> jget blk ''vdf_output'' = JStr out \<and> jget blk ''vdf_proof'' = JStr proof
        \<and> get_vdf_iterations chain = Inr required \<and> py_eq (iterations_of blk) required
        \<and> fromhex ph = Some bs \<and> vdf_verify P (sha256 P (bs @ utf8_encode a)) out proof (iterations_of blk))
   \<and> apply_transactions P blk s = Inr (None, s')"
  unfolding block_validate_None check_hash_None check_parent_None[OF assms]
    check_builder_None[OF assms] check_timestamp_None[OF assms(1,2)]
    MIN_BLOCK_SPACING_SECONDS_def TIMESTAMP_SKEW_SECONDS_def by blast

section \<open>What a block's transactions do to the ledger\<close>

lemma fee_of_read: "read_tx t = Inr v \<Longrightarrow> fee_of (JObj t) = Inr (t_fee v)"
  by (auto simp: read_tx_parts read_int_def split: option.splits)

lemma apply_tx_list_dicts: "apply_tx_list P f ts s = Inr (None, s') \<Longrightarrow> \<exists>txs. ts = map JObj txs"
proof (induction P f ts s arbitrary: s' rule: apply_tx_list.induct)
  case (2 P f t ts s)
  then obtain s1 where "apply_tx s t = Inr s1" "apply_tx_list P f ts s1 = Inr (None, s')"
    "tx_validate P (\<lambda>_. None) (get_balance s) (get_nonce s) (total_board_posts s) (Some f) t = Inr None"
    by (auto simp: rbind_Inr_conv split: option.splits)
  with 2 obtain txs where "ts = map JObj txs" by blast
  then show ?case by (intro exI[of _ "t # txs"]) simp
qed auto

text \<open>How often an address is the sender of a list of transactions.\<close>

definition sent_by :: "string \<Rightarrow> tx list \<Rightarrow> tx list" where
  "sent_by a txs = filter (\<lambda>t. tx_from t = JStr a) txs"

definition board_posts :: "tx list \<Rightarrow> int" where
  "board_posts txs = int (length (filter is_board_post txs))"

lemma apply_tx_list_effect:
  assumes "apply_tx_list P f (map JObj txs) s = Inr (None, s')" "state_inv s"
  shows "foldr_res apply_tx s txs = Inr s' \<and> state_inv s'
    \<and> (\<exists>fees. map_res fee_of (map JObj txs) = Inr fees \<and> (\<forall>n\<in>set fees. 0 \<le> n)
        \<and> total_supply s' = total_supply s - sum_list fees)
    \<and> total_minted s' = total_minted s
    \<and> total_board_posts s' = total_board_posts s + board_posts txs
    \<and> (\<forall>a. map tx_nonce (sent_by a txs) = map (\<lambda>i. get_nonce s a + 1 + int i) [0..<length (sent_by a txs)]
         \<and> get_nonce s' a = get_nonce s a + int (length (sent_by a txs)))"
  using assms
proof (induction txs arbitrary: s)
  case (Cons t txs)
  let ?v = "tx_validate P (\<lambda>_. None) (get_balance s) (get_nonce s) (total_board_posts s) (Some f) t"
  from Cons.prems(1) obtain s1 where s1: "?v = Inr None" "apply_tx s t = Inr s1"
      "apply_tx_list P f (map JObj txs) s1 = Inr (None, s')"
    by (auto simp: rbind_Inr_conv split: option.splits)
  from validated_tx_effect[OF Cons.prems(2) s1(1)] s1(2) obtain v where v: "read_tx t = Inr v" "state_inv s1"
      "get_nonce s1 = (get_nonce s)(t_from v := get_nonce s (t_from v) + 1)"
      "total_supply s1 = total_supply s - t_fee v" "total_minted s1 = total_minted s"
      "total_board_posts s1 = total_board_posts s + (if is_board_post t then 1 else 0)" by auto
  from s1(1) v(1) have ok: "transfer_ok P v" "t_nonce v = get_nonce s (t_from v) + 1"
    by (auto elim!: tx_validate_read)
  from Cons.IH[OF s1(3) v(2)] obtain fees where IH: "foldr_res apply_tx s1 txs = Inr s'" "state_inv s'"
      "map_res fee_of (map JObj txs) = Inr fees" "\<forall>n\<in>set fees. 0 \<le> n"
      "total_supply s' = total_supply s1 - sum_list fees" "total_minted s' = total_minted s1"
      "total_board_posts s' = total_board_posts s1 + board_posts txs"
      "\<And>a. map tx_nonce (sent_by a txs) = map (\<lambda>i. get_nonce s1 a + 1 + int i) [0..<length (sent_by a txs)]"
      "\<And>a. get_nonce s' a = get_nonce s1 a + int (length (sent_by a txs))" by blast
  have fees: "map_res fee_of (map JObj (t # txs)) = Inr (t_fee v # fees)"
    using IH(3) fee_of_read[OF v(1)] by simp
  have n: "tx_nonce t = t_nonce v" using v(1) by (auto simp: read_tx_parts read_int_def tx_nonce_def jget_def
        get_or_def split: option.splits)
  have from_eq: "tx_from t = JStr (t_from v)" by (rule read_tx_from[OF v(1)])
  have nonces: "map tx_nonce (sent_by a (t # txs))
        = map (\<lambda>i. get_nonce s a + 1 + int i) [0..<length (sent_by a (t # txs))]
      \<and> get_nonce s' a = get_nonce s a + int (length (sent_by a (t # txs)))" for a
  proof (cases "t_from v = a")
    case True
    then have l: "sent_by a (t # txs) = t # sent_by a txs" by (simp add: sent_by_def from_eq)
    have "map tx_nonce (t # sent_by a txs)
        = map (\<lambda>i. get_nonce s a + 1 + int i) (0 # map Suc [0..<length (sent_by a txs)])"
      using IH(8)[of a] True v(3) ok(2) n by simp
    then show ?thesis unfolding l using IH(9)[of a] True v(3)
      by (simp add: upt_conv_Cons map_Suc_upt del: upt_Suc)
  next
    case False
    then have "sent_by a (t # txs) = sent_by a txs" by (simp add: sent_by_def from_eq)
    with IH(8,9)[of a] False v(3) show ?thesis by simp
  qed
  show ?case
    using s1(2) IH(1,2,4,5,6,7) v(4-6) fees ok(1) nonces
    by (auto simp: transfer_ok_def board_posts_def)
qed (simp add: sent_by_def board_posts_def)

lemma apply_transactions_effect:
  assumes "apply_transactions P blk s = Inr (None, s')" and "state_inv s"
  shows "\<exists>txs fees. iter_json (jget blk ''transactions'') = Inr (map JObj txs)
    \<and> foldr_res apply_tx s txs = Inr s' \<and> state_inv s'
    \<and> block_fees blk = Inr fees \<and> 0 \<le> fees \<and> total_supply s' = total_supply s - fees
    \<and> total_minted s' = total_minted s \<and> total_board_posts s' = total_board_posts s + board_posts txs
    \<and> (\<forall>a. map tx_nonce (sent_by a txs) = map (\<lambda>i. get_nonce s a + 1 + int i) [0..<length (sent_by a txs)]
         \<and> get_nonce s' a = get_nonce s a + int (length (sent_by a txs)))"
proof -
  from assms(1) obtain v ts where v: "map_of blk ''transactions'' = Some v" "iter_json v = Inr ts"
      "apply_tx_list P (board_fee_floor (total_board_posts s)) ts s = Inr (None, s')"
    by (auto simp: apply_transactions_def read_field_def rbind_Inr_conv split: option.splits)
  from apply_tx_list_dicts[OF v(3)] obtain txs where txs: "ts = map JObj txs" by blast
  from apply_tx_list_effect[OF v(3)[unfolded txs] assms(2)] obtain fees where
    f: "map_res fee_of ts = Inr fees" "\<forall>n\<in>set fees. 0 \<le> n" "total_supply s' = total_supply s - sum_list fees"
    unfolding txs by blast
  have "block_fees blk = Inr (sum_list fees)" using v f by (simp add: block_fees_def get_or_def)
  moreover have "0 \<le> sum_list fees" using f(2) by (intro sum_list_nonneg) auto
  moreover have "iter_json (jget blk ''transactions'') = Inr (map JObj txs)"
    using v txs by (simp add: jget_def get_or_def)
  ultimately show ?thesis using apply_tx_list_effect[OF v(3)[unfolded txs] assms(2)] f(3) by blast
qed

text \<open>The transactions of a block that passed \<^verbatim>\<open>_apply_transactions\<close> are all dicts, and what the
  check did to the state is what \<^verbatim>\<open>State.apply_tx\<close> does when replaying them without any check. They burn
  exactly the block's fees (each of them non-negative), mint nothing, move the post counter by the
  board posts among them, and every sender's transactions carry its next nonces in order, without gap.\<close>

theorem block_transactions_effect:
  assumes "apply_transactions P blk s = Inr (None, s')" and "state_inv s"
  shows "\<exists>txs fees. iter_json (jget blk ''transactions'') = Inr (map JObj txs)
    \<and> foldr_res apply_tx s txs = Inr s' \<and> state_inv s'
    \<and> block_fees blk = Inr fees \<and> 0 \<le> fees \<and> total_supply s' = total_supply s - fees
    \<and> total_minted s' = total_minted s \<and> total_board_posts s' = total_board_posts s + board_posts txs
    \<and> (\<forall>a. map tx_nonce (sent_by a txs) = map (\<lambda>i. get_nonce s a + 1 + int i) [0..<length (sent_by a txs)]
         \<and> get_nonce s' a = get_nonce s a + int (length (sent_by a txs)))"
  using assms by (rule apply_transactions_effect)

section \<open>What \<^verbatim>\<open>assemble\<close> packs\<close>

text \<open>The bytes a list of transactions takes in a block.\<close>

definition txs_bytes :: "prims \<Rightarrow> tx list \<Rightarrow> int" where
  "txs_bytes P ts = sum_list (map2 (tx_size_in_block P) ts [0..<length ts])"

lemma txs_bytes_snoc: "txs_bytes P (ts @ [t]) = txs_bytes P ts + tx_size_in_block P t (length ts)"
  by (simp add: txs_bytes_def)

lemma fill_group_prefix:
  assumes "fill_group P valid running g = (valid', running')"
  shows "\<exists>k\<le>length g. valid' = valid @ take k g
    \<and> running' - txs_bytes P valid' = running - txs_bytes P valid
    \<and> (running' \<le> BLOCK_SIZE_LIMIT \<or> k = 0)"
  using assms
proof (induction P valid running g rule: fill_group.induct)
  case (2 P valid running t ts)
  let ?sz = "tx_size_in_block P t (length valid)"
  show ?case
  proof (cases "running + ?sz > BLOCK_SIZE_LIMIT")
    case True
    with 2(2) show ?thesis by (intro exI[of _ 0]) (auto simp: Let_def)
  next
    case False
    with 2(2) have "fill_group P (valid @ [t]) (running + ?sz) ts = (valid', running')" by (simp add: Let_def)
    from 2(1)[OF refl False this] obtain k where k: "k \<le> length ts" "valid' = (valid @ [t]) @ take k ts"
        "running' - txs_bytes P valid' = running + ?sz - txs_bytes P (valid @ [t])"
        "running' \<le> BLOCK_SIZE_LIMIT \<or> k = 0" by blast
    moreover have "running' \<le> BLOCK_SIZE_LIMIT" if "k = 0"
      using that k(2,3) False by (simp add: txs_bytes_snoc)
    ultimately show ?thesis by (intro exI[of _ "Suc k"]) (auto simp: txs_bytes_snoc)
  qed
qed simp

lemma fill_groups_prefix:
  assumes "fill_groups P valid running gs = (valid', running')"
  shows "\<exists>ks. length ks = length gs \<and> valid' = valid @ concat (map2 take ks gs)
    \<and> running' - txs_bytes P valid' = running - txs_bytes P valid
    \<and> (running' \<le> BLOCK_SIZE_LIMIT \<or> (valid' = valid \<and> running' = running))"
  using assms
proof (induction P valid running gs rule: fill_groups.induct)
  case (2 P valid running g gs)
  obtain v r where g: "fill_group P valid running g = (v, r)" by fastforce
  with 2(2) have "fill_groups P v r gs = (valid', running')" by simp
  from 2(1)[OF g[symmetric] refl this] obtain ks where ks: "length ks = length gs"
      "valid' = v @ concat (map2 take ks gs)" "running' - txs_bytes P valid' = r - txs_bytes P v"
      "running' \<le> BLOCK_SIZE_LIMIT \<or> valid' = v \<and> running' = r" by blast
  from fill_group_prefix[OF g] obtain k where "k \<le> length g" "v = valid @ take k g"
      "r - txs_bytes P v = running - txs_bytes P valid" "r \<le> BLOCK_SIZE_LIMIT \<or> k = 0" by blast
  with ks show ?case by (intro exI[of _ "k # ks"]) auto
qed simp

text \<open>The groups: one per sender, holding the sender's transactions.\<close>

lemma group_by_sender_step:
  "get_or (add_to_group d t) a [] = get_or d a [] @ (if tx_from t = a then [t] else [])"
  by (simp add: add_to_group_def)

lemma group_by_sender_get: "get_or (foldl add_to_group d ts) a [] = get_or d a [] @ filter (\<lambda>t. tx_from t = a) ts"
  by (induction ts arbitrary: d) (simp_all add: group_by_sender_step)

lemma group_by_sender_wf: "wf_dict d \<Longrightarrow> wf_dict (foldl add_to_group d ts)"
  by (induction ts arbitrary: d) (simp_all add: add_to_group_def)

lemma group_by_sender_nonempty:
  "\<forall>(a, g)\<in>set d. g \<noteq> [] \<Longrightarrow> \<forall>(a, g)\<in>set (foldl add_to_group d ts). g \<noteq> []"
proof (induction ts arbitrary: d)
  case (Cons t ts)
  have "\<forall>(a, g)\<in>set (add_to_group d t). g \<noteq> []"
    using Cons.prems set_update_subset[of "tx_from t" "get_or d (tx_from t) [] @ [t]" d]
    by (fastforce simp: add_to_group_def)
  with Cons.IH show ?case by simp
qed simp

lemma group_members:
  assumes "(a, g) \<in> set (group_by_sender ts)"
  shows "g = filter (\<lambda>t. tx_from t = a) ts" "g \<noteq> []"
proof -
  have "wf_dict (group_by_sender ts)" by (simp add: group_by_sender_def group_by_sender_wf)
  with assms have "get_or (group_by_sender ts) a [] = g" by (simp add: get_or_def)
  then show "g = filter (\<lambda>t. tx_from t = a) ts"
    using group_by_sender_get[of "[]" ts a] by (simp add: group_by_sender_def get_or_def)
  show "g \<noteq> []" using group_by_sender_nonempty[of "[]" ts] assms by (auto simp: group_by_sender_def)
qed

lemma sort_key_hd:
  assumes "g \<noteq> []" "\<forall>t\<in>set g. tx_from t = a"
  shows "tx_from (hd (sort_key tx_nonce g)) = a"
proof -
  have "sort_key tx_nonce g \<noteq> []" using assms(1) by (metis length_0_conv length_sort)
  then have "hd (sort_key tx_nonce g) \<in> set (sort_key tx_nonce g)" by (rule hd_in_set)
  with assms(2) show ?thesis by simp
qed

lemma sorted_groups_of:
  assumes "wf_dict d" "\<forall>(a, g)\<in>set d. g \<noteq> [] \<and> (\<forall>t\<in>set g. tx_from t = a)"
  shows "filter (\<lambda>g. tx_from (hd g) = a) (map (\<lambda>(_, g). sort_key tx_nonce g) d)
    = (case map_of d a of None \<Rightarrow> [] | Some g \<Rightarrow> [sort_key tx_nonce g])"
  using assms
proof (induction d)
  case (Cons p d)
  obtain b g where p: "p = (b, g)" by (cases p)
  with Cons.prems(2) have hd: "tx_from (hd (sort_key tx_nonce g)) = b" by (intro sort_key_hd) auto
  have IH: "filter (\<lambda>g. tx_from (hd g) = a) (map (\<lambda>(_, g). sort_key tx_nonce g) d)
      = (case map_of d a of None \<Rightarrow> [] | Some g \<Rightarrow> [sort_key tx_nonce g])"
    using Cons by simp
  have "map_of d a = None" if "a = b" using Cons.prems(1) p that by (simp add: map_of_eq_None_iff)
  with IH hd p show ?case by auto
qed simp

lemma length_le_1_perm: "mset xs = mset ys \<Longrightarrow> length ys \<le> 1 \<Longrightarrow> xs = ys"
  by (cases ys) auto

lemma sender_groups_of:
  "concat (filter (\<lambda>g. tx_from (hd g) = a) (sender_groups P ts))
    = sort_key tx_nonce (filter (\<lambda>t. tx_from t = a) ts)"
proof -
  let ?d = "group_by_sender ts"
  have wf: "wf_dict ?d" by (simp add: group_by_sender_def group_by_sender_wf)
  have "g \<noteq> [] \<and> (\<forall>t\<in>set g. tx_from t = b)" if "(b, g) \<in> set ?d" for b g
    using group_members[OF that] by auto
  then have "\<forall>(b, g)\<in>set ?d. g \<noteq> [] \<and> (\<forall>t\<in>set g. tx_from t = b)" by blast
  note f = sorted_groups_of[OF wf this, of a]
  let ?Q = "\<lambda>g. tx_from (hd g) = a"
  have "filter ?Q (sender_groups P ts) = filter ?Q (map (\<lambda>(_, g). sort_key tx_nonce g) ?d)"
    unfolding sender_groups_def
    by (rule length_le_1_perm) (simp_all only: mset_filter mset_sort, simp only: f split: option.split, simp)
  moreover have "get_or ?d a [] = filter (\<lambda>t. tx_from t = a) ts"
    using group_by_sender_get[of "[]" ts a] by (simp add: group_by_sender_def get_or_def)
  ultimately show ?thesis using f by (auto simp: get_or_def split: option.splits)
qed

lemma sender_groups_one_sender:
  assumes "g \<in> set (sender_groups P ts)"
  shows "\<forall>t\<in>set g. tx_from t = tx_from (hd g)"
proof -
  from assms obtain a g' where g': "(a, g') \<in> set (group_by_sender ts)" "g = sort_key tx_nonce g'"
    by (auto simp: sender_groups_def)
  from group_members[OF g'(1)] have "\<forall>t\<in>set g'. tx_from t = a" "g' \<noteq> []" by auto
  with sort_key_hd[of g' a] g'(2) show ?thesis by simp
qed

lemma take_groups_of:
  assumes "length ks = length gs" "\<forall>g\<in>set gs. \<forall>t\<in>set g. tx_from t = tx_from (hd g)"
    and "length (filter (\<lambda>g. tx_from (hd g) = a) gs) \<le> 1"
  shows "\<exists>k. filter (\<lambda>t. tx_from t = a) (concat (map2 take ks gs))
    = take k (concat (filter (\<lambda>g. tx_from (hd g) = a) gs))"
  using assms
proof (induction ks gs rule: list_induct2)
  case (Cons k ks g gs)
  have mem: "tx_from t = tx_from (hd g)" if "t \<in> set (take k g)" for t
    using Cons.prems(1) in_set_takeD[OF that] by auto
  have le: "length (filter (\<lambda>g. tx_from (hd g) = a) gs) \<le> 1"
    using Cons.prems(2) by (simp split: if_splits)
  from Cons.IH[OF _ le] Cons.prems(1) obtain k' where IH: "filter (\<lambda>t. tx_from t = a) (concat (map2 take ks gs))
      = take k' (concat (filter (\<lambda>g. tx_from (hd g) = a) gs))" by auto
  show ?case
  proof (cases "tx_from (hd g) = a")
    case True
    with Cons.prems(2) have "filter (\<lambda>g. tx_from (hd g) = a) gs = []" by simp
    moreover have "filter (\<lambda>t. tx_from t = a) (take k g) = take k g"
      using mem True by (intro filter_True) simp
    ultimately show ?thesis using IH True by auto
  next
    case False
    then have "filter (\<lambda>t. tx_from t = a) (take k g) = []" using mem by (simp add: filter_empty_conv)
    with False IH show ?thesis by auto
  qed
qed simp

lemma fill_sender_prefix:
  assumes "fill_groups P [] running (sender_groups P ts) = (valid, running')"
  shows "\<exists>k. filter (\<lambda>t. tx_from t = a) valid = take k (sort_key tx_nonce (filter (\<lambda>t. tx_from t = a) ts))"
proof -
  from fill_groups_prefix[OF assms] obtain ks where ks: "length ks = length (sender_groups P ts)"
      "valid = concat (map2 take ks (sender_groups P ts))" by auto
  have le: "length (filter (\<lambda>g. tx_from (hd g) = a) (sender_groups P ts)) \<le> 1"
  proof -
    let ?d = "group_by_sender ts"
    have wf: "wf_dict ?d" by (simp add: group_by_sender_def group_by_sender_wf)
    have "g \<noteq> [] \<and> (\<forall>t\<in>set g. tx_from t = b)" if "(b, g) \<in> set ?d" for b g
      using group_members[OF that] by auto
    then have m: "\<forall>(b, g)\<in>set ?d. g \<noteq> [] \<and> (\<forall>t\<in>set g. tx_from t = b)" by blast
    have "length (filter (\<lambda>g. tx_from (hd g) = a) (sender_groups P ts))
        = length (filter (\<lambda>g. tx_from (hd g) = a) (map (\<lambda>(_, g). sort_key tx_nonce g) ?d))"
      unfolding sender_groups_def by (simp only: mset_filter mset_sort flip: size_mset)
    then show ?thesis by (simp add: sorted_groups_of[OF wf m] split: option.split)
  qed
  show ?thesis
    using take_groups_of[OF ks(1) _ le] sender_groups_one_sender
    unfolding ks(2) sender_groups_of by blast
qed

lemma fill_mem:
  assumes "fill_groups P [] running (sender_groups P ts) = (valid, running')"
  shows "set valid \<subseteq> set ts"
proof
  fix t assume t: "t \<in> set valid"
  from fill_sender_prefix[OF assms, of "tx_from t"] obtain k where
    "filter (\<lambda>u. tx_from u = tx_from t) valid = take k (sort_key tx_nonce (filter (\<lambda>u. tx_from u = tx_from t) ts))"
    by blast
  with t have "t \<in> set (take k (sort_key tx_nonce (filter (\<lambda>u. tx_from u = tx_from t) ts)))"
    by (metis (mono_tags, lifting) filter_eq_Cons_iff filter_set in_set_conv_decomp mem_Collect_eq set_filter)
  then show "t \<in> set ts" by (auto dest: in_set_takeD)
qed

text \<open>The skeleton, and the block \<^verbatim>\<open>assemble\<close> makes of it.\<close>

definition skeleton_of :: "prims \<Rightarrow> json \<Rightarrow> json \<Rightarrow> json \<Rightarrow> string \<Rightarrow> json \<Rightarrow> block" where
  "skeleton_of P next_height tip_hash timestamp builder iterations =
     create_block P 0 next_height tip_hash [] (JStr builder) JNull JNull (Some timestamp) (Some iterations)"

definition packed_block :: "json \<Rightarrow> json \<Rightarrow> json \<Rightarrow> string \<Rightarrow> json \<Rightarrow> tx list \<Rightarrow> int \<Rightarrow> block" where
  "packed_block next_height tip_hash timestamp builder iterations txs bytes =
     [(''height'', next_height), (''previous_hash'', tip_hash), (''timestamp'', timestamp),
      (''transactions'', JArr (map JObj txs)), (''builder'', JStr builder),
      (''vdf_output'', JNull), (''vdf_proof'', JNull), (''vdf_iterations'', iterations),
      (''tx_bytes'', JInt bytes)]"

lemma assemble_packed:
  assumes "assemble P now tip cands builder iterations min_fee = Inr blk"
  obtains h nh ts th txs running where
    "map_of tip ''height'' = Some h" "add_int h 1 = Inr nh" "assemble_timestamp now tip = Inr ts"
    "map_of tip ''hash'' = Some th"
    "fill_groups P [] (block_size P (skeleton_of P nh th ts builder iterations))
       (sender_groups P (tx_dicts (drop_cheap_posts min_fee cands))) = (txs, running)"
    "running = block_size P (skeleton_of P nh th ts builder iterations) + txs_bytes P txs"
    "blk = packed_block nh th ts builder iterations txs (txs_bytes P txs)"
proof -
  let ?sk = "\<lambda>nh th ts. create_block P now nh th [] (JStr builder) JNull JNull (Some ts) (Some iterations)"
  let ?gs = "sender_groups P (tx_dicts (drop_cheap_posts min_fee cands))"
  from assms obtain h nh ts th where a: "map_of tip ''height'' = Some h" "add_int h 1 = Inr nh"
    "assemble_timestamp now tip = Inr ts" "map_of tip ''hash'' = Some th"
    "(case fill_groups P [] (block_size P (?sk nh th ts)) ?gs of (txs, running) \<Rightarrow>
       Inr (AList.delete ''hash'' (AList.update ''tx_bytes'' (JInt (running - block_size P (?sk nh th ts)))
         (AList.update ''transactions'' (JArr (map JObj txs)) (?sk nh th ts))))) = (Inr blk :: block res)"
    by (auto simp: assemble_def read_field_def rbind_Inr_conv Let_def split: option.splits)
  obtain txs running where fg: "fill_groups P [] (block_size P (?sk nh th ts)) ?gs = (txs, running)"
    by fastforce
  with a(5) have b: "blk = AList.delete ''hash'' (AList.update ''tx_bytes'' (JInt (running - block_size P (?sk nh th ts)))
         (AList.update ''transactions'' (JArr (map JObj txs)) (?sk nh th ts)))" by simp
  have sk: "create_block P now nh th [] (JStr builder) JNull JNull (Some ts) (Some iterations)
      = skeleton_of P nh th ts builder iterations"
    by (simp add: skeleton_of_def create_block_def)
  from fill_groups_prefix[OF fg] have r: "running = block_size P (skeleton_of P nh th ts builder iterations)
      + txs_bytes P txs" by (auto simp: sk txs_bytes_def)
  have "blk = packed_block nh th ts builder iterations txs (txs_bytes P txs)"
    using b unfolding sk r by (simp add: packed_block_def skeleton_of_def create_block_def Let_def)
  with a(1-4) fg[unfolded sk] r show thesis by (rule that)
qed

lemma assemble_timestamp_bound:
  assumes "assemble_timestamp now tip = Inr ts" "read_num ''timestamp'' tip = Inr pts"
  shows "jnum ts = Some (max now (pts + 90))"
proof -
  from assms(2) obtain v where v: "map_of tip ''timestamp'' = Some v" "jnum v = Some pts"
    by (auto simp: read_num_def read_field_def rbind_Inr_conv split: option.splits)
  with assms(1) show ?thesis
    by (cases v) (auto simp: assemble_timestamp_def read_field_def max_def split: if_splits)
qed

text \<open>\<^verbatim>\<open>assemble\<close> packs, of every sender's candidates, an unbroken run from the lowest nonce up (in
  nonce order, so that no gap can invalidate the block), nothing that is not a candidate and no
  board post below the frozen floor. The recorded byte count is what the transactions take in the
  block, and the skeleton with them stays within the limit unless nothing was packed. The new
  block follows the tip in hash, and its time keeps the 90 s spacing.\<close>

theorem assemble_packs_runs:
  assumes "assemble P now tip cands builder iterations min_fee = Inr blk"
    and "read_num ''timestamp'' tip = Inr pts"
  shows "\<exists>txs nh th ts.
     jget blk ''transactions'' = JArr (map JObj txs)
   \<and> (\<forall>a. \<exists>k. filter (\<lambda>t. tx_from t = a) txs
        = take k (sort_key tx_nonce (filter (\<lambda>t. tx_from t = a) (tx_dicts (drop_cheap_posts min_fee cands)))))
   \<and> set (map JObj txs) \<subseteq> set cands
   \<and> (\<forall>t\<in>set txs. is_board_post t \<longrightarrow> min_fee \<noteq> 0 \<longrightarrow> min_fee \<le> tx_fee t)
   \<and> jget blk ''tx_bytes'' = JInt (txs_bytes P txs)
   \<and> (txs = [] \<or> block_size P (skeleton_of P nh th ts builder iterations) + txs_bytes P txs \<le> BLOCK_SIZE_LIMIT)
   \<and> jget blk ''previous_hash'' = th \<and> th = jget tip ''hash''
   \<and> jget blk ''timestamp'' = ts \<and> jnum ts = Some (max now (pts + 90))"
  using assms(1)
proof (rule assemble_packed)
  fix h nh ts th txs running
  assume th: "map_of tip ''hash'' = Some th" and ts: "assemble_timestamp now tip = Inr ts"
    and fill: "fill_groups P [] (block_size P (skeleton_of P nh th ts builder iterations))
       (sender_groups P (tx_dicts (drop_cheap_posts min_fee cands))) = (txs, running)"
    and running: "running = block_size P (skeleton_of P nh th ts builder iterations) + txs_bytes P txs"
    and blk: "blk = packed_block nh th ts builder iterations txs (txs_bytes P txs)"
  let ?c = "tx_dicts (drop_cheap_posts min_fee cands)"
  have mem: "JObj t \<in> set cands \<and> (is_board_post t \<longrightarrow> min_fee \<noteq> 0 \<longrightarrow> min_fee \<le> tx_fee t)" if "t \<in> set txs" for t
  proof -
    from that fill_mem[OF fill] have "t \<in> set ?c" by blast
    then show ?thesis
      by (auto simp: tx_dicts_def drop_cheap_posts_def map_filter_def split: json.splits if_splits)
  qed
  then have m: "set (map JObj txs) \<subseteq> set cands"
    "\<forall>t\<in>set txs. is_board_post t \<longrightarrow> min_fee \<noteq> 0 \<longrightarrow> min_fee \<le> tx_fee t" by auto
  have sz: "txs = [] \<or> block_size P (skeleton_of P nh th ts builder iterations) + txs_bytes P txs \<le> BLOCK_SIZE_LIMIT"
    using fill_groups_prefix[OF fill] running by auto
  have f: "jget blk ''transactions'' = JArr (map JObj txs)" "jget blk ''tx_bytes'' = JInt (txs_bytes P txs)"
    "jget blk ''previous_hash'' = th" "jget blk ''timestamp'' = ts" "th = jget tip ''hash''"
    using th by (simp_all add: blk packed_block_def jget_def get_or_def)
  show ?thesis
    by (intro exI[of _ txs] exI[of _ nh] exI[of _ th] exI[of _ ts] conjI allI
        fill_sender_prefix[OF fill] m sz f assemble_timestamp_bound[OF ts assms(2)])
qed

section \<open>The size the packing budgets and the size of the finished block\<close>

text \<open>What \<^verbatim>\<open>_run_cycle\<close> of \<^verbatim>\<open>src/src/node.py\<close> does to the assembled block once its proof is there.\<close>

definition attach_proof :: "prims \<Rightarrow> block \<Rightarrow> string \<Rightarrow> string \<Rightarrow> json \<Rightarrow> block" where
  "attach_proof P candidate vdf_out vdf_proof iterations =
     (let b = AList.update ''vdf_iterations'' iterations
                (AList.update ''vdf_proof'' (JStr vdf_proof)
                  (AList.update ''vdf_output'' (JStr vdf_out) candidate))
      in AList.update ''hash'' (JStr (block_hash P b)) b)"

text \<open>
  orjson's compact output, by length: brackets, one comma between entries, one colon per entry, and
  plain ASCII strings in two quotes.
\<close>

definition plain_char :: "char \<Rightarrow> bool" where
  "plain_char c \<longleftrightarrow> c \<in> set ''abcdefghijklmnopqrstuvwxyz0123456789_''"

definition json_sizes :: "prims \<Rightarrow> bool" where
  "json_sizes P \<longleftrightarrow>
     (\<forall>d. int (length (dumps P (JObj d))) = 2 + (if d = [] then 0 else int (length d) - 1)
        + sum_list (map (\<lambda>(k, v). int (length (dumps P (JStr k))) + 1 + int (length (dumps P v))) d))
   \<and> (\<forall>xs. int (length (dumps P (JArr xs))) = 2 + (if xs = [] then 0 else int (length xs) - 1)
        + sum_list (map (\<lambda>v. int (length (dumps P v))) xs))
   \<and> (\<forall>s. list_all plain_char s \<longrightarrow> length (dumps P (JStr s)) = length s + 2)
   \<and> length (dumps P JNull) = 4 \<and> (\<forall>n. 0 < length (dumps P (JInt n)))"

lemma plain_tohex: "list_all plain_char (tohex bs)"
proof -
  have "list_all (\<lambda>n. plain_char (hexdigit n)) [0..<16]" by code_simp
  then have "plain_char (hexdigit n)" if "n < 16" for n using that by (simp add: list_all_iff)
  moreover have "of_char b div 16 < (16::nat)" for b :: char by (simp add: less_mult_imp_div_less)
  ultimately show ?thesis by (induction bs) auto
qed

lemma txs_bytes_sizes:
  "txs_bytes P ts = sum_list (map (\<lambda>t. int (length (dumps P (JObj t)))) ts)
     + (if ts = [] then 0 else int (length ts) - 1)"
  by (induction ts rule: rev_induct)
    (auto simp: txs_bytes_snoc tx_size_in_block_def canonical_json_def txs_bytes_def)

lemma block_size_sizes:
  "json_sizes P \<Longrightarrow> block_size P d = 2 + (if d = [] then 0 else int (length d) - 1)
     + sum_list (map (\<lambda>(k, v). int (length (dumps P (JStr k))) + 1 + int (length (dumps P v))) d)"
  by (simp add: json_sizes_def block_size_def canonical_json_def)

lemma finished_size:
  assumes J: "json_sizes P" and D: "\<And>d. length (sha256_digest P d) = 32"
    and out: "list_all plain_char out" "length out = 200" "list_all plain_char proof" "length proof = 200"
  shows "block_size P (attach_proof P (packed_block nh th ts builder iterations txs n) out proof iterations)
    = block_size P (skeleton_of P nh th ts builder iterations) + txs_bytes P txs + 408
      + int (length (dumps P (JInt n)))"
proof -
  have h: "int (length (dumps P (JStr (sha256_hex P d)))) = 66" for d
  proof -
    have "length (dumps P (JStr (sha256_hex P d))) = length (sha256_hex P d) + 2"
      using J plain_tohex[of "sha256_digest P d"] unfolding json_sizes_def sha256_hex_def by blast
    then show ?thesis by (simp add: sha256_hex_def D)
  qed
  have st: "length (dumps P (JStr out)) = 202" "length (dumps P (JStr proof)) = 202"
    "length (dumps P (JStr ''tx_bytes'')) = 10" "length (dumps P JNull) = 4"
    using J out by (simp_all add: json_sizes_def plain_char_def)
  have arr: "int (length (dumps P (JArr (map JObj txs)))) = 2 + txs_bytes P txs"
    "int (length (dumps P (JArr []))) = 2"
    using J by (simp_all add: json_sizes_def txs_bytes_sizes comp_def)
  show ?thesis
    by (simp add: block_size_sizes[OF J] attach_proof_def packed_block_def skeleton_of_def create_block_def
        block_hash_def Let_def h st arr)
qed

text \<open>The packing does not budget for what is added after it. With orjson's sizes, the finished block
  (proof attached, hashed) is at least 409 bytes larger than the skeleton and transactions the packing
  kept within the limit: two 200-character hex strings in the place of two nulls, and the
  byte-count field. A block packed closer than that to the limit fails the node's own validation.\<close>

theorem packing_misses_proof_bytes:
  assumes "json_sizes P" and "\<And>d. length (sha256_digest P d) = 32"
    and "assemble P now tip cands builder iterations min_fee = Inr blk"
    and "list_all plain_char out" and "length out = 200"
    and "list_all plain_char proof" and "length proof = 200"
  shows "\<exists>nh th ts txs. jget blk ''transactions'' = JArr (map JObj txs) \<and>
    (let budgeted = block_size P (skeleton_of P nh th ts builder iterations) + txs_bytes P txs;
         finished = attach_proof P blk out proof iterations
     in budgeted + 409 \<le> block_size P finished
      \<and> (if BLOCK_SIZE_LIMIT < budgeted + 409
         then block_validate P later finished s chain = Inr (Some (SizeExceeded (block_size P finished)), s)
         else True))"
  using assms(3)
proof (rule assemble_packed)
  fix h nh ts th txs running
  assume blk: "blk = packed_block nh th ts builder iterations txs (txs_bytes P txs)"
  have "0 < length (dumps P (JInt (txs_bytes P txs)))" using assms(1) unfolding json_sizes_def by blast
  then have "1 \<le> int (length (dumps P (JInt (txs_bytes P txs))))" by linarith
  then have "block_size P (skeleton_of P nh th ts builder iterations) + txs_bytes P txs + 409
      \<le> block_size P (attach_proof P blk out proof iterations)"
    unfolding blk finished_size[OF assms(1,2,4-7)] by linarith
  moreover have "jget blk ''transactions'' = JArr (map JObj txs)"
    by (simp add: blk packed_block_def jget_def get_or_def)
  ultimately show ?thesis
    by (intro exI[of _ nh] exI[of _ th] exI[of _ ts] exI[of _ txs])
      (auto simp: block_validate_def Let_def)
qed

section \<open>Examples\<close>

text \<open>A serializer with a constant result, to keep the examples' hashes small.\<close>

definition tiny_prims :: prims where
  "tiny_prims = demo_prims\<lparr>dumps := \<lambda>_. ''{}''\<rparr>"

lemma tiny_prims_fields [simp]:
  "dumps tiny_prims j = ''{}''" "sha256_digest tiny_prims d = replicate 17 (CHR 0x00) @ d"
  "vdf_verify_n tiny_prims d x b i z r = Some True" "vdf_create_discriminant tiny_prims c z = Some c"
  by (simp_all add: tiny_prims_def)

lemma tiny_address [simp]: "is_valid_address tiny_prims j = is_valid_address demo_prims j"
proof -
  have w: "words tiny_prims = words demo_prims" by (simp add: tiny_prims_def)
  show ?thesis unfolding is_valid_address_def w ..
qed

definition tiny_hash :: string where
  "tiny_hash = tohex (replicate 17 (CHR 0x00) @ ''{}'')"

lemma tiny_block_hash [simp]: "block_hash tiny_prims b = tiny_hash" "block_size tiny_prims b = 2"
  by (simp_all add: block_hash_def tiny_hash_def sha256_hex_def canonical_json_def block_size_def)

text \<open>A block at height \<open>n\<close> without transactions, \<open>n\<close> times 100 seconds after the genesis block.\<close>

definition tiny_block :: "int \<Rightarrow> string \<Rightarrow> block" where
  "tiny_block n key = [(''height'', JInt n), (''previous_hash'', JStr tiny_hash),
     (''timestamp'', JInt (GENESIS_TIMESTAMP + 100 * n)), (''transactions'', JArr []),
     (''builder'', JStr (demo_addr CHR ''a'')), (''vdf_output'', JStr key), (''vdf_proof'', JStr ''00''),
     (''vdf_iterations'', JInt VDF_ITERATIONS), (''hash'', JStr tiny_hash)]"

lemma tiny_block_fields [simp]:
  "jget (tiny_block n key) ''height'' = JInt n" "jget (tiny_block n key) ''hash'' = JStr tiny_hash"
  "jget (tiny_block n key) ''timestamp'' = JInt (GENESIS_TIMESTAMP + 100 * n)"
  "jget (tiny_block n key) ''previous_hash'' = JStr tiny_hash"
  "jget (tiny_block n key) ''builder'' = JStr (demo_addr CHR ''a'')"
  "jget (tiny_block n key) ''vdf_output'' = JStr key" "jget (tiny_block n key) ''vdf_proof'' = JStr ''00''"
  "iterations_of (tiny_block n key) = JInt VDF_ITERATIONS" "jget (tiny_block n key) ''transactions'' = JArr []"
  by (simp_all add: tiny_block_def jget_def get_or_def iterations_of_def)

lemma tiny_parent: "parent_ok (tiny_block n key) tiny_hash (of_int n) (of_int (GENESIS_TIMESTAMP + 100 * n))"
  by (simp add: parent_ok_def tiny_block_def read_num_def read_field_def)

lemma tiny_genesis: "parent_ok (create_genesis tiny_prims) tiny_hash 0 (of_int GENESIS_TIMESTAMP)"
  by (simp add: parent_ok_def create_genesis_def read_num_def read_field_def Let_def)

lemma tiny_apply [simp]: "apply_transactions P (tiny_block n key) s = Inr (None, s)"
  by (simp add: apply_transactions_def tiny_block_def read_field_def)

lemma tiny_from_hex: "fromhex tiny_hash = Some (replicate 17 (CHR 0x00) @ ''{}'')"
  unfolding tiny_hash_def by (rule fromhex_tohex)

lemma tiny_verify: "fromhex key \<noteq> None \<Longrightarrow> vdf_verify tiny_prims c key ''00'' (JInt VDF_ITERATIONS)"
  using demo_hex by (auto simp: vdf_verify_def simp del: fromhex.simps)

theorem block_validate_iff_witness:
  "block_validate tiny_prims (of_int GENESIS_TIMESTAMP + 100) (tiny_block 1 ''00'') demo_state
     [create_genesis tiny_prims] = Inr (None, demo_state)"
proof -
  have g: "get_vdf_iterations [create_genesis tiny_prims] = Inr (JInt VDF_ITERATIONS)"
    by (simp add: get_vdf_iterations_def VDF_ADJUST_INTERVAL_def)
  have v: "vdf_verify tiny_prims c ''00'' ''00'' (JInt VDF_ITERATIONS)" for c
    by (rule tiny_verify) (simp only: demo_hex option.distinct not_False_eq_True)
  have "parent_ok (last [create_genesis tiny_prims]) tiny_hash 0 (of_int GENESIS_TIMESTAMP)"
    using tiny_genesis by simp
  from block_validate_iff[OF this _ tiny_block_fields(1)[of 1 "''00''"], of 1 tiny_prims
      "of_int GENESIS_TIMESTAMP + 100" demo_state demo_state] show ?thesis
    by (simp add: g v tiny_from_hex BLOCK_SIZE_LIMIT_def py_eq_def)
qed

definition demo_block :: block where
  "demo_block = [(''transactions'', JArr [JObj (demo_tx 1 5)])]"

theorem block_transactions_effect_witness:
  "\<exists>s'. apply_transactions demo_prims demo_block demo_state = Inr (None, s') \<and> state_inv s'
     \<and> get_nonce s' (demo_addr CHR ''a'') = 1 \<and> total_minted s' = 10"
proof -
  have v: "tx_validate demo_prims (\<lambda>_. None) (get_balance demo_state) (get_nonce demo_state)
      (total_board_posts demo_state) f (demo_tx 1 5) = Inr None" for f
    by (rule demo_tx_valid) simp_all
  from validated_tx_effect[OF demo_state_simps(1) v] obtain s' where s': "apply_tx demo_state (demo_tx 1 5) = Inr s'"
    by blast
  then have a: "apply_transactions demo_prims demo_block demo_state = Inr (None, s')"
    by (simp add: apply_transactions_def demo_block_def read_field_def v)
  from block_transactions_effect[OF a demo_state_simps(1)] obtain txs where
    t: "iter_json (jget demo_block ''transactions'') = Inr (map JObj txs)" "state_inv s'"
      "total_minted s' = 10" "get_nonce s' (demo_addr CHR ''a'') = int (length (sent_by (demo_addr CHR ''a'') txs))"
    by auto
  then have "txs = [demo_tx 1 5]" by (cases txs) (auto simp: demo_block_def jget_def get_or_def)
  then have "length (sent_by (demo_addr CHR ''a'') txs) = 1"
    by (simp add: sent_by_def read_tx_from[OF demo_tx_read])
  with t a show ?thesis by auto
qed

lemma tiny_assembles:
  "dumps P = g \<Longrightarrow> \<exists>blk. assemble P now (tiny_block n key) cands builder iterations f = Inr blk"
  by (auto simp: assemble_def assemble_timestamp_def read_field_def tiny_block_def Let_def split: prod.split)

theorem assemble_packs_runs_witness:
  "\<exists>blk. assemble tiny_prims 0 (tiny_block 1 ''00'') [JObj (demo_tx 2 5), JObj (demo_tx 1 5)] ''b''
      (JInt VDF_ITERATIONS) 1 = Inr blk
    \<and> jnum (jget blk ''timestamp'') = Some (of_int (GENESIS_TIMESTAMP + 190))"
proof -
  obtain blk where b: "assemble tiny_prims 0 (tiny_block 1 ''00'') [JObj (demo_tx 2 5), JObj (demo_tx 1 5)] ''b''
      (JInt VDF_ITERATIONS) 1 = Inr blk" using tiny_assembles by blast
  have "read_num ''timestamp'' (tiny_block 1 ''00'') = Inr (of_int (GENESIS_TIMESTAMP + 100))"
    using tiny_parent[of 1 "''00''"] by (simp add: parent_ok_def)
  from assemble_packs_runs[OF b this] b show ?thesis
    by (auto simp: GENESIS_TIMESTAMP_def)
qed

lemma length_commas: "int (length (commas ws)) = sum_list (map (\<lambda>w. int (length w)) ws)
    + (if ws = [] then 0 else int (length ws) - 1)"
  by (induction ws rule: commas.induct) auto

lemma sum_list_sort_key: "sum_list (map f (sort_key g xs)) = (sum_list (map f xs) :: int)"
  by (metis mset_map mset_sort sum_mset_sum_list)

lemma digits_nonempty: "digits n \<noteq> []"
  by (subst digits.simps) simp

lemma json_sizes_compact:
  assumes "dumps P = compact_json"
  shows "json_sizes P"
  unfolding json_sizes_def assms
proof (intro conjI allI impI)
  fix d :: "(string, json) dict"
  let ?s = "sort_key fst (map (\<lambda>(k, v). (k, compact_json v)) d)"
  have "int (length (compact_json (JObj d))) = 2 + int (length (commas (map (\<lambda>(k, v). quoted k @ CHR '':'' # v) ?s)))"
    by simp
  also have "\<dots> = 2 + (if d = [] then 0 else int (length d) - 1)
      + sum_list (map (\<lambda>w. int (length w)) (map (\<lambda>(k, v). quoted k @ CHR '':'' # v) ?s))"
    by (subst length_commas) (cases d; simp flip: length_0_conv)
  also have "sum_list (map (\<lambda>w. int (length w)) (map (\<lambda>(k, v). quoted k @ CHR '':'' # v) ?s))
      = sum_list (map (\<lambda>(k, v). int (length (quoted k @ CHR '':'' # v))) ?s)"
    by (simp add: comp_def case_prod_unfold)
  also have "\<dots> = sum_list (map (\<lambda>(k, v). int (length (compact_json (JStr k))) + 1 + int (length (compact_json v))) d)"
    unfolding sum_list_sort_key by (simp add: comp_def case_prod_unfold algebra_simps)
  finally show "int (length (compact_json (JObj d))) = 2 + (if d = [] then 0 else int (length d) - 1)
    + sum_list (map (\<lambda>(k, v). int (length (compact_json (JStr k))) + 1 + int (length (compact_json v))) d)" .
next
  fix xs show "int (length (compact_json (JArr xs))) = 2 + (if xs = [] then 0 else int (length xs) - 1)
      + sum_list (map (\<lambda>v. int (length (compact_json v))) xs)"
    by (simp add: length_commas comp_def)
qed (auto simp: quoted_def digits_nonempty)

theorem packing_misses_proof_bytes_witness:
  "\<exists>blk txs. assemble (demo_prims\<lparr>sha256_digest := \<lambda>_. replicate 32 (CHR 0x00)\<rparr>) 0 (tiny_block 1 ''00'') []
      ''b'' (JInt VDF_ITERATIONS) 1 = Inr blk \<and> jget blk ''transactions'' = JArr (map JObj txs)"
proof -
  let ?P = "demo_prims\<lparr>sha256_digest := \<lambda>_. replicate 32 (CHR 0x00)\<rparr>"
  obtain blk where b: "assemble ?P 0 (tiny_block 1 ''00'') [] ''b'' (JInt VDF_ITERATIONS) 1 = Inr blk"
    using tiny_assembles by blast
  have j: "json_sizes ?P" by (rule json_sizes_compact) simp
  have h: "length (replicate 200 (CHR ''0'')) = 200" "list_all plain_char (replicate 200 (CHR ''0''))"
    by (simp_all add: plain_char_def list_all_iff)
  have d: "length (sha256_digest ?P x) = 32" for x by simp
  from packing_misses_proof_bytes[OF j d b h(2,1) h(2,1)] b show ?thesis by blast
qed

end
