(* ===== verification/Chainstate.thy ===== *)
theory Chainstate
  imports Block
begin

text \<open>
  \<^verbatim>\<open>src/src/chainstate.py\<close>: chain, ledger and cumulative work as one value, its construction
  by replay or by validated append, and fork choice. The cumulative iteration count is a rational: a
  JSON number need not be an integer. The ledger's keys are strings, so a builder of another JSON type
  raises here when it is credited.
\<close>

record chain_state =
  cs_chain :: blocks
  cs_state :: state
  cumulative_iterations :: rat

section \<open>Fork point\<close>

text \<open>Every block of a chain carries its hash: \<^verbatim>\<open>b["hash"]\<close> does not raise.\<close>

definition hash_of :: "block \<Rightarrow> json" where
  "hash_of b = jget b ''hash''"

function fork_search :: "blocks \<Rightarrow> blocks \<Rightarrow> nat \<Rightarrow> nat \<Rightarrow> nat" where
  "fork_search a b lo hi =
     (if lo < hi then
        (let mid = (lo + hi) div 2 in
         if hash_of (a ! mid) = hash_of (b ! mid) then fork_search a b (mid + 1) hi
         else fork_search a b lo mid)
      else lo)"
  by pat_completeness auto

termination by (relation "measure (\<lambda>(a, b, lo, hi). hi - lo)") auto

declare fork_search.simps [simp del]

definition fork_point :: "blocks \<Rightarrow> blocks \<Rightarrow> nat" where
  "fork_point a b = fork_search a b 0 (min (length a) (length b))"

section \<open>Construction\<close>

definition apply_json_tx :: "state \<Rightarrow> json \<Rightarrow> state res" where
  "apply_json_tx s j = (case j of JObj t \<Rightarrow> apply_tx s t | _ \<Rightarrow> Inl TypeError)"

definition apply_builder_reward :: "state \<Rightarrow> string \<Rightarrow> block \<Rightarrow> state res" where
  "apply_builder_reward s builder blk =
     rbind (block_fees blk) (\<lambda>total_fees.
     rbind (if total_fees > 0 then credit s builder total_fees else Inr s) (\<lambda>s1.
       (let reward = compute_block_reward s1 in
        if reward \<ge> 1 then apply_reward_distribution s1 [(builder, reward)] else Inr s1)))"

definition apply_to_state :: "state \<Rightarrow> block \<Rightarrow> state res" where
  "apply_to_state s blk =
     (let builder = jget blk ''builder'' in
      if truthy builder
      then (case builder of JStr a \<Rightarrow> apply_builder_reward s a blk | _ \<Rightarrow> Inl TypeError)
      else Inr s)"

text \<open>\<^verbatim>\<open>blk.get("vdf_iterations", 0)\<close> as a summand.\<close>

definition work_of :: "block \<Rightarrow> rat res" where
  "work_of blk = (case map_of blk ''vdf_iterations'' of
     None \<Rightarrow> Inr 0 | Some v \<Rightarrow> (case jnum v of None \<Rightarrow> Inl TypeError | Some x \<Rightarrow> Inr x))"

definition sum_iterations :: "blocks \<Rightarrow> rat res" where
  "sum_iterations chain = foldr_res (\<lambda>acc blk. rbind (read_num ''height'' blk) (\<lambda>h.
     if h > 0 then rbind (work_of blk) (\<lambda>n. Inr (acc + n)) else Inr acc)) 0 chain"

definition from_genesis :: "prims \<Rightarrow> chain_state" where
  "from_genesis P = \<lparr>cs_chain = [create_genesis P], cs_state = empty_state, cumulative_iterations = 0\<rparr>"

definition replay_block :: "state \<Rightarrow> block \<Rightarrow> state res" where
  "replay_block s blk = rbind (read_field ''height'' blk) (\<lambda>h.
     if py_eq h (JInt 0) then Inr s
     else rbind (read_field ''transactions'' blk) (\<lambda>v. rbind (iter_json v) (\<lambda>ts.
       rbind (foldr_res apply_json_tx s ts) (\<lambda>s1. apply_to_state s1 blk))))"

definition from_chain :: "blocks \<Rightarrow> chain_state res" where
  "from_chain chain = rbind (foldr_res replay_block empty_state chain) (\<lambda>s.
     rbind (sum_iterations chain) (\<lambda>n.
       Inr \<lparr>cs_chain = chain, cs_state = s, cumulative_iterations = n\<rparr>))"

definition from_storage :: "blocks \<Rightarrow> state \<Rightarrow> chain_state res" where
  "from_storage chain loaded = rbind (sum_iterations chain) (\<lambda>n.
     Inr \<lparr>cs_chain = chain, cs_state = loaded, cumulative_iterations = n\<rparr>)"

section \<open>Appending a block\<close>

definition apply_block_with_state :: "chain_state \<Rightarrow> block \<Rightarrow> state \<Rightarrow> chain_state res" where
  "apply_block_with_state cs blk post_tx =
     rbind (apply_to_state post_tx blk) (\<lambda>s. rbind (work_of blk) (\<lambda>n.
       Inr \<lparr>cs_chain = cs_chain cs @ [blk], cs_state = s,
            cumulative_iterations = cumulative_iterations cs + n\<rparr>))"

definition validate_and_apply ::
    "prims \<Rightarrow> rat \<Rightarrow> chain_state \<Rightarrow> block \<Rightarrow> (block_error option \<times> chain_state) res" where
  "validate_and_apply P now cs blk =
     rbind (block_validate P now blk (snapshot (cs_state cs)) (cs_chain cs)) (\<lambda>(r, probe).
       case r of
         Some e \<Rightarrow> Inr (Some e, cs)
       | None \<Rightarrow> rbind (apply_block_with_state cs blk probe) (\<lambda>cs'. Inr (None, cs')))"

definition apply_block :: "chain_state \<Rightarrow> block \<Rightarrow> chain_state res" where
  "apply_block cs blk =
     rbind (iter_json (get_or blk ''transactions'' (JArr []))) (\<lambda>ts.
     rbind (foldr_res apply_json_tx (snapshot (cs_state cs)) ts) (\<lambda>post_tx.
       apply_block_with_state cs blk post_tx))"

definition cs_tip :: "chain_state \<Rightarrow> block" where
  "cs_tip cs = last (cs_chain cs)"

definition cs_height :: "chain_state \<Rightarrow> json" where
  "cs_height cs = jget (cs_tip cs) ''height''"

definition genesis_hash :: "chain_state \<Rightarrow> json" where
  "genesis_hash cs = hash_of (cs_chain cs ! 0)"

section \<open>Fork choice\<close>

text \<open>The draws of one shared height; keys are compared as strings, as the blocks' hex outputs are.\<close>

definition key_of :: "block \<Rightarrow> string res" where
  "key_of blk = rbind (tie_break_key blk) (\<lambda>v. case v of JStr s \<Rightarrow> Inr s | _ \<Rightarrow> Inl TypeError)"

fun count_draws :: "blocks \<Rightarrow> blocks \<Rightarrow> nat list \<Rightarrow> nat \<Rightarrow> nat \<Rightarrow> (nat \<times> nat) res" where
  "count_draws a b [] self_wins other_wins = Inr (self_wins, other_wins)"
| "count_draws a b (i # is) self_wins other_wins =
     rbind (key_of (a ! i)) (\<lambda>a_key. rbind (key_of (b ! i)) (\<lambda>b_key.
       if a_key < b_key then count_draws a b is (self_wins + 1) other_wins
       else if a_key > b_key then count_draws a b is self_wins (other_wins + 1)
       else count_draws a b is self_wins other_wins))"

definition fallback_key :: "prims \<Rightarrow> blocks \<Rightarrow> nat \<Rightarrow> nat \<Rightarrow> string res" where
  "fallback_key P chain fork_idx end_idx =
     rbind (map_res (\<lambda>i. key_of (chain ! i)) [fork_idx..<end_idx]) (\<lambda>ks.
       Inr (sha256_hex P (utf8_encode (concat ks))))"

definition wins_tie_break :: "prims \<Rightarrow> chain_state \<Rightarrow> chain_state \<Rightarrow> bool res" where
  "wins_tie_break P self other =
     (let fork_idx = fork_point (cs_chain self) (cs_chain other);
          end_idx = min (length (cs_chain self)) (length (cs_chain other))
      in rbind (count_draws (cs_chain self) (cs_chain other) [fork_idx..<end_idx] 0 0)
           (\<lambda>(self_wins, other_wins).
             if self_wins \<noteq> other_wins then Inr (self_wins > other_wins)
             else rbind (fallback_key P (cs_chain self) fork_idx end_idx) (\<lambda>k.
                  rbind (fallback_key P (cs_chain other) fork_idx end_idx) (\<lambda>k'. Inr (k < k')))))"

definition is_better_than :: "prims \<Rightarrow> chain_state \<Rightarrow> chain_state \<Rightarrow> bool res" where
  "is_better_than P self other =
     (if cumulative_iterations self \<noteq> cumulative_iterations other
      then Inr (cumulative_iterations self > cumulative_iterations other)
      else if hash_of (cs_tip self) = hash_of (cs_tip other) then Inr False
      else wins_tie_break P self other)"

section \<open>The fork point is the length of the common prefix\<close>

text \<open>Agreement that, once lost, is never regained: what the hashes of linked blocks provide.\<close>

definition agree :: "blocks \<Rightarrow> blocks \<Rightarrow> nat \<Rightarrow> bool" where
  "agree a b i \<longleftrightarrow> hash_of (a ! i) = hash_of (b ! i)"

lemma fork_search_split:
  assumes "lo \<le> hi" "\<And>i j. i \<le> j \<Longrightarrow> j < hi \<Longrightarrow> agree a b j \<Longrightarrow> agree a b i"
  shows "lo \<le> fork_search a b lo hi \<and> fork_search a b lo hi \<le> hi
    \<and> (\<forall>i. lo \<le> i \<and> i < hi \<longrightarrow> (agree a b i \<longleftrightarrow> i < fork_search a b lo hi))"
  using assms
proof (induction a b lo hi rule: fork_search.induct)
  case (1 a b lo hi)
  show ?case
  proof (cases "lo < hi")
    case True
    define mid where "mid = (lo + hi) div 2"
    have m: "lo \<le> mid" "mid < hi" using True by (auto simp: mid_def)
    show ?thesis
    proof (cases "agree a b mid")
      case ag: True
      then have e: "fork_search a b lo hi = fork_search a b (mid + 1) hi"
        using True by (subst fork_search.simps) (simp add: mid_def agree_def Let_def)
      have IH: "mid + 1 \<le> fork_search a b (mid + 1) hi \<and> fork_search a b (mid + 1) hi \<le> hi
          \<and> (\<forall>i. mid + 1 \<le> i \<and> i < hi \<longrightarrow> (agree a b i \<longleftrightarrow> i < fork_search a b (mid + 1) hi))"
        using True ag m "1.prems"(2) by (intro "1.IH"(1)[OF _ mid_def]) (auto simp: agree_def)
      moreover have "agree a b i" if "i \<le> mid" for i using "1.prems"(2)[OF that m(2) ag] .
      ultimately show ?thesis unfolding e
      proof (intro conjI allI impI, goal_cases)
        case (3 i)
        show ?case
        proof (cases "i \<le> mid")
          case True
          with 3(1,2) show ?thesis by simp
        next
          case False
          with 3(1,3) show ?thesis by simp
        qed
      qed (use m in simp_all)
    next
      case dis: False
      then have e: "fork_search a b lo hi = fork_search a b lo mid"
        using True by (subst fork_search.simps) (simp add: mid_def agree_def Let_def)
      have IH: "lo \<le> fork_search a b lo mid \<and> fork_search a b lo mid \<le> mid
          \<and> (\<forall>i. lo \<le> i \<and> i < mid \<longrightarrow> (agree a b i \<longleftrightarrow> i < fork_search a b lo mid))"
      proof (rule "1.IH"(2)[OF True mid_def])
        show "hash_of (a ! mid) \<noteq> hash_of (b ! mid)" using dis by (simp add: agree_def)
        show "agree a b i" if "i \<le> j" "j < mid" "agree a b j" for i j
          using that m "1.prems"(2)[of i j] by simp
      qed (use m in simp)
      moreover have "\<not> agree a b i" if "mid \<le> i" "i < hi" for i
        using "1.prems"(2)[OF that] dis by blast
      ultimately show ?thesis unfolding e
      proof (intro conjI allI impI, goal_cases)
        case (3 i)
        show ?case
        proof (cases "mid \<le> i")
          case True
          with 3 show ?thesis by fastforce
        next
          case False
          with 3(1,3) show ?thesis by simp
        qed
      qed (use m in simp_all)
    qed
  next
    case False
    with "1.prems"(1) show ?thesis by (subst (1 2 3) fork_search.simps) auto
  qed
qed

text \<open>
  Blocks that link by hash: each block's hash is the hash of its content, and each block names its
  predecessor's hash.
\<close>

definition linked :: "prims \<Rightarrow> blocks \<Rightarrow> bool" where
  "linked P c \<longleftrightarrow> (\<forall>i<length c. hash_of (c ! i) = JStr (block_hash P (c ! i))
     \<and> (0 < i \<longrightarrow> jget (c ! i) ''previous_hash'' = hash_of (c ! (i - 1))))"

definition no_collision :: "prims \<Rightarrow> blocks \<Rightarrow> blocks \<Rightarrow> bool" where
  "no_collision P a b \<longleftrightarrow> (\<forall>x\<in>set a. \<forall>y\<in>set b. block_hash P x = block_hash P y \<longrightarrow>
     jget x ''previous_hash'' = jget y ''previous_hash'')"

lemma linked_agree_down:
  assumes "linked P a" "linked P b" "no_collision P a b" "i \<le> j" "j < min (length a) (length b)" "agree a b j"
  shows "agree a b i"
  using assms(4-)
proof (induction j rule: dec_induct)
  case (step j)
  have "hash_of (a ! Suc j) = JStr (block_hash P (a ! Suc j))" "hash_of (b ! Suc j) = JStr (block_hash P (b ! Suc j))"
    "jget (a ! Suc j) ''previous_hash'' = hash_of (a ! j)" "jget (b ! Suc j) ''previous_hash'' = hash_of (b ! j)"
    using assms(1,2) step.prems by (auto simp: linked_def)
  moreover from this step.prems have "block_hash P (a ! Suc j) = block_hash P (b ! Suc j)" by (simp add: agree_def)
  moreover have "a ! Suc j \<in> set a" "b ! Suc j \<in> set b" using step.prems by auto
  ultimately have "agree a b j" using assms(3) by (auto simp: no_collision_def agree_def)
  with step show ?case by simp
qed simp

text \<open>The binary search finds the fork: on two chains of linked blocks with no hash collision
  between them, the blocks below \<^verbatim>\<open>_fork_point\<close> agree, and from it to the end of the shorter chain none
  do. It is the length of the common prefix.\<close>

theorem fork_point_common_prefix:
  assumes "linked P a" and "linked P b" and "no_collision P a b"
  shows "fork_point a b \<le> min (length a) (length b)
    \<and> (\<forall>i<min (length a) (length b). hash_of (a ! i) = hash_of (b ! i) \<longleftrightarrow> i < fork_point a b)"
  using fork_search_split[of 0 "min (length a) (length b)" a b] linked_agree_down[OF assms]
  unfolding fork_point_def agree_def[symmetric] by blast

section \<open>Chains grown by validated blocks\<close>

text \<open>
  The chain states a node reaches from genesis by appending validated blocks at heights other than 0
  (\<^verbatim>\<open>block.validate\<close> skips most checks for a block that says its height is 0, see below).
\<close>

inductive grown :: "prims \<Rightarrow> chain_state \<Rightarrow> bool" for P where
  grown_genesis: "grown P (from_genesis P)"
| grown_append: "grown P cs \<Longrightarrow> validate_and_apply P now cs blk = Inr (None, cs') \<Longrightarrow>
    jnum (jget blk ''height'') = Some h \<Longrightarrow> h \<noteq> 0 \<Longrightarrow> grown P cs'"

inductive_cases grownE: "grown P cs"

definition iters :: "block \<Rightarrow> int" where
  "iters b = (case iterations_of b of JInt n \<Rightarrow> n | _ \<Rightarrow> 0)"

definition block_time :: "block \<Rightarrow> rat" where
  "block_time b = (case jnum (jget b ''timestamp'') of Some t \<Rightarrow> t | None \<Rightarrow> 0)"

definition chain_inv :: "prims \<Rightarrow> blocks \<Rightarrow> bool" where
  "chain_inv P c \<longleftrightarrow> c \<noteq> [] \<and> c ! 0 = create_genesis P
     \<and> (\<forall>i<length c. parent_ok (c ! i) (block_hash P (c ! i)) (of_nat i) (block_time (c ! i))
          \<and> iterations_of (c ! i) = JInt (iters (c ! i)) \<and> VDF_ITERATIONS \<le> iters (c ! i))
     \<and> (\<forall>i. 0 < i \<and> i < length c \<longrightarrow>
          jget (c ! i) ''previous_hash'' = JStr (block_hash P (c ! (i - 1)))
          \<and> block_time (c ! (i - 1)) + 90 \<le> block_time (c ! i)
          \<and> get_vdf_iterations (take i c) = Inr (JInt (iters (c ! i))))"

lemma parent_ok_hash: "parent_ok b h n ts \<Longrightarrow> hash_of b = JStr h"
  by (simp add: parent_ok_def hash_of_def jget_def get_or_def)

lemma chain_inv_linked: "chain_inv P c \<Longrightarrow> linked P c"
  unfolding linked_def
proof (intro allI impI conjI)
  fix i assume c: "chain_inv P c" and i: "i < length c"
  then have h: "hash_of (c ! j) = JStr (block_hash P (c ! j))" if "j < length c" for j
    using that by (auto simp: chain_inv_def dest: parent_ok_hash)
  then show "hash_of (c ! i) = JStr (block_hash P (c ! i))" using i .
  show "jget (c ! i) ''previous_hash'' = hash_of (c ! (i - 1))" if "0 < i"
    using c h[of "i - 1"] i that by (simp add: chain_inv_def)
qed

text \<open>The count the next block needs is an integer, at least the initial one.\<close>

lemma required_int:
  assumes "chain_inv P c" "get_vdf_iterations c = Inr r"
  shows "\<exists>m. r = JInt m \<and> VDF_ITERATIONS \<le> m"
proof -
  let ?last = "(length c div VDF_ADJUST_INTERVAL) * VDF_ADJUST_INTERVAL"
  have I: "iterations_of (c ! i) = JInt (iters (c ! i)) \<and> VDF_ITERATIONS \<le> iters (c ! i)" if "i < length c" for i
    using assms(1) that by (simp add: chain_inv_def)
  consider "length c < VDF_ADJUST_INTERVAL" | "\<not> length c < VDF_ADJUST_INTERVAL" "?last < length c"
    | "\<not> length c < VDF_ADJUST_INTERVAL" "\<not> ?last < length c" by blast
  then show ?thesis
  proof cases
    case 1
    with assms(2) show ?thesis by (auto simp: get_vdf_iterations_def)
  next
    case 2
    with assms(2) have "r = iterations_of (c ! ?last)" by (simp add: get_vdf_iterations_def Let_def)
    with I[OF 2(2)] show ?thesis by simp
  next
    case 3
    let ?w = "?last - VDF_ADJUST_INTERVAL"
    have "?w < length c"
      using 3 by (simp add: VDF_ADJUST_INTERVAL_def)
    note w = I[OF this]
    from assms(2) 3 have "r = iterations_of (c ! ?w) \<or>
        mul_floordiv (iterations_of (c ! ?w)) VDF_ADJUST_NUMERATOR VDF_ADJUST_DENOMINATOR = Inr r"
      by (auto simp: get_vdf_iterations_def Let_def rbind_Inr_conv split: if_splits)
    then show ?thesis
    proof
      assume "r = iterations_of (c ! ?w)" with w show ?thesis by simp
    next
      assume "mul_floordiv (iterations_of (c ! ?w)) VDF_ADJUST_NUMERATOR VDF_ADJUST_DENOMINATOR = Inr r"
      then have "r = JInt (iters (c ! ?w) * 51 div 50)"
        using w by (simp add: VDF_ADJUST_NUMERATOR_def VDF_ADJUST_DENOMINATOR_def)
      moreover have "VDF_ITERATIONS \<le> iters (c ! ?w) * 51 div 50"
        using w unfolding VDF_ITERATIONS_def by linarith
      ultimately show ?thesis by simp
    qed
  qed
qed

lemma genesis_inv: "chain_inv P [create_genesis P]"
proof -
  have "without ''hash'' (create_genesis P) = without ''hash'' (AList.delete ''hash'' (create_genesis P))"
    by (simp add: create_genesis_def Let_def without_def)
  moreover have "block_hash P (create_genesis P) = block_hash P (AList.delete ''hash'' (create_genesis P))"
    unfolding block_hash_def calculation ..
  ultimately show ?thesis
    by (auto simp: chain_inv_def parent_ok_def read_num_def read_field_def create_genesis_def Let_def
        iterations_of_def iters_def block_time_def jget_def get_or_def block_hash_def without_def)
qed

lemma chain_inv_append:
  assumes inv: "chain_inv P c" and val: "block_validate P now blk s c = Inr (None, s')"
    and h: "jnum (jget blk ''height'') = Some h" "h \<noteq> 0"
  shows "chain_inv P (c @ [blk])"
proof -
  let ?l = "length c - 1"
  have c: "c \<noteq> []" using inv by (simp add: chain_inv_def)
  have "parent_ok (last c) (block_hash P (last c)) (of_nat ?l) (block_time (last c))"
    using inv c by (simp add: chain_inv_def last_conv_nth)
  note iff = block_validate_None[of P now blk s c s'] check_hash_None check_parent_None[OF this c refl h]
    check_timestamp_None[OF this c] check_builder_None[OF this c refl h]
  from val[unfolded iff] obtain ts a out pf req bs where v: "jget blk ''hash'' = JStr (block_hash P blk)"
      "jget blk ''previous_hash'' = JStr (block_hash P (last c))" "h = of_nat ?l + 1"
      "jnum (jget blk ''timestamp'') = Some ts" "block_time (last c) + 90 \<le> ts"
      "get_vdf_iterations c = Inr req" "py_eq (iterations_of blk) req"
      "vdf_verify P (sha256 P (bs @ utf8_encode a)) out pf (iterations_of blk)"
    by (auto simp: MIN_BLOCK_SPACING_SECONDS_def)
  from required_int[OF inv v(6)] obtain m where m: "req = JInt m" "VDF_ITERATIONS \<le> m" by blast
  from vdf_verify_int[OF v(8)] v(7) m have it: "iterations_of blk = JInt m"
    by (cases "iterations_of blk") (auto simp: py_eq_def VDF_ITERATIONS_def split: if_splits)
  have hlen: "h = of_nat (length c)" using v(3) c by (simp add: of_nat_diff Suc_leI)
  have "map_of blk ''hash'' = Some (JStr (block_hash P blk))" using v(1) by (intro jget_Some) auto
  moreover have "map_of blk ''height'' = Some (jget blk ''height'')" using h by (intro jget_Some) auto
  moreover have "map_of blk ''timestamp'' = Some (jget blk ''timestamp'')" using v(4) by (intro jget_Some) auto
  ultimately have p: "parent_ok blk (block_hash P blk) (of_nat (length c)) (block_time blk)"
    using h v(4) hlen by (simp add: parent_ok_def read_num_def read_field_def block_time_def)
  have t: "block_time (last c) + 90 \<le> block_time blk" using v(4,5) by (simp add: block_time_def)
  have n: "iters blk = m" using it by (simp add: iters_def)
  show ?thesis unfolding chain_inv_def
  proof (intro conjI allI impI; (elim conjE)?)
    show "c @ [blk] \<noteq> []" "(c @ [blk]) ! 0 = create_genesis P" using inv c by (auto simp: chain_inv_def nth_append)
  next
    fix i assume i: "i < length (c @ [blk])"
    show "parent_ok ((c @ [blk]) ! i) (block_hash P ((c @ [blk]) ! i)) (of_nat i) (block_time ((c @ [blk]) ! i))"
      "iterations_of ((c @ [blk]) ! i) = JInt (iters ((c @ [blk]) ! i))"
      "VDF_ITERATIONS \<le> iters ((c @ [blk]) ! i)"
      using inv i p it n m(2) by (auto simp: chain_inv_def nth_append not_less less_Suc_eq)
  next
    fix i assume i: "0 < i" "i < length (c @ [blk])"
    have "jget ((c @ [blk]) ! i) ''previous_hash'' = JStr (block_hash P ((c @ [blk]) ! (i - 1)))
      \<and> block_time ((c @ [blk]) ! (i - 1)) + 90 \<le> block_time ((c @ [blk]) ! i)
      \<and> get_vdf_iterations (take i (c @ [blk])) = Inr (JInt (iters ((c @ [blk]) ! i)))"
    proof (cases "i = length c")
      case True
      with v(2,6) t n m c i show ?thesis by (simp add: nth_append last_conv_nth)
    next
      case False
      with i have "i < length c" "i - 1 < length c" by simp_all
      with inv i show ?thesis by (auto simp: chain_inv_def nth_append)
    qed
    then show "jget ((c @ [blk]) ! i) ''previous_hash'' = JStr (block_hash P ((c @ [blk]) ! (i - 1)))"
      "block_time ((c @ [blk]) ! (i - 1)) + 90 \<le> block_time ((c @ [blk]) ! i)"
      "get_vdf_iterations (take i (c @ [blk])) = Inr (JInt (iters ((c @ [blk]) ! i)))" by blast+
  qed
qed

lemma validate_and_apply_ok:
  assumes "validate_and_apply P now cs blk = Inr (None, cs')"
  obtains probe where "block_validate P now blk (cs_state cs) (cs_chain cs) = Inr (None, probe)"
    "apply_block_with_state cs blk probe = Inr cs'" "cs_chain cs' = cs_chain cs @ [blk]"
proof -
  from assms obtain probe where "block_validate P now blk (cs_state cs) (cs_chain cs) = Inr (None, probe)"
      "apply_block_with_state cs blk probe = Inr cs'"
    by (auto simp: validate_and_apply_def rbind_Inr_conv split: option.splits)
  moreover from this(2) have "cs_chain cs' = cs_chain cs @ [blk]"
    by (auto simp: apply_block_with_state_def rbind_Inr_conv)
  ultimately show thesis by (rule that)
qed

lemma grown_inv: "grown P cs \<Longrightarrow> chain_inv P (cs_chain cs)"
proof (induction rule: grown.induct)
  case grown_genesis
  then show ?case by (simp add: from_genesis_def genesis_inv)
next
  case (grown_append cs now blk cs' h)
  then show ?case by (auto elim!: validate_and_apply_ok intro: chain_inv_append)
qed

text \<open>Every chain grown from genesis by validated blocks is well formed: the block at index \<open>i\<close> has
  height \<open>i\<close> and the hash of its own content, it names its parent's hash, and two of its
  blocks are at least 90 s apart for every height between them.\<close>

theorem grown_chain_shape:
  assumes "grown P cs" and "i \<le> j" and "j < length (cs_chain cs)"
  shows "read_num ''height'' (cs_chain cs ! i) = Inr (of_nat i)
    \<and> hash_of (cs_chain cs ! i) = JStr (block_hash P (cs_chain cs ! i))
    \<and> linked P (cs_chain cs)
    \<and> block_time (cs_chain cs ! i) + 90 * of_nat (j - i) \<le> block_time (cs_chain cs ! j)"
proof -
  let ?c = "cs_chain cs"
  from grown_inv[OF assms(1)] have inv: "chain_inv P ?c" .
  have p: "parent_ok (?c ! i) (block_hash P (?c ! i)) (of_nat i) (block_time (?c ! i))"
    using inv assms(2,3) by (simp add: chain_inv_def)
  have "block_time (?c ! i) + 90 * of_nat (j - i) \<le> block_time (?c ! j)"
    using assms(2,3)
  proof (induction j rule: dec_induct)
    case (step j)
    have "block_time (?c ! j) + 90 \<le> block_time (?c ! Suc j)"
      using inv step.prems unfolding chain_inv_def by (metis diff_Suc_1 zero_less_Suc)
    with step show ?case by (simp add: Suc_diff_le algebra_simps)
  qed simp
  with p show ?thesis
    using chain_inv_linked[OF inv] parent_ok_hash[OF p] by (simp add: parent_ok_def)
qed

section \<open>The iteration count is a ratchet\<close>

lemma iters_epoch:
  assumes inv: "chain_inv P c" and i: "i < length c"
  shows "iters (c ! i) = iters (c ! (i div VDF_ADJUST_INTERVAL * VDF_ADJUST_INTERVAL))"
proof (cases "i mod VDF_ADJUST_INTERVAL = 0")
  case True
  then show ?thesis by (metis mod_0_imp_dvd dvd_div_mult_self)
next
  case False
  let ?l = "i div VDF_ADJUST_INTERVAL * VDF_ADJUST_INTERVAL"
  have l: "?l < i" using False
    by (metis div_times_less_eq_dividend le_neq_implies_less mod_mult_self2_is_0)
  with i have g: "get_vdf_iterations (take i c) = Inr (JInt (iters (c ! i)))"
    using inv by (simp add: chain_inv_def)
  have len: "length (take i c) = i" using i by simp
  show ?thesis
  proof (cases "i < VDF_ADJUST_INTERVAL")
    case True
    then have "iters (c ! i) = VDF_ITERATIONS" using g len by (simp add: get_vdf_iterations_def)
    moreover have "c ! 0 = create_genesis P" using inv by (simp add: chain_inv_def)
    then have "iters (c ! 0) = VDF_ITERATIONS"
      by (simp add: iters_def iterations_of_def create_genesis_def Let_def get_or_def)
    ultimately show ?thesis using True by simp
  next
    case False
    then have "Inr (iterations_of (take i c ! ?l)) = (Inr (JInt (iters (c ! i))) :: json res)"
      using g l unfolding get_vdf_iterations_def Let_def len by simp
    with l show ?thesis by (simp add: iters_def)
  qed
qed

lemma iters_boundary:
  assumes inv: "chain_inv P c" and k: "Suc k * VDF_ADJUST_INTERVAL < length c"
  shows "iters (c ! (Suc k * VDF_ADJUST_INTERVAL)) = iters (c ! (k * VDF_ADJUST_INTERVAL))
    \<or> iters (c ! (Suc k * VDF_ADJUST_INTERVAL)) = iters (c ! (k * VDF_ADJUST_INTERVAL)) * 51 div 50"
proof -
  let ?i = "Suc k * VDF_ADJUST_INTERVAL" and ?w = "k * VDF_ADJUST_INTERVAL"
  have pos: "0 < VDF_ADJUST_INTERVAL" by (simp add: VDF_ADJUST_INTERVAL_def)
  then have "0 < ?i" by simp
  with k have g: "get_vdf_iterations (take ?i c) = Inr (JInt (iters (c ! ?i)))"
    using inv by (simp only: chain_inv_def)
  have len: "length (take ?i c) = ?i" using k by simp
  have w: "?w < ?i" "?i - VDF_ADJUST_INTERVAL = ?w" using pos by auto
  have it: "iterations_of (take ?i c ! ?w) = JInt (iters (c ! ?w))"
    using inv k w by (simp add: chain_inv_def)
  have d: "?i div VDF_ADJUST_INTERVAL * VDF_ADJUST_INTERVAL = ?i" using pos by simp
  have "\<not> ?i < VDF_ADJUST_INTERVAL" by simp
  then obtain deltas where "(if deltas \<noteq> [] \<and> median deltas < VDF_ADJUST_MIN_SECONDS
      then mul_floordiv (JInt (iters (c ! ?w))) VDF_ADJUST_NUMERATOR VDF_ADJUST_DENOMINATOR
      else Inr (JInt (iters (c ! ?w)))) = Inr (JInt (iters (c ! ?i)))"
    using g unfolding get_vdf_iterations_def Let_def len d w(2) it
    by (simp only: if_False less_irrefl rbind_Inr_conv) blast
  then show ?thesis by (auto simp: VDF_ADJUST_NUMERATOR_def VDF_ADJUST_DENOMINATOR_def split: if_splits)
qed

lemma iters_boundaries:
  assumes inv: "chain_inv P c" and "k \<le> l" "l * VDF_ADJUST_INTERVAL < length c"
  shows "iters (c ! (k * VDF_ADJUST_INTERVAL)) \<le> iters (c ! (l * VDF_ADJUST_INTERVAL))
    \<and> 50 ^ (l - k) * iters (c ! (l * VDF_ADJUST_INTERVAL)) \<le> 51 ^ (l - k) * iters (c ! (k * VDF_ADJUST_INTERVAL))"
  using assms(2,3)
proof (induction l rule: dec_induct)
  case (step l)
  let ?a = "iters (c ! (k * VDF_ADJUST_INTERVAL))" and ?b = "iters (c ! (l * VDF_ADJUST_INTERVAL))"
    and ?d = "iters (c ! (Suc l * VDF_ADJUST_INTERVAL))"
  have len: "l * VDF_ADJUST_INTERVAL < length c" using step.prems by simp
  then have "VDF_ITERATIONS \<le> ?b" using inv by (simp add: chain_inv_def)
  then have pos: "0 \<le> ?b" by (simp add: VDF_ITERATIONS_def)
  have "?d = ?b \<or> ?d = ?b * 51 div 50" using iters_boundary[OF inv step.prems] .
  then have d: "?b \<le> ?d" "50 * ?d \<le> 51 * ?b" using pos by auto
  from step.IH[OF len] have IH: "?a \<le> ?b" "50 ^ (l - k) * ?b \<le> 51 ^ (l - k) * ?a" by blast+
  have "50 ^ (Suc l - k) * ?d = 50 ^ (l - k) * (50 * ?d)" using step.hyps by (simp add: Suc_diff_le)
  also have "\<dots> \<le> 50 ^ (l - k) * (51 * ?b)" by (rule mult_left_mono[OF d(2)]) simp
  also have "\<dots> = 51 * (50 ^ (l - k) * ?b)" by simp
  also have "\<dots> \<le> 51 * (51 ^ (l - k) * ?a)" by (rule mult_left_mono[OF IH(2)]) simp
  also have "\<dots> = 51 ^ (Suc l - k) * ?a" using step.hyps by (simp add: Suc_diff_le)
  finally show ?case using IH(1) d(1) by simp
qed simp

text \<open>The difficulty is a ratchet: on a chain grown from genesis every block carries an integer
  iteration count, at least the initial 12.2 million, that never falls from one block to a later one and
  rises at most by a factor of 51/50 per 10080 blocks.\<close>

theorem iterations_ratchet:
  assumes "grown P cs" and "i \<le> j" and "j < length (cs_chain cs)"
  shows "iterations_of (cs_chain cs ! i) = JInt (iters (cs_chain cs ! i))
    \<and> VDF_ITERATIONS \<le> iters (cs_chain cs ! i)
    \<and> iters (cs_chain cs ! i) \<le> iters (cs_chain cs ! j)
    \<and> 50 ^ (j div VDF_ADJUST_INTERVAL - i div VDF_ADJUST_INTERVAL) * iters (cs_chain cs ! j)
        \<le> 51 ^ (j div VDF_ADJUST_INTERVAL - i div VDF_ADJUST_INTERVAL) * iters (cs_chain cs ! i)"
proof -
  let ?c = "cs_chain cs" and ?I = VDF_ADJUST_INTERVAL
  from grown_inv[OF assms(1)] have inv: "chain_inv P ?c" .
  have "i div ?I \<le> j div ?I" by (rule div_le_mono[OF assms(2)])
  moreover have "j div ?I * ?I < length ?c" using assms(3) by (meson div_times_less_eq_dividend order.strict_trans1)
  ultimately have "iters (?c ! (i div ?I * ?I)) \<le> iters (?c ! (j div ?I * ?I))
      \<and> 50 ^ (j div ?I - i div ?I) * iters (?c ! (j div ?I * ?I))
        \<le> 51 ^ (j div ?I - i div ?I) * iters (?c ! (i div ?I * ?I))"
    by (rule iters_boundaries[OF inv])
  moreover have i: "i < length ?c" using assms(2,3) by simp
  moreover have "iterations_of (?c ! i) = JInt (iters (?c ! i))" "VDF_ITERATIONS \<le> iters (?c ! i)"
    using inv i by (simp_all add: chain_inv_def)
  ultimately show ?thesis
    unfolding iters_epoch[OF inv assms(3)] iters_epoch[OF inv i, symmetric] by blast
qed

section \<open>The ledger of a grown chain\<close>

lemma apply_json_txs: "foldr_res apply_json_tx s (map JObj txs) = foldr_res apply_tx s txs"
proof (induction txs arbitrary: s)
  case (Cons t txs)
  then show ?case by (cases "apply_tx s t") (simp_all add: apply_json_tx_def)
qed simp

text \<open>What crediting the builder does: the fees come back into circulation, the reward is minted.\<close>

lemma apply_builder_reward_effect:
  assumes "state_inv s" "block_fees blk = Inr fees" "0 \<le> fees" "0 \<le> total_minted s" "total_minted s \<le> SUPPLY_CAP"
  shows "\<exists>s'. apply_builder_reward s a blk = Inr s' \<and> state_inv s'
    \<and> total_supply s' = total_supply s + fees + compute_reward (total_minted s)
    \<and> total_minted s' = total_minted s + compute_reward (total_minted s)
    \<and> total_board_posts s' = total_board_posts s
    \<and> (\<forall>b. get_balance s' b = get_balance s b
         + (if b = a then fees + compute_reward (total_minted s) else 0))
    \<and> get_nonce s' = get_nonce s"
proof -
  let ?r = "compute_reward (total_minted s)"
  have r: "0 \<le> ?r" using reward_facts[OF assms(4,5) order.refl] by blast
  have "\<exists>s1. (if fees > 0 then credit s a fees else Inr s) = Inr s1 \<and> state_inv s1
      \<and> total_supply s1 = total_supply s + fees \<and> total_minted s1 = total_minted s
      \<and> total_board_posts s1 = total_board_posts s
      \<and> (\<forall>b. get_balance s1 b = get_balance s b + (if b = a then fees else 0)) \<and> get_nonce s1 = get_nonce s"
  proof (cases "fees > 0")
    case True
    then obtain s1 where s1: "credit s a fees = Inr s1" by (auto simp: credit_def)
    from credit_InrD[OF assms(1) s1] s1 True show ?thesis by auto
  next
    case False
    with assms(1,3) show ?thesis by (auto intro!: exI[of _ s])
  qed
  then obtain s1 where s1: "(if fees > 0 then credit s a fees else Inr s) = Inr s1" "state_inv s1"
      "total_supply s1 = total_supply s + fees" "total_minted s1 = total_minted s"
      "total_board_posts s1 = total_board_posts s"
      "\<And>b. get_balance s1 b = get_balance s b + (if b = a then fees else 0)" "get_nonce s1 = get_nonce s"
    by blast
  have e: "apply_builder_reward s a blk
      = (if ?r \<ge> 1 then apply_reward_distribution s1 [(a, ?r)] else Inr s1)"
    by (simp add: apply_builder_reward_def assms(2) s1(1,4) compute_block_reward_def Let_def)
  show ?thesis
  proof (cases "?r \<ge> 1")
    case True
    from apply_reward_step[OF s1(2) True, of a] obtain s' where
      "apply_reward_distribution s1 [(a, ?r)] = Inr s'" "state_inv s'"
      "total_supply s' = total_supply s1 + ?r" "total_minted s' = total_minted s1 + ?r"
      "\<And>b. get_balance s' b = get_balance s1 b + (if b = a then ?r else 0)"
      "get_nonce s' = get_nonce s1" "total_board_posts s' = total_board_posts s1" by blast
    with True s1 show ?thesis unfolding e by (intro exI[of _ s']) auto
  next
    case False
    with r have "?r = 0" by simp
    with False s1 show ?thesis unfolding e by (intro exI[of _ s1]) auto
  qed
qed

text \<open>
  What a validated block adds to the cumulative count: its iteration count, but nothing when the field
  is missing. Validation reads a missing field as the initial count, \<^verbatim>\<open>blk.get("vdf_iterations", 0)\<close>
  as 0.
\<close>

definition counted :: "block \<Rightarrow> int" where
  "counted blk = (if has_key blk ''vdf_iterations'' then iters blk else 0)"

lemma work_counted: "iterations_of blk = JInt (iters blk) \<Longrightarrow> work_of blk = Inr (of_int (counted blk))"
  by (auto simp: work_of_def counted_def iterations_of_def get_or_def has_key_map_of split: option.splits)

text \<open>
  What appending a validated block does, in one lemma: the builder is a well-formed address, it gets
  fees and reward, and replaying the block gives the same state.
\<close>

lemma valid_builder_truthy: "is_valid_address P (JStr a) \<Longrightarrow> a \<noteq> []"
  by (auto simp: is_valid_address_def ADDRESS_WORD_COUNT_def)

lemma append_effect:
  assumes inv: "chain_inv P (cs_chain cs)" and s: "state_inv (cs_state cs)" "0 \<le> total_minted (cs_state cs)"
      "total_minted (cs_state cs) \<le> SUPPLY_CAP"
    and val: "validate_and_apply P now cs blk = Inr (None, cs')"
    and h: "jnum (jget blk ''height'') = Some h" "h \<noteq> 0"
  shows "\<exists>a fees txs probe. jget blk ''builder'' = JStr a \<and> is_valid_address P (JStr a)
    \<and> iter_json (jget blk ''transactions'') = Inr (map JObj txs) \<and> block_fees blk = Inr fees
    \<and> foldr_res apply_tx (cs_state cs) txs = Inr probe
    \<and> apply_to_state probe blk = Inr (cs_state cs') \<and> state_inv (cs_state cs')
    \<and> total_supply (cs_state cs') = total_supply (cs_state cs) + compute_reward (total_minted (cs_state cs))
    \<and> total_minted (cs_state cs') = total_minted (cs_state cs) + compute_reward (total_minted (cs_state cs))
    \<and> (\<forall>b. get_balance (cs_state cs') b = get_balance probe b
         + (if b = a then fees + compute_reward (total_minted (cs_state cs)) else 0))
    \<and> cumulative_iterations cs' = cumulative_iterations cs + of_int (counted blk)
    \<and> work_of blk = Inr (of_int (counted blk))"
proof -
  from val obtain probe where p: "block_validate P now blk (cs_state cs) (cs_chain cs) = Inr (None, probe)"
      "apply_block_with_state cs blk probe = Inr cs'" by (rule validate_and_apply_ok)
  have c: "cs_chain cs \<noteq> []" using inv by (simp add: chain_inv_def)
  have par: "parent_ok (last (cs_chain cs)) (block_hash P (last (cs_chain cs)))
      (of_nat (length (cs_chain cs) - 1)) (block_time (last (cs_chain cs)))"
    using inv c by (simp add: chain_inv_def last_conv_nth)
  from p(1) check_builder_None[OF par c refl h] obtain a where a: "jget blk ''builder'' = JStr a"
      "is_valid_address P (JStr a)" by (auto simp: block_validate_None)
  from p(1) have at: "apply_transactions P blk (cs_state cs) = Inr (None, probe)" by (simp add: block_validate_None)
  from apply_transactions_effect[OF at s(1)] obtain txs fees where t:
      "iter_json (jget blk ''transactions'') = Inr (map JObj txs)" "foldr_res apply_tx (cs_state cs) txs = Inr probe"
      "state_inv probe" "block_fees blk = Inr fees" "0 \<le> fees"
      "total_supply probe = total_supply (cs_state cs) - fees" "total_minted probe = total_minted (cs_state cs)"
    by blast
  have ab: "apply_to_state probe blk = apply_builder_reward probe a blk"
    using a valid_builder_truthy by (auto simp: apply_to_state_def)
  obtain s' where s': "apply_builder_reward probe a blk = Inr s'" "state_inv s'"
      "total_supply s' = total_supply (cs_state cs) + compute_reward (total_minted (cs_state cs))"
      "total_minted s' = total_minted (cs_state cs) + compute_reward (total_minted (cs_state cs))"
      "\<And>b. get_balance s' b = get_balance probe b
         + (if b = a then fees + compute_reward (total_minted (cs_state cs)) else 0)"
    using apply_builder_reward_effect[OF t(3,4,5), of a] t(6,7) s(2,3) by auto
  have "chain_inv P (cs_chain cs @ [blk])" by (rule chain_inv_append[OF inv p(1) h])
  then have "iterations_of ((cs_chain cs @ [blk]) ! length (cs_chain cs)) = JInt (iters blk)"
    unfolding chain_inv_def by (metis length_append_singleton lessI nth_append_length)
  then have it: "iterations_of blk = JInt (iters blk)" by simp
  from p(2) obtain n where n: "apply_to_state probe blk = Inr (cs_state cs')" "work_of blk = Inr n"
      "cumulative_iterations cs' = cumulative_iterations cs + n"
    by (auto simp: apply_block_with_state_def rbind_Inr_conv)
  have "cs_state cs' = s'" "n = of_int (counted blk)"
    using n(1,2) s'(1) ab work_counted[OF it] by simp_all
  with a t n s' show ?thesis
    by (intro exI[of _ a] exI[of _ fees] exI[of _ txs] exI[of _ probe]) simp
qed

text \<open>The ledger facts that hold along a grown chain.\<close>

lemma grown_state:
  "grown P cs \<Longrightarrow> state_inv (cs_state cs) \<and> total_supply (cs_state cs) = total_minted (cs_state cs)
     \<and> 0 \<le> total_minted (cs_state cs) \<and> total_minted (cs_state cs) \<le> SUPPLY_CAP"
proof (induction rule: grown.induct)
  case grown_genesis
  then show ?case
    by (simp add: from_genesis_def empty_state_def state_inv_def total_supply_def param_defs)
next
  case (grown_append cs now blk cs' h)
  then have s: "state_inv (cs_state cs)" "0 \<le> total_minted (cs_state cs)" "total_minted (cs_state cs) \<le> SUPPLY_CAP"
    and sup: "total_supply (cs_state cs) = total_minted (cs_state cs)" by blast+
  from append_effect[OF grown_inv[OF grown_append(1)] s grown_append(2-4)]
  have "state_inv (cs_state cs')"
    "total_supply (cs_state cs') = total_supply (cs_state cs) + compute_reward (total_minted (cs_state cs))"
    "total_minted (cs_state cs') = total_minted (cs_state cs) + compute_reward (total_minted (cs_state cs))" by blast+
  with sup s(2) reward_facts[OF s(2,3) order.refl] show ?case by simp
qed


lemma sum_iterations_snoc:
  assumes "sum_iterations c = Inr n" "read_num ''height'' b = Inr h" "h > 0" "work_of b = Inr w"
  shows "sum_iterations (c @ [b]) = Inr (n + w)"
  using assms by (simp add: sum_iterations_def res_simps)

lemma grown_replay:
  "grown P cs \<Longrightarrow> foldr_res replay_block empty_state (cs_chain cs) = Inr (cs_state cs)
     \<and> sum_iterations (cs_chain cs) = Inr (cumulative_iterations cs)
     \<and> cumulative_iterations cs = of_int (sum_list (map counted (tl (cs_chain cs))))"
proof (induction rule: grown.induct)
  case grown_genesis
  then show ?case
    by (simp add: from_genesis_def replay_block_def sum_iterations_def create_genesis_def Let_def
        read_field_def read_num_def py_eq_def)
next
  case (grown_append cs now blk cs' h)
  note inv = grown_inv[OF grown_append(1)]
  from grown_state[OF grown_append(1)] have s: "state_inv (cs_state cs)" "0 \<le> total_minted (cs_state cs)"
    "total_minted (cs_state cs) \<le> SUPPLY_CAP" by blast+
  from grown_append(2) obtain pr where pr: "block_validate P now blk (cs_state cs) (cs_chain cs) = Inr (None, pr)"
      "cs_chain cs' = cs_chain cs @ [blk]" by (rule validate_and_apply_ok)
  from append_effect[OF inv s grown_append(2-4)] obtain txs probe where e:
      "iter_json (jget blk ''transactions'') = Inr (map JObj txs)"
      "foldr_res apply_tx (cs_state cs) txs = Inr probe" "apply_to_state probe blk = Inr (cs_state cs')"
      "cumulative_iterations cs' = cumulative_iterations cs + of_int (counted blk)"
      "work_of blk = Inr (of_int (counted blk))" by blast
  from pr(1) obtain v where "map_of blk ''transactions'' = Some v"
    by (auto simp: block_validate_None apply_transactions_def read_field_def rbind_Inr_conv split: option.splits)
  with e(1) have t: "read_field ''transactions'' blk = Inr v" "iter_json v = Inr (map JObj txs)"
    by (simp_all add: read_field_def jget_def get_or_def)
  have "chain_inv P (cs_chain cs @ [blk])" by (rule chain_inv_append[OF inv pr(1) grown_append(3,4)])
  then have "parent_ok ((cs_chain cs @ [blk]) ! length (cs_chain cs)) (block_hash P blk)
      (of_nat (length (cs_chain cs))) (block_time blk)"
    unfolding chain_inv_def by (metis length_append_singleton lessI nth_append_length)
  then have hb: "read_num ''height'' blk = Inr (of_nat (length (cs_chain cs)))" by (simp add: parent_ok_def)
  have c: "cs_chain cs \<noteq> []" using inv by (simp add: chain_inv_def)
  have "map_of blk ''height'' = Some (jget blk ''height'')" using grown_append(3) by (intro jget_Some) auto
  then have hf: "read_field ''height'' blk = Inr (jget blk ''height'')" "\<not> py_eq (jget blk ''height'') (JInt 0)"
    using grown_append(3,4) by (simp_all add: read_field_def py_eq_def)
  have "replay_block (cs_state cs) blk = Inr (cs_state cs')"
    by (simp add: replay_block_def hf t apply_json_txs e(2,3))
  moreover have "sum_iterations (cs_chain cs') = Inr (cumulative_iterations cs')"
    unfolding pr(2) e(4) using c
    by (intro sum_iterations_snoc[OF _ hb _ e(5)]) (use grown_append.IH in simp_all)
  ultimately show ?case
    using grown_append.IH c by (simp add: pr(2) res_simps e(4))
qed

text \<open>C2: Replaying is the same as validating: \<^verbatim>\<open>from_chain\<close> on the blocks of a chain grown by
  \<^verbatim>\<open>validate_and_apply\<close> rebuilds exactly its ChainState, ledger and cumulative count included, and so
  does \<^verbatim>\<open>from_storage\<close> given the ledger. The count is the sum of the blocks' iteration counts, where a
  block that leaves the field out counts as nothing.\<close>

theorem replay_rebuilds:
  assumes "grown P cs"
  shows "from_chain (cs_chain cs) = Inr cs
    \<and> from_storage (cs_chain cs) (cs_state cs) = Inr cs
    \<and> cumulative_iterations cs = of_int (sum_list (map counted (tl (cs_chain cs))))"
  using grown_replay[OF assms] by (simp add: from_chain_def from_storage_def)

lemma apply_validated:
  assumes "state_inv (cs_state cs)" and "validate_and_apply P now cs blk = Inr (r, cs')"
  shows "case r of None \<Rightarrow> apply_block cs blk = Inr cs' | Some e \<Rightarrow> cs' = cs"
proof (cases r)
  case None
  with assms(2) obtain probe where p: "block_validate P now blk (cs_state cs) (cs_chain cs) = Inr (None, probe)"
      "apply_block_with_state cs blk probe = Inr cs'" by (blast elim: validate_and_apply_ok)
  then have at: "apply_transactions P blk (cs_state cs) = Inr (None, probe)" by (simp add: block_validate_None)
  from apply_transactions_effect[OF at assms(1)] obtain txs where t:
      "iter_json (jget blk ''transactions'') = Inr (map JObj txs)" "foldr_res apply_tx (cs_state cs) txs = Inr probe"
    by blast
  from at obtain v where "map_of blk ''transactions'' = Some v"
    by (auto simp: apply_transactions_def read_field_def rbind_Inr_conv split: option.splits)
  with t(1) have "iter_json (get_or blk ''transactions'' (JArr [])) = Inr (map JObj txs)"
    by (simp add: jget_def get_or_def)
  with None t(2) p(2) show ?thesis by (simp add: apply_block_def apply_json_txs)
next
  case (Some e)
  with assms(2) show ?thesis
    by (auto simp: validate_and_apply_def rbind_Inr_conv split: option.splits)
qed

text \<open>Handing the validation probe on is the same as applying the block afresh: whenever
  \<^verbatim>\<open>validate_and_apply\<close> accepts a block, \<^verbatim>\<open>apply_block\<close> gives the same ChainState without
  validating; a rejected block leaves the ChainState as it is.\<close>

theorem validate_and_apply_is_apply_block:
  assumes "state_inv (cs_state cs)" and "validate_and_apply P now cs blk = Inr (r, cs')"
  shows "case r of None \<Rightarrow> apply_block cs blk = Inr cs' | Some e \<Rightarrow> cs' = cs"
  using assms by (rule apply_validated)

section \<open>Fork choice\<close>

lemma fork_search_sym: "fork_search a b lo hi = fork_search b a lo hi"
proof (induction a b lo hi rule: fork_search.induct)
  case (1 a b lo hi)
  then show ?case
    by (subst (1 2) fork_search.simps) (auto simp: Let_def eq_commute[of "hash_of (b ! _)"])
qed

lemma fork_point_sym: "fork_point a b = fork_point b a"
  by (simp add: fork_point_def fork_search_sym[of a] min.commute)

text \<open>Each side counts the same draws, from its own end.\<close>

lemma count_draws_sym:
  "count_draws a b is m n = Inr (w, l) \<Longrightarrow> count_draws b a is n m = Inr (l, w)"
  by (induction "is" arbitrary: m n) (auto simp: rbind_Inr_conv split: if_splits dest: less_imp_not_less)

text \<open>Fork choice never sends two nodes in opposite directions: of two chains at most one is better
  than the other, no chain is better than itself, and more cumulative iterations always decide.\<close>

theorem fork_choice_asymmetric:
  "\<not> (is_better_than P a b = Inr True \<and> is_better_than P b a = Inr True)
   \<and> is_better_than P a a = Inr False
   \<and> (if cumulative_iterations b < cumulative_iterations a then is_better_than P a b = Inr True else True)"
proof (intro conjI notI)
  assume "is_better_than P a b = Inr True \<and> is_better_than P b a = Inr True"
  then have ab: "is_better_than P a b = Inr True" and ba: "is_better_than P b a = Inr True" by blast+
  show False
  proof (cases "cumulative_iterations a = cumulative_iterations b")
    case False
    with ab ba show ?thesis by (auto simp: is_better_than_def split: if_splits)
  next
    case True
    let ?f = "fork_point (cs_chain a) (cs_chain b)" and ?e = "min (length (cs_chain a)) (length (cs_chain b))"
    have f: "fork_point (cs_chain b) (cs_chain a) = ?f" "min (length (cs_chain b)) (length (cs_chain a)) = ?e"
      by (simp_all add: fork_point_sym[of "cs_chain a"] min.commute)
    from True ab ba have w: "wins_tie_break P a b = Inr True" "wins_tie_break P b a = Inr True"
      by (auto simp: is_better_than_def split: if_splits)
    from w(1) obtain m n where d: "count_draws (cs_chain a) (cs_chain b) [?f..<?e] 0 0 = Inr (m, n)"
      by (auto simp: wins_tie_break_def Let_def rbind_Inr_conv)
    from count_draws_sym[OF d] have d': "count_draws (cs_chain b) (cs_chain a) [?f..<?e] 0 0 = Inr (n, m)" .
    show ?thesis
    proof (cases "m = n")
      case False
      with w d d' show ?thesis by (simp add: wins_tie_break_def f Let_def)
    next
      case True
      with w d d' obtain k k' where "fallback_key P (cs_chain a) ?f ?e = Inr k"
          "fallback_key P (cs_chain b) ?f ?e = Inr k'" "k < k'" "k' < k"
        by (auto simp: wins_tie_break_def f Let_def rbind_Inr_conv)
      then show ?thesis by (meson less_asym)
    qed
  qed
qed (simp_all add: is_better_than_def)

section \<open>A block that says its height is 0\<close>

text \<open>A block with nothing but what the checks that still apply to it ask for.\<close>

definition zero_block :: "prims \<Rightarrow> string \<Rightarrow> int \<Rightarrow> rat \<Rightarrow> block" where
  "zero_block P builder work ts =
     (let b = [(''height'', JInt 0), (''timestamp'', JFloat ts), (''transactions'', JArr []),
               (''builder'', JStr builder), (''vdf_iterations'', JInt work)]
      in AList.update ''hash'' (JStr (block_hash P b)) b)"

lemma zero_block_fields:
  "jget (zero_block P a n ts) ''hash'' = JStr (block_hash P (zero_block P a n ts))"
  "jget (zero_block P a n ts) ''height'' = JInt 0" "jget (zero_block P a n ts) ''builder'' = JStr a"
  "jget (zero_block P a n ts) ''timestamp'' = JFloat ts" "block_fees (zero_block P a n ts) = Inr 0"
  "work_of (zero_block P a n ts) = Inr (of_int n)"
  "read_field ''height'' (zero_block P a n ts) = Inr (JInt 0)"
  "read_field ''transactions'' (zero_block P a n ts) = Inr (JArr [])"
  by (simp_all add: zero_block_def Let_def jget_def get_or_def block_hash_def without_def block_fees_def
      work_of_def read_field_def)

text \<open>C4: A block that claims height 0 is accepted on any chain without a parent hash, a VDF
  proof, a valid builder address or the required iteration count: the checks return early for it.
  It adds any iteration count it likes to the cumulative work that fork choice compares, and pays its
  builder the block reward. Rebuilding the chain from its blocks afterwards skips it, so the replayed
  ledger is another one.\<close>

theorem height_zero_block_forges_work:
  assumes "grown P cs" and "block_time (cs_tip cs) + 90 \<le> ts" and "ts \<le> now + 30" and "builder \<noteq> []"
    and "block_size P (zero_block P builder work ts) \<le> BLOCK_SIZE_LIMIT"
  shows "\<exists>cs'. validate_and_apply P now cs (zero_block P builder work ts) = Inr (None, cs')
    \<and> cumulative_iterations cs' = cumulative_iterations cs + of_int work
    \<and> get_balance (cs_state cs') builder
        = get_balance (cs_state cs) builder + compute_reward (total_minted (cs_state cs))
    \<and> foldr_res replay_block empty_state (cs_chain cs') = Inr (cs_state cs)"
proof -
  let ?b = "zero_block P builder work ts"
  note inv = grown_inv[OF assms(1)]
  from grown_state[OF assms(1)] have s: "state_inv (cs_state cs)" "0 \<le> total_minted (cs_state cs)"
    "total_minted (cs_state cs) \<le> SUPPLY_CAP" by blast+
  have c: "cs_chain cs \<noteq> []" using inv by (simp add: chain_inv_def)
  have par: "parent_ok (last (cs_chain cs)) (block_hash P (last (cs_chain cs)))
      (of_nat (length (cs_chain cs) - 1)) (block_time (last (cs_chain cs)))"
    using inv c by (simp add: chain_inv_def last_conv_nth)
  have "check_timestamp now ?b (cs_chain cs) = Inr None"
    unfolding check_timestamp_None[OF par c]
    using assms(2,3) by (simp add: zero_block_fields cs_tip_def MIN_BLOCK_SPACING_SECONDS_def TIMESTAMP_SKEW_SECONDS_def)
  then have val: "block_validate P now ?b (cs_state cs) (cs_chain cs) = Inr (None, cs_state cs)"
    using assms(5) unfolding block_validate_None
    by (simp add: check_hash_None zero_block_fields check_parent_def check_builder_and_vdf_def
        py_eq_def apply_transactions_def)
  from apply_builder_reward_effect[OF s(1) zero_block_fields(5)[of P builder work ts] order.refl s(2,3), of builder]
  obtain s' where s': "apply_builder_reward (cs_state cs) builder ?b = Inr s'"
      "get_balance s' builder = get_balance (cs_state cs) builder + compute_reward (total_minted (cs_state cs))"
    by auto
  define cs' where "cs' = \<lparr>cs_chain = cs_chain cs @ [?b], cs_state = s',
    cumulative_iterations = cumulative_iterations cs + of_int work\<rparr>"
  have "apply_to_state (cs_state cs) ?b = Inr s'"
    using s'(1) assms(4) by (simp add: apply_to_state_def zero_block_fields)
  then have "validate_and_apply P now cs ?b = Inr (None, cs')"
    using val by (simp add: validate_and_apply_def apply_block_with_state_def zero_block_fields cs'_def)
  moreover have "foldr_res replay_block empty_state (cs_chain cs') = Inr (cs_state cs)"
    using grown_replay[OF assms(1)]
    by (simp add: cs'_def res_simps replay_block_def zero_block_fields py_eq_def)
  ultimately show ?thesis using s'(2) by (intro exI[of _ cs']) (simp add: cs'_def)
qed

section \<open>Fork choice is not transitive\<close>

text \<open>
  Concrete chains: a serializer that keeps only the VDF output makes every block's hash a function of
  that output, so blocks with different outputs have different hashes.
\<close>

definition key_json :: "json \<Rightarrow> string" where
  "key_json j = (case j of JObj d \<Rightarrow> (case jget d ''vdf_output'' of JStr s \<Rightarrow> s | _ \<Rightarrow> ''00'') | _ \<Rightarrow> ''00'')"

definition key_prims :: prims where
  "key_prims = demo_prims\<lparr>dumps := key_json\<rparr>"

definition key_hash :: "string \<Rightarrow> string" where
  "key_hash k = tohex (replicate 17 (CHR 0x00) @ k)"

lemma key_prims_fields [simp]:
  "dumps key_prims = key_json" "sha256_digest key_prims d = replicate 17 (CHR 0x00) @ d"
  "vdf_verify_n key_prims d x b i z r = Some True" "vdf_create_discriminant key_prims c z = Some c"
  by (simp_all add: key_prims_def)

lemma key_address [simp]: "is_valid_address key_prims j = is_valid_address demo_prims j"
proof -
  have w: "words key_prims = words demo_prims" by (simp add: key_prims_def)
  show ?thesis unfolding is_valid_address_def w ..
qed

text \<open>The block at height \<open>n\<close> with output \<open>key\<close>, on top of one with output \<open>parent\<close>.\<close>

definition key_block :: "int \<Rightarrow> string \<Rightarrow> string \<Rightarrow> block" where
  "key_block n parent key = [(''height'', JInt n), (''previous_hash'', JStr (key_hash parent)),
     (''timestamp'', JInt (GENESIS_TIMESTAMP + 100 * n)), (''transactions'', JArr []),
     (''builder'', JStr (demo_addr CHR ''a'')), (''vdf_output'', JStr key), (''vdf_proof'', JStr ''00''),
     (''vdf_iterations'', JInt VDF_ITERATIONS), (''hash'', JStr (key_hash key))]"

lemma key_block_fields:
  "jget (key_block n p key) ''height'' = JInt n" "jget (key_block n p key) ''hash'' = JStr (key_hash key)"
  "jget (key_block n p key) ''timestamp'' = JInt (GENESIS_TIMESTAMP + 100 * n)"
  "jget (key_block n p key) ''previous_hash'' = JStr (key_hash p)"
  "jget (key_block n p key) ''builder'' = JStr (demo_addr CHR ''a'')"
  "jget (key_block n p key) ''vdf_output'' = JStr key" "jget (key_block n p key) ''vdf_proof'' = JStr ''00''"
  "iterations_of (key_block n p key) = JInt VDF_ITERATIONS" "block_fees (key_block n p key) = Inr 0"
  "work_of (key_block n p key) = Inr (of_int VDF_ITERATIONS)"
  "block_hash key_prims (key_block n p key) = key_hash key"
  "block_size key_prims (key_block n p key) = int (length key)"
  "block_time (key_block n p key) = of_int (GENESIS_TIMESTAMP + 100 * n)"
  "apply_transactions P (key_block n p key) s = Inr (None, s)"
  by (simp_all add: key_block_def jget_def get_or_def iterations_of_def block_hash_def key_hash_def
      sha256_hex_def canonical_json_def key_json_def without_def block_fees_def work_of_def block_size_def
      block_time_def apply_transactions_def read_field_def)

text \<open>Such a block is accepted on a short chain whose tip it names.\<close>

lemma key_grow_at:
  assumes g: "grown key_prims cs" and n: "length (cs_chain cs) = n" "n < 100"
    and tip: "block_hash key_prims (cs_tip cs) = key_hash parent" "block_time (cs_tip cs) = of_int (GENESIS_TIMESTAMP + 100 * (int n - 1))"
    and key: "fromhex key \<noteq> None" "length key = 2" and late: "of_int (GENESIS_TIMESTAMP + 100 * int n) \<le> now"
  shows "\<exists>cs'. validate_and_apply key_prims now cs (key_block (int n) parent key) = Inr (None, cs')
    \<and> grown key_prims cs' \<and> cs_chain cs' = cs_chain cs @ [key_block (int n) parent key]
    \<and> cumulative_iterations cs' = cumulative_iterations cs + of_int VDF_ITERATIONS"
proof -
  let ?b = "key_block (int n) parent key" and ?ts = "of_int (GENESIS_TIMESTAMP + 100 * int n) :: rat"
  note inv = grown_inv[OF g]
  from grown_state[OF g] have s: "state_inv (cs_state cs)" "0 \<le> total_minted (cs_state cs)"
    "total_minted (cs_state cs) \<le> SUPPLY_CAP" by blast+
  have c: "cs_chain cs \<noteq> []" using inv by (simp add: chain_inv_def)
  with n(1) have n0: "0 < n" by (cases n) auto
  have par: "parent_ok (last (cs_chain cs)) (key_hash parent) (of_nat (n - 1)) (of_int (GENESIS_TIMESTAMP + 100 * (int n - 1)))"
  proof -
    have "n - 1 < length (cs_chain cs)" using n(1) n0 by simp
    with inv have "parent_ok (cs_chain cs ! (n - 1)) (block_hash key_prims (cs_chain cs ! (n - 1)))
        (of_nat (n - 1)) (block_time (cs_chain cs ! (n - 1)))" unfolding chain_inv_def by blast
    moreover have "cs_chain cs ! (n - 1) = last (cs_chain cs)" using n(1) c by (simp add: last_conv_nth)
    ultimately show ?thesis using tip unfolding cs_tip_def by simp
  qed
  have h: "jnum (JInt (int n)) = Some (of_nat n)" "(of_nat n :: rat) \<noteq> 0" using n0 by simp_all
  have it: "get_vdf_iterations (cs_chain cs) = Inr (JInt VDF_ITERATIONS)"
    using n by (simp add: get_vdf_iterations_def VDF_ADJUST_INTERVAL_def)
  have ph: "fromhex (key_hash parent) = Some (replicate 17 (CHR 0x00) @ parent)"
    unfolding key_hash_def by (rule fromhex_tohex)
  have vv: "vdf_verify key_prims ch key ''00'' (JInt VDF_ITERATIONS)" for ch
    using key(1) demo_hex by (auto simp: vdf_verify_def simp del: fromhex.simps)
  have nat: "(of_nat n :: rat) = of_nat (n - 1) + 1" using n0 by (simp add: of_nat_diff Suc_leI)
  have tm: "(of_int (GENESIS_TIMESTAMP + 100 * (int n - 1)) :: rat) + 90 \<le> ?ts" by simp
  have val: "block_validate key_prims now ?b (cs_state cs) (cs_chain cs) = Inr (None, cs_state cs)"
    unfolding block_validate_None check_hash_None check_parent_None[OF par c key_block_fields(1) h]
      check_timestamp_None[OF par c] check_builder_None[OF par c key_block_fields(1) h]
  proof (intro conjI)
    show "\<exists>ts. jnum (jget ?b ''timestamp'') = Some ts \<and> of_int (GENESIS_TIMESTAMP + 100 * (int n - 1))
        + MIN_BLOCK_SPACING_SECONDS \<le> ts \<and> ts \<le> now + TIMESTAMP_SKEW_SECONDS"
      using tm late by (intro exI[of _ ?ts]) (simp add: key_block_fields MIN_BLOCK_SPACING_SECONDS_def TIMESTAMP_SKEW_SECONDS_def)
    show "of_nat n = (of_nat (n - 1) + 1 :: rat)" by (rule nat)
  qed (use key(2) it ph vv in \<open>simp_all add: key_block_fields BLOCK_SIZE_LIMIT_def py_eq_def\<close>)
  from apply_builder_reward_effect[OF s(1) key_block_fields(9) order.refl s(2,3)]
  obtain s' where s': "apply_builder_reward (cs_state cs) (demo_addr CHR ''a'') ?b = Inr s'" by blast
  have "demo_addr CHR ''a'' \<noteq> []" by (simp add: demo_addr_def numeral_eq_Suc)
  then have ap: "apply_to_state (cs_state cs) ?b = Inr s'" by (simp add: apply_to_state_def key_block_fields s')
  define cs' where "cs' = \<lparr>cs_chain = cs_chain cs @ [?b], cs_state = s',
    cumulative_iterations = cumulative_iterations cs + of_int VDF_ITERATIONS\<rparr>"
  have v: "validate_and_apply key_prims now cs ?b = Inr (None, cs')"
    using val by (simp add: validate_and_apply_def apply_block_with_state_def ap key_block_fields cs'_def)
  have "grown key_prims cs'" by (rule grown_append[OF g v _ h(2)]) (simp add: key_block_fields)
  with v show ?thesis by (intro exI[of _ cs']) (simp add: cs'_def)
qed

lemma key_grow:
  assumes "grown key_prims cs" "length (cs_chain cs) = n" "n < 100"
    "block_hash key_prims (cs_tip cs) = key_hash parent" "block_time (cs_tip cs) = of_int (GENESIS_TIMESTAMP + 100 * (int n - 1))"
    "fromhex key \<noteq> None" "length key = 2"
  shows "\<exists>cs'. validate_and_apply key_prims (of_int (GENESIS_TIMESTAMP + 100 * int n)) cs (key_block (int n) parent key) = Inr (None, cs')
    \<and> grown key_prims cs' \<and> cs_chain cs' = cs_chain cs @ [key_block (int n) parent key]
    \<and> cumulative_iterations cs' = cumulative_iterations cs + of_int VDF_ITERATIONS"
  by (rule key_grow_at[OF assms order.refl])

lemma key_genesis:
  "block_hash key_prims (create_genesis key_prims) = key_hash ''00''"
  "block_time (create_genesis key_prims) = of_int GENESIS_TIMESTAMP"
  by (simp_all add: create_genesis_def Let_def block_hash_def sha256_hex_def canonical_json_def key_json_def
      without_def jget_def get_or_def key_hash_def block_time_def)

definition key_chain :: "string \<Rightarrow> string \<Rightarrow> string \<Rightarrow> blocks" where
  "key_chain k1 k2 k3 = [create_genesis key_prims, key_block 1 ''00'' k1, key_block 2 k1 k2, key_block 3 k2 k3]"

lemma key_chain_grown:
  assumes "\<forall>k\<in>{k1, k2, k3}. fromhex k \<noteq> None \<and> length k = 2"
  shows "\<exists>cs. grown key_prims cs \<and> cs_chain cs = key_chain k1 k2 k3
    \<and> cumulative_iterations cs = of_int (3 * VDF_ITERATIONS)"
proof -
  let ?g = "from_genesis key_prims"
  have "cs_tip ?g = create_genesis key_prims" "length (cs_chain ?g) = 1" by (simp_all add: from_genesis_def cs_tip_def)
  then obtain c1 where c1: "grown key_prims c1" "cs_chain c1 = [create_genesis key_prims, key_block 1 ''00'' k1]"
      "cumulative_iterations c1 = of_int VDF_ITERATIONS"
    using key_grow[OF grown_genesis, of 1 "''00''" k1] assms by (auto simp: key_genesis from_genesis_def)
  then obtain c2 where c2: "grown key_prims c2"
      "cs_chain c2 = [create_genesis key_prims, key_block 1 ''00'' k1, key_block 2 k1 k2]"
      "cumulative_iterations c2 = of_int (2 * VDF_ITERATIONS)"
    using key_grow[OF c1(1), of 2 k1 k2] assms by (auto simp: cs_tip_def key_block_fields)
  then show ?thesis
    using key_grow[OF c2(1), of 3 k2 k3] assms by (auto simp: cs_tip_def key_block_fields key_chain_def)
qed

lemma better_by_chain:
  assumes "cumulative_iterations a = cumulative_iterations b"
  shows "is_better_than P a b = is_better_than P \<lparr>cs_chain = cs_chain a, cs_state = empty_state, cumulative_iterations = 0\<rparr>
     \<lparr>cs_chain = cs_chain b, cs_state = empty_state, cumulative_iterations = 0\<rparr>"
  by (simp only: is_better_than_def wins_tie_break_def cs_tip_def chain_state.select_convs assms if_False simp_thms)

lemma key_hex:
  assumes "{k1, k2, k3} \<subseteq> set [''11'', ''12'', ''13'', ''21'', ''22'', ''23'', ''31'', ''32'', ''33'']"
  shows "\<forall>k\<in>{k1, k2, k3}. fromhex k \<noteq> None \<and> length k = 2"
proof -
  have "list_all (\<lambda>k. fromhex k \<noteq> None \<and> length k = 2)
      [''11'', ''12'', ''13'', ''21'', ''22'', ''23'', ''31'', ''32'', ''33'']" by code_simp
  then show ?thesis using assms unfolding list_all_iff by blast
qed

lemma demo_grown:
  obtains cs where "grown key_prims cs" "cs_chain cs = key_chain ''11'' ''22'' ''33''"
    "cumulative_iterations cs = of_int (3 * VDF_ITERATIONS)"
  using key_chain_grown[OF key_hex, of "''11''" "''22''" "''33''"] by auto

definition bare :: "blocks \<Rightarrow> chain_state" where
  "bare c = \<lparr>cs_chain = c, cs_state = empty_state, cumulative_iterations = 0\<rparr>"

lemma key_hash_inj: "key_hash k = key_hash k' \<longleftrightarrow> k = k'"
proof
  assume "key_hash k = key_hash k'"
  then have "fromhex (key_hash k) = fromhex (key_hash k')" by (rule arg_cong)
  then show "k = k'" unfolding key_hash_def fromhex_tohex by simp
qed simp

lemma key_of_block: "k \<noteq> [] \<Longrightarrow> key_of (key_block n p k) = Inr k"
  by (simp add: key_of_def tie_break_key_def key_block_fields)

lemma fork_key_chains:
  assumes "k1 \<noteq> l1" "k2 \<noteq> l2"
  shows "fork_point (key_chain k1 k2 k3) (key_chain l1 l2 l3) = 1"
proof -
  have h: "hash_of (key_block n p k) = JStr (key_hash k)" for n p k by (simp add: hash_of_def key_block_fields)
  have "length (key_chain k1 k2 k3) = 4" "length (key_chain l1 l2 l3) = 4" by (simp_all add: key_chain_def)
  moreover have "fork_search (key_chain k1 k2 k3) (key_chain l1 l2 l3) 0 4 = 1"
    using assms by (simp add: fork_search.simps key_chain_def h key_hash_inj Let_def)
  ultimately show ?thesis by (simp add: fork_point_def)
qed

lemma key_cycle:
  "is_better_than key_prims (bare (key_chain ''11'' ''22'' ''33'')) (bare (key_chain ''12'' ''23'' ''31'')) = Inr True"
  "is_better_than key_prims (bare (key_chain ''12'' ''23'' ''31'')) (bare (key_chain ''13'' ''21'' ''32'')) = Inr True"
  "is_better_than key_prims (bare (key_chain ''13'' ''21'' ''32'')) (bare (key_chain ''11'' ''22'' ''33'')) = Inr True"
proof -
  have r: "[Suc 0..<4] = [Suc 0, 2, 3]" by (simp add: upt_rec)
  have n: "key_chain k1 k2 k3 ! Suc 0 = key_block 1 ''00'' k1" "key_chain k1 k2 k3 ! 2 = key_block 2 k1 k2"
    "key_chain k1 k2 k3 ! 3 = key_block 3 k2 k3" "length (key_chain k1 k2 k3) = 4"
    "last (key_chain k1 k2 k3) = key_block 3 k2 k3" for k1 k2 k3
    by (simp_all add: key_chain_def numeral_2_eq_2 numeral_3_eq_3)
  have h: "hash_of (key_block n p k) = JStr (key_hash k)" for n p k by (simp add: hash_of_def key_block_fields)
  note defs = is_better_than_def wins_tie_break_def bare_def cs_tip_def fork_key_chains n h r key_hash_inj
    key_of_block Let_def
  show "is_better_than key_prims (bare (key_chain ''11'' ''22'' ''33'')) (bare (key_chain ''12'' ''23'' ''31'')) = Inr True"
    by (simp add: defs)
  show "is_better_than key_prims (bare (key_chain ''12'' ''23'' ''31'')) (bare (key_chain ''13'' ''21'' ''32'')) = Inr True"
    by (simp add: defs)
  show "is_better_than key_prims (bare (key_chain ''13'' ''21'' ''32'')) (bare (key_chain ''11'' ''22'' ''33'')) = Inr True"
    by (simp add: defs)
qed

text \<open>Fork choice is not transitive: there are three chains, each grown from genesis by validated
  blocks, of the same height and cumulative work, where the first is better than the second, the
  second better than the third, and the third better than the first. The majority of per-height draws is a
  rock-paper-scissors, so nodes that compare them in a different order end up on different tips.\<close>

theorem fork_choice_cycle:
  "\<exists>P a b c. grown P a \<and> grown P b \<and> grown P c
     \<and> cumulative_iterations a = cumulative_iterations b \<and> cumulative_iterations b = cumulative_iterations c
     \<and> is_better_than P a b = Inr True \<and> is_better_than P b c = Inr True \<and> is_better_than P c a = Inr True"
proof -
  obtain a where a: "grown key_prims a" "cs_chain a = key_chain ''11'' ''22'' ''33''"
      "cumulative_iterations a = of_int (3 * VDF_ITERATIONS)"
    using key_chain_grown[OF key_hex, of "''11''" "''22''" "''33''"] by auto
  obtain b where b: "grown key_prims b" "cs_chain b = key_chain ''12'' ''23'' ''31''"
      "cumulative_iterations b = of_int (3 * VDF_ITERATIONS)"
    using key_chain_grown[OF key_hex, of "''12''" "''23''" "''31''"] by auto
  obtain c where c: "grown key_prims c" "cs_chain c = key_chain ''13'' ''21'' ''32''"
      "cumulative_iterations c = of_int (3 * VDF_ITERATIONS)"
    using key_chain_grown[OF key_hex, of "''13''" "''21''" "''32''"] by auto
  have w: "cumulative_iterations a = cumulative_iterations b" "cumulative_iterations b = cumulative_iterations c"
    "cumulative_iterations c = cumulative_iterations a"
    unfolding a(3) b(3) c(3) by (rule refl)+
  have "is_better_than key_prims a b = Inr True"
    by (rule better_by_chain[OF w(1), where P = key_prims, folded bare_def, unfolded a(2) b(2) key_cycle])
  moreover have "is_better_than key_prims b c = Inr True"
    by (rule better_by_chain[OF w(2), where P = key_prims, folded bare_def, unfolded b(2) c(2) key_cycle])
  moreover have "is_better_than key_prims c a = Inr True"
    by (rule better_by_chain[OF w(3), where P = key_prims, folded bare_def, unfolded c(2) a(2) key_cycle])
  ultimately show ?thesis using a(1) b(1) c(1) w by blast
qed

section \<open>Examples\<close>

theorem fork_point_common_prefix_witness:
  "fork_point (key_chain ''11'' ''22'' ''33'') (key_chain ''12'' ''23'' ''31'') = 1
   \<and> linked key_prims (key_chain ''11'' ''22'' ''33'') \<and> linked key_prims (key_chain ''12'' ''23'' ''31'')
   \<and> hash_of (key_chain ''11'' ''22'' ''33'' ! 0) = hash_of (key_chain ''12'' ''23'' ''31'' ! 0)"
proof -
  obtain a where a: "grown key_prims a" "cs_chain a = key_chain ''11'' ''22'' ''33''" by (rule demo_grown)
  obtain b where b: "grown key_prims b" "cs_chain b = key_chain ''12'' ''23'' ''31''"
    using key_chain_grown[OF key_hex, of "''12''" "''23''" "''31''"] by auto
  have l: "linked key_prims (key_chain ''11'' ''22'' ''33'')" "linked key_prims (key_chain ''12'' ''23'' ''31'')"
    using chain_inv_linked[OF grown_inv[OF a(1)]] chain_inv_linked[OF grown_inv[OF b(1)]] a(2) b(2) by simp_all
  have nc: "no_collision key_prims (key_chain ''11'' ''22'' ''33'') (key_chain ''12'' ''23'' ''31'')"
    by (simp add: no_collision_def key_chain_def key_block_fields key_genesis key_hash_inj)
  have f: "fork_point (key_chain ''11'' ''22'' ''33'') (key_chain ''12'' ''23'' ''31'') = 1"
    by (rule fork_key_chains) simp_all
  have len: "length (key_chain k1 k2 k3) = 4" for k1 k2 k3 by (simp add: key_chain_def)
  from fork_point_common_prefix[OF l nc] f l len show ?thesis by simp
qed

theorem grown_chain_shape_witness:
  "\<exists>cs. grown key_prims cs \<and> read_num ''height'' (cs_chain cs ! 1) = Inr 1
     \<and> block_time (cs_chain cs ! 1) + 180 \<le> block_time (cs_chain cs ! 3)"
proof -
  obtain cs where cs: "grown key_prims cs" "cs_chain cs = key_chain ''11'' ''22'' ''33''" by (rule demo_grown)
  have "3 < length (cs_chain cs)" unfolding cs(2) by (simp add: key_chain_def)
  from grown_chain_shape[OF cs(1) _ this, of 1] cs(1) show ?thesis by (intro exI[of _ cs]) simp
qed

theorem iterations_ratchet_witness:
  "\<exists>cs. grown key_prims cs \<and> VDF_ITERATIONS \<le> iters (cs_chain cs ! 1)
     \<and> iters (cs_chain cs ! 1) \<le> iters (cs_chain cs ! 3)"
proof -
  obtain cs where cs: "grown key_prims cs" "cs_chain cs = key_chain ''11'' ''22'' ''33''" by (rule demo_grown)
  have "3 < length (cs_chain cs)" unfolding cs(2) by (simp add: key_chain_def)
  from iterations_ratchet[OF cs(1) _ this, of 1] cs(1) show ?thesis by (intro exI[of _ cs]) simp
qed


theorem replay_rebuilds_witness:
  "\<exists>cs. from_chain (key_chain ''11'' ''22'' ''33'') = Inr cs
     \<and> cumulative_iterations cs = of_int (3 * VDF_ITERATIONS)"
proof -
  obtain cs where cs: "grown key_prims cs" "cs_chain cs = key_chain ''11'' ''22'' ''33''"
    "cumulative_iterations cs = of_int (3 * VDF_ITERATIONS)" by (rule demo_grown)
  from replay_rebuilds[OF cs(1)] cs(2,3) show ?thesis by (intro exI[of _ cs]) simp
qed

theorem validate_and_apply_is_apply_block_witness:
  "\<exists>cs'. apply_block (from_genesis key_prims) (key_block 1 ''00'' ''11'') = Inr cs' \<and> grown key_prims cs'"
proof -
  have t: "cs_tip (from_genesis key_prims) = create_genesis key_prims" "length (cs_chain (from_genesis key_prims)) = 1"
    by (simp_all add: from_genesis_def cs_tip_def)
  obtain cs' now where v: "validate_and_apply key_prims now (from_genesis key_prims) (key_block 1 ''00'' ''11'')
      = Inr (None, cs')" "grown key_prims cs'"
    using key_grow[OF grown_genesis, of 1 "''00''" "''11''"] key_hex[of "''11''" "''11''" "''11''"] t
    by (auto simp: key_genesis)
  have "state_inv (cs_state (from_genesis key_prims))"
    by (simp add: from_genesis_def empty_state_def state_inv_def)
  from validate_and_apply_is_apply_block[OF this v(1)] v(2) show ?thesis by auto
qed

theorem height_zero_block_forges_work_witness:
  "\<exists>cs now cs'. grown key_prims cs
     \<and> validate_and_apply key_prims now cs (zero_block key_prims ''x'' (10 ^ 30) now) = Inr (None, cs')
     \<and> cumulative_iterations cs' = cumulative_iterations cs + 10 ^ 30
     \<and> \<not> is_valid_address key_prims (JStr ''x'')"
proof -
  obtain cs where cs: "grown key_prims cs" by (rule demo_grown)
  let ?now = "block_time (cs_tip cs) + 100"
  have "block_size key_prims (zero_block key_prims ''x'' (10 ^ 30) ?now) = 2"
    by (simp add: block_size_def canonical_json_def key_json_def zero_block_def Let_def jget_def get_or_def)
  then have sz: "block_size key_prims (zero_block key_prims ''x'' (10 ^ 30) ?now) \<le> BLOCK_SIZE_LIMIT"
    by (simp add: BLOCK_SIZE_LIMIT_def)
  have na: "\<not> is_valid_address key_prims (JStr ''x'')"
    by (simp add: is_valid_address_def key_prims_def ADDRESS_WORD_COUNT_def)
  from height_zero_block_forges_work[OF cs _ _ _ sz, of ?now] obtain cs' where
    "validate_and_apply key_prims ?now cs (zero_block key_prims ''x'' (10 ^ 30) ?now) = Inr (None, cs')"
    "cumulative_iterations cs' = cumulative_iterations cs + of_int (10 ^ 30)" by auto
  with cs na show ?thesis by (intro exI[of _ cs] exI[of _ ?now] exI[of _ cs']) simp
qed

end
