(* ===== verification/Storage.thy ===== *)
theory Storage
  imports Chainstate
begin

text \<open>
  \<^verbatim>\<open>src/src/storage.py\<close>: the tables SQLite keeps and the operations that write and read them. A
  table with a primary key is a dict from the key to the other columns; the order of its rows means
  nothing, a query that needs one sorts. \<^verbatim>\<open>db.atomic()\<close> is a call that either returns the new tables
  or raises and leaves the old ones. zlib and the plain \<^verbatim>\<open>json.dumps\<close>/\<^verbatim>\<open>json.loads\<close> are
  a parameter. \<^verbatim>\<open>load_cs\<close> is the node's \<^verbatim>\<open>_load_cs\<close>.
\<close>

record store_lib =
  zlib_compress :: "string \<Rightarrow> string"
  zlib_decompress :: "string \<Rightarrow> string"
  json_dumps :: "json \<Rightarrow> string"
  json_loads :: "string \<Rightarrow> json"

definition SCHEMA_VERSION :: int where "SCHEMA_VERSION = 3"

record block_row =
  r_hash :: json
  r_data :: string
  r_dataz :: "string option"

record addr_row =
  a_height :: int
  a_memo :: "string option"

record storage =
  block_table :: "(int, block_row) dict"
  state_table :: "(string, int \<times> int) dict"
  emission_table :: "(string, int) dict"
  meta_table :: "(string, string) dict"
  tx_table :: "(string, int) dict"
  addr_table :: "(string \<times> string, addr_row) dict"

definition empty_storage :: storage where
  "empty_storage = \<lparr>block_table = [], state_table = [], emission_table = [], meta_table = [], tx_table = [],
     addr_table = []\<rparr>"

definition pack_block :: "store_lib \<Rightarrow> block \<Rightarrow> string" where
  "pack_block K blk = zlib_compress K (utf8_encode (json_dumps K (JObj blk)))"

definition unpack_block :: "store_lib \<Rightarrow> block_row \<Rightarrow> block res" where
  "unpack_block K row = (case r_dataz row of
     None \<Rightarrow> Inl TypeError
   | Some z \<Rightarrow> (case json_loads K (zlib_decompress K z) of JObj b \<Rightarrow> Inr b | _ \<Rightarrow> Inl TypeError))"

section \<open>Blocks and their index\<close>

text \<open>
  What an \<^verbatim>\<open>IntegerField\<close> stores of a number. A height that is a string is not modelled: a validated
  block's height is a number.
\<close>

fun db_int :: "json \<Rightarrow> int res" where
  "db_int (JInt n) = Inr n"
| "db_int (JBool b) = Inr (if b then 1 else 0)"
| "db_int (JFloat r) = Inr (if r < 0 then \<lceil>r\<rceil> else \<lfloor>r\<rfloor>)"
| "db_int _ = Inl TypeError"

definition insert_ignore :: "'k \<Rightarrow> 'v \<Rightarrow> ('k, 'v) dict \<Rightarrow> ('k, 'v) dict" where
  "insert_ignore k v d = (if has_key d k then d else AList.update k v d)"

fun out_to :: "json \<Rightarrow> string res" where
  "out_to (JObj d) = read_str ''to'' d"
| "out_to _ = Inl TypeError"

definition memo_of :: "tx \<Rightarrow> string option" where
  "memo_of t = (case jget t ''memo'' of JStr s \<Rightarrow> (if s = [] then None else Some s) | _ \<Rightarrow> None)"

text \<open>The rows of one transaction: its hash, its memo, and every address it touches.\<close>

definition index_rows :: "prims \<Rightarrow> json \<Rightarrow> (string \<times> string option \<times> string list) res" where
  "index_rows P j = (case j of
     JObj t \<Rightarrow> rbind (read_str ''from'' t) (\<lambda>from.
               rbind (iter_json (get_or t ''outputs'' (JArr []))) (\<lambda>outs.
               rbind (map_res out_to outs) (\<lambda>tos. Inr (tx_hash P t, memo_of t, remdups (from # tos)))))
   | _ \<Rightarrow> Inl AttributeError)"

definition index_block :: "prims \<Rightarrow> block \<Rightarrow> storage \<Rightarrow> storage res" where
  "index_block P blk st =
     rbind (read_field ''height'' blk) (\<lambda>h. rbind (db_int h) (\<lambda>height.
     rbind (iter_json (get_or blk ''transactions'' (JArr []))) (\<lambda>txs.
     rbind (map_res (index_rows P) txs) (\<lambda>rows.
       Inr (st\<lparr>tx_table := fold (\<lambda>(h, _, _). insert_ignore h height) rows (tx_table st),
               addr_table := fold (\<lambda>(h, memo, addrs). fold (\<lambda>a.
                   insert_ignore (a, h) \<lparr>a_height = height, a_memo = memo\<rparr>) addrs) rows (addr_table st)\<rparr>)))))"

definition put_block :: "store_lib \<Rightarrow> block \<Rightarrow> storage \<Rightarrow> storage res" where
  "put_block K blk st =
     rbind (read_field ''height'' blk) (\<lambda>h. rbind (db_int h) (\<lambda>height. rbind (read_field ''hash'' blk) (\<lambda>hash.
       Inr (st\<lparr>block_table := AList.update height
              \<lparr>r_hash = hash, r_data = [], r_dataz = Some (pack_block K blk)\<rparr> (block_table st)\<rparr>))))"

definition save_block :: "prims \<Rightarrow> store_lib \<Rightarrow> storage \<Rightarrow> block \<Rightarrow> storage res" where
  "save_block P K st blk = rbind (put_block K blk st) (index_block P blk)"

definition get_tx_height :: "storage \<Rightarrow> string \<Rightarrow> int option" where
  "get_tx_height st h = map_of (tx_table st) h"

definition get_tx_heights_for_addr :: "storage \<Rightarrow> string \<Rightarrow> (int \<times> string) list" where
  "get_tx_heights_for_addr st addr = sort_key (\<lambda>(h, _). - h)
     (map (\<lambda>((_, h), r). (a_height r, h)) (filter (\<lambda>((a, _), _). a = addr) (addr_table st)))"

definition get_tx_by_addr_and_memo :: "storage \<Rightarrow> string \<Rightarrow> string \<Rightarrow> (int \<times> string) list" where
  "get_tx_by_addr_and_memo st addr memo = sort_key (\<lambda>(h, _). - h)
     (map (\<lambda>((_, h), r). (a_height r, h)) (filter (\<lambda>((a, _), r). a = addr \<and> a_memo r = Some memo) (addr_table st)))"

definition load_block :: "store_lib \<Rightarrow> storage \<Rightarrow> int \<Rightarrow> block option res" where
  "load_block K st height = (case map_of (block_table st) height of
     None \<Rightarrow> Inr None | Some row \<Rightarrow> rbind (unpack_block K row) (\<lambda>b. Inr (Some b)))"

definition load_all_blocks :: "store_lib \<Rightarrow> storage \<Rightarrow> blocks res" where
  "load_all_blocks K st = map_res (\<lambda>(_, row). unpack_block K row) (sort_key fst (block_table st))"

definition chain_height :: "storage \<Rightarrow> int" where
  "chain_height st = foldr max (keys (block_table st)) (- 1)"

section \<open>State rows\<close>

definition emit :: "state \<Rightarrow> storage \<Rightarrow> storage" where
  "emit s st = st\<lparr>emission_table := AList.update ''total_board_posts'' (total_board_posts s)
     (AList.update ''total_minted'' (total_minted s) (emission_table st))\<rparr>"

definition state_row :: "state \<Rightarrow> string \<Rightarrow> int \<times> int" where
  "state_row s addr = (get_or (all_balances s) addr 0, get_or (all_nonces s) addr 0)"

definition rewrite_state :: "storage \<Rightarrow> state \<Rightarrow> storage \<times> state" where
  "rewrite_state st s =
     (emit s (st\<lparr>state_table := map (\<lambda>a. (a, state_row s a)) (remdups (keys (all_balances s) @ keys (all_nonces s)))\<rparr>),
      mark_persisted s)"

definition save_state_delta :: "storage \<Rightarrow> state \<Rightarrow> storage \<times> state" where
  "save_state_delta st s =
     (let touched = dirty_addresses s in
      if touched = {} then (emit s st, s)
      else (let held = (\<lambda>a. has_key (all_balances s) a \<or> has_key (all_nonces s) a);
                rows = filter held (sorted_list_of_set touched);
                gone = filter (\<lambda>a. \<not> held a) (sorted_list_of_set touched)
            in (emit s (st\<lparr>state_table := fold (\<lambda>a. AList.update a (state_row s a)) rows
                             (fold AList.delete gone (state_table st))\<rparr>),
                mark_persisted s)))"

definition save_state :: "storage \<Rightarrow> state \<Rightarrow> storage \<times> state" where
  "save_state st s = rewrite_state st s"

definition load_state :: "storage \<Rightarrow> (string, int) dict \<times> (string, int) dict \<times> int \<times> int" where
  "load_state st = (map (\<lambda>(a, b, _). (a, b)) (state_table st), map (\<lambda>(a, _, n). (a, n)) (state_table st),
     get_or (emission_table st) ''total_minted'' 0, get_or (emission_table st) ''total_board_posts'' 0)"

definition state_exists :: "storage \<Rightarrow> bool" where
  "state_exists st = (state_table st \<noteq> [])"

section \<open>Whole commits\<close>

definition save_block_and_state :: "prims \<Rightarrow> store_lib \<Rightarrow> storage \<Rightarrow> block \<Rightarrow> state \<Rightarrow> (storage \<times> state) res" where
  "save_block_and_state P K st blk s =
     rbind (put_block K blk st) (\<lambda>st1. rbind (index_block P blk st1) (\<lambda>st2. Inr (save_state_delta st2 s)))"

definition drop_from :: "int \<Rightarrow> storage \<Rightarrow> storage" where
  "drop_from fork st =
     st\<lparr>block_table := filter (\<lambda>(h, _). h < fork) (block_table st),
        tx_table := filter (\<lambda>(_, h). h < fork) (tx_table st),
        addr_table := filter (\<lambda>(_, r). a_height r < fork) (addr_table st)\<rparr>"

definition replace_chain_and_state ::
    "prims \<Rightarrow> store_lib \<Rightarrow> storage \<Rightarrow> nat \<Rightarrow> blocks \<Rightarrow> state \<Rightarrow> (storage \<times> state) res" where
  "replace_chain_and_state P K st fork blks s =
     rbind (foldr_res (\<lambda>st b. put_block K b st) (drop_from (int fork) st) blks) (\<lambda>st1.
     rbind (foldr_res (\<lambda>st b. index_block P b st) st1 blks) (\<lambda>st2. Inr (rewrite_state st2 s)))"

definition get_meta :: "storage \<Rightarrow> string \<Rightarrow> string option" where
  "get_meta st key = map_of (meta_table st) key"

definition set_meta :: "string \<Rightarrow> string \<Rightarrow> storage \<Rightarrow> storage" where
  "set_meta key value st = st\<lparr>meta_table := AList.update key value (meta_table st)\<rparr>"

section \<open>Migration\<close>

text \<open>
  \<open>version\<close> is \<^verbatim>\<open>int(self.get_meta("schema_version", 0) or 0)\<close>. Adding a column that is missing is
  the row type here: a row without \<^verbatim>\<open>dataz\<close> or memo holds \<^const>\<open>None\<close>.
\<close>

definition migrate_blocks_to_compressed :: "store_lib \<Rightarrow> storage \<Rightarrow> storage" where
  "migrate_blocks_to_compressed K st =
     st\<lparr>block_table := map (\<lambda>(h, row).
        if r_dataz row = None \<and> r_data row \<noteq> []
        then (h, row\<lparr>r_dataz := Some (zlib_compress K (utf8_encode (r_data row))), r_data := []\<rparr>)
        else (h, row)) (block_table st)\<rparr>"

definition set_memo :: "string \<Rightarrow> string \<Rightarrow> storage \<Rightarrow> storage" where
  "set_memo h memo st = st\<lparr>addr_table := map (\<lambda>((a, h'), r).
     if h' = h then ((a, h'), r\<lparr>a_memo := Some memo\<rparr>) else ((a, h'), r)) (addr_table st)\<rparr>"

definition migrate_addrindex_memo :: "prims \<Rightarrow> store_lib \<Rightarrow> storage \<Rightarrow> storage res" where
  "migrate_addrindex_memo P K st =
     rbind (load_all_blocks K st) (\<lambda>blks. foldr_res (\<lambda>st blk.
       rbind (iter_json (get_or blk ''transactions'' (JArr []))) (\<lambda>txs.
         foldr_res (\<lambda>st j. case j of
             JObj t \<Rightarrow> Inr (case memo_of t of None \<Rightarrow> st | Some memo \<Rightarrow> set_memo (tx_hash P t) memo st)
           | _ \<Rightarrow> Inl AttributeError) st txs)) st blks)"

definition migrate :: "prims \<Rightarrow> store_lib \<Rightarrow> int \<Rightarrow> storage \<Rightarrow> storage res" where
  "migrate P K version st =
     (if version \<ge> SCHEMA_VERSION then Inr st
      else (let st1 = (if version < 2 then migrate_blocks_to_compressed K st else st) in
            rbind (if version < 3 then migrate_addrindex_memo P K st1 else Inr st1) (\<lambda>st2.
              Inr (set_meta ''schema_version'' ''3'' st2))))"

section \<open>Start-up\<close>

definition backfill_tx_bytes :: "prims \<Rightarrow> block \<Rightarrow> block res" where
  "backfill_tx_bytes P blk =
     (if has_key blk ''tx_bytes'' then Inr blk
      else rbind (iter_json (get_or blk ''transactions'' (JArr []))) (\<lambda>txs.
           rbind (map_res (\<lambda>j. case j of JObj t \<Rightarrow> Inr (tx_size P t) | _ \<Rightarrow> Inl TypeError) txs) (\<lambda>ns.
             Inr (AList.update ''tx_bytes'' (JInt (sum_list ns)) blk))))"

definition load_cs :: "prims \<Rightarrow> store_lib \<Rightarrow> storage \<Rightarrow> (chain_state \<times> storage) res" where
  "load_cs P K st =
     rbind (load_all_blocks K st) (\<lambda>blks.
       if blks = [] then
         (let cs = from_genesis P in rbind (save_block P K st (cs_chain cs ! 0)) (\<lambda>st'. Inr (cs, st')))
       else rbind (map_res (backfill_tx_bytes P) blks) (\<lambda>blks.
         (if state_exists st
          then (let (bals, nons, minted, posts) = load_state st
                in rbind (from_storage blks (from_snapshot bals nons minted posts)) (\<lambda>cs. Inr (cs, st)))
          else rbind (from_chain blks) (\<lambda>cs. Inr (cs, st)))))"

section \<open>What is on disk\<close>

text \<open>
  The chain state \<open>cs\<close> is on disk: the blocks, one row per height, at the heights they claim; for every
  address the balance and nonce; the two counters; nothing waiting to be written.
\<close>

definition disk_row :: "storage \<Rightarrow> string \<Rightarrow> int \<times> int" where
  "disk_row st a = get_or (state_table st) a (0, 0)"

definition readable :: "store_lib \<Rightarrow> block \<Rightarrow> bool" where
  "readable K b \<longleftrightarrow> unpack_block K \<lparr>r_hash = JNull, r_data = [], r_dataz = Some (pack_block K b)\<rparr> = Inr b"

definition row_of :: "store_lib \<Rightarrow> block \<Rightarrow> block_row" where
  "row_of K b = \<lparr>r_hash = hash_of b, r_data = [], r_dataz = Some (pack_block K b)\<rparr>"

definition blocks_on_disk :: "store_lib \<Rightarrow> storage \<Rightarrow> blocks \<Rightarrow> bool" where
  "blocks_on_disk K st c \<longleftrightarrow> wf_dict (block_table st)
     \<and> (\<forall>h. map_of (block_table st) h = (if 0 \<le> h \<and> h < int (length c) then Some (row_of K (c ! nat h)) else None))"

definition state_on_disk :: "storage \<Rightarrow> state \<Rightarrow> bool" where
  "state_on_disk st s \<longleftrightarrow> wf_dict (state_table st) \<and> dirty s = {}
     \<and> (\<forall>a. disk_row st a = (get_balance s a, get_nonce s a))
     \<and> get_or (emission_table st) ''total_minted'' 0 = total_minted s
     \<and> get_or (emission_table st) ''total_board_posts'' 0 = total_board_posts s"

text \<open>Loading sorts the rows by height.\<close>

lemma sorted_rows:
  assumes "wf_dict d" "\<And>h. map_of d h = (if 0 \<le> h \<and> h < int n then Some (f (nat h)) else None)"
  shows "sort_key fst d = map (\<lambda>i. (int i, f i)) [0..<n]"
proof -
  let ?e = "map (\<lambda>i. (int i, f i)) [0..<n]"
  have m: "map_of ?e h = (if 0 \<le> h \<and> h < int n then Some (f (nat h)) else None)" for h
  proof (cases "0 \<le> h \<and> h < int n")
    case True
    then have "(h, f (nat h)) \<in> set ?e" by (auto simp: image_iff intro!: bexI[of _ "nat h"])
    moreover have "distinct (map fst ?e)" by (simp add: comp_def distinct_map inj_on_def)
    ultimately show ?thesis using True by (simp add: map_of_eq_Some_iff)
  next
    case False
    then have "map_of ?e h = None" unfolding map_of_eq_None_iff by auto
    with False show ?thesis by (simp only: if_False)
  qed
  have "map_of d = map_of ?e" using assms(2) m by auto
  moreover have w: "distinct (map fst ?e)" by (simp add: comp_def distinct_map inj_on_def)
  ultimately have e: "set d = set ?e" using assms(1) by (simp add: map_of_inject_set)
  have "distinct d" "distinct ?e" using assms(1) w by (simp_all only: distinct_map)
  with e have ms: "mset d = mset ?e" using set_eq_iff_mset_eq_distinct by blast
  have "inj_on fst (set d)" using assms(1) by (simp add: distinct_map)
  moreover have "sorted (map fst ?e)" by (simp add: comp_def sorted_iff_nth_mono)
  ultimately show ?thesis using ms by (intro sort_key_inj_key_eq)
qed

lemma map_res_all: "(\<And>x. x \<in> set xs \<Longrightarrow> f x = Inr (g x)) \<Longrightarrow> map_res f xs = Inr (map g xs)"
  by (induction xs) auto

lemma load_blocks_on_disk:
  assumes "blocks_on_disk K st c" "\<forall>b\<in>set c. readable K b"
  shows "load_all_blocks K st = Inr c"
proof -
  have "sort_key fst (block_table st) = map (\<lambda>i. (int i, row_of K (c ! i))) [0..<length c]"
    using assms(1) unfolding blocks_on_disk_def by (intro sorted_rows) auto
  moreover have "map_res (\<lambda>(_, row). unpack_block K row) (map (\<lambda>i. (int i, row_of K (c ! i))) [0..<length c])
      = Inr (map (\<lambda>p. c ! nat (fst p)) (map (\<lambda>i. (int i, row_of K (c ! i))) [0..<length c]))"
  proof (rule map_res_all)
    fix p assume "p \<in> set (map (\<lambda>i. (int i, row_of K (c ! i))) [0..<length c])"
    then obtain i where i: "p = (int i, row_of K (c ! i))" "i < length c" by auto
    with assms(2) have "readable K (c ! i)" by simp
    with i show "(case p of (_, row) \<Rightarrow> unpack_block K row) = Inr (c ! nat (fst p))"
      by (simp add: readable_def row_of_def unpack_block_def)
  qed
  moreover have "map (\<lambda>p. c ! nat (fst p)) (map (\<lambda>i. (int i, row_of K (c ! i))) [0..<length c]) = c"
    by (simp add: comp_def map_nth)
  ultimately show ?thesis by (simp add: load_all_blocks_def)
qed

lemma load_block_on_disk:
  assumes "blocks_on_disk K st c" "\<forall>b\<in>set c. readable K b" "i < length c"
  shows "load_block K st (int i) = Inr (Some (c ! i))"
  using assms by (simp add: load_block_def blocks_on_disk_def readable_def row_of_def unpack_block_def)

section \<open>What an appended block leaves to write\<close>

definition unwritten :: "state \<Rightarrow> state \<Rightarrow> bool" where
  "unwritten base s \<longleftrightarrow> tracks base s \<and> finite (dirty s)"

lemma unwritten_credit: "unwritten base s \<Longrightarrow> credit s a n = Inr s' \<Longrightarrow> unwritten base s'"
  using tracks_credit[of base s a n s'] by (auto simp: unwritten_def credit_def split: if_splits)

lemma unwritten_debit: "unwritten base s \<Longrightarrow> debit s a n = Inr s' \<Longrightarrow> unwritten base s'"
  using tracks_debit[of base s a n s'] by (auto simp: unwritten_def debit_def Let_def split: if_splits)

lemma unwritten_frame [simp]:
  "unwritten base (s\<lparr>total_minted := n\<rparr>) = unwritten base s"
  "unwritten base (s\<lparr>total_board_posts := n\<rparr>) = unwritten base s"
  by (simp_all add: unwritten_def)

lemma unwritten_pay:
  assumes "unwritten base s" "pay debit credit set_nonce s v = Inr s'"
  shows "unwritten base s'"
proof -
  from assms(2) obtain s1 s2 where p: "debit s (t_from v) (outs_total (t_outs v) + t_fee v) = Inr s1"
      "credit_all credit s1 (t_outs v) = Inr s2" "s' = set_nonce s2 (t_from v) (t_nonce v)"
    by (auto simp: pay_def rbind_Inr_conv)
  have "unwritten base s1" by (rule unwritten_debit[OF assms(1) p(1)])
  with p(2) have "unwritten base s2" unfolding credit_all_def
    by (rule foldr_res_invariant[where I = "unwritten base"]) (auto intro: unwritten_credit)
  then show ?thesis unfolding p(3) using tracks_set_nonce by (auto simp: unwritten_def set_nonce_def)
qed

lemma unwritten_apply_tx:
  assumes "unwritten base s" "apply_tx s t = Inr s'"
  shows "unwritten base s'"
proof -
  from assms(2) obtain v s3 where "pay debit credit set_nonce s v = Inr s3"
      "s' = (if is_board_post t then s3\<lparr>total_board_posts := total_board_posts s3 + 1\<rparr> else s3)"
    by (auto simp: apply_tx_def rbind_Inr_conv)
  with unwritten_pay[OF assms(1)] show ?thesis by simp
qed

lemma unwritten_tx_list:
  "apply_tx_list P f ts s = Inr (None, s') \<Longrightarrow> unwritten base s \<Longrightarrow> unwritten base s'"
proof (induction P f ts s rule: apply_tx_list.induct)
  case (2 P f t ts s)
  from 2(2) obtain s1 where "apply_tx s t = Inr s1" "apply_tx_list P f ts s1 = Inr (None, s')"
    "tx_validate P (\<lambda>_. None) (get_balance s) (get_nonce s) (total_board_posts s) (Some f) t = Inr None"
    by (auto simp: rbind_Inr_conv split: option.splits)
  with 2(1,3) unwritten_apply_tx show ?case by fastforce
qed auto

lemma unwritten_reward:
  assumes "unwritten base s" "apply_builder_reward s a blk = Inr s'"
  shows "unwritten base s'"
proof -
  from assms(2) obtain n s1 where s1: "(if n > 0 then credit s a n else Inr s) = Inr s1"
      "(if compute_block_reward s1 \<ge> 1 then apply_reward_distribution s1 [(a, compute_block_reward s1)] else Inr s1) = Inr s'"
    by (auto simp: apply_builder_reward_def rbind_Inr_conv Let_def)
  from s1(1) assms(1) have u: "unwritten base s1" by (auto split: if_splits intro: unwritten_credit)
  show ?thesis
  proof (cases "compute_block_reward s1 \<ge> 1")
    case True
    with s1(2) obtain s2 where "credit s1 a (compute_block_reward s1) = Inr s2"
      "s' = s2\<lparr>total_minted := total_minted s2 + compute_block_reward s1\<rparr>"
      by (auto simp: apply_reward_distribution_def rbind_Inr_conv)
    with unwritten_credit[OF u] show ?thesis by simp
  qed (use s1(2) u in simp)
qed

lemma unwritten_append:
  assumes "validate_and_apply P now cs blk = Inr (None, cs')" "unwritten base (cs_state cs)"
  shows "unwritten base (cs_state cs')"
proof -
  from assms(1) obtain probe where p: "block_validate P now blk (cs_state cs) (cs_chain cs) = Inr (None, probe)"
      "apply_block_with_state cs blk probe = Inr cs'"
    by (auto simp: validate_and_apply_def rbind_Inr_conv split: option.splits)
  from p(1) have "apply_transactions P blk (cs_state cs) = Inr (None, probe)"
    by (auto simp: block_validate_def Let_def rbind_Inr_conv split: if_splits option.splits)
  then have u: "unwritten base probe"
    using assms(2) by (auto simp: apply_transactions_def rbind_Inr_conv elim: unwritten_tx_list)
  from p(2) have "apply_to_state probe blk = Inr (cs_state cs')"
    by (auto simp: apply_block_with_state_def rbind_Inr_conv)
  with u show ?thesis
    by (auto simp: apply_to_state_def Let_def split: if_splits json.splits intro: unwritten_reward)
qed

section \<open>Writing the state\<close>

lemma get_or_fold_update: "get_or (fold (\<lambda>a. AList.update a (f a)) as d) b v0 = (if b \<in> set as then f b else get_or d b v0)"
  by (induction as arbitrary: d) auto

lemma get_or_fold_delete: "get_or (fold AList.delete as d) b v0 = (if b \<in> set as then v0 else get_or d b v0)"
  by (induction as arbitrary: d) auto

lemma wf_fold_update: "wf_dict d \<Longrightarrow> wf_dict (fold (\<lambda>a. AList.update a (f a)) as d)"
  by (induction as arbitrary: d) auto

lemma wf_fold_delete: "wf_dict d \<Longrightarrow> wf_dict (fold AList.delete as d)"
  by (induction as arbitrary: d) auto

lemma state_row_reads: "state_row s a = (get_balance s a, get_nonce s a)"
  by (simp add: state_row_def all_balances_def all_nonces_def get_balance_def get_nonce_def)

lemma state_row_absent:
  "\<not> has_key (all_balances s) a \<Longrightarrow> \<not> has_key (all_nonces s) a \<Longrightarrow> state_row s a = (0, 0)"
  by (simp add: state_row_def get_or_def dict_simps)

lemma mark_persisted_reads [simp]:
  "get_balance (mark_persisted s) a = get_balance s a" "get_nonce (mark_persisted s) a = get_nonce s a"
  "total_minted (mark_persisted s) = total_minted s" "total_board_posts (mark_persisted s) = total_board_posts s"
  "dirty (mark_persisted s) = {}"
  by (simp_all add: mark_persisted_def get_balance_def get_nonce_def)

lemma mark_persisted_clean: "dirty s = {} \<Longrightarrow> mark_persisted s = s"
  by (simp add: mark_persisted_def)

lemma emit_tables [simp]: "block_table (emit s st) = block_table st" "state_table (emit s st) = state_table st"
  "tx_table (emit s st) = tx_table st" "addr_table (emit s st) = addr_table st"
  "get_or (emission_table (emit s st)) ''total_minted'' 0 = total_minted s"
  "get_or (emission_table (emit s st)) ''total_board_posts'' 0 = total_board_posts s"
  by (simp_all add: emit_def)

lemma delta_on_disk:
  assumes disk: "state_on_disk st base" and u: "unwritten base s"
  shows "state_on_disk (fst (save_state_delta st s)) (mark_persisted s) \<and> snd (save_state_delta st s) = mark_persisted s
    \<and> block_table (fst (save_state_delta st s)) = block_table st \<and> tx_table (fst (save_state_delta st s)) = tx_table st
    \<and> addr_table (fst (save_state_delta st s)) = addr_table st"
proof (cases "dirty s = {}")
  case True
  then have e: "save_state_delta st s = (emit s st, s)" by (simp add: save_state_delta_def dirty_addresses_def)
  show ?thesis unfolding e
    using disk u True by (simp add: state_on_disk_def unwritten_def tracks_def disk_row_def mark_persisted_clean)
next
  case False
  let ?held = "\<lambda>a. has_key (all_balances s) a \<or> has_key (all_nonces s) a"
  let ?table = "fold (\<lambda>a. AList.update a (state_row s a)) (filter ?held (sorted_list_of_set (dirty s)))
    (fold AList.delete (filter (\<lambda>a. \<not> ?held a) (sorted_list_of_set (dirty s))) (state_table st))"
  have e: "save_state_delta st s = (emit s (st\<lparr>state_table := ?table\<rparr>), mark_persisted s)"
    using False by (simp add: save_state_delta_def dirty_addresses_def Let_def)
  have f: "finite (dirty s)" using u by (simp add: unwritten_def)
  have "get_or ?table a (0, 0) = (get_balance s a, get_nonce s a)" for a
  proof (cases "a \<in> dirty s")
    case True
    then show ?thesis
      using f state_row_absent[of s a] unfolding get_or_fold_update get_or_fold_delete state_row_reads[symmetric] by auto
  next
    case False
    then show ?thesis
      using f u disk unfolding get_or_fold_update get_or_fold_delete
      by (simp add: state_on_disk_def unwritten_def tracks_def disk_row_def)
  qed
  moreover have "wf_dict ?table" using disk by (intro wf_fold_update wf_fold_delete) (simp add: state_on_disk_def)
  ultimately show ?thesis unfolding e by (simp add: state_on_disk_def disk_row_def)
qed

lemma map_of_rows: "map_of (map (\<lambda>a. (a, f a)) xs) b = (if b \<in> set xs then Some (f b) else None)"
  by (induction xs) auto

lemma rewrite_on_disk: "state_on_disk (fst (rewrite_state st s)) (mark_persisted s) \<and> snd (rewrite_state st s) = mark_persisted s
    \<and> block_table (fst (rewrite_state st s)) = block_table st"
proof -
  let ?as = "remdups (keys (all_balances s) @ keys (all_nonces s))"
  have "get_or (map (\<lambda>a. (a, state_row s a)) ?as) a (0, 0) = (get_balance s a, get_nonce s a)" for a
  proof (cases "a \<in> set ?as")
    case True
    then show ?thesis unfolding get_or_def map_of_rows by (simp add: state_row_reads)
  next
    case False
    then have "state_row s a = (0, 0)" by (intro state_row_absent) (simp_all add: has_key_def)
    with False show ?thesis unfolding get_or_def map_of_rows by (simp add: state_row_reads)
  qed
  moreover have "wf_dict (map (\<lambda>a. (a, state_row s a)) ?as)" by (simp add: comp_def)
  ultimately show ?thesis by (simp add: rewrite_state_def state_on_disk_def disk_row_def)
qed

section \<open>Writing and indexing blocks\<close>

lemma db_int_num: "jnum v = Some (of_int n) \<Longrightarrow> db_int v = Inr n"
  by (cases v) auto

definition indexable :: "prims \<Rightarrow> block \<Rightarrow> bool" where
  "indexable P blk \<longleftrightarrow> (\<exists>txs rows. iter_json (get_or blk ''transactions'' (JArr [])) = Inr txs
     \<and> map_res (index_rows P) txs = Inr rows)"

text \<open>A block of a chain, as it is written: its height is its place and it carries its hash.\<close>

definition placed :: "prims \<Rightarrow> nat \<Rightarrow> block \<Rightarrow> bool" where
  "placed P n blk \<longleftrightarrow> jnum (jget blk ''height'') = Some (of_nat n) \<and> has_key blk ''hash'' \<and> indexable P blk"

lemma placed_height: "placed P n blk \<Longrightarrow> read_field ''height'' blk = Inr (jget blk ''height'') \<and> db_int (jget blk ''height'') = Inr (int n)"
  using db_int_num[of "jget blk ''height''" "int n"]
  by (auto simp: placed_def read_field_def jget_def get_or_def split: option.splits)

lemma put_block_placed:
  assumes "placed P n blk"
  shows "put_block K blk st = Inr (st\<lparr>block_table := AList.update (int n) (row_of K blk) (block_table st)\<rparr>)"
proof -
  obtain v where "map_of blk ''hash'' = Some v" using assms by (auto simp: placed_def dict_simps)
  then show ?thesis
    using placed_height[OF assms]
    by (simp add: put_block_def row_of_def hash_of_def read_field_def[of "''hash''"] jget_def[of _ "''hash''"] get_or_def)
qed

definition tx_hashes :: "prims \<Rightarrow> block \<Rightarrow> string list" where
  "tx_hashes P blk = (case iter_json (get_or blk ''transactions'' (JArr [])) of
     Inr txs \<Rightarrow> List.map_filter (\<lambda>j. case j of JObj t \<Rightarrow> Some (tx_hash P t) | _ \<Rightarrow> None) txs | Inl _ \<Rightarrow> [])"

lemma index_rows_hashes:
  "map_res (index_rows P) txs = Inr rows \<Longrightarrow>
     map fst rows = List.map_filter (\<lambda>j. case j of JObj t \<Rightarrow> Some (tx_hash P t) | _ \<Rightarrow> None) txs"
proof (induction txs arbitrary: rows)
  case (Cons j txs)
  then show ?case
    by (cases j) (auto simp: index_rows_def rbind_Inr_conv map_filter_def)
qed (simp add: map_filter_def)

lemma map_of_insert_ignore:
  "map_of (insert_ignore k v d) k' = (case map_of d k' of Some x \<Rightarrow> Some x | None \<Rightarrow> if k = k' then Some v else None)"
  by (auto simp: insert_ignore_def dict_simps split: option.splits)

lemma map_of_index: "map_of (fold (\<lambda>(h, _, _). insert_ignore h n) rows d) k
    = (case map_of d k of Some x \<Rightarrow> Some x | None \<Rightarrow> if k \<in> set (map fst rows) then Some n else None)"
proof (induction rows arbitrary: d)
  case (Cons r rows)
  obtain h m as where r: "r = (h, m, as)" by (cases r)
  show ?case unfolding r fold.simps comp_def prod.case Cons.IH map_of_insert_ignore
    by (auto split: option.split)
qed (simp split: option.split)

lemma index_block_placed:
  assumes "placed P n blk"
  obtains st' where "index_block P blk st = Inr st'" "block_table st' = block_table st" "state_table st' = state_table st"
    "emission_table st' = emission_table st"
    "\<And>h. get_tx_height st' h = (case get_tx_height st h of Some x \<Rightarrow> Some x
        | None \<Rightarrow> if h \<in> set (tx_hashes P blk) then Some (int n) else None)"
proof -
  from assms obtain txs rows where r: "iter_json (get_or blk ''transactions'' (JArr [])) = Inr txs"
    "map_res (index_rows P) txs = Inr rows" by (auto simp: placed_def indexable_def)
  let ?st = "st\<lparr>tx_table := fold (\<lambda>(h, _, _). insert_ignore h (int n)) rows (tx_table st),
     addr_table := fold (\<lambda>(h, memo, addrs). fold (\<lambda>a.
        insert_ignore (a, h) \<lparr>a_height = int n, a_memo = memo\<rparr>) addrs) rows (addr_table st)\<rparr>"
  have "index_block P blk st = Inr ?st" using placed_height[OF assms] r by (simp add: index_block_def)
  moreover have "tx_hashes P blk = map fst rows" using r index_rows_hashes[OF r(2)] by (simp add: tx_hashes_def)
  then have "get_tx_height ?st h = (case get_tx_height st h of Some x \<Rightarrow> Some x
        | None \<Rightarrow> if h \<in> set (tx_hashes P blk) then Some (int n) else None)" for h
    unfolding get_tx_height_def using map_of_index[of "int n" rows "tx_table st" h] by simp
  ultimately show thesis by (intro that[of ?st]) simp_all
qed

section \<open>Commits keep the disk in step\<close>

definition on_disk :: "prims \<Rightarrow> store_lib \<Rightarrow> storage \<Rightarrow> chain_state \<Rightarrow> bool" where
  "on_disk P K st cs \<longleftrightarrow> chain_inv P (cs_chain cs) \<and> blocks_on_disk K st (cs_chain cs) \<and> state_on_disk st (cs_state cs)
     \<and> (\<forall>b\<in>set (cs_chain cs). indexable P b) \<and> sum_iterations (cs_chain cs) = Inr (cumulative_iterations cs)"

lemma on_diskD:
  assumes "on_disk P K st cs"
  shows "chain_inv P (cs_chain cs)" "blocks_on_disk K st (cs_chain cs)" "state_on_disk st (cs_state cs)"
    "b \<in> set (cs_chain cs) \<Longrightarrow> indexable P b" "sum_iterations (cs_chain cs) = Inr (cumulative_iterations cs)"
  using assms unfolding on_disk_def by blast+

lemma on_diskI:
  assumes "chain_inv P (cs_chain cs)" "blocks_on_disk K st (cs_chain cs)" "state_on_disk st (cs_state cs)"
    "\<And>b. b \<in> set (cs_chain cs) \<Longrightarrow> indexable P b" "sum_iterations (cs_chain cs) = Inr (cumulative_iterations cs)"
  shows "on_disk P K st cs"
  using assms unfolding on_disk_def by blast

lemma out_to_read: "read_output j = Inr p \<Longrightarrow> out_to j = Inr (fst p)"
  by (cases j) (auto simp: rbind_Inr_conv)

lemma outs_to_read: "map_res read_output js = Inr ps \<Longrightarrow> map_res out_to js = Inr (map fst ps)"
  by (induction js arbitrary: ps) (auto simp: rbind_Inr_conv out_to_read)

lemma index_rows_read: "read_tx t = Inr v \<Longrightarrow> \<exists>r. index_rows P (JObj t) = Inr r"
  by (auto simp: index_rows_def read_tx_parts read_outputs_def get_or_def outs_to_read
      split: option.splits json.splits)

lemma apply_tx_list_index: "apply_tx_list P f ts s = Inr (None, s') \<Longrightarrow> \<exists>rows. map_res (index_rows P) ts = Inr rows"
proof (induction P f ts s rule: apply_tx_list.induct)
  case (2 P f t ts s)
  from 2(2) obtain s1 where s1: "apply_tx s t = Inr s1" "apply_tx_list P f ts s1 = Inr (None, s')"
    "tx_validate P (\<lambda>_. None) (get_balance s) (get_nonce s) (total_board_posts s) (Some f) t = Inr None"
    by (auto simp: rbind_Inr_conv split: option.splits)
  with 2(1) obtain rows where "map_res (index_rows P) ts = Inr rows" by fastforce
  moreover from s1(1) obtain v where "read_tx t = Inr v" by (auto simp: apply_tx_def rbind_Inr_conv)
  ultimately show ?case using index_rows_read[of t v P] by auto
qed auto

lemma valid_indexable: "apply_transactions P blk s = Inr (None, s') \<Longrightarrow> indexable P blk"
  by (auto simp: apply_transactions_def indexable_def read_field_def get_or_def rbind_Inr_conv
      split: option.splits dest: apply_tx_list_index)

lemma parent_ok_placed: "parent_ok blk h (of_nat n) ts \<Longrightarrow> indexable P blk \<Longrightarrow> placed P n blk"
  by (auto simp: parent_ok_def placed_def read_num_def read_field_def jget_def get_or_def dict_simps
      split: option.splits)

text \<open>One appended block keeps the chain part of the invariant.\<close>

lemma append_keeps:
  assumes c: "chain_inv P (cs_chain cs)" and n: "sum_iterations (cs_chain cs) = Inr (cumulative_iterations cs)"
    and i: "\<forall>b\<in>set (cs_chain cs). indexable P b"
    and v: "validate_and_apply P now cs blk = Inr (None, cs')" and h: "jnum (jget blk ''height'') = Some h" "h \<noteq> 0"
  shows "cs_chain cs' = cs_chain cs @ [blk]" "chain_inv P (cs_chain cs')" "placed P (length (cs_chain cs)) blk"
    "\<forall>b\<in>set (cs_chain cs'). indexable P b" "sum_iterations (cs_chain cs') = Inr (cumulative_iterations cs')"
proof -
  from v obtain probe where p: "block_validate P now blk (cs_state cs) (cs_chain cs) = Inr (None, probe)"
    "apply_block_with_state cs blk probe = Inr cs'" "cs_chain cs' = cs_chain cs @ [blk]" by (rule validate_and_apply_ok)
  show e: "cs_chain cs' = cs_chain cs @ [blk]" by fact
  show inv: "chain_inv P (cs_chain cs')" unfolding e by (rule chain_inv_append[OF c p(1) h])
  have x: "indexable P blk" using p(1) unfolding block_validate_None by (blast intro: valid_indexable)
  have "parent_ok ((cs_chain cs @ [blk]) ! length (cs_chain cs)) (block_hash P blk)
      (of_nat (length (cs_chain cs))) (block_time blk)"
    using inv unfolding e chain_inv_def by (metis length_append_singleton lessI nth_append_length)
  then have b: "parent_ok blk (block_hash P blk) (of_nat (length (cs_chain cs))) (block_time blk)" by simp
  with x show "placed P (length (cs_chain cs)) blk" by (intro parent_ok_placed)
  show "\<forall>b\<in>set (cs_chain cs'). indexable P b" using i x by (simp add: e)
  from p(2) obtain w where w: "work_of blk = Inr w" "cumulative_iterations cs' = cumulative_iterations cs + w"
    by (auto simp: apply_block_with_state_def rbind_Inr_conv)
  have "0 < length (cs_chain cs)" using c by (simp add: chain_inv_def)
  then show "sum_iterations (cs_chain cs') = Inr (cumulative_iterations cs')"
    unfolding e w(2) using b by (intro sum_iterations_snoc[OF n _ _ w(1)]) (auto simp: parent_ok_def)
qed

lemma blocks_on_disk_snoc:
  assumes "blocks_on_disk K st c"
    "block_table st' = AList.update (int (length c)) (row_of K b) (block_table st)"
  shows "blocks_on_disk K st' (c @ [b])"
  using assms by (auto simp: blocks_on_disk_def dict_simps nth_append)

lemma commit_on_disk:
  assumes disk: "on_disk P K st cs" and v: "validate_and_apply P now cs blk = Inr (None, cs')"
    and h: "jnum (jget blk ''height'') = Some h" "h \<noteq> 0"
  obtains st' where "save_block_and_state P K st blk (cs_state cs') = Inr (st', mark_persisted (cs_state cs'))"
    "on_disk P K st' (cs'\<lparr>cs_state := mark_persisted (cs_state cs')\<rparr>)"
    "\<And>x. get_tx_height st' x = (case get_tx_height st x of Some n \<Rightarrow> Some n
       | None \<Rightarrow> if x \<in> set (tx_hashes P blk) then Some (int (length (cs_chain cs))) else None)"
proof -
  note d = on_diskD[OF disk]
  have i: "\<forall>b\<in>set (cs_chain cs). indexable P b" using d(4) by blast
  note a = append_keeps[OF d(1,5) i v h]
  let ?st1 = "st\<lparr>block_table := AList.update (int (length (cs_chain cs))) (row_of K blk) (block_table st)\<rparr>"
  obtain st2 where s2: "index_block P blk ?st1 = Inr st2" "block_table st2 = block_table ?st1"
    "state_table st2 = state_table ?st1" "emission_table st2 = emission_table ?st1"
    "\<And>x. get_tx_height st2 x = (case get_tx_height ?st1 x of Some n \<Rightarrow> Some n
       | None \<Rightarrow> if x \<in> set (tx_hashes P blk) then Some (int (length (cs_chain cs))) else None)"
    using index_block_placed[OF a(3), of ?st1] by blast
  have "state_on_disk st2 (cs_state cs)" using d(3) s2(3,4) by (simp add: state_on_disk_def disk_row_def)
  moreover have "unwritten (cs_state cs) (cs_state cs)"
    using d(3) by (simp add: unwritten_def tracks_def state_on_disk_def)
  then have "unwritten (cs_state cs) (cs_state cs')" by (rule unwritten_append[OF v])
  ultimately have w: "state_on_disk (fst (save_state_delta st2 (cs_state cs'))) (mark_persisted (cs_state cs'))"
    "snd (save_state_delta st2 (cs_state cs')) = mark_persisted (cs_state cs')"
    "block_table (fst (save_state_delta st2 (cs_state cs'))) = block_table st2"
    "tx_table (fst (save_state_delta st2 (cs_state cs'))) = tx_table st2"
    using delta_on_disk[of st2 "cs_state cs" "cs_state cs'"] by blast+
  let ?st' = "fst (save_state_delta st2 (cs_state cs'))"
  have "blocks_on_disk K ?st' (cs_chain cs')"
    unfolding a(1) by (rule blocks_on_disk_snoc[OF d(2)]) (simp add: w(3) s2(2))
  then have "on_disk P K ?st' (cs'\<lparr>cs_state := mark_persisted (cs_state cs')\<rparr>)"
    using a(2,4,5) w(1) by (intro on_diskI) simp_all
  moreover have "save_block_and_state P K st blk (cs_state cs') = Inr (?st', mark_persisted (cs_state cs'))"
    using w(2) by (simp add: save_block_and_state_def put_block_placed[OF a(3)] s2(1) prod_eq_iff)
  moreover have "get_tx_height ?st' x = (case get_tx_height st x of Some n \<Rightarrow> Some n
       | None \<Rightarrow> if x \<in> set (tx_hashes P blk) then Some (int (length (cs_chain cs))) else None)" for x
    using s2(5)[of x] unfolding get_tx_height_def w(4) by simp
  ultimately show thesis by (intro that)
qed


section \<open>A reorganisation\<close>

lemma blocks_on_disk_drop:
  assumes "blocks_on_disk K st c" "f \<le> length c"
  shows "blocks_on_disk K (drop_from (int f) st) (take f c)"
proof -
  have m: "map_of (filter (\<lambda>(h, _). h < int f) d) h = (if h < int f then map_of d h else None)" for d :: "(int, block_row) dict" and h
    by (induction d) auto
  have "wf_dict (filter (\<lambda>(h, _). h < int f) d)" if "wf_dict d" for d :: "(int, block_row) dict"
    using that by (rule distinct_map_filter)
  with assms show ?thesis by (auto simp: blocks_on_disk_def drop_from_def m)
qed

lemma put_blocks:
  assumes "\<And>i. i < length tail \<Longrightarrow> placed P (length c + i) (tail ! i)" "blocks_on_disk K st c"
  shows "\<exists>st'. foldr_res (\<lambda>st b. put_block K b st) st tail = Inr st' \<and> blocks_on_disk K st' (c @ tail)"
  using assms
proof (induction tail arbitrary: c st)
  case (Cons b tail)
  let ?st = "st\<lparr>block_table := AList.update (int (length c)) (row_of K b) (block_table st)\<rparr>"
  have p: "placed P (length c) b" using Cons.prems(1)[of 0] by simp
  have "\<exists>st'. foldr_res (\<lambda>st b. put_block K b st) ?st tail = Inr st' \<and> blocks_on_disk K st' ((c @ [b]) @ tail)"
  proof (rule Cons.IH)
    show "placed P (length (c @ [b]) + i) (tail ! i)" if "i < length tail" for i
      using Cons.prems(1)[of "Suc i"] that by simp
    show "blocks_on_disk K ?st (c @ [b])" by (rule blocks_on_disk_snoc[OF Cons.prems(2)]) simp
  qed
  then show ?case by (simp add: put_block_placed[OF p])
qed simp

lemma index_blocks:
  assumes "\<And>b. b \<in> set tail \<Longrightarrow> \<exists>n. placed P n b"
  shows "\<exists>st'. foldr_res (\<lambda>st b. index_block P b st) st tail = Inr st' \<and> block_table st' = block_table st"
  using assms
proof (induction tail arbitrary: st)
  case (Cons b tail)
  then obtain n where "placed P n b" by auto
  then obtain st1 where "index_block P b st = Inr st1" "block_table st1 = block_table st"
    by (rule index_block_placed[where st = st]) blast
  moreover have "\<exists>st'. foldr_res (\<lambda>st b. index_block P b st) st1 tail = Inr st' \<and> block_table st' = block_table st1"
    by (rule Cons.IH) (use Cons.prems in auto)
  ultimately show ?case by auto
qed simp

lemma placed_of_chain:
  assumes "chain_inv P c" "\<forall>b\<in>set c. indexable P b" "i < length c"
  shows "placed P i (c ! i)"
  using assms unfolding chain_inv_def by (intro parent_ok_placed) auto

lemma reorg_on_disk:
  assumes disk: "on_disk P K st cs" and f: "f \<le> length (cs_chain cs)"
    and c: "cs_chain cs' = take f (cs_chain cs) @ tail"
    and new: "chain_inv P (cs_chain cs')" "\<forall>b\<in>set (cs_chain cs'). indexable P b"
      "sum_iterations (cs_chain cs') = Inr (cumulative_iterations cs')"
  obtains st' where "replace_chain_and_state P K st f tail (cs_state cs') = Inr (st', mark_persisted (cs_state cs'))"
    "on_disk P K st' (cs'\<lparr>cs_state := mark_persisted (cs_state cs')\<rparr>)"
proof -
  have pl: "placed P (f + i) (tail ! i)" if "i < length tail" for i
  proof -
    have "(take f (cs_chain cs) @ tail) ! (f + i) = tail ! i" using f by (simp add: nth_append)
    with placed_of_chain[OF new(1,2), of "f + i"] that f show ?thesis by (simp add: c)
  qed
  let ?c = "take f (cs_chain cs)"
  have l: "length ?c = f" using f by simp
  have "\<exists>st1. foldr_res (\<lambda>st b. put_block K b st) (drop_from (int f) st) tail = Inr st1 \<and> blocks_on_disk K st1 (?c @ tail)"
    by (rule put_blocks[where P = P]) (use pl l in simp, rule blocks_on_disk_drop[OF on_diskD(2)[OF disk] f])
  then obtain st1 where s1: "foldr_res (\<lambda>st b. put_block K b st) (drop_from (int f) st) tail = Inr st1"
    "blocks_on_disk K st1 (?c @ tail)" by blast
  have "\<exists>st'. foldr_res (\<lambda>st b. index_block P b st) st1 tail = Inr st' \<and> block_table st' = block_table st1"
    by (rule index_blocks) (use pl in \<open>auto simp: in_set_conv_nth\<close>)
  then obtain st2 where s2: "foldr_res (\<lambda>st b. index_block P b st) st1 tail = Inr st2" "block_table st2 = block_table st1" by blast
  let ?st' = "fst (rewrite_state st2 (cs_state cs'))"
  have r: "state_on_disk ?st' (mark_persisted (cs_state cs'))" "snd (rewrite_state st2 (cs_state cs')) = mark_persisted (cs_state cs')"
    "block_table ?st' = block_table st2" using rewrite_on_disk[of st2 "cs_state cs'"] by blast+
  have "blocks_on_disk K ?st' (cs_chain cs')" using s1(2) unfolding c by (simp add: blocks_on_disk_def r(3) s2(2))
  then have "on_disk P K ?st' (cs'\<lparr>cs_state := mark_persisted (cs_state cs')\<rparr>)"
    using new r(1) by (intro on_diskI) simp_all
  moreover have "replace_chain_and_state P K st f tail (cs_state cs') = Inr (?st', mark_persisted (cs_state cs'))"
    using s1(1) s2(1) r(2) by (simp add: replace_chain_and_state_def prod_eq_iff)
  ultimately show thesis by (intro that)
qed

text \<open>C9: Replacing the chain from a fork point on leaves exactly the new chain on disk, in order and without
  leftover of the abandoned branch, and its state fully written, whatever state was stored before.\<close>

theorem reorg_persists:
  assumes "on_disk P K st cs" and "f \<le> length (cs_chain cs)" and "cs_chain cs' = take f (cs_chain cs) @ tail"
    and "grown P cs'" and "\<forall>b\<in>set (cs_chain cs'). indexable P b"
  shows "case replace_chain_and_state P K st f tail (cs_state cs') of
      Inl e \<Rightarrow> False | Inr (st', s') \<Rightarrow> on_disk P K st' (cs'\<lparr>cs_state := s'\<rparr>)"
proof -
  have "sum_iterations (cs_chain cs') = Inr (cumulative_iterations cs')" using grown_replay[OF assms(4)] by blast
  from reorg_on_disk[OF assms(1-3) grown_inv[OF assms(4)] assms(5) this] obtain st' where
    "replace_chain_and_state P K st f tail (cs_state cs') = Inr (st', mark_persisted (cs_state cs'))"
    "on_disk P K st' (cs'\<lparr>cs_state := mark_persisted (cs_state cs')\<rparr>)" by blast
  then show ?thesis by simp
qed

section \<open>A restart\<close>

lemma backfill_fields:
  assumes "backfill_tx_bytes P b = Inr b'" "k \<noteq> ''tx_bytes''"
  shows "map_of b' k = map_of b k"
  using assms by (auto simp: backfill_tx_bytes_def rbind_Inr_conv dict_simps split: if_splits)

lemma map_res_Inr_list_all2: "map_res f xs = Inr ys \<longleftrightarrow> list_all2 (\<lambda>x y. f x = Inr y) xs ys"
proof (induction xs arbitrary: ys)
  case (Cons x xs)
  then show ?case by (cases ys) (auto simp: rbind_Inr_conv)
qed auto

lemma sum_iterations_backfilled:
  assumes "list_all2 (\<lambda>b b'. backfill_tx_bytes P b = Inr b') c c'"
  shows "sum_iterations c' = sum_iterations c"
proof -
  have "foldr_res (\<lambda>acc blk. rbind (read_num ''height'' blk) (\<lambda>h. if h > 0 then rbind (work_of blk) (\<lambda>n. Inr (acc + n)) else Inr acc)) a c'
      = foldr_res (\<lambda>acc blk. rbind (read_num ''height'' blk) (\<lambda>h. if h > 0 then rbind (work_of blk) (\<lambda>n. Inr (acc + n)) else Inr acc)) a c" for a :: rat
    using assms
  proof (induction arbitrary: a rule: list_all2_induct)
    case (Cons b c b' c')
    have "read_num ''height'' b' = read_num ''height'' b" "work_of b' = work_of b"
      using backfill_fields[OF Cons(1)] by (simp_all add: read_num_def read_field_def work_of_def)
    then show ?case using Cons(3) by (simp cong: if_cong)
  qed simp
  then show ?thesis by (simp add: sum_iterations_def)
qed

lemma indexable_backfill: "indexable P b \<Longrightarrow> \<exists>b'. backfill_tx_bytes P b = Inr b'"
proof -
  assume "indexable P b"
  then obtain txs rows where r: "iter_json (get_or b ''transactions'' (JArr [])) = Inr txs"
    "map_res (index_rows P) txs = Inr rows" by (auto simp: indexable_def)
  have "\<exists>ns. map_res (\<lambda>j. case j of JObj t \<Rightarrow> Inr (tx_size P t) | _ \<Rightarrow> Inl TypeError) txs = (Inr ns :: int list res)"
    using r(2)
  proof (induction txs arbitrary: rows)
    case (Cons j txs)
    then show ?case by (cases j) (auto simp: rbind_Inr_conv index_rows_def)
  qed simp
  with r(1) show ?thesis by (auto simp: backfill_tx_bytes_def)
qed

lemma load_state_reads:
  assumes "wf_dict (state_table st)" "load_state st = (bals, nons, minted, posts)"
  shows "get_balance (from_snapshot bals nons minted posts) a = fst (disk_row st a)"
    "get_nonce (from_snapshot bals nons minted posts) a = snd (disk_row st a)"
proof -
  have nz: "get_or (filter (\<lambda>(_, n). n \<noteq> 0) d) a 0 = get_or d a 0" if "wf_dict d" for d :: "(string, int) dict"
    using that
  proof (induction d)
    case (Cons p d)
    show ?case
    proof (cases "fst p = a")
      case True
      then have "a \<notin> fst ` set d" using Cons.prems by auto
      then have "map_of (filter (\<lambda>(_, n). n \<noteq> 0) d) a = None" unfolding map_of_eq_None_iff by auto
      with True show ?thesis by (cases p) (simp add: get_or_def)
    next
      case False
      with Cons show ?thesis by (cases p) (simp add: get_or_def)
    qed
  qed simp
  have m: "get_or (map (\<lambda>(a, b, _). (a, b)) d) a 0 = fst (get_or d a (0, 0))"
    "get_or (map (\<lambda>(a, _, n). (a, n)) d) a 0 = snd (get_or d a (0, 0))" for d :: "(string, int \<times> int) dict"
    by (induction d) (auto simp: get_or_def)
  have "keys (map (\<lambda>(a, b, _). (a, b)) d) = keys d" for d :: "(string, int \<times> int) dict"
    by (induction d) auto
  then have "wf_dict (map (\<lambda>(a, b, _). (a, b)) (state_table st))" using assms(1) by (simp only:)
  from nz[OF this] show "get_balance (from_snapshot bals nons minted posts) a = fst (disk_row st a)"
    using assms(2) by (auto simp: get_balance_def from_snapshot_def empty_state_def load_state_def disk_row_def m)
  show "get_nonce (from_snapshot bals nons minted posts) a = snd (disk_row st a)"
    using assms(2) by (auto simp: get_nonce_def from_snapshot_def empty_state_def load_state_def disk_row_def m)
qed

lemma snapshot_counters: "total_minted (from_snapshot bals nons n m) = n" "total_board_posts (from_snapshot bals nons n m) = m"
  by (simp_all add: from_snapshot_def)

lemma load_cs_state:
  assumes "load_all_blocks K st = Inr blks" "blks \<noteq> []" "map_res (backfill_tx_bytes P) blks = Inr blks'"
    "sum_iterations blks' = Inr n" "state_exists st" "load_state st = (bals, nons, minted, posts)"
  shows "load_cs P K st = Inr (\<lparr>cs_chain = blks', cs_state = from_snapshot bals nons minted posts,
    cumulative_iterations = n\<rparr>, st)"
  using assms by (simp add: load_cs_def from_storage_def)


text \<open>A block may leave \<^verbatim>\<open>tx_bytes\<close> out (nothing validates it, and the genesis block does), and the
  start-up code then adds the field to a block whose hash covers every field: after a restart the
  block the node holds, and serves to its peers, no longer has the hash of its content and is refused by
  every validation.\<close>

theorem restart_breaks_hash:
  assumes "load_all_blocks K st = Inr blks" and "load_cs P K st = Inr (cs', st')" and "i < length blks"
    and "\<not> has_key (blks ! i) ''tx_bytes''" and "check_hash P (blks ! i) = Inr None"
    and "\<And>n. block_hash P (AList.update ''tx_bytes'' (JInt n) (blks ! i)) \<noteq> block_hash P (blks ! i)"
  shows "hash_of (cs_chain cs' ! i) = hash_of (blks ! i)
    \<and> check_hash P (cs_chain cs' ! i) = Inr (Some HashMismatch)
    \<and> (\<forall>now s chain s'. block_validate P now (cs_chain cs' ! i) s chain \<noteq> Inr (None, s'))"
proof -
  from assms(1-3) obtain c' where c': "map_res (backfill_tx_bytes P) blks = Inr c'" "cs_chain cs' = c'"
    by (auto simp: load_cs_def rbind_Inr_conv from_storage_def from_chain_def split: if_splits prod.splits)
  then have "backfill_tx_bytes P (blks ! i) = Inr (c' ! i)"
    using assms(3) unfolding map_res_Inr_list_all2 by (auto dest: list_all2_nthD)
  then have "\<exists>n. AList.update ''tx_bytes'' (JInt n) (blks ! i) = c' ! i"
    using assms(4) by (auto simp: backfill_tx_bytes_def rbind_Inr_conv)
  then obtain n where n: "c' ! i = AList.update ''tx_bytes'' (JInt n) (blks ! i)" by metis
  have h: "jget (c' ! i) ''hash'' = jget (blks ! i) ''hash''" unfolding n by (simp add: jget_def)
  have "jget (blks ! i) ''hash'' = JStr (block_hash P (blks ! i))" using assms(5) by (simp add: check_hash_None)
  then have m: "check_hash P (c' ! i) = Inr (Some HashMismatch)"
    using assms(6)[of n] unfolding check_hash_def h by (simp add: n)
  then have "block_validate P now (c' ! i) s chain \<noteq> Inr (None, s')" for now s chain s'
    unfolding block_validate_None by simp
  with m h show ?thesis unfolding c'(2) hash_of_def by blast
qed

section \<open>Examples\<close>

text \<open>A serializer for the blocks of a list: each is written as as many characters as come before it.\<close>

definition list_lib :: "blocks \<Rightarrow> store_lib" where
  "list_lib bs = \<lparr>zlib_compress = (\<lambda>s. CHR ''z'' # s), zlib_decompress = tl,
     json_dumps = (\<lambda>j. case j of JObj b \<Rightarrow> replicate (length (takeWhile (\<lambda>x. x \<noteq> b) bs)) (CHR ''x'') | _ \<Rightarrow> []),
     json_loads = (\<lambda>s. JObj (bs ! length s))\<rparr>"

lemma list_lib_readable: "b \<in> set bs \<Longrightarrow> readable (list_lib bs) b"
proof -
  assume "b \<in> set bs"
  then have "bs ! length (takeWhile (\<lambda>x. x \<noteq> b) bs) = b" by (induction bs) auto
  moreover have "utf8_encode (replicate n (CHR ''x'')) = replicate n (CHR ''x'')" for n
    by (induction n) (simp_all add: utf8_encode_def)
  ultimately show ?thesis by (simp add: readable_def unpack_block_def pack_block_def list_lib_def)
qed

text \<open>A fresh start puts genesis on disk.\<close>

lemma genesis_placed: "placed P 0 (create_genesis P)"
  by (simp add: placed_def create_genesis_def Let_def jget_def get_or_def has_key_def indexable_def)

lemma fresh_start:
  obtains st where "load_cs P K empty_storage = Inr (from_genesis P, st)" "on_disk P K st (from_genesis P)"
    "load_all_blocks K st = map_res (unpack_block K) [row_of K (create_genesis P)]" "state_table st = []"
proof -
  let ?g = "create_genesis P"
  let ?st = "empty_storage\<lparr>block_table := AList.update 0 (row_of K ?g) (block_table empty_storage)\<rparr>"
  obtain st where st: "index_block P ?g ?st = Inr st" "block_table st = block_table ?st"
      "state_table st = state_table ?st" "emission_table st = emission_table ?st"
    using index_block_placed[OF genesis_placed, of P ?st] by blast
  have l: "load_cs P K empty_storage = Inr (from_genesis P, st)"
    using put_block_placed[OF genesis_placed, of K P empty_storage] st(1)
    by (simp add: load_cs_def load_all_blocks_def empty_storage_def[THEN arg_cong[where f = block_table]]
        save_block_def from_genesis_def)
  have b: "blocks_on_disk K st [?g]" using st(2) by (auto simp: blocks_on_disk_def empty_storage_def)
  have "on_disk P K st (from_genesis P)"
  proof (rule on_diskI)
    show "chain_inv P (cs_chain (from_genesis P))" by (simp add: from_genesis_def genesis_inv)
    show "blocks_on_disk K st (cs_chain (from_genesis P))" using b by (simp add: from_genesis_def)
    show "state_on_disk st (cs_state (from_genesis P))" using st(3,4)
      by (simp add: state_on_disk_def empty_storage_def from_genesis_def empty_state_def disk_row_def get_or_def
          get_balance_def get_nonce_def)
    show "indexable P b" if "b \<in> set (cs_chain (from_genesis P))" for b
      using that genesis_placed[of P] by (simp add: from_genesis_def placed_def)
    show "sum_iterations (cs_chain (from_genesis P)) = Inr (cumulative_iterations (from_genesis P))"
      using grown_replay[OF grown_genesis] by blast
  qed
  with l st(2,3) show thesis by (intro that) (simp_all add: load_all_blocks_def empty_storage_def)
qed

text \<open>The first block after a fresh start.\<close>

definition first_block :: block where
  "first_block = key_block 1 ''00'' ''11''"

lemma first_commit:
  obtains now cs' where
    "validate_and_apply key_prims now (from_genesis key_prims) first_block = Inr (None, cs')" "grown key_prims cs'"
    "cs_chain cs' = [create_genesis key_prims, first_block]"
    "get_balance (cs_state cs') (demo_addr CHR ''a'') = 291121795"
    "jnum (jget first_block ''height'') = Some 1" "\<forall>b\<in>set (cs_chain cs'). indexable key_prims b"
proof -
  let ?g = "from_genesis key_prims"
  have t: "cs_tip ?g = create_genesis key_prims" "length (cs_chain ?g) = 1" "cs_chain ?g = [create_genesis key_prims]"
    by (simp_all add: from_genesis_def cs_tip_def)
  obtain now cs' where v: "validate_and_apply key_prims now ?g first_block = Inr (None, cs')"
      "grown key_prims cs'" "cs_chain cs' = cs_chain ?g @ [first_block]"
    unfolding first_block_def using key_grow[OF grown_genesis, of 1 "''00''" "''11''"] key_hex[of "''11''" "''11''" "''11''"] t(1,2)
    by (auto simp: key_genesis)
  have h: "jnum (jget first_block ''height'') = Some 1" by (simp add: first_block_def key_block_fields)
  have e: "state_inv empty_state" "total_minted empty_state = 0" by (simp_all add: empty_state_def state_inv_def)
  have s: "state_inv (cs_state ?g)" "0 \<le> total_minted (cs_state ?g)" "total_minted (cs_state ?g) \<le> SUPPLY_CAP"
    using e by (simp_all add: from_genesis_def SUPPLY_CAP_def TICKS_PER_LAPSE_def)
  from append_effect[OF grown_inv[OF grown_genesis] s v(1) h] obtain a fees txs probe where p:
    "jget first_block ''builder'' = JStr a" "iter_json (jget first_block ''transactions'') = Inr (map JObj txs)"
    "block_fees first_block = Inr fees" "foldr_res apply_tx (cs_state ?g) txs = Inr probe"
    "\<forall>b. get_balance (cs_state cs') b = get_balance probe b + (if b = a then fees + compute_reward (total_minted (cs_state ?g)) else 0)"
    by auto
  have "a = demo_addr CHR ''a''" "fees = 0" using p(1,3) by (simp_all add: first_block_def key_block_fields)
  moreover have "txs = []" using p(2) by (simp add: first_block_def key_block_def jget_def get_or_def)
  then have "probe = empty_state" using p(4) by (simp add: from_genesis_def)
  moreover have "compute_reward 0 = 291121795" by (simp add: compute_reward_def compute_can_mint_def param_defs)
  ultimately have "get_balance (cs_state cs') (demo_addr CHR ''a'') = 291121795"
    using p(5) e(2) by (simp add: from_genesis_def) (simp add: empty_state_def get_balance_def get_or_def)
  moreover have "indexable key_prims b" if "b \<in> set (cs_chain cs')" for b
  proof -
    from that have "b = create_genesis key_prims \<or> b = first_block" unfolding v(3) t(3) by simp
    then show ?thesis using genesis_placed[of key_prims]
      by (auto simp: placed_def) (simp add: indexable_def first_block_def key_block_def get_or_def)
  qed
  ultimately show thesis using v h t(3) by (intro that[of now cs']) simp_all
qed


theorem reorg_persists_witness:
  "\<exists>K st cs' st' s'. replace_chain_and_state key_prims K st 1 [first_block] (cs_state cs') = Inr (st', s')
     \<and> on_disk key_prims K st' (cs'\<lparr>cs_state := s'\<rparr>) \<and> cs_chain cs' = [create_genesis key_prims, first_block]"
proof -
  obtain st where st: "on_disk key_prims (list_lib []) st (from_genesis key_prims)" by (rule fresh_start)
  obtain now cs' where c: "grown key_prims cs'" "cs_chain cs' = [create_genesis key_prims, first_block]"
    "\<forall>b\<in>set (cs_chain cs'). indexable key_prims b" by (rule first_commit)
  have f: "1 \<le> length (cs_chain (from_genesis key_prims))"
    "cs_chain cs' = take 1 (cs_chain (from_genesis key_prims)) @ [first_block]" by (simp_all add: c(2) from_genesis_def)
  from reorg_persists[OF st f c(1,3)] obtain st' s' where
    "replace_chain_and_state key_prims (list_lib []) st 1 [first_block] (cs_state cs') = Inr (st', s')"
    "on_disk key_prims (list_lib []) st' (cs'\<lparr>cs_state := s'\<rparr>)" by (auto split: sum.splits prod.splits)
  with c(2) show ?thesis by (intro exI[of _ "list_lib []"] exI[of _ st] exI[of _ cs'] exI[of _ st'] exI[of _ s']) simp
qed


lemma tohex_inject: "tohex s = tohex t \<longleftrightarrow> s = t"
proof
  assume "tohex s = tohex t"
  then have "fromhex (tohex s) = fromhex (tohex t)" by (rule arg_cong)
  then show "s = t" unfolding fromhex_tohex by simp
qed simp

text \<open>A serializer that shows whether a block has the field.\<close>

definition bytes_prims :: prims where
  "bytes_prims = demo_prims\<lparr>dumps := (\<lambda>j. case j of JObj d \<Rightarrow> if has_key d ''tx_bytes'' then ''1'' else ''0'' | _ \<Rightarrow> [])\<rparr>"

theorem restart_breaks_hash_witness:
  "\<exists>K st cs' st'. load_cs bytes_prims K st = Inr (cs', st')
     \<and> load_all_blocks K st = Inr [create_genesis bytes_prims]
     \<and> hash_of (cs_chain cs' ! 0) = hash_of (create_genesis bytes_prims)
     \<and> check_hash bytes_prims (create_genesis bytes_prims) = Inr None
     \<and> check_hash bytes_prims (cs_chain cs' ! 0) = Inr (Some HashMismatch)"
proof -
  let ?g = "create_genesis bytes_prims" and ?K = "list_lib [create_genesis bytes_prims]"
  obtain st where st: "on_disk bytes_prims ?K st (from_genesis bytes_prims)" "state_table st = []" by (rule fresh_start)
  have l: "load_all_blocks ?K st = Inr [?g]"
    using load_blocks_on_disk[OF on_diskD(2)[OF st(1)]] list_lib_readable by (simp add: from_genesis_def)
  have g: "jget ?g ''height'' = JInt 0" "\<not> has_key ?g ''tx_bytes''" "get_or ?g ''transactions'' (JArr []) = JArr []"
    by (simp_all add: create_genesis_def Let_def jget_def get_or_def has_key_def)
  have r: "map_of (AList.update ''tx_bytes'' v ?g) ''height'' = Some (JInt 0)" for v
    by (simp add: dict_simps create_genesis_def Let_def)
  have c: "load_cs bytes_prims ?K st = Inr (\<lparr>cs_chain = [AList.update ''tx_bytes'' (JInt 0) ?g], cs_state = empty_state,
      cumulative_iterations = 0\<rparr>, st)"
    by (simp add: load_cs_def l backfill_tx_bytes_def g state_exists_def st(2) from_chain_def replay_block_def
        sum_iterations_def read_field_def read_num_def r py_eq_def)
  have h: "check_hash bytes_prims ?g = Inr None"
    by (simp add: check_hash_None create_genesis_def Let_def jget_def get_or_def block_hash_def without_def)
  have n: "block_hash bytes_prims (AList.update ''tx_bytes'' (JInt n) ?g) \<noteq> block_hash bytes_prims ?g" for n
    by (simp add: block_hash_def create_genesis_def Let_def sha256_hex_def canonical_json_def bytes_prims_def
        without_def has_key_def utf8_encode_def tohex_inject)
  let ?cs = "\<lparr>cs_chain = [AList.update ''tx_bytes'' (JInt 0) ?g], cs_state = empty_state, cumulative_iterations = 0\<rparr>"
  from restart_breaks_hash[OF l c, of 0] g(2) h n have
    "hash_of (cs_chain ?cs ! 0) = hash_of ?g" "check_hash bytes_prims (cs_chain ?cs ! 0) = Inr (Some HashMismatch)" by simp_all
  with c l h show ?thesis by (intro exI[of _ ?K] exI[of _ st] exI[of _ ?cs] exI[of _ st]) blast
qed

end
