(* ===== verification/Mempool.thy ===== *)
theory Mempool
  imports Ledger
begin

text \<open>
  \<^verbatim>\<open>src/src/mempool.py\<close>: the pending transactions by hash, in insertion order, with the byte
  total and eviction by fee rate, and the read-through overlay a new transaction is validated
  against. \<^verbatim>\<open>time.monotonic()\<close> is the argument \<open>now\<close>. Transactions in the pool have been
  validated, so their fields are read with the total readers of \<^theory_text>\<open>Tx\<close>.
\<close>

definition MEMPOOL_TTL_SECONDS :: rat where "MEMPOOL_TTL_SECONDS = 30 * 60"

definition MEMPOOL_MAX_BYTES :: int where "MEMPOOL_MAX_BYTES = 10 * BLOCK_SIZE_LIMIT"

section \<open>The overlay\<close>

record overlay =
  base :: state
  ov_balances :: "(string, int) dict"
  ov_nonces :: "(string, int) dict"

definition overlay_of :: "state \<Rightarrow> overlay" where
  "overlay_of s = \<lparr>base = s, ov_balances = [], ov_nonces = []\<rparr>"

definition ov_get_balance :: "overlay \<Rightarrow> string \<Rightarrow> int" where
  "ov_get_balance v addr = (case map_of (ov_balances v) addr of
     None \<Rightarrow> get_balance (base v) addr | Some n \<Rightarrow> n)"

definition ov_get_nonce :: "overlay \<Rightarrow> string \<Rightarrow> int" where
  "ov_get_nonce v addr = (case map_of (ov_nonces v) addr of
     None \<Rightarrow> get_nonce (base v) addr | Some n \<Rightarrow> n)"

definition ov_total_board_posts :: "overlay \<Rightarrow> int" where
  "ov_total_board_posts v = total_board_posts (base v)"

definition ov_credit :: "overlay \<Rightarrow> string \<Rightarrow> int \<Rightarrow> overlay res" where
  "ov_credit v addr amount =
     (if amount \<le> 0 then Inl ValueError
      else Inr (v\<lparr>ov_balances := AList.update addr (ov_get_balance v addr + amount) (ov_balances v)\<rparr>))"

definition ov_debit :: "overlay \<Rightarrow> string \<Rightarrow> int \<Rightarrow> overlay res" where
  "ov_debit v addr amount =
     (if amount \<le> 0 then Inl ValueError
      else (let bal = ov_get_balance v addr in
        if bal < amount then Inl ValueError
        else Inr (v\<lparr>ov_balances := AList.update addr (bal - amount) (ov_balances v)\<rparr>)))"

definition ov_set_nonce :: "overlay \<Rightarrow> string \<Rightarrow> int \<Rightarrow> overlay" where
  "ov_set_nonce v addr nonce = v\<lparr>ov_nonces := AList.update addr nonce (ov_nonces v)\<rparr>"

definition ov_apply_tx :: "overlay \<Rightarrow> tx \<Rightarrow> overlay res" where
  "ov_apply_tx v t = rbind (read_tx t) (\<lambda>w. pay ov_debit ov_credit ov_set_nonce v w)"

section \<open>The pool\<close>

record entry =
  e_tx :: tx
  entered :: rat
  e_size :: int
  e_rate :: rat

definition mk_entry :: "prims \<Rightarrow> rat \<Rightarrow> tx \<Rightarrow> entry" where
  "mk_entry P now t = \<lparr>e_tx = t, entered = now, e_size = tx_size P t,
     e_rate = of_int (tx_fee t) / of_int (max (tx_size P t) 1)\<rparr>"

record mempool =
  pool :: "(string, entry) dict"
  total_bytes :: int

definition empty_mempool :: mempool where
  "empty_mempool = \<lparr>pool = [], total_bytes = 0\<rparr>"

datatype mempool_error = Duplicate | MempoolFull

definition mp_remove :: "mempool \<Rightarrow> string \<Rightarrow> mempool" where
  "mp_remove m h = (case map_of (pool m) h of
     None \<Rightarrow> m
   | Some e \<Rightarrow> m\<lparr>pool := AList.delete h (pool m), total_bytes := total_bytes m - e_size e\<rparr>)"

definition mp_remove_many :: "mempool \<Rightarrow> string list \<Rightarrow> mempool" where
  "mp_remove_many m hs = foldl mp_remove m hs"

text \<open>The eviction loop: the hashes to evict and the bytes they free.\<close>

fun evict_loop :: "int \<Rightarrow> rat \<Rightarrow> int \<Rightarrow> (string \<times> entry) list \<Rightarrow> string list \<times> int" where
  "evict_loop overflow rate freed [] = ([], freed)"
| "evict_loop overflow rate freed ((h, other) # rest) =
     (if freed \<ge> overflow then ([], freed)
      else if e_rate other \<ge> rate then ([], freed)
      else (let (hs, f) = evict_loop overflow rate (freed + e_size other) rest in (h # hs, f)))"

definition mp_add :: "prims \<Rightarrow> rat \<Rightarrow> mempool \<Rightarrow> tx \<Rightarrow> (mempool_error + string) \<times> mempool" where
  "mp_add P now m t =
     (let h = tx_hash P t in
      if has_key (pool m) h then (Inl Duplicate, m)
      else
        (let e = mk_entry P now t;
             overflow = total_bytes m + e_size e - MEMPOOL_MAX_BYTES;
             (to_evict, freed) =
               (if overflow > 0
                then evict_loop overflow (e_rate e) 0 (sort_key (\<lambda>(_, x). e_rate x) (pool m))
                else ([], 0))
         in if overflow > 0 \<and> freed < overflow then (Inl MempoolFull, m)
            else (let m' = mp_remove_many m to_evict
                  in (Inr h, m'\<lparr>pool := AList.update h e (pool m'),
                               total_bytes := total_bytes m' + e_size e\<rparr>))))"

definition mp_get :: "mempool \<Rightarrow> string \<Rightarrow> tx option" where
  "mp_get m h = map_option e_tx (map_of (pool m) h)"

definition mp_get_txs_by_hashes :: "mempool \<Rightarrow> string list \<Rightarrow> tx list" where
  "mp_get_txs_by_hashes m hs = List.map_filter (mp_get m) hs"

definition mp_size :: "mempool \<Rightarrow> nat" where
  "mp_size m = length (pool m)"

definition mp_all_txs :: "mempool \<Rightarrow> tx list" where
  "mp_all_txs m = map (\<lambda>(_, e). e_tx e) (pool m)"

definition mp_pending_nonce :: "mempool \<Rightarrow> json \<Rightarrow> int" where
  "mp_pending_nonce m addr =
     (let ns = map tx_nonce (filter (\<lambda>t. tx_from t = addr) (mp_all_txs m))
      in if ns \<noteq> [] then Max (set ns) else 0)"

definition pending_of :: "mempool \<Rightarrow> json \<Rightarrow> tx list" where
  "pending_of m addr = sort_key tx_nonce (filter (\<lambda>t. tx_from t = addr) (mp_all_txs m))"

definition probe_state_for :: "mempool \<Rightarrow> json \<Rightarrow> state \<Rightarrow> overlay res" where
  "probe_state_for m addr s = foldr_res ov_apply_tx (overlay_of s) (pending_of m addr)"

definition mp_pending_hashes :: "mempool \<Rightarrow> string set" where
  "mp_pending_hashes m = set (keys (pool m))"

definition tx_sender :: "tx \<Rightarrow> string" where
  "tx_sender t = (case tx_from t of JStr a \<Rightarrow> a | _ \<Rightarrow> [])"

definition mp_prune_stale :: "rat \<Rightarrow> rat \<Rightarrow> state \<Rightarrow> mempool \<Rightarrow> string list \<times> mempool" where
  "mp_prune_stale now ttl s m =
     (let pruned = map fst (filter (\<lambda>(_, e). tx_nonce (e_tx e) \<le> get_nonce s (tx_sender (e_tx e))
                                        \<or> now - entered e > ttl) (pool m))
      in (pruned, mp_remove_many m pruned))"

section \<open>The overlay is a ledger, and agrees with a copy of the State\<close>

definition overlay_inv :: "overlay \<Rightarrow> bool" where
  "overlay_inv v \<longleftrightarrow> wf_dict (ov_balances v) \<and> wf_dict (ov_nonces v)"

interpretation ovl: ledger ov_get_balance ov_get_nonce ov_credit ov_debit ov_set_nonce overlay_inv
  by unfold_locales
    (auto simp: ov_credit_def ov_debit_def ov_set_nonce_def overlay_inv_def ov_get_balance_def
      ov_get_nonce_def dict_simps Let_def fun_eq_iff split: option.splits)

text \<open>Two ledgers that read the same make the same payments, and raise on the same ones.\<close>

locale ledger_pair =
  one: ledger bal1 non1 cr1 db1 sn1 inv1 + two: ledger bal2 non2 cr2 db2 sn2 inv2
  for bal1 :: "'a \<Rightarrow> string \<Rightarrow> int" and non1 cr1 db1 sn1 inv1
    and bal2 :: "'b \<Rightarrow> string \<Rightarrow> int" and non2 cr2 db2 sn2 inv2
begin

definition same :: "'a \<Rightarrow> 'b \<Rightarrow> bool" where
  "same s t \<longleftrightarrow> inv1 s \<and> inv2 t \<and> bal1 s = bal2 t \<and> non1 s = non2 t"

definition same_res :: "'a res \<Rightarrow> 'b res \<Rightarrow> bool" where
  "same_res r q \<longleftrightarrow> (case r of Inl e \<Rightarrow> q = Inl e | Inr s \<Rightarrow> (\<exists>t. q = Inr t \<and> same s t))"

lemma same_res_bind:
  "same_res r q \<Longrightarrow> (\<And>s t. same s t \<Longrightarrow> same_res (f s) (g t)) \<Longrightarrow> same_res (rbind r f) (rbind q g)"
proof (cases r)
  case (Inr s)
  assume "same_res r q" and fg: "\<And>s t. same s t \<Longrightarrow> same_res (f s) (g t)"
  with Inr obtain t where "q = Inr t" "same s t" by (auto simp: same_res_def)
  with Inr fg show ?thesis by simp
qed (simp add: same_res_def)

lemma cr_same: "same s t \<Longrightarrow> same_res (cr1 s a n) (cr2 t a n)"
proof (cases "0 < n")
  case True
  assume st: "same s t"
  with True one.cr_ok[of s n a] two.cr_ok[of t n a] show ?thesis
    by (fastforce simp: same_def same_res_def)
qed (simp add: one.cr_bad two.cr_bad same_res_def)

lemma db_same: "same s t \<Longrightarrow> same_res (db1 s a n) (db2 t a n)"
proof (cases "0 < n \<and> n \<le> bal1 s a")
  case True
  assume st: "same s t"
  with True one.db_ok[of s n a] two.db_ok[of t n a] show ?thesis
    by (fastforce simp: same_def same_res_def)
next
  case False
  assume "same s t"
  with False one.db_bad[of n s a] two.db_bad[of n t a] show ?thesis
    by (auto simp: same_def same_res_def not_less)
qed

lemma credit_all_same: "same s t \<Longrightarrow> same_res (credit_all cr1 s outs) (credit_all cr2 t outs)"
proof (induction outs arbitrary: s t)
  case (Cons p outs)
  then show ?case
    by (cases p) (auto simp: credit_all_def intro!: same_res_bind cr_same)
qed (simp add: credit_all_def same_res_def)

lemma sn_same: "same s t \<Longrightarrow> same (sn1 s a k) (sn2 t a k)"
  by (simp add: same_def one.sn_inv two.sn_inv one.sn_bal two.sn_bal one.sn_non two.sn_non)

lemma pay_same: "same s t \<Longrightarrow> same_res (pay db1 cr1 sn1 s v) (pay db2 cr2 sn2 t v)"
  unfolding pay_def
  by (intro same_res_bind db_same credit_all_same) (auto simp: same_res_def intro: sn_same)

end

interpretation ovp: ledger_pair ov_get_balance ov_get_nonce ov_credit ov_debit ov_set_nonce overlay_inv
  get_balance get_nonce credit debit set_nonce state_inv
  by unfold_locales

lemma ov_apply_same:
  assumes "ovp.same v s"
  shows "ovp.same_res (ov_apply_tx v t) (apply_tx s t)"
proof -
  have "ovp.same_res (rbind (read_tx t) (\<lambda>w. pay ov_debit ov_credit ov_set_nonce v w))
      (rbind (read_tx t) (\<lambda>w. rbind (pay debit credit set_nonce s w) (\<lambda>s'.
        Inr (if is_board_post t then s'\<lparr>total_board_posts := total_board_posts s' + 1\<rparr> else s'))))"
  proof (cases "read_tx t")
    case (Inr w)
    from ovp.pay_same[OF assms, of w] show ?thesis
      by (cases "pay ov_debit ov_credit ov_set_nonce v w")
        (auto simp: ovp.same_res_def ovp.same_def Inr)
  qed (simp add: ovp.same_res_def)
  then show ?thesis by (simp only: ov_apply_tx_def apply_tx_def)
qed

lemma ov_apply_all_same:
  "ovp.same v s \<Longrightarrow> ovp.same_res (foldr_res ov_apply_tx v ts) (foldr_res apply_tx s ts)"
proof (induction ts arbitrary: v s)
  case (Cons t ts)
  then show ?case by (auto intro!: ovp.same_res_bind ov_apply_same)
qed (simp add: ovp.same_res_def)

lemma ov_pay_base:
  assumes "pay ov_debit ov_credit ov_set_nonce v w = Inr v'"
  shows "base v' = base v"
proof -
  from assms obtain v1 v2 where v: "ov_debit v (t_from w) (outs_total (t_outs w) + t_fee w) = Inr v1"
      "foldr_res (\<lambda>s (a, n). ov_credit s a n) v1 (t_outs w) = Inr v2"
      "v' = ov_set_nonce v2 (t_from w) (t_nonce w)"
    by (auto simp: pay_def credit_all_def rbind_Inr_conv)
  have "base v2 = base v1"
    by (rule foldr_res_invariant[OF v(2), where I = "\<lambda>x. base x = base v1"])
      (auto simp: ov_credit_def split: if_splits)
  with v(1,3) show ?thesis by (auto simp: ov_debit_def ov_set_nonce_def Let_def split: if_splits)
qed

lemma probe_base: "probe_state_for m addr s = Inr v \<Longrightarrow> base v = s"
  unfolding probe_state_for_def
  by (erule foldr_res_invariant[where I = "\<lambda>x. base x = s"])
    (auto simp: overlay_of_def ov_apply_tx_def rbind_Inr_conv dest!: ov_pay_base)

lemma overlay_of_same: "state_inv s \<Longrightarrow> ovp.same (overlay_of s) s"
  by (simp add: ovp.same_def overlay_of_def overlay_inv_def ov_get_balance_def ov_get_nonce_def fun_eq_iff)


section \<open>Eviction\<close>

text \<open>
  The pool's invariant: keys are the transactions' hashes, each entry carries its true size and
  rate, and the byte total is the sum of the sizes.
\<close>

definition entry_ok :: "prims \<Rightarrow> string \<times> entry \<Rightarrow> bool" where
  "entry_ok P p = (case p of (h, e) \<Rightarrow> h = tx_hash P (e_tx e) \<and> e_size e = tx_size P (e_tx e)
     \<and> e_rate e = fee_rate P (e_tx e))"

definition mempool_inv :: "prims \<Rightarrow> mempool \<Rightarrow> bool" where
  "mempool_inv P m \<longleftrightarrow> wf_dict (pool m) \<and> (\<forall>p\<in>set (pool m). entry_ok P p)
     \<and> total_bytes m = dict_sum e_size (pool m)"

lemma mp_remove_inv [intro]:
  assumes "mempool_inv P m"
  shows "mempool_inv P (mp_remove m h)"
proof (cases "map_of (pool m) h")
  case (Some e)
  with assms set_delete_subset[of h "pool m"] show ?thesis
    by (auto simp: mempool_inv_def mp_remove_def dict_sum_delete)
qed (use assms in \<open>simp add: mp_remove_def\<close>)

lemma mp_remove_many_inv [intro]: "mempool_inv P m \<Longrightarrow> mempool_inv P (mp_remove_many m hs)"
  unfolding mp_remove_many_def by (induction hs arbitrary: m) auto

lemma mp_remove_pool [simp]: "pool (mp_remove m h) = AList.delete h (pool m)"
proof (cases "map_of (pool m) h")
  case None
  then have "\<not> has_key (pool m) h" by (simp add: dict_simps)
  with None show ?thesis by (simp add: mp_remove_def delete_notin)
qed (simp add: mp_remove_def)

lemma mp_remove_many_pool: "pool (mp_remove_many m hs) = filter (\<lambda>(k, _). k \<notin> set hs) (pool m)"
  unfolding mp_remove_many_def
proof (induction hs arbitrary: m)
  case (Cons h hs)
  then show ?case
    by (auto simp: AList.delete_eq intro: filter_cong)
qed (simp add: case_prod_unfold)

lemma evict_loop_take:
  assumes "evict_loop overflow rate freed es = (hs, f)"
  shows "\<exists>n \<le> length es. hs = map fst (take n es) \<and> f = freed + dict_sum e_size (take n es)
    \<and> (\<forall>(h, e)\<in>set (take n es). e_rate e < rate)
    \<and> (overflow \<le> f \<or> n = length es \<or> rate \<le> e_rate (snd (es ! n)))"
  using assms
proof (induction overflow rate freed es arbitrary: hs rule: evict_loop.induct)
  case (2 overflow rate freed h other rest)
  show ?case
  proof (cases "freed \<ge> overflow \<or> e_rate other \<ge> rate")
    case True
    with 2(2) show ?thesis by (intro exI[of _ 0]) (auto split: if_splits)
  next
    case False
    then obtain hs' where hs': "evict_loop overflow rate (freed + e_size other) rest = (hs', f)"
        "hs = h # hs'"
      using 2(2) by (auto split: prod.splits)
    from False have "\<not> freed \<ge> overflow" "\<not> e_rate other \<ge> rate" by auto
    from 2(1)[OF this hs'(1)] obtain n where "n \<le> length rest" "hs' = map fst (take n rest)"
        "f = freed + e_size other + dict_sum e_size (take n rest)"
        "\<forall>(h, e)\<in>set (take n rest). e_rate e < rate"
        "overflow \<le> f \<or> n = length rest \<or> rate \<le> e_rate (snd (rest ! n))" by blast
    with False hs'(2) show ?thesis by (intro exI[of _ "Suc n"]) auto
  qed
qed auto

lemma dict_sum_mset: "mset d = mset d' \<Longrightarrow> dict_sum f d = dict_sum f d'"
  unfolding dict_sum_def by (metis mset_map sum_mset_sum_list)

lemma filter_take_keys:
  assumes "distinct (map fst es)"
  shows "filter (\<lambda>(k, _). k \<notin> set (map fst (take n es))) es = drop n es"
proof -
  have d: "set (map fst (take n es)) \<inter> set (map fst (drop n es)) = {}"
    using assms by (metis append_take_drop_id distinct_append map_append)
  let ?P = "\<lambda>(k, _). k \<notin> set (map fst (take n es))"
  have "filter ?P (take n es) = []" by (force simp: filter_empty_conv)
  moreover have "filter ?P (drop n es) = drop n es"
  proof (rule filter_True, rule ballI)
    fix p assume "p \<in> set (drop n es)"
    then have "fst p \<in> set (map fst (drop n es))" by simp
    with d have "fst p \<notin> set (map fst (take n es))" by blast
    then show "?P p" by (simp add: case_prod_unfold)
  qed
  ultimately have "filter ?P (take n es @ drop n es) = drop n es" unfolding filter_append by simp
  then show ?thesis by simp
qed

text \<open>What evicting a prefix of the sorted pool leaves, and how many bytes that is.\<close>

lemma evicted_rest:
  assumes "mempool_inv P m" "es = sort_key (\<lambda>(_, x). e_rate x) (pool m)" "hs = map fst (take n es)"
  shows "mset (pool (mp_remove_many m hs)) = mset (drop n es)"
    "total_bytes (mp_remove_many m hs) = total_bytes m - dict_sum e_size (take n es)"
proof -
  have "distinct (map fst (pool m))" using assms(1) by (simp add: mempool_inv_def)
  then have d: "distinct (map fst es)"
    using assms(2) by (metis mset_map mset_sort mset_eq_imp_distinct_iff)
  have "mset (pool (mp_remove_many m hs)) = filter_mset (\<lambda>(k, _). k \<notin> set hs) (mset es)"
    by (simp add: mp_remove_many_pool assms(2))
  also have "\<dots> = mset (filter (\<lambda>(k, _). k \<notin> set hs) es)" by simp
  also have "filter (\<lambda>(k, _). k \<notin> set hs) es = drop n es"
    unfolding assms(3) by (rule filter_take_keys[OF d])
  finally show m: "mset (pool (mp_remove_many m hs)) = mset (drop n es)" .
  have "total_bytes (mp_remove_many m hs) = dict_sum e_size (drop n es)"
    using mp_remove_many_inv[OF assms(1), of hs] dict_sum_mset[OF m] by (simp add: mempool_inv_def)
  also have "\<dots> = dict_sum e_size es - dict_sum e_size (take n es)"
    by (metis add_diff_cancel_left' append_take_drop_id dict_sum_simps(3))
  also have "dict_sum e_size es = total_bytes m"
    using assms(1,2) dict_sum_mset[of es "pool m" e_size] by (simp add: mempool_inv_def)
  finally show "total_bytes (mp_remove_many m hs) = total_bytes m - dict_sum e_size (take n es)" .
qed

lemma mk_entry_ok: "entry_ok P (tx_hash P t, mk_entry P now t)"
  by (simp add: entry_ok_def mk_entry_def fee_rate_def)

lemma has_key_mset: "mset d = mset d' \<Longrightarrow> has_key d k = has_key d' k"
  unfolding has_key_def by (metis mset_map set_mset_mset)

lemma insert_inv:
  assumes "mempool_inv P m" "\<not> has_key (pool m) (tx_hash P t)"
  shows "mempool_inv P (m\<lparr>pool := AList.update (tx_hash P t) (mk_entry P now t) (pool m),
    total_bytes := total_bytes m + tx_size P t\<rparr>)"
proof -
  from assms(2) have "map_of (pool m) (tx_hash P t) = None" by (simp add: has_key_map_of)
  then have "(case map_of (pool m) (tx_hash P t) of None \<Rightarrow> 0 | Some x \<Rightarrow> e_size x) = 0" by simp
  moreover have "e_size (mk_entry P now t) = tx_size P t" by (simp add: mk_entry_def)
  moreover have "AList.update (tx_hash P t) (mk_entry P now t) (pool m)
      = pool m @ [(tx_hash P t, mk_entry P now t)]"
    by (rule update_notin[OF assms(2)])
  ultimately show ?thesis
    using assms mk_entry_ok[of P t now] by (auto simp: mempool_inv_def has_key_def)
qed

text \<open>The three outcomes of \<^verbatim>\<open>Mempool.add\<close>.\<close>

lemma mp_add_cases:
  assumes inv: "mempool_inv P m"
  obtains (dup) "has_key (pool m) (tx_hash P t)" "mp_add P now m t = (Inl Duplicate, m)"
  | (full) n where "\<not> has_key (pool m) (tx_hash P t)" "mp_add P now m t = (Inl MempoolFull, m)"
      "total_bytes m + tx_size P t - dict_sum e_size (take n (sort_key (\<lambda>(_, x). e_rate x) (pool m)))
        > MEMPOOL_MAX_BYTES"
      "n \<le> length (pool m)"
      "\<forall>(h, e)\<in>set (take n (sort_key (\<lambda>(_, x). e_rate x) (pool m))). e_rate e < fee_rate P t"
      "n = length (pool m) \<or> fee_rate P t \<le> e_rate (snd (sort_key (\<lambda>(_, x). e_rate x) (pool m) ! n))"
  | (added) n m1 m' where "\<not> has_key (pool m) (tx_hash P t)" "mp_add P now m t = (Inr (tx_hash P t), m')"
      "n \<le> length (pool m)"
      "\<forall>(h, e)\<in>set (take n (sort_key (\<lambda>(_, x). e_rate x) (pool m))). e_rate e < fee_rate P t"
      "m1 = mp_remove_many m (map fst (take n (sort_key (\<lambda>(_, x). e_rate x) (pool m))))"
      "m' = m1\<lparr>pool := AList.update (tx_hash P t) (mk_entry P now t) (pool m1),
               total_bytes := total_bytes m1 + tx_size P t\<rparr>"
      "total_bytes m1 + tx_size P t \<le> MEMPOOL_MAX_BYTES"
proof (cases "has_key (pool m) (tx_hash P t)")
  case True
  then show thesis by (intro dup) (simp_all add: mp_add_def)
next
  case False
  define es where "es = sort_key (\<lambda>(_, x). e_rate x) (pool m)"
  define ov where "ov = total_bytes m + tx_size P t - MEMPOOL_MAX_BYTES"
  have e: "e_size (mk_entry P now t) = tx_size P t" "e_rate (mk_entry P now t) = fee_rate P t"
    by (simp_all add: mk_entry_def fee_rate_def)
  show thesis
  proof (cases "ov > 0")
    case noov: False
    with False show thesis
      by (intro added[OF _ _ _ _ refl refl, where n = 0]) (simp_all add: mp_add_def e ov_def mp_remove_many_def Let_def)
  next
    case True
    obtain hs f where hf: "evict_loop ov (fee_rate P t) 0 es = (hs, f)" by fastforce
    from evict_loop_take[OF hf] obtain n where n: "n \<le> length es" "hs = map fst (take n es)"
        "f = dict_sum e_size (take n es)" "\<forall>(h, e)\<in>set (take n es). e_rate e < fee_rate P t"
        "ov \<le> f \<or> n = length es \<or> fee_rate P t \<le> e_rate (snd (es ! n))" by auto
    have len: "length es = length (pool m)" by (simp add: es_def)
    have r: "mp_add P now m t = (if f < ov then (Inl MempoolFull, m)
        else (Inr (tx_hash P t), (mp_remove_many m hs)
          \<lparr>pool := AList.update (tx_hash P t) (mk_entry P now t) (pool (mp_remove_many m hs)),
           total_bytes := total_bytes (mp_remove_many m hs) + tx_size P t\<rparr>))"
      using True False hf by (simp add: mp_add_def Let_def e es_def ov_def)
    show thesis
    proof (cases "f < ov")
      case True
      with False r n len show thesis by (intro full[where n = n]) (auto simp: es_def[symmetric] ov_def)
    next
      case f: False
      have "total_bytes (mp_remove_many m hs) = total_bytes m - f"
        using evicted_rest(2)[OF inv es_def n(2)] n(3) by simp
      with f have "total_bytes (mp_remove_many m hs) + tx_size P t \<le> MEMPOOL_MAX_BYTES"
        by (simp add: ov_def)
      with False f r n len show thesis
        by (intro added[where n = n, OF _ _ _ _ refl refl]) (auto simp: es_def[symmetric] n(2))
    qed
  qed
qed

text \<open>In a sorted list, the entries below a bound are a prefix.\<close>

lemma filter_below_take:
  fixes f :: "'x \<Rightarrow> rat"
  assumes "sorted (map f xs)" "\<forall>x\<in>set (take n xs). f x < r" "n \<ge> length xs \<or> r \<le> f (xs ! n)"
  shows "filter (\<lambda>x. f x < r) xs = take n xs"
  using assms
proof (induction xs arbitrary: n)
  case (Cons x xs)
  show ?case
  proof (cases n)
    case 0
    with Cons.prems have "r \<le> f x" by auto
    moreover have "\<forall>y\<in>set xs. f x \<le> f y" using Cons.prems(1) by simp
    ultimately have "\<forall>y\<in>set (x # xs). \<not> f y < r" by fastforce
    with 0 show ?thesis by (simp add: filter_empty_conv)
  next
    case (Suc k)
    with Cons.prems have "f x < r" "filter (\<lambda>x. f x < r) xs = take k xs"
      by (auto intro!: Cons.IH)
    with Suc show ?thesis by simp
  qed
qed simp

lemma mp_add_effect:
  assumes inv: "mempool_inv P m" and "total_bytes m \<le> MEMPOOL_MAX_BYTES"
  shows "case mp_add P now m t of (r, m') \<Rightarrow>
     mempool_inv P m' \<and> total_bytes m' \<le> MEMPOOL_MAX_BYTES \<and>
     (case r of
        Inl Duplicate \<Rightarrow> m' = m \<and> has_key (pool m) (tx_hash P t)
      | Inl MempoolFull \<Rightarrow> m' = m \<and> MEMPOOL_MAX_BYTES < total_bytes m + tx_size P t
          - dict_sum e_size (filter (\<lambda>(_, e). e_rate e < fee_rate P t) (pool m))
      | Inr h \<Rightarrow> h = tx_hash P t \<and> map_of (pool m') h = Some (mk_entry P now t)
          \<and> (\<forall>(k, e)\<in>set (pool m). (k, e) \<in> set (pool m')
               \<or> (e_rate e < fee_rate P t \<and> (\<forall>(k', e')\<in>set (pool m'). e_rate e \<le> e_rate e'))))"
  using inv
proof (cases rule: mp_add_cases[where t = t and now = now])
  case dup
  with assms show ?thesis by simp
next
  case (full n)
  let ?es = "sort_key (\<lambda>(_, x). e_rate x) (pool m)"
  have "filter (\<lambda>p. (case p of (_, e) \<Rightarrow> e_rate e) < fee_rate P t) ?es = take n ?es"
    using full(4,5,6) by (intro filter_below_take) (auto simp: case_prod_unfold)
  then have "dict_sum e_size (filter (\<lambda>(_, e). e_rate e < fee_rate P t) ?es)
      = dict_sum e_size (take n ?es)" by (simp add: case_prod_unfold)
  moreover have "mset (filter (\<lambda>(_, e). e_rate e < fee_rate P t) ?es)
      = mset (filter (\<lambda>(_, e). e_rate e < fee_rate P t) (pool m))" by simp
  ultimately have "dict_sum e_size (filter (\<lambda>(_, e). e_rate e < fee_rate P t) (pool m))
      = dict_sum e_size (take n ?es)" using dict_sum_mset by metis
  with full assms show ?thesis by simp
next
  case (added n m1 m')
  let ?es = "sort_key (\<lambda>(_, x). e_rate x) (pool m)"
  let ?e = "mk_entry P now t"
  have m1: "mset (pool m1) = mset (drop n ?es)"
    unfolding added(5) by (rule evicted_rest(1)[OF inv refl refl])
  have i1: "mempool_inv P m1" using inv added(5) by auto
  have nk: "\<not> has_key (pool m1) (tx_hash P t)"
    using added(1,5) by (auto simp: has_key_def mp_remove_many_pool)
  have p': "pool m' = pool m1 @ [(tx_hash P t, ?e)]"
    using added(6) update_notin[OF nk] by simp
  have i': "mempool_inv P m'" using insert_inv[OF i1 nk] added(6) by simp
  have r: "e_rate ?e = fee_rate P t" by (simp add: mk_entry_def fee_rate_def)
  have srt: "sorted (map (\<lambda>(_, x). e_rate x) (take n ?es @ drop n ?es))"
    by (simp only: append_take_drop_id sorted_sort_key)
  have old: "(k, e) \<in> set (pool m') \<or> (e_rate e < fee_rate P t
      \<and> (\<forall>(k', e')\<in>set (pool m'). e_rate e \<le> e_rate e'))" if "(k, e) \<in> set (pool m)" for k e
  proof -
    from that have "(k, e) \<in> set (take n ?es @ drop n ?es)" by simp
    then consider "(k, e) \<in> set (take n ?es)" | "(k, e) \<in> set (drop n ?es)" by (auto simp del: append_take_drop_id)
    then show ?thesis
    proof cases
      case 1
      with added(4) have lt: "e_rate e < fee_rate P t" by auto
      have "e_rate e \<le> e_rate e'" if "(k', e') \<in> set (drop n ?es)" for k' e'
        using srt 1 that unfolding map_append sorted_append by fastforce
      with lt m1 p' r show ?thesis by (auto dest!: mset_eq_setD)
    next
      case 2
      with m1 p' show ?thesis by (metis Un_iff mset_eq_setD set_append)
    qed
  qed
  have e: "map_of (pool m') (tx_hash P t) = Some ?e" "total_bytes m' \<le> MEMPOOL_MAX_BYTES"
    using added(6,7) by (simp_all add: map_of_update_iff)
  have "\<forall>(k, e)\<in>set (pool m). (k, e) \<in> set (pool m') \<or> (e_rate e < fee_rate P t
      \<and> (\<forall>(k', e')\<in>set (pool m'). e_rate e \<le> e_rate e'))" using old by fast
  with i' e show ?thesis unfolding added(2) by simp
qed

text \<open>C6: Adding to a pool within its byte limit keeps it within the limit and its index exact
  (keys are hashes, sizes and rates are the transactions', the byte total is their sum). A duplicate
  or refused transaction leaves the pool as it was. An accepted one is stored, every entry that
  is gone paid a strictly lower fee rate than the newcomer and no more than any entry that stayed; a
  refusal means that evicting every strictly cheaper entry would not have made enough room.\<close>

theorem mp_add_evicts_cheapest:
  assumes inv: "mempool_inv P m" and "total_bytes m \<le> MEMPOOL_MAX_BYTES"
  shows "case mp_add P now m t of (r, m') \<Rightarrow>
     mempool_inv P m' \<and> total_bytes m' \<le> MEMPOOL_MAX_BYTES \<and>
     (case r of
        Inl Duplicate \<Rightarrow> m' = m \<and> has_key (pool m) (tx_hash P t)
      | Inl MempoolFull \<Rightarrow> m' = m \<and> MEMPOOL_MAX_BYTES < total_bytes m + tx_size P t
          - dict_sum e_size (filter (\<lambda>(_, e). e_rate e < fee_rate P t) (pool m))
      | Inr h \<Rightarrow> h = tx_hash P t \<and> map_of (pool m') h = Some (mk_entry P now t)
          \<and> (\<forall>(k, e)\<in>set (pool m). (k, e) \<in> set (pool m')
               \<or> (e_rate e < fee_rate P t \<and> (\<forall>(k', e')\<in>set (pool m'). e_rate e \<le> e_rate e'))))"
  using assms by (rule mp_add_effect)

text \<open>Pruning drops exactly the transactions whose nonce is used up on the chain or that are
  older than the time limit, keeps the order and the entries of the rest, reports the dropped hashes,
  and keeps the index exact.\<close>

theorem prune_stale_exact:
  assumes "mempool_inv P m"
  shows "case mp_prune_stale now ttl s m of (pruned, m') \<Rightarrow>
     mempool_inv P m'
   \<and> pool m' = filter (\<lambda>(_, e). get_nonce s (tx_sender (e_tx e)) < tx_nonce (e_tx e)
                               \<and> now - entered e \<le> ttl) (pool m)
   \<and> set (keys (pool m)) = set pruned \<union> set (keys (pool m'))
   \<and> set pruned \<inter> set (keys (pool m')) = {}"
proof -
  let ?stale = "\<lambda>(_, e). tx_nonce (e_tx e) \<le> get_nonce s (tx_sender (e_tx e)) \<or> now - entered e > ttl"
  let ?pr = "map fst (filter ?stale (pool m))"
  have d: "wf_dict (pool m)" using assms by (simp add: mempool_inv_def)
  have "k \<in> set ?pr \<longleftrightarrow> ?stale (k, e)" if "(k, e) \<in> set (pool m)" for k e
    using key_filter_iff[OF d that] .
  then have st: "\<forall>(k, e)\<in>set (pool m). k \<in> set ?pr \<longleftrightarrow> ?stale (k, e)" by blast
  have p: "pool (mp_remove_many m ?pr) = filter (\<lambda>(_, e). get_nonce s (tx_sender (e_tx e)) < tx_nonce (e_tx e)
      \<and> now - entered e \<le> ttl) (pool m)"
    unfolding mp_remove_many_pool
  proof (intro filter_cong refl)
    fix p assume "p \<in> set (pool m)"
    with st obtain k e where "p = (k, e)" "k \<in> set ?pr \<longleftrightarrow> ?stale (k, e)" by (cases p) blast
    then show "(case p of (k, _) \<Rightarrow> k \<notin> set ?pr) = (case p of (_, e) \<Rightarrow>
        get_nonce s (tx_sender (e_tx e)) < tx_nonce (e_tx e) \<and> now - entered e \<le> ttl)"
      by (simp only: prod.case not_le not_less de_Morgan_disj)
  qed
  have "set ?pr \<subseteq> set (keys (pool m))" by auto
  from keys_split[OF this] have "set (keys (pool m)) = set ?pr \<union> set (keys (pool (mp_remove_many m ?pr)))"
    "set ?pr \<inter> set (keys (pool (mp_remove_many m ?pr))) = {}"
    unfolding mp_remove_many_pool by simp_all
  with assms p show ?thesis
    by (simp add: mp_prune_stale_def Let_def mp_remove_many_inv)
qed

section \<open>Examples\<close>

definition demo_pool :: mempool where
  "demo_pool = \<lparr>pool = [(tx_hash demo_prims (demo_tx 1 5), mk_entry demo_prims 0 (demo_tx 1 5))],
     total_bytes = tx_size demo_prims (demo_tx 1 5)\<rparr>"

lemma demo_tx_size: "tx_size demo_prims (demo_tx 1 5) = 122"
  by code_simp

lemma demo_pool_inv: "mempool_inv demo_prims demo_pool" "total_bytes demo_pool = 122"
  using mk_entry_ok[of demo_prims "demo_tx 1 5" 0]
  by (simp_all add: mempool_inv_def demo_pool_def demo_tx_size mk_entry_def)


theorem mp_add_evicts_cheapest_witness:
  "mempool_inv demo_prims (snd (mp_add demo_prims 1 demo_pool (demo_tx 2 5)))
   \<and> total_bytes (snd (mp_add demo_prims 1 demo_pool (demo_tx 2 5))) \<le> MEMPOOL_MAX_BYTES"
proof -
  have "total_bytes demo_pool \<le> MEMPOOL_MAX_BYTES"
    by (simp add: demo_pool_inv MEMPOOL_MAX_BYTES_def BLOCK_SIZE_LIMIT_def)
  from mp_add_evicts_cheapest[OF demo_pool_inv(1) this, where now = 1 and t = "demo_tx 2 5"] show ?thesis
    by (simp add: case_prod_unfold)
qed

theorem prune_stale_exact_witness:
  "pool (snd (mp_prune_stale 5 10 (set_nonce demo_state (demo_addr CHR ''a'') 1) demo_pool)) = []"
proof -
  have "get_nonce (set_nonce demo_state (demo_addr CHR ''a'') 1) (demo_addr CHR ''a'') = 1"
    by (simp add: get_nonce_def get_or_def set_nonce_def demo_state_def)
  then show ?thesis
    using prune_stale_exact[OF demo_pool_inv(1), where now = 5 and ttl = 10 and s = "set_nonce demo_state (demo_addr CHR ''a'') 1"]
    by (auto simp: case_prod_unfold demo_pool_def mk_entry_def demo_tx_def tx_nonce_def tx_sender_def
        tx_from_def jget_def get_or_def)
qed

end
