(* ===== verification/Gossip.thy ===== *)
theory Gossip
  imports Params
begin

text \<open>
  \<^verbatim>\<open>src/src/gossip.py\<close>: one stem/fluff mechanism for every kind of item. The LRU caches of
  cachetools are a parameter, their three operations (\<open>cache_ops\<close>); so are the peers that
  \<^verbatim>\<open>pool.get_all()\<close> returns, the random fraction and the random choice. What is handed to the
  transport comes back as a list of sends, one per \<^verbatim>\<open>udp.send_*\<close> call.
\<close>

definition SEEN_CACHE_SIZE :: nat where "SEEN_CACHE_SIZE = 50000"
definition ORDER_SEEN_CACHE_SIZE :: nat where "ORDER_SEEN_CACHE_SIZE = 20000"
definition FILL_REQUEST_SEEN_CACHE_SIZE :: nat where "FILL_REQUEST_SEEN_CACHE_SIZE = 5000"
definition FILL_RESPONSE_SEEN_CACHE_SIZE :: nat where "FILL_RESPONSE_SEEN_CACHE_SIZE = 5000"
definition STEM_CONTINUE_PROB :: rat where "STEM_CONTINUE_PROB = 9 / 10"

definition KIND_BLOCK :: string where "KIND_BLOCK = ''block''"
definition KIND_TX :: string where "KIND_TX = ''tx''"
definition KIND_ORDER :: string where "KIND_ORDER = ''order''"
definition KIND_FILL_REQUEST :: string where "KIND_FILL_REQUEST = ''fill_request''"
definition KIND_FILL_RESPONSE :: string where "KIND_FILL_RESPONSE = ''fill_response''"

lemmas kind_defs = KIND_BLOCK_def KIND_TX_def KIND_ORDER_def KIND_FILL_REQUEST_def KIND_FILL_RESPONSE_def

definition SEEN_CACHE_SIZES :: "(string, nat) dict" where
  "SEEN_CACHE_SIZES = [(KIND_BLOCK, SEEN_CACHE_SIZE), (KIND_TX, SEEN_CACHE_SIZE),
     (KIND_ORDER, ORDER_SEEN_CACHE_SIZE), (KIND_FILL_REQUEST, FILL_REQUEST_SEEN_CACHE_SIZE),
     (KIND_FILL_RESPONSE, FILL_RESPONSE_SEEN_CACHE_SIZE)]"

record 'c cache_ops =
  c_new :: "nat \<Rightarrow> 'c"
  c_mem :: "'c \<Rightarrow> string \<Rightarrow> bool"
  c_put :: "'c \<Rightarrow> string \<Rightarrow> 'c"

datatype transport = SendBlock | SendTx | SendOrder | SendFillRequest | SendFillResponse

record 'i send =
  s_method :: transport
  s_item :: 'i
  s_peers :: "string list"
  s_stemming :: bool

type_synonym 'c seen = "(string, 'c) dict"

definition gossip_init :: "'c cache_ops \<Rightarrow> 'c seen" where
  "gossip_init C = map (\<lambda>(kind, size). (kind, c_new C size)) SEEN_CACHE_SIZES"

text \<open>A fraction of the 53 random bits.\<close>

definition random_fraction :: "nat \<Rightarrow> rat" where
  "random_fraction bits = of_nat bits / 2 ^ 53"

definition mark_seen :: "'c cache_ops \<Rightarrow> 'c seen \<Rightarrow> string \<Rightarrow> string \<Rightarrow> (bool \<times> 'c seen) res" where
  "mark_seen C g h kind =
     (case map_of g kind of
        None \<Rightarrow> Inl (KeyError kind)
      | Some cache \<Rightarrow>
          if c_mem C cache h then Inr (True, g)
          else Inr (False, AList.update kind (c_put C cache h) g))"

definition gossip_send :: "'i \<Rightarrow> string \<Rightarrow> string list \<Rightarrow> bool \<Rightarrow> 'i send list res" where
  "gossip_send item kind peers stemming =
     (let via = (\<lambda>m. Inr [\<lparr>s_method = m, s_item = item, s_peers = peers, s_stemming = stemming\<rparr>]) in
      if kind = KIND_BLOCK then via SendBlock
      else if kind = KIND_ORDER then via SendOrder
      else if kind = KIND_FILL_REQUEST then via SendFillRequest
      else if kind = KIND_FILL_RESPONSE then via SendFillResponse
      else if kind = KIND_TX then via SendTx
      else Inl ValueError)"

definition fluff :: "'c cache_ops \<Rightarrow> string list \<Rightarrow> 'i \<Rightarrow> string \<Rightarrow> string \<Rightarrow> string option \<Rightarrow> 'c seen
    \<Rightarrow> ('i send list \<times> 'c seen) res" where
  "fluff C all_peers item kind h exclude g =
     rbind (mark_seen C g h kind) (\<lambda>(seen, g').
       if seen then Inr ([], g')
       else (let peers = filter (\<lambda>p. Some p \<noteq> exclude) all_peers in
             if peers = [] then Inr ([], g')
             else rbind (gossip_send item kind peers False) (\<lambda>ss. Inr (ss, g'))))"

text \<open>\<open>pick\<close> is \<^verbatim>\<open>secrets.choice\<close>.\<close>

definition stem_peer :: "(string list \<Rightarrow> string) \<Rightarrow> string list \<Rightarrow> string option \<Rightarrow> string option" where
  "stem_peer pick all_peers predecessor =
     (let peers = filter (\<lambda>p. Some p \<noteq> predecessor) all_peers in
      if peers \<noteq> [] then Some (pick peers) else None)"

definition forward :: "'c cache_ops \<Rightarrow> (string list \<Rightarrow> string) \<Rightarrow> nat \<Rightarrow> string list \<Rightarrow> 'i \<Rightarrow> string \<Rightarrow> string
    \<Rightarrow> string option \<Rightarrow> 'c seen \<Rightarrow> (string option \<times> 'i send list \<times> 'c seen) res" where
  "forward C pick bits all_peers item kind h predecessor g =
     (let stem = (if random_fraction bits < STEM_CONTINUE_PROB
                  then stem_peer pick all_peers predecessor else None)
      in case stem of
           Some peer \<Rightarrow> rbind (gossip_send item kind [peer] True) (\<lambda>ss. Inr (Some peer, ss, g))
         | None \<Rightarrow> rbind (fluff C all_peers item kind h None g) (\<lambda>(ss, g'). Inr (None, ss, g')))"

definition spread :: "'c cache_ops \<Rightarrow> (string list \<Rightarrow> string) \<Rightarrow> nat \<Rightarrow> string list \<Rightarrow> 'i \<Rightarrow> string \<Rightarrow> string
    \<Rightarrow> 'c seen \<Rightarrow> (string option \<times> 'i send list \<times> 'c seen) res" where
  "spread C pick bits all_peers item kind h g = forward C pick bits all_peers item kind h None g"

definition relay :: "'c cache_ops \<Rightarrow> (string list \<Rightarrow> string) \<Rightarrow> nat \<Rightarrow> string list \<Rightarrow> 'i \<Rightarrow> string \<Rightarrow> string
    \<Rightarrow> string \<Rightarrow> bool \<Rightarrow> 'c seen \<Rightarrow> (bool \<times> 'i send list \<times> 'c seen) res" where
  "relay C pick bits all_peers item kind h sender stemming g =
     (if stemming
      then rbind (forward C pick bits all_peers item kind h (Some sender) g)
             (\<lambda>(peer, ss, g'). Inr (peer = None, ss, g'))
      else rbind (fluff C all_peers item kind h (Some sender) g) (\<lambda>(ss, g'). Inr (True, ss, g')))"

definition force_fluff :: "string list \<Rightarrow> 'i \<Rightarrow> string \<Rightarrow> 'i send list res" where
  "force_fluff all_peers item kind =
     (if all_peers = [] then Inr [] else gossip_send item kind all_peers False)"

section \<open>What is sent, to whom, how often\<close>

text \<open>What the code relies on about the cache: a put makes the hash present, and adds no other.\<close>

definition cache_laws :: "'c cache_ops \<Rightarrow> bool" where
  "cache_laws C \<longleftrightarrow> (\<forall>c h. c_mem C (c_put C c h) h)
     \<and> (\<forall>c h k. c_mem C (c_put C c h) k \<longrightarrow> k = h \<or> c_mem C c k)"

definition known_kind :: "string \<Rightarrow> bool" where
  "known_kind kind \<longleftrightarrow> kind \<in> set (keys SEEN_CACHE_SIZES)"

definition gossip_inv :: "'c seen \<Rightarrow> bool" where
  "gossip_inv g \<longleftrightarrow> keys g = keys SEEN_CACHE_SIZES"

lemma gossip_inv_init: "gossip_inv (gossip_init C)"
  by (simp add: gossip_inv_def gossip_init_def SEEN_CACHE_SIZES_def)

lemma keys_update_in: "k \<in> set (keys d) \<Longrightarrow> keys (AList.update k v d) = keys d"
  by (induction d) auto

lemma gossip_inv_cache: "gossip_inv g \<Longrightarrow> known_kind kind \<Longrightarrow> \<exists>c. map_of g kind = Some c"
  unfolding gossip_inv_def known_kind_def by (metis map_of_eq_None_iff not_None_eq set_map)

lemma mark_seen_known:
  assumes "gossip_inv g" "known_kind kind"
  obtains c where "map_of g kind = Some c"
    "mark_seen C g h kind = Inr (c_mem C c h, if c_mem C c h then g else AList.update kind (c_put C c h) g)"
proof -
  from gossip_inv_cache[OF assms] obtain c where "map_of g kind = Some c" by blast
  then show thesis by (intro that[of c]) (auto simp: mark_seen_def)
qed

text \<open>The transport call of a kind.\<close>

lemma gossip_send_known:
  assumes "known_kind kind"
  obtains m where "\<And>peers st. gossip_send item kind peers st
    = Inr [\<lparr>s_method = m, s_item = item, s_peers = peers, s_stemming = st\<rparr>]"
proof -
  have "kind \<in> {KIND_BLOCK, KIND_TX, KIND_ORDER, KIND_FILL_REQUEST, KIND_FILL_RESPONSE}"
    using assms by (auto simp: known_kind_def SEEN_CACHE_SIZES_def)
  then show thesis
    using that[of SendBlock] that[of SendTx] that[of SendOrder] that[of SendFillRequest] that[of SendFillResponse]
    by (auto simp: gossip_send_def kind_defs Let_def)
qed

lemma mark_seen_inv:
  assumes "gossip_inv g" "mark_seen C g h kind = Inr (b, g')"
  shows "gossip_inv g'"
proof -
  from assms(2) obtain c where "map_of g kind = Some c" "g' = g \<or> g' = AList.update kind (c_put C c h) g"
    by (auto simp: mark_seen_def split: option.splits if_splits)
  moreover from this(1) have "kind \<in> set (keys g)" by (metis map_of_eq_None_iff option.distinct(1) set_map)
  ultimately show ?thesis
    using assms(1) keys_update_in[of kind g "c_put C c h"] unfolding gossip_inv_def by metis
qed

text \<open>Each node floods an item once: whatever reached this node before, after one public send of an item
  the next public send of the same item within the cache's memory sends nothing and changes
  nothing, and a flood of one kind never touches the cache of another kind.\<close>

theorem flooded_once:
  assumes "cache_laws C" and "gossip_inv g" and "known_kind kind"
  shows "\<exists>ss g'. fluff C peers item kind h exclude g = Inr (ss, g') \<and> gossip_inv g'
    \<and> fluff C peers' item' kind h exclude' g' = Inr ([], g')
    \<and> length ss \<le> 1
    \<and> (if (\<exists>c. map_of g kind = Some c \<and> c_mem C c h) then ss = [] \<and> g' = g else True)
    \<and> (\<forall>k. if k = kind then True else map_of g' k = map_of g k)"
proof -
  from mark_seen_known[OF assms(2,3), where C = C and h = h] obtain c where c: "map_of g kind = Some c"
    "mark_seen C g h kind = Inr (c_mem C c h, if c_mem C c h then g else AList.update kind (c_put C c h) g)" .
  define g' where "g' = (if c_mem C c h then g else AList.update kind (c_put C c h) g)"
  have m: "mark_seen C g h kind = Inr (c_mem C c h, g')" using c(2) by (simp add: g'_def)
  obtain mm where s: "gossip_send item kind ps st
      = Inr [\<lparr>s_method = mm, s_item = item, s_peers = ps, s_stemming = st\<rparr>]" for ps st
    by (rule gossip_send_known[OF assms(3), where item = item], rule that)
  have "\<exists>ss. fluff C peers item kind h exclude g = Inr (ss, g') \<and> length ss \<le> 1 \<and> (c_mem C c h \<longrightarrow> ss = [])"
    by (auto simp: fluff_def m s Let_def)
  then obtain ss where f: "fluff C peers item kind h exclude g = Inr (ss, g')" "length ss \<le> 1"
      "c_mem C c h \<longrightarrow> ss = []" by blast
  have inv: "gossip_inv g'" by (rule mark_seen_inv[OF assms(2) m])
  obtain c' where "map_of g' kind = Some c'" "c_mem C c' h"
    using assms(1) c(1) by (cases "c_mem C c h") (auto simp: g'_def map_of_update_iff cache_laws_def)
  then have "mark_seen C g' h kind = Inr (True, g')" by (simp add: mark_seen_def)
  then have "fluff C peers' item' kind h exclude' g' = Inr ([], g')" by (simp add: fluff_def)
  moreover have "\<forall>k. if k = kind then True else map_of g' k = map_of g k"
    by (simp add: g'_def map_of_update_iff)
  ultimately show ?thesis using f inv c(1) by (intro exI[of _ ss] exI[of _ g']) (auto simp: g'_def)
qed

text \<open>The stem rule: an item that arrives in the private phase goes on to exactly one peer that is not
  the one it came from, marked private, when the draw says to continue and such a peer exists;
  otherwise it goes public here, to every peer, the predecessor included, and that is what the caller is
  told. An item that arrives in public is never sent back to its sender.\<close>

theorem relay_stem_rule:
  assumes "gossip_inv g" and "known_kind kind"
    and "\<And>ps. ps \<noteq> [] \<Longrightarrow> pick ps \<in> set ps"
  shows "\<exists>public ss g'. relay C pick bits peers item kind h sender stemming g = Inr (public, ss, g')
    \<and> gossip_inv g'
    \<and> (if stemming then public = (\<not> (random_fraction bits < 9 / 10 \<and> (\<exists>p\<in>set peers. p \<noteq> sender))) else public)
    \<and> (\<forall>s\<in>set ss. s_item s = item \<and> s_stemming s = (\<not> public)
         \<and> (if public \<and> stemming then s_peers s = peers
            else sender \<notin> set (s_peers s) \<and> set (s_peers s) \<subseteq> set peers)
         \<and> (if public then True else length (s_peers s) = 1))"
proof -
  obtain mm where s: "gossip_send item kind ps st
      = Inr [\<lparr>s_method = mm, s_item = item, s_peers = ps, s_stemming = st\<rparr>]" for ps st
    by (rule gossip_send_known[OF assms(2), where item = item], rule that)
  have fl: "\<exists>ss g'. fluff C peers item kind h ex g = Inr (ss, g') \<and> gossip_inv g'
      \<and> (\<forall>s\<in>set ss. s_item s = item \<and> \<not> s_stemming s \<and> s_peers s = filter (\<lambda>p. Some p \<noteq> ex) peers)" for ex
  proof -
    from mark_seen_known[OF assms(1,2), where C = C and h = h] obtain c where
      "mark_seen C g h kind = Inr (c_mem C c h, if c_mem C c h then g else AList.update kind (c_put C c h) g)" .
    then obtain b g' where m: "mark_seen C g h kind = Inr (b, g')" by blast
    from mark_seen_inv[OF assms(1) m] m show ?thesis by (auto simp: fluff_def s Let_def)
  qed
  show ?thesis
  proof (cases stemming)
    case False
    from fl[of "Some sender"] obtain ss g' where f: "fluff C peers item kind h (Some sender) g = Inr (ss, g')"
        "gossip_inv g'" "\<forall>s\<in>set ss. s_item s = item \<and> \<not> s_stemming s \<and> s_peers s = filter (\<lambda>p. Some p \<noteq> Some sender) peers"
      by blast
    with False show ?thesis by (intro exI[of _ True] exI[of _ ss] exI[of _ g']) (auto simp: relay_def)
  next
    case True
    show ?thesis
    proof (cases "random_fraction bits < 9 / 10 \<and> (\<exists>p\<in>set peers. p \<noteq> sender)")
      case stem: True
      let ?ps = "filter (\<lambda>p. Some p \<noteq> Some sender) peers"
      have ne: "?ps \<noteq> []" using stem by (auto simp: filter_empty_conv)
      then have "pick ?ps \<in> set ?ps" by (rule assms(3))
      moreover have "forward C pick bits peers item kind h (Some sender) g
          = Inr (Some (pick ?ps), [\<lparr>s_method = mm, s_item = item, s_peers = [pick ?ps], s_stemming = True\<rparr>], g)"
        using stem ne by (simp add: forward_def stem_peer_def s STEM_CONTINUE_PROB_def Let_def)
      moreover from calculation(1) have "pick ?ps \<in> set peers" "sender \<noteq> pick ?ps" by auto
      ultimately show ?thesis using True stem assms(1)
        by (intro exI[of _ False] exI[of _ "[\<lparr>s_method = mm, s_item = item, s_peers = [pick ?ps], s_stemming = True\<rparr>]"]
            exI[of _ g]) (simp add: relay_def)
    next
      case no: False
      then have n: "(if random_fraction bits < STEM_CONTINUE_PROB then stem_peer pick peers (Some sender) else None) = None"
        by (auto simp: stem_peer_def STEM_CONTINUE_PROB_def Let_def filter_empty_conv)
      from fl[of None] obtain ss g' where f: "fluff C peers item kind h None g = Inr (ss, g')" "gossip_inv g'"
          "\<forall>s\<in>set ss. s_item s = item \<and> \<not> s_stemming s \<and> s_peers s = filter (\<lambda>p. Some p \<noteq> None) peers" by blast
      have "forward C pick bits peers item kind h (Some sender) g = Inr (None, ss, g')"
        unfolding forward_def Let_def n by (simp add: f(1))
      with True no f(2,3) show ?thesis by (intro exI[of _ True] exI[of _ ss] exI[of _ g']) (auto simp: relay_def)
    qed
  qed
qed

section \<open>Examples\<close>

text \<open>A cache that keeps everything.\<close>

definition demo_cache :: "string list cache_ops" where
  "demo_cache = \<lparr>c_new = \<lambda>_. [], c_mem = \<lambda>c h. h \<in> set c, c_put = \<lambda>c h. h # c\<rparr>"

lemma demo_cache_laws: "cache_laws demo_cache"
  by (simp add: cache_laws_def demo_cache_def)

lemma block_known: "known_kind KIND_BLOCK"
  by (simp add: known_kind_def SEEN_CACHE_SIZES_def)

theorem flooded_once_witness:
  "\<exists>ss g'. fluff demo_cache [''p'', ''q''] () KIND_BLOCK ''h'' None (gossip_init demo_cache) = Inr (ss, g')
     \<and> fluff demo_cache [''p''] () KIND_BLOCK ''h'' None g' = Inr ([] :: unit send list, g')"
  using flooded_once[OF demo_cache_laws gossip_inv_init block_known,
      where peers = "[''p'', ''q'']" and h = "''h''" and exclude = None and peers' = "[''p'']" and exclude' = None
        and item = "()" and item' = "()"] by blast

theorem relay_stem_rule_witness:
  "\<exists>ss g'. relay demo_cache hd 0 [''p'', ''q''] () KIND_BLOCK ''h'' ''p'' True (gossip_init demo_cache)
     = Inr (False, ss, g')"
proof (rule exE[OF relay_stem_rule[OF gossip_inv_init[of demo_cache] block_known, where C = demo_cache
        and pick = hd and bits = 0 and peers = "[''p'', ''q'']" and h = "''h''" and sender = "''p''"
        and stemming = True and item = "()"]])
  show "hd ps \<in> set ps" if "ps \<noteq> []" for ps :: "string list" using that by simp
qed (elim exE conjE, simp add: random_fraction_def)

end
