(* ===== verification/Peerpool.thy ===== *)
theory Peerpool
  imports Crypto
begin

text \<open>
  \<^verbatim>\<open>src/src/peerpool.py\<close>: the peers this node holds, their strikes and cooldowns, and the caps
  on the pool and on each subnet. Python's \<^verbatim>\<open>ipaddress\<close> is a parameter: how a host parses, to its
  version and number, and which addresses it calls private, loopback and so on. A subnet is its version
  and network number. \<^verbatim>\<open>time.time()\<close> and \<^verbatim>\<open>time.monotonic()\<close> are arguments. Locking is not
  modelled: every method body runs under the pool's lock, so each is one step.
\<close>

record ip_lib =
  ip_parse :: "string \<Rightarrow> (nat \<times> nat) option"
  ip_unroutable :: "nat \<times> nat \<Rightarrow> bool"

definition COOLDOWN_SECONDS :: rat where "COOLDOWN_SECONDS = 60"
definition COOLDOWN_MAX_SECONDS :: rat where "COOLDOWN_MAX_SECONDS = 300"
definition MAX_STRIKES :: nat where "MAX_STRIKES = 3"
definition STALE_SECONDS :: rat where "STALE_SECONDS = 300"
definition HTTP_REACHABLE_TTL :: rat where "HTTP_REACHABLE_TTL = 600"
definition MAX_PEERS_PER_SUBNET :: nat where "MAX_PEERS_PER_SUBNET = 3"

text \<open>\<^verbatim>\<open>addr.rsplit(":", 1)\<close>: host before the last colon; no colon makes the unpacking raise.\<close>

definition rsplit_host :: "string \<Rightarrow> string option" where
  "rsplit_host addr = (if CHR '':'' \<in> set addr
     then Some (rev (tl (dropWhile (\<lambda>c. c \<noteq> CHR '':'') (rev addr)))) else None)"

definition parse_addr :: "ip_lib \<Rightarrow> string \<Rightarrow> (nat \<times> nat) option" where
  "parse_addr L addr = (case rsplit_host addr of None \<Rightarrow> None | Some host \<Rightarrow> ip_parse L host)"

type_synonym subnet = "nat \<times> nat"

definition subnet_key :: "ip_lib \<Rightarrow> string \<Rightarrow> subnet option" where
  "subnet_key L addr = (case parse_addr L addr of
     None \<Rightarrow> None
   | Some (version, n) \<Rightarrow>
       (let host_bits = (if version = 4 then 32 - 24 else 128 - 64)
        in Some (version, n div 2 ^ host_bits * 2 ^ host_bits)))"

definition is_routable_peer_addr :: "ip_lib \<Rightarrow> string \<Rightarrow> bool" where
  "is_routable_peer_addr L addr = (case parse_addr L addr of
     None \<Rightarrow> False | Some ip \<Rightarrow> \<not> ip_unroutable L ip)"

record peer_info =
  i_height :: json
  i_version :: json
  i_tip_hash :: json
  i_reachable :: "(bool \<times> rat) option"

definition no_info :: peer_info where
  "no_info = \<lparr>i_height = JNull, i_version = JStr [], i_tip_hash = JStr [], i_reachable = None\<rparr>"

record peer_pool =
  max_peers :: int
  peers :: "(string, rat) dict"
  fails :: "(string, nat \<times> rat) dict"
  info :: "(string, peer_info) dict"
  learned_from :: "(string, string) dict"
  claimed :: "(string, string list) dict"
  max_height_observed :: rat
  subnets :: "(subnet, nat) dict"
  attempting :: "(string, rat) dict"

definition pool_init :: "int option \<Rightarrow> peer_pool" where
  "pool_init limit = \<lparr>max_peers = (case limit of Some n \<Rightarrow> n | None \<Rightarrow> MAX_PEERS), peers = [], fails = [],
     info = [], learned_from = [], claimed = [], max_height_observed = 0, subnets = [], attempting = []\<rparr>"

section \<open>Forgetting\<close>

definition subnets_drop :: "subnet option \<Rightarrow> (subnet, nat) dict \<Rightarrow> (subnet, nat) dict" where
  "subnets_drop key d = (case key of
     None \<Rightarrow> d
   | Some k \<Rightarrow> (let remaining = int (get_or d k 0) - 1
                in if remaining > 0 then AList.update k (nat remaining) d else AList.delete k d))"

definition forget :: "ip_lib \<Rightarrow> peer_pool \<Rightarrow> string \<Rightarrow> peer_pool" where
  "forget L s addr =
     (if \<not> has_key (peers s) addr then s
      else s\<lparr>peers := AList.delete addr (peers s), info := AList.delete addr (info s),
             learned_from := AList.delete addr (learned_from s), claimed := AList.delete addr (claimed s),
             subnets := subnets_drop (subnet_key L addr) (subnets s)\<rparr>)"

text \<open>The end of a peer's cooldown, and the strikes it has.\<close>

definition cooldown_until :: "peer_pool \<Rightarrow> string \<Rightarrow> rat" where
  "cooldown_until s addr = (case map_of (fails s) addr of None \<Rightarrow> 0 | Some (_, t) \<Rightarrow> t)"

text \<open>The scan for the held peer in cooldown with the most strikes, the first of equals.\<close>

fun worst_cooldown :: "peer_pool \<Rightarrow> rat \<Rightarrow> (string \<times> nat \<times> rat) list \<Rightarrow> (string \<times> nat) option
    \<Rightarrow> (string \<times> nat) option" where
  "worst_cooldown s now [] worst = worst"
| "worst_cooldown s now ((a, strikes, until) # rest) worst =
     (if \<not> has_key (peers s) a \<or> now \<ge> until then worst_cooldown s now rest worst
      else worst_cooldown s now rest (case worst of
             None \<Rightarrow> Some (a, strikes)
           | Some (_, w) \<Rightarrow> if strikes > w then Some (a, strikes) else worst))"

definition evict_worst_cooldown :: "ip_lib \<Rightarrow> rat \<Rightarrow> peer_pool \<Rightarrow> bool \<times> peer_pool" where
  "evict_worst_cooldown L now s = (case worst_cooldown s now (fails s) None of
     None \<Rightarrow> (False, s) | Some (a, _) \<Rightarrow> (True, forget L s a))"

section \<open>Adding\<close>

text \<open>The part of \<^verbatim>\<open>add\<close> after there is room.\<close>

definition admit :: "ip_lib \<Rightarrow> rat \<Rightarrow> rat \<Rightarrow> peer_pool \<Rightarrow> string \<Rightarrow> string option \<Rightarrow> bool \<times> peer_pool" where
  "admit L now_mono now s addr introducer =
     (if now_mono < cooldown_until s addr then (False, s)
      else (case subnet_key L addr of
        Some k \<Rightarrow>
          if get_or (subnets s) k 0 \<ge> MAX_PEERS_PER_SUBNET then (False, s)
          else (True, s\<lparr>subnets := AList.update k (get_or (subnets s) k 0 + 1) (subnets s),
                        peers := AList.update addr now (peers s),
                        learned_from := (case introducer of None \<Rightarrow> learned_from s
                          | Some i \<Rightarrow> AList.update addr i (learned_from s))\<rparr>)
      | None \<Rightarrow> (True, s\<lparr>peers := AList.update addr now (peers s),
                        learned_from := (case introducer of None \<Rightarrow> learned_from s
                          | Some i \<Rightarrow> AList.update addr i (learned_from s))\<rparr>)))"

definition pool_add :: "ip_lib \<Rightarrow> rat \<Rightarrow> rat \<Rightarrow> peer_pool \<Rightarrow> string \<Rightarrow> bool \<Rightarrow> string option \<Rightarrow> bool \<times> peer_pool" where
  "pool_add L now_mono now s addr allow_private introducer =
     (if \<not> allow_private \<and> \<not> is_routable_peer_addr L addr then (False, s)
      else if has_key (peers s) addr then (False, s\<lparr>peers := AList.update addr now (peers s)\<rparr>)
      else if int (length (peers s)) \<ge> max_peers s then
        (case evict_worst_cooldown L now_mono s of
           (False, s') \<Rightarrow> (False, s')
         | (True, s') \<Rightarrow> admit L now_mono now s' addr introducer)
      else admit L now_mono now s addr introducer)"

section \<open>Claims, attempts, info\<close>

definition record_claim :: "peer_pool \<Rightarrow> string \<Rightarrow> string option list \<Rightarrow> peer_pool" where
  "record_claim s introducer addrs =
     (let kept = take PEERS_PER_MESSAGE_LIMIT (List.map_filter (\<lambda>a. case a of
            Some x \<Rightarrow> if CHR '':'' \<in> set x then Some x else None | None \<Rightarrow> None) addrs)
      in if \<not> has_key (peers s) introducer then s
         else s\<lparr>claimed := AList.update introducer kept (claimed s)\<rparr>)"

definition pool_claims :: "peer_pool \<Rightarrow> (string, string list) dict" where
  "pool_claims s = claimed s"

definition mark_attempting :: "rat \<Rightarrow> peer_pool \<Rightarrow> string \<Rightarrow> peer_pool" where
  "mark_attempting now_mono s addr = s\<lparr>attempting := AList.update addr now_mono (attempting s)\<rparr>"

definition unmark_attempting :: "peer_pool \<Rightarrow> string \<Rightarrow> peer_pool" where
  "unmark_attempting s addr = s\<lparr>attempting := AList.delete addr (attempting s)\<rparr>"

definition pool_attempting :: "peer_pool \<Rightarrow> string list" where
  "pool_attempting s = filter (\<lambda>a. \<not> has_key (peers s) a) (keys (attempting s))"

text \<open>A claimed height that is no number is kept before the comparison with it raises.\<close>

definition or_empty :: "json \<Rightarrow> json" where
  "or_empty v = (if truthy v then v else JStr [])"

definition update_info :: "peer_pool \<Rightarrow> string \<Rightarrow> json \<Rightarrow> json \<Rightarrow> json \<Rightarrow> unit res \<times> peer_pool" where
  "update_info s addr height version tip_hash =
     (if \<not> has_key (peers s) addr then (Inr (), s)
      else (let s' = s\<lparr>info := AList.update addr ((get_or (info s) addr no_info)
               \<lparr>i_height := height, i_version := or_empty version, i_tip_hash := or_empty tip_hash\<rparr>) (info s)\<rparr>
            in if height = JNull then (Inr (), s')
               else (case jnum height of
                   None \<Rightarrow> (Inl TypeError, s')
                 | Some h \<Rightarrow> (Inr (), if h > max_height_observed s then s'\<lparr>max_height_observed := h\<rparr> else s'))))"

definition set_http_reachable :: "rat \<Rightarrow> peer_pool \<Rightarrow> string \<Rightarrow> bool \<Rightarrow> rat option \<Rightarrow> peer_pool" where
  "set_http_reachable now s addr ok checked_at =
     (if \<not> has_key (peers s) addr then s
      else s\<lparr>info := AList.update addr ((get_or (info s) addr no_info)
               \<lparr>i_reachable := Some (ok, case checked_at of Some t \<Rightarrow> t | None \<Rightarrow> now)\<rparr>) (info s)\<rparr>)"

section \<open>Health\<close>

definition touch :: "rat \<Rightarrow> peer_pool \<Rightarrow> string \<Rightarrow> peer_pool" where
  "touch now s addr =
     (if has_key (peers s) addr then s\<lparr>peers := AList.update addr now (peers s)\<rparr> else s)
     \<lparr>fails := AList.delete addr (fails s)\<rparr>"

definition strike :: "ip_lib \<Rightarrow> rat \<Rightarrow> peer_pool \<Rightarrow> string \<Rightarrow> peer_pool" where
  "strike L now_mono s addr =
     (let strikes = fst (get_or (fails s) addr (0, 0)) + 1;
          banned = (strikes \<ge> MAX_STRIKES);
          cooldown = (if banned then COOLDOWN_MAX_SECONDS
                      else min (COOLDOWN_SECONDS * 2 ^ (strikes - 1)) COOLDOWN_MAX_SECONDS);
          s' = s\<lparr>fails := AList.update addr (strikes, now_mono + cooldown) (fails s)\<rparr>
      in if banned then forget L s' addr else s')"

definition pool_remove :: "ip_lib \<Rightarrow> peer_pool \<Rightarrow> string \<Rightarrow> peer_pool" where
  "pool_remove L s addr = forget L s addr"

definition evict_stale :: "ip_lib \<Rightarrow> rat \<Rightarrow> peer_pool \<Rightarrow> peer_pool" where
  "evict_stale L now s =
     (let cutoff = now - STALE_SECONDS;
          stale = map fst (filter (\<lambda>(p, t). t < cutoff) (peers s))
      in foldl (forget L) s stale)"

section \<open>Queries\<close>

definition get_all :: "rat \<Rightarrow> peer_pool \<Rightarrow> string list" where
  "get_all now_mono s = filter (\<lambda>p. now_mono \<ge> cooldown_until s p) (keys (peers s))"

definition random_peer :: "(string list \<Rightarrow> string) \<Rightarrow> rat \<Rightarrow> peer_pool \<Rightarrow> string option" where
  "random_peer pick now_mono s =
     (let ps = get_all now_mono s in if ps \<noteq> [] then Some (pick ps) else None)"

definition pool_count :: "peer_pool \<Rightarrow> nat" where
  "pool_count s = length (peers s)"

definition all_addrs :: "peer_pool \<Rightarrow> string list" where
  "all_addrs s = keys (peers s)"

definition is_known :: "peer_pool \<Rightarrow> string \<Rightarrow> bool" where
  "is_known s addr = has_key (peers s) addr"

definition pool_snapshot :: "rat \<Rightarrow> rat \<Rightarrow> peer_pool
    \<Rightarrow> (string \<times> rat \<times> bool \<times> json \<times> json \<times> bool option \<times> string option \<times> json) list" where
  "pool_snapshot now_mono now s = map (\<lambda>(addr, last_seen).
     (let inf = get_or (info s) addr no_info;
          reachable = (case i_reachable inf of
            Some (ok, t) \<Rightarrow> if now - t \<le> HTTP_REACHABLE_TTL then Some ok else None | None \<Rightarrow> None)
      in (addr, last_seen, now_mono \<ge> cooldown_until s addr, i_height inf, i_version inf, reachable,
          map_of (learned_from s) addr, i_tip_hash inf))) (peers s)"

section \<open>The pool's invariant\<close>

text \<open>How many held peers are in a subnet.\<close>

definition held_in :: "ip_lib \<Rightarrow> (string, rat) dict \<Rightarrow> subnet \<Rightarrow> nat" where
  "held_in L d k = length (filter (\<lambda>(a, _). subnet_key L a = Some k) d)"

definition pool_inv :: "ip_lib \<Rightarrow> peer_pool \<Rightarrow> bool" where
  "pool_inv L s \<longleftrightarrow> wf_dict (peers s) \<and> wf_dict (subnets s)
     \<and> (\<forall>k. get_or (subnets s) k 0 = held_in L (peers s) k \<and> held_in L (peers s) k \<le> MAX_PEERS_PER_SUBNET)
     \<and> (\<forall>k. map_of (subnets s) k \<noteq> Some 0)
     \<and> int (length (peers s)) \<le> max 0 (max_peers s)
     \<and> (\<forall>a. has_key (info s) a \<or> has_key (learned_from s) a \<or> has_key (claimed s) a \<longrightarrow> has_key (peers s) a)"

lemma held_in_update_same: "has_key d a \<Longrightarrow> held_in L (AList.update a t d) k = held_in L d k"
  by (induction d) (auto simp: held_in_def has_key_def)

lemma held_in_update_new:
  "\<not> has_key d a \<Longrightarrow> held_in L (AList.update a t d) k = held_in L d k + (if subnet_key L a = Some k then 1 else 0)"
  by (simp add: update_notin held_in_def)

lemma held_in_delete:
  assumes "wf_dict d" "has_key d a"
  shows "held_in L d k = held_in L (AList.delete a d) k + (if subnet_key L a = Some k then 1 else 0)"
  using assms
proof (induction d)
  case (Cons p d)
  show ?case
  proof (cases "fst p = a")
    case True
    with Cons.prems have "\<not> has_key d a" by (auto simp: has_key_def)
    with True show ?thesis by (cases p) (simp add: held_in_def delete_notin)
  next
    case False
    with Cons.prems have "wf_dict d" "has_key d a" by (auto simp: has_key_def)
    with Cons.IH False show ?thesis by (cases p) (simp add: held_in_def)
  qed
qed (simp add: has_key_def)

lemma pool_invD:
  assumes "pool_inv L s"
  shows "wf_dict (peers s)" "wf_dict (subnets s)" "get_or (subnets s) k 0 = held_in L (peers s) k"
    "held_in L (peers s) k \<le> MAX_PEERS_PER_SUBNET" "map_of (subnets s) k \<noteq> Some 0"
    "int (length (peers s)) \<le> max 0 (max_peers s)"
    "has_key (info s) a \<Longrightarrow> has_key (peers s) a" "has_key (learned_from s) a \<Longrightarrow> has_key (peers s) a"
    "has_key (claimed s) a \<Longrightarrow> has_key (peers s) a"
  using assms unfolding pool_inv_def by blast+

lemma pool_invI:
  assumes "wf_dict (peers s)" "wf_dict (subnets s)"
    "\<And>k. get_or (subnets s) k 0 = held_in L (peers s) k \<and> held_in L (peers s) k \<le> MAX_PEERS_PER_SUBNET"
    "\<And>k. map_of (subnets s) k \<noteq> Some 0" "int (length (peers s)) \<le> max 0 (max_peers s)"
    "\<And>a. has_key (info s) a \<or> has_key (learned_from s) a \<or> has_key (claimed s) a \<Longrightarrow> has_key (peers s) a"
  shows "pool_inv L s"
  using assms unfolding pool_inv_def by blast

lemma pool_init_inv: "pool_inv L (pool_init limit)"
  by (rule pool_invI) (simp_all add: pool_init_def held_in_def get_or_def has_key_def)

lemma forget_inv:
  assumes inv: "pool_inv L s"
  shows "pool_inv L (forget L s a)"
proof (cases "has_key (peers s) a")
  case True
  let ?s = "forget L s a"
  note d = pool_invD[OF inv]
  note hd = held_in_delete[OF d(1) True]
  have f: "peers ?s = AList.delete a (peers s)" "subnets ?s = subnets_drop (subnet_key L a) (subnets s)"
    "info ?s = AList.delete a (info s)" "learned_from ?s = AList.delete a (learned_from s)"
    "claimed ?s = AList.delete a (claimed s)" "max_peers ?s = max_peers s"
    using True by (simp_all add: forget_def)
  show ?thesis
  proof (rule pool_invI)
    show "wf_dict (peers ?s)" unfolding f using d(1) by simp
    show "wf_dict (subnets ?s)" unfolding f subnets_drop_def Let_def using d(2) by (simp split: option.split)
    show "map_of (subnets ?s) k \<noteq> Some 0" for k
      unfolding f subnets_drop_def Let_def using d(5)[of k] by (auto simp: dict_simps split: option.split)
    show "int (length (peers ?s)) \<le> max 0 (max_peers ?s)"
      unfolding f using d(1,6) True by (simp add: length_delete_dict)
    show "has_key (peers ?s) b" if "has_key (info ?s) b \<or> has_key (learned_from ?s) b \<or> has_key (claimed ?s) b" for b
      using that d(7-9)[of b] unfolding f by auto
    show "get_or (subnets ?s) k 0 = held_in L (peers ?s) k \<and> held_in L (peers ?s) k \<le> MAX_PEERS_PER_SUBNET" for k
    proof (cases "subnet_key L a = Some k")
      case True
      with hd[of L k] d(3)[of k] d(4)[of k] show ?thesis
        unfolding f subnets_drop_def by (simp add: Let_def)
    next
      case False
      with hd[of L k] d(3)[of k] d(4)[of k] show ?thesis
        unfolding f subnets_drop_def by (auto simp: Let_def split: option.split)
    qed
  qed
qed (use inv in \<open>simp add: forget_def\<close>)

lemma forget_frame [simp]: "fails (forget L s a) = fails s" "max_peers (forget L s a) = max_peers s"
  "attempting (forget L s a) = attempting s"
  by (simp_all add: forget_def)

lemma forget_peers: "peers (forget L s a) = AList.delete a (peers s)"
  by (simp add: forget_def delete_notin)

lemma worst_cooldown_held:
  "worst_cooldown s now fs w = Some (a, n) \<Longrightarrow>
     w = Some (a, n) \<or> (has_key (peers s) a \<and> (\<exists>t. (a, n, t) \<in> set fs \<and> now < t))"
proof (induction s now fs w rule: worst_cooldown.induct)
  case (2 s now b strikes until rest worst)
  show ?case
  proof (cases "\<not> has_key (peers s) b \<or> now \<ge> until")
    case True
    with 2 show ?thesis by auto
  next
    case False
    with 2 show ?thesis by (auto split: option.splits if_splits)
  qed
qed simp

lemma admit_inv:
  assumes inv: "pool_inv L s" and room: "int (length (peers s)) < max_peers s" and new: "\<not> has_key (peers s) a"
  shows "pool_inv L (snd (admit L m n s a i))"
proof (cases "snd (admit L m n s a i) = s")
  case False
  let ?s = "snd (admit L m n s a i)"
  note d = pool_invD[OF inv]
  have p: "peers ?s = AList.update a n (peers s)" "max_peers ?s = max_peers s" "info ?s = info s" "claimed ?s = claimed s"
    using False by (auto simp: admit_def split: option.splits if_splits)
  have l: "has_key (learned_from ?s) b \<Longrightarrow> b = a \<or> has_key (learned_from s) b" for b
    using False by (auto simp: admit_def split: option.splits if_splits)
  have sub: "subnets ?s = (case subnet_key L a of None \<Rightarrow> subnets s
      | Some k \<Rightarrow> AList.update k (get_or (subnets s) k 0 + 1) (subnets s))"
    and cap: "\<And>k. subnet_key L a = Some k \<Longrightarrow> get_or (subnets s) k 0 < MAX_PEERS_PER_SUBNET"
    using False by (auto simp: admit_def split: option.splits if_splits)
  show ?thesis
  proof (rule pool_invI)
    show "wf_dict (peers ?s)" unfolding p using d(1) by simp
    show "wf_dict (subnets ?s)" unfolding sub using d(2) by (simp split: option.split)
    show "map_of (subnets ?s) k \<noteq> Some 0" for k
      unfolding sub using d(5)[of k] by (auto simp: dict_simps split: option.split)
    show "int (length (peers ?s)) \<le> max 0 (max_peers ?s)"
      unfolding p using room new by (simp add: length_update_dict)
    show "has_key (peers ?s) b" if "has_key (info ?s) b \<or> has_key (learned_from ?s) b \<or> has_key (claimed ?s) b" for b
      using that d(7-9)[of b] l[of b] unfolding p by auto
    show "get_or (subnets ?s) k 0 = held_in L (peers ?s) k \<and> held_in L (peers ?s) k \<le> MAX_PEERS_PER_SUBNET" for k
      using d(3)[of k] d(4)[of k] cap[of k]
      unfolding p sub held_in_update_new[OF new] by (auto split: option.split)
  qed
qed (use inv in simp)

text \<open>Steps that only renew a held peer's time or touch the indexes of held peers.\<close>

lemma pool_inv_frame:
  assumes "pool_inv L s" "keys (peers s') = keys (peers s)" "subnets s' = subnets s" "max_peers s' = max_peers s"
    and "\<And>a. has_key (info s') a \<or> has_key (learned_from s') a \<or> has_key (claimed s') a \<Longrightarrow> has_key (peers s) a"
  shows "pool_inv L s'"
proof -
  note d = pool_invD[OF assms(1)]
  have h: "held_in L (peers s') k = held_in L (peers s) k" for k
  proof -
    have "held_in L d k = length (filter (\<lambda>a. subnet_key L a = Some k) (keys d))" for d :: "(string, rat) dict"
      by (simp add: held_in_def filter_map comp_def case_prod_unfold)
    from this[of "peers s'"] this[of "peers s"] show ?thesis by (simp only: assms(2))
  qed
  have l: "length (peers s') = length (peers s)" using assms(2) by (metis length_map)
  have k: "has_key (peers s') a = has_key (peers s) a" for a unfolding has_key_def assms(2) ..
  show ?thesis
    by (rule pool_invI) (use d assms(2-5) in \<open>simp_all add: h l k\<close>)
qed

lemma keys_renew: "has_key d a \<Longrightarrow> keys (AList.update a t d) = keys d"
  by (induction d) (auto simp: has_key_def)

lemma evict_worst_cases:
  assumes "evict_worst_cooldown L now s = (b, s')"
  obtains (none) "\<not> b" "s' = s"
  | (evicted) a where "b" "s' = forget L s a" "has_key (peers s) a" "now < cooldown_until s a \<or> \<not> wf_dict (fails s)"
proof (cases "worst_cooldown s now (fails s) None")
  case None
  with assms show thesis by (intro none) (auto simp: evict_worst_cooldown_def)
next
  case (Some p)
  obtain a n where p: "p = (a, n)" by (cases p)
  from worst_cooldown_held[of s now "fails s" None a n] Some p obtain t where
    t: "has_key (peers s) a" "(a, n, t) \<in> set (fails s)" "now < t" by auto
  have "now < cooldown_until s a \<or> \<not> wf_dict (fails s)" using t(2,3) by (auto simp: cooldown_until_def)
  with assms Some p t(1) show thesis by (intro evicted[of a]) (auto simp: evict_worst_cooldown_def)
qed

lemma pool_add_inv:
  assumes inv: "pool_inv L s"
  shows "pool_inv L (snd (pool_add L m n s a priv i))"
proof -
  note d = pool_invD[OF inv]
  consider "\<not> priv \<and> \<not> is_routable_peer_addr L a" | "priv \<or> is_routable_peer_addr L a" "has_key (peers s) a"
    | "priv \<or> is_routable_peer_addr L a" "\<not> has_key (peers s) a" "int (length (peers s)) \<ge> max_peers s"
    | "priv \<or> is_routable_peer_addr L a" "\<not> has_key (peers s) a" "int (length (peers s)) < max_peers s"
    by linarith
  then show ?thesis
  proof cases
    case 1
    with inv show ?thesis by (simp add: pool_add_def)
  next
    case 2
    with d show ?thesis
      by (auto simp: pool_add_def keys_renew intro!: pool_inv_frame[OF inv])
  next
    case 3
    obtain b s' where e: "evict_worst_cooldown L m s = (b, s')" by fastforce
    then show ?thesis
    proof (cases rule: evict_worst_cases)
      case none
      with 3 e inv show ?thesis by (simp add: pool_add_def)
    next
      case (evicted x)
      have l: "0 < length (peers s)" using evicted(3) by (auto simp: has_key_def)
      have "length (peers s') = length (peers s) - 1"
        using evicted(2,3) d(1) by (simp add: forget_peers length_delete_dict)
      then have "int (length (peers s')) = int (length (peers s)) - 1" using l by linarith
      then have "int (length (peers s')) < max_peers s'" using d(6) l evicted(2) by (simp add: max_def split: if_splits)
      moreover have "\<not> has_key (peers s') a" using evicted(2) 3(2) by (simp add: forget_peers)
      ultimately have "pool_inv L (snd (admit L m n s' a i))"
        using evicted(2) forget_inv[OF inv] by (intro admit_inv) simp_all
      with 3 e evicted(1) inv show ?thesis by (simp add: pool_add_def)
    qed
  next
    case 4
    with admit_inv[OF inv] inv show ?thesis by (simp add: pool_add_def)
  qed
qed

lemma forget_all_inv: "pool_inv L s \<Longrightarrow> pool_inv L (foldl (forget L) s as)"
  by (induction as arbitrary: s) (simp_all add: forget_inv)

lemma pool_operations_inv:
  assumes "pool_inv L s"
  shows "pool_inv L (pool_init limit)
    \<and> pool_inv L (snd (pool_add L m n s a priv i))
    \<and> pool_inv L (record_claim s a as) \<and> pool_inv L (mark_attempting m s a) \<and> pool_inv L (unmark_attempting s a)
    \<and> pool_inv L (snd (update_info s a h v t)) \<and> pool_inv L (set_http_reachable n s a ok ck)
    \<and> pool_inv L (touch n s a) \<and> pool_inv L (strike L m s a) \<and> pool_inv L (pool_remove L s a)
    \<and> pool_inv L (evict_stale L n s)"
proof -
  note d = pool_invD[OF assms]
  have fl: "pool_inv L (s\<lparr>fails := f\<rparr>)" for f using d by (intro pool_inv_frame[OF assms]) auto
  have "pool_inv L (record_claim s a as)" "pool_inv L (mark_attempting m s a)" "pool_inv L (unmark_attempting s a)"
    "pool_inv L (set_http_reachable n s a ok ck)"
    using d by (auto simp: record_claim_def mark_attempting_def unmark_attempting_def
        set_http_reachable_def Let_def intro!: pool_inv_frame[OF assms])
  moreover have "pool_inv L (snd (update_info s a h v t))"
    using d by (cases "jnum h") (auto simp: update_info_def Let_def intro!: pool_inv_frame[OF assms])
  moreover have "pool_inv L (touch n s a)"
    using d by (auto simp: touch_def keys_renew intro!: pool_inv_frame[OF assms])
  moreover have "pool_inv L (strike L m s a)" using fl forget_inv[OF fl] by (simp add: strike_def Let_def)
  ultimately show ?thesis
    using pool_init_inv pool_add_inv[OF assms] forget_inv[OF assms] forget_all_inv[OF assms]
    by (simp add: pool_remove_def evict_stale_def Let_def)
qed

text \<open>Every operation keeps the pool's invariant: no more peers than the limit, at most three per
  subnet, the subnet counters equal to what is held, and no info, introducer or claim kept for a peer that is
  not held.\<close>

theorem pool_operations_keep_invariant:
  assumes "pool_inv L s"
  shows "pool_inv L (pool_init limit)
    \<and> pool_inv L (snd (pool_add L m n s a priv i))
    \<and> pool_inv L (record_claim s a as) \<and> pool_inv L (mark_attempting m s a) \<and> pool_inv L (unmark_attempting s a)
    \<and> pool_inv L (snd (update_info s a h v t)) \<and> pool_inv L (set_http_reachable n s a ok ck)
    \<and> pool_inv L (touch n s a) \<and> pool_inv L (strike L m s a) \<and> pool_inv L (pool_remove L s a)
    \<and> pool_inv L (evict_stale L n s)"
  using assms by (rule pool_operations_inv)

lemma admit_effect:
  "case admit L m n t a i of (added, t') \<Rightarrow>
     if added then cooldown_until t a \<le> m \<and> peers t' = AList.update a n (peers t)
       \<and> (case i of None \<Rightarrow> True | Some x \<Rightarrow> map_of (learned_from t') a = Some x)
     else t' = t"
  by (auto simp: admit_def dict_simps split: option.splits)

text \<open>Both branches of \<^verbatim>\<open>add\<close> for a new address: the pool it admits to is the old one, or, when the old
  one is full, the old one less a peer in cooldown.\<close>

lemma pool_add_new_cases:
  assumes wf: "wf_dict (fails s)" and ok: "priv \<or> is_routable_peer_addr L a" and new: "\<not> has_key (peers s) a"
  obtains (refused) "pool_add L m n s a priv i = (False, s)" "max_peers s \<le> int (length (peers s))"
  | (room) "pool_add L m n s a priv i = admit L m n s a i" "int (length (peers s)) < max_peers s"
  | (evicted) x where "pool_add L m n s a priv i = admit L m n (forget L s x) a i" "has_key (peers s) x"
      "m < cooldown_until s x" "max_peers s \<le> int (length (peers s))"
proof (cases "int (length (peers s)) < max_peers s")
  case True
  with ok new show thesis by (intro room) (auto simp: pool_add_def)
next
  case False
  obtain b s' where e: "evict_worst_cooldown L m s = (b, s')" by fastforce
  then show thesis
  proof (cases rule: evict_worst_cases)
    case none
    with False ok new e show thesis by (intro refused) (auto simp: pool_add_def)
  next
    case (evicted x)
    with False ok new e wf show thesis by (intro that(3)[of x]) (auto simp: pool_add_def)
  qed
qed

lemma pool_add_effect:
  assumes "wf_dict (fails s)"
  shows "case pool_add L m n s a priv i of (added, s') \<Rightarrow>
     (if added then \<not> has_key (peers s) a \<and> map_of (peers s') a = Some n \<and> cooldown_until s a \<le> m
        \<and> (priv \<or> is_routable_peer_addr L a)
        \<and> (case i of None \<Rightarrow> True | Some x \<Rightarrow> map_of (learned_from s') a = Some x)
      else True)
   \<and> (\<exists>gone. \<forall>x. has_key (peers s') x = (x = a \<and> added \<or> has_key (peers s) x \<and> x \<notin> set_option gone)
        \<and> (if x \<in> set_option gone then m < cooldown_until s x \<and> max_peers s \<le> int (length (peers s)) else True))"
proof -
  consider "\<not> (priv \<or> is_routable_peer_addr L a)" | "priv \<or> is_routable_peer_addr L a" "has_key (peers s) a"
    | "priv \<or> is_routable_peer_addr L a" "\<not> has_key (peers s) a" by blast
  then show ?thesis
  proof cases
    case 1
    then show ?thesis by (auto simp: pool_add_def intro!: exI[of _ None])
  next
    case 2
    then show ?thesis by (auto simp: pool_add_def intro!: exI[of _ None])
  next
    case 3
    from assms 3 show ?thesis
    proof (cases rule: pool_add_new_cases[where m = m and n = n and i = i])
      case refused
      then show ?thesis by (auto intro!: exI[of _ None])
    next
      case room
      with admit_effect[where L = L and m = m and n = n and t = s and a = a and i = i] 3 show ?thesis
        by (auto simp: dict_simps split: prod.splits if_splits intro!: exI[of _ None])
    next
      case (evicted x)
      with admit_effect[where L = L and m = m and n = n and t = "forget L s x" and a = a and i = i] 3 show ?thesis
        by (auto simp: dict_simps forget_peers cooldown_until_def split: prod.splits if_splits intro!: exI[of _ "Some x"])
    qed
  qed
qed

text \<open>\<^verbatim>\<open>add\<close> reports a new peer only for an address that was not held, is routable (or entered by the
  operator) and is out of its own cooldown, which is then held with this time and its introducer. Whatever
  it reports, at most one other peer is gone afterwards, only when the pool was full, and only one that was
  serving a cooldown: presenting candidates can never churn out a healthy peer.\<close>

theorem pool_add_admits:
  assumes "wf_dict (fails s)"
  shows "case pool_add L m n s a priv i of (added, s') \<Rightarrow>
     (if added then \<not> has_key (peers s) a \<and> map_of (peers s') a = Some n \<and> cooldown_until s a \<le> m
        \<and> (priv \<or> is_routable_peer_addr L a)
        \<and> (case i of None \<Rightarrow> True | Some x \<Rightarrow> map_of (learned_from s') a = Some x)
      else True)
   \<and> (\<exists>gone. \<forall>x. has_key (peers s') x = (x = a \<and> added \<or> has_key (peers s) x \<and> x \<notin> set_option gone)
        \<and> (if x \<in> set_option gone then m < cooldown_until s x \<and> max_peers s \<le> int (length (peers s)) else True))"
  using assms by (rule pool_add_effect)

text \<open>Concrete pools: an \<^verbatim>\<open>ipaddress\<close> that knows four hosts, and a full pool of one peer with one strike.\<close>

definition four_hosts :: ip_lib where
  "four_hosts = \<lparr>ip_parse = (\<lambda>h. if h = ''8.8.8.1'' then Some (4, 134744065) else if h = ''8.8.8.2'' then Some (4, 134744066)
      else if h = ''9.9.9.9'' then Some (4, 151587081) else if h = ''10.0.0.1'' then Some (4, 167772161) else None),
    ip_unroutable = (\<lambda>ip. ip = (4, 167772161))\<rparr>"

definition struck_pool :: peer_pool where
  "struck_pool = strike four_hosts 100 (snd (pool_add four_hosts 0 10 (pool_init (Some 1)) ''8.8.8.1:9'' False None)) ''8.8.8.1:9''"

lemmas four_hosts_eval = pool_add_def admit_def strike_def evict_worst_cooldown_def is_routable_peer_addr_def
  parse_addr_def rsplit_host_def subnet_key_def four_hosts_def pool_init_def get_or_def has_key_def
  MAX_STRIKES_def COOLDOWN_SECONDS_def COOLDOWN_MAX_SECONDS_def MAX_PEERS_PER_SUBNET_def cooldown_until_def
  forget_def subnets_drop_def Let_def

lemma struck_pool_simps: "peers struck_pool = [(''8.8.8.1:9'', 10)]" "fails struck_pool = [(''8.8.8.1:9'', 1, 160)]"
  "max_peers struck_pool = 1" "subnets struck_pool = [((4, 134744064), 1)]" "learned_from struck_pool = []"
  "info struck_pool = []" "claimed struck_pool = []"
  by (simp_all add: struck_pool_def four_hosts_eval)

lemma struck_pool_inv: "pool_inv four_hosts struck_pool"
proof -
  have "pool_inv L (strike L m s a)" if "pool_inv L s" for L m s a
  proof -
    have "pool_inv L (s\<lparr>fails := f\<rparr>)" for f using pool_invD[OF that] by (intro pool_inv_frame[OF that]) auto
    with forget_inv show ?thesis by (simp add: strike_def Let_def)
  qed
  with pool_add_inv[OF pool_init_inv] show ?thesis unfolding struck_pool_def by blast
qed

theorem pool_operations_keep_invariant_witness:
  "pool_inv four_hosts (snd (pool_add four_hosts 120 20 struck_pool ''9.9.9.9:9'' False None))
   \<and> fst (pool_add four_hosts 120 20 struck_pool ''9.9.9.9:9'' False None)
   \<and> \<not> fst (pool_add four_hosts 120 20 struck_pool ''10.0.0.1:9'' False None)"
proof -
  have "fst (pool_add four_hosts 120 20 struck_pool ''9.9.9.9:9'' False None)"
    "\<not> fst (pool_add four_hosts 120 20 struck_pool ''10.0.0.1:9'' False None)"
    by (simp_all add: four_hosts_eval struck_pool_simps)
  with pool_operations_keep_invariant[OF struck_pool_inv, where m = 120 and n = 20 and a = "''9.9.9.9:9''"
      and priv = False and i = None]
  show ?thesis by blast
qed

theorem pool_add_admits_witness:
  "case pool_add four_hosts 120 20 struck_pool ''9.9.9.9:9'' False (Some ''p'') of (added, s') \<Rightarrow>
     added \<and> map_of (peers s') ''9.9.9.9:9'' = Some 20 \<and> map_of (learned_from s') ''9.9.9.9:9'' = Some ''p''
     \<and> (\<exists>gone. \<forall>x. has_key (peers s') x = (x = ''9.9.9.9:9'' \<and> added \<or> has_key (peers struck_pool) x \<and> x \<notin> set_option gone))"
proof -
  have "wf_dict (fails struck_pool)" by (simp add: struck_pool_simps)
  moreover have "fst (pool_add four_hosts 120 20 struck_pool ''9.9.9.9:9'' False (Some ''p''))"
    by (simp add: four_hosts_eval struck_pool_simps)
  ultimately show ?thesis
    using pool_add_admits[where s = struck_pool and L = four_hosts and m = 120 and n = 20 and a = "''9.9.9.9:9''"
        and priv = False and i = "Some ''p''"]
    by (cases "pool_add four_hosts 120 20 struck_pool ''9.9.9.9:9'' False (Some ''p'')") (simp, blast)
qed

text \<open>Eviction comes before the candidate's own checks, so a full pool that refuses a candidate (here one
  whose own cooldown is running, or whose subnet is already full) has still dropped the peer that was to make
  room for it, and the slot stays empty.\<close>

theorem pool_add_evicts_then_refuses:
  assumes "priv \<or> is_routable_peer_addr L a" and "\<not> has_key (peers s) a"
    and "max_peers s \<le> int (length (peers s))" and "worst_cooldown s m (fails s) None = Some (x, k)"
    and "m < cooldown_until s a \<or> (\<exists>key. subnet_key L a = Some key
           \<and> get_or (subnets (forget L s x)) key 0 \<ge> MAX_PEERS_PER_SUBNET)"
  shows "pool_add L m n s a priv i = (False, forget L s x) \<and> has_key (peers s) x \<and> \<not> has_key (peers (forget L s x)) x"
proof -
  from worst_cooldown_held[OF assms(4)] have h: "has_key (peers s) x" by simp
  have e: "evict_worst_cooldown L m s = (True, forget L s x)" using assms(4) by (simp add: evict_worst_cooldown_def)
  have "cooldown_until (forget L s x) a = cooldown_until s a" by (simp add: cooldown_until_def)
  with assms(5) have "admit L m n (forget L s x) a i = (False, forget L s x)" by (auto simp: admit_def)
  with assms e h show ?thesis by (auto simp: pool_add_def forget_peers)
qed

theorem pool_add_evicts_then_refuses_witness:
  "pool_add four_hosts 120 20 (strike four_hosts 110 struck_pool ''9.9.9.9:9'') ''9.9.9.9:9'' False None
     = (False, forget four_hosts (strike four_hosts 110 struck_pool ''9.9.9.9:9'') ''8.8.8.1:9'')"
proof -
  let ?s = "strike four_hosts 110 struck_pool ''9.9.9.9:9''"
  have p: "is_routable_peer_addr four_hosts ''9.9.9.9:9''" "\<not> has_key (peers ?s) ''9.9.9.9:9''"
    "max_peers ?s \<le> int (length (peers ?s))" "worst_cooldown ?s 120 (fails ?s) None = Some (''8.8.8.1:9'', 1)"
    "120 < cooldown_until ?s ''9.9.9.9:9''"
    by (simp_all add: four_hosts_eval struck_pool_simps)
  show ?thesis
    using pool_add_evicts_then_refuses[OF disjI2[OF p(1)] p(2-4) disjI1[OF p(5)]] by blast
qed

text \<open>A strike counts one more than before and starts a cooldown: 60 s after the first, 120 s after the
  second and 300 s from the third on, which also drops the peer from the pool; a contact clears the record.\<close>

theorem strikes_back_off:
  "map_of (fails (strike L m s a)) a = Some (fst (get_or (fails s) a (0, 0)) + 1,
       m + (if fst (get_or (fails s) a (0, 0)) = 0 then 60 else if fst (get_or (fails s) a (0, 0)) = 1 then 120 else 300))
   \<and> peers (strike L m s a) = (if fst (get_or (fails s) a (0, 0)) < 2 then peers s else AList.delete a (peers s))
   \<and> m < cooldown_until (strike L m s a) a
   \<and> cooldown_until (touch n s a) a = 0"
proof -
  define c where "c = fst (get_or (fails s) a (0, 0))"
  have st: "fails (strike L m s a) = AList.update a (c + 1, m + (if c = 0 then 60 else if c = 1 then 120 else 300)) (fails s)"
    "peers (strike L m s a) = (if c < 2 then peers s else AList.delete a (peers s))"
  proof -
    consider "c = 0" | "c = 1" | "2 \<le> c" by linarith
    then show "fails (strike L m s a) = AList.update a (c + 1, m + (if c = 0 then 60 else if c = 1 then 120 else 300)) (fails s)"
      by cases (simp_all add: strike_def Let_def MAX_STRIKES_def COOLDOWN_SECONDS_def COOLDOWN_MAX_SECONDS_def flip: c_def)
    show "peers (strike L m s a) = (if c < 2 then peers s else AList.delete a (peers s))"
      by (simp add: strike_def Let_def MAX_STRIKES_def forget_peers flip: c_def)
  qed
  have "map_of (fails (strike L m s a)) a = Some (c + 1, m + (if c = 0 then 60 else if c = 1 then 120 else 300))"
    unfolding st by (simp add: dict_simps)
  moreover have "m < cooldown_until (strike L m s a) a" using calculation by (simp add: cooldown_until_def)
  moreover have "cooldown_until (touch n s a) a = 0" by (simp add: touch_def cooldown_until_def dict_simps)
  ultimately show ?thesis using st(2) unfolding c_def by blast
qed

end
