(* ===== verification/Alike.thy ===== *)
theory Alike
  imports Chainstate
begin

text \<open>
  The dirty set is bookkeeping: two ledgers that differ only in it give the same verdicts, the same
  rewards and again two ledgers that differ only in it. This is what lets a ledger that has been written
  to disk (dirty set emptied) stand for the one a replay builds.
\<close>

definition clean :: "state \<Rightarrow> state" where
  "clean s = s\<lparr>dirty := {}\<rparr>"

definition alike :: "state \<Rightarrow> state \<Rightarrow> bool" where
  "alike s t \<longleftrightarrow> clean s = clean t"

lemma alike_fields:
  "alike s t \<longleftrightarrow> balances s = balances t \<and> nonces s = nonces t \<and> total_minted s = total_minted t
     \<and> total_board_posts s = total_board_posts t"
  by (cases s; cases t) (auto simp: alike_def clean_def)

lemma alike_refl [simp]: "alike s s"
  by (simp add: alike_def)

lemma alike_sym: "alike s t \<Longrightarrow> alike t s"
  by (simp add: alike_def)

lemma alike_trans: "alike s t \<Longrightarrow> alike t u \<Longrightarrow> alike s u"
  by (simp add: alike_def)

lemma alike_mark_persisted [simp]: "alike (mark_persisted s) s" "alike s (mark_persisted s)"
  by (simp_all add: alike_fields mark_persisted_def)

lemma alike_reads:
  assumes "alike s t"
  shows "get_balance s = get_balance t" "get_nonce s = get_nonce t" "total_minted s = total_minted t"
    "total_board_posts s = total_board_posts t"
  using assms by (auto simp: alike_fields get_balance_def get_nonce_def)

text \<open>Two calls that agree: the same exception, or results that agree.\<close>

abbreviation agree_res :: "('a \<Rightarrow> 'b \<Rightarrow> bool) \<Rightarrow> 'a res \<Rightarrow> 'b res \<Rightarrow> bool" where
  "agree_res R \<equiv> rel_sum (=) R"

lemma agree_rbind:
  assumes "agree_res R m m'" "\<And>x y. R x y \<Longrightarrow> agree_res S (f x) (f' y)"
  shows "agree_res S (rbind m f) (rbind m' f')"
  using assms by (cases m; cases m') auto

lemma agree_same: "agree_res (=) m m"
  by (cases m) auto

lemma agree_rbind_same: "(\<And>x. agree_res S (f x) (g x)) \<Longrightarrow> agree_res S (rbind m f) (rbind m g)"
  by (cases m) auto

lemma agree_foldr:
  assumes "\<And>x s t. R s t \<Longrightarrow> agree_res R (f s x) (g t x)" "R s t"
  shows "agree_res R (foldr_res f s xs) (foldr_res g t xs)"
  using assms(2)
proof (induction xs arbitrary: s t)
  case (Cons x xs)
  have "agree_res R (rbind (f s x) (\<lambda>s'. foldr_res f s' xs)) (rbind (g t x) (\<lambda>s'. foldr_res g s' xs))"
    by (rule agree_rbind[where R = R]) (rule assms(1)[OF Cons.prems], rule Cons.IH)
  then show ?case by simp
qed simp

lemma agree_credit: "alike s t \<Longrightarrow> agree_res alike (credit s a n) (credit t a n)"
  by (auto simp: credit_def alike_fields get_balance_def)

lemma agree_debit: "alike s t \<Longrightarrow> agree_res alike (debit s a n) (debit t a n)"
  by (auto simp: debit_def alike_fields get_balance_def Let_def)

lemma alike_set_nonce: "alike s t \<Longrightarrow> alike (set_nonce s a n) (set_nonce t a n)"
  by (auto simp: set_nonce_def alike_fields)

lemma agree_credit_all: "alike s t \<Longrightarrow> agree_res alike (credit_all credit s os) (credit_all credit t os)"
  unfolding credit_all_def by (rule agree_foldr) (auto intro: agree_credit)

lemma agree_pay: "alike s t \<Longrightarrow> agree_res alike (pay debit credit set_nonce s v) (pay debit credit set_nonce t v)"
  unfolding pay_def
  by (intro agree_rbind[OF agree_debit] agree_rbind[OF agree_credit_all]) (auto intro: alike_set_nonce)

lemma agree_apply_tx: "alike s t \<Longrightarrow> agree_res alike (apply_tx s x) (apply_tx t x)"
  unfolding apply_tx_def
  by (rule agree_rbind_same, rule agree_rbind[OF agree_pay], assumption) (auto simp: alike_fields)

lemma agree_apply_json_tx: "alike s t \<Longrightarrow> agree_res alike (apply_json_tx s j) (apply_json_tx t j)"
  by (cases j) (auto simp: apply_json_tx_def agree_apply_tx)

lemma agree_apply_tx_list:
  "alike s t \<Longrightarrow> agree_res (rel_prod (=) alike) (apply_tx_list P f ts s) (apply_tx_list P f ts t)"
proof (induction ts arbitrary: s t)
  case (Cons j ts)
  show ?case
  proof (cases j)
    case (JObj x)
    note r = alike_reads[OF Cons.prems]
    have "agree_res (rel_prod (=) alike) (rbind (apply_tx s x) (apply_tx_list P f ts)) (rbind (apply_tx t x) (apply_tx_list P f ts))"
      by (rule agree_rbind[OF agree_apply_tx[OF Cons.prems] Cons.IH])
    then show ?thesis unfolding JObj apply_tx_list.simps r
      by (intro agree_rbind_same) (simp add: Cons.prems split: option.split)
  qed (simp_all add: Cons.prems)
qed simp

lemma agree_apply_transactions:
  "alike s t \<Longrightarrow> agree_res (rel_prod (=) alike) (apply_transactions P blk s) (apply_transactions P blk t)"
  unfolding apply_transactions_def
  by (rule agree_rbind_same, rule agree_rbind_same) (simp add: alike_reads(4) agree_apply_tx_list)

lemma agree_block_validate:
  assumes "alike s t"
  shows "agree_res (rel_prod (=) alike) (block_validate P now blk s c) (block_validate P now blk t c)"
proof (cases "block_size P blk > BLOCK_SIZE_LIMIT")
  case True
  then show ?thesis using assms by (simp add: block_validate_def Let_def)
next
  case False
  then show ?thesis
    using assms by (auto simp: block_validate_def Let_def split: option.split
        intro!: agree_rbind[OF agree_same] agree_apply_transactions)
qed

lemma agree_mint: "alike s t \<Longrightarrow> agree_res alike (apply_reward_distribution s ps) (apply_reward_distribution t ps)"
  unfolding apply_reward_distribution_def
proof (rule agree_foldr)
  fix p :: "string \<times> int" and s t assume a: "alike s t"
  obtain x n where p: "p = (x, n)" by (cases p)
  have "agree_res alike (rbind (credit s x n) (\<lambda>s'. Inr (s'\<lparr>total_minted := total_minted s' + n\<rparr>)))
      (rbind (credit t x n) (\<lambda>s'. Inr (s'\<lparr>total_minted := total_minted s' + n\<rparr>)))"
    by (rule agree_rbind[OF agree_credit[OF a]]) (simp add: alike_fields)
  with a show "agree_res alike (case p of (addr, amount) \<Rightarrow> if amount \<ge> 1
        then rbind (credit s addr amount) (\<lambda>s'. Inr (s'\<lparr>total_minted := total_minted s' + amount\<rparr>)) else Inr s)
      (case p of (addr, amount) \<Rightarrow> if amount \<ge> 1
        then rbind (credit t addr amount) (\<lambda>s'. Inr (s'\<lparr>total_minted := total_minted s' + amount\<rparr>)) else Inr t)"
    by (simp add: p)
qed

lemma agree_reward: "alike s t \<Longrightarrow> agree_res alike (apply_builder_reward s a blk) (apply_builder_reward t a blk)"
  unfolding apply_builder_reward_def compute_block_reward_def Let_def
  by (rule agree_rbind_same, rule agree_rbind[where R = alike]) (simp_all add: agree_credit alike_reads(3) agree_mint)

lemma agree_apply_to_state: "alike s t \<Longrightarrow> agree_res alike (apply_to_state s blk) (apply_to_state t blk)"
  by (auto simp: apply_to_state_def Let_def agree_reward split: json.split)

text \<open>Chain states that agree but for the dirty set.\<close>

definition alike_cs :: "chain_state \<Rightarrow> chain_state \<Rightarrow> bool" where
  "alike_cs a b \<longleftrightarrow> cs_chain a = cs_chain b \<and> alike (cs_state a) (cs_state b)
     \<and> cumulative_iterations a = cumulative_iterations b"

lemma alike_cs_refl [simp]: "alike_cs a a"
  by (simp add: alike_cs_def)

lemma alike_cs_sym: "alike_cs a b \<Longrightarrow> alike_cs b a"
  by (auto simp: alike_cs_def alike_sym)

lemma alike_cs_trans: "alike_cs a b \<Longrightarrow> alike_cs b c \<Longrightarrow> alike_cs a c"
  by (auto simp: alike_cs_def intro: alike_trans)

lemma agree_validate_and_apply:
  assumes "alike_cs a b"
  shows "agree_res (rel_prod (=) alike_cs) (validate_and_apply P now a blk) (validate_and_apply P now b blk)"
proof -
  have c: "cs_chain a = cs_chain b" "alike (cs_state a) (cs_state b)" "cumulative_iterations a = cumulative_iterations b"
    using assms by (simp_all add: alike_cs_def)
  have w: "agree_res alike_cs (apply_block_with_state a blk s) (apply_block_with_state b blk t)" if "alike s t" for s t
    unfolding apply_block_with_state_def c
    by (intro agree_rbind[OF agree_apply_to_state[OF that]] agree_rbind[OF agree_same]) (simp add: alike_cs_def)
  show ?thesis unfolding validate_and_apply_def c(1) snapshot_id
    by (rule agree_rbind[OF agree_block_validate[OF c(2)]])
      (use assms w in \<open>auto split: option.split intro!: agree_rbind[where R = alike_cs]\<close>)
qed

lemma alike_better:
  assumes "alike_cs a b" "alike_cs c d"
  shows "is_better_than P a c = is_better_than P b d"
proof -
  have e: "cs_chain a = cs_chain b" "cumulative_iterations a = cumulative_iterations b"
    "cs_chain c = cs_chain d" "cumulative_iterations c = cumulative_iterations d"
    using assms by (simp_all add: alike_cs_def)
  show ?thesis unfolding is_better_than_def wins_tie_break_def cs_tip_def e ..
qed

lemma agree_replay_block: "alike s t \<Longrightarrow> agree_res alike (replay_block s blk) (replay_block t blk)"
  unfolding replay_block_def
  by (rule agree_rbind[OF agree_same])
    (auto intro!: agree_rbind[OF agree_same] agree_rbind[where R = alike] agree_foldr agree_apply_json_tx agree_apply_to_state)

end
