(* ===== verification/Act.thy ===== *)
theory Act
  imports Prelude
begin

text \<open>
  Methods that change an object and may raise: what the call returned or raised, together with the object as it
  then is. An exception half way leaves what was changed before it.
\<close>

section \<open>Sequencing\<close>

type_synonym ('s, 'a) act = "'s \<Rightarrow> 'a res \<times> 's"

definition return :: "'a \<Rightarrow> ('s, 'a) act" where
  "return x = (\<lambda>s. (Inr x, s))"

definition bind_act :: "('s, 'a) act \<Rightarrow> ('a \<Rightarrow> ('s, 'b) act) \<Rightarrow> ('s, 'b) act" where
  "bind_act m f = (\<lambda>s. case m s of (Inl e, s') \<Rightarrow> (Inl e, s') | (Inr x, s') \<Rightarrow> f x s')"

definition get_state :: "('s, 's) act" where
  "get_state = (\<lambda>s. (Inr s, s))"

definition lift_res :: "'a res \<Rightarrow> ('s, 'a) act" where
  "lift_res r = (\<lambda>s. (r, s))"

definition modify :: "('s \<Rightarrow> 's) \<Rightarrow> ('s, unit) act" where
  "modify f = (\<lambda>s. (Inr (), f s))"

fun for_each :: "('x \<Rightarrow> ('s, unit) act) \<Rightarrow> 'x list \<Rightarrow> ('s, unit) act" where
  "for_each f [] = return ()"
| "for_each f (x # xs) = bind_act (f x) (\<lambda>_. for_each f xs)"

lemma bind_act_Inr:
  "bind_act m f s = (Inr y, s') \<longleftrightarrow> (\<exists>x s1. m s = (Inr x, s1) \<and> f x s1 = (Inr y, s'))"
  by (auto simp: bind_act_def split: prod.splits sum.splits)

text \<open>What a call does next, once its first step is known.\<close>

lemma bind_get: "bind_act get_state g w = g w w"
  by (simp add: bind_act_def get_state_def)

lemma bind_lift: "bind_act (lift_res (Inr x)) g w = g x w"
  by (simp add: bind_act_def lift_res_def)

lemma bind_Inr: "m w = (Inr x, w') \<Longrightarrow> bind_act m g w = g x w'"
  by (simp add: bind_act_def)

lemma bind_modify: "bind_act (modify f) g w = g () (f w)"
  by (simp add: bind_act_def modify_def)

lemma bind_return: "bind_act (return x) g w = g x w"
  by (simp add: bind_act_def return_def)

lemmas bind_steps = bind_get bind_lift bind_modify bind_return

section \<open>What every part keeps\<close>

text \<open>
  A relation between the object before and after that every part keeps, whether it returns or raises. Whatever
  is reflexive and transitive composes; the components interpret the locale on what their methods leave alone.
\<close>

definition keeps :: "('s \<Rightarrow> 's \<Rightarrow> bool) \<Rightarrow> ('s, 'a) act \<Rightarrow> bool" where
  "keeps R m \<longleftrightarrow> (\<forall>s. R s (snd (m s)))"

lemma keepsD: "keeps R m \<Longrightarrow> m s = (r, s') \<Longrightarrow> R s s'"
  unfolding keeps_def by (metis snd_conv)

lemma keepsI: "(\<And>s r s'. m s = (r, s') \<Longrightarrow> R s s') \<Longrightarrow> keeps R m"
  unfolding keeps_def by (metis prod.collapse)

locale frame =
  fixes R :: "'s \<Rightarrow> 's \<Rightarrow> bool"
  assumes refl: "R a a"
    and trans: "R a b \<Longrightarrow> R b c \<Longrightarrow> R a c"
begin

lemma return: "keeps R (return x)"
  by (simp add: keeps_def return_def refl)

lemma lift: "keeps R (lift_res r)"
  by (simp add: keeps_def lift_res_def refl)

lemma bind:
  assumes "keeps R m" "\<And>x. keeps R (f x)"
  shows "keeps R (bind_act m f)"
proof (rule keepsI)
  fix s r s' assume b: "bind_act m f s = (r, s')"
  obtain q s1 where m: "m s = (q, s1)" by fastforce
  have "R s s1" by (rule keepsD[OF assms(1) m])
  moreover have "R s1 s'"
  proof (cases q)
    case (Inl e)
    with b m refl show ?thesis by (simp add: bind_act_def)
  next
    case (Inr x)
    with b m have "f x s1 = (r, s')" by (simp add: bind_act_def)
    then show ?thesis by (rule keepsD[OF assms(2)])
  qed
  ultimately show "R s s'" by (rule trans)
qed

text \<open>The same where the next part depends on what the first returns.\<close>

lemma bind_with:
  assumes "keeps R m" "\<And>s x s'. m s = (Inr x, s') \<Longrightarrow> Q x" "\<And>x. Q x \<Longrightarrow> keeps R (f x)"
  shows "keeps R (bind_act m f)"
proof (rule keepsI)
  fix s r s' assume b: "bind_act m f s = (r, s')"
  obtain q s1 where m: "m s = (q, s1)" by fastforce
  have "R s s1" by (rule keepsD[OF assms(1) m])
  moreover have "R s1 s'"
  proof (cases q)
    case (Inl e)
    with b m refl show ?thesis by (simp add: bind_act_def)
  next
    case (Inr x)
    with b m have "f x s1 = (r, s')" by (simp add: bind_act_def)
    with assms(2)[OF m[unfolded Inr]] show ?thesis by (metis keepsD assms(3))
  qed
  ultimately show "R s s'" by (rule trans)
qed

lemma for_each:
  assumes "\<And>x. x \<in> set xs \<Longrightarrow> keeps R (f x)"
  shows "keeps R (for_each f xs)"
  using assms
proof (induction xs)
  case Nil
  show ?case by (simp add: return)
next
  case (Cons x xs)
  then have "keeps R (f x)" "keeps R (for_each f xs)" by simp_all
  then show ?case by (simp add: bind)
qed

lemma cond: "keeps R a \<Longrightarrow> keeps R b \<Longrightarrow> keeps R (if c then a else b)"
  by simp

lemma opt: "keeps R a \<Longrightarrow> (\<And>x. keeps R (f x)) \<Longrightarrow> keeps R (case v of None \<Rightarrow> a | Some x \<Rightarrow> f x)"
  by (cases v) simp_all

lemma pair: "(\<And>x y. keeps R (f x y)) \<Longrightarrow> keeps R (case v of (x, y) \<Rightarrow> f x y)"
  by (cases v) simp

lemma get: "keeps R get_state"
  by (simp add: keeps_def get_state_def refl)

end

end
