(* ===== verification/Syncer.thy ===== *)
theory Syncer
  imports Act Chainstate
begin

text \<open>
  \<^verbatim>\<open>src/src/syncer.py\<close>, and the pages \<^verbatim>\<open>src/src/peer_udp.py\<close> serves to it: the search for the fork with a
  peer and the fetch of its chain, page by page, with the window that sizes the pages and the tails
  kept between passes. The network is a parameter: what the k-th request of a pass is answered and how
  long that takes. Time passes inside requests only. A page entry that is not an object is kept as an
  empty one, which fails where the other does. Percentages of a page size are exact, which agrees with
  Python's floats on every size up to the largest.
\<close>

section \<open>What the wire allows\<close>

definition MAX_SYNC_BLOCKS :: int where "MAX_SYNC_BLOCKS = 25000"
definition MAX_CHUNK_SIZE :: int where "MAX_CHUNK_SIZE = 1400"
definition MESSAGE_ENVELOPE_BYTES :: int where "MESSAGE_ENVELOPE_BYTES = 4096"
definition MAX_MESSAGE_BYTES :: int where "MAX_MESSAGE_BYTES = BLOCK_SIZE_LIMIT + MESSAGE_ENVELOPE_BYTES"
definition CHUNK_TOTAL_WIRE_LIMIT :: int where "CHUNK_TOTAL_WIRE_LIMIT = 2 ^ 15 - 1"
definition REASSEMBLY_MAX_BYTES :: int where "REASSEMBLY_MAX_BYTES = 64 * 1024 * 1024"

definition SYNC_PAGE_BYTE_BUDGET :: int where
  "SYNC_PAGE_BYTE_BUDGET = min (REASSEMBLY_MAX_BYTES div 4) (CHUNK_TOTAL_WIRE_LIMIT * MAX_CHUNK_SIZE)"

definition SYNC_TRIM_TARGET_BYTES :: int where
  "SYNC_TRIM_TARGET_BYTES = SYNC_PAGE_BYTE_BUDGET - MESSAGE_ENVELOPE_BYTES"

definition BLOCK_CHUNK_TOTAL :: int where "BLOCK_CHUNK_TOTAL = - (- MAX_MESSAGE_BYTES div MAX_CHUNK_SIZE)"
definition SYNC_CHUNK_TOTAL :: int where "SYNC_CHUNK_TOTAL = - (- SYNC_PAGE_BYTE_BUDGET div MAX_CHUNK_SIZE)"
definition CHUNK_SEND_PACING :: rat where "CHUNK_SEND_PACING = 5 / 1000"
definition FETCH_TIMEOUT_MARGIN :: rat where "FETCH_TIMEOUT_MARGIN = 2"

definition SYNC_FETCH_TIMEOUT :: rat where
  "SYNC_FETCH_TIMEOUT = of_int \<lceil>of_int SYNC_CHUNK_TOTAL * CHUNK_SEND_PACING * FETCH_TIMEOUT_MARGIN\<rceil>"

definition FORK_PROBE_TIMEOUT :: rat where
  "FORK_PROBE_TIMEOUT = of_int \<lceil>of_int BLOCK_CHUNK_TOTAL * CHUNK_SEND_PACING * FETCH_TIMEOUT_MARGIN\<rceil>"

lemmas wire_defs = MAX_SYNC_BLOCKS_def MAX_CHUNK_SIZE_def MESSAGE_ENVELOPE_BYTES_def MAX_MESSAGE_BYTES_def
  CHUNK_TOTAL_WIRE_LIMIT_def REASSEMBLY_MAX_BYTES_def SYNC_PAGE_BYTE_BUDGET_def SYNC_TRIM_TARGET_BYTES_def
  BLOCK_CHUNK_TOTAL_def SYNC_CHUNK_TOTAL_def BLOCK_SIZE_LIMIT_def

lemma wire_values: "SYNC_FETCH_TIMEOUT = 120" "FORK_PROBE_TIMEOUT = 15" "SYNC_TRIM_TARGET_BYTES = 16773120"
  "SYNC_CHUNK_TOTAL = 11984"
  by (simp_all add: SYNC_FETCH_TIMEOUT_def FORK_PROBE_TIMEOUT_def CHUNK_SEND_PACING_def FETCH_TIMEOUT_MARGIN_def
      wire_defs ceiling_eq_iff)

section \<open>The serving side\<close>

text \<open>\<open>sz\<close> is the length of a block's msgpack encoding.\<close>

fun trim_rest :: "(json \<Rightarrow> int) \<Rightarrow> int \<Rightarrow> int \<Rightarrow> json list \<Rightarrow> json list" where
  "trim_rest sz budget sent [] = []"
| "trim_rest sz budget sent (b # bs) =
     (if sent + sz b > budget then [] else b # trim_rest sz budget (sent + sz b) bs)"

definition trim_to_byte_budget :: "(json \<Rightarrow> int) \<Rightarrow> json list \<Rightarrow> int \<Rightarrow> json list" where
  "trim_to_byte_budget sz chain budget =
     (case chain of [] \<Rightarrow> [] | b # bs \<Rightarrow> b # trim_rest sz budget (sz b) bs)"

text \<open>\<^verbatim>\<open>chain[a:b]\<close> for \<open>a \<ge> 0\<close>; a negative end counts from the back.\<close>

definition py_slice :: "'a list \<Rightarrow> int \<Rightarrow> int \<Rightarrow> 'a list" where
  "py_slice xs a b = (let e = (if b < 0 then max 0 (int (length xs) + b) else b) in take (nat (e - a)) (drop (nat a) xs))"

definition chain_provider :: "blocks \<Rightarrow> int \<Rightarrow> int \<Rightarrow> json list" where
  "chain_provider chain from_h to_h = map JObj (py_slice chain from_h (to_h + 1))"

definition serve_sync :: "(json \<Rightarrow> int) \<Rightarrow> blocks \<Rightarrow> (string, json) dict \<Rightarrow> json list" where
  "serve_sync sz chain data =
     (let from_h = (case jint (get_or data ''from_h'' (JInt 0)) of Some h \<Rightarrow> if h < 0 then 0 else h | None \<Rightarrow> 0);
          capped_to = from_h + MAX_SYNC_BLOCKS - 1;
          to_h = (case jint (jget data ''to_h'') of Some h \<Rightarrow> min h capped_to | None \<Rightarrow> capped_to)
      in trim_to_byte_budget sz (chain_provider chain from_h to_h) SYNC_TRIM_TARGET_BYTES)"

section \<open>The asking side\<close>

definition FETCH_CHUNK :: int where "FETCH_CHUNK = 50"
definition MIN_FETCH_CHUNK :: int where "MIN_FETCH_CHUNK = 10"
definition MAX_FETCH_CHUNK :: int where "MAX_FETCH_CHUNK = MAX_SYNC_BLOCKS"
definition FETCH_LATENCY_GROW_BELOW :: rat where "FETCH_LATENCY_GROW_BELOW = 3 / 2"
definition FETCH_LATENCY_HOLD_BELOW :: rat where "FETCH_LATENCY_HOLD_BELOW = 3"
definition FETCH_LATENCY_BOOTSTRAP_GROW_BELOW :: rat where "FETCH_LATENCY_BOOTSTRAP_GROW_BELOW = 4 / 10"
definition FETCH_LATENCY_BOOTSTRAP_HOLD_BELOW :: rat where "FETCH_LATENCY_BOOTSTRAP_HOLD_BELOW = 3 / 4"
definition FETCH_LATENCY_EMA_WEIGHT :: rat where "FETCH_LATENCY_EMA_WEIGHT = 2 / 10"
definition FETCH_LATENCY_BASELINE_FLOOR :: rat where "FETCH_LATENCY_BASELINE_FLOOR = 2 / 100"
definition MAX_PENDING_TAIL_BLOCKS :: nat where "MAX_PENDING_TAIL_BLOCKS = 20000"
definition MAX_TOTAL_PENDING_TAIL_BLOCKS :: nat where "MAX_TOTAL_PENDING_TAIL_BLOCKS = 50000"
definition SYNC_REQUEST_RETRIES :: nat where "SYNC_REQUEST_RETRIES = 2"
definition FORK_SEARCH_WINDOW :: int where "FORK_SEARCH_WINDOW = 20"

record progress =
  p_fork_from :: int
  p_anchor_hash :: json
  p_tail :: blocks
  p_h :: int

record syncer =
  y_chunk :: "(string, int) dict"
  y_latency :: "(string, rat) dict"
  y_conclusive :: bool
  y_progress :: "(string, progress) dict"

definition syncer_init :: syncer where
  "syncer_init = \<lparr>y_chunk = [], y_latency = [], y_conclusive = True, y_progress = []\<rparr>"

text \<open>
  The network, each request with its answer (None for silence) and the seconds it took; and the world a
  pass runs in: the node, the syncer, the monotonic clock and the number of requests made.
\<close>

record net =
  net_info :: "string \<Rightarrow> rat \<Rightarrow> json option \<times> rat"
  net_sync :: "nat \<Rightarrow> string \<Rightarrow> int \<Rightarrow> rat \<Rightarrow> rat \<Rightarrow> json option \<times> rat"

record 'n world =
  w_node :: 'n
  w_sync :: syncer
  w_clock :: rat
  w_asked :: nat

definition expired :: "rat option \<Rightarrow> 'n world \<Rightarrow> bool" where
  "expired deadline w = (case deadline of None \<Rightarrow> False | Some d \<Rightarrow> w_clock w \<ge> d)"

fun request_attempts :: "net \<Rightarrow> string \<Rightarrow> int \<Rightarrow> rat \<Rightarrow> rat \<Rightarrow> rat option \<Rightarrow> nat \<Rightarrow> nat
    \<Rightarrow> ('n world, json option \<times> bool) act" where
  "request_attempts N peer from_h to_h timeout deadline 0 attempt w = (Inr (None, True), w)"
| "request_attempts N peer from_h to_h timeout deadline (Suc left) attempt w =
     (if (case deadline of None \<Rightarrow> False | Some d \<Rightarrow> d - w_clock w \<le> 0) then (Inr (None, True), w)
      else (let attempt_timeout = (case deadline of None \<Rightarrow> timeout | Some d \<Rightarrow> min timeout (d - w_clock w));
                (resp, elapsed) = net_sync N (w_asked w) peer from_h to_h attempt_timeout;
                w' = w\<lparr>w_clock := w_clock w + elapsed, w_asked := w_asked w + 1\<rparr>
            in case resp of
                 Some r \<Rightarrow> (Inr (Some r, attempt > 0), w')
               | None \<Rightarrow> request_attempts N peer from_h to_h timeout deadline left (attempt + 1) w'))"

definition request_sync_with_retry :: "net \<Rightarrow> string \<Rightarrow> int \<Rightarrow> rat \<Rightarrow> rat \<Rightarrow> rat option
    \<Rightarrow> ('n world, json option \<times> bool) act" where
  "request_sync_with_retry N peer from_h to_h timeout deadline =
     request_attempts N peer from_h to_h timeout deadline (SYNC_REQUEST_RETRIES + 1) 0"

text \<open>A non-empty list under \<^verbatim>\<open>"chain"\<close>, its first entry apart, or nothing; and \<^verbatim>\<open>page[0].get(k)\<close>.\<close>

definition page_of :: "json \<Rightarrow> (json \<times> json list) option" where
  "page_of resp = (case resp of JObj d \<Rightarrow> (case jget d ''chain'' of JArr (p # ps) \<Rightarrow> Some (p, ps) | _ \<Rightarrow> None) | _ \<Rightarrow> None)"

definition head_get :: "json \<Rightarrow> string \<Rightarrow> json res" where
  "head_get p k = (case p of JObj d \<Rightarrow> Inr (jget d k) | _ \<Rightarrow> Inl AttributeError)"

definition as_block :: "json \<Rightarrow> block" where
  "as_block j = (case j of JObj d \<Rightarrow> d | _ \<Rightarrow> [])"

definition hash_at :: "blocks \<Rightarrow> int \<Rightarrow> json res" where
  "hash_at c i = (if c = [] then Inl IndexError else read_field ''hash'' (c ! nat i))"

section \<open>The fork with a peer\<close>

datatype search = Unanswered | Highest "int option"

function highest_common :: "net \<Rightarrow> string \<Rightarrow> blocks \<Rightarrow> rat option \<Rightarrow> int \<Rightarrow> int \<Rightarrow> int option \<Rightarrow> ('n world, search) act" where
  "highest_common N peer local_chain deadline lo hi result =
     (if lo \<le> hi then
        bind_act get_state (\<lambda>w. if expired deadline w then return (Highest result)
          else (let mid = (lo + hi) div 2
                in bind_act (lift_res (hash_at local_chain mid)) (\<lambda>local_hash.
                   bind_act (request_sync_with_retry N peer mid (of_int mid) FORK_PROBE_TIMEOUT deadline) (\<lambda>(resp, _).
                     case resp of None \<Rightarrow> return Unanswered
                     | Some r \<Rightarrow> (case page_of r of
                         None \<Rightarrow> highest_common N peer local_chain deadline lo (mid - 1) result
                       | Some (p, _) \<Rightarrow> bind_act (lift_res (head_get p ''hash'')) (\<lambda>h.
                           if py_eq h local_hash
                           then highest_common N peer local_chain deadline (mid + 1) hi (Some mid)
                           else highest_common N peer local_chain deadline lo (mid - 1) result))))))
      else return (Highest result))"
  by pat_completeness auto
termination
  by (relation "measure (\<lambda>(_, _, _, _, lo, hi, _). nat (hi + 1 - lo))") auto

declare highest_common.simps [simp del]

definition widen :: "net \<Rightarrow> string \<Rightarrow> blocks \<Rightarrow> rat option \<Rightarrow> ('n world, int option) act" where
  "widen N peer local_chain deadline =
     bind_act (highest_common N peer local_chain deadline 0 (int (length local_chain) - 1) None) (\<lambda>s.
       case s of Unanswered \<Rightarrow> return None
       | Highest m \<Rightarrow> bind_act get_state (\<lambda>w. return (case m of Some k \<Rightarrow> Some (k + 1)
           | None \<Rightarrow> if expired deadline w then None else Some 0)))"

definition find_fork_point :: "net \<Rightarrow> string \<Rightarrow> blocks \<Rightarrow> rat option \<Rightarrow> ('n world, int option) act" where
  "find_fork_point N peer local_chain deadline =
     (let tip = int (length local_chain) - 1 in
      bind_act (request_sync_with_retry N peer tip (of_int tip) FORK_PROBE_TIMEOUT deadline) (\<lambda>(resp, _).
        case resp of None \<Rightarrow> return None
        | Some r \<Rightarrow>
            bind_act (case page_of r of None \<Rightarrow> return False
              | Some (p, _) \<Rightarrow> bind_act (lift_res (head_get p ''hash'')) (\<lambda>h.
                  bind_act (lift_res (hash_at local_chain tip)) (\<lambda>local_hash. return (py_eq h local_hash)))) (\<lambda>same_tip.
            if same_tip then return (Some (tip + 1))
            else bind_act get_state (\<lambda>w. if expired deadline w then return None
              else (let window_lo = max 0 (tip - FORK_SEARCH_WINDOW)
                    in if window_lo > 0
                       then bind_act (highest_common N peer local_chain deadline window_lo tip None) (\<lambda>s.
                              case s of Unanswered \<Rightarrow> return None
                              | Highest m \<Rightarrow> (case m of Some k \<Rightarrow> return (Some (k + 1))
                                | None \<Rightarrow> bind_act get_state (\<lambda>w. if expired deadline w then return None
                                    else widen N peer local_chain deadline)))
                       else widen N peer local_chain deadline)))))"

section \<open>Fetching\<close>

text \<open>The window: what the next page asks for, and the latency it is judged by.\<close>

definition next_chunk :: "bool \<Rightarrow> rat option \<Rightarrow> rat \<Rightarrow> int \<Rightarrow> int" where
  "next_chunk needed_retry baseline elapsed chunk =
     (let grow = min MAX_FETCH_CHUNK (max (chunk + 1) (chunk * 13 div 10));
          ease = max MIN_FETCH_CHUNK (chunk * 8 div 10)
      in if needed_retry then max MIN_FETCH_CHUNK (chunk * 5 div 10)
         else (case baseline of
           None \<Rightarrow>
             (let latency_frac = elapsed / SYNC_FETCH_TIMEOUT
              in if latency_frac < FETCH_LATENCY_BOOTSTRAP_GROW_BELOW then grow
                 else if latency_frac < FETCH_LATENCY_BOOTSTRAP_HOLD_BELOW then chunk else ease)
         | Some b \<Rightarrow>
             (let latency_ratio = elapsed / b
              in if latency_ratio < FETCH_LATENCY_GROW_BELOW then grow
                 else if latency_ratio < FETCH_LATENCY_HOLD_BELOW then chunk else ease)))"

definition next_baseline :: "rat option \<Rightarrow> rat \<Rightarrow> rat" where
  "next_baseline baseline elapsed = max FETCH_LATENCY_BASELINE_FLOOR (case baseline of
     None \<Rightarrow> elapsed
   | Some b \<Rightarrow> (1 - FETCH_LATENCY_EMA_WEIGHT) * b + FETCH_LATENCY_EMA_WEIGHT * elapsed)"

definition note_page :: "string \<Rightarrow> bool \<Rightarrow> rat \<Rightarrow> int \<Rightarrow> syncer \<Rightarrow> syncer" where
  "note_page peer needed_retry elapsed chunk y =
     (let baseline = map_of (y_latency y) peer;
          latency = (if needed_retry then y_latency y
                     else AList.update peer (next_baseline baseline elapsed) (y_latency y));
          chunks = AList.update peer (next_chunk needed_retry baseline elapsed chunk) (y_chunk y)
      in if length chunks > 1000 then y\<lparr>y_chunk := [], y_latency := []\<rparr>
         else y\<lparr>y_chunk := chunks, y_latency := latency\<rparr>)"

definition drop_progress :: "string \<Rightarrow> syncer \<Rightarrow> syncer" where
  "drop_progress peer y = y\<lparr>y_progress := AList.delete peer (y_progress y)\<rparr>"

definition give_up :: "string \<Rightarrow> syncer \<Rightarrow> syncer" where
  "give_up peer y = drop_progress peer (y\<lparr>y_chunk := AList.update peer MIN_FETCH_CHUNK (y_chunk y)\<rparr>)"

text \<open>A resumed tail is the very list kept for the peer, which \<^verbatim>\<open>+=\<close> extends in place.\<close>

definition extend_kept :: "bool \<Rightarrow> string \<Rightarrow> blocks \<Rightarrow> syncer \<Rightarrow> syncer" where
  "extend_kept resumed peer tail y =
     (case (resumed, map_of (y_progress y) peer) of
        (True, Some p) \<Rightarrow> y\<lparr>y_progress := AList.update peer (p\<lparr>p_tail := tail\<rparr>) (y_progress y)\<rparr>
      | _ \<Rightarrow> y)"

definition on_sync :: "(syncer \<Rightarrow> syncer) \<Rightarrow> ('n world, unit) act" where
  "on_sync f = modify (\<lambda>w. w\<lparr>w_sync := f (w_sync w)\<rparr>)"

definition on_node :: "('n, 'a) act \<Rightarrow> ('n world, 'a) act" where
  "on_node m = (\<lambda>w. case m (w_node w) of (r, n) \<Rightarrow> (r, w\<lparr>w_node := n\<rparr>))"

text \<open>
  \<open>apply_fn\<close> answers Some True (adopted), Some False (invalid) or None (valid, not better yet). A page
  ends the loop, or continues it with the tail, the page's entries but the first, the new window and
  whether it was adopted.
\<close>

datatype page_end = Stop blocks | More blocks "json list" int bool

definition use_page :: "(blocks \<Rightarrow> ('n, bool option) act) \<Rightarrow> string \<Rightarrow> blocks \<Rightarrow> bool \<Rightarrow> int \<Rightarrow> blocks \<Rightarrow> int \<Rightarrow> rat \<Rightarrow> bool
    \<Rightarrow> rat \<Rightarrow> rat option \<Rightarrow> json \<Rightarrow> json list \<Rightarrow> ('n world, page_end) act" where
  "use_page apply_fn peer prefix resumed h tail chunk to_h needed_retry elapsed baseline p ps =
     bind_act (lift_res (head_get p ''height'')) (\<lambda>got_height.
       if \<not> py_eq got_height (JInt h) \<or> of_nat (length (p # ps)) > to_h - of_int h + 1
       then bind_act (on_sync (drop_progress peer)) (\<lambda>_. return (Stop tail))
       else (let tail' = tail @ map as_block (p # ps) in
         bind_act (on_sync (extend_kept resumed peer tail')) (\<lambda>_.
         bind_act (on_node (apply_fn (prefix @ tail'))) (\<lambda>result.
           if result = Some False then bind_act (on_sync (drop_progress peer)) (\<lambda>_. return (Stop tail'))
           else bind_act (if result = Some True then on_sync (drop_progress peer) else return ()) (\<lambda>_.
             bind_act (on_sync (note_page peer needed_retry elapsed chunk)) (\<lambda>_.
             return (More tail' ps (next_chunk needed_retry baseline elapsed chunk) (result = Some True))))))))"

definition fetch_page :: "net \<Rightarrow> (blocks \<Rightarrow> ('n, bool option) act) \<Rightarrow> string \<Rightarrow> blocks \<Rightarrow> rat \<Rightarrow> rat option
    \<Rightarrow> bool \<Rightarrow> int \<Rightarrow> blocks \<Rightarrow> int \<Rightarrow> ('n world, page_end) act" where
  "fetch_page N apply_fn peer prefix remote deadline resumed h tail chunk =
     (let to_h = min (of_int (h + chunk - 1)) remote in
      bind_act get_state (\<lambda>w.
      bind_act (request_sync_with_retry N peer h to_h SYNC_FETCH_TIMEOUT deadline) (\<lambda>(resp, needed_retry).
      bind_act get_state (\<lambda>w1.
        case resp of
          None \<Rightarrow> bind_act (on_sync (give_up peer)) (\<lambda>_. return (Stop tail))
        | Some r \<Rightarrow> (case page_of r of
            None \<Rightarrow> bind_act (on_sync (drop_progress peer)) (\<lambda>_. return (Stop tail))
          | Some (p, ps) \<Rightarrow> use_page apply_fn peer prefix resumed h tail chunk to_h needed_retry
              (w_clock w1 - w_clock w) (map_of (y_latency (w_sync w1)) peer) p ps)))))"

text \<open>The loop ends with whether anything was applied, whether that is conclusive, the tail and the next height.\<close>

function fetch_pages :: "net \<Rightarrow> (blocks \<Rightarrow> ('n, bool option) act) \<Rightarrow> string \<Rightarrow> blocks \<Rightarrow> rat \<Rightarrow> nat option \<Rightarrow> rat option
    \<Rightarrow> bool \<Rightarrow> int \<Rightarrow> blocks \<Rightarrow> nat \<Rightarrow> int \<Rightarrow> bool \<Rightarrow> ('n world, bool \<times> bool \<times> blocks \<times> int) act" where
  "fetch_pages N apply_fn peer prefix remote max_pages deadline resumed h tail pages chunk applied =
     (if of_int h \<le> remote then
        bind_act get_state (\<lambda>w. if expired deadline w \<or> (case max_pages of Some m \<Rightarrow> pages \<ge> m | None \<Rightarrow> False)
          then return (applied, False, tail, h)
          else bind_act (fetch_page N apply_fn peer prefix remote deadline resumed h tail chunk) (\<lambda>e.
            case e of Stop tail' \<Rightarrow> return (applied, True, tail', h)
            | More tail' ps chunk' adopted \<Rightarrow>
                fetch_pages N apply_fn peer prefix remote max_pages deadline resumed (h + int (Suc (length ps))) tail'
                  (pages + 1) chunk' (applied \<or> adopted)))
      else return (applied, True, tail, h))"
  by pat_completeness auto
termination
  by (relation "measure (\<lambda>(_, _, _, _, remote, _, _, _, h, _). nat (\<lfloor>remote\<rfloor> + 1 - h))") (auto simp: le_floor_iff)

declare fetch_pages.simps [simp del]

text \<open>What is kept for the peer's next pass.\<close>

definition keep_progress :: "string \<Rightarrow> bool \<Rightarrow> bool \<Rightarrow> progress \<Rightarrow> syncer \<Rightarrow> syncer" where
  "keep_progress peer applied conclusive p y =
     (if \<not> conclusive \<and> \<not> applied \<and> p_tail p \<noteq> [] then
        (let others_total = sum_list (map (\<lambda>(_, q). length (p_tail q)) (filter (\<lambda>(k, _). k \<noteq> peer) (y_progress y)));
             y' = (if length (p_tail p) \<le> MAX_PENDING_TAIL_BLOCKS
                      \<and> others_total + length (p_tail p) \<le> MAX_TOTAL_PENDING_TAIL_BLOCKS
                   then y\<lparr>y_progress := AList.update peer p (y_progress y)\<rparr> else drop_progress peer y)
         in if length (y_progress y') > 1000 then y'\<lparr>y_progress := []\<rparr> else y')
      else drop_progress peer y)"

definition fetch_and_apply :: "net \<Rightarrow> (blocks \<Rightarrow> ('n, bool option) act) \<Rightarrow> string \<Rightarrow> blocks \<Rightarrow> int \<Rightarrow> json \<Rightarrow> nat option \<Rightarrow> rat option
    \<Rightarrow> ('n world, bool \<times> bool) act" where
  "fetch_and_apply N apply_fn peer local_chain fork_from remote_height max_pages deadline =
     bind_act (lift_res (if fork_from > 0 then hash_at local_chain (fork_from - 1) else Inr JNull)) (\<lambda>anchor_hash.
     bind_act get_state (\<lambda>w.
       (let chunk = get_or (y_chunk (w_sync w)) peer FETCH_CHUNK;
            prefix = take (nat fork_from) local_chain;
            (resumed, tail, h) = (case map_of (y_progress (w_sync w)) peer of
               Some p \<Rightarrow> if p_fork_from p = fork_from \<and> py_eq (p_anchor_hash p) anchor_hash
                         then (True, p_tail p, p_h p) else (False, [], fork_from)
             | None \<Rightarrow> (False, [], fork_from))
        in bind_act (lift_res (case jnum remote_height of None \<Rightarrow> Inl TypeError | Some remote \<Rightarrow> Inr remote)) (\<lambda>remote.
           bind_act (fetch_pages N apply_fn peer prefix remote max_pages deadline resumed h tail 0 chunk False)
             (\<lambda>(applied, conclusive, tail', h').
           bind_act (on_sync (keep_progress peer applied conclusive
             \<lparr>p_fork_from = fork_from, p_anchor_hash = anchor_hash, p_tail = tail', p_h = h'\<rparr>)) (\<lambda>_.
           return (applied, conclusive)))))))"

section \<open>A pass\<close>

text \<open>
  \<open>note_info\<close> is the pool's \<^verbatim>\<open>update_info\<close>, \<open>any_peer\<close> what its \<^verbatim>\<open>random()\<close> returns.
  The log lines format nothing that could raise.
\<close>

definition ask_info :: "net \<Rightarrow> string \<Rightarrow> rat \<Rightarrow> ('n world, json option) act" where
  "ask_info N peer timeout = (\<lambda>w. case net_info N peer timeout of
     (answer, took) \<Rightarrow> (Inr answer, w\<lparr>w_clock := w_clock w + took\<rparr>))"

text \<open>Whether the claimed tip is worth no fetch: less work than ours, or the same tip.\<close>

definition nothing_new :: "blocks \<Rightarrow> rat option \<Rightarrow> (string, json) dict \<Rightarrow> bool res" where
  "nothing_new local_chain local_work reply =
     (let local_height = int (length local_chain) - 1 in
      rbind (if local_chain \<noteq> [] then hash_at local_chain local_height else Inr (JStr [])) (\<lambda>local_tip.
        Inr ((case jint (jget reply ''work'') of
                Some n \<Rightarrow> of_int n < (case local_work of Some x \<Rightarrow> x | None \<Rightarrow> -1) | None \<Rightarrow> False)
             \<or> py_eq (jget reply ''height'') (JInt local_height)
                \<and> py_eq (get_or reply ''tip_hash'' (JStr [])) local_tip)))"

definition compare_and_fetch :: "net \<Rightarrow> blocks \<Rightarrow> (blocks \<Rightarrow> ('n, bool option) act) \<Rightarrow> string \<Rightarrow> json \<Rightarrow> nat option \<Rightarrow> rat option
    \<Rightarrow> ('n world, bool) act" where
  "compare_and_fetch N local_chain apply_fn peer remote_height max_pages budget =
     bind_act get_state (\<lambda>w.
       (let deadline = map_option (\<lambda>b. w_clock w + b) budget in
        bind_act (find_fork_point N peer local_chain deadline) (\<lambda>fork.
          case fork of None \<Rightarrow> return False
          | Some fork_from \<Rightarrow>
              bind_act (fetch_and_apply N apply_fn peer local_chain fork_from remote_height max_pages deadline)
                (\<lambda>(applied_any, conclusive).
              bind_act (on_sync (\<lambda>y. y\<lparr>y_conclusive := conclusive\<rparr>)) (\<lambda>_. return applied_any)))))"

definition check_and_sync :: "net \<Rightarrow> (string \<Rightarrow> json \<Rightarrow> json \<Rightarrow> json \<Rightarrow> ('n, unit) act) \<Rightarrow> string option \<Rightarrow> blocks
    \<Rightarrow> (blocks \<Rightarrow> ('n, bool option) act) \<Rightarrow> string option \<Rightarrow> rat \<Rightarrow> rat option \<Rightarrow> nat option \<Rightarrow> rat option \<Rightarrow> ('n world, bool) act" where
  "check_and_sync N note_info any_peer local_chain apply_fn peer info_timeout local_work max_pages budget =
     bind_act (on_sync (\<lambda>y. y\<lparr>y_conclusive := True\<rparr>)) (\<lambda>_.
       case (if peer = None then any_peer else peer) of
         None \<Rightarrow> return False
       | Some who \<Rightarrow>
           if who = [] then return False
           else bind_act (ask_info N who info_timeout) (\<lambda>answer.
             (case answer of None \<Rightarrow> return False
             | Some j \<Rightarrow> (case j of
                 JObj reply \<Rightarrow>
                   if \<not> has_key reply ''height'' then return False
                   else bind_act (on_node (note_info who (jget reply ''height'') (get_or reply ''version'' (JStr []))
                          (get_or reply ''tip_hash'' (JStr [])))) (\<lambda>_.
                        bind_act (lift_res (nothing_new local_chain local_work reply)) (\<lambda>skip.
                          if skip then return False
                          else compare_and_fetch N local_chain apply_fn who (jget reply ''height'') max_pages budget))
               | _ \<Rightarrow> return False))))"

section \<open>Bounds on what the syncer keeps\<close>

text \<open>
  The window of every peer stays within its bounds, and the tails kept between passes within theirs, for
  each peer and in total.
\<close>

definition chunks_ok :: "syncer \<Rightarrow> bool" where
  "chunks_ok y \<longleftrightarrow> (\<forall>(_, c)\<in>set (y_chunk y). MIN_FETCH_CHUNK \<le> c \<and> c \<le> MAX_FETCH_CHUNK)"

definition tail_size :: "(string, progress) dict \<Rightarrow> nat" where
  "tail_size d = sum_list (map (\<lambda>(_, p). length (p_tail p)) d)"

definition others :: "string \<Rightarrow> syncer \<Rightarrow> (string, progress) dict" where
  "others peer y = filter (\<lambda>(k, _). k \<noteq> peer) (y_progress y)"

definition tails_ok :: "syncer \<Rightarrow> bool" where
  "tails_ok y \<longleftrightarrow> wf_dict (y_progress y) \<and> tail_size (y_progress y) \<le> MAX_TOTAL_PENDING_TAIL_BLOCKS
     \<and> (\<forall>(_, p)\<in>set (y_progress y). length (p_tail p) \<le> MAX_PENDING_TAIL_BLOCKS)
     \<and> length (y_progress y) \<le> 1000"

lemma next_chunk_bounds:
  assumes "MIN_FETCH_CHUNK \<le> c" "c \<le> MAX_FETCH_CHUNK"
  shows "MIN_FETCH_CHUNK \<le> next_chunk r b e c" "next_chunk r b e c \<le> MAX_FETCH_CHUNK"
proof -
  have d: "c * 13 div 10 \<le> c * 13" "c * 8 div 10 \<le> c" "c * 5 div 10 \<le> c"
    using assms(1) unfolding MIN_FETCH_CHUNK_def by linarith+
  show "MIN_FETCH_CHUNK \<le> next_chunk r b e c" "next_chunk r b e c \<le> MAX_FETCH_CHUNK"
    using assms d unfolding next_chunk_def Let_def
    by (auto simp: MIN_FETCH_CHUNK_def MAX_FETCH_CHUNK_def MAX_SYNC_BLOCKS_def split: option.split)
qed

text \<open>A part of a pass with one peer: the other peers' tails are untouched.\<close>

definition own_only :: "string \<Rightarrow> 'n world \<Rightarrow> 'n world \<Rightarrow> bool" where
  "own_only peer w w' \<longleftrightarrow> others peer (w_sync w') = others peer (w_sync w)
     \<and> (wf_dict (y_progress (w_sync w)) \<longrightarrow> wf_dict (y_progress (w_sync w')))
     \<and> (chunks_ok (w_sync w) \<longrightarrow> chunks_ok (w_sync w'))"

interpretation own: frame "own_only peer" for peer
  by unfold_locales (auto simp: own_only_def)

lemma others_update: "filter (\<lambda>(k, _). k \<noteq> peer) (AList.update peer v d) = filter (\<lambda>(k, _). k \<noteq> peer) d"
  by (induction d) auto

lemma others_delete: "filter (\<lambda>(k, _). k \<noteq> peer) (AList.delete peer d) = filter (\<lambda>(k, _). k \<noteq> peer) d"
  by (induction d) auto

lemma in_update: "(k, v) \<in> set (AList.update a b d) \<Longrightarrow> (k, v) = (a, b) \<or> (k, v) \<in> set d"
  by (induction d) (auto split: if_splits)

lemma chunks_update: "chunks_ok y \<Longrightarrow> MIN_FETCH_CHUNK \<le> c \<Longrightarrow> c \<le> MAX_FETCH_CHUNK \<Longrightarrow>
    chunks_ok (y\<lparr>y_chunk := AList.update peer c (y_chunk y)\<rparr>)"
  unfolding chunks_ok_def by (auto dest!: in_update)

lemma own_on_sync:
  assumes "\<And>y. others peer (f y) = others peer y" "\<And>y. wf_dict (y_progress y) \<Longrightarrow> wf_dict (y_progress (f y))"
    "\<And>y. chunks_ok y \<Longrightarrow> chunks_ok (f y)"
  shows "keeps (own_only peer) (on_sync f)"
  using assms by (simp add: keeps_def on_sync_def modify_def own_only_def)

lemma own_request: "keeps (own_only peer) (request_sync_with_retry N who a b t d)"
proof -
  have "own_only peer w (snd (request_attempts N who a b t d left k w))" for left k and w :: "'n world"
  proof (induction left arbitrary: k w)
    case (Suc left)
    have "own_only peer w (w\<lparr>w_clock := x, w_asked := y\<rparr>)" for x y by (simp add: own_only_def)
    then have "own_only peer w (snd (request_attempts N who a b t d left k' (w\<lparr>w_clock := x, w_asked := y\<rparr>)))" for k' x y
      using own.trans Suc by blast
    moreover have "own_only peer w (w\<lparr>w_clock := x, w_asked := y\<rparr>)" for x y by (simp add: own_only_def)
    ultimately show ?case by (auto simp: Let_def own.refl split: prod.split option.split)
  qed (simp add: own.refl)
  then show ?thesis unfolding keeps_def request_sync_with_retry_def by blast
qed

lemma own_node: "keeps (own_only peer) (on_node m)"
  by (auto simp: keeps_def on_node_def own_only_def split: prod.split)

lemma own_drop: "keeps (own_only peer) (on_sync (drop_progress peer))"
  by (rule own_on_sync) (simp_all add: drop_progress_def others_def others_delete chunks_ok_def)

lemma own_give_up: "keeps (own_only peer) (on_sync (give_up peer))"
proof (rule own_on_sync)
  show "chunks_ok (give_up peer y)" if "chunks_ok y" for y
    using chunks_update[OF that, of MIN_FETCH_CHUNK peer]
    by (simp add: give_up_def drop_progress_def chunks_ok_def MIN_FETCH_CHUNK_def MAX_FETCH_CHUNK_def MAX_SYNC_BLOCKS_def)
qed (simp_all add: give_up_def drop_progress_def others_def others_delete)

lemma own_extend: "keeps (own_only peer) (on_sync (extend_kept resumed peer tail))"
  by (rule own_on_sync)
    (auto simp: extend_kept_def others_def others_update chunks_ok_def split: option.split bool.split)

lemma own_note_page:
  assumes "MIN_FETCH_CHUNK \<le> c" "c \<le> MAX_FETCH_CHUNK"
  shows "keeps (own_only peer) (on_sync (note_page peer r e c))"
proof (rule own_on_sync)
  show "chunks_ok (note_page peer r e c y)" if "chunks_ok y" for y
  proof -
    have "chunks_ok (y\<lparr>y_chunk := AList.update peer (next_chunk r b e c) (y_chunk y)\<rparr>)" for b
      using chunks_update[OF that] next_chunk_bounds[OF assms] by blast
    then show ?thesis by (simp add: note_page_def Let_def chunks_ok_def)
  qed
qed (simp_all add: note_page_def Let_def others_def)

lemmas own_parts = own.bind own.lift own.return own_request own_node own_drop own_give_up own_extend own_note_page

lemma own_use_page:
  assumes "MIN_FETCH_CHUNK \<le> chunk" "chunk \<le> MAX_FETCH_CHUNK"
  shows "keeps (own_only peer) (use_page f peer prefix resumed h tail chunk to_h nr el b p ps)"
  unfolding use_page_def Let_def by (intro own_parts own.cond assms)

lemma own_fetch_page:
  assumes "MIN_FETCH_CHUNK \<le> chunk" "chunk \<le> MAX_FETCH_CHUNK"
  shows "keeps (own_only peer) (fetch_page N f peer prefix remote dl resumed h tail chunk)"
  unfolding fetch_page_def Let_def
  by (intro own.get own.bind own_request own.pair own.opt own_use_page[OF assms] own_drop own_give_up own.return)

lemma fetch_pages_end:
  "\<not> of_int h \<le> remote \<Longrightarrow> fetch_pages N f peer prefix remote mp dl resumed h tail pages chunk applied w
     = (Inr (applied, True, tail, h), w)"
  "of_int h \<le> remote \<Longrightarrow> expired dl w \<or> (case mp of Some m \<Rightarrow> pages \<ge> m | None \<Rightarrow> False) \<Longrightarrow>
     fetch_pages N f peer prefix remote mp dl resumed h tail pages chunk applied w = (Inr (applied, False, tail, h), w)"
  by (subst fetch_pages.simps, simp add: return_def bind_act_def get_state_def)+

lemma fetch_pages_page:
  assumes "of_int h \<le> remote" "\<not> (expired dl w \<or> (case mp of Some m \<Rightarrow> pages \<ge> m | None \<Rightarrow> False))"
    and "fetch_page N f peer prefix remote dl resumed h tail chunk w = (e, w1)"
  shows "fetch_pages N f peer prefix remote mp dl resumed h tail pages chunk applied w
    = (case e of Inl x \<Rightarrow> (Inl x, w1)
       | Inr q \<Rightarrow> (case q of Stop t \<Rightarrow> (Inr (applied, True, t, h), w1)
         | More t ps c ok \<Rightarrow> fetch_pages N f peer prefix remote mp dl resumed (h + int (Suc (length ps))) t
           (pages + 1) c (applied \<or> ok) w1))"
proof -
  have "fetch_pages N f peer prefix remote mp dl resumed h tail pages chunk applied w
    = bind_act (fetch_page N f peer prefix remote dl resumed h tail chunk) (\<lambda>e.
            case e of Stop tail' \<Rightarrow> return (applied, True, tail', h)
            | More tail' ps chunk' adopted \<Rightarrow>
                fetch_pages N f peer prefix remote mp dl resumed (h + int (Suc (length ps))) tail'
                  (pages + 1) chunk' (applied \<or> adopted)) w"
    using assms(1,2) by (subst fetch_pages.simps) (simp add: bind_act_def get_state_def)
  with assms(3) show ?thesis by (cases e; cases "projr e") (simp_all add: bind_act_def return_def)
qed

text \<open>What a page that continues the loop was.\<close>

lemma fetch_page_More:
  assumes "fetch_page N f peer prefix remote dl resumed h tail chunk w = (Inr (More tail' ps chunk' ok), w')"
  obtains r nr w1 p ht res where
    "request_sync_with_retry N peer h (min (of_int (h + chunk - 1)) remote) SYNC_FETCH_TIMEOUT dl w = (Inr (Some r, nr), w1)"
    "page_of r = Some (p, ps)" "head_get p ''height'' = Inr ht" "py_eq ht (JInt h)"
    "tail' = tail @ map as_block (p # ps)" "f (prefix @ tail') (w_node w1) = (Inr res, w_node w')" "res \<noteq> Some False"
    "ok = (res = Some True)"
    "chunk' = next_chunk nr (map_of (y_latency (w_sync w1)) peer) (w_clock w1 - w_clock w) chunk"
proof -
  let ?to = "min (of_int (h + chunk - 1)) remote"
  obtain q w1 where rq: "request_sync_with_retry N peer h ?to SYNC_FETCH_TIMEOUT dl w = (q, w1)" by fastforce
  with assms obtain r nr p ps' where r: "q = Inr (Some r, nr)" "page_of r = Some (p, ps')"
    by (auto simp: fetch_page_def Let_def bind_act_def get_state_def on_sync_def modify_def return_def
        split: sum.splits prod.splits option.splits)
  let ?el = "w_clock w1 - w_clock w" and ?b = "map_of (y_latency (w_sync w1)) peer"
  have u: "use_page f peer prefix resumed h tail chunk ?to nr ?el ?b p ps' w1 = (Inr (More tail' ps chunk' ok), w')"
    using assms rq r by (simp add: fetch_page_def Let_def bind_act_def get_state_def)
  then obtain ht where h: "head_get p ''height'' = Inr ht"
    by (cases "head_get p ''height''") (auto simp: use_page_def bind_act_def lift_res_def)
  with u have c: "py_eq ht (JInt h)" "\<not> of_nat (length (p # ps')) > ?to - of_int h + 1"
    by (auto simp: use_page_def bind_act_def lift_res_def on_sync_def modify_def return_def split: if_splits)
  let ?t = "tail @ map as_block (p # ps')"
  obtain res n where f: "f (prefix @ ?t) (w_node w1) = (Inr res, n)"
    using u h c by (cases "f (prefix @ ?t) (w_node w1)"; cases "fst (f (prefix @ ?t) (w_node w1))")
      (auto simp: use_page_def Let_def bind_act_def lift_res_def on_sync_def on_node_def modify_def)
  with u h c have res: "res \<noteq> Some False"
    by (auto simp: use_page_def Let_def bind_act_def lift_res_def on_sync_def on_node_def modify_def return_def)
  from u h c f res have "tail' = ?t" "ps = ps'" "ok = (res = Some True)" "w_node w' = n"
    "chunk' = next_chunk nr ?b ?el chunk"
    by (auto simp: use_page_def Let_def bind_act_def lift_res_def on_sync_def on_node_def modify_def return_def split: if_splits)
  with rq r h c(1) f res show thesis by (intro that[of r nr w1 p ht res]) simp_all
qed

lemma own_fetch:
  assumes "MIN_FETCH_CHUNK \<le> chunk" "chunk \<le> MAX_FETCH_CHUNK"
  shows "keeps (own_only peer) (fetch_pages N f peer prefix remote mp dl resumed h tail pages chunk applied)"
  using assms
proof (induction "nat (\<lfloor>remote\<rfloor> + 1 - h)" arbitrary: h tail pages chunk applied rule: less_induct)
  case less
  let ?loop = "fetch_pages N f peer prefix remote mp dl resumed"
  show ?case
  proof (rule keepsI)
    fix w r w' assume run: "?loop h tail pages chunk applied w = (r, w')"
    show "own_only peer w w'"
    proof (cases "of_int h \<le> remote \<and> \<not> (expired dl w \<or> (case mp of Some m \<Rightarrow> pages \<ge> m | None \<Rightarrow> False))")
      case True
      obtain e w1 where p: "fetch_page N f peer prefix remote dl resumed h tail chunk w = (e, w1)" by fastforce
      have o: "own_only peer w w1" by (rule keepsD[OF own_fetch_page[OF less.prems] p])
      note eq = fetch_pages_page[OF conjunct1[OF True] conjunct2[OF True] p]
      show ?thesis
      proof (cases e)
        case (Inl x)
        with run eq o show ?thesis by simp
      next
        case e: (Inr q)
        show ?thesis
        proof (cases q)
          case (Stop t)
          with run eq e o show ?thesis by simp
        next
          case (More t ps c ok)
          obtain nr b el where "c = next_chunk nr b el chunk" by (rule fetch_page_More[OF p[unfolded e More]])
          with next_chunk_bounds[OF less.prems] have "MIN_FETCH_CHUNK \<le> c" "c \<le> MAX_FETCH_CHUNK" by simp_all
          then have k: "keeps (own_only peer) (?loop (h + int (Suc (length ps))) t (pages + 1) c (applied \<or> ok))"
            using True by (intro less.hyps) (auto simp: le_floor_iff)
          have "?loop (h + int (Suc (length ps))) t (pages + 1) c (applied \<or> ok) w1 = (r, w')"
            using run unfolding eq e More by simp
          from own.trans[OF o keepsD[OF k this]] show ?thesis .
        qed
      qed
    next
      case False
      then have "w' = w" using run by (cases "of_int h \<le> remote") (auto simp: fetch_pages_end)
      then show ?thesis by (simp add: own.refl)
    qed
  qed
qed

text \<open>What is kept at the end is within the bounds again, whatever happened to the peer's own tail meanwhile.\<close>

lemma tail_size_update:
  "tail_size (AList.update peer p d) \<le> tail_size (filter (\<lambda>(k, _). k \<noteq> peer) d) + length (p_tail p)"
  if "wf_dict d"
  using that
proof (induction d)
  case (Cons kv d)
  obtain k v where kv: "kv = (k, v)" by fastforce
  have "filter (\<lambda>(k, _). k \<noteq> peer) d = d" if "k = peer"
    using Cons.prems kv that by (force simp: filter_id_conv)
  then show ?case using Cons kv by (auto simp: tail_size_def)
qed (simp add: tail_size_def)

lemma tail_size_filter: "tail_size (filter P d) \<le> tail_size d"
  by (induction d) (auto simp: tail_size_def)

lemma delete_filter: "AList.delete peer d = filter (\<lambda>(k, _). k \<noteq> peer) d"
  by (induction d) auto

lemma keep_progress_bounds:
  assumes w: "wf_dict (y_progress y)" and o: "tail_size (others peer y) \<le> MAX_TOTAL_PENDING_TAIL_BLOCKS"
    "\<forall>(_, p)\<in>set (others peer y). length (p_tail p) \<le> MAX_PENDING_TAIL_BLOCKS" "length (others peer y) \<le> 1000"
  shows "tails_ok (keep_progress peer ap con p y)"
proof -
  have drop: "tails_ok (drop_progress peer y)"
    using o w wf_dict_delete[OF w, of peer] by (auto simp: tails_ok_def drop_progress_def delete_filter others_def)
  have sz: "sum_list (map (\<lambda>(_, q). length (p_tail q)) (filter (\<lambda>(k, _). k \<noteq> peer) (y_progress y))) = tail_size (others peer y)"
    by (simp add: tail_size_def others_def)
  have upd: "tails_ok (y\<lparr>y_progress := AList.update peer p (y_progress y)\<rparr>)"
    if "length (p_tail p) \<le> MAX_PENDING_TAIL_BLOCKS" "tail_size (others peer y) + length (p_tail p) \<le> MAX_TOTAL_PENDING_TAIL_BLOCKS"
      "length (AList.update peer p (y_progress y)) \<le> 1000"
  proof -
    have "\<forall>(_, q)\<in>set (AList.update peer p (y_progress y)). length (p_tail q) \<le> MAX_PENDING_TAIL_BLOCKS"
    proof clarify
      fix k q assume "(k, q) \<in> set (AList.update peer p (y_progress y))"
      then have "(k, q) = (peer, p) \<or> (k, q) \<in> set (AList.update peer p (y_progress y)) \<and> k \<noteq> peer"
        using w by (metis distinct_update map_of_is_SomeI map_of_update_iff option.inject)
      then show "length (p_tail q) \<le> MAX_PENDING_TAIL_BLOCKS"
        using that(1) o(2) by (auto simp: others_def dest: in_update)
    qed
    moreover have "tail_size (AList.update peer p (y_progress y)) \<le> MAX_TOTAL_PENDING_TAIL_BLOCKS"
      using tail_size_update[OF w, of peer p] that(2) by (simp add: others_def)
    ultimately show ?thesis using w that(3) by (simp add: tails_ok_def)
  qed
  show ?thesis
    using drop upd by (auto simp: keep_progress_def Let_def sz tails_ok_def tail_size_def)
qed

lemma chunks_keep: "chunks_ok (keep_progress peer ap con p y) = chunks_ok y"
  by (simp add: keep_progress_def drop_progress_def chunks_ok_def Let_def)

text \<open>Searching for the fork changes nothing but the clock and the number of requests.\<close>

definition only_asks :: "'n world \<Rightarrow> 'n world \<Rightarrow> bool" where
  "only_asks w w' \<longleftrightarrow> w_sync w' = w_sync w \<and> w_node w' = w_node w"

text \<open>
  What the requests respect, the search for the fork respects; what the bookkeeping and the node's methods
  respect besides, the fetch does.
\<close>

locale asking = frame R for R :: "'n world \<Rightarrow> 'n world \<Rightarrow> bool" +
  fixes N :: net and dl :: "rat option"
  assumes request: "0 \<le> t \<Longrightarrow> keeps R (request_sync_with_retry N who a b t dl)"
begin

lemma probe: "keeps R (request_sync_with_retry N who a b FORK_PROBE_TIMEOUT dl)"
  by (rule request) (simp add: wire_values)

lemma page: "keeps R (request_sync_with_retry N who a b SYNC_FETCH_TIMEOUT dl)"
  by (rule request) (simp add: wire_values)

lemma highest_common: "keeps R (highest_common N peer c dl lo hi res)"
proof (induction "nat (hi + 1 - lo)" arbitrary: lo hi res rule: less_induct)
  case less
  show ?case
  proof (cases "lo \<le> hi")
    case True
    have IH1: "keeps R (highest_common N peer c dl lo ((lo + hi) div 2 - 1) res')" for res'
      by (rule less.hyps) (use True in simp)
    have IH2: "keeps R (highest_common N peer c dl ((lo + hi) div 2 + 1) hi res')" for res'
      by (rule less.hyps) (use True in simp)
    show ?thesis
      by (subst highest_common.simps, unfold if_P[OF True] Let_def)
        (intro get bind lift cond opt pair return probe IH1 IH2)
  next
    case False
    then show ?thesis by (subst highest_common.simps) (simp add: return)
  qed
qed

lemma find_fork_point: "keeps R (find_fork_point N peer c dl)"
proof -
  have s: "keeps R (case q of Unanswered \<Rightarrow> return None | Highest m \<Rightarrow> f m)" if "\<And>m. keeps R (f m)"
    for q and f :: "int option \<Rightarrow> ('n world, int option) act" using that by (cases q) (simp_all add: return)
  have w: "keeps R (widen N peer c dl)"
    unfolding widen_def by (intro bind highest_common s get return)
  show ?thesis unfolding find_fork_point_def Let_def
    by (intro get bind lift cond opt pair return probe highest_common w s)
qed

end

locale fetching = asking +
  fixes f :: "blocks \<Rightarrow> ('n, bool option) act"
  assumes on_sync: "keeps R (on_sync g)"
    and on_node: "keeps R (on_node (f chain))"
begin

lemma use_page: "keeps R (use_page f peer prefix resumed h tail chunk to_h nr el b p ps)"
  unfolding use_page_def Let_def by (intro bind lift cond return on_sync on_node)

lemma fetch_page: "keeps R (fetch_page N f peer prefix remote dl resumed h tail chunk)"
  unfolding fetch_page_def Let_def by (intro get bind page pair opt use_page on_sync return)

lemma fetch_pages: "keeps R (fetch_pages N f peer prefix remote mp dl resumed h tail pages chunk applied)"
proof (induction "nat (\<lfloor>remote\<rfloor> + 1 - h)" arbitrary: h tail pages chunk applied rule: less_induct)
  case less
  show ?case
  proof (cases "of_int h \<le> remote")
    case True
    have IH: "keeps R (fetch_pages N f peer prefix remote mp dl resumed (h + int (Suc k)) t pages' ch ap)" for k t pages' ch ap
      by (rule less.hyps) (use True in \<open>auto simp: le_floor_iff\<close>)
    have e: "keeps R (case e of Stop tail' \<Rightarrow> return (applied, True, tail', h)
        | More tail' ps chunk' adopted \<Rightarrow> fetch_pages N f peer prefix remote mp dl resumed (h + int (Suc (length ps))) tail'
                  (pages + 1) chunk' (applied \<or> adopted))" for e
      by (cases e) (simp_all only: page_end.case IH return)
    show ?thesis
      by (subst fetch_pages.simps, unfold if_P[OF True]) (intro get bind cond return fetch_page e)
  next
    case False
    then show ?thesis by (subst fetch_pages.simps) (simp add: return)
  qed
qed

lemma fetch_and_apply: "keeps R (fetch_and_apply N f peer c fork rh mp dl)"
  unfolding fetch_and_apply_def Let_def by (intro bind lift get pair fetch_pages on_sync return)

end

interpretation asks: asking only_asks N dl for N dl
proof unfold_locales
  fix t :: rat and who :: string and a :: int and b :: rat
  have "only_asks w (snd (request_attempts N who a b t dl left k w))" for left k and w :: "'a world"
  proof (induction left arbitrary: k w)
    case (Suc left)
    have "only_asks w (snd (request_attempts N who a b t dl left k' (w\<lparr>w_clock := x, w_asked := y\<rparr>)))" for k' x y
      using Suc[of "w\<lparr>w_clock := x, w_asked := y\<rparr>" k'] by (simp add: only_asks_def)
    then show ?case by (auto simp: Let_def only_asks_def split: prod.split option.split)
  qed (simp add: only_asks_def)
  then show "keeps only_asks (request_sync_with_retry N who a b t dl :: ('a world, json option \<times> bool) act)"
    unfolding keeps_def request_sync_with_retry_def by blast
qed (simp_all add: only_asks_def)

text \<open>What the node's method and the note of an answer keep of the node, a whole pass keeps.\<close>

definition node_keeps :: "('n \<Rightarrow> bool) \<Rightarrow> 'n world \<Rightarrow> 'n world \<Rightarrow> bool" where
  "node_keeps I w w' \<longleftrightarrow> (I (w_node w) \<longrightarrow> I (w_node w'))"

definition tame :: "('n \<Rightarrow> bool) \<Rightarrow> (blocks \<Rightarrow> ('n, bool option) act) \<Rightarrow> blocks \<Rightarrow> ('n, bool option) act" where
  "tame I f = (if \<forall>c n. I n \<longrightarrow> I (snd (f c n)) then f else (\<lambda>_. return None))"

lemma tame_keeps: "I n \<Longrightarrow> I (snd (tame I f c n))"
  by (simp add: tame_def return_def)

interpretation kept: fetching "node_keeps I" N dl "tame I f" for I N dl f
proof unfold_locales
  fix t :: rat and who :: string and a :: int and b :: rat
  assume "0 \<le> t"
  from asks.request[OF this, of N who a b dl] show "keeps (node_keeps I) (request_sync_with_retry N who a b t dl :: ('a world, json option \<times> bool) act)"
    unfolding keeps_def only_asks_def node_keeps_def by metis
next
  show "keeps (node_keeps I) (on_node (tame I f chain))" for chain
    using tame_keeps[of I] by (auto simp: keeps_def node_keeps_def on_node_def split: prod.split) (metis snd_conv)
qed (auto simp: node_keeps_def keeps_def on_sync_def modify_def)

lemma pass_keeps:
  assumes f: "\<And>c n. I n \<Longrightarrow> I (snd (f c n))" and nt: "\<And>who h v t n. I n \<Longrightarrow> I (snd (note_info who h v t n))"
    and w: "I (w_node w)"
  shows "I (w_node (snd (check_and_sync N note_info any_peer c f peer t work mp b w)))"
proof -
  have tf: "tame I f = f" using f by (simp add: tame_def)
  have n: "keeps (node_keeps I) (on_node (note_info who h v t'))" for who h v t'
    using nt by (auto simp: keeps_def node_keeps_def on_node_def split: prod.split) (metis snd_conv)
  have i: "keeps (node_keeps I) (ask_info N who t)" for who
    by (auto simp: keeps_def node_keeps_def ask_info_def split: prod.split)
  have fe: "keeps (node_keeps I) (fetch_and_apply N f who c from_h rh mp dl)" for who from_h rh dl
    using kept.fetch_and_apply[where I = I and f = f] unfolding tf by blast
  have cf: "keeps (node_keeps I) (compare_and_fetch N c f who rh mp b)" for who rh
    unfolding compare_and_fetch_def Let_def
    by (intro kept.bind kept.get kept.opt kept.pair kept.return kept.find_fork_point kept.on_sync fe)
  have ans: "keeps (node_keeps I) (case j of JObj reply \<Rightarrow> g reply | _ \<Rightarrow> return False)"
    if "\<And>reply. keeps (node_keeps I) (g reply)" for j g
    using that by (cases j) (simp_all add: kept.return)
  have "keeps (node_keeps I) (check_and_sync N note_info any_peer c f peer t work mp b)"
    unfolding check_and_sync_def
    by (intro kept.bind kept.on_sync kept.opt kept.cond kept.return i ans n kept.lift cf)
  then show ?thesis using w by (simp add: keeps_def node_keeps_def)
qed

text \<open>A condition that every part restores before it returns, and a weaker one that holds where it raises.\<close>

definition guards :: "('s \<Rightarrow> bool) \<Rightarrow> ('s \<Rightarrow> bool) \<Rightarrow> ('s, 'a) act \<Rightarrow> bool" where
  "guards I J m \<longleftrightarrow> (\<forall>s. I s \<longrightarrow> (case m s of (Inl _, s') \<Rightarrow> J s' | (Inr _, s') \<Rightarrow> I s'))"

lemma guards_bind:
  assumes "guards I J m" "\<And>x. guards I J (f x)"
  shows "guards I J (bind_act m f)"
  unfolding guards_def
proof (intro allI impI)
  fix s assume "I s"
  obtain r s1 where m: "m s = (r, s1)" by fastforce
  show "case bind_act m f s of (Inl _, s') \<Rightarrow> J s' | (Inr _, s') \<Rightarrow> I s'"
  proof (cases r)
    case (Inl e)
    with assms(1) \<open>I s\<close> m show ?thesis by (auto simp: guards_def bind_act_def)
  next
    case (Inr x)
    with assms(1) \<open>I s\<close> m have "I s1" by (auto simp: guards_def)
    with assms(2)[of x] have "case f x s1 of (Inl _, s') \<Rightarrow> J s' | (Inr _, s') \<Rightarrow> I s'" by (simp add: guards_def)
    with m Inr show ?thesis by (simp add: bind_act_def)
  qed
qed

lemma guards_parts:
  "guards I J (return x)" "guards I J get_state"
  "guards I J a \<Longrightarrow> guards I J b \<Longrightarrow> guards I J (if c then a else b)"
  "guards I J a \<Longrightarrow> (\<And>x. guards I J (g x)) \<Longrightarrow> guards I J (case v of None \<Rightarrow> a | Some x \<Rightarrow> g x)"
  "(\<And>x y. guards I J (h x y)) \<Longrightarrow> guards I J (case p of (x, y) \<Rightarrow> h x y)"
  by (auto simp: guards_def return_def get_state_def split: option.split prod.split)

definition bounded :: "'n world \<Rightarrow> bool" where
  "bounded w \<longleftrightarrow> chunks_ok (w_sync w) \<and> tails_ok (w_sync w)"

definition half_bounded :: "'n world \<Rightarrow> bool" where
  "half_bounded w \<longleftrightarrow> chunks_ok (w_sync w)"

lemma guards_only_asks: "keeps only_asks m \<Longrightarrow> guards bounded half_bounded m"
  unfolding guards_def
  by (auto simp: bounded_def half_bounded_def only_asks_def dest: keepsD split: prod.split sum.split)

lemma guards_lift: "guards bounded half_bounded (lift_res r)"
  by (auto simp: guards_def lift_res_def bounded_def half_bounded_def split: sum.split)

lemma guards_on_node: "guards bounded half_bounded (on_node m)"
  by (auto simp: guards_def on_node_def bounded_def half_bounded_def split: sum.split prod.split)

lemma guards_conclusive: "guards bounded half_bounded (on_sync (\<lambda>y. y\<lparr>y_conclusive := b\<rparr>))"
  by (auto simp: guards_def on_sync_def modify_def bounded_def half_bounded_def chunks_ok_def tails_ok_def)

lemma guards_ask_info: "guards bounded half_bounded (ask_info N peer t)"
  by (auto simp: guards_def ask_info_def bounded_def half_bounded_def split: prod.split)

lemma chunks_at:
  assumes "chunks_ok y"
  shows "MIN_FETCH_CHUNK \<le> get_or (y_chunk y) peer FETCH_CHUNK" "get_or (y_chunk y) peer FETCH_CHUNK \<le> MAX_FETCH_CHUNK"
  using assms unfolding chunks_ok_def get_or_def
  by (auto simp: MIN_FETCH_CHUNK_def MAX_FETCH_CHUNK_def MAX_SYNC_BLOCKS_def FETCH_CHUNK_def split: option.split dest!: map_of_SomeD)

lemma guards_fetch: "guards bounded half_bounded (fetch_and_apply N f peer c fork rh mp dl)"
proof -
  have core: "guards bounded half_bounded (\<lambda>w. bind_act (fetch_pages N f peer prefix remote mp dl resumed h tail 0
      (get_or (y_chunk (w_sync w)) peer FETCH_CHUNK) False) (\<lambda>(ap, con, tail', h').
        bind_act (on_sync (keep_progress peer ap con (q tail' h'))) (\<lambda>_. return (ap, con))) w)"
    for prefix remote resumed h tail q
    unfolding guards_def
  proof (intro allI impI)
    fix w :: "'a world" assume b: "bounded w"
    let ?ch = "get_or (y_chunk (w_sync w)) peer FETCH_CHUNK"
    have c: "chunks_ok (w_sync w)" and t: "tails_ok (w_sync w)" using b by (simp_all add: bounded_def)
    obtain r w1 where p: "fetch_pages N f peer prefix remote mp dl resumed h tail 0 ?ch False w = (r, w1)" by fastforce
    have o: "own_only peer w w1" by (rule keepsD[OF own_fetch[OF chunks_at[OF c]] p])
    then have "chunks_ok (w_sync w1)" "wf_dict (y_progress (w_sync w1))" "others peer (w_sync w1) = others peer (w_sync w)"
      using c t by (simp_all add: own_only_def tails_ok_def)
    moreover have "tail_size (others peer (w_sync w)) \<le> MAX_TOTAL_PENDING_TAIL_BLOCKS"
      "\<forall>(_, p)\<in>set (others peer (w_sync w)). length (p_tail p) \<le> MAX_PENDING_TAIL_BLOCKS"
      "length (others peer (w_sync w)) \<le> 1000"
    proof -
      show "tail_size (others peer (w_sync w)) \<le> MAX_TOTAL_PENDING_TAIL_BLOCKS"
        using t order_trans[OF tail_size_filter] unfolding tails_ok_def others_def by blast
      show "\<forall>(_, p)\<in>set (others peer (w_sync w)). length (p_tail p) \<le> MAX_PENDING_TAIL_BLOCKS"
        using t unfolding tails_ok_def others_def by simp
      show "length (others peer (w_sync w)) \<le> 1000"
        using t order_trans[OF length_filter_le] unfolding tails_ok_def others_def by blast
    qed
    ultimately have k: "tails_ok (keep_progress peer ap con p (w_sync w1))" "chunks_ok (keep_progress peer ap con p (w_sync w1))"
      for ap con p by (simp_all add: keep_progress_bounds chunks_keep)
    show "case bind_act (fetch_pages N f peer prefix remote mp dl resumed h tail 0 ?ch False) (\<lambda>(ap, con, tail', h').
        bind_act (on_sync (keep_progress peer ap con (q tail' h'))) (\<lambda>_. return (ap, con))) w of
      (Inl _, s') \<Rightarrow> half_bounded s' | (Inr _, s') \<Rightarrow> bounded s'"
      using p k \<open>chunks_ok (w_sync w1)\<close>
      by (cases r) (auto simp: bind_act_def on_sync_def modify_def return_def bounded_def half_bounded_def)
  qed
  have get: "guards bounded half_bounded (bind_act get_state g)" if "guards bounded half_bounded (\<lambda>w. g w w)" for g :: "'a world \<Rightarrow> ('a world, bool \<times> bool) act"
    using that by (simp add: guards_def bind_act_def get_state_def)
  have "guards bounded half_bounded (\<lambda>w.
      (let chunk = get_or (y_chunk (w_sync w)) peer FETCH_CHUNK; prefix = take (nat fork) c;
           (resumed, tail, h) = (case map_of (y_progress (w_sync w)) peer of
               Some p \<Rightarrow> if p_fork_from p = fork \<and> py_eq (p_anchor_hash p) anchor then (True, p_tail p, p_h p) else (False, [], fork)
             | None \<Rightarrow> (False, [], fork))
       in bind_act (lift_res (case jnum rh of None \<Rightarrow> Inl TypeError | Some remote \<Rightarrow> Inr remote)) (\<lambda>remote.
           bind_act (fetch_pages N f peer prefix remote mp dl resumed h tail 0 chunk False) (\<lambda>(ap, con, tail', h').
           bind_act (on_sync (keep_progress peer ap con
             \<lparr>p_fork_from = fork, p_anchor_hash = anchor, p_tail = tail', p_h = h'\<rparr>)) (\<lambda>_. return (ap, con))))) w)" for anchor
    unfolding guards_def
  proof (intro allI impI)
    fix w :: "'a world" assume b: "bounded w"
    obtain resumed tail h where s: "(case map_of (y_progress (w_sync w)) peer of
               Some p \<Rightarrow> if p_fork_from p = fork \<and> py_eq (p_anchor_hash p) anchor then (True, p_tail p, p_h p) else (False, [], fork)
             | None \<Rightarrow> (False, [], fork)) = (resumed, tail, h)" by (rule prod_cases3)
    show "case (let chunk = get_or (y_chunk (w_sync w)) peer FETCH_CHUNK; prefix = take (nat fork) c;
           (resumed, tail, h) = (case map_of (y_progress (w_sync w)) peer of
               Some p \<Rightarrow> if p_fork_from p = fork \<and> py_eq (p_anchor_hash p) anchor then (True, p_tail p, p_h p) else (False, [], fork)
             | None \<Rightarrow> (False, [], fork))
       in bind_act (lift_res (case jnum rh of None \<Rightarrow> Inl TypeError | Some remote \<Rightarrow> Inr remote)) (\<lambda>remote.
           bind_act (fetch_pages N f peer prefix remote mp dl resumed h tail 0 chunk False) (\<lambda>(ap, con, tail', h').
           bind_act (on_sync (keep_progress peer ap con
             \<lparr>p_fork_from = fork, p_anchor_hash = anchor, p_tail = tail', p_h = h'\<rparr>)) (\<lambda>_. return (ap, con))))) w of
      (Inl _, s') \<Rightarrow> half_bounded s' | (Inr _, s') \<Rightarrow> bounded s'"
      unfolding s Let_def prod.case
      using core[of "take (nat fork) c" _ resumed h tail "\<lambda>t h. \<lparr>p_fork_from = fork, p_anchor_hash = anchor, p_tail = t, p_h = h\<rparr>",
          unfolded guards_def, rule_format, OF b] b
      by (cases "jnum rh") (simp_all add: bind_act_def lift_res_def bounded_def half_bounded_def)
  qed
  then show ?thesis unfolding fetch_and_apply_def by (intro guards_bind guards_lift get)
qed

lemma guards_compare: "guards bounded half_bounded (compare_and_fetch N c f peer rh mp b)"
  unfolding compare_and_fetch_def Let_def
  by (intro guards_bind guards_parts guards_only_asks[OF asks.find_fork_point] guards_fetch guards_conclusive)

lemma guards_check: "guards bounded half_bounded (check_and_sync N note_info any_peer c f peer t work mp b)"
proof -
  have ans: "guards bounded half_bounded (case j of JObj reply \<Rightarrow> g reply | _ \<Rightarrow> return False)"
    if "\<And>reply. guards bounded half_bounded (g reply)" for j and g :: "(string, json) dict \<Rightarrow> ('a world, bool) act"
    using that by (cases j) (simp_all add: guards_parts(1))
  show ?thesis unfolding check_and_sync_def
    by (intro guards_bind guards_conclusive guards_parts guards_ask_info ans guards_on_node guards_lift guards_compare)
qed

text \<open>What the syncer keeps between passes stays bounded, whatever a peer answers: the page size of every
  peer stays between 10 and 25000, and after every pass that returns the kept tails hold at most 20000 blocks
  of any one peer and 50000 in all.\<close>

theorem syncer_stays_bounded:
  assumes "chunks_ok (w_sync w)" and "tails_ok (w_sync w)"
  shows "case check_and_sync N note_info any_peer c f peer t work mp b w of
      (r, w') \<Rightarrow> chunks_ok (w_sync w') \<and> (case r of Inl _ \<Rightarrow> True | Inr _ \<Rightarrow> tails_ok (w_sync w'))"
  using guards_check[unfolded guards_def, rule_format, of w N note_info any_peer c f peer t work mp b] assms
  by (auto simp: bounded_def half_bounded_def split: sum.splits prod.splits)

lemma syncer_init_bounded: "chunks_ok syncer_init" "tails_ok syncer_init"
  by (simp_all add: syncer_init_def chunks_ok_def tails_ok_def tail_size_def)

section \<open>The budget\<close>

text \<open>What the transport promises: a request takes no longer than the timeout it is given.\<close>

definition timely :: "net \<Rightarrow> bool" where
  "timely N \<longleftrightarrow> (\<forall>k who a b t. 0 \<le> t \<longrightarrow> 0 \<le> snd (net_sync N k who a b t) \<and> snd (net_sync N k who a b t) \<le> t)
     \<and> (\<forall>who t. 0 \<le> t \<longrightarrow> 0 \<le> snd (net_info N who t) \<and> snd (net_info N who t) \<le> t)"

definition not_past :: "rat \<Rightarrow> 'n world \<Rightarrow> 'n world \<Rightarrow> bool" where
  "not_past d w w' \<longleftrightarrow> w_clock w \<le> w_clock w' \<and> w_clock w' \<le> max (w_clock w) d"

text \<open>A sound network, or one that answers nothing at once in its place.\<close>

definition clipped :: "net \<Rightarrow> net" where
  "clipped N = (if timely N then N else \<lparr>net_info = \<lambda>_ _. (None, 0), net_sync = \<lambda>_ _ _ _ _. (None, 0)\<rparr>)"

lemma timely_clipped: "timely (clipped N)"
  by (simp add: clipped_def) (simp add: timely_def)

interpretation pace: fetching "not_past d" "clipped N" "Some d" f for d N f
proof unfold_locales
  fix t :: rat and who :: string and a :: int and b :: rat
  assume t: "0 \<le> t"
  have "not_past d w (snd (request_attempts (clipped N) who a b t (Some d) left k w))" for left k and w :: "'a world"
  proof (induction left arbitrary: k w)
    case (Suc left)
    show ?case
    proof (cases "d - w_clock w \<le> 0")
      case False
      obtain resp el where r: "net_sync (clipped N) (w_asked w) who a b (min t (d - w_clock w)) = (resp, el)" by fastforce
      have el: "0 \<le> el" "el \<le> min t (d - w_clock w)"
        using timely_clipped[of N, unfolded timely_def, THEN conjunct1, rule_format, of "min t (d - w_clock w)" "w_asked w" who a b]
          t False r by auto
      then have n: "not_past d w (w\<lparr>w_clock := w_clock w + el, w_asked := y\<rparr>)" for y by (simp add: not_past_def)
      have "not_past d w (snd (request_attempts (clipped N) who a b t (Some d) left k' (w\<lparr>w_clock := w_clock w + el, w_asked := y\<rparr>)))" for k' y
        using Suc[of "w\<lparr>w_clock := w_clock w + el, w_asked := y\<rparr>" k'] n[of y] by (auto simp: not_past_def)
      with n show ?thesis using False r by (simp add: Let_def split: option.split)
    qed (simp add: not_past_def)
  qed (simp add: not_past_def)
  then show "keeps (not_past d) (request_sync_with_retry (clipped N) who a b t (Some d) :: ('a world, json option \<times> bool) act)"
    unfolding keeps_def request_sync_with_retry_def by blast
qed (auto simp: not_past_def keeps_def on_sync_def on_node_def modify_def split: prod.split)

lemma compare_in_time:
  assumes "timely N" "0 \<le> b" "compare_and_fetch N c f peer rh mp (Some b) w = (r, w')"
  shows "w_clock w \<le> w_clock w' \<and> w_clock w' \<le> w_clock w + b"
proof -
  let ?d = "w_clock w + b"
  have N: "clipped N = N" using assms(1) by (simp add: clipped_def)
  have "keeps (not_past ?d) (bind_act (find_fork_point N peer c (Some ?d)) (\<lambda>fork.
          case fork of None \<Rightarrow> return False
          | Some fork_from \<Rightarrow>
              bind_act (fetch_and_apply N f peer c fork_from rh mp (Some ?d)) (\<lambda>(applied_any, conclusive).
              bind_act (on_sync (\<lambda>y. y\<lparr>y_conclusive := conclusive\<rparr>)) (\<lambda>_. return applied_any))))"
    using pace.find_fork_point[of ?d N] pace.fetch_and_apply[where d = ?d and N = N and f = f]
    by (intro pace.bind pace.opt pace.pair pace.return pace.on_sync) (simp_all add: N)
  moreover have "bind_act (find_fork_point N peer c (Some ?d)) (\<lambda>fork.
          case fork of None \<Rightarrow> return False
          | Some fork_from \<Rightarrow>
              bind_act (fetch_and_apply N f peer c fork_from rh mp (Some ?d)) (\<lambda>(applied_any, conclusive).
              bind_act (on_sync (\<lambda>y. y\<lparr>y_conclusive := conclusive\<rparr>)) (\<lambda>_. return applied_any))) w = (r, w')"
    using assms(3) unfolding compare_and_fetch_def Let_def bind_act_def[of get_state] by (simp add: get_state_def)
  ultimately have "not_past ?d w w'" by (rule keepsD)
  then show ?thesis using assms(2) by (simp add: not_past_def)
qed

lemma pass_steps:
  "bind_act (on_sync h) g w = g () (w\<lparr>w_sync := h (w_sync w)\<rparr>)"
  "net_info N who t = (answer, el) \<Longrightarrow> bind_act (ask_info N who t) k w = k answer (w\<lparr>w_clock := w_clock w + el\<rparr>)"
  by (simp_all add: bind_act_def on_sync_def modify_def ask_info_def)

lemma after_info_in_time:
  assumes "timely N" "0 \<le> b" "bind_act (on_node m) (\<lambda>_. bind_act (lift_res q) (\<lambda>skip. if skip then return False
      else compare_and_fetch N c f peer rh mp (Some b))) w = (r, w')"
  shows "w_clock w \<le> w_clock w' \<and> w_clock w' \<le> w_clock w + b"
proof -
  obtain x n where m: "m (w_node w) = (x, n)" by fastforce
  let ?w = "w\<lparr>w_node := n\<rparr>"
  show ?thesis
  proof (cases "(\<exists>y. x = Inr y) \<and> q = Inr False")
    case True
    with assms(3) m have "compare_and_fetch N c f peer rh mp (Some b) ?w = (r, w')"
      by (auto simp: bind_act_def on_node_def lift_res_def)
    from compare_in_time[OF assms(1,2) this] show ?thesis by simp
  next
    case False
    with assms(3) m have "w' = ?w"
      by (cases x; cases q) (auto simp: bind_act_def on_node_def lift_res_def return_def split: if_splits)
    with assms(2) show ?thesis by simp
  qed
qed


section \<open>A peer that serves its chain\<close>

text \<open>The pages of the serving side: a non-empty run of blocks from the height asked for, or nothing past the end.\<close>

lemma trim_rest_prefix: "\<exists>m \<le> length bs. trim_rest sz budget sent bs = take m bs"
proof (induction sz budget sent bs rule: trim_rest.induct)
  case (2 sz budget sent b bs)
  show ?case
  proof (cases "sent + sz b > budget")
    case False
    with 2 obtain m where "m \<le> length bs" "trim_rest sz budget (sent + sz b) bs = take m bs" by blast
    with False show ?thesis by (intro exI[of _ "Suc m"]) simp
  qed (intro exI[of _ 0], simp)
qed simp

lemma trim_prefix: "\<exists>m \<le> length xs. trim_to_byte_budget sz xs budget = take m xs \<and> (xs \<noteq> [] \<longrightarrow> 0 < m)"
proof (cases xs)
  case (Cons y ys)
  obtain k where "k \<le> length ys" "trim_rest sz budget (sz y) ys = take k ys" using trim_rest_prefix by blast
  with Cons show ?thesis by (intro exI[of _ "Suc k"]) (simp add: trim_to_byte_budget_def)
qed (simp add: trim_to_byte_budget_def)

lemma serve_sync_slice:
  assumes "0 \<le> a" "a \<le> b"
  shows "\<exists>m. serve_sync sz chain [(''from_h'', JInt a), (''to_h'', JInt b)] = map JObj (take m (drop (nat a) chain))
    \<and> int m \<le> b - a + 1 \<and> m \<le> length chain - nat a \<and> (a < int (length chain) \<longrightarrow> 0 < m)"
proof -
  let ?to = "min b (a + MAX_SYNC_BLOCKS - 1)"
  let ?xs = "map JObj (py_slice chain a (?to + 1)) :: json list"
  have e: "serve_sync sz chain [(''from_h'', JInt a), (''to_h'', JInt b)] = trim_to_byte_budget sz ?xs SYNC_TRIM_TARGET_BYTES"
    using assms(1) by (simp add: serve_sync_def chain_provider_def get_or_def jget_def Let_def)
  have x: "?xs = map JObj (take (nat (?to + 1 - a)) (drop (nat a) chain))"
    using assms by (simp add: py_slice_def MAX_SYNC_BLOCKS_def)
  obtain m where m: "m \<le> length ?xs" "trim_to_byte_budget sz ?xs SYNC_TRIM_TARGET_BYTES = take m ?xs" "?xs \<noteq> [] \<longrightarrow> 0 < m"
    using trim_prefix by blast
  have l: "length ?xs = min (nat (?to + 1 - a)) (length chain - nat a)" unfolding x by (simp add: min.commute)
  have "take m ?xs = map JObj (take m (drop (nat a) chain))"
  proof -
    have "m \<le> nat (?to + 1 - a)" using m(1) l by simp
    then show ?thesis unfolding x by (simp add: take_map min_absorb1)
  qed
  moreover have "int m \<le> b - a + 1" "m \<le> length chain - nat a"
  proof -
    have "0 \<le> ?to + 1 - a" using assms by (simp add: MAX_SYNC_BLOCKS_def)
    moreover have "m \<le> nat (?to + 1 - a)" using m(1) l by simp
    ultimately have "int m \<le> ?to + 1 - a" by (simp add: le_nat_iff)
    with min.cobounded1[of b "a + MAX_SYNC_BLOCKS - 1"] show "int m \<le> b - a + 1" by linarith
    show "m \<le> length chain - nat a" using m(1) unfolding l by (rule min.boundedE)
  qed
  moreover have "0 < m" if "a < int (length chain)"
  proof -
    have "0 < ?to + 1 - a" "0 < length chain - nat a" using assms that by (auto simp: MAX_SYNC_BLOCKS_def)
    then have "0 < length ?xs" unfolding l by simp
    then show ?thesis using m(3) by (metis length_greater_0_conv)
  qed
  ultimately show ?thesis using e m(2) by auto
qed

text \<open>The peer answers every request with such a page of one chain.\<close>

definition honest :: "net \<Rightarrow> string \<Rightarrow> (json \<Rightarrow> int) \<Rightarrow> blocks \<Rightarrow> bool" where
  "honest N peer sz remote \<longleftrightarrow> (\<forall>k a b t. fst (net_sync N k peer a (of_int b) t)
     = Some (JObj [(''chain'', JArr (serve_sync sz remote [(''from_h'', JInt a), (''to_h'', JInt b)]))]))"

lemma honest_request:
  assumes "honest N peer sz remote" "0 \<le> a" "a \<le> b"
  obtains w' m where "request_sync_with_retry N peer a (of_int b) t None w
      = (Inr (Some (JObj [(''chain'', JArr (map JObj (take m (drop (nat a) remote))))]), False), w')"
    "w_sync w' = w_sync w" "w_node w' = w_node w"
    "int m \<le> b - a + 1" "m \<le> length remote - nat a" "a < int (length remote) \<Longrightarrow> 0 < m"
proof -
  obtain m where m: "serve_sync sz remote [(''from_h'', JInt a), (''to_h'', JInt b)] = map JObj (take m (drop (nat a) remote))"
    "int m \<le> b - a + 1" "m \<le> length remote - nat a" "a < int (length remote) \<longrightarrow> 0 < m"
    using serve_sync_slice[OF assms(2,3)] by blast
  obtain resp el where r: "net_sync N (w_asked w) peer a (of_int b) t = (resp, el)" by fastforce
  with assms(1) m(1) have "resp = Some (JObj [(''chain'', JArr (map JObj (take m (drop (nat a) remote))))])"
    unfolding honest_def by (metis fst_conv)
  with r m show thesis
    by (intro that[of m "w\<lparr>w_clock := w_clock w + el, w_asked := w_asked w + 1\<rparr>"])
      (simp_all add: request_sync_with_retry_def SYNC_REQUEST_RETRIES_def eval_nat_numeral)
qed

lemma page_of_slice:
  "page_of (JObj [(''chain'', JArr (map JObj (take m (drop i c))))])
    = (if 0 < m \<and> i < length c then Some (JObj (c ! i), map JObj (take (m - 1) (drop (Suc i) c))) else None)"
proof (cases "0 < m \<and> i < length c")
  case True
  then have "take m (drop i c) = c ! i # take (m - 1) (drop (Suc i) c)"
    by (cases m) (simp_all add: Cons_nth_drop_Suc[symmetric])
  with True show ?thesis by (simp add: page_of_def jget_def get_or_def)
next
  case False
  then have "take m (drop i c) = []" by auto
  with False show ?thesis by (auto simp: page_of_def jget_def get_or_def)
qed

text \<open>Two chains that agree exactly below \<open>c\<close>.\<close>

definition common_prefix :: "nat \<Rightarrow> blocks \<Rightarrow> blocks \<Rightarrow> bool" where
  "common_prefix c a b \<longleftrightarrow> c \<le> length a \<and> c \<le> length b
     \<and> (\<forall>i. i < length a \<longrightarrow> i < length b \<longrightarrow> (agree a b i \<longleftrightarrow> i < c))"

definition hashed :: "blocks \<Rightarrow> bool" where
  "hashed c \<longleftrightarrow> (\<forall>b\<in>set c. \<exists>s. map_of b ''hash'' = Some (JStr s))"

lemma hash_at_hashed:
  assumes "hashed c" "i < length c"
  obtains s where "hash_at c (int i) = Inr (JStr s)" "hash_of (c ! i) = JStr s"
proof -
  from assms obtain s where "map_of (c ! i) ''hash'' = Some (JStr s)" unfolding hashed_def by (meson nth_mem)
  moreover have "c \<noteq> []" using assms(2) by auto
  ultimately show thesis by (intro that[of s]) (simp_all add: hash_at_def read_field_def hash_of_def jget_def get_or_def)
qed

text \<open>The binary search finds the last common block at or above \<open>lo\<close>.\<close>

lemma highest_common_exact:
  assumes "honest N peer sz remote" "hashed c" "common_prefix k c remote"
  shows "0 \<le> lo \<Longrightarrow> hi < int (length c) \<Longrightarrow> int k \<le> hi + 1 \<Longrightarrow> \<exists>w'. highest_common N peer c None lo hi res w
    = (Inr (Highest (if lo < int k then Some (int k - 1) else res)), w') \<and> w_sync w' = w_sync w \<and> w_node w' = w_node w"
proof (induction "nat (hi + 1 - lo)" arbitrary: lo hi res w rule: less_induct)
  case less
  show ?case
  proof (cases "lo \<le> hi")
    case False
    with less.prems show ?thesis
      by (subst highest_common.simps) (auto simp: return_def intro!: exI[of _ w])
  next
    case True
    define mid where "mid = (lo + hi) div 2"
    have mid: "lo \<le> mid" "mid \<le> hi" using True by (simp_all add: mid_def)
    have mc: "nat mid < length c" "int (nat mid) = mid" using mid less.prems by auto
    obtain s where s: "hash_at c mid = Inr (JStr s)" "hash_of (c ! nat mid) = JStr s"
      using hash_at_hashed[OF assms(2) mc(1)] mc(2) by metis
    obtain w1 m where r: "request_sync_with_retry N peer mid (of_int mid) FORK_PROBE_TIMEOUT None w
        = (Inr (Some (JObj [(''chain'', JArr (map JObj (take m (drop (nat mid) remote))))]), False), w1)"
      "w_sync w1 = w_sync w" "w_node w1 = w_node w" "mid < int (length remote) \<Longrightarrow> 0 < m" "m \<le> length remote - nat mid"
      by (rule honest_request[OF assms(1), of mid mid FORK_PROBE_TIMEOUT w]) (use mid less.prems in auto)
    have run: "highest_common N peer c None lo hi res w
      = (case page_of (JObj [(''chain'', JArr (map JObj (take m (drop (nat mid) remote))))]) of
           None \<Rightarrow> highest_common N peer c None lo (mid - 1) res
         | Some (p, _) \<Rightarrow> bind_act (lift_res (head_get p ''hash'')) (\<lambda>h. if py_eq h (JStr s)
             then highest_common N peer c None (mid + 1) hi (Some mid)
             else highest_common N peer c None lo (mid - 1) res)) w1"
      using True by (subst highest_common.simps)
        (simp add: bind_get bind_lift bind_Inr[of "request_sync_with_retry N peer mid (of_int mid) FORK_PROBE_TIMEOUT None", OF r(1)] expired_def mid_def[symmetric] s(1) Let_def)
    have le: "nat mid < length remote \<Longrightarrow> agree c remote (nat mid) \<longleftrightarrow> nat mid < k"
      using assms(3) mc(1) by (simp add: common_prefix_def)
    have kr: "k \<le> length remote" using assms(3) by (simp add: common_prefix_def)
    show ?thesis
    proof (cases "mid < int k")
      case True
      then have "nat mid < k" using mc by linarith
      then have lt: "nat mid < length remote" "agree c remote (nat mid)" using kr le by auto
      then have "hash_of (remote ! nat mid) = JStr s" using s(2) by (simp add: agree_def)
      moreover have "0 < m" using r(4) lt mc by simp
      ultimately have e: "highest_common N peer c None lo hi res w = highest_common N peer c None (mid + 1) hi (Some mid) w1"
        unfolding run page_of_slice using lt by (simp add: head_get_def hash_of_def bind_lift)
      have "\<exists>w'. highest_common N peer c None (mid + 1) hi (Some mid) w1
          = (Inr (Highest (if mid + 1 < int k then Some (int k - 1) else Some mid)), w') \<and> w_sync w' = w_sync w1 \<and> w_node w' = w_node w1"
        by (rule less.hyps) (use mid less.prems in auto)
      moreover have "(if mid + 1 < int k then Some (int k - 1) else Some mid) = (if lo < int k then Some (int k - 1) else res)"
        using True mid by auto
      ultimately show ?thesis unfolding e using r(2,3) by simp
    next
      case False
      have e: "highest_common N peer c None lo hi res w = highest_common N peer c None lo (mid - 1) res w1"
      proof (cases "0 < m \<and> nat mid < length remote")
        case True
        then have "\<not> agree c remote (nat mid)" using le False mc by auto
        then have "hash_of (remote ! nat mid) \<noteq> JStr s" using s(2) by (simp add: agree_def)
        with True show ?thesis unfolding run page_of_slice by (simp add: head_get_def hash_of_def bind_lift)
      next
        case False
        then show ?thesis unfolding run page_of_slice by auto
      qed
      have "\<exists>w'. highest_common N peer c None lo (mid - 1) res w1
          = (Inr (Highest (if lo < int k then Some (int k - 1) else res)), w') \<and> w_sync w' = w_sync w1 \<and> w_node w' = w_node w1"
        by (rule less.hyps) (use mid less.prems False in auto)
      then show ?thesis unfolding e using r(2,3) by simp
    qed
  qed
qed

lemma widen_exact:
  assumes "honest N peer sz remote" "hashed c" "common_prefix k c remote"
  shows "\<exists>w'. widen N peer c None w = (Inr (Some (int k)), w') \<and> w_sync w' = w_sync w \<and> w_node w' = w_node w"
proof -
  have "int k \<le> int (length c) - 1 + 1" using assms(3) by (simp add: common_prefix_def)
  from highest_common_exact[OF assms order.refl _ this, of None w] obtain w' where
    "highest_common N peer c None 0 (int (length c) - 1) None w = (Inr (Highest (if 0 < int k then Some (int k - 1) else None)), w')"
    "w_sync w' = w_sync w" "w_node w' = w_node w" by auto
  then show ?thesis by (auto simp: widen_def bind_Inr bind_get return_def expired_def)
qed

text \<open>The fork search is exact: against a peer that serves its chain, with no deadline, it returns the
  number of blocks the two chains share, after the single probe of the tip, the search of the last twenty
  heights or that of the whole chain, and changes nothing of the syncer or the node.\<close>

theorem fork_search_exact:
  assumes "honest N peer sz remote" and "hashed c" and "common_prefix k c remote" and "c \<noteq> []"
  shows "\<exists>w'. find_fork_point N peer c None w = (Inr (Some (int k)), w') \<and> w_sync w' = w_sync w \<and> w_node w' = w_node w"
proof -
  let ?tip = "int (length c) - 1"
  have tc: "nat ?tip < length c" "int (nat ?tip) = ?tip" "0 \<le> ?tip" using assms(4) by (cases c; simp)+
  obtain s where s: "hash_at c ?tip = Inr (JStr s)" "hash_of (c ! nat ?tip) = JStr s"
    using hash_at_hashed[OF assms(2) tc(1)] tc(2) by metis
  obtain w1 m where r: "request_sync_with_retry N peer ?tip (of_int ?tip) FORK_PROBE_TIMEOUT None w
      = (Inr (Some (JObj [(''chain'', JArr (map JObj (take m (drop (nat ?tip) remote))))]), False), w1)"
    "w_sync w1 = w_sync w" "w_node w1 = w_node w" "?tip < int (length remote) \<Longrightarrow> 0 < m"
    by (rule honest_request[OF assms(1) tc(3) order.refl, of FORK_PROBE_TIMEOUT w]) auto
  define same where "same \<longleftrightarrow> 0 < m \<and> nat ?tip < length remote \<and> hash_of (remote ! nat ?tip) = JStr s"
  define lo where "lo = max 0 (?tip - FORK_SEARCH_WINDOW)"
  let ?rest = "if same then return (Some (?tip + 1))
     else if lo > 0 then bind_act (highest_common N peer c None lo ?tip None) (\<lambda>s.
       case s of Unanswered \<Rightarrow> return None | Highest m \<Rightarrow> (case m of Some k \<Rightarrow> return (Some (k + 1))
         | None \<Rightarrow> bind_act get_state (\<lambda>w. if expired None w then return None else widen N peer c None)))
     else widen N peer c None"
  let ?probe = "case page_of (JObj [(''chain'', JArr (map JObj (take m (drop (nat ?tip) remote))))]) of None \<Rightarrow> return False
    | Some (p, _) \<Rightarrow> bind_act (lift_res (head_get p ''hash'')) (\<lambda>h.
        bind_act (lift_res (hash_at c ?tip)) (\<lambda>local_hash. return (py_eq h local_hash)))"
  have probe: "?probe w1 = (Inr same, w1)"
    by (simp add: same_def page_of_slice head_get_def hash_of_def s(1) bind_act_def lift_res_def return_def)
  have run: "find_fork_point N peer c None w = ?rest w1"
    unfolding find_fork_point_def Let_def bind_Inr[of "request_sync_with_retry N peer ?tip (of_int ?tip) FORK_PROBE_TIMEOUT None", OF r(1)]
      prod.case option.case bind_Inr[of ?probe, OF probe]
    by (cases same) (simp_all add: bind_get expired_def lo_def)
  have kl: "k \<le> length c" "k \<le> length remote" "\<And>i. i < length c \<Longrightarrow> i < length remote \<Longrightarrow> agree c remote i \<longleftrightarrow> i < k"
    using assms(3) by (simp_all add: common_prefix_def)
  show ?thesis
  proof (cases same)
    case True
    then have "agree c remote (nat ?tip)" "nat ?tip < length remote" using s(2) by (simp_all add: agree_def same_def)
    with kl(3)[OF tc(1)] have "nat ?tip < k" by blast
    with kl(1) tc have "int k = ?tip + 1" by linarith
    with True r(2,3) show ?thesis unfolding run by (simp add: return_def)
  next
    case False
    have wd: "\<exists>w'. widen N peer c None w2 = (Inr (Some (int k)), w') \<and> w_sync w' = w_sync w \<and> w_node w' = w_node w"
      if "w_sync w2 = w_sync w" "w_node w2 = w_node w" for w2
      using widen_exact[OF assms(1-3), of w2] that by simp
    show ?thesis
    proof (cases "lo > 0")
      case True
      have "int k \<le> ?tip + 1" using kl(1) by simp
      from highest_common_exact[OF assms(1-3) _ _ this, of lo None w1] lo_def obtain w2 where h:
        "highest_common N peer c None lo ?tip None w1 = (Inr (Highest (if lo < int k then Some (int k - 1) else None)), w2)"
        "w_sync w2 = w_sync w" "w_node w2 = w_node w" using r(2,3) by auto
      have "find_fork_point N peer c None w = (if lo < int k then return (Some (int k)) else widen N peer c None) w2"
        unfolding run using False True by (simp add: bind_Inr[of "highest_common N peer c None lo ?tip None", OF h(1)] bind_get expired_def)
      with h(2,3) wd[of w2] show ?thesis by (auto simp: return_def)
    next
      case no: False
      with False have "find_fork_point N peer c None w = widen N peer c None w1" unfolding run by simp
      with wd[of w1] r(2,3) show ?thesis by simp
    qed
  qed
qed

section \<open>Catching up\<close>

text \<open>
  The client of a fetch: it never rejects a prefix of the chain the peer serves, nor raises on one, as long as
  its own condition \<open>I\<close> holds, which it keeps. Each height is where it belongs.
\<close>

definition accepts :: "('n \<Rightarrow> bool) \<Rightarrow> nat \<Rightarrow> blocks \<Rightarrow> (blocks \<Rightarrow> ('n, bool option) act) \<Rightarrow> bool" where
  "accepts I k remote f \<longleftrightarrow> (\<forall>j n. k < j \<longrightarrow> j \<le> length remote \<longrightarrow> I n \<longrightarrow>
     (\<exists>x n'. f (take j remote) n = (Inr x, n') \<and> x \<noteq> Some False \<and> I n'))"

definition placed_heights :: "blocks \<Rightarrow> bool" where
  "placed_heights c \<longleftrightarrow> (\<forall>i<length c. py_eq (jget (c ! i) ''height'') (JInt (int i)))"

lemma py_eq_int: "py_eq (JInt a) (JInt b) \<longleftrightarrow> a = b"
  by (simp add: py_eq_def)

lemma use_page_ok:
  assumes "head_get p ''height'' = Inr ht" "py_eq ht (JInt h)" "\<not> of_nat (length (p # ps)) > to_h - of_int h + 1"
    "f (prefix @ tail @ map as_block (p # ps)) (w_node w) = (Inr x, n)" "x \<noteq> Some False"
  shows "\<exists>w'. use_page f peer prefix resumed h tail chunk to_h nr el b p ps w
    = (Inr (More (tail @ map as_block (p # ps)) ps (next_chunk nr b el chunk) (x = Some True)), w') \<and> w_node w' = n"
  using assms by (simp add: use_page_def Let_def bind_act_def lift_res_def on_sync_def on_node_def modify_def return_def)

text \<open>One page: the next run of blocks, handed to the client on top of those before it.\<close>

lemma honest_page:
  assumes "honest N peer sz remote" "placed_heights remote" "accepts I k remote f" "k \<le> h" "h < length remote"
    "MIN_FETCH_CHUNK \<le> chunk" "I (w_node w)"
  shows "\<exists>m ps chunk' x n w'. fetch_page N f peer (take k remote) (of_int (int (length remote) - 1)) None resumed (int h)
      (drop k (take h remote)) chunk w = (Inr (More (drop k (take (h + m) remote)) ps chunk' (x = Some True)), w')
    \<and> length ps = m - 1 \<and> 0 < m \<and> h + m \<le> length remote \<and> I n \<and> f (take (h + m) remote) n = (Inr x, w_node w')
    \<and> I (w_node w') \<and> (\<exists>r b e. chunk' = next_chunk r b e chunk)"
proof -
  let ?b = "min (int h + chunk - 1) (int (length remote) - 1)"
  have b: "int h \<le> ?b" using assms(5,6) by (auto simp: MIN_FETCH_CHUNK_def)
  obtain w1 m where r: "request_sync_with_retry N peer (int h) (of_int ?b) SYNC_FETCH_TIMEOUT None w
      = (Inr (Some (JObj [(''chain'', JArr (map JObj (take m (drop (nat (int h)) remote))))]), False), w1)"
    "w_sync w1 = w_sync w" "w_node w1 = w_node w" "int m \<le> ?b - int h + 1" "m \<le> length remote - nat (int h)"
    "int h < int (length remote) \<Longrightarrow> 0 < m"
    by (rule honest_request[OF assms(1) _ b, of SYNC_FETCH_TIMEOUT w]) auto
  have m: "0 < m" "h + m \<le> length remote" using r(5,6) assms(5) by auto
  have to: "min (of_int (int h + chunk - 1)) (of_int (int (length remote) - 1)) = (of_int ?b :: rat)"
    by (simp add: min_def)
  let ?ps = "map JObj (take (m - 1) (drop (Suc h) remote))"
  have pg: "page_of (JObj [(''chain'', JArr (map JObj (take m (drop (nat (int h)) remote))))]) = Some (JObj (remote ! h), ?ps)"
    using m assms(5) by (simp add: page_of_slice)
  have lp: "length ?ps = m - 1" using m by simp
  have sp: "map as_block (JObj (remote ! h) # ?ps) = take m (drop h remote)"
    using m assms(5) by (cases m) (simp_all add: as_block_def comp_def Cons_nth_drop_Suc[symmetric])
  have tl: "drop k (take h remote) @ take m (drop h remote) = drop k (take (h + m) remote)"
    using assms(4,5) by (simp add: take_add drop_append)
  have pre: "take k remote @ drop k (take (h + m) remote) = take (h + m) remote"
    using assms(4) by (metis append_take_drop_id le_add1 min.absorb1 order_trans take_take)
  obtain x n' where x: "f (take (h + m) remote) (w_node w) = (Inr x, n')" "x \<noteq> Some False" "I n'"
    using assms(3,4,7) m unfolding accepts_def by (metis add_gr_0 le_imp_less_Suc less_add_same_cancel1 order_le_less_trans)
  have ht: "head_get (JObj (remote ! h)) ''height'' = Inr (jget (remote ! h) ''height'')" by (simp add: head_get_def)
  have hq: "py_eq (jget (remote ! h) ''height'') (JInt (int h))" using assms(2,5) by (simp add: placed_heights_def)
  have le: "\<not> of_nat (length (JObj (remote ! h) # ?ps)) > (of_int ?b :: rat) - of_int (int h) + 1"
  proof -
    have "(of_int (int m) :: rat) \<le> of_int (?b - int h + 1)" using r(4) by (simp only: of_int_le_iff)
    then show ?thesis using lp m by (simp add: of_nat_diff)
  qed
  let ?ch = "next_chunk False (map_of (y_latency (w_sync w1)) peer) (w_clock w1 - w_clock w) chunk"
  let ?t = "drop k (take (h + m) remote)"
  have fp: "fetch_page N f peer (take k remote) (of_int (int (length remote) - 1)) None resumed (int h) (drop k (take h remote)) chunk w
    = use_page f peer (take k remote) resumed (int h) (drop k (take h remote)) chunk (of_int ?b) False
        (w_clock w1 - w_clock w) (map_of (y_latency (w_sync w1)) peer) (JObj (remote ! h)) ?ps w1"
    unfolding fetch_page_def Let_def to bind_get
      bind_Inr[of "request_sync_with_retry N peer (int h) (of_int ?b) SYNC_FETCH_TIMEOUT None", OF r(1)] prod.case option.case pg ..
  have "f (take k remote @ drop k (take h remote) @ map as_block (JObj (remote ! h) # ?ps)) (w_node w1) = (Inr x, n')"
    unfolding sp tl pre r(3) by (rule x(1))
  from use_page_ok[where f = f and w = w1 and prefix = "take k remote" and tail = "drop k (take h remote)", OF ht hq le this x(2)] obtain w' where
    "use_page f peer (take k remote) resumed (int h) (drop k (take h remote)) chunk (of_int ?b) False
        (w_clock w1 - w_clock w) (map_of (y_latency (w_sync w1)) peer) (JObj (remote ! h)) ?ps w1
      = (Inr (More ?t ?ps ?ch (x = Some True)), w')" "w_node w' = n'" unfolding sp tl by blast
  with fp lp m x(1,3) assms(7) show ?thesis
    by (intro exI[of _ m] exI[of _ ?ps] exI[of _ ?ch] exI[of _ x] exI[of _ "w_node w"] exI[of _ w']) auto
qed

text \<open>The loop: up to the last block, or to the page limit, at least one block a page.\<close>

lemma honest_pages:
  assumes "honest N peer sz remote" "placed_heights remote" "accepts I k remote f"
  shows "k \<le> h \<Longrightarrow> h \<le> length remote \<Longrightarrow> MIN_FETCH_CHUNK \<le> chunk \<Longrightarrow> chunk \<le> MAX_FETCH_CHUNK \<Longrightarrow> I (w_node w) \<Longrightarrow>
    \<exists>ap con h' w'. fetch_pages N f peer (take k remote) (of_int (int (length remote) - 1)) mp None resumed (int h)
        (drop k (take h remote)) pages chunk applied w = (Inr (ap, con, drop k (take h' remote), int h'), w')
    \<and> I (w_node w') \<and> h \<le> h' \<and> h' \<le> length remote \<and> (con \<longleftrightarrow> h' = length remote) \<and> (applied \<longrightarrow> ap)
    \<and> (con \<or> (\<exists>m. mp = Some m \<and> h + m \<le> h' + pages))
    \<and> (h < h' \<longrightarrow> (\<exists>x n. I n \<and> f (take h' remote) n = (Inr x, w_node w') \<and> (x = Some True \<longrightarrow> ap)))
    \<and> (h = h' \<longrightarrow> w_node w' = w_node w)"
proof (induction "length remote - h" arbitrary: h pages chunk applied w rule: less_induct)
  case less
  let ?r = "of_int (int (length remote) - 1) :: rat"
  show ?case
  proof (cases "h < length remote")
    case False
    then have "\<not> (of_int (int h) :: rat) \<le> ?r" by linarith
    then have "fetch_pages N f peer (take k remote) ?r mp None resumed (int h) (drop k (take h remote)) pages chunk applied w
        = (Inr (applied, True, drop k (take h remote), int h), w)" by (rule fetch_pages_end)
    with False less.prems show ?thesis by (intro exI[of _ applied] exI[of _ True] exI[of _ h] exI[of _ w]) simp
  next
    case True
    then have le: "(of_int (int h) :: rat) \<le> ?r" by linarith
    show ?thesis
    proof (cases "case mp of Some m \<Rightarrow> pages \<ge> m | None \<Rightarrow> False")
      case paused: True
      then have "fetch_pages N f peer (take k remote) ?r mp None resumed (int h) (drop k (take h remote)) pages chunk applied w
          = (Inr (applied, False, drop k (take h remote), int h), w)" by (intro fetch_pages_end(2)[OF le]) simp
      with paused True less.prems show ?thesis
        by (intro exI[of _ applied] exI[of _ False] exI[of _ h] exI[of _ w]) (auto split: option.splits)
    next
      case False
      obtain m ps c x n w1 where p: "fetch_page N f peer (take k remote) ?r None resumed (int h)
            (drop k (take h remote)) chunk w = (Inr (More (drop k (take (h + m) remote)) ps c (x = Some True)), w1)"
        "length ps = m - 1" "0 < m" "h + m \<le> length remote" "I n" "f (take (h + m) remote) n = (Inr x, w_node w1)"
        "I (w_node w1)" "\<exists>r b e. c = next_chunk r b e chunk"
        using honest_page[OF assms less.prems(1) True less.prems(3,5)] by blast
      have c: "MIN_FETCH_CHUNK \<le> c" "c \<le> MAX_FETCH_CHUNK" using p(8) next_chunk_bounds[OF less.prems(3,4)] by auto
      have ih: "int h + int (Suc (length ps)) = int (h + m)" using p(2,3) by simp
      have run: "fetch_pages N f peer (take k remote) ?r mp None resumed (int h) (drop k (take h remote)) pages chunk applied w
          = fetch_pages N f peer (take k remote) ?r mp None resumed (int (h + m)) (drop k (take (h + m) remote)) (pages + 1) c
              (applied \<or> x = Some True) w1"
        using fetch_pages_page[OF le _ p(1), where mp = mp and pages = pages and applied = applied] False
        by (simp add: expired_def ih[symmetric] del: of_int_diff of_int_of_nat_eq of_nat_Suc of_nat_add)
      have dec: "length remote - (h + m) < length remote - h" using p(3) True by simp
      have kh: "k \<le> h + m" using less.prems(1) by simp
      obtain ap con h' w' where q: "fetch_pages N f peer (take k remote) ?r mp None resumed (int (h + m))
          (drop k (take (h + m) remote)) (pages + 1) c (applied \<or> x = Some True) w1 = (Inr (ap, con, drop k (take h' remote), int h'), w')
        \<and> I (w_node w') \<and> h + m \<le> h' \<and> h' \<le> length remote \<and> (con \<longleftrightarrow> h' = length remote) \<and> (applied \<or> x = Some True \<longrightarrow> ap)
        \<and> (con \<or> (\<exists>j. mp = Some j \<and> h + m + j \<le> h' + (pages + 1)))
        \<and> (h + m < h' \<longrightarrow> (\<exists>x n. I n \<and> f (take h' remote) n = (Inr x, w_node w') \<and> (x = Some True \<longrightarrow> ap)))
        \<and> (h + m = h' \<longrightarrow> w_node w' = w_node w1)"
        by (rule exE[OF less.hyps[OF dec kh p(4) c p(7), of "pages + 1" "applied \<or> x = Some True"]]) (elim exE, rule that)
      have last: "\<exists>x n. I n \<and> f (take h' remote) n = (Inr x, w_node w') \<and> (x = Some True \<longrightarrow> ap)"
      proof (cases "h + m < h'")
        case False
        with q have "h' = h + m" by simp
        with q p(5,6) show ?thesis by auto
      qed (use q in blast)
      have lim: "con \<or> (\<exists>j. mp = Some j \<and> h + j \<le> h' + pages)" using q p(3) by auto
      have lt: "h < h'" using q p(3) by simp
      show ?thesis unfolding run
        using q last lim lt by (intro exI[of _ ap] exI[of _ con] exI[of _ h'] exI[of _ w']) simp
    qed
  qed
qed

text \<open>The tail kept for the peer is the run of its blocks from the fork on; \<open>at\<close> is where the next pass starts.\<close>

definition anchor_at :: "blocks \<Rightarrow> nat \<Rightarrow> json" where
  "anchor_at c k = (if k = 0 then JNull else hash_of (c ! (k - 1)))"

definition kept_at :: "blocks \<Rightarrow> blocks \<Rightarrow> nat \<Rightarrow> string \<Rightarrow> syncer \<Rightarrow> nat \<Rightarrow> bool" where
  "kept_at c remote k peer y h \<longleftrightarrow> k \<le> h \<and> h \<le> length remote \<and>
     (case map_of (y_progress y) peer of
        Some p \<Rightarrow> if p_fork_from p = int k \<and> py_eq (p_anchor_hash p) (anchor_at c k)
                  then p_tail p = drop k (take h remote) \<and> p_h p = int h else h = k
      | None \<Rightarrow> h = k)"

text \<open>Room for the rest of the peer's chain among the kept tails.\<close>

definition room :: "string \<Rightarrow> nat \<Rightarrow> syncer \<Rightarrow> bool" where
  "room peer rest y \<longleftrightarrow> wf_dict (y_progress y) \<and> rest \<le> MAX_PENDING_TAIL_BLOCKS
     \<and> tail_size (others peer y) + rest \<le> MAX_TOTAL_PENDING_TAIL_BLOCKS \<and> length (others peer y) < 1000"

lemma length_update_others: "wf_dict d \<Longrightarrow> length (AList.update peer p d) \<le> Suc (length (filter (\<lambda>(k, _). k \<noteq> peer) d))"
proof (induction d)
  case (Cons kv d)
  obtain k v where kv: "kv = (k, v)" by fastforce
  have "filter (\<lambda>(k, _). k \<noteq> peer) d = d" if "k = peer"
    using Cons.prems kv that by (force simp: filter_id_conv)
  then show ?case using Cons kv by auto
qed simp

lemma keep_progress_kept:
  assumes "room peer (length remote - k) y" "k < h" "h \<le> length remote"
    "p = \<lparr>p_fork_from = int k, p_anchor_hash = anchor_at c k, p_tail = drop k (take h remote), p_h = int h\<rparr>"
    "py_eq (anchor_at c k) (anchor_at c k)"
  shows "kept_at c remote k peer (keep_progress peer False False p y) h"
    "room peer (length remote - k) (keep_progress peer False False p y)"
proof -
  have w: "wf_dict (y_progress y)" using assms(1) by (simp add: room_def)
  have l: "length (p_tail p) = h - k" "p_tail p \<noteq> []" using assms(2-4) by simp_all
  have sz: "sum_list (map (\<lambda>(_, q). length (p_tail q)) (filter (\<lambda>(k, _). k \<noteq> peer) (y_progress y))) = tail_size (others peer y)"
    by (simp add: tail_size_def others_def)
  have "length (AList.update peer p (y_progress y)) \<le> 1000"
    using length_update_others[OF w, of peer p] assms(1) by (simp add: room_def others_def)
  then have e: "keep_progress peer False False p y = y\<lparr>y_progress := AList.update peer p (y_progress y)\<rparr>"
  proof -
    have "h - k \<le> length remote - k" using assms(3) by simp
    then have "length (p_tail p) \<le> MAX_PENDING_TAIL_BLOCKS" "tail_size (others peer y) + length (p_tail p) \<le> MAX_TOTAL_PENDING_TAIL_BLOCKS"
      using assms(1) unfolding room_def l(1) by linarith+
    with l(2) sz \<open>length (AList.update peer p (y_progress y)) \<le> 1000\<close> show ?thesis by (simp add: keep_progress_def Let_def)
  qed
  show "kept_at c remote k peer (keep_progress peer False False p y) h"
    unfolding e using assms(2-5) by (simp add: kept_at_def map_of_update_iff)
  show "room peer (length remote - k) (keep_progress peer False False p y)"
    unfolding e using assms(1) w by (simp add: room_def others_def others_update)
qed

lemma honest_fetch:
  assumes hon: "honest N peer sz remote" and pl: "placed_heights remote" and acc: "accepts I k remote f"
    and c: "hashed c" "k \<le> length c" "take k c = take k remote" and kept: "kept_at c remote k peer (w_sync w) h" "h < length remote"
    and y: "chunks_ok (w_sync w)" "room peer (length remote - k) (w_sync w)" and I: "I (w_node w)"
  shows "\<exists>ap con w'. fetch_and_apply N f peer c (int k) (JInt (int (length remote) - 1)) mp None w = (Inr (ap, con), w')
    \<and> I (w_node w') \<and> chunks_ok (w_sync w')
    \<and> (con \<longrightarrow> (\<exists>x n. I n \<and> f remote n = (Inr x, w_node w') \<and> (x = Some True \<longrightarrow> ap)))
    \<and> (\<not> con \<and> \<not> ap \<longrightarrow> (\<exists>m. mp = Some m \<and> (0 < m \<longrightarrow> room peer (length remote - k) (w_sync w')
          \<and> (\<exists>h'. h + m \<le> h' \<and> h' < length remote \<and> kept_at c remote k peer (w_sync w') h'))))"
proof -
  let ?a = "anchor_at c k" and ?ch = "get_or (y_chunk (w_sync w)) peer FETCH_CHUNK"
  have an: "(if int k > 0 then hash_at c (int k - 1) else Inr JNull) = Inr ?a" "py_eq ?a ?a"
  proof -
    have "hash_at c (int k - 1) = Inr ?a \<and> py_eq ?a ?a" if "0 < k"
    proof -
      have "k - 1 < length c" "int (k - 1) = int k - 1" using c(2) that by auto
      with hash_at_hashed[OF c(1)] show ?thesis using that by (metis anchor_at_def less_numeral_extra(3) py_eq_str)
    qed
    then show "(if int k > 0 then hash_at c (int k - 1) else Inr JNull) = Inr ?a" "py_eq ?a ?a"
      by (cases "k = 0"; simp add: anchor_at_def py_eq_def)+
  qed
  obtain resumed where st: "(case map_of (y_progress (w_sync w)) peer of
      Some p \<Rightarrow> if p_fork_from p = int k \<and> py_eq (p_anchor_hash p) ?a then (True, p_tail p, p_h p) else (False, [], int k)
    | None \<Rightarrow> (False, [], int k)) = (resumed, drop k (take h remote), int h)"
  proof -
    have "drop k (take k remote) = []" by simp
    then show thesis using kept(1) that unfolding kept_at_def by (auto split: option.splits if_splits)
  qed
  have kh: "k \<le> h" "h \<le> length remote" using kept(1) by (simp_all add: kept_at_def)
  obtain ap con h' w1 where r: "fetch_pages N f peer (take k remote) (of_int (int (length remote) - 1)) mp None resumed (int h)
        (drop k (take h remote)) 0 ?ch False w = (Inr (ap, con, drop k (take h' remote), int h'), w1)"
    "I (w_node w1)" "h \<le> h'" "h' \<le> length remote" "con \<longleftrightarrow> h' = length remote" "con \<or> (\<exists>m. mp = Some m \<and> h + m \<le> h' + 0)"
    "h < h' \<longrightarrow> (\<exists>x n. I n \<and> f (take h' remote) n = (Inr x, w_node w1) \<and> (x = Some True \<longrightarrow> ap))"
    using honest_pages[OF hon pl acc kh chunks_at[OF y(1), of peer] I, where mp = mp and resumed = resumed and pages = 0
        and applied = False] by blast
  let ?p = "\<lparr>p_fork_from = int k, p_anchor_hash = ?a, p_tail = drop k (take h' remote), p_h = int h'\<rparr>"
  let ?w = "w1\<lparr>w_sync := keep_progress peer ap con ?p (w_sync w1)\<rparr>"
  have fa: "fetch_and_apply N f peer c (int k) (JInt (int (length remote) - 1)) mp None w = (Inr (ap, con), ?w)"
    unfolding fetch_and_apply_def an bind_lift bind_get Let_def st prod.case
    by (simp add: bind_lift c(3) bind_Inr[of "fetch_pages N f peer (take k remote) (of_int (int (length remote) - 1)) mp None resumed (int h)
        (drop k (take h remote)) 0 ?ch False", OF r(1)] pass_steps(1) return_def del: of_int_diff)
  have o: "own_only peer w w1" by (rule keepsD[OF own_fetch[OF chunks_at[OF y(1)]] r(1)])
  have rm: "room peer (length remote - k) (w_sync w1)" using o y(2) by (simp add: own_only_def room_def)
  have "chunks_ok (w_sync ?w)" using o y(1) by (simp add: own_only_def chunks_keep)
  moreover have "\<exists>x n. I n \<and> f remote n = (Inr x, w_node ?w) \<and> (x = Some True \<longrightarrow> ap)" if con
    using that r(5,7) kept(2) by simp
  moreover have "\<exists>m. mp = Some m \<and> (0 < m \<longrightarrow> room peer (length remote - k) (w_sync ?w)
          \<and> (\<exists>h'. h + m \<le> h' \<and> h' < length remote \<and> kept_at c remote k peer (w_sync ?w) h'))" if "\<not> con \<and> \<not> ap"
  proof -
    from that r(6) obtain m where m: "mp = Some m" "h + m \<le> h'" by auto
    have "h' < length remote" using that r(4,5) by auto
    moreover have "room peer (length remote - k) (w_sync ?w) \<and> kept_at c remote k peer (w_sync ?w) h'" if "0 < m"
      using keep_progress_kept[OF rm _ r(4) refl an(2)] \<open>\<not> con \<and> \<not> ap\<close> m(2) kh(1) that by simp
    ultimately show ?thesis using m by blast
  qed
  ultimately show ?thesis using fa r(2) by (intro exI[of _ ap] exI[of _ con] exI[of _ ?w]) simp
qed

text \<open>Passes repeated until one is conclusive or something was adopted.\<close>

fun passes :: "nat \<Rightarrow> net \<Rightarrow> (blocks \<Rightarrow> ('n, bool option) act) \<Rightarrow> string \<Rightarrow> blocks \<Rightarrow> int \<Rightarrow> json \<Rightarrow> nat option \<Rightarrow> rat option
    \<Rightarrow> ('n world, bool \<times> bool) act" where
  "passes 0 N f peer c fork rh mp dl = return (False, False)"
| "passes (Suc i) N f peer c fork rh mp dl = bind_act (fetch_and_apply N f peer c fork rh mp dl) (\<lambda>(ap, con).
     if ap \<or> con then return (ap, con) else passes i N f peer c fork rh mp dl)"

lemma passes_reach:
  assumes hon: "honest N peer sz remote" and pl: "placed_heights remote" and acc: "accepts I k remote f"
    and c: "hashed c" "k \<le> length c" "take k c = take k remote" and m: "0 < m"
  shows "kept_at c remote k peer (w_sync w) h \<Longrightarrow> h < length remote \<Longrightarrow> chunks_ok (w_sync w)
    \<Longrightarrow> room peer (length remote - k) (w_sync w) \<Longrightarrow> I (w_node w) \<Longrightarrow> length remote \<le> h + i * m \<Longrightarrow>
    \<exists>ap con w'. passes i N f peer c (int k) (JInt (int (length remote) - 1)) (Some m) None w = (Inr (ap, con), w')
      \<and> I (w_node w') \<and> (ap \<or> con) \<and> (ap \<or> (\<exists>x n. I n \<and> f remote n = (Inr x, w_node w') \<and> x = None))"
proof (induction i arbitrary: w h)
  case (Suc i)
  obtain ap con w1 where r: "fetch_and_apply N f peer c (int k) (JInt (int (length remote) - 1)) (Some m) None w = (Inr (ap, con), w1)"
    "I (w_node w1)" "chunks_ok (w_sync w1)" "con \<longrightarrow> (\<exists>x n. I n \<and> f remote n = (Inr x, w_node w1) \<and> (x = Some True \<longrightarrow> ap))"
    "\<not> con \<and> \<not> ap \<longrightarrow> room peer (length remote - k) (w_sync w1)
          \<and> (\<exists>h'. h + m \<le> h' \<and> h' < length remote \<and> kept_at c remote k peer (w_sync w1) h')"
  proof -
    from honest_fetch[OF hon pl acc c Suc.prems(1-5), of "Some m"] obtain ap con w' where
      "fetch_and_apply N f peer c (int k) (JInt (int (length remote) - 1)) (Some m) None w = (Inr (ap, con), w')"
      "I (w_node w')" "chunks_ok (w_sync w')" "con \<longrightarrow> (\<exists>x n. I n \<and> f remote n = (Inr x, w_node w') \<and> (x = Some True \<longrightarrow> ap))"
      "\<not> con \<and> \<not> ap \<longrightarrow> (\<exists>j. Some m = Some j \<and> (0 < j \<longrightarrow> room peer (length remote - k) (w_sync w')
          \<and> (\<exists>h'. h + j \<le> h' \<and> h' < length remote \<and> kept_at c remote k peer (w_sync w') h')))"
      by (elim exE conjE) (rule that)
    with m show thesis by (intro that[of ap con w']) simp_all
  qed
  show ?case
  proof (cases "ap \<or> con")
    case True
    have "ap \<or> (\<exists>x n. I n \<and> f remote n = (Inr x, w_node w1) \<and> x = None)"
    proof (cases ap)
      case False
      with True r(4) obtain x n where x: "I n" "f remote n = (Inr x, w_node w1)" "x \<noteq> Some True" by auto
      have "k < length remote" using Suc.prems(1,2) by (simp add: kept_at_def)
      then have "x \<noteq> Some False" using acc x unfolding accepts_def by (metis Pair_inject order.refl sum.inject(2) take_all)
      with x show ?thesis by (cases x) auto
    qed simp
    with True r(1,2) show ?thesis by (auto simp: bind_act_def return_def)
  next
    case False
    with r(5) obtain h' where h': "h + m \<le> h'" "h' < length remote" "kept_at c remote k peer (w_sync w1) h'"
      "room peer (length remote - k) (w_sync w1)" by auto
    have "length remote \<le> h' + i * m" using Suc.prems(6) h'(1) by simp
    from Suc.IH[OF h'(3,2) r(3) h'(4) r(2) this] show ?thesis using r(1) False by (simp add: bind_act_def)
  qed
qed simp


section \<open>Instances\<close>

text \<open>A peer that serves its chain in a tenth of a second a page, and two chains of bare blocks with a fork.\<close>

definition demo_net :: "blocks \<Rightarrow> net" where
  "demo_net remote = \<lparr>
     net_info = \<lambda>_ t. (Some (JObj [(''height'', JInt (int (length remote) - 1))]), min t (1 / 10)),
     net_sync = \<lambda>_ _ a b t. (Some (JObj [(''chain'', JArr (serve_sync (\<lambda>_. 100) remote
       [(''from_h'', JInt a), (''to_h'', JInt \<lfloor>b\<rfloor>)]))]), min t (1 / 10))\<rparr>"

definition bare_block :: "string \<Rightarrow> int \<Rightarrow> block" where
  "bare_block h i = [(''height'', JInt i), (''hash'', JStr h)]"

definition demo_ours :: blocks where "demo_ours = [bare_block ''a'' 0, bare_block ''b'' 1, bare_block ''c'' 2]"

definition demo_theirs :: blocks where
  "demo_theirs = [bare_block ''a'' 0, bare_block ''b'' 1, bare_block ''x'' 2, bare_block ''y'' 3, bare_block ''z'' 4]"

definition demo_world :: "unit world" where
  "demo_world = \<lparr>w_node = (), w_sync = syncer_init, w_clock = 0, w_asked = 0\<rparr>"

lemmas demo_defs = demo_ours_def demo_theirs_def bare_block_def

lemma demo_net_ok: "honest (demo_net c) peer (\<lambda>_. 100) c" "timely (demo_net c)"
  by (simp_all add: honest_def timely_def demo_net_def)

lemma demo_chains: "hashed demo_ours" "common_prefix 2 demo_ours demo_theirs" "placed_heights demo_theirs"
  by (auto simp: hashed_def common_prefix_def placed_heights_def demo_defs agree_def hash_of_def jget_def get_or_def
      less_Suc_eq numeral_eq_Suc py_eq_int)

theorem syncer_stays_bounded_witness:
  "case check_and_sync (demo_net demo_theirs) (\<lambda>_ _ _ _ . return ()) None demo_ours (\<lambda>_. return (Some True)) (Some ''peer'')
      2 None (Some 2) (Some 20) demo_world of
     (r, w') \<Rightarrow> chunks_ok (w_sync w') \<and> (case r of Inl _ \<Rightarrow> True | Inr _ \<Rightarrow> tails_ok (w_sync w'))"
  by (rule syncer_stays_bounded) (simp_all add: demo_world_def syncer_init_bounded)



theorem fork_search_exact_witness:
  "\<exists>w'. find_fork_point (demo_net demo_theirs) ''peer'' demo_ours None demo_world = (Inr (Some 2), w')
     \<and> w_sync w' = w_sync demo_world \<and> w_node w' = w_node demo_world"
proof -
  have "demo_ours \<noteq> []" by (simp add: demo_ours_def)
  from fork_search_exact[OF demo_net_ok(1) demo_chains(1,2) this, of "''peer''" demo_world] show ?thesis by simp
qed

text \<open>A client that adopts once it has all five blocks.\<close>

definition demo_apply :: "blocks \<Rightarrow> (unit, bool option) act" where
  "demo_apply c = return (if length c = 5 then Some True else None)"


end
