(* ===== verification/Odds.thy ===== *)
theory Odds
  imports Block
begin

text \<open>
  \<^verbatim>\<open>src/src/block.py\<close>, the odds of the next height: the field's intervals, how recently each builder
  won, the simulated draws, and the figures the node and the odds page read. The pseudo-random generator
  is a parameter, as a function of its seed and of how many calls it has answered; so is the power of one half with
  a fractional exponent. Figures are exact rationals where the code has floats.
\<close>

section \<open>The field\<close>

definition ODDS_TRIALS :: nat where "ODDS_TRIALS = 10000"
definition RECENCY_HALF_LIFE_BLOCKS :: nat where "RECENCY_HALF_LIFE_BLOCKS = 3"

text \<open>
  \<open>d_below seed k n\<close> is the index below \<open>n\<close> the \<open>k\<close>-th call of a generator picks, \<open>d_unit seed k\<close>
  the number in [0, 1) it returns; \<open>d_half d h\<close> is one half to the power \<open>d / h\<close>.
\<close>

record draw_lib =
  d_below :: "nat \<Rightarrow> nat \<Rightarrow> nat \<Rightarrow> nat"
  d_unit :: "nat \<Rightarrow> nat \<Rightarrow> rat"
  d_half :: "nat \<Rightarrow> nat \<Rightarrow> rat"

type_synonym row = "nat \<times> rat \<times> json"

fun hashable :: "json \<Rightarrow> bool" where
  "hashable (JArr xs) = False"
| "hashable (JObj d) = False"
| "hashable _ = True"

text \<open>\<^verbatim>\<open>setdefault(builder, []).append(interval)\<close>\<close>

fun collect_samples :: "(json, rat list) dict \<Rightarrow> row list \<Rightarrow> (json, rat list) dict" where
  "collect_samples d [] = d"
| "collect_samples d ((h, i, b) # rows) = collect_samples (AList.update b (get_or d b [] @ [i]) d) rows"

fun last_wins :: "(json, nat) dict \<Rightarrow> row list \<Rightarrow> (json, nat) dict" where
  "last_wins d [] = d"
| "last_wins d ((h, i, b) # rows) =
     last_wins (if (case map_of d b of None \<Rightarrow> True | Some x \<Rightarrow> h > x) then AList.update b h d else d) rows"

definition field_recency_presence :: "draw_lib \<Rightarrow> row list \<Rightarrow> nat \<Rightarrow> (json, rat) dict" where
  "field_recency_presence L field tip_height =
     map (\<lambda>(b, h). (b, d_half L (tip_height - h) RECENCY_HALF_LIFE_BLOCKS)) (last_wins [] field)"

section \<open>The simulated draws\<close>

text \<open>The number of calls already answered goes in and comes out.\<close>

definition choice :: "draw_lib \<Rightarrow> nat \<Rightarrow> 'a list \<Rightarrow> nat \<Rightarrow> 'a \<times> nat" where
  "choice L seed xs k = (xs ! d_below L seed k (length xs), k + 1)"

fun drawn :: "draw_lib \<Rightarrow> nat \<Rightarrow> (json, rat) dict \<Rightarrow> (json, rat list) dict \<Rightarrow> nat \<Rightarrow> rat list \<times> nat" where
  "drawn L seed presence [] k = ([], k)"
| "drawn L seed presence ((b, xs) # field) k =
     (if d_unit L seed k < get_or presence b 1
      then (let (x, k1) = choice L seed xs (k + 1); (rest, k2) = drawn L seed presence field k1 in (x # rest, k2))
      else drawn L seed presence field (k + 1))"

text \<open>One trial: None when our interval is past the cutoff, else the number of entrants.\<close>

definition trial :: "draw_lib \<Rightarrow> nat \<Rightarrow> rat list \<Rightarrow> (json, rat list) dict \<Rightarrow> rat \<Rightarrow> (json, rat) dict \<Rightarrow> nat
    \<Rightarrow> nat option \<times> nat" where
  "trial L seed own_samples field window_s presence k =
     (let (ours, k1) = choice L seed own_samples k;
          (others, k2) = drawn L seed presence field k1;
          cutoff = foldl min ours others + window_s
      in (if ours > cutoff then None else Some (1 + length (filter (\<lambda>d. d \<le> cutoff) others)), k2))"

fun run_trials :: "draw_lib \<Rightarrow> nat \<Rightarrow> rat list \<Rightarrow> (json, rat list) dict \<Rightarrow> rat \<Rightarrow> (json, rat) dict \<Rightarrow> nat \<Rightarrow> nat
    \<Rightarrow> nat option list" where
  "run_trials L seed own_samples field window_s presence 0 k = []"
| "run_trials L seed own_samples field window_s presence (Suc n) k =
     (let (r, k') = trial L seed own_samples field window_s presence k
      in r # run_trials L seed own_samples field window_s presence n k')"

definition simulate_draws :: "draw_lib \<Rightarrow> rat list \<Rightarrow> (json, rat list) dict \<Rightarrow> rat \<Rightarrow> nat \<Rightarrow> (json, rat) dict \<Rightarrow> nat
    \<Rightarrow> rat \<times> rat \<times> rat option" where
  "simulate_draws L own_samples field window_s seed presence trials =
     (let entrants = List.map_filter id (run_trials L seed own_samples field window_s presence trials 0);
          in_draw = length entrants
      in (100 * sum_list (map (\<lambda>e. 1 / of_nat e) entrants) / of_nat trials,
          100 * of_nat in_draw / of_nat trials,
          if in_draw \<noteq> 0 then Some (of_nat (sum_list entrants) / of_nat in_draw) else None))"

section \<open>The odds\<close>

record race =
  r_window :: "row list"
  r_median :: rat
  r_own_seconds :: "rat option"
  r_odds_pct :: "rat option"
  r_own_pace :: "rat option"
  r_own_pace_measured :: bool
  r_entrants :: "rat option"
  r_in_draw_pct :: "rat option"
  r_draw_window :: rat
  r_field_builders :: nat
  r_field_blocks :: nat
  r_own_blocks :: nat
  r_win_share_pct :: "rat option"

text \<open>The seed: the first eight hex digits of the tip's hash, which is a digest in hex.\<close>

definition odds_seed :: "block \<Rightarrow> nat res" where
  "odds_seed tip = (case get_or tip ''hash'' (JStr ''0'') of
     JStr s \<Rightarrow> (let ds = map hexval (if take 8 s = [] then ''0'' else take 8 s)
       in if None \<in> set ds then Inl ValueError else Inr (foldl (\<lambda>acc d. 16 * acc + the d) 0 ds))
   | _ \<Rightarrow> Inl TypeError)"

text \<open>
  \<open>own_addr\<close> is falsy when it is None or empty; \<open>draw_window\<close> None stands for the setting's default.
\<close>

definition race_odds :: "draw_lib \<Rightarrow> rat \<Rightarrow> blocks \<Rightarrow> rat option \<Rightarrow> string option \<Rightarrow> rat option \<Rightarrow> race option res" where
  "race_odds L default_window chain own_seconds own_addr draw_window =
     rbind (race_window chain) (\<lambda>window.
       if window = [] then Inr None
       else (let known = (case own_addr of None \<Rightarrow> False | Some a \<Rightarrow> a \<noteq> []);
                 is_ours = (\<lambda>(h, i, b). b = JStr (the own_addr));
                 field = (if known then filter (\<lambda>r. \<not> is_ours r) window else window);
                 mine = (if known then filter is_ours window else []);
                 own_pace = (if mine \<noteq> [] then Some (median (map (\<lambda>(h, i, b). i) mine)) else own_seconds)
             in if \<not> (\<forall>(h, i, b)\<in>set field. hashable b) then Inl TypeError
             else (let field_samples = collect_samples [] field;
                       window_s = (case draw_window of None \<Rightarrow> default_window | Some w \<Rightarrow> w);
                       own_samples = (if mine \<noteq> [] then map (\<lambda>(h, i, b). i) mine
                                      else (case own_pace of Some p \<Rightarrow> [p] | None \<Rightarrow> []));
                       presence = field_recency_presence L field (fst (last window));
                       answer = (\<lambda>odds in_draw entrants.
                         Inr (Some \<lparr>r_window = window, r_median = median (map (\<lambda>(h, i, b). i) window),
                           r_own_seconds = own_seconds, r_odds_pct = odds, r_own_pace = own_pace,
                           r_own_pace_measured = (mine \<noteq> []), r_entrants = entrants, r_in_draw_pct = in_draw,
                           r_draw_window = window_s, r_field_builders = length field_samples,
                           r_field_blocks = length field, r_own_blocks = length mine,
                           r_win_share_pct = (if known then Some (100 * of_nat (length mine) / of_nat (length window)) else None)\<rparr>))
                   in if own_samples = [] then answer None None None
                      else rbind (odds_seed (last chain)) (\<lambda>seed.
                        (case simulate_draws L own_samples field_samples window_s seed presence ODDS_TRIALS of
                           (odds, in_draw, entrants) \<Rightarrow> answer (Some odds) (Some in_draw) entrants)))))"

section \<open>What the figures are\<close>

lemma drawn_length: "length (fst (drawn L seed presence field k)) \<le> length field"
proof (induction L seed presence field k rule: drawn.induct)
  case (2 L seed presence b xs field k)
  show ?case
  proof (cases "d_unit L seed k < get_or presence b 1")
    case True
    obtain x k1 where c: "choice L seed xs (k + 1) = (x, k1)" by fastforce
    with 2(1)[OF True] have "length (fst (drawn L seed presence field k1)) \<le> length field" by simp
    with True c show ?thesis by (cases "drawn L seed presence field k1") simp
  next
    case False
    with 2(2)[OF False] show ?thesis by simp
  qed
qed simp

lemma trial_entrants:
  assumes "trial L seed own field w presence k = (Some e, k')"
  shows "1 \<le> e \<and> e \<le> 1 + length field"
proof -
  obtain ours k1 where c: "choice L seed own k = (ours, k1)" by fastforce
  obtain others k2 where d: "drawn L seed presence field k1 = (others, k2)" by fastforce
  have "e = 1 + length (filter (\<lambda>x. x \<le> foldl min ours others + w) others)"
    using assms c d by (auto simp: trial_def Let_def split: if_splits)
  moreover have "length others \<le> length field" using drawn_length[of L seed presence field k1] d by simp
  ultimately show ?thesis using order_trans[OF length_filter_le[of "\<lambda>x. x \<le> foldl min ours others + w" others]] by simp
qed

lemma run_trials_entrants:
  "length (run_trials L seed own field w presence n k) = n
   \<and> (\<forall>e. Some e \<in> set (run_trials L seed own field w presence n k) \<longrightarrow> 1 \<le> e \<and> e \<le> 1 + length field)"
proof (induction n arbitrary: k)
  case (Suc n)
  obtain r k' where t: "trial L seed own field w presence k = (r, k')" by fastforce
  with Suc.IH[of k'] trial_entrants[of L seed own field w presence k] show ?case by (auto simp: t)
qed simp

lemma map_filter_id: "set (List.map_filter id xs) = {e. Some e \<in> set xs}" "length (List.map_filter id xs) \<le> length xs"
  by (induction xs) (auto simp: List.map_filter_def intro: le_SucI)

lemma shares:
  fixes es :: "nat list"
  assumes "\<forall>e\<in>set es. 1 \<le> e"
  shows "0 \<le> (\<Sum>e\<leftarrow>es. 1 / (of_nat e :: rat))" "(\<Sum>e\<leftarrow>es. 1 / (of_nat e :: rat)) \<le> of_nat (length es)"
    "(\<Sum>e\<leftarrow>es. 1 / (of_nat e :: rat)) = 0 \<longleftrightarrow> es = []"
proof -
  have b: "0 < 1 / (of_nat e :: rat) \<and> 1 / (of_nat e :: rat) \<le> 1" if "e \<in> set es" for e
    using assms that by (auto simp: divide_simps)
  have *: "set xs \<subseteq> set es \<Longrightarrow> 0 \<le> (\<Sum>e\<leftarrow>xs. 1 / (of_nat e :: rat)) \<and> (\<Sum>e\<leftarrow>xs. 1 / (of_nat e :: rat)) \<le> of_nat (length xs)
      \<and> ((\<Sum>e\<leftarrow>xs. 1 / (of_nat e :: rat)) = 0 \<longleftrightarrow> xs = [])" for xs
  proof (induction xs)
    case (Cons x xs)
    then have "set xs \<subseteq> set es" "x \<in> set es" by simp_all
    note c = Cons.IH[OF this(1)] b[OF this(2)]
    let ?S = "\<lambda>xs :: nat list. \<Sum>e\<leftarrow>xs. 1 / (of_nat e :: rat)"
    have s: "?S (x # xs) = 1 / of_nat x + ?S xs" "(of_nat (length (x # xs)) :: rat) = 1 + of_nat (length xs)" by simp_all
    have p: "0 < ?S (x # xs)" unfolding s using c by (intro add_pos_nonneg) blast+
    have "?S (x # xs) \<le> of_nat (length (x # xs))" unfolding s using c by linarith
    with p show ?case by (metis less_imp_le list.distinct(1) less_irrefl)
  qed simp
  show "0 \<le> (\<Sum>e\<leftarrow>es. 1 / (of_nat e :: rat))" "(\<Sum>e\<leftarrow>es. 1 / (of_nat e :: rat)) \<le> of_nat (length es)"
    "(\<Sum>e\<leftarrow>es. 1 / (of_nat e :: rat)) = 0 \<longleftrightarrow> es = []" using *[of es] by simp_all
qed

lemma entrants_mean:
  fixes es :: "nat list"
  assumes "\<forall>e\<in>set es. 1 \<le> e \<and> e \<le> m"
  shows "length es \<le> sum_list es \<and> sum_list es \<le> m * length es"
  using assms by (induction es) auto

lemma simulate_bounds:
  assumes s: "simulate_draws L own field w seed presence n = (odds, in_draw, entrants)" and n: "0 < n"
  shows "0 \<le> odds" "odds \<le> in_draw" "in_draw \<le> 100" "odds = 0 \<longleftrightarrow> in_draw = 0"
    "case entrants of None \<Rightarrow> in_draw = 0 | Some e \<Rightarrow> 1 \<le> e \<and> e \<le> 1 + of_nat (length field)"
proof -
  define es where "es = List.map_filter id (run_trials L seed own field w presence n 0)"
  note r = run_trials_entrants[of L seed own field w presence n 0]
  have es: "\<forall>e\<in>set es. 1 \<le> e \<and> e \<le> 1 + length field" "length es \<le> n"
    using r map_filter_id[of "run_trials L seed own field w presence n 0"] by (auto simp: es_def)
  have v: "odds = 100 * (\<Sum>e\<leftarrow>es. 1 / of_nat e) / of_nat n" "in_draw = 100 * of_nat (length es) / of_nat n"
    "entrants = (if length es \<noteq> 0 then Some (of_nat (sum_list es) / of_nat (length es)) else None)"
    using s by (auto simp: simulate_draws_def Let_def es_def)
  have sh: "0 \<le> (\<Sum>e\<leftarrow>es. 1 / (of_nat e :: rat))" "(\<Sum>e\<leftarrow>es. 1 / (of_nat e :: rat)) \<le> of_nat (length es)"
    "(\<Sum>e\<leftarrow>es. 1 / (of_nat e :: rat)) = 0 \<longleftrightarrow> es = []" using shares[of es] es(1) by simp_all
  have p: "(0 :: rat) < of_nat n" using n by simp
  show "0 \<le> odds" unfolding v using sh(1) p by simp
  show "odds \<le> in_draw" unfolding v using sh(2) p by (intro divide_right_mono mult_left_mono) simp_all
  have "(of_nat (length es) :: rat) \<le> of_nat n" using es(2) by simp
  then show "in_draw \<le> 100" unfolding v using p by (simp add: divide_simps)
  show "odds = 0 \<longleftrightarrow> in_draw = 0" unfolding v using sh(3) p by simp
  show "case entrants of None \<Rightarrow> in_draw = 0 | Some e \<Rightarrow> 1 \<le> e \<and> e \<le> 1 + of_nat (length field)"
  proof (cases "es = []")
    case True
    then show ?thesis unfolding v by simp
  next
    case False
    have m: "length es \<le> sum_list es" "sum_list es \<le> (1 + length field) * length es" using entrants_mean[OF es(1)] by blast+
    have q: "(0 :: rat) < of_nat (length es)" using False by simp
    have "(of_nat (sum_list es) :: rat) \<le> of_nat ((1 + length field) * length es)" using m(2) by (rule of_nat_mono)
    then have "(of_nat (sum_list es) :: rat) \<le> (1 + of_nat (length field)) * of_nat (length es)" by (simp add: algebra_simps)
    moreover have "(of_nat (length es) :: rat) \<le> of_nat (sum_list es)" using m(1) by (rule of_nat_mono)
    ultimately show ?thesis unfolding v(3) using False q by (simp add: divide_simps)
  qed
qed

lemma no_rivals:
  assumes "0 \<le> w"
    and "0 < n"
  shows "simulate_draws L own [] w seed presence n = (100, 100, Some 1)"
proof -
  have "run_trials L seed own [] w presence m k = replicate m (Some 1)" for m k
    using assms(1) by (induction m arbitrary: k) (simp_all add: trial_def choice_def Let_def)
  moreover have "List.map_filter id (replicate m (Some (1::nat))) = replicate m 1" for m
    by (simp add: List.map_filter_def)
  ultimately show ?thesis using assms(2) by (simp add: simulate_draws_def Let_def sum_list_replicate)
qed

lemma collect_samples_length: "length (collect_samples d rows) \<le> length d + length rows"
proof (induction d rows rule: collect_samples.induct)
  case (2 d h i b rows)
  have "length (AList.update b v d) \<le> Suc (length d)" for v by (induction d) auto
  with 2 show ?case by (metis (no_types, lifting) add_Suc_right add_le_mono1 add_Suc collect_samples.simps(2) length_Cons order.trans)
qed simp

text \<open>The figures of the odds are consistent with each other: the odds are a percentage, at most the share of the trials in
  which this node is in the draw at all, and zero exactly when it is in none; the mean number of entrants lies between
  one and all the field's builders with this node; and without a rival in the window the odds are a hundred.\<close>

theorem race_odds_sound:
  assumes "race_odds L dw chain own_seconds own_addr window = Inr (Some r)" and "r_odds_pct r = Some odds"
  shows "\<exists>in_draw. r_in_draw_pct r = Some in_draw \<and> 0 \<le> odds \<and> odds \<le> in_draw \<and> in_draw \<le> 100 \<and> (odds = 0 \<longleftrightarrow> in_draw = 0)
    \<and> (case r_entrants r of None \<Rightarrow> in_draw = 0 | Some e \<Rightarrow> 1 \<le> e \<and> e \<le> 1 + of_nat (r_field_builders r))
    \<and> (r_field_blocks r = 0 \<longrightarrow> 0 \<le> r_draw_window r \<longrightarrow> odds = 100)"
proof -
  from assms(1) obtain win where w: "race_window chain = Inr win" "win \<noteq> []"
    by (auto simp: race_odds_def rbind_Inr_conv split: if_splits)
  define known where "known = (case own_addr of None \<Rightarrow> False | Some a \<Rightarrow> a \<noteq> [])"
  define is_ours where "is_ours = (\<lambda>(h :: nat, i :: rat, b). b = JStr (the own_addr))"
  define field where "field = (if known then filter (\<lambda>r. \<not> is_ours r) win else win)"
  define mine where "mine = (if known then filter is_ours win else [])"
  define pace where "pace = (if mine \<noteq> [] then Some (median (map (\<lambda>(h, i, b). i) mine)) else own_seconds)"
  define own where "own = (if mine \<noteq> [] then map (\<lambda>(h, i, b). i) mine else (case pace of Some p \<Rightarrow> [p] | None \<Rightarrow> []))"
  define ws where "ws = (case window of None \<Rightarrow> dw | Some w \<Rightarrow> w)"
  define pres where "pres = field_recency_presence L field (fst (last win))"
  define figures where "figures = (\<lambda>odds in_draw entrants. \<lparr>r_window = win, r_median = median (map (\<lambda>(h, i, b). i) win),
     r_own_seconds = own_seconds, r_odds_pct = odds, r_own_pace = pace,
     r_own_pace_measured = (mine \<noteq> []), r_entrants = entrants, r_in_draw_pct = in_draw,
     r_draw_window = ws, r_field_builders = length (collect_samples [] field),
     r_field_blocks = length field, r_own_blocks = length mine,
     r_win_share_pct = (if known then Some (100 * of_nat (length mine) / of_nat (length win)) else None)\<rparr>)"
  define H where "H \<longleftrightarrow> (\<forall>(h, i, b)\<in>set field. hashable b)"
  note d = known_def[symmetric] is_ours_def[symmetric] field_def[symmetric] mine_def[symmetric] pace_def[symmetric]
    own_def[symmetric] ws_def[symmetric] pres_def[symmetric] H_def[symmetric]
  have e: "race_odds L dw chain own_seconds own_addr window = (if win = [] then Inr None
     else if \<not> H then Inl TypeError
     else if own = [] then Inr (Some (figures None None None))
     else rbind (odds_seed (last chain)) (\<lambda>seed.
       case simulate_draws L own (collect_samples [] field) ws seed pres ODDS_TRIALS of
         (odds, in_draw, entrants) \<Rightarrow> Inr (Some (figures (Some odds) (Some in_draw) entrants))))"
    unfolding race_odds_def w(1) rbind.simps Let_def d figures_def ..
  have hash: H
  proof (rule ccontr)
    assume "\<not> ?thesis"
    then have "race_odds L dw chain own_seconds own_addr window = Inl TypeError" unfolding e by (simp only: w(2) if_False if_True not_True_eq_False simp_thms)
    with assms(1) show False by simp
  qed
  have own: "own \<noteq> []"
  proof
    assume "own = []"
    then have "race_odds L dw chain own_seconds own_addr window = Inr (Some (figures None None None))"
      unfolding e using w(2) hash by (simp only: if_False if_True simp_thms)
    with assms(1) have "r = figures None None None" by simp
    with assms(2) show False by (simp add: figures_def)
  qed
  from assms(1) obtain seed od ind ent where sim: "simulate_draws L own (collect_samples [] field) ws seed pres ODDS_TRIALS = (od, ind, ent)"
    and rr: "r = figures (Some od) (Some ind) ent"
    unfolding e using w(2) hash own
    by (cases "odds_seed (last chain)") (simp, simp only: if_False simp_thms rbind.simps, auto split: prod.splits)
  have r: "r_odds_pct r = Some od" "r_in_draw_pct r = Some ind" "r_entrants r = ent"
      "r_field_builders r = length (collect_samples [] field)" "r_field_blocks r = length field" "r_draw_window r = ws"
    unfolding rr figures_def by simp_all
  have o: "od = odds" using r(1) assms(2) by simp
  have T: "0 < ODDS_TRIALS" by (simp add: ODDS_TRIALS_def)
  note b = simulate_bounds[OF sim T]
  have "odds = 100" if "length field = 0" "0 \<le> ws"
  proof -
    have f: "collect_samples [] field = []" using that(1) by simp
    from sim show ?thesis unfolding f no_rivals[OF that(2) T] using o by simp
  qed
  then have full: "r_field_blocks r = 0 \<longrightarrow> 0 \<le> r_draw_window r \<longrightarrow> odds = 100" unfolding r by blast
  show ?thesis
    using b(1-4) full b(5) unfolding o r(3,4)[symmetric] by (intro exI[of _ ind] conjI) (simp_all only: r(2))
qed

text \<open>Two blocks, the second of a rival, and a node that takes fifty seconds.\<close>

theorem race_odds_sound_witness:
  "\<exists>r odds in_draw. race_odds \<lparr>d_below = \<lambda>_ _ _. 0, d_unit = \<lambda>_ _. 0, d_half = \<lambda>_ _. 1\<rparr> 10
      [[(''timestamp'', JInt 0)], [(''timestamp'', JInt 100), (''builder'', JStr ''b''), (''hash'', JStr ''0a'')]]
      (Some 50) (Some ''a'') None = Inr (Some r)
    \<and> r_field_builders r = 1 \<and> r_odds_pct r = Some odds \<and> r_in_draw_pct r = Some in_draw \<and> odds \<le> in_draw \<and> in_draw \<le> 100"
proof -
  let ?L = "\<lparr>d_below = \<lambda>_ _ _. 0, d_unit = \<lambda>_ _. 0, d_half = \<lambda>_ _. 1\<rparr>"
  let ?c = "[[(''timestamp'', JInt 0)], [(''timestamp'', JInt 100), (''builder'', JStr ''b''), (''hash'', JStr ''0a'')]]"
  have w: "race_window ?c = Inr [(1, 100, JStr ''b'')]"
    by (simp add: race_window_def ODDS_WINDOW_BLOCKS_def jget_def get_or_def py_eq_def block_delta_def read_num_def read_field_def)
  obtain od ind ent where s: "simulate_draws ?L [50] [(JStr ''b'', [100])] 10 10 [(JStr ''b'', 1)] ODDS_TRIALS = (od, ind, ent)"
    by (metis prod.exhaust)
  have "\<exists>r. race_odds ?L 10 ?c (Some 50) (Some ''a'') None = Inr (Some r) \<and> r_odds_pct r = Some od \<and> r_field_builders r = 1"
    unfolding race_odds_def w rbind.simps
    by (simp add: field_recency_presence_def odds_seed_def get_or_def hexval_def s Let_def)
  then obtain r where r: "race_odds ?L 10 ?c (Some 50) (Some ''a'') None = Inr (Some r)" "r_odds_pct r = Some od" "r_field_builders r = 1" by blast
  from race_odds_sound[OF r(1,2)] obtain in_draw where "r_in_draw_pct r = Some in_draw" "od \<le> in_draw" "in_draw \<le> 100" by blast
  with r show ?thesis by (intro exI[of _ r] exI[of _ od] exI[of _ in_draw]) simp
qed

end
