(* ===== verification/Reorg.thy ===== *)
theory Reorg
  imports Storage Mempool Gossip Peerpool Alike Syncer Odds
begin

text \<open>
  \<^verbatim>\<open>src/src/node.py\<close>, the chain side: the node's state, the cache of recent ledgers, the evaluation of
  a candidate chain and its adoption, and what a reorganisation does to the mempool and the store.
  The clock stands still within a step; the random bits and choices of gossip are functions of
  the item's hash; the swap worker, the log and the status line are not modelled.
\<close>

section \<open>The node\<close>

text \<open>
  The LRU cache of verdicts is a parameter: its operations, and \<open>l_view\<close>, what it holds. A look-up
  may reorder the cache.
\<close>

record 'j lru_ops =
  l_new :: "nat \<Rightarrow> 'j"
  l_get :: "'j \<Rightarrow> json \<Rightarrow> bool option \<times> 'j"
  l_put :: "'j \<Rightarrow> json \<Rightarrow> bool \<Rightarrow> 'j"
  l_view :: "'j \<Rightarrow> json \<Rightarrow> bool option"

text \<open>
  What a step takes from outside: the parameters, the two clocks, chance, and the node's own settings.
\<close>

record ('c, 'j) env =
  e_prims :: prims
  e_cache :: "'c cache_ops"
  e_lru :: "'j lru_ops"
  e_lib :: store_lib
  e_now :: rat
  e_mono :: rat
  e_bits :: "string \<Rightarrow> nat"
  e_pick :: "string list \<Rightarrow> string"
  e_ip :: ip_lib
  e_addr :: string
  e_window :: rat
  e_mining :: bool
  e_dumps :: "rat list \<Rightarrow> string"
  e_net :: net
  e_draws :: draw_lib

record unconfirmed =
  u_item :: json
  u_kind :: string
  u_at :: rat
  u_stem :: "string option"

text \<open>What the queue's \<^verbatim>\<open>submit_tx\<close> replies: why not, or the hash.\<close>

datatype submit_result = Invalid tx_error | NotPooled mempool_error | Submitted string

text \<open>A message of the inbound queue; a block is always an object, a transaction any JSON value.\<close>

datatype msg =
    MsgBlock block string bool
  | MsgTx json string bool
  | MsgSubmit tx

record ('c, 'j) node =
  n_cs :: chain_state
  n_view :: chain_state
  n_mempool :: mempool
  n_storage :: storage
  n_seen :: "'c seen"
  n_judged :: 'j
  n_judged_tip :: json
  n_draw_height :: json
  n_draw_closes :: rat
  n_draw_anchor :: rat
  n_unconfirmed :: "(string, unconfirmed) dict"
  n_echo :: "rat list"
  n_last_block_seen :: rat
  n_last_silence_poll :: rat
  n_last_probe :: rat
  n_sync_hint :: "string option"
  n_sync_hint_height :: rat
  n_recent :: "(rat, state \<times> rat) dict"
  n_sent :: "json send list"
  n_pool :: peer_pool
  n_builds :: "rat list"
  n_rate :: "rat option"
  n_queue :: "msg list"
  n_replies :: "submit_result list"
  n_syncer :: syncer

definition RECENT_STATE_CACHE_SIZE :: nat where "RECENT_STATE_CACHE_SIZE = 20"
definition REORG_NOTABLE_DEPTH :: int where "REORG_NOTABLE_DEPTH = 2"

text \<open>\<^verbatim>\<open>blk.get("transactions", [])\<close> as a list, and the hash of an entry.\<close>

definition block_txs :: "block \<Rightarrow> json list res" where
  "block_txs blk = iter_json (get_or blk ''transactions'' (JArr []))"

fun json_tx_hash :: "prims \<Rightarrow> json \<Rightarrow> string res" where
  "json_tx_hash P (JObj t) = Inr (tx_hash P t)"
| "json_tx_hash P _ = Inl AttributeError"

definition chain_txs :: "blocks \<Rightarrow> json list res" where
  "chain_txs blks = rbind (map_res block_txs blks) (\<lambda>tss. Inr (concat tss))"

section \<open>Recent ledgers\<close>

definition height_key :: "chain_state \<Rightarrow> rat res" where
  "height_key cs = read_num ''height'' (cs_tip cs)"

definition remember_state :: "chain_state \<Rightarrow> ('c, 'j) node \<Rightarrow> ('c, 'j) node res" where
  "remember_state cs n = rbind (height_key cs) (\<lambda>h.
     (let d = AList.delete h (n_recent n) @ [(h, snapshot (cs_state cs), cumulative_iterations cs)]
      in Inr (n\<lparr>n_recent := drop (length d - RECENT_STATE_CACHE_SIZE) d\<rparr>)))"

definition forget_states_from :: "nat \<Rightarrow> ('c, 'j) node \<Rightarrow> ('c, 'j) node" where
  "forget_states_from height n = n\<lparr>n_recent := filter (\<lambda>(h, _). h < of_nat height) (n_recent n)\<rparr>"

definition resume_point :: "('c, 'j) node \<Rightarrow> nat \<Rightarrow> blocks \<Rightarrow> chain_state option" where
  "resume_point n fork remote_chain =
     (if fork = length (cs_chain (n_cs n)) then Some (n_cs n)
      else if fork = 1 then Some \<lparr>cs_chain = take fork remote_chain, cs_state = empty_state, cumulative_iterations = 0\<rparr>
      else (case map_of (n_recent n) (of_nat fork - 1) of
        None \<Rightarrow> None
      | Some (base_state, base_iterations) \<Rightarrow>
          Some \<lparr>cs_chain = take fork remote_chain, cs_state = snapshot base_state, cumulative_iterations = base_iterations\<rparr>))"

section \<open>Evaluating a chain\<close>

datatype sync_error =
    GenesisMismatch
  | InvalidBlock json block_error
  | ValidationError exn
  | ReplayError exn
  | NotBetter

text \<open>The loop both evaluations share: validate and apply the blocks one after the other.\<close>

fun apply_tail :: "prims \<Rightarrow> rat \<Rightarrow> chain_state \<Rightarrow> blocks \<Rightarrow> (sync_error + chain_state) res" where
  "apply_tail P now cs [] = Inr (Inr cs)"
| "apply_tail P now cs (blk # tail) =
     rbind (validate_and_apply P now cs blk) (\<lambda>(r, cs').
       case r of Some e \<Rightarrow> Inr (Inl (InvalidBlock (jget blk ''height'') e)) | None \<Rightarrow> apply_tail P now cs' tail)"

definition validate_tail :: "prims \<Rightarrow> rat \<Rightarrow> blocks \<Rightarrow> blocks \<Rightarrow> (sync_error + chain_state) res" where
  "validate_tail P now tail prefix =
     rbind (if prefix \<noteq> [] then from_chain prefix else Inr (from_genesis P)) (\<lambda>cs. apply_tail P now cs tail)"

fun first_difference :: "nat \<Rightarrow> blocks \<Rightarrow> blocks \<Rightarrow> nat res" where
  "first_difference i (a # as) (b # bs) =
     rbind (read_field ''hash'' a) (\<lambda>x. rbind (read_field ''hash'' b) (\<lambda>y.
       if \<not> py_eq x y then Inr i else first_difference (i + 1) as bs))"
| "first_difference i _ _ = Inr i"

text \<open>The slices \<^verbatim>\<open>x[:12]\<close> and \<^verbatim>\<open>x[:24]\<close> of the log lines: they raise unless \<open>x\<close> is a string or a list.\<close>

fun shorten :: "json \<Rightarrow> unit res" where
  "shorten (JStr x) = Inr ()"
| "shorten (JArr x) = Inr ()"
| "shorten _ = Inl TypeError"

text \<open>An exception inside a \<^verbatim>\<open>try\<close> becomes the error.\<close>

definition catch :: "(exn \<Rightarrow> sync_error) \<Rightarrow> (sync_error + chain_state) res \<Rightarrow> sync_error + chain_state" where
  "catch f r = (case r of Inl e \<Rightarrow> Inl (f e) | Inr v \<Rightarrow> v)"

datatype evaluation =
    Rejected sync_error
  | NoBetter nat blocks
  | Better nat blocks chain_state

definition evaluate_tail :: "prims \<Rightarrow> rat \<Rightarrow> ('c, 'j) node \<Rightarrow> nat \<Rightarrow> blocks \<Rightarrow> sync_error + chain_state" where
  "evaluate_tail P now n fork remote_chain =
     (case resume_point n fork remote_chain of
        Some base_cs \<Rightarrow> catch ValidationError (apply_tail P now base_cs (drop fork remote_chain))
      | None \<Rightarrow> catch ReplayError (validate_tail P now (drop fork remote_chain) (take fork remote_chain)))"

definition evaluate_remote_chain :: "prims \<Rightarrow> rat \<Rightarrow> ('c, 'j) node \<Rightarrow> blocks \<Rightarrow> evaluation res" where
  "evaluate_remote_chain P now n remote_chain =
     (if remote_chain = [] then Inr (Rejected GenesisMismatch)
      else rbind (read_field ''hash'' (hd remote_chain)) (\<lambda>g.
        if \<not> py_eq g (genesis_hash (n_cs n)) then rbind (shorten g) (\<lambda>_. Inr (Rejected GenesisMismatch))
        else rbind (first_difference 0 (cs_chain (n_cs n)) remote_chain) (\<lambda>fork.
          (let tail = drop fork remote_chain
           in case evaluate_tail P now n fork remote_chain of
                Inl e \<Rightarrow> Inr (Rejected e)
              | Inr remote_cs \<Rightarrow> rbind (is_better_than P remote_cs (n_cs n)) (\<lambda>better.
                  Inr (if better then Better fork tail remote_cs else NoBetter fork tail))))))"

section \<open>Spreading an item, re-adding transactions\<close>

definition gossip_peers :: "('c, 'j) env \<Rightarrow> ('c, 'j) node \<Rightarrow> string list" where
  "gossip_peers E n = get_all (e_mono E) (n_pool n)"

definition node_spread :: "('c, 'j) env \<Rightarrow> json \<Rightarrow> string \<Rightarrow> string \<Rightarrow> (('c, 'j) node, unit) act" where
  "node_spread E item kind h = (\<lambda>n.
     case spread (e_cache E) (e_pick E) (e_bits E h) (gossip_peers E n) item kind h (n_seen n) of
       Inl e \<Rightarrow> (Inl e, n)
     | Inr (stem_target, sends, g) \<Rightarrow>
         (Inr (), n\<lparr>n_seen := g, n_sent := n_sent n @ sends,
            n_unconfirmed := AList.update h
              \<lparr>u_item = item, u_kind = kind, u_at = e_mono E, u_stem = stem_target\<rparr> (n_unconfirmed n)\<rparr>))"

definition validate_on :: "prims \<Rightarrow> state \<Rightarrow> tx \<Rightarrow> tx_error option res" where
  "validate_on P s t = tx_validate P (\<lambda>_. None) (get_balance s) (get_nonce s) (total_board_posts s) None t"

definition readd_tx :: "('c, 'j) env \<Rightarrow> string list \<Rightarrow> state \<Rightarrow> json \<Rightarrow> (('c, 'j) node, unit) act" where
  "readd_tx E exclude_hashes s j =
     (case j of JObj t \<Rightarrow>
        if tx_hash (e_prims E) t \<in> set exclude_hashes then return ()
        else bind_act (lift_res (validate_on (e_prims E) s t)) (\<lambda>r.
          if r \<noteq> None then return ()
          else (\<lambda>n. case mp_add (e_prims E) (e_mono E) (n_mempool n) t of
               (Inl _, m) \<Rightarrow> (Inr (), n\<lparr>n_mempool := m\<rparr>)
             | (Inr _, m) \<Rightarrow> node_spread E j KIND_TX (tx_hash (e_prims E) t) (n\<lparr>n_mempool := m\<rparr>)))
      | _ \<Rightarrow> lift_res (Inl AttributeError))"

definition readd_valid_txs :: "('c, 'j) env \<Rightarrow> json list \<Rightarrow> string list \<Rightarrow> state \<Rightarrow> (('c, 'j) node, unit) act" where
  "readd_valid_txs E txs exclude_hashes s = for_each (readd_tx E exclude_hashes s) txs"

definition salvage_fork_txs :: "('c, 'j) env \<Rightarrow> nat \<Rightarrow> blocks \<Rightarrow> (('c, 'j) node, unit) act" where
  "salvage_fork_txs E fork tail = (\<lambda>n.
     bind_act (lift_res (rbind (chain_txs (drop fork (cs_chain (n_cs n)))) (map_res (json_tx_hash (e_prims E))))) (\<lambda>confirmed.
     bind_act (lift_res (chain_txs tail)) (\<lambda>txs.
       readd_valid_txs E txs confirmed (cs_state (n_cs n)))) n)"

definition reorg_mempool :: "('c, 'j) env \<Rightarrow> nat \<Rightarrow> blocks \<Rightarrow> blocks \<Rightarrow> state \<Rightarrow> (('c, 'j) node, unit) act" where
  "reorg_mempool E fork old_chain new_chain new_state =
     bind_act (lift_res (chain_txs (drop fork old_chain))) (\<lambda>old_txs.
     bind_act (lift_res (rbind (chain_txs (drop fork new_chain)) (map_res (json_tx_hash (e_prims E))))) (\<lambda>new_confirmed.
     bind_act (modify (\<lambda>n. n\<lparr>n_mempool := mp_remove_many (n_mempool n) (remdups new_confirmed)\<rparr>)) (\<lambda>_.
       readd_valid_txs E old_txs new_confirmed new_state)))"

text \<open>
  The reorg record is kept as the decimal strings \<^verbatim>\<open>set_meta\<close> stores; \<open>meta_int\<close> is
  \<^verbatim>\<open>int(self.storage.get_meta(k, 0) or 0)\<close> on what this code itself wrote.
\<close>

definition meta_int :: "storage \<Rightarrow> string \<Rightarrow> int" where
  "meta_int st k = (case get_meta st k of
     None \<Rightarrow> 0
   | Some s \<Rightarrow> foldl (\<lambda>acc c. 10 * acc + (of_char c - 48)) 0 s)"

definition record_reorg :: "rat \<Rightarrow> int \<Rightarrow> storage \<Rightarrow> storage" where
  "record_reorg now discarded st =
     (if discarded < REORG_NOTABLE_DEPTH then st
      else (let count = meta_int st ''reorg_count'' + 1;
                previous_deepest = meta_int st ''reorg_deepest'';
                deepest = max previous_deepest discarded;
                st' = set_meta ''reorg_deepest'' (digits (nat deepest))
                        (set_meta ''reorg_count'' (digits (nat count)) st)
            in if discarded > previous_deepest
               then set_meta ''reorg_deepest_at'' (digits (nat \<lfloor>now\<rfloor>)) st' else st'))"

definition reorg_stats :: "storage \<Rightarrow> int \<times> int \<times> int" where
  "reorg_stats st = (meta_int st ''reorg_deepest'', meta_int st ''reorg_count'', meta_int st ''reorg_deepest_at'')"

section \<open>Adopting a chain\<close>

definition apply_better_chain :: "('c, 'j) env \<Rightarrow> blocks \<Rightarrow> (('c, 'j) node, sync_error option) act" where
  "apply_better_chain E remote_chain = (\<lambda>n.
     case evaluate_remote_chain (e_prims E) (e_now E) n remote_chain of
       Inl e \<Rightarrow> (Inl e, n)
     | Inr (Rejected e) \<Rightarrow> (Inr (Some e), n)
     | Inr (NoBetter fork tail) \<Rightarrow>
         bind_act (if tail \<noteq> [] then salvage_fork_txs E fork tail else return ()) (\<lambda>_. return (Some NotBetter)) n
     | Inr (Better fork tail remote_cs) \<Rightarrow>
         (case replace_chain_and_state (e_prims E) (e_lib E) (n_storage n) fork tail (cs_state remote_cs) of
            Inl e \<Rightarrow> (Inl e, n)
          | Inr (st, s) \<Rightarrow>
              (let old_chain = cs_chain (n_cs n);
                   cs' = remote_cs\<lparr>cs_state := s\<rparr>;
                   n1 = (forget_states_from fork (n\<lparr>n_storage := st\<rparr>))\<lparr>n_cs := cs'\<rparr>
               in case remember_state cs' n1 of
                    Inl e \<Rightarrow> (Inl e, n1)
                  | Inr n2 \<Rightarrow>
                      (let (_, n3) = reorg_mempool E fork old_chain remote_chain s (n2\<lparr>n_view := cs'\<rparr>);
                           discarded = int (length old_chain) - int fork
                       in (Inr None, if discarded \<noteq> 0
                             then n3\<lparr>n_storage := record_reorg (e_now E) discarded (n_storage n3)\<rparr> else n3)))))"

definition sync_page_outcome :: "('c, 'j) env \<Rightarrow> blocks \<Rightarrow> (('c, 'j) node, bool option) act" where
  "sync_page_outcome E chain = bind_act (apply_better_chain E chain) (\<lambda>err.
     return (case err of None \<Rightarrow> Some True | Some NotBetter \<Rightarrow> None | Some _ \<Rightarrow> Some False))"

section \<open>What a node holds\<close>

text \<open>
  A chain state that is, but for the dirty set, one grown from genesis by validated blocks; and the
  invariant of the node: its chain is such a one and on disk, and so is, with the ledger and the count
  cached for it, every prefix of the chain in the cache of recent ledgers.
\<close>

definition rooted :: "prims \<Rightarrow> chain_state \<Rightarrow> bool" where
  "rooted P cs \<longleftrightarrow> (\<exists>cs0. grown P cs0 \<and> alike_cs cs cs0)"

definition recent_ok :: "prims \<Rightarrow> blocks \<Rightarrow> (rat, state \<times> rat) dict \<Rightarrow> bool" where
  "recent_ok P c d \<longleftrightarrow> (\<forall>(h, s, k)\<in>set d. \<exists>i<length c. h = of_nat i
     \<and> rooted P \<lparr>cs_chain = take (i + 1) c, cs_state = s, cumulative_iterations = k\<rparr>)"

definition node_ok :: "prims \<Rightarrow> store_lib \<Rightarrow> ('c, 'j) node \<Rightarrow> bool" where
  "node_ok P K n \<longleftrightarrow> rooted P (n_cs n) \<and> recent_ok P (cs_chain (n_cs n)) (n_recent n)
     \<and> on_disk P K (n_storage n) (n_cs n) \<and> n_view n = n_cs n"

lemma rooted_alike: "rooted P a \<Longrightarrow> alike_cs b a \<Longrightarrow> rooted P b"
  unfolding rooted_def using alike_cs_trans by blast

lemma rooted_append:
  assumes "rooted P cs" "validate_and_apply P now cs blk = Inr (None, cs')"
    "jnum (jget blk ''height'') = Some h" "h \<noteq> 0"
  shows "rooted P cs' \<and> cs_chain cs' = cs_chain cs @ [blk]"
proof -
  from assms(1) obtain cs0 where c: "grown P cs0" "alike_cs cs cs0" by (auto simp: rooted_def)
  from agree_validate_and_apply[OF c(2), of P now blk] assms(2) obtain cs1 where
    v: "validate_and_apply P now cs0 blk = Inr (None, cs1)" "alike_cs cs' cs1" by (auto elim: rel_sum.cases)
  have "grown P cs1" by (rule grown_append[OF c(1) v(1) assms(3,4)])
  with v(2) have "rooted P cs'" by (auto simp: rooted_def)
  moreover have "cs_chain cs' = cs_chain cs @ [blk]" using assms(2) by (rule validate_and_apply_ok) simp
  ultimately show ?thesis by blast
qed

lemma rooted_genesis: "rooted P (from_genesis P)"
  unfolding rooted_def using grown_genesis alike_cs_refl by blast

lemma rooted_chain:
  assumes "rooted P cs"
  shows "chain_inv P (cs_chain cs)" "sum_iterations (cs_chain cs) = Inr (cumulative_iterations cs)"
    "\<exists>cs0. from_chain (cs_chain cs) = Inr cs0 \<and> alike_cs cs cs0"
proof -
  from assms obtain cs0 where c: "grown P cs0" "alike_cs cs cs0" by (auto simp: rooted_def)
  note r = grown_replay[OF c(1)]
  have e: "cs_chain cs = cs_chain cs0" "cumulative_iterations cs = cumulative_iterations cs0"
    using c(2) by (simp_all add: alike_cs_def)
  show "chain_inv P (cs_chain cs)" unfolding e by (rule grown_inv[OF c(1)])
  show "sum_iterations (cs_chain cs) = Inr (cumulative_iterations cs)" using r by (simp add: e)
  have "from_chain (cs_chain cs0) = Inr cs0" using r by (simp add: from_chain_def)
  with c(2) show "\<exists>cs0. from_chain (cs_chain cs) = Inr cs0 \<and> alike_cs cs cs0" unfolding e by blast
qed

lemma rooted_unique:
  assumes "rooted P a" "rooted P b" "cs_chain a = cs_chain b"
  shows "alike_cs a b"
proof -
  from rooted_chain(3)[OF assms(1)] obtain a0 where a: "from_chain (cs_chain a) = Inr a0" "alike_cs a a0" by blast
  from rooted_chain(3)[OF assms(2)] obtain b0 where b: "from_chain (cs_chain b) = Inr b0" "alike_cs b b0" by blast
  from a(1) b(1) have "a0 = b0" by (simp add: assms(3))
  with a(2) b(2) show ?thesis by (metis alike_cs_sym alike_cs_trans)
qed

text \<open>Every prefix of a grown chain is grown.\<close>

lemma grown_prefix: "grown P cs \<Longrightarrow> 0 < i \<Longrightarrow> i \<le> length (cs_chain cs) \<Longrightarrow> \<exists>cs0. grown P cs0 \<and> cs_chain cs0 = take i (cs_chain cs)"
proof (induction arbitrary: i rule: grown.induct)
  case grown_genesis
  then have "i = 1" by (simp add: from_genesis_def)
  then have "cs_chain (from_genesis P) = take i (cs_chain (from_genesis P))" by (simp add: from_genesis_def)
  then show ?case using grown.grown_genesis by blast
next
  case (grown_append cs now blk cs' h)
  have e: "cs_chain cs' = cs_chain cs @ [blk]" using grown_append(2) by (rule validate_and_apply_ok) simp
  show ?case
  proof (cases "i \<le> length (cs_chain cs)")
    case True
    with grown_append(5)[of i] grown_append(6) e show ?thesis by simp
  next
    case False
    with grown_append(7) e have "take i (cs_chain cs') = cs_chain cs'" by simp
    with grown.grown_append[OF grown_append(1-4)] show ?thesis by auto
  qed
qed

text \<open>The loop over the tail depends on the base only up to the dirty set.\<close>

lemma agree_apply_tail:
  assumes "alike_cs a b"
  shows "agree_res (rel_sum (=) alike_cs) (apply_tail P now a tail) (apply_tail P now b tail)"
  using assms
proof (induction tail arbitrary: a b)
  case (Cons blk tail)
  show ?case unfolding apply_tail.simps
    by (rule agree_rbind[OF agree_validate_and_apply[OF Cons.prems]]) (auto split: option.split intro: Cons.IH)
qed simp

lemma apply_tail_rooted:
  assumes "apply_tail P now cs tail = Inr (Inr cs')" "rooted P cs"
    "\<forall>b\<in>set tail. jnum (jget b ''height'') \<noteq> Some 0"
  shows "rooted P cs' \<and> cs_chain cs' = cs_chain cs @ tail \<and> (\<forall>b\<in>set tail. indexable P b)"
  using assms
proof (induction tail arbitrary: cs)
  case (Cons blk tail)
  from Cons.prems(1) obtain cs1 where v: "validate_and_apply P now cs blk = Inr (None, cs1)"
    "apply_tail P now cs1 tail = Inr (Inr cs')" by (auto simp: rbind_Inr_conv split: option.splits)
  note inv = rooted_chain(1)[OF Cons.prems(2)]
  from v(1) obtain pr where p: "block_validate P now blk (cs_state cs) (cs_chain cs) = Inr (None, pr)" by (rule validate_and_apply_ok)
  then have t: "check_parent blk (cs_chain cs) = Inr None" "apply_transactions P blk (cs_state cs) = Inr (None, pr)"
    by (simp_all add: block_validate_None)
  obtain h where h: "jnum (jget blk ''height'') = Some h" "h \<noteq> 0"
  proof (cases "jnum (jget blk ''height'')")
    case None
    have c: "cs_chain cs \<noteq> []" using inv by (simp add: chain_inv_def)
    from t(1) None have False
      using c by (auto simp: check_parent_def read_field_def jget_def get_or_def py_eq_def rbind_Inr_conv
          split: option.splits if_splits)
    then show thesis ..
  next
    case (Some h)
    with Cons.prems(3) show thesis by (intro that) auto
  qed
  from rooted_append[OF Cons.prems(2) v(1) h] have r: "rooted P cs1" "cs_chain cs1 = cs_chain cs @ [blk]" by blast+
  from Cons.IH[OF v(2) r(1)] Cons.prems(3) r(2) valid_indexable[OF t(2)] show ?case by simp
qed simp

text \<open>Resuming from what the node holds is resuming from a state rooted at genesis, on the node's own blocks.\<close>

lemma resume_rooted:
  assumes ok: "rooted P (n_cs n)" "recent_ok P (cs_chain (n_cs n)) (n_recent n)"
    and f: "0 < f" "f \<le> length (cs_chain (n_cs n))" and same: "take f remote = take f (cs_chain (n_cs n))"
    and res: "resume_point n f remote = Some start"
  shows "rooted P start \<and> cs_chain start = take f remote"
proof -
  consider (ext) "f = length (cs_chain (n_cs n))" | (gen) "f \<noteq> length (cs_chain (n_cs n))" "f = 1"
    | (cached) "f \<noteq> length (cs_chain (n_cs n))" "f \<noteq> 1" by blast
  then show ?thesis
  proof cases
    case ext
    with res ok(1) same show ?thesis by (simp add: resume_point_def)
  next
    case gen
    have "cs_chain (n_cs n) \<noteq> []" "cs_chain (n_cs n) ! 0 = create_genesis P"
      using rooted_chain(1)[OF ok(1)] by (simp_all add: chain_inv_def)
    then have "take 1 (cs_chain (n_cs n)) = [create_genesis P]" by (cases "cs_chain (n_cs n)") auto
    with gen res same rooted_genesis[of P] show ?thesis by (auto simp: resume_point_def from_genesis_def)
  next
    case cached
    with res obtain s k where m: "map_of (n_recent n) (of_nat f - 1) = Some (s, k)"
      "start = \<lparr>cs_chain = take f remote, cs_state = s, cumulative_iterations = k\<rparr>"
      by (auto simp: resume_point_def split: option.splits)
    from map_of_SomeD[OF m(1)] ok(2) obtain i where i: "of_nat f - 1 = (of_nat i :: rat)"
      "rooted P \<lparr>cs_chain = take (i + 1) (cs_chain (n_cs n)), cs_state = s, cumulative_iterations = k\<rparr>"
      unfolding recent_ok_def by auto
    from i(1) have "(of_nat f :: rat) = of_nat (i + 1)" by (simp add: diff_eq_eq)
    then have "f = i + 1" by (simp only: of_nat_eq_iff)
    with i(2) m(2) same show ?thesis by simp
  qed
qed

text \<open>C13: Resuming is replaying: when the candidate chain starts with the node's own blocks, validating its tail
  from the cached ledger gives the same verdict as rebuilding the ledger from genesis first, the same
  exception, the same rejected block, or chain states that differ in nothing but the dirty set.\<close>

theorem resume_equals_replay:
  assumes "rooted P (n_cs n)" and "recent_ok P (cs_chain (n_cs n)) (n_recent n)"
    and "0 < f" and "f \<le> length (cs_chain (n_cs n))" and "take f remote = take f (cs_chain (n_cs n))"
    and "resume_point n f remote = Some start"
  shows "agree_res (rel_sum (=) alike_cs) (apply_tail P now start (drop f remote))
      (validate_tail P now (drop f remote) (take f remote))"
proof -
  from resume_rooted[OF assms] have r: "rooted P start" "cs_chain start = take f remote" by blast+
  from rooted_chain(3)[OF r(1)] obtain cs0 where c: "from_chain (take f remote) = Inr cs0" "alike_cs start cs0"
    by (auto simp: r(2))
  have "take f remote \<noteq> []" using assms(3,4,5) by (cases "cs_chain (n_cs n)") auto
  then have "validate_tail P now (drop f remote) (take f remote) = apply_tail P now cs0 (drop f remote)"
    by (simp add: validate_tail_def c(1))
  with agree_apply_tail[OF c(2)] show ?thesis by simp
qed

section \<open>Adoption\<close>

text \<open>What re-adding transactions leaves alone.\<close>

definition same_core :: "('c, 'j) node \<Rightarrow> ('c, 'j) node \<Rightarrow> bool" where
  "same_core n n' \<longleftrightarrow> n_cs n' = n_cs n \<and> n_view n' = n_view n \<and> n_storage n' = n_storage n \<and> n_recent n' = n_recent n
     \<and> n_judged n' = n_judged n \<and> n_judged_tip n' = n_judged_tip n"

lemma same_core_refl: "same_core n n"
  by (simp add: same_core_def)

lemma same_core_trans: "same_core a b \<Longrightarrow> same_core b c \<Longrightarrow> same_core a c"
  by (simp add: same_core_def)

interpretation core: frame same_core
  by unfold_locales (simp_all add: same_core_refl same_core_trans)

lemma keeps_core_spread [simp]: "keeps same_core (node_spread E item kind h)"
  by (auto simp: keeps_def node_spread_def same_core_def split: sum.split)

lemma keeps_core_readd: "keeps same_core (readd_tx E ex s j)"
proof (cases j)
  case (JObj t)
  have "keeps same_core (\<lambda>n. case mp_add (e_prims E) (e_mono E) (n_mempool n) t of
        (Inl _, m) \<Rightarrow> (Inr (), n\<lparr>n_mempool := m\<rparr>)
      | (Inr _, m) \<Rightarrow> node_spread E j KIND_TX (tx_hash (e_prims E) t) (n\<lparr>n_mempool := m\<rparr>))"
    unfolding keeps_def
  proof
    fix n :: "('a, 'b) node"
    have c: "same_core n (n\<lparr>n_mempool := m\<rparr>)" for m by (simp add: same_core_def)
    have "same_core (n\<lparr>n_mempool := m\<rparr>) (snd (node_spread E j KIND_TX h (n\<lparr>n_mempool := m\<rparr>)))" for m h
      using keeps_core_spread[unfolded keeps_def] by blast
    then have "same_core n (snd (node_spread E j KIND_TX h (n\<lparr>n_mempool := m\<rparr>)))" for m h
      using same_core_trans[OF c] by blast
    with c show "same_core n (snd (case mp_add (e_prims E) (e_mono E) (n_mempool n) t of
          (Inl _, m) \<Rightarrow> (Inr (), n\<lparr>n_mempool := m\<rparr>)
        | (Inr _, m) \<Rightarrow> node_spread E j KIND_TX (tx_hash (e_prims E) t) (n\<lparr>n_mempool := m\<rparr>)))"
      by (auto split: prod.split sum.split)
  qed
  then show ?thesis unfolding readd_tx_def JObj by (auto intro!: core.bind core.return core.lift)
qed (simp_all add: readd_tx_def core.lift)

lemma keeps_core_readds: "keeps same_core (readd_valid_txs E txs ex s)"
  unfolding readd_valid_txs_def
  by (rule core.for_each) (rule keeps_core_readd)

lemma keeps_core_reorg_mempool: "keeps same_core (reorg_mempool E f old new s)"
proof -
  have "keeps same_core (modify (\<lambda>n. n\<lparr>n_mempool := mp_remove_many (n_mempool n) hs\<rparr>))" for hs
    by (simp add: keeps_def modify_def same_core_def)
  then show ?thesis unfolding reorg_mempool_def by (intro core.bind core.lift) (simp_all add: keeps_core_readds)
qed

lemma keeps_core_salvage: "keeps same_core (salvage_fork_txs E f tail)"
proof -
  have "keeps same_core (bind_act (lift_res r) (\<lambda>confirmed. bind_act (lift_res q) (\<lambda>txs. readd_valid_txs E txs confirmed s)))" for r q s
    by (intro core.bind core.lift) (simp_all add: keeps_core_readds)
  then show ?thesis unfolding salvage_fork_txs_def keeps_def by blast
qed

lemma same_core_ok: "same_core n n' \<Longrightarrow> node_ok P K n \<Longrightarrow> node_ok P K n'"
  by (simp add: same_core_def node_ok_def)

text \<open>The reorg record only touches the meta table.\<close>

lemma record_reorg_tables: "on_disk P K (record_reorg now d st) cs = on_disk P K st cs"
  by (simp add: record_reorg_def on_disk_def blocks_on_disk_def state_on_disk_def disk_row_def set_meta_def Let_def)

lemma rooted_height:
  assumes "rooted P cs"
  shows "height_key cs = Inr (of_nat (length (cs_chain cs) - 1))" "cs_chain cs \<noteq> []"
proof -
  note inv = rooted_chain(1)[OF assms]
  show c: "cs_chain cs \<noteq> []" using inv by (simp add: chain_inv_def)
  then have "parent_ok (cs_chain cs ! (length (cs_chain cs) - 1)) (block_hash P (cs_chain cs ! (length (cs_chain cs) - 1)))
      (of_nat (length (cs_chain cs) - 1)) (block_time (cs_chain cs ! (length (cs_chain cs) - 1)))"
    using inv by (simp add: chain_inv_def)
  with c show "height_key cs = Inr (of_nat (length (cs_chain cs) - 1))"
    by (simp add: height_key_def cs_tip_def last_conv_nth parent_ok_def)
qed

text \<open>Remembering a ledger of the canonical chain keeps the cache sound, and so does forgetting from the fork on.\<close>

lemma remember_ok:
  assumes "rooted P cs" "recent_ok P (cs_chain cs) (n_recent n)"
  obtains n' where "remember_state cs n = Inr n'" "recent_ok P (cs_chain cs) (n_recent n')"
    "n' = n\<lparr>n_recent := n_recent n'\<rparr>"
proof -
  let ?h = "of_nat (length (cs_chain cs) - 1) :: rat"
  let ?d = "AList.delete ?h (n_recent n) @ [(?h, cs_state cs, cumulative_iterations cs)]"
  let ?r = "drop (length ?d - RECENT_STATE_CACHE_SIZE) ?d"
  note h = rooted_height[OF assms(1)]
  have "set ?r \<subseteq> set ?d" by (rule set_drop_subset)
  moreover have "set ?d \<subseteq> insert (?h, cs_state cs, cumulative_iterations cs) (set (n_recent n))"
    by (auto simp: AList.delete_eq)
  moreover have e: "\<lparr>cs_chain = cs_chain cs, cs_state = cs_state cs, cumulative_iterations = cumulative_iterations cs\<rparr> = cs"
    by (cases cs) simp
  have "\<exists>i<length (cs_chain cs). ?h = of_nat i \<and> rooted P \<lparr>cs_chain = take (i + 1) (cs_chain cs),
      cs_state = cs_state cs, cumulative_iterations = cumulative_iterations cs\<rparr>"
    using assms(1) h(2) by (intro exI[of _ "length (cs_chain cs) - 1"]) (simp add: e del: of_nat_diff)
  ultimately have "recent_ok P (cs_chain cs) ?r"
    using assms(2) unfolding recent_ok_def by blast
  moreover define r where "r = ?r"
  moreover have "remember_state cs n = Inr (n\<lparr>n_recent := r\<rparr>)" by (simp add: remember_state_def h(1) Let_def r_def)
  ultimately show thesis by (intro that[of "n\<lparr>n_recent := r\<rparr>"]) simp_all
qed

lemma forget_ok:
  assumes "recent_ok P c d" "take f c' = take f c" "f \<le> length c'"
  shows "recent_ok P c' (filter (\<lambda>(h, _). h < of_nat f) d)"
  unfolding recent_ok_def
proof (intro ballI, clarify)
  fix h s k assume "(h, s, k) \<in> set (filter (\<lambda>(h, _). h < of_nat f) d)"
  then have m: "(h, s, k) \<in> set d" "h < of_nat f" by auto
  with assms(1) obtain i where i: "h = of_nat i"
      "rooted P \<lparr>cs_chain = take (i + 1) c, cs_state = s, cumulative_iterations = k\<rparr>"
    unfolding recent_ok_def by blast
  have "i < f" using m(2) i(1) by simp
  then have "take (i + 1) c' = take (i + 1) c" using assms(2) by (metis Suc_eq_plus1 Suc_leI min_def take_take)
  with i \<open>i < f\<close> assms(3) show "\<exists>i<length c'. h = of_nat i
      \<and> rooted P \<lparr>cs_chain = take (i + 1) c', cs_state = s, cumulative_iterations = k\<rparr>"
    by (intro exI[of _ i]) simp
qed

lemma first_difference_spec:
  "first_difference k a b = Inr f \<Longrightarrow> k \<le> f \<and> f - k \<le> length a \<and> f - k \<le> length b
     \<and> (\<forall>j<f - k. py_eq (hash_of (a ! j)) (hash_of (b ! j)))"
proof (induction k a b rule: first_difference.induct)
  case (1 i a as b bs)
  then obtain x y where xy: "read_field ''hash'' a = Inr x" "read_field ''hash'' b = Inr y" by (auto simp: rbind_Inr_conv)
  then have h: "hash_of a = x" "hash_of b = y"
    by (auto simp: read_field_def hash_of_def jget_def get_or_def split: option.splits)
  show ?case
  proof (cases "py_eq x y")
    case True
    with 1 xy have f: "first_difference (i + 1) as bs = Inr f" by simp
    from "1.IH"[OF xy _ f] True have IH: "i + 1 \<le> f \<and> f - (i + 1) \<le> length as \<and> f - (i + 1) \<le> length bs
      \<and> (\<forall>j<f - (i + 1). py_eq (hash_of (as ! j)) (hash_of (bs ! j)))" by simp
    have "py_eq (hash_of ((a # as) ! j)) (hash_of ((b # bs) ! j))" if "j < f - i" for j
      using that IH h True by (cases j) auto
    with IH show ?thesis by auto
  next
    case False
    with 1 xy show ?thesis by simp
  qed
qed auto

lemma first_difference_pos:
  assumes "first_difference 0 (a # as) (b # bs) = Inr f" "py_eq (hash_of a) (hash_of b)"
  shows "0 < f"
proof -
  from assms obtain x y where "read_field ''hash'' a = Inr x" "read_field ''hash'' b = Inr y" by (auto simp: rbind_Inr_conv)
  then have "first_difference 1 as bs = Inr f"
    using assms by (auto simp: read_field_def hash_of_def jget_def get_or_def split: option.splits)
  with first_difference_spec show ?thesis by fastforce
qed

text \<open>Blocks of the candidate that claim the hash of ours at their place are ours.\<close>

definition faithful :: "blocks \<Rightarrow> blocks \<Rightarrow> bool" where
  "faithful c remote \<longleftrightarrow> (\<forall>i<min (length c) (length remote). hash_of (c ! i) = hash_of (remote ! i) \<longrightarrow> remote ! i = c ! i)"

lemma py_eq_sym: "py_eq a b \<longleftrightarrow> py_eq b a"
  by (auto simp: py_eq_def split: option.splits)

lemma evaluate_better:
  assumes ok: "rooted P (n_cs n)" "recent_ok P (cs_chain (n_cs n)) (n_recent n)"
    and ev: "evaluate_remote_chain P now n remote = Inr (Better f tail cs')"
    and faith: "faithful (cs_chain (n_cs n)) remote"
    and h0: "\<forall>b\<in>set (tl remote). jnum (jget b ''height'') \<noteq> Some 0"
  shows "rooted P cs' \<and> cs_chain cs' = remote \<and> tail = drop f remote \<and> f \<le> length (cs_chain (n_cs n))
    \<and> take f remote = take f (cs_chain (n_cs n)) \<and> is_better_than P cs' (n_cs n) = Inr True
    \<and> (\<forall>b\<in>set tail. indexable P b)"
proof -
  let ?c = "cs_chain (n_cs n)"
  note inv = rooted_chain(1)[OF ok(1)]
  have c: "?c \<noteq> []" using inv by (simp add: chain_inv_def)
  from ev have ne: "remote \<noteq> []" by (auto simp: evaluate_remote_chain_def)
  with ev obtain g fork where g0: "read_field ''hash'' (hd remote) = Inr g" "py_eq g (genesis_hash (n_cs n))"
      "first_difference 0 ?c remote = Inr fork"
      "(case evaluate_tail P now n fork remote of Inl e \<Rightarrow> Inr (Rejected e)
        | Inr remote_cs \<Rightarrow> rbind (is_better_than P remote_cs (n_cs n)) (\<lambda>better.
            Inr (if better then Better fork (drop fork remote) remote_cs else NoBetter fork (drop fork remote))))
        = Inr (Better f tail cs')"
    by (auto simp: evaluate_remote_chain_def rbind_Inr_conv Let_def split: if_splits)
  obtain v where v: "evaluate_tail P now n fork remote = Inr v" using g0(4) by (cases "evaluate_tail P now n fork remote") auto
  with g0(4) obtain better where "is_better_than P v (n_cs n) = Inr better"
    "(if better then Better fork (drop fork remote) v else NoBetter fork (drop fork remote)) = Better f tail cs'"
    by (auto simp: rbind_Inr_conv)
  with g0(1-3) v have g: "read_field ''hash'' (hd remote) = Inr g" "py_eq g (genesis_hash (n_cs n))"
      "first_difference 0 ?c remote = Inr f" "tail = drop f remote"
      "evaluate_tail P now n f remote = Inr cs'" "is_better_than P cs' (n_cs n) = Inr True"
    by (auto split: if_splits)
  note sp = first_difference_spec[OF g(3)]
  have "hash_of (hd remote) = g" using g(1) by (auto simp: read_field_def hash_of_def jget_def get_or_def split: option.splits)
  with g(2) py_eq_sym have "py_eq (hash_of (?c ! 0)) (hash_of (hd remote))" by (simp add: genesis_hash_def)
  with g(3) c ne have f0: "0 < f"
    by (cases ?c; cases remote) (auto simp del: first_difference.simps dest: first_difference_pos)
  have hs: "\<exists>x. hash_of (?c ! i) = JStr x" if "i < length ?c" for i
    using inv that by (auto simp: chain_inv_def dest: parent_ok_hash)
  have "remote ! i = ?c ! i" if lt: "i < f" for i
  proof -
    from sp lt have "py_eq (hash_of (?c ! i)) (hash_of (remote ! i))" by simp
    moreover obtain x where "hash_of (?c ! i) = JStr x" using hs[of i] lt sp by auto
    ultimately have "hash_of (?c ! i) = hash_of (remote ! i)" by (simp add: py_eq_sym[of "JStr _"])
    with faith lt sp show ?thesis unfolding faithful_def by simp
  qed
  then have same: "take f remote = take f ?c" using sp by (intro nth_equalityI) simp_all
  have f: "f \<le> length ?c" using sp by simp
  have t0: "\<forall>b\<in>set tail. jnum (jget b ''height'') \<noteq> Some 0"
  proof
    fix b assume "b \<in> set tail"
    then have "b \<in> set (tl remote)" unfolding g(4) using f0
      by (cases remote; cases f) (auto dest: in_set_dropD)
    with h0 show "jnum (jget b ''height'') \<noteq> Some 0" by blast
  qed
  obtain start where st: "rooted P start" "cs_chain start = take f remote" "apply_tail P now start tail = Inr (Inr cs')"
  proof (cases "resume_point n f remote")
    case (Some start)
    with g(4,5) have "apply_tail P now start tail = Inr (Inr cs')"
      by (simp add: evaluate_tail_def catch_def split: sum.splits)
    with resume_rooted[OF ok f0 f same Some] show thesis by (intro that) blast+
  next
    case None
    from ok(1) obtain cs0 where c0: "grown P cs0" "alike_cs (n_cs n) cs0" by (auto simp: rooted_def)
    have "cs_chain cs0 = ?c" using c0(2) by (simp add: alike_cs_def)
    with grown_prefix[OF c0(1) f0] f same obtain cs1 where c1: "grown P cs1" "cs_chain cs1 = take f remote" by auto
    have r1: "rooted P cs1" using c1(1) alike_cs_refl by (auto simp: rooted_def)
    have "from_chain (take f remote) = Inr cs1" using grown_replay[OF c1(1)] c1(2) by (simp add: from_chain_def)
    moreover have "take f remote \<noteq> []" using f0 ne by simp
    ultimately have "apply_tail P now cs1 tail = Inr (Inr cs')"
      using g(4,5) None by (simp add: evaluate_tail_def validate_tail_def catch_def split: sum.splits)
    with r1 c1(2) show thesis by (intro that) simp_all
  qed
  from apply_tail_rooted[OF st(3,1) t0] st(2) g(4) have "rooted P cs'" "cs_chain cs' = remote" "\<forall>b\<in>set tail. indexable P b"
    by simp_all
  with g(4,6) f same show ?thesis by simp
qed

lemma adopt_better:
  assumes ok: "node_ok (e_prims E) (e_lib E) n" and faith: "faithful (cs_chain (n_cs n)) remote"
    and h0: "\<forall>b\<in>set (tl remote). jnum (jget b ''height'') \<noteq> Some 0"
    and ev: "evaluate_remote_chain (e_prims E) (e_now E) n remote = Inr (Better f tail cs')"
  shows "\<exists>n'. apply_better_chain E remote n = (Inr None, n') \<and> node_ok (e_prims E) (e_lib E) n'
    \<and> cs_chain (n_cs n') = remote \<and> is_better_than (e_prims E) (n_cs n') (n_cs n) = Inr True"
proof -
  let ?P = "e_prims E" and ?K = "e_lib E" and ?c = "cs_chain (n_cs n)"
  have o: "rooted ?P (n_cs n)" "recent_ok ?P ?c (n_recent n)" "on_disk ?P ?K (n_storage n) (n_cs n)"
    using ok by (simp_all add: node_ok_def)
  from evaluate_better[OF o(1,2) ev faith h0] have b: "rooted ?P cs'" "cs_chain cs' = remote"
    "tail = drop f remote" "f \<le> length ?c" "take f remote = take f ?c" "is_better_than ?P cs' (n_cs n) = Inr True"
    "\<forall>b\<in>set tail. indexable ?P b" by blast+
  have cc: "cs_chain cs' = take f ?c @ tail" using b(2,3,5) by (metis append_take_drop_id)
  have ix: "\<forall>b\<in>set (cs_chain cs'). indexable ?P b"
    using b(7) on_diskD(4)[OF o(3)] unfolding cc by (auto dest: in_set_takeD)
  obtain st where st: "replace_chain_and_state ?P ?K (n_storage n) f tail (cs_state cs') = Inr (st, mark_persisted (cs_state cs'))"
    "on_disk ?P ?K st (cs'\<lparr>cs_state := mark_persisted (cs_state cs')\<rparr>)"
    by (rule reorg_on_disk[OF o(3) b(4) cc rooted_chain(1)[OF b(1)] ix rooted_chain(2)[OF b(1)]]) blast
  let ?cs = "cs'\<lparr>cs_state := mark_persisted (cs_state cs')\<rparr>"
  let ?n1 = "(forget_states_from f (n\<lparr>n_storage := st\<rparr>))\<lparr>n_cs := ?cs\<rparr>"
  have al: "alike_cs ?cs cs'" by (simp add: alike_cs_def)
  have r: "rooted ?P ?cs" by (rule rooted_alike[OF b(1) al])
  have fl: "f \<le> length (cs_chain ?cs)" using cc b(4) by simp
  have "recent_ok ?P (cs_chain ?cs) (filter (\<lambda>(h, _). h < of_nat f) (n_recent n))"
    by (rule forget_ok[OF o(2) _ fl]) (simp add: b(2,5))
  then have "recent_ok ?P (cs_chain ?cs) (n_recent ?n1)" by (simp add: forget_states_from_def)
  from remember_ok[OF r this] obtain n2 where n2: "remember_state ?cs ?n1 = Inr n2"
    "recent_ok ?P (cs_chain ?cs) (n_recent n2)" "n2 = ?n1\<lparr>n_recent := n_recent n2\<rparr>" by blast
  obtain x n3 where n3: "reorg_mempool E f ?c remote (mark_persisted (cs_state cs')) (n2\<lparr>n_view := ?cs\<rparr>) = (x, n3)" by fastforce
  have "same_core (n2\<lparr>n_view := ?cs\<rparr>) n3"
    using keeps_core_reorg_mempool[unfolded keeps_def, rule_format, of "n2\<lparr>n_view := ?cs\<rparr>" E f ?c remote "mark_persisted (cs_state cs')"] n3 by simp
  moreover have "n_cs n2 = ?cs" "n_storage n2 = st"
    by (subst n2(3), simp add: forget_states_from_def)+
  ultimately have c3: "n_cs n3 = ?cs" "n_view n3 = ?cs" "n_storage n3 = st" "n_recent n3 = n_recent n2"
    by (simp_all add: same_core_def)
  let ?d = "int (length ?c) - int f"
  let ?n4 = "if ?d \<noteq> 0 then n3\<lparr>n_storage := record_reorg (e_now E) ?d (n_storage n3)\<rparr> else n3"
  have res: "apply_better_chain E remote n = (Inr None, ?n4)"
    unfolding apply_better_chain_def ev by (simp add: st(1) n2(1) n3 Let_def)
  have "node_ok ?P ?K ?n4"
    using r n2(2) st(2) c3 record_reorg_tables by (simp add: node_ok_def)
  moreover have "is_better_than ?P ?cs (n_cs n) = Inr True"
    using b(6) alike_better[OF al alike_cs_refl] by simp
  ultimately show ?thesis unfolding res by (simp add: c3 b(2))
qed

lemma adopt_ok:
  assumes ok: "node_ok (e_prims E) (e_lib E) n" and faith: "faithful (cs_chain (n_cs n)) remote"
    and h0: "\<forall>b\<in>set (tl remote). jnum (jget b ''height'') \<noteq> Some 0"
  shows "case apply_better_chain E remote n of (r, n') \<Rightarrow> node_ok (e_prims E) (e_lib E) n'
    \<and> (case r of Inr None \<Rightarrow> cs_chain (n_cs n') = remote \<and> is_better_than (e_prims E) (n_cs n') (n_cs n) = Inr True
        | _ \<Rightarrow> n_cs n' = n_cs n)"
proof -
  let ?P = "e_prims E" and ?K = "e_lib E" and ?c = "cs_chain (n_cs n)"
  show ?thesis
  proof (cases "evaluate_remote_chain ?P (e_now E) n remote")
    case (Inl e)
    with ok show ?thesis by (simp add: apply_better_chain_def)
  next
    case (Inr ev)
    show ?thesis
    proof (cases ev)
      case (Rejected e)
      with ok Inr show ?thesis by (simp add: apply_better_chain_def)
    next
      case (NoBetter f tail)
      have k: "keeps same_core (bind_act (if tail \<noteq> [] then salvage_fork_txs E f tail else return ()) (\<lambda>_. return (Some NotBetter)))"
        by (intro core.bind core.return) (simp_all add: keeps_core_salvage core.return)
      obtain r n' where r: "apply_better_chain E remote n = (r, n')" by fastforce
      then have e: "bind_act (if tail \<noteq> [] then salvage_fork_txs E f tail else return ()) (\<lambda>_. return (Some NotBetter)) n = (r, n')"
        unfolding apply_better_chain_def Inr NoBetter by simp
      from k[unfolded keeps_def, rule_format, of n] e have "same_core n n'" by simp
      then have "node_ok ?P ?K n'" "n_cs n' = n_cs n" using same_core_ok[OF _ ok] by (simp_all add: same_core_def)
      moreover have "r \<noteq> Inr None" using e by (auto simp: bind_act_def return_def split: prod.splits sum.splits)
      ultimately show ?thesis unfolding r by (auto split: sum.split option.split)
    next
      case (Better f tail cs')
      with adopt_better[OF ok faith h0] Inr show ?thesis by fastforce
    qed
  qed
qed


section \<open>A forged prefix\<close>

text \<open>
  Without the condition on claimed hashes: copies of our own blocks under their own hashes, emptied, with
  another builder and any iteration count.
\<close>

definition forge :: "string \<Rightarrow> int \<Rightarrow> block \<Rightarrow> block" where
  "forge a N b = AList.update ''transactions'' (JArr []) (AList.update ''builder'' (JStr a)
     (AList.update ''vdf_iterations'' (JInt N) b))"

definition forged_chain :: "string \<Rightarrow> int \<Rightarrow> nat \<Rightarrow> blocks \<Rightarrow> blocks" where
  "forged_chain a N k c = hd c # map (forge a N) (take (k - 1) (tl c))"

lemma forge_fields:
  "map_of (forge a N b) ''hash'' = map_of b ''hash''" "map_of (forge a N b) ''height'' = map_of b ''height''"
  "map_of (forge a N b) ''transactions'' = Some (JArr [])" "map_of (forge a N b) ''builder'' = Some (JStr a)"
  "map_of (forge a N b) ''vdf_iterations'' = Some (JInt N)" "hash_of (forge a N b) = hash_of b"
  by (simp_all add: forge_def dict_simps hash_of_def jget_def)

text \<open>Replaying forged blocks mints every reward to one address.\<close>

lemma replay_forged:
  assumes "state_inv s" "0 \<le> total_minted s" "total_minted s \<le> SUPPLY_CAP"
    "\<And>b. b \<noteq> a \<Longrightarrow> get_balance s b = 0" "get_balance s a = total_minted s" "a \<noteq> []"
    "\<forall>b\<in>set bs. \<exists>h. read_num ''height'' b = Inr h \<and> 0 < h"
  shows "\<exists>s'. foldr_res replay_block s (map (forge a N) bs) = Inr s'
    \<and> (\<forall>b. get_balance s' b = (if b = a then total_minted s' else 0))"
  using assms
proof (induction bs arbitrary: s)
  case Nil
  then show ?case by (auto intro!: exI[of _ s])
next
  case (Cons b bs)
  let ?f = "forge a N b"
  from Cons.prems(7) obtain h where "read_num ''height'' b = Inr h" "0 < h" by auto
  then obtain v where v: "read_field ''height'' ?f = Inr v" "\<not> py_eq v (JInt 0)"
    by (auto simp: read_num_def read_field_def forge_fields py_eq_def rbind_Inr_conv split: option.splits)
  have fees: "block_fees ?f = Inr 0" by (simp add: block_fees_def get_or_def forge_fields)
  from apply_builder_reward_effect[OF Cons.prems(1) fees order.refl Cons.prems(2,3)] obtain s1 where s1:
    "apply_builder_reward s a ?f = Inr s1" "state_inv s1"
    "total_minted s1 = total_minted s + compute_reward (total_minted s)"
    "\<And>b. get_balance s1 b = get_balance s b + (if b = a then 0 + compute_reward (total_minted s) else 0)" by blast
  have r: "replay_block s ?f = Inr s1"
    using v s1(1) Cons.prems(6)
    by (simp add: replay_block_def read_field_def[of "''transactions''"] forge_fields apply_to_state_def jget_def get_or_def)
  note rf = reward_facts[OF Cons.prems(2,3) order.refl]
  have "\<exists>s'. foldr_res replay_block s1 (map (forge a N) bs) = Inr s'
      \<and> (\<forall>b. get_balance s' b = (if b = a then total_minted s' else 0))"
  proof (rule Cons.IH)
    show "0 \<le> total_minted s1" "total_minted s1 \<le> SUPPLY_CAP" using s1(3) rf Cons.prems(2) by auto
    show "get_balance s1 b = 0" if "b \<noteq> a" for b using s1(4)[of b] Cons.prems(4)[OF that] that by simp
    show "get_balance s1 a = total_minted s1" using s1(3,4) Cons.prems(5) by simp
  qed (use s1(2) Cons.prems(6,7) in simp_all)
  with r show ?case by simp
qed

lemma sum_forged:
  assumes "\<forall>b\<in>set bs. \<exists>h. read_num ''height'' b = Inr h \<and> 0 < h"
  shows "foldr_res (\<lambda>acc blk. rbind (read_num ''height'' blk) (\<lambda>h.
      if h > 0 then rbind (work_of blk) (\<lambda>n. Inr (acc + n)) else Inr acc)) acc (map (forge a N) bs)
    = Inr (acc + of_nat (length bs) * of_int N)"
  using assms
proof (induction bs arbitrary: acc)
  case (Cons b bs)
  then obtain h where "read_num ''height'' b = Inr h" "0 < h" by auto
  then have "read_num ''height'' (forge a N b) = Inr h" "0 < h" by (simp_all add: read_num_def read_field_def forge_fields)
  moreover have "work_of (forge a N b) = Inr (of_int N)" by (simp add: work_of_def forge_fields)
  ultimately show ?case using Cons by (simp add: algebra_simps)
qed simp

lemma first_difference_same:
  assumes "\<forall>i<min (length a) (length b). \<exists>x. map_of (a ! i) ''hash'' = Some x \<and> map_of (b ! i) ''hash'' = Some x"
  shows "first_difference k a b = Inr (k + min (length a) (length b))"
  using assms
proof (induction k a b rule: first_difference.induct)
  case (1 i a as b bs)
  from "1.prems" obtain x where x: "map_of a ''hash'' = Some x" "map_of b ''hash'' = Some x" by (auto dest: spec[of _ 0])
  have "\<forall>j<min (length as) (length bs). \<exists>x. map_of (as ! j) ''hash'' = Some x \<and> map_of (bs ! j) ''hash'' = Some x"
  proof (intro allI impI)
    fix j assume "j < min (length as) (length bs)"
    with "1.prems"[rule_format, of "Suc j"]
    show "\<exists>x. map_of (as ! j) ''hash'' = Some x \<and> map_of (bs ! j) ''hash'' = Some x" by simp
  qed
  with x "1.IH" show ?case by (auto simp: read_field_def py_eq_def split: option.splits)
qed auto

lemma forged_evaluation:
  assumes r: "rooted P (n_cs n)" and k: "1 < k" "k < length (cs_chain (n_cs n))"
    and miss: "map_of (n_recent n) (of_nat k - 1) = None" and a: "a \<noteq> []"
    and N: "cumulative_iterations (n_cs n) < of_nat (k - 1) * of_int N"
  shows "\<exists>cs'. evaluate_remote_chain P now n (forged_chain a N k (cs_chain (n_cs n))) = Inr (Better k [] cs')
    \<and> cs_chain cs' = forged_chain a N k (cs_chain (n_cs n))
    \<and> (\<forall>b. get_balance (cs_state cs') b = (if b = a then total_minted (cs_state cs') else 0))
    \<and> cumulative_iterations cs' = of_nat (k - 1) * of_int N"
proof -
  let ?c = "cs_chain (n_cs n)" and ?f = "forged_chain a N k (cs_chain (n_cs n))"
  let ?bs = "take (k - 1) (tl ?c)"
  note inv = rooted_chain(1)[OF r]
  have c: "?c \<noteq> []" using inv by (simp add: chain_inv_def)
  have g: "hd ?c = create_genesis P" using inv c by (simp add: chain_inv_def hd_conv_nth)
  have len: "length ?bs = k - 1" "length ?f = k" using k by (simp_all add: forged_chain_def min_def)
  have nth: "?c ! Suc i = tl ?c ! i" if "i < length (tl ?c)" for i using that by (simp add: nth_tl)
  have par: "parent_ok (?c ! i) (block_hash P (?c ! i)) (of_nat i) (block_time (?c ! i))" if "i < length ?c" for i
    using inv that by (simp add: chain_inv_def)
  have hts: "\<forall>b\<in>set ?bs. \<exists>h. read_num ''height'' b = Inr h \<and> 0 < h"
  proof
    fix b assume "b \<in> set ?bs"
    then obtain i where i: "i < k - 1" "b = ?bs ! i" using len(1) by (auto simp: in_set_conv_nth)
    then have "b = ?c ! Suc i" "Suc i < length ?c" using k by (auto simp: nth_tl)
    with par[of "Suc i"] show "\<exists>h. read_num ''height'' b = Inr h \<and> 0 < h"
      by (intro exI[of _ "of_nat (Suc i)"]) (simp add: parent_ok_def)
  qed
  have gen: "read_field ''height'' (hd ?c) = Inr (JInt 0)" "read_num ''height'' (hd ?c) = Inr 0"
    unfolding g by (simp_all add: read_field_def read_num_def create_genesis_def Let_def)
  have "state_inv empty_state" "0 \<le> total_minted empty_state" "total_minted empty_state \<le> SUPPLY_CAP"
    "get_balance empty_state b = 0" "get_balance empty_state a = total_minted empty_state" for b
    by (simp_all add: empty_state_def state_inv_def get_balance_def get_or_def param_defs)
  from replay_forged[OF this(1-3) this(4) this(5) a hts, of N] obtain s' where s':
    "foldr_res replay_block empty_state (map (forge a N) ?bs) = Inr s'"
    "\<And>b. get_balance s' b = (if b = a then total_minted s' else 0)" by blast
  have rep: "foldr_res replay_block empty_state ?f = Inr s'"
    using s'(1) gen by (simp add: forged_chain_def replay_block_def py_eq_def)
  have sm: "sum_iterations ?f = Inr (of_nat (k - 1) * of_int N)"
    using sum_forged[OF hts, of 0 a N] gen(2) len(1) by (simp add: forged_chain_def sum_iterations_def)
  define cs' where "cs' = \<lparr>cs_chain = ?f, cs_state = s', cumulative_iterations = of_nat (k - 1) * of_int N\<rparr>"
  have fc: "from_chain ?f = Inr cs'" by (simp add: from_chain_def rep sm cs'_def)
  have hash: "map_of (?f ! i) ''hash'' = map_of (?c ! i) ''hash''" if "i < k" for i
  proof (cases i)
    case 0
    with c show ?thesis by (simp add: forged_chain_def hd_conv_nth)
  next
    case (Suc j)
    with that have j: "j < k - 1" "j < length (tl ?c)" using k by auto
    with Suc len(1) show ?thesis by (simp add: forged_chain_def forge_fields nth_tl)
  qed
  have "\<forall>i<min (length ?c) (length ?f). \<exists>x. map_of (?c ! i) ''hash'' = Some x \<and> map_of (?f ! i) ''hash'' = Some x"
    using par hash len(2) k by (auto simp: parent_ok_def)
  from first_difference_same[OF this, of 0] have fd: "first_difference 0 ?c ?f = Inr k" using k len(2) by simp
  have res: "resume_point n k ?f = None" using k miss by (simp add: resume_point_def)
  have ne: "?f \<noteq> []" by (simp add: forged_chain_def)
  have et: "evaluate_tail P now n k ?f = Inr cs'"
    using len(2) ne by (simp add: evaluate_tail_def res validate_tail_def fc catch_def)
  have bt: "is_better_than P cs' (n_cs n) = Inr True" using N by (simp add: is_better_than_def cs'_def)
  have hf: "hd ?f = hd ?c" by (simp add: forged_chain_def)
  from par[of 0] c have "read_field ''hash'' (hd ?c) = Inr (genesis_hash (n_cs n))"
    by (auto simp: parent_ok_def read_field_def genesis_hash_def hash_of_def jget_def get_or_def hd_conv_nth)
  then have "evaluate_remote_chain P now n ?f = Inr (Better k [] cs')"
    using ne len(2) by (simp add: evaluate_remote_chain_def hf fd et bt py_eq_def split: option.split)
  with s'(2) show ?thesis by (intro exI[of _ cs']) (simp add: cs'_def)
qed

text \<open>Below the depth of its cache (and at any depth right after a start) the node replays the prefix a peer
  sent without validating it, as long as its blocks claim the hashes of ours: a chain of forged copies of our
  own blocks, shorter than ours, that credits every reward to one address and claims any iteration count,
  is adopted, committed to disk and published, without a single proof.\<close>

theorem forged_prefix_adopted:
  assumes "rooted (e_prims E) (n_cs n)" and "1 < k" and "k < length (cs_chain (n_cs n))"
    and "map_of (n_recent n) (of_nat k - 1) = None" and "a \<noteq> []"
    and "cumulative_iterations (n_cs n) < of_nat (k - 1) * of_int N"
  shows "case apply_better_chain E (forged_chain a N k (cs_chain (n_cs n))) n of (r, n') \<Rightarrow>
      r = Inr None \<and> cs_chain (n_cs n') = forged_chain a N k (cs_chain (n_cs n))
    \<and> (\<forall>b. get_balance (cs_state (n_cs n')) b = (if b = a then total_minted (cs_state (n_cs n')) else 0))
    \<and> state_on_disk (n_storage n') (cs_state (n_cs n')) \<and> n_view n' = n_cs n'"
proof -
  let ?c = "cs_chain (n_cs n)" and ?f = "forged_chain a N k (cs_chain (n_cs n))"
  from forged_evaluation[OF assms, of "e_now E"] obtain cs' where ev:
    "evaluate_remote_chain (e_prims E) (e_now E) n ?f = Inr (Better k [] cs')" "cs_chain cs' = ?f"
    "\<forall>b. get_balance (cs_state cs') b = (if b = a then total_minted (cs_state cs') else 0)" by blast
  let ?s = "mark_persisted (cs_state cs')"
  let ?st = "fst (rewrite_state (drop_from (int k) (n_storage n)) (cs_state cs'))"
  have rw: "state_on_disk ?st ?s" "snd (rewrite_state (drop_from (int k) (n_storage n)) (cs_state cs')) = ?s"
    using rewrite_on_disk by blast+
  have rp: "replace_chain_and_state (e_prims E) (e_lib E) (n_storage n) k [] (cs_state cs') = Inr (?st, ?s)"
    using rw(2) by (simp add: replace_chain_and_state_def prod_eq_iff)
  let ?cs = "cs'\<lparr>cs_state := ?s\<rparr>"
  let ?n1 = "(forget_states_from k (n\<lparr>n_storage := ?st\<rparr>))\<lparr>n_cs := ?cs\<rparr>"
  have "last ?f = forge a N (?c ! (k - 1))"
  proof -
    have "?f \<noteq> []" "length ?f = k" using assms(2,3) by (simp_all add: forged_chain_def min_def)
    then have "last ?f = ?f ! (k - 1)" by (simp add: last_conv_nth)
    also have "\<dots> = map (forge a N) (take (k - 1) (tl ?c)) ! (k - 2)"
      using assms(2) by (simp add: forged_chain_def nth_Cons' numeral_2_eq_2)
    also have "\<dots> = forge a N (tl ?c ! (k - 2))" using assms(2,3) by simp
    also have "tl ?c ! (k - 2) = ?c ! (k - 1)" using assms(2,3) by (simp add: nth_tl Suc_diff_Suc numeral_2_eq_2)
    finally show ?thesis .
  qed
  moreover have "parent_ok (?c ! (k - 1)) (block_hash (e_prims E) (?c ! (k - 1))) (of_nat (k - 1)) (block_time (?c ! (k - 1)))"
    using rooted_chain(1)[OF assms(1)] assms(3) by (simp add: chain_inv_def)
  ultimately have "height_key ?cs = Inr (of_nat (k - 1))"
    by (simp add: height_key_def cs_tip_def ev(2) read_num_def read_field_def forge_fields parent_ok_def)
  then obtain d where n2: "remember_state ?cs ?n1 = Inr (?n1\<lparr>n_recent := d\<rparr>)" by (simp add: remember_state_def Let_def)
  obtain x n3 where n3: "reorg_mempool E k ?c ?f ?s (?n1\<lparr>n_recent := d, n_view := ?cs\<rparr>) = (x, n3)" by fastforce
  have "same_core (?n1\<lparr>n_recent := d, n_view := ?cs\<rparr>) n3"
    using keeps_core_reorg_mempool[unfolded keeps_def, rule_format, of "?n1\<lparr>n_recent := d, n_view := ?cs\<rparr>" E k ?c ?f ?s] n3 by simp
  then have c3: "n_cs n3 = ?cs" "n_view n3 = ?cs" "n_storage n3 = ?st" by (simp_all add: same_core_def forget_states_from_def)
  let ?d = "int (length ?c) - int k"
  have res: "apply_better_chain E ?f n = (Inr None, n3\<lparr>n_storage := record_reorg (e_now E) ?d (n_storage n3)\<rparr>)"
    unfolding apply_better_chain_def ev(1) using assms(3) by (simp add: rp n2 n3 Let_def)
  have "state_on_disk (record_reorg (e_now E) ?d ?st) ?s"
    using rw(1) by (simp add: record_reorg_def state_on_disk_def disk_row_def set_meta_def Let_def)
  with ev(2,3) show ?thesis unfolding res by (simp add: c3)
qed

section \<open>Examples\<close>

text \<open>A cache of verdicts that keeps everything, and a node that has just loaded its chain.\<close>

definition demo_lru :: "(json, bool) dict lru_ops" where
  "demo_lru = \<lparr>l_new = \<lambda>_. [], l_get = \<lambda>c k. (map_of c k, c), l_put = \<lambda>c k v. AList.update k v c, l_view = map_of\<rparr>"

definition no_ips :: ip_lib where
  "no_ips = \<lparr>ip_parse = \<lambda>_. None, ip_unroutable = \<lambda>_. False\<rparr>"

definition demo_env :: "rat \<Rightarrow> (string list, (json, bool) dict) env" where
  "demo_env now = \<lparr>e_prims = key_prims, e_cache = demo_cache, e_lru = demo_lru, e_lib = list_lib [], e_now = now, e_mono = 100,
     e_bits = \<lambda>_. 0, e_pick = hd, e_ip = no_ips, e_addr = demo_addr CHR ''a'', e_window = 15, e_mining = True, e_dumps = \<lambda>_. [],
     e_net = \<lparr>net_info = \<lambda>_ _. (None, 0), net_sync = \<lambda>_ _ _ _ _. (None, 0)\<rparr>,
     e_draws = \<lparr>d_below = \<lambda>_ _ _. 0, d_unit = \<lambda>_ _. 0, d_half = \<lambda>_ _. 1\<rparr>\<rparr>"

type_synonym demo_node = "(string list, (json, bool) dict) node"

definition demo_node :: "chain_state \<Rightarrow> storage \<Rightarrow> demo_node" where
  "demo_node cs st = \<lparr>n_cs = cs, n_view = cs, n_mempool = empty_mempool, n_storage = st, n_seen = gossip_init demo_cache,
     n_judged = [], n_judged_tip = JNull, n_draw_height = JNull, n_draw_closes = 0, n_draw_anchor = 0, n_unconfirmed = [],
     n_echo = [], n_last_block_seen = 0, n_last_silence_poll = 0, n_last_probe = 0, n_sync_hint = None,
     n_sync_hint_height = 0, n_recent = [], n_sent = [],
     n_pool = pool_init None, n_builds = [], n_rate = None, n_queue = [],
     n_replies = [], n_syncer = syncer_init\<rparr>"

lemma demo_node_ok:
  assumes "rooted key_prims cs" "on_disk key_prims (list_lib []) st cs"
  shows "node_ok key_prims (list_lib []) (demo_node cs st)"
  using assms by (simp add: node_ok_def demo_node_def recent_ok_def)

lemma demo_env_fields [simp]: "e_prims (demo_env now) = key_prims" "e_lib (demo_env now) = list_lib []"
  "e_lru (demo_env now) = demo_lru" "e_cache (demo_env now) = demo_cache"
  by (simp_all add: demo_env_def)

theorem resume_equals_replay_witness:
  "\<exists>(n :: demo_node) start remote. cs_chain (n_cs n) = key_chain ''11'' ''22'' ''33'' \<and> resume_point n 1 remote = Some start
     \<and> agree_res (rel_sum (=) alike_cs) (apply_tail key_prims 0 start (drop 1 remote))
         (validate_tail key_prims 0 (drop 1 remote) (take 1 remote))"
proof -
  obtain cs where cs: "grown key_prims cs" "cs_chain cs = key_chain ''11'' ''22'' ''33''" by (rule demo_grown)
  let ?n = "demo_node cs empty_storage" and ?r = "key_chain ''11'' ''22'' ''31''"
  let ?s = "\<lparr>cs_chain = take 1 ?r, cs_state = empty_state, cumulative_iterations = 0\<rparr>"
  have n: "n_cs ?n = cs" "n_recent ?n = []" by (simp_all add: demo_node_def)
  have "rooted key_prims (n_cs ?n)" unfolding rooted_def n using cs(1) alike_cs_refl by blast
  moreover have "recent_ok key_prims (cs_chain (n_cs ?n)) (n_recent ?n)" by (simp add: n recent_ok_def)
  moreover have "(0::nat) < 1" "1 \<le> length (cs_chain (n_cs ?n))" "take 1 ?r = take 1 (cs_chain (n_cs ?n))"
    by (simp_all add: n cs(2) key_chain_def)
  moreover have res: "resume_point ?n 1 ?r = Some ?s" by (simp add: resume_point_def n cs(2) key_chain_def)
  ultimately have "agree_res (rel_sum (=) alike_cs) (apply_tail key_prims 0 ?s (drop 1 ?r))
      (validate_tail key_prims 0 (drop 1 ?r) (take 1 ?r))" by (rule resume_equals_replay)
  with res n(1) cs(2) show ?thesis by (intro exI[of _ ?n] exI[of _ ?s] exI[of _ ?r]) simp
qed


theorem forged_prefix_adopted_witness:
  "\<exists>E (n :: demo_node) n' s. cs_chain (n_cs n) = key_chain ''11'' ''22'' ''33''
     \<and> apply_better_chain E (forged_chain ''thief'' 1000000000 2 (cs_chain (n_cs n))) n = (Inr None, n')
     \<and> length (cs_chain (n_cs n')) = 2 \<and> get_balance (cs_state (n_cs n')) (demo_addr CHR ''a'') = 0
     \<and> state_on_disk (n_storage n') s \<and> s = cs_state (n_cs n')"
proof -
  obtain cs where cs: "grown key_prims cs" "cs_chain cs = key_chain ''11'' ''22'' ''33''"
    "cumulative_iterations cs = of_int (3 * VDF_ITERATIONS)" by (rule demo_grown)
  let ?n = "demo_node cs empty_storage" and ?f = "forged_chain ''thief'' 1000000000 2 (key_chain ''11'' ''22'' ''33'')"
  have n: "n_cs ?n = cs" "n_recent ?n = []" by (simp_all add: demo_node_def)
  have h: "rooted (e_prims (demo_env 0)) (n_cs ?n)" "1 < (2::nat)" "2 < length (cs_chain (n_cs ?n))"
    "map_of (n_recent ?n) (of_nat 2 - 1) = None" "''thief'' \<noteq> []"
    "cumulative_iterations (n_cs ?n) < of_nat (2 - 1) * of_int 1000000000"
    using cs alike_cs_refl by (auto simp: n rooted_def key_chain_def VDF_ITERATIONS_def)
  from forged_prefix_adopted[OF h] obtain n' where "apply_better_chain (demo_env 0) ?f ?n = (Inr None, n')"
    "cs_chain (n_cs n') = ?f" "\<forall>b. get_balance (cs_state (n_cs n')) b = (if b = ''thief'' then total_minted (cs_state (n_cs n')) else 0)"
    "state_on_disk (n_storage n') (cs_state (n_cs n'))"
    unfolding n cs(2) by (auto split: prod.splits)
  moreover have "length ?f = 2" by (simp add: forged_chain_def key_chain_def)
  moreover have "demo_addr CHR ''a'' \<noteq> ''thief''" by (simp add: demo_addr_def numeral_eq_Suc)
  ultimately show ?thesis using n cs(2)
    by (intro exI[of _ "demo_env 0"] exI[of _ ?n] exI[of _ n'] exI[of _ "cs_state (n_cs n')"]) simp
qed

end
