(* ===== verification/Judge.thy ===== *)
theory Judge
  imports Reorg
begin

text \<open>
  \<^verbatim>\<open>src/src/node.py\<close>, how a height is settled: the draw and its window, the verdicts on inbound blocks and
  their cache, abandoning one's own evaluation, the choice of the winner and its commit, and a sibling of
  the tip taking its place. A cycle's candidate is the node's own finished block; every other entrant came
  from a peer. Keys of the tie-break are compared as Python compares strings, numbers and lists.
\<close>

section \<open>Comparing keys, log lines\<close>

fun json_less :: "json \<Rightarrow> json \<Rightarrow> bool res" and arr_less :: "json list \<Rightarrow> json list \<Rightarrow> bool res" where
  "json_less a b = (case (a, b) of
     (JStr x, JStr y) \<Rightarrow> Inr (x < y)
   | (JArr xs, JArr ys) \<Rightarrow> arr_less xs ys
   | _ \<Rightarrow> (case (jnum a, jnum b) of (Some x, Some y) \<Rightarrow> Inr (x < y) | _ \<Rightarrow> Inl TypeError))"
| "arr_less [] ys = Inr (ys \<noteq> [])"
| "arr_less (x # xs) [] = Inr False"
| "arr_less (x # xs) (y # ys) = (if py_eq x y then arr_less xs ys else json_less x y)"

declare json_less.simps [simp del]

lemma json_less_simps [simp]:
  "json_less (JStr x) (JStr y) = Inr (x < y)"
  "json_less (JInt m) (JInt n) = Inr (m < n)"
  "json_less (JStr x) (JInt n) = Inl TypeError" "json_less (JInt n) (JStr x) = Inl TypeError"
  by (simp_all add: json_less.simps)

text \<open>\<^verbatim>\<open>len\<close> of a JSON value, and what a log line about a block reads of it.\<close>

fun json_len :: "json \<Rightarrow> nat res" where
  "json_len (JArr xs) = Inr (length xs)"
| "json_len (JObj d) = Inr (length d)"
| "json_len (JStr s) = Inr (length s)"
| "json_len _ = Inl TypeError"

definition short_hash :: "block \<Rightarrow> unit res" where
  "short_hash blk = rbind (read_field ''hash'' blk) shorten"

definition log_block :: "block \<Rightarrow> json res \<Rightarrow> unit res" where
  "log_block blk txs = rbind (read_field ''height'' blk) (\<lambda>_. rbind (short_hash blk) (\<lambda>_.
     rbind txs (\<lambda>t. rbind (json_len t) (\<lambda>_. shorten (or_empty (jget blk ''builder''))))))"

section \<open>The draw\<close>

definition draw_window_seconds :: "('c, 'j) env \<Rightarrow> rat" where
  "draw_window_seconds E = e_window E"

definition draw_is_open :: "('c, 'j) env \<Rightarrow> json \<Rightarrow> ('c, 'j) node \<Rightarrow> bool" where
  "draw_is_open E height n \<longleftrightarrow> py_eq (n_draw_height n) height \<and> e_mono E < n_draw_closes n"

definition open_draw :: "('c, 'j) env \<Rightarrow> json \<Rightarrow> ('c, 'j) node \<Rightarrow> ('c, 'j) node" where
  "open_draw E height n =
     (if py_eq (n_draw_height n) height \<and> e_mono E < n_draw_closes n then n
      else n\<lparr>n_draw_height := height, n_draw_anchor := e_mono E,
             n_draw_closes := e_mono E + draw_window_seconds E\<rparr>)"

section \<open>The pace of this machine\<close>

definition estimated_build_seconds :: "('c, 'j) node \<Rightarrow> rat option res" where
  "estimated_build_seconds n = (case n_rate n of
     None \<Rightarrow> Inr None
   | Some rate \<Rightarrow>
       if rate = 0 then Inr None
       else rbind (get_vdf_iterations (cs_chain (n_view n))) (\<lambda>i.
         case jnum i of None \<Rightarrow> Inl TypeError | Some k \<Rightarrow> Inr (Some (rate * k))))"

definition own_vdf_median :: "('c, 'j) node \<Rightarrow> rat option res" where
  "own_vdf_median n = (if n_builds n \<noteq> [] then Inr (Some (median (n_builds n))) else estimated_build_seconds n)"

definition own_vdf_is_estimate :: "('c, 'j) node \<Rightarrow> bool" where
  "own_vdf_is_estimate n \<longleftrightarrow> n_builds n = [] \<and> (case n_rate n of None \<Rightarrow> False | Some r \<Rightarrow> r \<noteq> 0)"

text \<open>Whether to give up the own evaluation, started at \<open>vdf_start\<close>.\<close>

definition should_abandon :: "('c, 'j) env \<Rightarrow> chain_state \<Rightarrow> blocks \<Rightarrow> rat \<Rightarrow> ('c, 'j) node \<Rightarrow> bool res" where
  "should_abandon E cs accumulated vdf_start n =
     (if accumulated = [] then Inr False
      else rbind (own_vdf_median n) (\<lambda>m. case m of None \<Rightarrow> Inr False
      | Some own_median \<Rightarrow> rbind (add_int (cs_height cs) 1) (\<lambda>next_height.
          if \<not> py_eq (n_draw_height n) next_height then Inr False
          else (let remaining = own_median - (e_mono E - vdf_start);
                    window_left = n_draw_closes n - e_mono E
                in if window_left \<le> 0 then Inr True else Inr (remaining > window_left)))))"

section \<open>Verdicts\<close>

definition JUDGED_CACHE_SIZE :: nat where "JUDGED_CACHE_SIZE = 10000"

definition judged_cache :: "('c, 'j) env \<Rightarrow> chain_state \<Rightarrow> (('c, 'j) node, unit) act" where
  "judged_cache E cs = bind_act (lift_res (read_field ''hash'' (cs_tip cs))) (\<lambda>tip_hash. modify (\<lambda>n.
     if \<not> py_eq (n_judged_tip n) tip_hash
     then n\<lparr>n_judged := l_new (e_lru E) JUDGED_CACHE_SIZE, n_judged_tip := tip_hash\<rparr> else n))"

definition judged :: "('c, 'j) env \<Rightarrow> block \<Rightarrow> chain_state \<Rightarrow> (('c, 'j) node, bool option) act" where
  "judged E blk cs = bind_act (judged_cache E cs) (\<lambda>_ n.
     if hashable (jget blk ''hash'')
     then (case l_get (e_lru E) (n_judged n) (jget blk ''hash'') of (v, j) \<Rightarrow> (Inr v, n\<lparr>n_judged := j\<rparr>))
     else (Inl TypeError, n))"

definition remember_judgement :: "('c, 'j) env \<Rightarrow> block \<Rightarrow> chain_state \<Rightarrow> bool \<Rightarrow> (('c, 'j) node, bool) act" where
  "remember_judgement E blk cs verdict =
     (let h = jget blk ''hash''
      in if truthy h
         then bind_act (judged_cache E cs) (\<lambda>_. bind_act
                (modify (\<lambda>n. n\<lparr>n_judged := l_put (e_lru E) (n_judged n) h verdict\<rparr>)) (\<lambda>_. return verdict))
         else return verdict)"

definition validate_candidate :: "('c, 'j) env \<Rightarrow> block \<Rightarrow> chain_state \<Rightarrow> (('c, 'j) node, bool) act" where
  "validate_candidate E blk cs =
     bind_act (lift_res (add_int (cs_height cs) 1)) (\<lambda>next_height.
       if \<not> py_eq (jget blk ''height'') next_height then return False
       else bind_act (lift_res (read_field ''hash'' (cs_tip cs))) (\<lambda>tip_hash.
         if \<not> py_eq (jget blk ''previous_hash'') tip_hash then return False
         else bind_act (judged E blk cs) (\<lambda>cached.
           case cached of Some verdict \<Rightarrow> return verdict
           | None \<Rightarrow> bind_act (lift_res (block_validate (e_prims E) (e_now E) blk (snapshot (cs_state cs)) (cs_chain cs)))
               (\<lambda>(err, _). remember_judgement E blk cs (err = None)))))"

definition consider_inbound_block :: "('c, 'j) env \<Rightarrow> chain_state \<Rightarrow> block \<Rightarrow> blocks \<Rightarrow> (('c, 'j) node, blocks) act" where
  "consider_inbound_block E cs blk accumulated =
     bind_act (validate_candidate E blk cs) (\<lambda>ok.
       if ok then bind_act (lift_res (read_field ''height'' blk)) (\<lambda>height.
         bind_act (modify (open_draw E height)) (\<lambda>_. return (accumulated @ [blk])))
       else return accumulated)"

fun consider_all :: "('c, 'j) env \<Rightarrow> chain_state \<Rightarrow> blocks \<Rightarrow> blocks \<Rightarrow> (('c, 'j) node, blocks) act" where
  "consider_all E cs [] accumulated = return accumulated"
| "consider_all E cs (blk # blks) accumulated =
     bind_act (consider_inbound_block E cs blk accumulated) (consider_all E cs blks)"

section \<open>The winner\<close>

fun valid_peers :: "('c, 'j) env \<Rightarrow> chain_state \<Rightarrow> blocks \<Rightarrow> (('c, 'j) node, blocks) act" where
  "valid_peers E cs [] = return []"
| "valid_peers E cs (blk # blks) = bind_act (validate_candidate E blk cs) (\<lambda>ok.
     if \<not> ok then valid_peers E cs blks
     else bind_act (lift_res (log_block blk (Inr (get_or blk ''transactions'' (JArr []))))) (\<lambda>_.
       bind_act (valid_peers E cs blks) (\<lambda>rest. return (blk # rest))))"

text \<open>\<^verbatim>\<open>min(entrants, key=...)\<close>: the first entrant with the least key. An entrant is a block and whether a peer sent it.\<close>

fun least_entrant :: "block \<times> bool \<Rightarrow> json \<Rightarrow> (block \<times> bool) list \<Rightarrow> (block \<times> bool) res" where
  "least_entrant best key [] = Inr best"
| "least_entrant best key (e # es) =
     rbind (tie_break_key (fst e)) (\<lambda>key'. rbind (json_less key' key) (\<lambda>less.
       if less then least_entrant e key' es else least_entrant best key es))"

definition pick_winner :: "('c, 'j) env \<Rightarrow> chain_state \<Rightarrow> block option \<Rightarrow> blocks
    \<Rightarrow> (('c, 'j) node, (block \<times> bool) option) act" where
  "pick_winner E cs candidate peer_blocks =
     bind_act (valid_peers E cs peer_blocks) (\<lambda>peers.
     bind_act (lift_res (case candidate of None \<Rightarrow> Inr []
        | Some c \<Rightarrow> rbind (read_field ''hash'' (cs_tip cs)) (\<lambda>tip_hash.
            Inr (if py_eq (jget c ''previous_hash'') tip_hash then [(c, False)] else [])))) (\<lambda>own.
     bind_act (lift_res (rbind (read_field ''height'' (cs_tip cs)) (\<lambda>h. add_int h 1))) (\<lambda>_.
       case own @ map (\<lambda>b. (b, True)) peers of
         [] \<Rightarrow> return None
       | e # es \<Rightarrow> lift_res (rbind (tie_break_key (fst e)) (\<lambda>key. rbind (least_entrant e key es) (\<lambda>w.
           rbind (short_hash (fst w)) (\<lambda>_. Inr (Some w))))))))"

section \<open>Commit\<close>

definition commit :: "('c, 'j) env \<Rightarrow> block \<Rightarrow> (('c, 'j) node, unit) act" where
  "commit E blk =
     bind_act (lift_res (rbind (block_txs blk) (map_res (json_tx_hash (e_prims E))))) (\<lambda>confirmed.
     bind_act get_state (\<lambda>n.
     bind_act (lift_res (apply_block (n_cs n) blk)) (\<lambda>cs'.
     bind_act (modify (\<lambda>n. n\<lparr>n_cs := cs'\<rparr>)) (\<lambda>_.
     bind_act (\<lambda>n. case remember_state cs' n of Inl e \<Rightarrow> (Inl e, n) | Inr n' \<Rightarrow> (Inr (), n')) (\<lambda>_.
     bind_act (\<lambda>n. case save_block_and_state (e_prims E) (e_lib E) (n_storage n) blk (cs_state (n_cs n)) of
                 Inl e \<Rightarrow> (Inl e, n)
               | Inr (st, s) \<Rightarrow> (Inr (), n\<lparr>n_storage := st, n_cs := (n_cs n)\<lparr>cs_state := s\<rparr>\<rparr>)) (\<lambda>_.
     bind_act (modify (\<lambda>n. n\<lparr>n_mempool := mp_remove_many (n_mempool n) (remdups confirmed)\<rparr>)) (\<lambda>_.
     bind_act (modify (\<lambda>n. n\<lparr>n_view := n_cs n\<rparr>)) (\<lambda>_.
     bind_act (lift_res (read_field ''height'' blk)) (\<lambda>height.
     bind_act (modify (open_draw E height)) (\<lambda>_.
     lift_res (log_block blk (read_field ''transactions'' blk))))))))))))"

definition settle :: "('c, 'j) env \<Rightarrow> chain_state \<Rightarrow> block option \<Rightarrow> blocks \<Rightarrow> (('c, 'j) node, bool) act" where
  "settle E cs candidate peer_blocks =
     bind_act (pick_winner E cs candidate peer_blocks) (\<lambda>w. case w of
       None \<Rightarrow> return False
     | Some (winner, _) \<Rightarrow> bind_act (commit E winner) (\<lambda>_. return True))"

section \<open>A sibling of the tip\<close>

definition reorg_to_sibling :: "('c, 'j) env \<Rightarrow> block \<Rightarrow> chain_state \<Rightarrow> (('c, 'j) node, bool) act" where
  "reorg_to_sibling E blk cs =
     bind_act get_state (\<lambda>n.
       if \<not> draw_is_open E (jget blk ''height'') n then return False
       else if \<not> py_eq (jget blk ''height'') (cs_height cs) \<or> py_eq (cs_height cs) (JInt 0) then return False
       else bind_act (lift_res (if length (cs_chain cs) < 2 then Inl IndexError
                else read_field ''hash'' (cs_chain cs ! (length (cs_chain cs) - 2)))) (\<lambda>parent_hash.
         if \<not> py_eq (jget blk ''previous_hash'') parent_hash then return False
         else bind_act (lift_res (read_field ''hash'' (cs_tip cs))) (\<lambda>tip_hash.
           if py_eq (jget blk ''hash'') tip_hash then return False
           else bind_act (lift_res (rbind (tie_break_key blk) (\<lambda>k. rbind (tie_break_key (cs_tip cs)) (json_less k)))) (\<lambda>less.
             if \<not> less then return False
             else bind_act (apply_better_chain E (butlast (cs_chain cs) @ [blk])) (\<lambda>err.
               if err = None then bind_act (lift_res (rbind (read_field ''height'' blk) (\<lambda>_. short_hash blk))) (\<lambda>_. return True)
               else return False)))))"

section \<open>The draw never stretches\<close>

text \<open>Candidates for one height, each at its own time.\<close>

definition sighting :: "('c, 'j) env \<Rightarrow> json \<Rightarrow> rat \<Rightarrow> ('c, 'j) node \<Rightarrow> ('c, 'j) node" where
  "sighting E height t = open_draw (E\<lparr>e_mono := t\<rparr>) height"

lemma sighting_running:
  assumes "py_eq (n_draw_height n) height" "t < n_draw_closes n"
  shows "sighting E height t n = n"
  using assms by (simp add: sighting_def open_draw_def)

text \<open>The window of a draw is anchored to the first candidate seen for the height and never stretched: after it,
  however many further candidates for that height arrive before it closes, it closes a window's length after the
  first one; and a candidate that arrives once it is closed, or for another height, opens a draw of its own.\<close>

theorem draw_anchored_to_first:
  assumes "\<not> draw_is_open (E\<lparr>e_mono := t0\<rparr>) height n" and "\<forall>t\<in>set ts. t0 \<le> t \<and> t < t0 + draw_window_seconds E"
    and "py_eq height height"
  shows "n_draw_closes (fold (sighting E height) (t0 # ts) n) = t0 + draw_window_seconds E
      \<and> n_draw_anchor (fold (sighting E height) (t0 # ts) n) = t0
      \<and> (\<forall>t. draw_is_open (E\<lparr>e_mono := t\<rparr>) height (fold (sighting E height) (t0 # ts) n) \<longleftrightarrow> t < t0 + draw_window_seconds E)"
proof -
  define n1 where "n1 = n\<lparr>n_draw_height := height, n_draw_anchor := t0, n_draw_closes := t0 + draw_window_seconds E\<rparr>"
  have first: "sighting E height t0 n = n1"
    using assms(1) by (auto simp: sighting_def open_draw_def draw_is_open_def n1_def draw_window_seconds_def)
  have "fold (sighting E height) ts n1 = n1"
    using assms(2)
  proof (induction ts)
    case (Cons t ts)
    then have "sighting E height t n1 = n1" using assms(3) by (intro sighting_running) (simp_all add: n1_def)
    with Cons show ?case by simp
  qed simp
  then have "fold (sighting E height) (t0 # ts) n = n1" by (simp add: first)
  then show ?thesis using assms(3) by (simp add: n1_def draw_is_open_def)
qed

text \<open>A node gives up its own evaluation exactly when the height is contested by a validated candidate, the pace of
  its own builds is known, the draw for that height has been opened, and the evaluation, at that pace, would end
  after the draw closes, or the draw is closed already; without a contender it never gives up.\<close>

theorem abandons_exactly_when_hopeless:
  assumes "own_vdf_median n = Inr pace" and "add_int (cs_height cs) 1 = Inr next_height"
  shows "should_abandon E cs accumulated vdf_start n = Inr (accumulated \<noteq> [] \<and> py_eq (n_draw_height n) next_height
    \<and> (case pace of None \<Rightarrow> False | Some m \<Rightarrow> n_draw_closes n \<le> e_mono E \<or> n_draw_closes n < vdf_start + m))"
  using assms by (cases pace) (auto simp: should_abandon_def Let_def)

section \<open>Verdicts come from validations\<close>

text \<open>What the cache library promises: an empty new cache, a look-up that finds what is held, a put that holds the entry
  and may drop others.\<close>

definition lru_laws :: "'j lru_ops \<Rightarrow> bool" where
  "lru_laws L \<longleftrightarrow> (\<forall>k h. l_view L (l_new L k) h = None)
     \<and> (\<forall>c h. fst (l_get L c h) = l_view L c h \<and> l_view L (snd (l_get L c h)) = l_view L c)
     \<and> (\<forall>c h v. l_view L (l_put L c h v) h = Some v
          \<and> (\<forall>k w. k \<noteq> h \<longrightarrow> l_view L (l_put L c h v) k = Some w \<longrightarrow> l_view L c k = Some w))"

lemma lru_lawsD:
  assumes "lru_laws L"
  shows "l_view L (l_new L k) h = None" "fst (l_get L c h) = l_view L c h" "l_view L (snd (l_get L c h)) = l_view L c"
    "l_view L (l_put L c h v) h = Some v" "k' \<noteq> h \<Longrightarrow> l_view L (l_put L c h v) k' = Some w \<Longrightarrow> l_view L c k' = Some w"
  using assms unfolding lru_laws_def by blast+

text \<open>A block among those met so far, with this hash field, was validated against this chain state at some time, with this outcome.\<close>

definition validated :: "block set \<Rightarrow> prims \<Rightarrow> chain_state \<Rightarrow> json \<Rightarrow> bool \<Rightarrow> bool" where
  "validated B P cs h v \<longleftrightarrow> (\<exists>b\<in>B. \<exists>now r s. jget b ''hash'' = h
     \<and> block_validate P now b (snapshot (cs_state cs)) (cs_chain cs) = Inr (r, s) \<and> v = (r = None))"

text \<open>Every verdict the cache holds for this tip is one of those.\<close>

definition verdicts_ok :: "block set \<Rightarrow> ('c, 'j) env \<Rightarrow> chain_state \<Rightarrow> ('c, 'j) node \<Rightarrow> bool" where
  "verdicts_ok B E cs n \<longleftrightarrow> (case map_of (cs_tip cs) ''hash'' of None \<Rightarrow> True | Some h \<Rightarrow> py_eq (n_judged_tip n) h \<longrightarrow>
     (\<forall>k v. l_view (e_lru E) (n_judged n) k = Some v \<longrightarrow> validated B (e_prims E) cs k v))"

lemma verdicts_frame: "n_judged n' = n_judged n \<Longrightarrow> n_judged_tip n' = n_judged_tip n \<Longrightarrow> verdicts_ok B E cs n' = verdicts_ok B E cs n"
  by (simp add: verdicts_ok_def split: option.split)

lemma py_eq_refl [simp]: "py_eq a a"
  by (simp add: py_eq_def split: option.split)

definition refresh :: "('c, 'j) env \<Rightarrow> json \<Rightarrow> ('c, 'j) node \<Rightarrow> ('c, 'j) node" where
  "refresh E tip_hash n = (if \<not> py_eq (n_judged_tip n) tip_hash
     then n\<lparr>n_judged := l_new (e_lru E) JUDGED_CACHE_SIZE, n_judged_tip := tip_hash\<rparr> else n)"

lemma refresh_fields: "py_eq (n_judged_tip (refresh E th n)) th"
  "refresh E th n = n\<lparr>n_judged := n_judged (refresh E th n), n_judged_tip := n_judged_tip (refresh E th n)\<rparr>"
  by (simp_all add: refresh_def py_eq_refl)

text \<open>The call in one piece.\<close>

lemma judged_run:
  assumes "read_field ''hash'' (cs_tip cs) = Inr th"
  shows "judged E blk cs n = (let k = jget blk ''hash''; n1 = refresh E th n in
     if \<not> hashable k then (Inl TypeError, n1)
     else (Inr (fst (l_get (e_lru E) (n_judged n1) k)), n1\<lparr>n_judged := snd (l_get (e_lru E) (n_judged n1) k)\<rparr>))"
  using assms by (simp add: judged_def judged_cache_def bind_act_def lift_res_def modify_def refresh_def Let_def split: prod.split)

lemma remember_run:
  assumes "read_field ''hash'' (cs_tip cs) = Inr th" "py_eq (n_judged_tip n) th"
  shows "remember_judgement E blk cs v n = (Inr v, if truthy (jget blk ''hash'')
     then n\<lparr>n_judged := l_put (e_lru E) (n_judged n) (jget blk ''hash'') v\<rparr> else n)"
  using assms by (simp add: remember_judgement_def judged_cache_def bind_act_def lift_res_def modify_def return_def Let_def)

lemma validate_candidate_run:
  assumes "add_int (cs_height cs) 1 = Inr h" "py_eq (jget blk ''height'') h"
    "read_field ''hash'' (cs_tip cs) = Inr th" "py_eq (jget blk ''previous_hash'') th"
  shows "validate_candidate E blk cs n = bind_act (judged E blk cs) (\<lambda>cached. case cached of Some v \<Rightarrow> return v
     | None \<Rightarrow> bind_act (lift_res (block_validate (e_prims E) (e_now E) blk (snapshot (cs_state cs)) (cs_chain cs)))
               (\<lambda>(err, _). remember_judgement E blk cs (err = None))) n"
  unfolding validate_candidate_def assms(1,3) bind_lift using assms(2,4)
  by (simp only: not_True_eq_False if_False bind_lift)

lemma validate_candidate_cases:
  assumes "validate_candidate E blk cs n = (r, n')"
  obtains (refused) "r \<noteq> Inr True" "n' = n"
  | (unhashable) th where "read_field ''hash'' (cs_tip cs) = Inr th" "r = Inl TypeError" "n' = refresh E th n"
  | (asked) h th v j where "add_int (cs_height cs) 1 = Inr h" "py_eq (jget blk ''height'') h"
      "read_field ''hash'' (cs_tip cs) = Inr th" "py_eq (jget blk ''previous_hash'') th"
      "l_get (e_lru E) (n_judged (refresh E th n)) (jget blk ''hash'') = (v, j)"
      "case v of Some b \<Rightarrow> r = Inr b \<and> n' = (refresh E th n)\<lparr>n_judged := j\<rparr>
       | None \<Rightarrow> (case block_validate (e_prims E) (e_now E) blk (snapshot (cs_state cs)) (cs_chain cs) of
           Inl e \<Rightarrow> r = Inl e \<and> n' = (refresh E th n)\<lparr>n_judged := j\<rparr>
         | Inr (err, _) \<Rightarrow> r = Inr (err = None) \<and> n' = (if truthy (jget blk ''hash'')
             then (refresh E th n)\<lparr>n_judged := l_put (e_lru E) j (jget blk ''hash'') (err = None)\<rparr>
             else (refresh E th n)\<lparr>n_judged := j\<rparr>))"
proof (cases "\<exists>h th. add_int (cs_height cs) 1 = Inr h \<and> py_eq (jget blk ''height'') h
    \<and> read_field ''hash'' (cs_tip cs) = Inr th \<and> py_eq (jget blk ''previous_hash'') th")
  case False
  then have "r \<noteq> Inr True \<and> n' = n" using assms
    by (cases "add_int (cs_height cs) 1"; cases "read_field ''hash'' (cs_tip cs)")
      (auto simp: validate_candidate_def bind_act_def lift_res_def return_def split: if_splits)
  then show thesis using refused by blast
next
  case True
  then obtain h th where h: "add_int (cs_height cs) 1 = Inr h" "py_eq (jget blk ''height'') h"
    "read_field ''hash'' (cs_tip cs) = Inr th" "py_eq (jget blk ''previous_hash'') th" by blast
  note run = validate_candidate_run[OF h, of E n]
  obtain v j where g: "l_get (e_lru E) (n_judged (refresh E th n)) (jget blk ''hash'') = (v, j)" by fastforce
  show thesis
  proof (cases "hashable (jget blk ''hash'')")
    case False
    with assms have "r = Inl TypeError \<and> n' = refresh E th n"
      unfolding run by (simp add: bind_act_def judged_run[OF h(3)] Let_def)
    with h(3) show thesis by (intro unhashable[of th]) simp_all
  next
    case True
    let ?n = "(refresh E th n)\<lparr>n_judged := j\<rparr>"
    have j: "judged E blk cs n = (Inr v, ?n)" using True g by (simp add: judged_run[OF h(3)] Let_def)
    have t: "py_eq (n_judged_tip ?n) th" using refresh_fields(1) by simp
    show thesis
    proof (rule asked[OF h g])
      show "case v of Some b \<Rightarrow> r = Inr b \<and> n' = ?n
       | None \<Rightarrow> (case block_validate (e_prims E) (e_now E) blk (snapshot (cs_state cs)) (cs_chain cs) of
           Inl e \<Rightarrow> r = Inl e \<and> n' = ?n
         | Inr (err, _) \<Rightarrow> r = Inr (err = None) \<and> n' = (if truthy (jget blk ''hash'')
             then (refresh E th n)\<lparr>n_judged := l_put (e_lru E) j (jget blk ''hash'') (err = None)\<rparr> else ?n))"
        using assms unfolding run
        by (auto simp: bind_act_def j lift_res_def return_def remember_run[OF h(3) t] split: option.splits sum.splits prod.splits)
    qed
  qed
qed

text \<open>Judging touches the verdict cache and nothing else.\<close>

definition judging :: "('c, 'j) node \<Rightarrow> ('c, 'j) node \<Rightarrow> bool" where
  "judging n n' \<longleftrightarrow> (\<exists>j t. n' = n\<lparr>n_judged := j, n_judged_tip := t\<rparr>)"

lemma judging_update: "judging n (n\<lparr>n_judged := j\<rparr>)" "judging n (n\<lparr>n_judged := j, n_judged_tip := t\<rparr>)"
  "judging n ((refresh E th n)\<lparr>n_judged := j\<rparr>)" "judging n (refresh E th n)"
proof -
  have "n\<lparr>n_judged := x\<rparr> = n\<lparr>n_judged := x, n_judged_tip := n_judged_tip n\<rparr>" for x by simp
  then show a: "judging n (n\<lparr>n_judged := x\<rparr>)" for x unfolding judging_def by blast
  show b: "judging n (n\<lparr>n_judged := x, n_judged_tip := t\<rparr>)" for x t unfolding judging_def by blast
  have "n\<lparr>n_judged_tip := t, n_judged := x\<rparr> = n\<lparr>n_judged := x, n_judged_tip := t\<rparr>" for x t by simp
  with b have "judging n (n\<lparr>n_judged_tip := t, n_judged := x\<rparr>)" for x t by metis
  with a show "judging n ((refresh E th n)\<lparr>n_judged := j\<rparr>)" by (simp add: refresh_def)
  have "n\<lparr>n_judged := n_judged n\<rparr> = n" by simp
  then have "judging n n" using a by metis
  then show "judging n (refresh E th n)" using b by (simp add: refresh_def)
qed

interpretation judge: frame judging
proof unfold_locales
  have "n\<lparr>n_judged := n_judged n\<rparr> = n" for n :: "('a, 'b) node" by simp
  then show "judging n n" for n :: "('a, 'b) node" using judging_update(1) by metis
  show "judging a b \<Longrightarrow> judging b c \<Longrightarrow> judging a c" for a b c :: "('a, 'b) node"
    unfolding judging_def by force
qed

lemma verdicts_known:
  assumes "read_field ''hash'' (cs_tip cs) = Inr th"
  shows "verdicts_ok B E cs n \<longleftrightarrow> (py_eq (n_judged_tip n) th \<longrightarrow>
     (\<forall>k v. l_view (e_lru E) (n_judged n) k = Some v \<longrightarrow> validated B (e_prims E) cs k v))"
  using assms by (auto simp: verdicts_ok_def read_field_def split: option.splits)

text \<open>A block for the next height on this tip, under the hash of one that was validated there.\<close>

definition fits :: "block set \<Rightarrow> prims \<Rightarrow> chain_state \<Rightarrow> block \<Rightarrow> bool" where
  "fits B P cs b \<longleftrightarrow> (\<exists>h th. add_int (cs_height cs) 1 = Inr h \<and> py_eq (jget b ''height'') h
     \<and> read_field ''hash'' (cs_tip cs) = Inr th \<and> py_eq (jget b ''previous_hash'') th \<and> validated B P cs (jget b ''hash'') True)"

lemma fitsI:
  "add_int (cs_height cs) 1 = Inr h \<Longrightarrow> py_eq (jget b ''height'') h \<Longrightarrow> read_field ''hash'' (cs_tip cs) = Inr th \<Longrightarrow>
     py_eq (jget b ''previous_hash'') th \<Longrightarrow> validated B P cs (jget b ''hash'') True \<Longrightarrow> fits B P cs b"
  by (auto simp: fits_def)

lemma verdict_sound:
  assumes L: "lru_laws (e_lru E)" and met: "blk \<in> B" and ok: "verdicts_ok B E cs n" and run: "validate_candidate E blk cs n = (r, n')"
  shows "verdicts_ok B E cs n' \<and> judging n n' \<and> (r = Inr True \<longrightarrow> fits B (e_prims E) cs blk)"
  using run
proof (cases rule: validate_candidate_cases)
  case refused
  with ok show ?thesis by (simp add: judge.refl)
next
  case (unhashable th)
  have "verdicts_ok B E cs (refresh E th n)"
    using ok lru_lawsD(1)[OF L] unfolding verdicts_known[OF unhashable(1)] by (simp add: refresh_def)
  then show ?thesis using unhashable(2,3) by (simp add: judging_update)
next
  case (asked h th v j)
  let ?n = "refresh E th n"
  have rf: "\<forall>k v. l_view (e_lru E) (n_judged ?n) k = Some v \<longrightarrow> validated B (e_prims E) cs k v"
    using ok lru_lawsD(1)[OF L] unfolding verdicts_known[OF asked(3)] by (simp add: refresh_def)
  have v: "v = l_view (e_lru E) (n_judged ?n) (jget blk ''hash'')" "l_view (e_lru E) j = l_view (e_lru E) (n_judged ?n)"
    using lru_lawsD(2,3)[OF L, of "n_judged ?n" "jget blk ''hash''"] asked(5) by simp_all
  note fi = fitsI[OF asked(1-4), of B "e_prims E"]
  have fr: "judging n (?n\<lparr>n_judged := x\<rparr>)" for x by (rule judging_update)
  show ?thesis
  proof (cases v)
    case (Some b)
    then have "r = Inr b" "n' = ?n\<lparr>n_judged := j\<rparr>" using asked(6) by simp_all
    moreover have "validated B (e_prims E) cs (jget blk ''hash'') b" using rf v(1) Some by metis
    ultimately show ?thesis using rf v(2) fr fi unfolding verdicts_known[OF asked(3)] by auto
  next
    case None
    show ?thesis
    proof (cases "block_validate (e_prims E) (e_now E) blk (snapshot (cs_state cs)) (cs_chain cs)")
      case (Inl e)
      with None asked(6) have "r = Inl e" "n' = ?n\<lparr>n_judged := j\<rparr>" by simp_all
      then show ?thesis using rf v(2) fr unfolding verdicts_known[OF asked(3)] by simp
    next
      case (Inr q)
      obtain err s where q: "q = (err, s)" by fastforce
      have va: "validated B (e_prims E) cs (jget blk ''hash'') (err = None)"
        unfolding validated_def using Inr q met by blast
      have r: "r = Inr (err = None)" "n' = (if truthy (jget blk ''hash'')
             then ?n\<lparr>n_judged := l_put (e_lru E) j (jget blk ''hash'') (err = None)\<rparr> else ?n\<lparr>n_judged := j\<rparr>)"
        using None asked(6) Inr q by simp_all
      have "validated B (e_prims E) cs k w" if "l_view (e_lru E) (l_put (e_lru E) j (jget blk ''hash'') (err = None)) k = Some w" for k w
      proof (cases "k = jget blk ''hash''")
        case True
        with that lru_lawsD(4)[OF L] have "w = (err = None)" by simp
        with va True show ?thesis by simp
      next
        case False
        from lru_lawsD(5)[OF L False that] v(2) rf show ?thesis by simp
      qed
      then show ?thesis using rf v(2) fr r va fi unfolding verdicts_known[OF asked(3)] by auto
    qed
  qed
qed

lemma keeps_judging: "lru_laws (e_lru E) \<Longrightarrow> keeps judging (validate_candidate E blk cs)"
proof (rule keepsI)
  fix n r n' assume "validate_candidate E blk cs n = (r, n')"
  then show "judging n n'"
    by (cases rule: validate_candidate_cases)
      (auto simp: judging_update judge.refl split: option.splits sum.splits prod.splits if_splits)
qed

lemma valid_peers_sound:
  assumes L: "lru_laws (e_lru E)"
  shows "set blks \<subseteq> B \<Longrightarrow> verdicts_ok B E cs n \<Longrightarrow> valid_peers E cs blks n = (r, n') \<Longrightarrow> verdicts_ok B E cs n' \<and> judging n n'
    \<and> (\<forall>bs. r = Inr bs \<longrightarrow> set bs \<subseteq> set blks \<and> (\<forall>b\<in>set bs. fits B (e_prims E) cs b))"
proof (induction blks arbitrary: n r n')
  case Nil
  then show ?case by (auto simp: return_def judge.refl)
next
  case (Cons b blks)
  obtain ok n1 where v: "validate_candidate E b cs n = (ok, n1)" by fastforce
  have m: "b \<in> B" "set blks \<subseteq> B" using Cons.prems(1) by simp_all
  note s = verdict_sound[OF L m(1) Cons.prems(2) v]
  show ?case
  proof (cases ok)
    case (Inl e)
    with Cons.prems(3) v s show ?thesis by (auto simp: bind_act_def)
  next
    case ok: (Inr good)
    obtain q n2 where vp: "valid_peers E cs blks n1 = (q, n2)" by fastforce
    note i = Cons.IH[OF m(2) conjunct1[OF s] vp]
    have j: "judging n n2" using s i judge.trans by blast
    show ?thesis
    proof (cases good)
      case False
      with Cons.prems(3) v ok vp have "r = q" "n' = n2" by (simp_all add: bind_act_def)
      with i j show ?thesis by auto
    next
      case True
      show ?thesis
      proof (cases "log_block b (Inr (get_or b ''transactions'' (JArr [])))")
        case (Inl e)
        with Cons.prems(3) v ok True have "r = Inl e" "n' = n1" by (simp_all add: bind_act_def lift_res_def)
        with s show ?thesis by simp
      next
        case (Inr u)
        have v': "validate_candidate E b cs n = (Inr True, n1)" using v ok True by simp
        have "valid_peers E cs (b # blks) n = (case q of Inl e \<Rightarrow> Inl e | Inr bs \<Rightarrow> Inr (b # bs), n2)"
          unfolding valid_peers.simps bind_Inr[of "validate_candidate E b cs", OF v'] Inr
          by (cases q) (simp_all add: bind_lift bind_act_def[of "valid_peers E cs blks"] vp return_def)
        then have "n' = n2" "r = (case q of Inl e \<Rightarrow> Inl e | Inr bs \<Rightarrow> Inr (b # bs))"
          unfolding Cons.prems(3) by simp_all
        have head: "fits B (e_prims E) cs b" using s ok True by blast
        show ?thesis
        proof (cases q)
          case (Inl e)
          with \<open>n' = n2\<close> \<open>r = _\<close> i j show ?thesis by simp
        next
          case (Inr bs)
          with \<open>n' = n2\<close> \<open>r = _\<close> have e: "n' = n2" "r = Inr (b # bs)" by simp_all
          have "set (b # bs) \<subseteq> set (b # blks)" using i Inr by auto
          moreover have "\<forall>x\<in>set (b # bs). fits B (e_prims E) cs x" using i Inr head by simp
          ultimately show ?thesis using i j e by simp
        qed
      qed
    qed
  qed
qed

section \<open>The winner of a height\<close>

lemma key_of_conv: "key_of b = Inr s \<longleftrightarrow> tie_break_key b = Inr (JStr s)"
  by (cases "tie_break_key b") (auto simp: key_of_def split: json.splits)

text \<open>The winner comes before every entrant with the same key, and none has a smaller one.\<close>

lemma least_entrant_first:
  assumes "\<forall>x\<in>set (e # es). \<exists>s. key_of (fst x) = Inr s" "key_of (fst e) = Inr k" "least_entrant e (JStr k) es = Inr w"
  shows "\<exists>pre post s. e # es = pre @ w # post \<and> key_of (fst w) = Inr s
    \<and> (\<forall>x\<in>set pre. \<exists>t. key_of (fst x) = Inr t \<and> s < t) \<and> (\<forall>x\<in>set post. \<exists>t. key_of (fst x) = Inr t \<and> s \<le> t)"
  using assms
proof (induction es arbitrary: e k)
  case Nil
  then have "e # [] = [] @ w # [] \<and> key_of (fst w) = Inr k" by simp
  then show ?case by fastforce
next
  case (Cons x xs)
  from Cons.prems(1) obtain t where t: "key_of (fst x) = Inr t" by auto
  have run: "least_entrant e (JStr k) (x # xs) = (if t < k then least_entrant x (JStr t) xs else least_entrant e (JStr k) xs)"
    using t by (simp add: key_of_conv)
  show ?case
  proof (cases "t < k")
    case True
    then have lw: "least_entrant x (JStr t) xs = Inr w" using Cons.prems(3) unfolding run by simp
    have "\<forall>y\<in>set (x # xs). \<exists>s. key_of (fst y) = Inr s" using Cons.prems(1) by simp
    from Cons.IH[OF this t lw] obtain pre post s where i: "x # xs = pre @ w # post" "key_of (fst w) = Inr s"
      "\<forall>x\<in>set pre. \<exists>t. key_of (fst x) = Inr t \<and> s < t" "\<forall>x\<in>set post. \<exists>t. key_of (fst x) = Inr t \<and> s \<le> t" by blast
    have "s \<le> t"
    proof (cases pre)
      case Nil
      with i(1,2) t show ?thesis by simp
    next
      case (Cons y ys)
      with i(1) have "x \<in> set pre" by simp
      with i(3) t show ?thesis by fastforce
    qed
    with True Cons.prems(2) i show ?thesis by (intro exI[of _ "e # pre"] exI[of _ post] exI[of _ s]) simp
  next
    case False
    then have lw: "least_entrant e (JStr k) xs = Inr w" using Cons.prems(3) unfolding run by simp
    have "\<forall>y\<in>set (e # xs). \<exists>s. key_of (fst y) = Inr s" using Cons.prems(1) by simp
    from Cons.IH[OF this Cons.prems(2) lw] obtain pre post s where i: "e # xs = pre @ w # post" "key_of (fst w) = Inr s"
      "\<forall>x\<in>set pre. \<exists>t. key_of (fst x) = Inr t \<and> s < t" "\<forall>x\<in>set post. \<exists>t. key_of (fst x) = Inr t \<and> s \<le> t" by blast
    show ?thesis
    proof (cases pre)
      case Nil
      with i(1) have "w = e" "post = xs" by simp_all
      with i t False Cons.prems(2) show ?thesis by (intro exI[of _ "[]"] exI[of _ "x # xs"] exI[of _ s]) simp
    next
      case (Cons y ys)
      with i(1) have y: "y = e" "xs = ys @ w # post" by simp_all
      with i(3) Cons Cons.prems(2) have "s < k" by simp
      with False have "s < t" by simp
      with y i t Cons show ?thesis by (intro exI[of _ "e # x # ys"] exI[of _ post] exI[of _ s]) simp
    qed
  qed
qed

lemma pick_winner_run:
  assumes "pick_winner E cs candidate blks n = (Inr (Some w), n')"
  obtains bs own e es key where "valid_peers E cs blks n = (Inr bs, n')"
    "own @ map (\<lambda>b. (b, True)) bs = e # es" "tie_break_key (fst e) = Inr key" "least_entrant e key es = Inr w"
    "own = (case candidate of None \<Rightarrow> [] | Some c \<Rightarrow> if py_eq (jget c ''previous_hash'') (projr (read_field ''hash'' (cs_tip cs)))
       then [(c, False)] else [])"
proof -
  obtain q n1 where v: "valid_peers E cs blks n = (q, n1)" by fastforce
  with assms obtain bs where q: "q = Inr bs" by (cases q) (auto simp: pick_winner_def bind_act_def)
  let ?own = "case candidate of None \<Rightarrow> Inr []
        | Some c \<Rightarrow> rbind (read_field ''hash'' (cs_tip cs)) (\<lambda>tip_hash.
            Inr (if py_eq (jget c ''previous_hash'') tip_hash then [(c, False)] else []))"
  obtain own where o: "?own = Inr own" using assms v q by (cases ?own) (auto simp: pick_winner_def bind_act_def lift_res_def)
  have "n' = n1 \<and> (case own @ map (\<lambda>b. (b, True)) bs of [] \<Rightarrow> Inr None
     | e # es \<Rightarrow> rbind (tie_break_key (fst e)) (\<lambda>key. rbind (least_entrant e key es) (\<lambda>w.
           rbind (short_hash (fst w)) (\<lambda>_. Inr (Some w))))) = Inr (Some w)"
    using assms v q o
    by (cases "rbind (read_field ''height'' (cs_tip cs)) (\<lambda>h. add_int h 1)")
      (auto simp: pick_winner_def bind_act_def lift_res_def return_def split: list.splits)
  then have n1: "n' = n1" and w: "(case own @ map (\<lambda>b. (b, True)) bs of [] \<Rightarrow> Inr None
     | e # es \<Rightarrow> rbind (tie_break_key (fst e)) (\<lambda>key. rbind (least_entrant e key es) (\<lambda>w.
           rbind (short_hash (fst w)) (\<lambda>_. Inr (Some w))))) = Inr (Some w)" by simp_all
  from w obtain e es where e: "own @ map (\<lambda>b. (b, True)) bs = e # es" by (cases "own @ map (\<lambda>b. (b, True)) bs") auto
  with w obtain key where "tie_break_key (fst e) = Inr key" "least_entrant e key es = Inr w"
    by (auto simp: rbind_Inr_conv)
  moreover have "own = (case candidate of None \<Rightarrow> []
      | Some c \<Rightarrow> if py_eq (jget c ''previous_hash'') (projr (read_field ''hash'' (cs_tip cs))) then [(c, False)] else [])"
    using o by (cases candidate) (auto simp: rbind_Inr_conv)
  ultimately show thesis using v q n1 e by (intro that) simp_all
qed

text \<open>The winner of a height is the entrant with the smallest tie-break key: it is either this node's own candidate
  or one of the peers' blocks judged valid, every other entrant's key is at least as large, the own candidate losing
  only to a strictly smaller key; and a peer's winner sits on the tip under the hash of a block that was validated there.\<close>

theorem winner_has_least_key:
  assumes "lru_laws (e_lru E)" and "set blks \<subseteq> B" and "verdicts_ok B E cs n"
    and "\<forall>b\<in>set blks \<union> set_option candidate. \<exists>s. key_of b = Inr s"
    and "pick_winner E cs candidate blks n = (Inr (Some (w, from_peer)), n')"
  shows "\<exists>bs s. valid_peers E cs blks n = (Inr bs, n') \<and> key_of w = Inr s
    \<and> (if from_peer then w \<in> set bs \<and> fits B (e_prims E) cs w else candidate = Some w)
    \<and> (\<forall>b\<in>set bs. \<exists>t. key_of b = Inr t \<and> s \<le> t)
    \<and> (\<forall>c th. candidate = Some c \<longrightarrow> read_field ''hash'' (cs_tip cs) = Inr th \<longrightarrow> py_eq (jget c ''previous_hash'') th \<longrightarrow>
         (\<exists>t. key_of c = Inr t \<and> (if from_peer then s < t else s \<le> t)))"
proof -
  from assms(5) obtain bs own e es key where p: "valid_peers E cs blks n = (Inr bs, n')"
    "own @ map (\<lambda>b. (b, True)) bs = e # es" "tie_break_key (fst e) = Inr key" "least_entrant e key es = Inr (w, from_peer)"
    "own = (case candidate of None \<Rightarrow> [] | Some c \<Rightarrow> if py_eq (jget c ''previous_hash'') (projr (read_field ''hash'' (cs_tip cs)))
       then [(c, False)] else [])" by (rule pick_winner_run)
  have bs: "set bs \<subseteq> set blks" "\<forall>b\<in>set bs. fits B (e_prims E) cs b"
    using valid_peers_sound[OF assms(1,2,3) p(1)] by blast+
  have own: "set own \<subseteq> (\<lambda>c. (c, False)) ` set_option candidate" using p(5) by (auto split: option.splits if_splits)
  have keys: "\<exists>s. key_of (fst x) = Inr s" if "x \<in> set (e # es)" for x
  proof -
    have "x \<in> set own \<union> (\<lambda>b. (b, True)) ` set bs" using that unfolding p(2)[symmetric] by auto
    with own bs(1) have "fst x \<in> set blks \<union> set_option candidate" by auto
    with assms(4) show ?thesis by blast
  qed
  have "e \<in> set (e # es)" by simp
  with keys obtain k where k: "key_of (fst e) = Inr k" by blast
  with p(3) have "key = JStr k" by (simp add: key_of_conv)
  with least_entrant_first[of e es k "(w, from_peer)"] keys k p(4) obtain pre post s where
    l: "e # es = pre @ (w, from_peer) # post" "key_of w = Inr s" "\<forall>x\<in>set pre. \<exists>t. key_of (fst x) = Inr t \<and> s < t"
    "\<forall>x\<in>set post. \<exists>t. key_of (fst x) = Inr t \<and> s \<le> t" by auto
  have all: "\<exists>t. key_of (fst x) = Inr t \<and> s \<le> t" if "x \<in> set own \<union> (\<lambda>b. (b, True)) ` set bs" for x
  proof -
    have "x \<in> set (pre @ (w, from_peer) # post)" using that unfolding l(1)[symmetric] p(2)[symmetric] by auto
    with l(2-4) show ?thesis by (auto dest: less_imp_le)
  qed
  have "(w, from_peer) \<in> set own \<union> (\<lambda>b. (b, True)) ` set bs"
    using arg_cong[OF l(1), of set] arg_cong[OF p(2), of set] by auto
  then have mem: "if from_peer then w \<in> set bs \<and> fits B (e_prims E) cs w else candidate = Some w"
    using own bs(2) by auto
  have cand: "\<exists>t. key_of c = Inr t \<and> (if from_peer then s < t else s \<le> t)"
    if "candidate = Some c" "read_field ''hash'' (cs_tip cs) = Inr th" "py_eq (jget c ''previous_hash'') th" for c th
  proof -
    have o: "own = [(c, False)]" using p(5) that by simp
    show ?thesis
    proof (cases from_peer)
      case True
      have "(c, False) \<in> set pre"
        using l(1) True unfolding p(2)[symmetric] o by (cases pre) auto
      with l(3) True show ?thesis by auto
    next
      case False
      with all[of "(c, False)"] o show ?thesis by simp
    qed
  qed
  have "\<exists>t. key_of b = Inr t \<and> s \<le> t" if "b \<in> set bs" for b using all[of "(b, True)"] that by simp
  then have "\<forall>b\<in>set bs. \<exists>t. key_of b = Inr t \<and> s \<le> t" by blast
  with p(1) l(2) mem cand show ?thesis by blast
qed

section \<open>Committing\<close>

lemma rooted_state:
  assumes "rooted P cs"
  shows "state_inv (cs_state cs)" "0 \<le> total_minted (cs_state cs)" "total_minted (cs_state cs) \<le> SUPPLY_CAP"
proof -
  from assms obtain cs0 where c: "grown P cs0" "alike_cs cs cs0" by (auto simp: rooted_def)
  from c(2) have "balances (cs_state cs) = balances (cs_state cs0)" "nonces (cs_state cs) = nonces (cs_state cs0)"
    "total_minted (cs_state cs) = total_minted (cs_state cs0)" by (simp_all add: alike_cs_def alike_fields)
  with grown_state[OF c(1)] show "state_inv (cs_state cs)" "0 \<le> total_minted (cs_state cs)" "total_minted (cs_state cs) \<le> SUPPLY_CAP"
    by (auto simp: state_inv_def)
qed

lemma recent_append: "recent_ok P c d \<Longrightarrow> recent_ok P (c @ bs) d"
  unfolding recent_ok_def by (fastforce simp: less_Suc_eq)

lemma json_tx_hashes: "map_res (json_tx_hash P) (map JObj txs) = Inr (map (tx_hash P) txs)"
  by (induction txs) simp_all

text \<open>The node after the commit of a validated block.\<close>

definition committed :: "('c, 'j) env \<Rightarrow> ('c, 'j) node \<Rightarrow> block \<Rightarrow> chain_state \<Rightarrow> storage \<Rightarrow> (rat, state \<times> rat) dict
    \<Rightarrow> string list \<Rightarrow> ('c, 'j) node" where
  "committed E n blk cs st recent hs =
     open_draw E (jget blk ''height'') (n\<lparr>n_recent := recent, n_storage := st, n_cs := cs,
       n_mempool := mp_remove_many (n_mempool n) (remdups hs), n_view := cs\<rparr>)"

lemma open_draw_core [simp]:
  "n_cs (open_draw E h n) = n_cs n" "n_view (open_draw E h n) = n_view n" "n_storage (open_draw E h n) = n_storage n"
  "n_recent (open_draw E h n) = n_recent n" "n_mempool (open_draw E h n) = n_mempool n"
  "n_judged (open_draw E h n) = n_judged n" "n_judged_tip (open_draw E h n) = n_judged_tip n"
  by (simp_all add: open_draw_def)

lemma commit_run:
  assumes "block_txs blk = Inr (map JObj txs)" "apply_block (n_cs n) blk = Inr cs'"
    "remember_state cs' (n\<lparr>n_cs := cs'\<rparr>) = Inr (n\<lparr>n_cs := cs', n_recent := r\<rparr>)"
    "save_block_and_state (e_prims E) (e_lib E) (n_storage n) blk (cs_state cs') = Inr (st, s)"
    "map_of blk ''height'' = Some h"
  shows "commit E blk n = (log_block blk (read_field ''transactions'' blk),
     committed E n blk (cs'\<lparr>cs_state := s\<rparr>) st r (map (tx_hash (e_prims E)) txs))"
  using assms by (simp add: commit_def json_tx_hashes bind_act_def get_state_def modify_def read_field_def lift_res_def
      committed_def jget_def get_or_def)

lemma commit_keeps:
  assumes ok: "node_ok (e_prims E) (e_lib E) n" and v: "validate_and_apply (e_prims E) now (n_cs n) blk = Inr (None, cs')"
    and h: "jnum (jget blk ''height'') = Some h" "h \<noteq> 0"
  obtains txs s st r where "commit E blk n = (Inr (), committed E n blk (cs'\<lparr>cs_state := s\<rparr>) st r (map (tx_hash (e_prims E)) txs))"
    "block_txs blk = Inr (map JObj txs)" "alike s (cs_state cs')"
    "node_ok (e_prims E) (e_lib E) (committed E n blk (cs'\<lparr>cs_state := s\<rparr>) st r (map (tx_hash (e_prims E)) txs))"
proof -
  let ?P = "e_prims E" and ?K = "e_lib E"
  have rt: "rooted ?P (n_cs n)" and rc: "recent_ok ?P (cs_chain (n_cs n)) (n_recent n)" and od: "on_disk ?P ?K (n_storage n) (n_cs n)"
    using ok by (simp_all add: node_ok_def)
  have rt': "rooted ?P cs'" and ch: "cs_chain cs' = cs_chain (n_cs n) @ [blk]" using rooted_append[OF rt v h] by simp_all
  note ri = append_effect[OF rooted_chain(1)[OF rt] rooted_state[OF rt] v h]
  obtain a txs where a: "jget blk ''builder'' = JStr a" "iter_json (jget blk ''transactions'') = Inr (map JObj txs)"
    using ri by blast
  have bt: "block_txs blk = Inr (map JObj txs)" "\<exists>t. map_of blk ''transactions'' = Some t \<and> iter_json t = Inr (map JObj txs)"
    using a(2) by (auto simp: block_txs_def jget_def get_or_def split: option.splits)
  have ab: "apply_block (n_cs n) blk = Inr cs'" using apply_validated[OF rooted_state(1)[OF rt] v] by simp
  have "recent_ok ?P (cs_chain cs') (n_recent (n\<lparr>n_cs := cs'\<rparr>))" using recent_append[OF rc] by (simp add: ch)
  from remember_ok[OF rt' this] obtain n2 where n2: "remember_state cs' (n\<lparr>n_cs := cs'\<rparr>) = Inr n2"
    "recent_ok ?P (cs_chain cs') (n_recent n2)" "n2 = n\<lparr>n_cs := cs', n_recent := n_recent n2\<rparr>" by auto
  obtain st where st: "save_block_and_state ?P ?K (n_storage n) blk (cs_state cs') = Inr (st, mark_persisted (cs_state cs'))"
    "on_disk ?P ?K st (cs'\<lparr>cs_state := mark_persisted (cs_state cs')\<rparr>)" by (rule commit_on_disk[OF od v h]) blast
  obtain hv where hv: "map_of blk ''height'' = Some hv" using h(1) by (auto simp: jget_def get_or_def split: option.splits)
  from n2(1,3) have rm: "remember_state cs' (n\<lparr>n_cs := cs'\<rparr>) = Inr (n\<lparr>n_cs := cs', n_recent := n_recent n2\<rparr>)" by simp
  note run = commit_run[OF bt(1) ab rm st(1) hv]
  have al: "alike (mark_persisted (cs_state cs')) (cs_state cs')" by (simp add: alike_fields mark_persisted_def)
  have "block_validate ?P now blk (cs_state (n_cs n)) (cs_chain (n_cs n)) = Inr (None, probe) \<Longrightarrow>
      jget blk ''hash'' = JStr (block_hash ?P blk)" for probe by (auto simp: block_validate_None check_hash_def split: if_splits)
  with v obtain s where s: "map_of blk ''hash'' = Some (JStr s)"
    by (auto elim!: validate_and_apply_ok simp: jget_def get_or_def split: option.splits)
  obtain t where t: "map_of blk ''transactions'' = Some t" "\<exists>m. json_len t = Inr m"
    using bt(2) by (auto elim: iter_json.elims)
  have "a \<noteq> []" using ri a(1) valid_builder_truthy by auto
  then have log: "log_block blk (read_field ''transactions'' blk) = Inr ()"
    using s t hv a(1) by (auto simp: log_block_def short_hash_def read_field_def or_empty_def)
  let ?cs = "cs'\<lparr>cs_state := mark_persisted (cs_state cs')\<rparr>"
  have "rooted ?P ?cs" using rooted_alike[OF rt', of ?cs] al by (simp add: alike_cs_def)
  then have "node_ok ?P ?K (committed E n blk ?cs st (n_recent n2) (map (tx_hash ?P) txs))"
    using n2(2) st(2) by (simp add: node_ok_def committed_def)
  with run log bt(1) al show thesis by (intro that) simp_all
qed

text \<open>A block that validates on a rooted chain applies there.\<close>

lemma validated_applies:
  assumes rt: "rooted P cs" and b: "block_validate P now blk (cs_state cs) (cs_chain cs) = Inr (None, probe)"
    and h: "jnum (jget blk ''height'') = Some h" "h \<noteq> 0"
  obtains cs' where "validate_and_apply P now cs blk = Inr (None, cs')"
proof -
  note inv = rooted_chain(1)[OF rt]
  have c: "cs_chain cs \<noteq> []" using inv by (simp add: chain_inv_def)
  have par: "parent_ok (last (cs_chain cs)) (block_hash P (last (cs_chain cs)))
      (of_nat (length (cs_chain cs) - 1)) (block_time (last (cs_chain cs)))"
    using inv c by (simp add: chain_inv_def last_conv_nth)
  from b check_builder_None[OF par c refl h] obtain a where a: "jget blk ''builder'' = JStr a" "is_valid_address P (JStr a)"
    by (auto simp: block_validate_None)
  from b have at: "apply_transactions P blk (cs_state cs) = Inr (None, probe)" by (simp add: block_validate_None)
  from apply_transactions_effect[OF at rooted_state(1)[OF rt]] obtain fees where t: "state_inv probe" "block_fees blk = Inr fees"
    "0 \<le> fees" "total_minted probe = total_minted (cs_state cs)" by blast
  obtain s where s: "apply_builder_reward probe a blk = Inr s"
    using apply_builder_reward_effect[OF t(1-3), of a] t(4) rooted_state(2,3)[OF rt] by auto
  have ab: "apply_to_state probe blk = Inr s" using a valid_builder_truthy s by (auto simp: apply_to_state_def)
  have "chain_inv P (cs_chain cs @ [blk])" by (rule chain_inv_append[OF inv b h])
  then have "iterations_of ((cs_chain cs @ [blk]) ! length (cs_chain cs)) = JInt (iters blk)"
    unfolding chain_inv_def by (metis length_append_singleton lessI nth_append_length)
  then have "work_of blk = Inr (of_int (counted blk))" by (intro work_counted) simp
  with ab b show thesis by (intro that) (simp add: validate_and_apply_def apply_block_with_state_def)
qed

lemma rooted_next_height:
  assumes "rooted P cs" "add_int (cs_height cs) 1 = Inr h" "py_eq (jget blk ''height'') h"
  shows "jnum (jget blk ''height'') = Some (of_nat (length (cs_chain cs)))"
proof -
  have "cs_chain cs \<noteq> []" "height_key cs = Inr (of_nat (length (cs_chain cs) - 1))" using rooted_height[OF assms(1)] by simp_all
  moreover from this(1) have "(of_nat (length (cs_chain cs) - 1) :: rat) = of_nat (length (cs_chain cs)) - 1"
    by (cases "cs_chain cs") simp_all
  ultimately have "jnum (cs_height cs) = Some (of_nat (length (cs_chain cs)) - 1)"
    by (auto simp: height_key_def read_num_def read_field_def cs_height_def jget_def get_or_def rbind_Inr_conv split: option.splits)
  then have "jnum h = Some (of_nat (length (cs_chain cs)))"
    using assms(2) by (cases "cs_height cs") (auto split: if_splits)
  with assms(3) show ?thesis by (auto simp: py_eq_def split: option.splits)
qed

text \<open>Of the blocks met, none goes under the hash of another's content.\<close>

definition no_twins :: "prims \<Rightarrow> block set \<Rightarrow> bool" where
  "no_twins P B \<longleftrightarrow> (\<forall>b\<in>B. \<forall>b'\<in>B. jget b' ''hash'' = JStr (block_hash P b') \<longrightarrow> jget b ''hash'' = jget b' ''hash'' \<longrightarrow> b = b')"

lemma fits_validated:
  assumes "rooted P cs" "fits B P cs b" "no_twins P B" "b \<in> B"
  obtains now cs' where "validate_and_apply P now cs b = Inr (None, cs')" "jnum (jget b ''height'') = Some (of_nat (length (cs_chain cs)))"
proof -
  from assms(2) obtain h where h: "add_int (cs_height cs) 1 = Inr h" "py_eq (jget b ''height'') h" "validated B P cs (jget b ''hash'') True"
    by (auto simp: fits_def)
  from h(3) obtain b' now s where b': "b' \<in> B" "jget b' ''hash'' = jget b ''hash''"
    "block_validate P now b' (cs_state cs) (cs_chain cs) = Inr (None, s)" by (auto simp: validated_def)
  have "jget b' ''hash'' = JStr (block_hash P b')" using b'(3) by (auto simp: block_validate_None check_hash_def split: if_splits)
  with assms(3,4) b'(1,2) have e: "b' = b" unfolding no_twins_def by metis
  note n = rooted_next_height[OF assms(1) h(1,2)]
  have "of_nat (length (cs_chain cs)) \<noteq> (0 :: rat)" using rooted_height(2)[OF assms(1)] by simp
  with validated_applies[OF assms(1) b'(3)[unfolded e] n] n that show thesis by blast
qed

lemma judging_ok: "judging n n' \<Longrightarrow> node_ok P K n \<Longrightarrow> node_ok P K n' \<and> n_cs n' = n_cs n \<and> n_mempool n' = n_mempool n"
  by (auto simp: judging_def node_ok_def)

lemma least_entrant_mem: "least_entrant e key es = Inr w \<Longrightarrow> w \<in> set (e # es)"
proof (induction es arbitrary: e key)
  case (Cons x xs)
  then obtain key' less where "json_less key' key = Inr less"
    "(if less then least_entrant x key' xs else least_entrant e key xs) = Inr w" by (auto simp: rbind_Inr_conv)
  with Cons.IH[of x key'] Cons.IH[of e key] show ?case by (cases less) auto
qed simp

text \<open>What settles a height was validated: as long as, among the blocks met, none claims the hash of a different one, the block
  a cycle commits passed \<^verbatim>\<open>block.validate\<close> on the very tip it extends, be it the node's own candidate or a peer's,
  and the commit leaves the node's chain, ledger, cached ledgers, view and disk in step.\<close>

theorem settled_by_validation:
  assumes "lru_laws (e_lru E)" and "node_ok (e_prims E) (e_lib E) n" and "verdicts_ok B E (n_cs n) n"
    and "set blks \<subseteq> B" and "no_twins (e_prims E) B"
    and "\<And>c. candidate = Some c \<Longrightarrow> \<exists>now s. block_validate (e_prims E) now c (cs_state (n_cs n)) (cs_chain (n_cs n)) = Inr (None, s)
           \<and> jnum (jget c ''height'') = Some (of_nat (length (cs_chain (n_cs n))))"
    and "settle E (n_cs n) candidate blks n = (Inr True, n')"
  shows "\<exists>w now cs'. w \<in> set blks \<union> set_option candidate
    \<and> validate_and_apply (e_prims E) now (n_cs n) w = Inr (None, cs') \<and> alike_cs (n_cs n') cs'
    \<and> node_ok (e_prims E) (e_lib E) n'"
proof -
  let ?P = "e_prims E" and ?cs = "n_cs n"
  have rt: "rooted ?P ?cs" using assms(2) by (simp add: node_ok_def)
  from assms(7) obtain w peer n1 where pw: "pick_winner E ?cs candidate blks n = (Inr (Some (w, peer)), n1)"
    and cm: "commit E w n1 = (Inr (), n')"
    by (auto simp: settle_def bind_act_Inr return_def split: option.splits)
  from pw obtain bs own e es key where p: "valid_peers E ?cs blks n = (Inr bs, n1)"
    "own @ map (\<lambda>b. (b, True)) bs = e # es" "least_entrant e key es = Inr (w, peer)"
    "own = (case candidate of None \<Rightarrow> [] | Some c \<Rightarrow> if py_eq (jget c ''previous_hash'') (projr (read_field ''hash'' (cs_tip ?cs)))
       then [(c, False)] else [])" by (rule pick_winner_run)
  note vp = valid_peers_sound[OF assms(1,4,3) p(1)]
  have "(w, peer) \<in> set (e # es)" by (rule least_entrant_mem[OF p(3)])
  then have "w \<in> set bs \<or> candidate = Some w"
    unfolding p(2)[symmetric] using p(4) by (auto split: option.splits if_splits)
  then obtain now cs' where v: "validate_and_apply ?P now ?cs w = Inr (None, cs')"
    "jnum (jget w ''height'') = Some (of_nat (length (cs_chain ?cs)))"
  proof
    assume w: "w \<in> set bs"
    with vp assms(4) have "fits B ?P ?cs w" "w \<in> B" by blast+
    from fits_validated[OF rt this(1) assms(5) this(2)] that show thesis by blast
  next
    assume "candidate = Some w"
    from assms(6)[OF this] obtain now s where s: "block_validate ?P now w (cs_state ?cs) (cs_chain ?cs) = Inr (None, s)"
      "jnum (jget w ''height'') = Some (of_nat (length (cs_chain ?cs)))" by blast
    have "of_nat (length (cs_chain ?cs)) \<noteq> (0 :: rat)" using rooted_height(2)[OF rt] by simp
    from validated_applies[OF rt s this] s(2) that show thesis by blast
  qed
  have j: "node_ok ?P (e_lib E) n1" "n_cs n1 = ?cs" using judging_ok vp assms(2) by blast+
  have nz: "of_nat (length (cs_chain ?cs)) \<noteq> (0 :: rat)" using rooted_height(2)[OF rt] by simp
  obtain txs s st r where c: "commit E w n1 = (Inr (), committed E n1 w (cs'\<lparr>cs_state := s\<rparr>) st r (map (tx_hash ?P) txs))"
    "alike s (cs_state cs')" "node_ok ?P (e_lib E) (committed E n1 w (cs'\<lparr>cs_state := s\<rparr>) st r (map (tx_hash ?P) txs))"
    by (rule commit_keeps[OF j(1) _ v(2) nz]) (use v(1) j(2) in simp)
  have "n' = committed E n1 w (cs'\<lparr>cs_state := s\<rparr>) st r (map (tx_hash ?P) txs)" using cm c(1) by simp
  then have "alike_cs (n_cs n') cs'" "node_ok ?P (e_lib E) n'"
    using c(2,3) by (simp_all add: committed_def alike_cs_def)
  with v(1) \<open>w \<in> set bs \<or> candidate = Some w\<close> vp show ?thesis by (intro exI[of _ w] exI[of _ now] exI[of _ cs']) auto
qed

section \<open>A twin under a validated hash\<close>

text \<open>Once a hash has a verdict, every block that claims it gets that verdict.\<close>

lemma judged_again:
  assumes L: "lru_laws (e_lru E)" and v: "validate_candidate E b cs n = (Inr True, n1)" and t: "truthy (jget b ''hash'')"
  obtains h th where "add_int (cs_height cs) 1 = Inr h" "py_eq (jget b ''height'') h" "read_field ''hash'' (cs_tip cs) = Inr th"
    "py_eq (jget b ''previous_hash'') th" "py_eq (n_judged_tip n1) th"
    "l_view (e_lru E) (n_judged n1) (jget b ''hash'') = Some True"
  using v
proof (cases rule: validate_candidate_cases)
  case (asked h th v j)
  let ?n = "refresh E th n"
  have j: "v = l_view (e_lru E) (n_judged ?n) (jget b ''hash'')" "l_view (e_lru E) j = l_view (e_lru E) (n_judged ?n)"
    using lru_lawsD(2,3)[OF L, of "n_judged ?n" "jget b ''hash''"] asked(5) by simp_all
  have p: "py_eq (n_judged_tip n1) th" using asked(6) refresh_fields(1)[of E th n]
    by (auto split: option.splits sum.splits prod.splits if_splits)
  have "l_view (e_lru E) (n_judged n1) (jget b ''hash'') = Some True"
    using asked(6) j t lru_lawsD(4)[OF L] by (auto split: option.splits sum.splits prod.splits)
  with asked(1-4) p that show thesis by blast
qed auto

lemma verdict_by_hash:
  assumes L: "lru_laws (e_lru E)" and h: "add_int (cs_height cs) 1 = Inr h" "py_eq (jget t ''height'') h"
    "read_field ''hash'' (cs_tip cs) = Inr th" "py_eq (jget t ''previous_hash'') th"
    and c: "py_eq (n_judged_tip n) th" "hashable (jget t ''hash'')" "l_view (e_lru E) (n_judged n) (jget t ''hash'') = Some v"
  obtains j where "validate_candidate E t cs n = (Inr v, n\<lparr>n_judged := j\<rparr>)" "l_view (e_lru E) j = l_view (e_lru E) (n_judged n)"
proof -
  have r: "refresh E th n = n" using c(1) by (simp add: refresh_def)
  let ?g = "l_get (e_lru E) (n_judged n) (jget t ''hash'')"
  have g: "fst ?g = Some v" "l_view (e_lru E) (snd ?g) = l_view (e_lru E) (n_judged n)" using lru_lawsD(2,3)[OF L] c(3) by simp_all
  have "validate_candidate E t cs n = (Inr v, n\<lparr>n_judged := snd ?g\<rparr>)"
    unfolding validate_candidate_run[OF h]
    using c(2) g(1) by (simp add: bind_act_def judged_run[OF h(3)] r Let_def return_def)
  with g(2) that show thesis by blast
qed

text \<open>The block as one thief would forge it: his own name under it and a smaller output, everything else as it was.\<close>

definition steal :: "block \<Rightarrow> string \<Rightarrow> string \<Rightarrow> block" where
  "steal b thief out = AList.update ''builder'' (JStr thief) (AList.update ''vdf_output'' (JStr out) b)"

lemma steal_fields:
  "k \<noteq> ''builder'' \<Longrightarrow> k \<noteq> ''vdf_output'' \<Longrightarrow> map_of (steal b thief out) k = map_of b k"
  "jget (steal b thief out) ''builder'' = JStr thief" "jget (steal b thief out) ''vdf_output'' = JStr out"
  by (simp_all add: steal_def dict_simps jget_def get_or_def)

lemma steal_get: "k \<noteq> ''builder'' \<Longrightarrow> k \<noteq> ''vdf_output'' \<Longrightarrow> jget (steal b thief out) k = jget b k \<and> get_or (steal b thief out) k d = get_or b k d"
  by (simp add: steal_fields jget_def get_or_def)

lemma log_block_ok:
  assumes "has_key b ''height''" "map_of b ''hash'' = Some (JStr s)" "txs = Inr t" "json_len t = Inr m" "jget b ''builder'' = JStr a"
  shows "log_block b txs = Inr ()"
proof -
  obtain v where "map_of b ''height'' = Some v" using assms(1) by (auto simp: dict_simps)
  with assms show ?thesis by (simp add: log_block_def short_hash_def read_field_def or_empty_def)
qed

text \<open>A commit only needs the block to apply and to have its place: nothing is validated.\<close>

lemma commit_lands:
  assumes txs: "block_txs blk = Inr (map JObj txs)" "foldr_res apply_tx (cs_state (n_cs n)) txs = Inr mid"
    and ap: "apply_to_state mid blk = Inr s" "work_of blk = Inr w"
    and pl: "placed (e_prims E) (length (cs_chain (n_cs n))) blk"
    and hh: "map_of blk ''hash'' = Some (JStr hs)" "map_of blk ''height'' = Some hv" "jnum hv = Some x"
    and lg: "log_block blk (read_field ''transactions'' blk) = Inr ()"
  shows "\<exists>n'. commit E blk n = (Inr (), n') \<and> cs_chain (n_cs n') = cs_chain (n_cs n) @ [blk] \<and> n_view n' = n_cs n'
    \<and> map_of (block_table (n_storage n')) (int (length (cs_chain (n_cs n)))) = Some (row_of (e_lib E) blk)
    \<and> (\<forall>a. get_balance (cs_state (n_cs n')) a = get_balance s a)"
proof -
  let ?P = "e_prims E" and ?cs = "n_cs n" and ?len = "length (cs_chain (n_cs n))"
  define cs2 where "cs2 = \<lparr>cs_chain = cs_chain ?cs @ [blk], cs_state = s, cumulative_iterations = cumulative_iterations ?cs + w\<rparr>"
  have ab: "apply_block ?cs blk = Inr cs2"
    using txs ap by (simp add: apply_block_def block_txs_def apply_json_txs apply_block_with_state_def cs2_def)
  let ?st1 = "n_storage n\<lparr>block_table := AList.update (int ?len) (row_of (e_lib E) blk) (block_table (n_storage n))\<rparr>"
  obtain st2 where st2: "index_block ?P blk ?st1 = Inr st2" "block_table st2 = block_table ?st1"
    by (rule index_block_placed[OF pl, of ?st1])
  obtain st s' where sd: "save_state_delta st2 s = (st, s')" by fastforce
  have sv: "save_block_and_state ?P (e_lib E) (n_storage n) blk (cs_state cs2) = Inr (st, s')"
    using st2(1) sd by (simp add: save_block_and_state_def put_block_placed[OF pl] cs2_def)
  have st: "block_table st = block_table st2" "balances s' = balances s"
    using sd by (auto simp: save_state_delta_def Let_def emit_def mark_persisted_def split: if_splits)
  obtain r where rm: "remember_state cs2 (n\<lparr>n_cs := cs2\<rparr>) = Inr (n\<lparr>n_cs := cs2, n_recent := r\<rparr>)"
    using hh by (auto simp: remember_state_def height_key_def cs_tip_def cs2_def read_num_def read_field_def Let_def)
  have cm: "commit E blk n = (Inr (), committed E n blk (cs2\<lparr>cs_state := s'\<rparr>) st r (map (tx_hash ?P) txs))"
    using commit_run[OF txs(1) ab rm sv hh(2)] lg by simp
  have "get_balance s' a = get_balance s a" for a using st(2) by (simp add: get_balance_def)
  with cm st(1) st2(2) show ?thesis
    by (intro exI[of _ "committed E n blk (cs2\<lparr>cs_state := s'\<rparr>) st r (map (tx_hash ?P) txs)"])
      (simp add: committed_def cs2_def dict_simps)
qed

lemma steal_commit:
  assumes ok: "rooted (e_prims E) (n_cs n)"
    and b: "block_validate (e_prims E) now b (cs_state (n_cs n)) (cs_chain (n_cs n)) = Inr (None, probe)"
      "jnum (jget b ''height'') = Some (of_nat (length (cs_chain (n_cs n))))"
    and th: "thief \<noteq> []"
  shows "\<exists>n' fees. commit E (steal b thief out) n = (Inr (), n') \<and> block_fees b = Inr fees
    \<and> cs_chain (n_cs n') = cs_chain (n_cs n) @ [steal b thief out] \<and> n_view n' = n_cs n'
    \<and> map_of (block_table (n_storage n')) (int (length (cs_chain (n_cs n)))) = Some (row_of (e_lib E) (steal b thief out))
    \<and> (\<forall>a. get_balance (cs_state (n_cs n')) a = get_balance probe a
         + (if a = thief then fees + compute_reward (total_minted (cs_state (n_cs n))) else 0))"
proof -
  let ?P = "e_prims E" and ?cs = "n_cs n" and ?t = "steal b thief out"
  let ?len = "length (cs_chain ?cs)"
  have nz: "of_nat ?len \<noteq> (0 :: rat)" using rooted_height(2)[OF ok] by simp
  have at: "apply_transactions ?P b (cs_state ?cs) = Inr (None, probe)" using b(1) by (simp add: block_validate_None)
  from apply_transactions_effect[OF at rooted_state(1)[OF ok]] obtain txs fees where t:
    "iter_json (jget b ''transactions'') = Inr (map JObj txs)" "foldr_res apply_tx (cs_state ?cs) txs = Inr probe"
    "state_inv probe" "block_fees b = Inr fees" "0 \<le> fees" "total_minted probe = total_minted (cs_state ?cs)" by blast
  obtain v where v: "map_of b ''transactions'' = Some v"
    using at by (auto simp: apply_transactions_def read_field_def rbind_Inr_conv split: option.splits)
  have tx: "iter_json (get_or b ''transactions'' (JArr [])) = Inr (map JObj txs)" "iter_json v = Inr (map JObj txs)"
    using t(1) v by (simp_all add: jget_def get_or_def)
  have bt: "block_txs ?t = Inr (map JObj txs)" using tx(1) steal_get[of "''transactions''" b thief out] by (simp add: block_txs_def)
  have bf: "block_fees ?t = Inr fees" using t(4) steal_get[of "''transactions''" b thief out] by (simp add: block_fees_def)
  obtain s where s: "apply_builder_reward probe thief ?t = Inr s"
    "\<And>a. get_balance s a = get_balance probe a + (if a = thief then fees + compute_reward (total_minted (cs_state ?cs)) else 0)"
    using apply_builder_reward_effect[OF t(3) bf t(5), of thief] t(6) rooted_state(2,3)[OF ok] by auto
  have ts: "apply_to_state probe ?t = Inr s" using s(1) th by (simp add: apply_to_state_def steal_fields)
  obtain cs1 where "validate_and_apply ?P now ?cs b = Inr (None, cs1)" by (rule validated_applies[OF ok b nz])
  then obtain w where w: "work_of b = Inr w"
    by (auto elim!: validate_and_apply_ok simp: apply_block_with_state_def rbind_Inr_conv)
  have wt: "work_of ?t = Inr w" using w steal_fields(1)[of "''vdf_iterations''" b thief out] by (simp add: work_of_def)
  have ht: "jget b ''hash'' = JStr (block_hash ?P b)" using b(1) by (auto simp: block_validate_None check_hash_def split: if_splits)
  have hh: "map_of ?t ''hash'' = Some (JStr (block_hash ?P b))" "map_of ?t ''height'' = Some (jget b ''height'')"
    using jget_Some[OF ht] b(2) steal_fields(1)[of "''hash''" b thief out] steal_fields(1)[of "''height''" b thief out]
    by (auto simp: jget_def get_or_def split: option.splits)
  have pl: "placed ?P ?len ?t"
    using b(2) hh valid_indexable[OF at] steal_get[of "''transactions''" b thief out]
    by (simp add: placed_def dict_simps indexable_def jget_def get_or_def)
  obtain m where m: "json_len v = Inr m" using tx(2) by (auto elim: iter_json.elims)
  have lg: "log_block ?t (read_field ''transactions'' ?t) = Inr ()"
    using hh v m steal_fields(1)[of "''transactions''" b thief out]
    by (intro log_block_ok[where s = "block_hash ?P b" and t = v and m = m and a = thief])
      (simp_all add: dict_simps read_field_def steal_fields(2))
  obtain hv where hv: "map_of ?t ''height'' = Some hv" "jnum hv = Some (of_nat ?len)" using hh(2) b(2) by simp
  from commit_lands[OF bt t(2) ts wt pl hh(1) hv lg] obtain n' where "commit E ?t n = (Inr (), n')"
    "cs_chain (n_cs n') = cs_chain ?cs @ [?t]" "n_view n' = n_cs n'"
    "map_of (block_table (n_storage n')) (int ?len) = Some (row_of (e_lib E) ?t)"
    "\<forall>a. get_balance (cs_state (n_cs n')) a = get_balance s a" by blast
  with t(4) s(2) show ?thesis by (intro exI[of _ n'] exI[of _ fees]) simp
qed

lemma valid_pair:
  assumes "validate_candidate E b cs n = (Inr True, n1)" "log_block b (Inr (get_or b ''transactions'' (JArr []))) = Inr ()"
    "validate_candidate E t cs n1 = (Inr True, n2)" "log_block t (Inr (get_or t ''transactions'' (JArr []))) = Inr ()"
  shows "valid_peers E cs [b, t] n = (Inr [b, t], n2)"
  using assms by (simp add: bind_act_def lift_res_def return_def)

text \<open>C16: The verdict cache goes by the hash a block claims, and nothing compares a cached block with that hash: once an
  honest block was judged valid, a copy with another builder and a smaller output is accepted unseen, without any VDF
  proof, wins the height by its smaller key, is committed, published and stored, and pays the thief the fees and the reward.\<close>

theorem forged_twin_committed:
  assumes "lru_laws (e_lru E)" and "node_ok (e_prims E) (e_lib E) n"
    and "validate_candidate E b (n_cs n) n = (Inr True, n1)"
    and "block_validate (e_prims E) now b (cs_state (n_cs n)) (cs_chain (n_cs n)) = Inr (None, probe)"
    and "block_hash (e_prims E) b \<noteq> []" and "key_of b = Inr k" and "out < k" and "out \<noteq> []" and "thief \<noteq> []"
  shows "\<exists>n' fees. settle E (n_cs n) None [b, steal b thief out] n1 = (Inr True, n') \<and> block_fees b = Inr fees
    \<and> cs_chain (n_cs n') = cs_chain (n_cs n) @ [steal b thief out] \<and> n_view n' = n_cs n'
    \<and> map_of (block_table (n_storage n')) (int (length (cs_chain (n_cs n)))) = Some (row_of (e_lib E) (steal b thief out))
    \<and> (\<forall>a. get_balance (cs_state (n_cs n')) a = get_balance probe a
         + (if a = thief then fees + compute_reward (total_minted (cs_state (n_cs n))) else 0))"
proof -
  let ?P = "e_prims E" and ?cs = "n_cs n" and ?t = "steal b thief out"
  have rt: "rooted ?P ?cs" using assms(2) by (simp add: node_ok_def)
  have hb: "jget b ''hash'' = JStr (block_hash ?P b)"
    using assms(4) by (auto simp: block_validate_None check_hash_def split: if_splits)
  have tr: "truthy (jget b ''hash'')" "hashable (jget b ''hash'')" using assms(5) hb by simp_all
  obtain h th where h: "add_int (cs_height ?cs) 1 = Inr h" "py_eq (jget b ''height'') h" "read_field ''hash'' (cs_tip ?cs) = Inr th"
    "py_eq (jget b ''previous_hash'') th" "py_eq (n_judged_tip n1) th"
    "l_view (e_lru E) (n_judged n1) (jget b ''hash'') = Some True"
    by (rule judged_again[OF assms(1,3) tr(1)])
  note num = rooted_next_height[OF rt h(1,2)]
  have tg: "jget ?t ''hash'' = jget b ''hash''" "jget ?t ''height'' = jget b ''height''" "jget ?t ''previous_hash'' = jget b ''previous_hash''"
    "get_or ?t ''transactions'' (JArr []) = get_or b ''transactions'' (JArr [])"
    using steal_get[of _ b thief out] by simp_all
  obtain j1 where j1: "validate_candidate E b ?cs n1 = (Inr True, n1\<lparr>n_judged := j1\<rparr>)"
    "l_view (e_lru E) j1 = l_view (e_lru E) (n_judged n1)"
    by (rule verdict_by_hash[OF assms(1) h(1-5) tr(2) h(6)])
  have ht: "py_eq (jget ?t ''height'') h" "py_eq (jget ?t ''previous_hash'') th" using h(2,4) tg by simp_all
  have c2: "py_eq (n_judged_tip (n1\<lparr>n_judged := j1\<rparr>)) th" "hashable (jget ?t ''hash'')"
    "l_view (e_lru E) (n_judged (n1\<lparr>n_judged := j1\<rparr>)) (jget ?t ''hash'') = Some True"
    using h(5,6) tr(2) j1(2) tg by simp_all
  obtain j2 where j2: "validate_candidate E ?t ?cs (n1\<lparr>n_judged := j1\<rparr>) = (Inr True, n1\<lparr>n_judged := j1\<rparr>\<lparr>n_judged := j2\<rparr>)"
    by (rule verdict_by_hash[OF assms(1) h(1) ht(1) h(3) ht(2) c2])
  have at: "apply_transactions ?P b (cs_state ?cs) = Inr (None, probe)" using assms(4) by (simp add: block_validate_None)
  obtain txs m where tx: "iter_json (get_or b ''transactions'' (JArr [])) = Inr txs" "json_len (get_or b ''transactions'' (JArr [])) = Inr m"
    using valid_indexable[OF at] by (auto simp: indexable_def elim: iter_json.elims)
  have hk: "has_key b ''height''" "has_key ?t ''height''" "map_of b ''hash'' = Some (JStr (block_hash ?P b))"
    "map_of ?t ''hash'' = Some (JStr (block_hash ?P b))"
  proof -
    have "jget b ''height'' \<noteq> JNull" using num by auto
    then show "has_key b ''height''" "has_key ?t ''height''" using tg(2) jget_Some[OF refl] by (metis has_key_map_of option.discI)+
    show "map_of b ''hash'' = Some (JStr (block_hash ?P b))" "map_of ?t ''hash'' = Some (JStr (block_hash ?P b))"
      using hb tg(1) by (auto intro: jget_Some)
  qed
  have nz: "of_nat (length (cs_chain ?cs)) \<noteq> (0 :: rat)" using rooted_height(2)[OF rt] by simp
  obtain cs1 where va: "validate_and_apply ?P now ?cs b = Inr (None, cs1)" by (rule validated_applies[OF rt assms(4) num nz])
  from append_effect[OF rooted_chain(1)[OF rt] rooted_state[OF rt] va num nz] obtain a where a: "jget b ''builder'' = JStr a" by blast
  have lg: "log_block b (Inr (get_or b ''transactions'' (JArr []))) = Inr ()" "log_block ?t (Inr (get_or ?t ''transactions'' (JArr []))) = Inr ()"
    using log_block_ok[OF hk(1,3) refl tx(2) a] log_block_ok[OF hk(2,4) refl _ steal_fields(2)] tx(2) tg(4) by simp_all
  note vp = valid_pair[OF j1(1) lg(1) j2 lg(2)]
  have kt: "tie_break_key b = Inr (JStr k)" "tie_break_key ?t = Inr (JStr out)"
    using assms(6,8) by (simp_all add: key_of_conv tie_break_key_def steal_fields(3))
  have rh: "\<exists>x. rbind (read_field ''height'' (cs_tip ?cs)) (\<lambda>h. add_int h 1) = Inr x"
    using h(1) by (auto simp: cs_height_def read_field_def jget_def get_or_def split: option.splits)
  have sh: "short_hash ?t = Inr ()" using hk(4) by (simp add: short_hash_def read_field_def)
  let ?n3 = "n1\<lparr>n_judged := j1\<rparr>\<lparr>n_judged := j2\<rparr>"
  have pw: "pick_winner E ?cs None [b, ?t] n1 = (Inr (Some (?t, True)), ?n3)"
    using vp rh kt sh assms(7) unfolding pick_winner_def by (auto simp: bind_act_def lift_res_def)
  have fr: "n_cs ?n3 = ?cs"
    using judging_ok[OF keepsD[OF keeps_judging[OF assms(1)] assms(3)] assms(2)] by simp
  from steal_commit[of E ?n3 now b probe thief out] rt assms(4,9) num fr obtain n' fees where
    "commit E ?t ?n3 = (Inr (), n') \<and> block_fees b = Inr fees \<and> cs_chain (n_cs n') = cs_chain ?cs @ [?t] \<and> n_view n' = n_cs n'
    \<and> map_of (block_table (n_storage n')) (int (length (cs_chain ?cs))) = Some (row_of (e_lib E) ?t)
    \<and> (\<forall>a. get_balance (cs_state (n_cs n')) a = get_balance probe a
         + (if a = thief then fees + compute_reward (total_minted (cs_state ?cs)) else 0))" by auto
  moreover from this pw have "settle E ?cs None [b, ?t] n1 = (Inr True, n')"
    by (simp add: settle_def bind_act_def return_def)
  ultimately show ?thesis by blast
qed

section \<open>Examples of judging\<close>

lemma demo_lru_laws [simp]: "lru_laws demo_lru"
  by (auto simp: lru_laws_def demo_lru_def dict_simps)

lemma demo_fresh:
  obtains st now n1 probe where "node_ok key_prims (list_lib []) (demo_node (from_genesis key_prims) st)"
    "block_validate key_prims now first_block (cs_state (from_genesis key_prims)) (cs_chain (from_genesis key_prims)) = Inr (None, probe)"
    "validate_candidate (demo_env now) first_block (from_genesis key_prims) (demo_node (from_genesis key_prims) st) = (Inr True, n1)"
proof -
  let ?g = "from_genesis key_prims"
  obtain st where st: "on_disk key_prims (list_lib []) st ?g" by (rule fresh_start)
  obtain now cs' where "validate_and_apply key_prims now ?g first_block = Inr (None, cs')" by (rule first_commit)
  then obtain probe where v: "block_validate key_prims now first_block (cs_state ?g) (cs_chain ?g) = Inr (None, probe)"
    by (auto elim!: validate_and_apply_ok)
  let ?n = "demo_node ?g st"
  have f: "jget first_block ''height'' = JInt 1" "jget first_block ''hash'' = JStr (key_hash ''11'')"
    "jget first_block ''previous_hash'' = JStr (key_hash ''00'')" by (simp_all add: first_block_def key_block_fields)
  have g: "cs_tip ?g = create_genesis key_prims" "cs_height ?g = JInt 0"
    by (simp_all add: cs_height_def from_genesis_def cs_tip_def create_genesis_def Let_def jget_def get_or_def)
  have "jget (create_genesis key_prims) ''hash'' = JStr (block_hash key_prims (create_genesis key_prims))"
    by (simp add: create_genesis_def Let_def jget_def get_or_def block_hash_def without_def)
  then have gh: "read_field ''hash'' (create_genesis key_prims) = Inr (JStr (key_hash ''00''))"
    by (auto simp: key_genesis(1) read_field_def jget_def get_or_def split: option.splits)
  have h: "add_int (cs_height ?g) 1 = Inr (JInt 1)" "py_eq (jget first_block ''height'') (JInt 1)"
    "read_field ''hash'' (cs_tip ?g) = Inr (JStr (key_hash ''00''))" "py_eq (jget first_block ''previous_hash'') (JStr (key_hash ''00''))"
    using gh by (simp_all add: f g)
  have "validate_candidate (demo_env now) first_block ?g ?n = (Inr True, snd (validate_candidate (demo_env now) first_block ?g ?n))"
    unfolding validate_candidate_run[OF h]
    using v by (simp add: bind_act_def judged_run[OF h(3)] Let_def f demo_lru_def refresh_def demo_node_def py_eq_def
        lift_res_def remember_run[OF h(3)] demo_env_def)
  with that[OF demo_node_ok[OF rooted_genesis st] v] show thesis by blast
qed

lemma demo_unjudged [simp]: "verdicts_ok B (demo_env now) cs (demo_node cs' st)"
  by (simp add: verdicts_ok_def demo_node_def demo_lru_def split: option.split)

lemma first_logged: "log_block first_block (Inr (get_or first_block ''transactions'' (JArr []))) = Inr ()" "short_hash first_block = Inr ()"
proof -
  show "log_block first_block (Inr (get_or first_block ''transactions'' (JArr []))) = Inr ()"
    by (rule log_block_ok[where s = "key_hash ''11''" and t = "JArr []" and m = 0 and a = "demo_addr CHR ''a''"])
      (simp_all add: first_block_def key_block_def dict_simps jget_def get_or_def)
  show "short_hash first_block = Inr ()" by (simp add: short_hash_def read_field_def first_block_def key_block_def)
qed

lemma demo_tip: "\<exists>h. read_field ''hash'' (cs_tip (from_genesis P)) = Inr h"
  "rbind (read_field ''height'' (cs_tip (from_genesis P))) (\<lambda>h. add_int h 1) = Inr (JInt 1)"
  by (simp_all add: read_field_def from_genesis_def cs_tip_def create_genesis_def Let_def)

lemma demo_winner:
  assumes "validate_candidate (demo_env now) first_block (from_genesis key_prims) (demo_node (from_genesis key_prims) st) = (Inr True, n1)"
    "candidate = None \<or> candidate = Some (key_block 1 ''00'' ''22'')"
  shows "pick_winner (demo_env now) (from_genesis key_prims) candidate [first_block] (demo_node (from_genesis key_prims) st)
    = (Inr (Some (first_block, True)), n1)"
proof -
  have k: "key_of first_block = Inr ''11''" "key_of (key_block 1 ''00'' ''22'') = Inr ''22''"
    by (simp_all add: first_block_def key_of_block)
  have "valid_peers (demo_env now) (from_genesis key_prims) [first_block] (demo_node (from_genesis key_prims) st) = (Inr [first_block], n1)"
    using assms(1) first_logged by (simp add: bind_act_def lift_res_def return_def)
  with demo_tip[of key_prims] first_logged k assms(2) show ?thesis
    unfolding pick_winner_def key_of_conv by (auto simp: bind_act_def lift_res_def)
qed

lemma demo_settles:
  assumes "node_ok key_prims (list_lib []) (demo_node (from_genesis key_prims) st)"
    "block_validate key_prims now first_block (cs_state (from_genesis key_prims)) (cs_chain (from_genesis key_prims)) = Inr (None, probe)"
    "validate_candidate (demo_env now) first_block (from_genesis key_prims) (demo_node (from_genesis key_prims) st) = (Inr True, n1)"
  shows "\<exists>n'. settle (demo_env now) (from_genesis key_prims) None [first_block] (demo_node (from_genesis key_prims) st) = (Inr True, n')"
proof -
  let ?g = "from_genesis key_prims" and ?n = "demo_node (from_genesis key_prims) st"
  have j: "node_ok key_prims (list_lib []) n1" "n_cs n1 = ?g"
    using judging_ok[OF keepsD[OF keeps_judging assms(3)] assms(1)] by (simp_all add: demo_node_def)
  have h: "jnum (jget first_block ''height'') = Some 1" "(1 :: rat) \<noteq> 0" by (simp_all add: first_block_def key_block_fields)
  obtain cs' where v: "validate_and_apply key_prims now ?g first_block = Inr (None, cs')"
    by (rule validated_applies[OF rooted_genesis assms(2) h])
  have "\<exists>n'. commit (demo_env now) first_block n1 = (Inr (), n')"
    by (rule commit_keeps[of "demo_env now" n1 now first_block cs' 1]) (use j h v in auto)
  then obtain n' where n': "commit (demo_env now) first_block n1 = (Inr (), n')" by blast
  have "pick_winner (demo_env now) ?g None [first_block] ?n = (Inr (Some (first_block, True)), n1)"
    by (rule demo_winner[OF assms(3)]) simp
  with n' show ?thesis by (simp add: settle_def bind_act_def return_def)
qed

lemma key_hash_nonempty: "key_hash k \<noteq> []"
proof
  assume "key_hash k = []"
  then have "fromhex [] = Some (replicate 17 (CHR 0x00) @ k)" unfolding key_hash_def by (metis fromhex_tohex)
  then show False by simp
qed

theorem draw_anchored_to_first_witness:
  "\<exists>n :: demo_node. n_draw_closes (fold (sighting (demo_env 0) (JInt 1)) [7, 10, 20] n) = 22
     \<and> n_draw_anchor (fold (sighting (demo_env 0) (JInt 1)) [7, 10, 20] n) = 7"
proof -
  let ?n = "demo_node (from_genesis key_prims) empty_storage"
  have "\<not> draw_is_open ((demo_env 0)\<lparr>e_mono := 7\<rparr>) (JInt 1) ?n" by (simp add: draw_is_open_def demo_node_def)
  moreover have "\<forall>t\<in>set [10, 20]. 7 \<le> t \<and> t < 7 + draw_window_seconds (demo_env 0)"
    by (simp add: draw_window_seconds_def demo_env_def)
  ultimately have "n_draw_closes (fold (sighting (demo_env 0) (JInt 1)) (7 # [10, 20]) ?n) = 7 + draw_window_seconds (demo_env 0)
      \<and> n_draw_anchor (fold (sighting (demo_env 0) (JInt 1)) (7 # [10, 20]) ?n) = 7"
    using draw_anchored_to_first[of 7 "demo_env 0" "JInt 1" ?n "[10, 20]"] by simp
  then show ?thesis by (intro exI[of _ ?n]) (simp add: draw_window_seconds_def demo_env_def)
qed

text \<open>A build of 60 seconds that started 10 seconds ago, and a draw that closes in 15.\<close>

theorem abandons_exactly_when_hopeless_witness:
  "\<exists>n :: demo_node. n_builds n = [60] \<and> should_abandon (demo_env 0) (from_genesis key_prims) [first_block] 90 n = Inr True
     \<and> should_abandon (demo_env 0) (from_genesis key_prims) [] 90 n = Inr False"
proof -
  let ?g = "from_genesis key_prims"
  let ?n = "(demo_node ?g empty_storage)\<lparr>n_builds := [60], n_draw_height := JInt 1, n_draw_closes := 115\<rparr>"
  have p: "own_vdf_median ?n = Inr (Some 60)" by (simp add: own_vdf_median_def median_def)
  have h: "add_int (cs_height ?g) 1 = Inr (JInt 1)"
    by (simp add: cs_height_def from_genesis_def cs_tip_def create_genesis_def Let_def jget_def get_or_def)
  show ?thesis using abandons_exactly_when_hopeless[OF p h, of "demo_env 0"]
    by (intro exI[of _ ?n]) (simp add: demo_env_def)
qed

theorem winner_has_least_key_witness:
  "\<exists>E (n :: demo_node) n' bs s. pick_winner E (from_genesis key_prims) (Some (key_block 1 ''00'' ''22'')) [first_block] n
       = (Inr (Some (first_block, True)), n')
     \<and> valid_peers E (from_genesis key_prims) [first_block] n = (Inr bs, n') \<and> key_of first_block = Inr s \<and> first_block \<in> set bs"
proof -
  let ?g = "from_genesis key_prims" and ?c = "key_block 1 ''00'' ''22''"
  obtain st now n1 where s: "validate_candidate (demo_env now) first_block ?g (demo_node ?g st) = (Inr True, n1)" by (rule demo_fresh)
  have k: "key_of first_block = Inr ''11''" "key_of ?c = Inr ''22''" by (simp_all add: first_block_def key_of_block)
  have "pick_winner (demo_env now) ?g (Some ?c) [first_block] (demo_node ?g st) = (Inr (Some (first_block, True)), n1)"
    by (rule demo_winner[OF s]) simp
  from winner_has_least_key[OF _ _ _ _ this, of "{first_block}"] k obtain bs s where
    "valid_peers (demo_env now) ?g [first_block] (demo_node ?g st) = (Inr bs, n1)" "key_of first_block = Inr s" "first_block \<in> set bs"
    by auto
  with \<open>pick_winner _ _ _ _ _ = _\<close> show ?thesis
    by (intro exI[of _ "demo_env now"] exI[of _ "demo_node ?g st"] exI[of _ n1] exI[of _ bs] exI[of _ s]) (intro conjI)
qed

theorem settled_by_validation_witness:
  "\<exists>E (n :: demo_node) n' now cs'. settle E (n_cs n) None [first_block] n = (Inr True, n')
     \<and> validate_and_apply key_prims now (n_cs n) first_block = Inr (None, cs') \<and> alike_cs (n_cs n') cs'
     \<and> node_ok key_prims (list_lib []) n'"
proof -
  let ?g = "from_genesis key_prims"
  obtain st now n1 probe where s: "node_ok key_prims (list_lib []) (demo_node ?g st)"
    "block_validate key_prims now first_block (cs_state ?g) (cs_chain ?g) = Inr (None, probe)"
    "validate_candidate (demo_env now) first_block ?g (demo_node ?g st) = (Inr True, n1)" by (rule demo_fresh)
  let ?n = "demo_node ?g st"
  have n: "n_cs ?n = ?g" by (simp add: demo_node_def)
  obtain n' where r: "settle (demo_env now) ?g None [first_block] ?n = (Inr True, n')"
    using demo_settles[OF s] by blast
  have "no_twins (e_prims (demo_env now)) {first_block}" by (simp add: no_twins_def)
  from settled_by_validation[of "demo_env now" ?n "{first_block}" "[first_block]" None n', OF _ _ _ _ this] s(1) r n
  obtain t cs' where "validate_and_apply key_prims t ?g first_block = Inr (None, cs')" "alike_cs (n_cs n') cs'"
    "node_ok key_prims (list_lib []) n'" by auto
  with r n show ?thesis by (intro exI[of _ "demo_env now"] exI[of _ ?n] exI[of _ n'] exI[of _ t] exI[of _ cs']) (simp only: simp_thms)
qed

theorem forged_twin_committed_witness:
  "\<exists>E (n :: demo_node) n1 n'. validate_candidate E first_block (n_cs n) n = (Inr True, n1)
     \<and> settle E (n_cs n) None [first_block, steal first_block ''thief'' ''00''] n1 = (Inr True, n')
     \<and> cs_chain (n_cs n') = [create_genesis key_prims, steal first_block ''thief'' ''00'']
     \<and> get_balance (cs_state (n_cs n')) ''thief'' = 291121795"
proof -
  let ?g = "from_genesis key_prims" and ?t = "steal first_block ''thief'' ''00''"
  obtain st now n1 probe where s: "node_ok key_prims (list_lib []) (demo_node ?g st)"
    "block_validate key_prims now first_block (cs_state ?g) (cs_chain ?g) = Inr (None, probe)"
    "validate_candidate (demo_env now) first_block ?g (demo_node ?g st) = (Inr True, n1)" by (rule demo_fresh)
  let ?n = "demo_node ?g st"
  have n: "n_cs ?n = ?g" by (simp add: demo_node_def)
  have k: "key_of first_block = Inr ''11''" "block_hash key_prims first_block \<noteq> []"
    by (simp_all add: first_block_def key_of_block key_block_fields key_hash_nonempty)
  have "apply_transactions key_prims first_block (cs_state ?g) = Inr (None, probe)" using s(2) by (simp add: block_validate_None)
  then have p: "probe = cs_state ?g" by (simp add: first_block_def key_block_fields)
  have f: "block_fees first_block = Inr 0" by (simp add: first_block_def key_block_fields)
  have "\<exists>n' fees. settle (demo_env now) ?g None [first_block, ?t] n1 = (Inr True, n') \<and> block_fees first_block = Inr fees
    \<and> cs_chain (n_cs n') = cs_chain ?g @ [?t] \<and> get_balance (cs_state (n_cs n')) ''thief''
        = get_balance probe ''thief'' + (fees + compute_reward (total_minted (cs_state ?g)))"
    using forged_twin_committed[of "demo_env now" ?n first_block n1 now probe "''11''" "''00''" "''thief''"] s k n by auto
  then obtain n' where r: "settle (demo_env now) ?g None [first_block, ?t] n1 = (Inr True, n')" "cs_chain (n_cs n') = cs_chain ?g @ [?t]"
    "get_balance (cs_state (n_cs n')) ''thief'' = get_balance probe ''thief'' + compute_reward (total_minted (cs_state ?g))"
    using f by auto
  have "get_balance probe ''thief'' = 0" "compute_reward (total_minted (cs_state ?g)) = 291121795"
    unfolding p by (simp_all add: from_genesis_def empty_state_def get_balance_def get_or_def compute_reward_def compute_can_mint_def param_defs)
  with r s(3) n show ?thesis
    by (intro exI[of _ "demo_env now"] exI[of _ ?n] exI[of _ n1] exI[of _ n']) (simp add: from_genesis_def)
qed

end
