(* ===== verification/Inbound.thy ===== *)
theory Inbound
  imports Judge
begin

text \<open>
  \<^verbatim>\<open>src/src/node.py\<close>, what arrives: transactions submitted here or by peers, blocks, the queue they come
  through, and the items this node originated until they are seen to come back. Orders and fills of the
  market are not modelled. A hash that gossip is to remember is a string: another one is only met where a
  verdict was given to a block without a string for a hash, which validation never accepts.
\<close>

section \<open>Originated items\<close>

definition ECHO_BOOTSTRAP_SECONDS :: rat where "ECHO_BOOTSTRAP_SECONDS = 10"
definition ECHO_MIN_SECONDS :: rat where "ECHO_MIN_SECONDS = 2"
definition ECHO_SAMPLES :: nat where "ECHO_SAMPLES = 50"

definition note_echo :: "('c, 'j) env \<Rightarrow> string \<Rightarrow> string \<Rightarrow> ('c, 'j) node \<Rightarrow> ('c, 'j) node" where
  "note_echo E item_hash sender n = (case map_of (n_unconfirmed n) item_hash of
     None \<Rightarrow> n
   | Some entry \<Rightarrow>
       if u_stem entry = Some sender then n
       else (let es = n_echo n @ [e_mono E - u_at entry]
             in n\<lparr>n_unconfirmed := AList.delete item_hash (n_unconfirmed n),
                  n_echo := drop (length es - ECHO_SAMPLES) es\<rparr>))"

text \<open>\<^verbatim>\<open>int(len(ordered) * 0.95)\<close> is \<open>length * 95 div 100\<close> for the lengths that occur, 5 to 50.\<close>

definition echo_deadline_seconds :: "('c, 'j) node \<Rightarrow> rat" where
  "echo_deadline_seconds n =
     (if length (n_echo n) < 5 then ECHO_BOOTSTRAP_SECONDS
      else (let ordered = sort (n_echo n); p95 = ordered ! (length ordered * 95 div 100 - 1)
            in max ECHO_MIN_SECONDS (p95 * 2)))"

definition retry_one :: "('c, 'j) env \<Rightarrow> rat \<Rightarrow> string \<Rightarrow> (('c, 'j) node, unit) act" where
  "retry_one E deadline h = (\<lambda>n. case map_of (n_unconfirmed n) h of
     None \<Rightarrow> (Inl (KeyError h), n)
   | Some u \<Rightarrow>
       if e_mono E - u_at u < deadline then (Inr (), n)
       else (let n' = n\<lparr>n_unconfirmed := AList.delete h (n_unconfirmed n)\<rparr>
             in case force_fluff (gossip_peers E n) (u_item u) (u_kind u) of
                  Inl e \<Rightarrow> (Inl e, n') | Inr sends \<Rightarrow> (Inr (), n'\<lparr>n_sent := n_sent n' @ sends\<rparr>)))"

definition retry_unconfirmed_spreads :: "('c, 'j) env \<Rightarrow> (('c, 'j) node, unit) act" where
  "retry_unconfirmed_spreads E = bind_act get_state (\<lambda>n.
     for_each (retry_one E (echo_deadline_seconds n)) (keys (n_unconfirmed n)))"

definition relay_item :: "('c, 'j) env \<Rightarrow> json \<Rightarrow> string \<Rightarrow> string \<Rightarrow> string \<Rightarrow> bool \<Rightarrow> (('c, 'j) node, bool) act" where
  "relay_item E item kind h sender stemming = (\<lambda>n.
     case relay (e_cache E) (e_pick E) (e_bits E h) (gossip_peers E n) item kind h sender stemming (n_seen n) of
       Inl e \<Rightarrow> (Inl e, n)
     | Inr (public, sends, g) \<Rightarrow> (Inr public, n\<lparr>n_seen := g, n_sent := n_sent n @ sends\<rparr>))"

section \<open>Transactions\<close>

text \<open>The signature cache is transparent and left out, as in the other callers.\<close>

definition validate_for_mempool :: "('c, 'j) env \<Rightarrow> tx \<Rightarrow> ('c, 'j) node \<Rightarrow> tx_error option res" where
  "validate_for_mempool E t n = rbind (probe_state_for (n_mempool n) (jget t ''from'') (cs_state (n_cs n))) (\<lambda>probe.
     tx_validate (e_prims E) (\<lambda>_. None) (ov_get_balance probe) (ov_get_nonce probe) (ov_total_board_posts probe) None t)"

definition log_sender :: "tx \<Rightarrow> unit res" where
  "log_sender t = shorten (get_or t ''from'' (JStr ''?''))"

definition pool_add_tx :: "('c, 'j) env \<Rightarrow> tx \<Rightarrow> (('c, 'j) node, mempool_error + string) act" where
  "pool_add_tx E t = (\<lambda>n. case mp_add (e_prims E) (e_mono E) (n_mempool n) t of (r, m) \<Rightarrow> (Inr r, n\<lparr>n_mempool := m\<rparr>))"

definition submit_tx :: "('c, 'j) env \<Rightarrow> tx \<Rightarrow> (('c, 'j) node, submit_result) act" where
  "submit_tx E t =
     bind_act get_state (\<lambda>n. bind_act (lift_res (validate_for_mempool E t n)) (\<lambda>err. case err of
       Some e \<Rightarrow> bind_act (lift_res (log_sender t)) (\<lambda>_. return (Invalid e))
     | None \<Rightarrow> bind_act (pool_add_tx E t) (\<lambda>r. case r of
         Inl e \<Rightarrow> bind_act (lift_res (log_sender t)) (\<lambda>_. return (NotPooled e))
       | Inr h \<Rightarrow> bind_act (node_spread E (JObj t) KIND_TX h) (\<lambda>_.
           bind_act (lift_res (log_sender t)) (\<lambda>_. return (Submitted h))))))"

definition handle_inbound_tx :: "('c, 'j) env \<Rightarrow> json \<Rightarrow> string \<Rightarrow> bool \<Rightarrow> (('c, 'j) node, unit) act" where
  "handle_inbound_tx E j sender stemming = (case j of
     JObj t \<Rightarrow>
       bind_act (lift_res (log_sender t)) (\<lambda>_.
       (let h = tx_hash (e_prims E) t in
        bind_act get_state (\<lambda>n. bind_act (lift_res (validate_for_mempool E t n)) (\<lambda>err.
          if err \<noteq> None then return ()
          else bind_act (modify (note_echo E h sender)) (\<lambda>_.
            if stemming
            then bind_act (relay_item E j KIND_TX h sender True) (\<lambda>went_public.
                   if \<not> went_public then return () else bind_act (pool_add_tx E t) (\<lambda>_. return ()))
            else bind_act (pool_add_tx E t) (\<lambda>_. bind_act (relay_item E j KIND_TX h sender False) (\<lambda>_. return ())))))))
   | _ \<Rightarrow> lift_res (Inl AttributeError))"

text \<open>A transaction of this node's own: the nonce after everything confirmed and pending.\<close>

definition build_and_sign_tx :: "('c, 'j) env \<Rightarrow> ('c, 'j) node \<Rightarrow> string \<Rightarrow> json list \<Rightarrow> int \<Rightarrow> string \<Rightarrow> string \<Rightarrow> tx \<times> int" where
  "build_and_sign_tx E n pk_hex to_outputs fee sk memo =
     (let committed = get_nonce (cs_state (n_view n)) (e_addr E);
          pending = mp_pending_nonce (n_mempool n) (JStr (e_addr E));
          nonce = max committed pending + 1
      in (create_tx (e_prims E) (e_addr E) pk_hex to_outputs nonce fee sk memo, fee))"

section \<open>Blocks\<close>

definition hash_string :: "json \<Rightarrow> string res" where
  "hash_string j = (case j of JStr s \<Rightarrow> Inr s | _ \<Rightarrow> Inl TypeError)"

definition relay_block :: "('c, 'j) env \<Rightarrow> block \<Rightarrow> string \<Rightarrow> bool \<Rightarrow> (('c, 'j) node, unit) act" where
  "relay_block E blk sender stemming =
     bind_act (lift_res (rbind (read_field ''hash'' blk) hash_string)) (\<lambda>h.
     bind_act (relay_item E (JObj blk) KIND_BLOCK h sender stemming) (\<lambda>_. return ()))"

definition handle_inbound_block :: "('c, 'j) env \<Rightarrow> block \<Rightarrow> string \<Rightarrow> bool \<Rightarrow> (('c, 'j) node, unit) act" where
  "handle_inbound_block E blk sender stemming =
     bind_act get_state (\<lambda>n. (let cs = n_cs n; height = jget blk ''height'' in
       case jint height of
         None \<Rightarrow> return ()
       | Some h \<Rightarrow>
           bind_act (lift_res (rbind (add_int (cs_height cs) 1) (\<lambda>next_height.
             if py_eq height next_height
             then rbind (read_field ''hash'' (cs_tip cs)) (\<lambda>tip_hash. Inr (py_eq (jget blk ''previous_hash'') tip_hash))
             else Inr False))) (\<lambda>extends.
           if extends
           then bind_act (validate_candidate E blk cs) (\<lambda>ok.
             if \<not> ok then return ()
             else bind_act (modify (\<lambda>n. n\<lparr>n_last_block_seen := e_mono E\<rparr>)) (\<lambda>_.
               bind_act (lift_res (rbind (read_field ''hash'' blk) hash_string)) (\<lambda>item_hash.
               bind_act (modify (note_echo E item_hash sender)) (\<lambda>_. relay_block E blk sender stemming))))
           else if py_eq height (cs_height cs)
           then bind_act (lift_res (read_field ''hash'' (cs_tip cs))) (\<lambda>tip_hash.
             if py_eq (jget blk ''hash'') tip_hash then relay_block E blk sender stemming
             else bind_act (reorg_to_sibling E blk cs) (\<lambda>took.
               if took then relay_block E blk sender stemming else return ()))
           else bind_act (lift_res (json_less (cs_height cs) height)) (\<lambda>ahead.
             if ahead \<and> sender \<noteq> []
             then modify (\<lambda>n. if of_int h > n_sync_hint_height n
                              then n\<lparr>n_sync_hint := Some sender, n_sync_hint_height := of_int h\<rparr> else n)
             else return ()))))"

section \<open>The queue\<close>

definition handle :: "('c, 'j) env \<Rightarrow> msg \<Rightarrow> (('c, 'j) node, blocks) act" where
  "handle E m = (case m of
     MsgBlock blk sender stemming \<Rightarrow> bind_act (handle_inbound_block E blk sender stemming) (\<lambda>_. return [blk])
   | MsgSubmit t \<Rightarrow> bind_act (submit_tx E t) (\<lambda>r.
       bind_act (modify (\<lambda>n. n\<lparr>n_replies := n_replies n @ [r]\<rparr>)) (\<lambda>_. return []))
   | MsgTx j sender stemming \<Rightarrow> bind_act (handle_inbound_tx E j sender stemming) (\<lambda>_. return []))"

text \<open>
  Everything that is waiting, or arrives while the loop waits for the first message; a message is taken off
  the queue before it is handled, and when one raises, the blocks collected so far are lost.
\<close>

fun drain :: "('c, 'j) env \<Rightarrow> msg list \<Rightarrow> (('c, 'j) node, blocks) act" where
  "drain E [] = return []"
| "drain E (m # ms) = bind_act (modify (\<lambda>n. n\<lparr>n_queue := ms\<rparr>)) (\<lambda>_. bind_act (handle E m) (\<lambda>b.
     bind_act (drain E ms) (\<lambda>bs. return (b @ bs))))"

definition drain_queue :: "('c, 'j) env \<Rightarrow> (('c, 'j) node, blocks) act" where
  "drain_queue E = bind_act get_state (\<lambda>n. drain E (n_queue n))"

text \<open>\<^verbatim>\<open>_offer\<close> of \<^verbatim>\<open>main.py\<close>: a full queue drops what the network offers.\<close>

definition NET_QUEUE_SIZE :: nat where "NET_QUEUE_SIZE = 10000"

definition offer :: "msg \<Rightarrow> ('c, 'j) node \<Rightarrow> ('c, 'j) node" where
  "offer m n = (if length (n_queue n) \<ge> NET_QUEUE_SIZE then n else n\<lparr>n_queue := n_queue n @ [m]\<rparr>)"

section \<open>What a relay keeps, sends and hides\<close>

lemma note_echo_frame: "n_mempool (note_echo E h s n) = n_mempool n" "n_seen (note_echo E h s n) = n_seen n"
  "n_sent (note_echo E h s n) = n_sent n" "n_pool (note_echo E h s n) = n_pool n" "n_cs (note_echo E h s n) = n_cs n"
  "n_view (note_echo E h s n) = n_view n" "n_storage (note_echo E h s n) = n_storage n" "n_recent (note_echo E h s n) = n_recent n"
  "n_judged (note_echo E h s n) = n_judged n" "n_judged_tip (note_echo E h s n) = n_judged_tip n" "n_queue (note_echo E h s n) = n_queue n"
  by (simp_all add: note_echo_def Let_def split: option.split)

text \<open>C17: A transaction from a peer leaves no trace unless it validates on top of the sender's pending ones. A valid one is
  relayed as gossip decides; one still in its private phase that is handed on privately is not put in the mempool, so
  the mempool does not tell who is on the private path, while one that ends its walk here, or came publicly, is offered to
  the mempool.\<close>

theorem inbound_tx_effect:
  assumes "handle_inbound_tx E (JObj t) sender stemming n = (Inr (), n')"
  shows "if validate_for_mempool E t n = Inr None
    then \<exists>public sends g. relay (e_cache E) (e_pick E) (e_bits E (tx_hash (e_prims E) t)) (gossip_peers E n) (JObj t) KIND_TX
           (tx_hash (e_prims E) t) sender stemming (n_seen n) = Inr (public, sends, g)
         \<and> n_sent n' = n_sent n @ sends \<and> n_seen n' = g
         \<and> n_mempool n' = (if stemming \<and> \<not> public then n_mempool n else snd (mp_add (e_prims E) (e_mono E) (n_mempool n) t))
    else n' = n"
proof -
  let ?h = "tx_hash (e_prims E) t"
  let ?relay = "\<lambda>g. relay (e_cache E) (e_pick E) (e_bits E ?h) (gossip_peers E n) (JObj t) KIND_TX ?h sender stemming g"
  have v: "\<exists>err. validate_for_mempool E t n = Inr err" and log: "log_sender t = Inr ()"
    using assms by (cases "log_sender t"; cases "validate_for_mempool E t n";
        auto simp: handle_inbound_tx_def bind_act_def lift_res_def get_state_def Let_def)+
  then obtain err where err: "validate_for_mempool E t n = Inr err" by blast
  have gp: "gossip_peers E (note_echo E ?h sender n\<lparr>n_mempool := m\<rparr>) = gossip_peers E n"
    "gossip_peers E (note_echo E ?h sender n) = gossip_peers E n" for m
    by (simp_all add: gossip_peers_def note_echo_frame)
  show ?thesis
  proof (cases err)
    case (Some e)
    with assms err log have "n' = n"
      by (simp add: handle_inbound_tx_def bind_act_def lift_res_def get_state_def Let_def return_def)
    with err Some show ?thesis by simp
  next
    case None
    let ?n = "note_echo E ?h sender n"
    let ?m = "snd (mp_add (e_prims E) (e_mono E) (n_mempool n) t)"
    have run: "(if stemming
            then bind_act (relay_item E (JObj t) KIND_TX ?h sender True) (\<lambda>went_public.
                   if \<not> went_public then return () else bind_act (pool_add_tx E t) (\<lambda>_. return ()))
            else bind_act (pool_add_tx E t) (\<lambda>_. bind_act (relay_item E (JObj t) KIND_TX ?h sender False) (\<lambda>_. return ()))) ?n
      = (Inr (), n')"
      using assms err None log
      by (simp add: handle_inbound_tx_def bind_get bind_lift bind_modify Let_def)
    have pa: "pool_add_tx E t k = (Inr (fst (mp_add (e_prims E) (e_mono E) (n_mempool k) t)),
        k\<lparr>n_mempool := snd (mp_add (e_prims E) (e_mono E) (n_mempool k) t)\<rparr>)" for k
      by (simp add: pool_add_tx_def split: prod.split)
    obtain public sends g where r: "?relay (n_seen n) = Inr (public, sends, g)"
      using run by (cases stemming; cases "?relay (n_seen n)")
        (auto simp: bind_act_def relay_item_def pa gp note_echo_frame)
    have "n_sent n' = n_sent n @ sends \<and> n_seen n' = g \<and> n_mempool n' = (if stemming \<and> \<not> public then n_mempool n else ?m)"
    proof (cases stemming)
      case True
      with run r show ?thesis
        by (cases public) (auto simp: bind_act_def relay_item_def pa gp note_echo_frame return_def)
    next
      case False
      with run r show ?thesis by (auto simp: bind_act_def relay_item_def pa gp note_echo_frame return_def)
    qed
    with r err None show ?thesis by simp
  qed
qed


theorem inbound_tx_effect_witness:
  "\<exists>E (n :: demo_node) n'. handle_inbound_tx E (JObj (demo_tx 1 5)) ''p'' False n = (Inr (), n')
     \<and> n_mempool n = empty_mempool \<and> n_mempool n' = snd (mp_add demo_prims 100 empty_mempool (demo_tx 1 5))"
proof -
  let ?E = "(demo_env 0)\<lparr>e_prims := demo_prims\<rparr>"
  let ?n = "demo_node \<lparr>cs_chain = [], cs_state = demo_state, cumulative_iterations = 0\<rparr> empty_storage"
  let ?h = "tx_hash demo_prims (demo_tx 1 5)"
  have "tx_validate demo_prims (\<lambda>_. None) (ov_get_balance (overlay_of demo_state)) (ov_get_nonce (overlay_of demo_state))
      (ov_total_board_posts (overlay_of demo_state)) None (demo_tx 1 5) = Inr None"
    by (rule demo_tx_valid) (simp_all add: ov_get_balance_def ov_get_nonce_def overlay_of_def)
  then have v: "validate_for_mempool ?E (demo_tx 1 5) ?n = Inr None"
    by (simp add: validate_for_mempool_def demo_node_def probe_state_for_def pending_of_def empty_mempool_def mp_all_txs_def demo_env_def)
  have l: "log_sender (demo_tx 1 5) = Inr ()" by (simp add: log_sender_def demo_tx_def get_or_def)
  have rl: "\<exists>n'. relay_item ?E (JObj (demo_tx 1 5)) KIND_TX ?h ''p'' False m = (Inr True, n')"
    if "n_seen m = gossip_init demo_cache" "n_pool m = pool_init None" for m :: demo_node
    using that
    by (simp add: relay_item_def relay_def fluff_def mark_seen_def gossip_init_def SEEN_CACHE_SIZES_def KIND_TX_def
       gossip_peers_def get_all_def pool_init_def demo_env_def)
  let ?m = "(note_echo ?E ?h ''p'' ?n)\<lparr>n_mempool := snd (mp_add demo_prims 100 empty_mempool (demo_tx 1 5))\<rparr>"
  have "n_seen ?m = gossip_init demo_cache" "n_pool ?m = pool_init None" by (simp_all add: note_echo_frame) (simp_all add: demo_node_def)
  from rl[OF this] obtain n' where n': "relay_item ?E (JObj (demo_tx 1 5)) KIND_TX ?h ''p'' False ?m = (Inr True, n')" by blast
  have "n_mempool (note_echo ?E ?h ''p'' ?n) = empty_mempool" by (simp add: note_echo_frame) (simp add: demo_node_def)
  then have p: "pool_add_tx ?E (demo_tx 1 5) (note_echo ?E ?h ''p'' ?n)
      = (Inr (fst (mp_add demo_prims 100 empty_mempool (demo_tx 1 5))), ?m)"
    by (simp add: pool_add_tx_def demo_env_def split: prod.split)
  have e: "e_prims ?E = demo_prims" by simp
  have r: "handle_inbound_tx ?E (JObj (demo_tx 1 5)) ''p'' False ?n = (Inr (), n')"
    using v l by (simp add: handle_inbound_tx_def bind_get bind_lift bind_modify Let_def e bind_Inr[of "pool_add_tx ?E (demo_tx 1 5)", OF p] bind_Inr[of "relay_item ?E (JObj (demo_tx 1 5)) KIND_TX ?h ''p'' False", OF n'] return_def)
  from inbound_tx_effect[OF r] v r show ?thesis
    by (intro exI[of _ ?E] exI[of _ ?n] exI[of _ n']) (auto simp: demo_node_def demo_env_def)
qed


section \<open>A message that raises\<close>

text \<open>A transaction that is no object, or whose \<^verbatim>\<open>from\<close> cannot be sliced.\<close>

definition unreadable :: "json \<Rightarrow> bool" where
  "unreadable j \<longleftrightarrow> (case j of JObj t \<Rightarrow> \<exists>e. log_sender t = Inl e | _ \<Rightarrow> True)"

lemma unreadable_raises: "unreadable j \<Longrightarrow> \<exists>e. handle E (MsgTx j sender stemming) n = (Inl e, n)"
  by (cases j) (auto simp: unreadable_def handle_def handle_inbound_tx_def bind_act_def lift_res_def)

lemma drain_raises:
  assumes "\<And>n. \<exists>e. fst (handle E m n) = Inl e"
  shows "\<exists>e. fst (drain E (pre @ m # post) n) = Inl e"
proof (induction pre arbitrary: n)
  case Nil
  obtain e n' where "handle E m (n\<lparr>n_queue := post\<rparr>) = (Inl e, n')" using assms[of "n\<lparr>n_queue := post\<rparr>"] by (metis prod.collapse)
  then show ?case by (simp add: bind_act_def modify_def)
next
  case (Cons x pre)
  obtain r n1 where h: "handle E x (n\<lparr>n_queue := pre @ m # post\<rparr>) = (r, n1)" by fastforce
  show ?case
  proof (cases r)
    case (Inl e)
    with h show ?thesis by (simp add: bind_act_def modify_def)
  next
    case (Inr b)
    obtain e n2 where "drain E (pre @ m # post) n1 = (Inl e, n2)" using Cons.IH[of n1] by (metis prod.collapse)
    with h Inr show ?thesis by (simp add: bind_act_def modify_def)
  qed
qed

text \<open>One transaction message whose \<^verbatim>\<open>from\<close> is a number, or that is no object, makes the whole drain of the
  queue raise, wherever it stands: the blocks taken off the queue before it are not handed to the cycle. When it is first, it
  is taken off and nothing else happens, so that the next drain goes on behind it.\<close>

theorem malformed_message_aborts:
  assumes "n_queue n = pre @ MsgTx j sender stemming # post" and "unreadable j"
  shows "(\<exists>e. fst (drain_queue E n) = Inl e) \<and> (pre = [] \<longrightarrow> snd (drain_queue E n) = n\<lparr>n_queue := post\<rparr>)"
proof -
  have u: "\<exists>e. fst (handle E (MsgTx j sender stemming) k) = Inl e" for k using unreadable_raises[OF assms(2), of E sender stemming k] by auto
  have d: "drain_queue E n = drain E (pre @ MsgTx j sender stemming # post) n"
    unfolding drain_queue_def bind_get assms(1) ..
  have "snd (drain E (MsgTx j sender stemming # post) n) = n\<lparr>n_queue := post\<rparr>"
    using unreadable_raises[OF assms(2), of E sender stemming "n\<lparr>n_queue := post\<rparr>"] by (auto simp: bind_act_def modify_def)
  with drain_raises[OF u] d show ?thesis by auto
qed

theorem malformed_message_aborts_witness:
  "\<exists>(n :: demo_node) e. n_queue n = [MsgBlock first_block ''p'' False, MsgTx (JObj [(''from'', JInt 1)]) ''q'' False]
     \<and> fst (drain_queue (demo_env 0) n) = Inl e"
proof -
  let ?n = "(demo_node (from_genesis key_prims) empty_storage)\<lparr>n_queue := [MsgBlock first_block ''p'' False, MsgTx (JObj [(''from'', JInt 1)]) ''q'' False]\<rparr>"
  have "n_queue ?n = [MsgBlock first_block ''p'' False] @ MsgTx (JObj [(''from'', JInt 1)]) ''q'' False # []" by simp
  moreover have "unreadable (JObj [(''from'', JInt 1)])" by (simp add: unreadable_def log_sender_def get_or_def)
  ultimately have "(\<exists>e. fst (drain_queue (demo_env 0) ?n) = Inl e)"
    by (rule malformed_message_aborts[THEN conjunct1])
  then show ?thesis by (elim exE) (intro exI[of _ ?n] exI conjI, simp, assumption)
qed

section \<open>A copy of the tip\<close>

definition seen_before :: "'c cache_ops \<Rightarrow> 'c seen \<Rightarrow> string \<Rightarrow> string \<Rightarrow> bool" where
  "seen_before C g kind h \<longleftrightarrow> (case map_of g kind of None \<Rightarrow> False | Some c \<Rightarrow> c_mem C c h)"

text \<open>What a public relay of a block does, and that a second one under the hash does nothing.\<close>

lemma relay_block_public:
  assumes L: "cache_laws (e_cache E)" and g: "gossip_inv (n_seen n)" and h: "map_of blk ''hash'' = Some (JStr s)"
  obtains g' where "relay_block E blk sender False n = (Inr (), n\<lparr>n_seen := g', n_sent := n_sent n @
      (if seen_before (e_cache E) (n_seen n) KIND_BLOCK s \<or> filter (\<lambda>p. p \<noteq> sender) (gossip_peers E n) = [] then []
       else [\<lparr>s_method = SendBlock, s_item = JObj blk, s_peers = filter (\<lambda>p. p \<noteq> sender) (gossip_peers E n), s_stemming = False\<rparr>])\<rparr>)"
    "gossip_inv g'" "seen_before (e_cache E) g' KIND_BLOCK s"
proof -
  let ?C = "e_cache E"
  have k: "known_kind KIND_BLOCK" by (simp add: known_kind_def SEEN_CACHE_SIZES_def)
  from mark_seen_known[OF g k, where C = ?C and h = s] obtain c where c: "map_of (n_seen n) KIND_BLOCK = Some c"
    "mark_seen ?C (n_seen n) s KIND_BLOCK = Inr (c_mem ?C c s, if c_mem ?C c s then n_seen n else AList.update KIND_BLOCK (c_put ?C c s) (n_seen n))" .
  define g' where "g' = (if c_mem ?C c s then n_seen n else AList.update KIND_BLOCK (c_put ?C c s) (n_seen n))"
  have sb: "seen_before ?C (n_seen n) KIND_BLOCK s = c_mem ?C c s" using c(1) by (simp add: seen_before_def)
  have hs: "rbind (read_field ''hash'' blk) hash_string = Inr s" using h by (simp add: read_field_def hash_string_def)
  have "relay_block E blk sender False n = (Inr (), n\<lparr>n_seen := g', n_sent := n_sent n @
      (if seen_before ?C (n_seen n) KIND_BLOCK s \<or> filter (\<lambda>p. p \<noteq> sender) (gossip_peers E n) = [] then []
       else [\<lparr>s_method = SendBlock, s_item = JObj blk, s_peers = filter (\<lambda>p. p \<noteq> sender) (gossip_peers E n), s_stemming = False\<rparr>])\<rparr>)"
    using c(2) unfolding relay_block_def hs bind_lift sb g'_def
    by (simp add: bind_act_def relay_item_def relay_def fluff_def return_def gossip_send_def Let_def)
  moreover have "gossip_inv g'" using mark_seen_inv[OF g c(2)] by (simp add: g'_def)
  moreover have "seen_before ?C g' KIND_BLOCK s"
    using L c(1) by (simp add: g'_def seen_before_def map_of_update_iff cache_laws_def)
  ultimately show thesis by (rule that)
qed

lemma same_height_same_hash:
  assumes "jget blk ''height'' = JInt k" "cs_height (n_cs n) = JInt k" "map_of blk ''hash'' = Some (JStr s)"
    "read_field ''hash'' (cs_tip (n_cs n)) = Inr (JStr s)"
  shows "handle_inbound_block E blk sender stemming n = relay_block E blk sender stemming n"
  using assms by (simp add: handle_inbound_block_def bind_get bind_lift Let_def py_eq_def jget_def get_or_def)

text \<open>A block of the tip's height that claims the tip's hash is relayed without a look at the rest of it. Nothing else is
  done with it; but the flood under that hash is used up, so when the real tip comes it is not passed on.\<close>

theorem forged_tip_copy_relayed:
  assumes "cache_laws (e_cache E)" and "gossip_inv (n_seen n)"
    and "cs_height (n_cs n) = JInt k" and "read_field ''hash'' (cs_tip (n_cs n)) = Inr (JStr s)"
    and "jget blk ''height'' = JInt k" and "map_of blk ''hash'' = Some (JStr s)"
    and "jget tip ''height'' = JInt k" and "map_of tip ''hash'' = Some (JStr s)"
    and "\<not> seen_before (e_cache E) (n_seen n) KIND_BLOCK s" and "filter (\<lambda>p. p \<noteq> sender) (gossip_peers E n) \<noteq> []"
  shows "\<exists>g g'. handle_inbound_block E blk sender False n = (Inr (), n\<lparr>n_seen := g, n_sent := n_sent n @
        [\<lparr>s_method = SendBlock, s_item = JObj blk, s_peers = filter (\<lambda>p. p \<noteq> sender) (gossip_peers E n), s_stemming = False\<rparr>]\<rparr>)
    \<and> handle_inbound_block E tip sender' False (n\<lparr>n_seen := g, n_sent := sent\<rparr>) = (Inr (), n\<lparr>n_seen := g', n_sent := sent\<rparr>)"
proof -
  obtain g where g: "relay_block E blk sender False n = (Inr (), n\<lparr>n_seen := g, n_sent := n_sent n @
        [\<lparr>s_method = SendBlock, s_item = JObj blk, s_peers = filter (\<lambda>p. p \<noteq> sender) (gossip_peers E n), s_stemming = False\<rparr>]\<rparr>)"
    "gossip_inv g" "seen_before (e_cache E) g KIND_BLOCK s"
    by (rule relay_block_public[OF assms(1,2,6), of sender]) (use assms(9,10) in simp)
  let ?n = "n\<lparr>n_seen := g, n_sent := sent\<rparr>"
  have "gossip_inv (n_seen ?n)" using g(2) by simp
  from relay_block_public[OF assms(1) this assms(8), of sender'] obtain g' where
    "relay_block E tip sender' False ?n = (Inr (), n\<lparr>n_seen := g', n_sent := sent\<rparr>)" using g(3) by auto
  with g(1) assms(3-8) show ?thesis by (intro exI[of _ g] exI[of _ g']) (simp add: same_height_same_hash)
qed


theorem forged_tip_copy_relayed_witness:
  "\<exists>(n :: demo_node) g g'. n_sent n = [] \<and> handle_inbound_block (demo_env 0) [(''height'', JInt 1), (''hash'', JStr (key_hash ''11''))] ''q'' False n
       = (Inr (), n\<lparr>n_seen := g, n_sent := [\<lparr>s_method = SendBlock, s_item = JObj [(''height'', JInt 1), (''hash'', JStr (key_hash ''11''))],
           s_peers = [''p''], s_stemming = False\<rparr>]\<rparr>)
     \<and> cs_chain (n_cs n) = [create_genesis key_prims, first_block]
     \<and> handle_inbound_block (demo_env 0) first_block ''r'' False (n\<lparr>n_seen := g, n_sent := []\<rparr>) = (Inr (), n\<lparr>n_seen := g', n_sent := []\<rparr>)"
proof -
  let ?cs = "\<lparr>cs_chain = [create_genesis key_prims, first_block], cs_state = empty_state, cumulative_iterations = 0\<rparr>"
  let ?n = "(demo_node ?cs empty_storage)\<lparr>n_pool := (pool_init None)\<lparr>peers := [(''p'', 0)]\<rparr>\<rparr>"
  let ?f = "[(''height'', JInt 1), (''hash'', JStr (key_hash ''11''))]"
  have g: "gossip_peers (demo_env 0) ?n = [''p'']"
    by (simp add: gossip_peers_def get_all_def pool_init_def cooldown_until_def demo_env_def)
  have c: "cache_laws (e_cache (demo_env 0))" by (auto simp: cache_laws_def demo_cache_def)
  have i: "gossip_inv (n_seen ?n)" "\<not> seen_before (e_cache (demo_env 0)) (n_seen ?n) KIND_BLOCK (key_hash ''11'')"
    by (simp add: demo_node_def gossip_inv_init)
      (simp add: demo_node_def seen_before_def gossip_init_def SEEN_CACHE_SIZES_def demo_cache_def kind_defs)
  have t: "cs_height (n_cs ?n) = JInt 1" "read_field ''hash'' (cs_tip (n_cs ?n)) = Inr (JStr (key_hash ''11''))"
    "jget first_block ''height'' = JInt 1" "map_of first_block ''hash'' = Some (JStr (key_hash ''11''))"
    by (simp_all add: demo_node_def cs_height_def cs_tip_def first_block_def key_block_def read_field_def jget_def get_or_def)
  have b: "jget ?f ''height'' = JInt 1" "map_of ?f ''hash'' = Some (JStr (key_hash ''11''))" by (simp_all add: jget_def get_or_def)
  have s: "n_sent ?n = []" "cs_chain (n_cs ?n) = [create_genesis key_prims, first_block]" by (simp_all add: demo_node_def)
  from forged_tip_copy_relayed[OF c i(1) t(1,2) b t(3,4) i(2), of "''q''" "''r''" "[]"] g s show ?thesis
    by (intro exI[of _ ?n]) simp
qed

end
