(* ===== verification/Cycle.thy ===== *)
theory Cycle
  imports Inbound
begin

text \<open>
  \<^verbatim>\<open>src/src/node.py\<close>, the loop: when to ask a peer for a better chain, the cycle that builds a block for
  the next height while it listens, its variants for a node that does not mine or has no chance, and the
  figures the node reports. Time passes between the ticks of a loop, each of which has an environment of its own
  and the messages that arrived meanwhile; a loop that runs out of ticks is one the node's stop ended.
  \<^verbatim>\<open>self.cs is cs\<close> is rendered as having the same chain: a chain that is adopted differs from the one it replaces.
\<close>

section \<open>Silence and probes\<close>

definition SILENCE_MULTIPLE :: rat where "SILENCE_MULTIPLE = 3"
definition SILENCE_FALLBACK_SECONDS :: rat where "SILENCE_FALLBACK_SECONDS = 600"
definition SYNC_PAGES_PER_PASS :: nat where "SYNC_PAGES_PER_PASS = 2"
definition SYNC_INFO_TIMEOUT_SECONDS :: rat where "SYNC_INFO_TIMEOUT_SECONDS = 2"
definition SYNC_BUDGET_SECONDS :: rat where "SYNC_BUDGET_SECONDS = 20"
definition NO_MINING_POLL_INTERVAL_SECONDS :: rat where "NO_MINING_POLL_INTERVAL_SECONDS = 20"

text \<open>The median interval of the chain, unless there is none or it is zero.\<close>

definition chain_pace :: "blocks \<Rightarrow> rat option res" where
  "chain_pace chain = rbind (block_time_stats chain (length chain - 1)) (\<lambda>stats.
     Inr (case stats of None \<Rightarrow> None | Some (own, med, delta) \<Rightarrow> if med = 0 then None else Some med))"

definition silence_threshold :: "('c, 'j) node \<Rightarrow> rat res" where
  "silence_threshold n = rbind (chain_pace (cs_chain (n_cs n))) (\<lambda>pace.
     Inr (case pace of None \<Rightarrow> SILENCE_FALLBACK_SECONDS | Some m \<Rightarrow> m * SILENCE_MULTIPLE))"

definition probe_spacing :: "('c, 'j) node \<Rightarrow> rat res" where
  "probe_spacing n = rbind (chain_pace (cs_chain (n_cs n))) (\<lambda>pace.
     Inr (case pace of None \<Rightarrow> SILENCE_FALLBACK_SECONDS | Some m \<Rightarrow> m))"

text \<open>The scan of the pool for the active peer with the highest claimed height, the first of equals.\<close>

fun highest_claim :: "string option \<Rightarrow> json \<Rightarrow> (string \<times> bool \<times> json) list \<Rightarrow> string option res" where
  "highest_claim best best_height [] = Inr best"
| "highest_claim best best_height ((addr, active, height) # rows) =
     (if \<not> active \<or> height = JNull then highest_claim best best_height rows
      else rbind (json_less best_height height) (\<lambda>higher.
        if higher then highest_claim (Some addr) height rows else highest_claim best best_height rows))"

definition best_known_peer :: "('c, 'j) env \<Rightarrow> ('c, 'j) node \<Rightarrow> string option res" where
  "best_known_peer E n =
     rbind (highest_claim None (JInt (-1)) (map (\<lambda>(addr, _, active, height, _). (addr, active, height))
              (pool_snapshot (e_mono E) (e_now E) (n_pool n)))) (\<lambda>best.
       Inr (case best of Some b \<Rightarrow> Some b | None \<Rightarrow> random_peer (e_pick E) (e_mono E) (n_pool n)))"

section \<open>Syncing on evidence\<close>

definition note_info :: "('c, 'j) env \<Rightarrow> string \<Rightarrow> json \<Rightarrow> json \<Rightarrow> json \<Rightarrow> (('c, 'j) node, unit) act" where
  "note_info E peer height version tip_hash = (\<lambda>n.
     case update_info (n_pool n) peer height version tip_hash of (r, p) \<Rightarrow> (r, n\<lparr>n_pool := p\<rparr>))"

text \<open>One pass with a peer; the network's clock is the pass's own.\<close>

definition sync_pass :: "('c, 'j) env \<Rightarrow> string \<Rightarrow> (('c, 'j) node, bool) act" where
  "sync_pass E peer = (\<lambda>n.
     case check_and_sync (e_net E) (note_info E) (random_peer (e_pick E) (e_mono E) (n_pool n)) (cs_chain (n_cs n))
            (sync_page_outcome E) (Some peer) SYNC_INFO_TIMEOUT_SECONDS (Some (cumulative_iterations (n_cs n)))
            (Some SYNC_PAGES_PER_PASS) (Some SYNC_BUDGET_SECONDS)
            \<lparr>w_node = n, w_sync = n_syncer n, w_clock = e_mono E, w_asked = 0\<rparr> of
       (r, w) \<Rightarrow> (r, (w_node w)\<lparr>n_syncer := w_sync w\<rparr>))"

text \<open>Whom to ask, when no hint names anybody: None when nothing is due, or nobody is there.\<close>

definition whom_to_ask :: "('c, 'j) env \<Rightarrow> (('c, 'j) node, string option) act" where
  "whom_to_ask E =
     bind_act get_state (\<lambda>n. bind_act (lift_res (silence_threshold n)) (\<lambda>threshold.
       if e_mono E - n_last_block_seen n \<ge> threshold \<and> e_mono E - n_last_silence_poll n \<ge> threshold
       then bind_act (lift_res (best_known_peer E n)) (\<lambda>peer.
              bind_act (modify (\<lambda>n. n\<lparr>n_last_silence_poll := e_mono E\<rparr>)) (\<lambda>_. return peer))
       else bind_act (lift_res (probe_spacing n)) (\<lambda>spacing.
         if e_mono E - n_last_probe n \<ge> spacing
         then bind_act (modify (\<lambda>n. n\<lparr>n_last_probe := e_mono E\<rparr>)) (\<lambda>_.
                return (random_peer (e_pick E) (e_mono E) (n_pool n)))
         else return None)))"

definition ask_peer :: "('c, 'j) env \<Rightarrow> string \<Rightarrow> bool \<Rightarrow> (('c, 'j) node, bool) act" where
  "ask_peer E peer hinted =
     bind_act (sync_pass E peer) (\<lambda>adopted.
     bind_act (if adopted
       then bind_act get_state (\<lambda>n. bind_act (modify (\<lambda>n. n\<lparr>n_sync_hint := Some peer\<rparr>)) (\<lambda>_.
         bind_act (lift_res (rbind (add_int (cs_height (n_cs n)) 1) (\<lambda>h. case jnum h of None \<Rightarrow> Inl TypeError | Some x \<Rightarrow> Inr x))) (\<lambda>x.
         modify (\<lambda>n. n\<lparr>n_sync_hint_height := x\<rparr>))))
       else return ()) (\<lambda>_.
     bind_act (modify (\<lambda>n. if hinted \<and> \<not> adopted \<and> y_conclusive (n_syncer n)
        then n\<lparr>n_pool := strike (e_ip E) (e_mono E) (n_pool n) peer\<rparr> else n)) (\<lambda>_.
     return adopted)))"

definition sync_if_triggered :: "('c, 'j) env \<Rightarrow> (('c, 'j) node, bool) act" where
  "sync_if_triggered E =
     bind_act get_state (\<lambda>n.
     bind_act (modify (\<lambda>n. n\<lparr>n_sync_hint := None, n_sync_hint_height := 0\<rparr>)) (\<lambda>_.
       case n_sync_hint n of
         Some peer \<Rightarrow> ask_peer E peer True
       | None \<Rightarrow> bind_act (whom_to_ask E) (\<lambda>peer. case peer of
           None \<Rightarrow> return False | Some p \<Rightarrow> ask_peer E p False)))"

section \<open>Listening\<close>

text \<open>
  A tick of a loop: when it happens, what arrived while it waited for messages, and whether the
  evaluation had ended by its start.
\<close>

record ('c, 'j) tick =
  t_env :: "('c, 'j) env"
  t_new :: "msg list"
  t_done :: bool

text \<open>What every loop does with its time: retry, drain, consider the blocks.\<close>

definition hear :: "('c, 'j) tick \<Rightarrow> chain_state \<Rightarrow> blocks \<Rightarrow> (('c, 'j) node, blocks) act" where
  "hear t cs acc =
     bind_act (retry_unconfirmed_spreads (t_env t)) (\<lambda>_.
     bind_act (modify (fold offer (t_new t))) (\<lambda>_.
     bind_act (drain_queue (t_env t)) (\<lambda>blks. consider_all (t_env t) cs blks acc)))"

definition moved :: "chain_state \<Rightarrow> ('c, 'j) node \<Rightarrow> bool" where
  "moved cs n \<longleftrightarrow> cs_chain (n_cs n) \<noteq> cs_chain cs"

section \<open>Cycles without an evaluation\<close>

fun paused_loop :: "chain_state \<Rightarrow> rat \<Rightarrow> ('c, 'j) tick list \<Rightarrow> blocks \<Rightarrow> (('c, 'j) node, blocks) act" where
  "paused_loop cs deadline [] acc = return acc"
| "paused_loop cs deadline (t # ts) acc = bind_act get_state (\<lambda>n.
     if moved cs n \<or> e_mono (t_env t) \<ge> deadline then return acc
     else bind_act (hear t cs acc) (\<lambda>acc'. bind_act (sync_if_triggered (t_env t)) (\<lambda>adopted.
       if adopted then return acc' else paused_loop cs deadline ts acc')))"

definition run_cycle_paused :: "('c, 'j) env \<Rightarrow> chain_state \<Rightarrow> blocks \<Rightarrow> ('c, 'j) tick list \<Rightarrow> ('c, 'j) env
    \<Rightarrow> (('c, 'j) node, bool) act" where
  "run_cycle_paused E cs pre ticks E' =
     bind_act (consider_all E cs pre []) (\<lambda>acc.
     bind_act (paused_loop cs (e_mono E + NO_MINING_POLL_INTERVAL_SECONDS) ticks acc) (\<lambda>acc'.
     bind_act get_state (\<lambda>n. if moved cs n then return False else settle E' cs None acc')))"

text \<open>The inner \<^verbatim>\<open>_settle\<close>: whether a peer's block was committed.\<close>

definition settle_heard :: "('c, 'j) env \<Rightarrow> chain_state \<Rightarrow> blocks \<Rightarrow> (('c, 'j) node, bool) act" where
  "settle_heard E cs acc = (if acc = [] then return False else settle E cs None acc)"

fun wait_loop :: "chain_state \<Rightarrow> rat \<Rightarrow> ('c, 'j) tick list \<Rightarrow> blocks \<Rightarrow> (('c, 'j) node, bool) act" where
  "wait_loop cs deadline [] acc = bind_act get_state (\<lambda>n. return (moved cs n))"
| "wait_loop cs deadline (t # ts) acc = bind_act get_state (\<lambda>n.
     if moved cs n \<or> e_mono (t_env t) \<ge> deadline then return (moved cs n)
     else bind_act (hear t cs acc) (\<lambda>acc'. bind_act (settle_heard (t_env t) cs acc') (\<lambda>settled.
       if settled then return True
       else bind_act (sync_if_triggered (t_env t)) (\<lambda>adopted.
         if adopted then return True else wait_loop cs deadline ts acc'))))"

definition wait_for_field :: "('c, 'j) env \<Rightarrow> chain_state \<Rightarrow> blocks \<Rightarrow> ('c, 'j) tick list \<Rightarrow> (('c, 'j) node, bool) act" where
  "wait_for_field E cs pre ticks =
     bind_act (consider_all E cs pre []) (\<lambda>acc.
     bind_act (settle_heard E cs acc) (\<lambda>settled.
       if settled then return True
       else bind_act get_state (\<lambda>n. bind_act (lift_res (own_vdf_median n)) (\<lambda>pace.
         wait_loop cs (e_mono E + (case pace of None \<Rightarrow> 0 | Some m \<Rightarrow> m)) ticks acc))))"

section \<open>Building\<close>

text \<open>The loop around a running evaluation: the candidates heard, and whether the evaluation was cancelled.\<close>

fun build_loop :: "chain_state \<Rightarrow> rat \<Rightarrow> bool \<Rightarrow> ('c, 'j) tick list \<Rightarrow> blocks \<Rightarrow> (('c, 'j) node, blocks \<times> bool) act" where
  "build_loop cs vdf_start cancelled [] acc = return (acc, cancelled)"
| "build_loop cs vdf_start cancelled (t # ts) acc =
     (if t_done t then return (acc, cancelled)
      else bind_act (hear t cs acc) (\<lambda>acc'.
        bind_act (sync_if_triggered (t_env t)) (\<lambda>adopted.
        bind_act get_state (\<lambda>n.
          if moved cs n then return (acc', True)
          else bind_act (lift_res (should_abandon (t_env t) cs acc' vdf_start n)) (\<lambda>hopeless.
            if hopeless then return (acc', True)
            else build_loop cs vdf_start (cancelled \<or> adopted) ts acc')))))"

text \<open>\<^verbatim>\<open>vdf_mod.evaluate\<close> in its thread, when it was not cancelled: a count that is no integer makes it raise.\<close>

definition own_proof :: "prims \<Rightarrow> string \<Rightarrow> json \<Rightarrow> rat \<Rightarrow> (string \<times> string \<times> rat) option res" where
  "own_proof P challenge iterations seconds = (case jint iterations of
     None \<Rightarrow> Inl TypeError
   | Some k \<Rightarrow> Inr (fst (vdf_evaluate P challenge k (Some new_handle) 0 seconds)))"

definition note_build :: "('c, 'j) env \<Rightarrow> rat \<Rightarrow> ('c, 'j) node \<Rightarrow> ('c, 'j) node" where
  "note_build E seconds n =
     (let builds = n_builds n @ [seconds]; kept = drop (length builds - 30) builds
      in n\<lparr>n_builds := kept, n_storage := set_meta ''own_build_seconds'' (e_dumps E kept) (n_storage n)\<rparr>)"

fun hold_loop :: "chain_state \<Rightarrow> rat \<Rightarrow> ('c, 'j) tick list \<Rightarrow> blocks \<Rightarrow> (('c, 'j) node, blocks) act" where
  "hold_loop cs deadline [] acc = return acc"
| "hold_loop cs deadline (t # ts) acc = bind_act get_state (\<lambda>n.
     if moved cs n \<or> deadline - e_mono (t_env t) \<le> 0 then return acc
     else bind_act (hear t cs acc) (hold_loop cs deadline ts))"

definition await_spacing :: "('c, 'j) env \<Rightarrow> chain_state \<Rightarrow> ('c, 'j) tick list \<Rightarrow> blocks \<Rightarrow> (('c, 'j) node, blocks) act" where
  "await_spacing E cs ticks acc =
     bind_act (lift_res (read_num ''timestamp'' (cs_tip cs))) (\<lambda>stamped.
       (let remaining = stamped + MIN_BLOCK_SPACING_SECONDS - e_now E
        in if remaining \<le> 0 then return acc else hold_loop cs (e_mono E + remaining) ticks acc))"

text \<open>Assemble, finish and validate the own candidate; one that validates is spread.\<close>

definition publish_own :: "('c, 'j) env \<Rightarrow> chain_state \<Rightarrow> string \<Rightarrow> string \<Rightarrow> json \<Rightarrow> (('c, 'j) node, block option) act" where
  "publish_own E cs out proof iterations =
     bind_act get_state (\<lambda>n.
     bind_act (lift_res (assemble (e_prims E) (e_now E) (cs_tip cs) (map JObj (mp_all_txs (n_mempool n))) (e_addr E) iterations
                (board_fee_floor (total_board_posts (cs_state cs))))) (\<lambda>c.
       (let candidate = attach_proof (e_prims E) c out proof iterations
        in bind_act (lift_res (block_validate (e_prims E) (e_now E) candidate (snapshot (cs_state cs)) (cs_chain cs))) (\<lambda>(err, _).
           if err \<noteq> None then return None
           else bind_act (lift_res (rbind (read_field ''hash'' candidate) hash_string)) (\<lambda>h.
             bind_act (node_spread E (JObj candidate) KIND_BLOCK h) (\<lambda>_. return (Some candidate)))))))"

text \<open>The last look at the queue and the decision.\<close>

definition decide :: "('c, 'j) env \<Rightarrow> chain_state \<Rightarrow> block \<Rightarrow> msg list \<Rightarrow> blocks \<Rightarrow> (('c, 'j) node, bool) act" where
  "decide E cs candidate late acc =
     bind_act (modify (fold offer late)) (\<lambda>_. bind_act (drain_queue E) (\<lambda>blks. settle E cs (Some candidate) (acc @ blks)))"

text \<open>What a whole cycle takes from outside, stage by stage.\<close>

record ('c, 'j) cycle_io =
  io_start :: "('c, 'j) env"
  io_watch :: "('c, 'j) tick list"
  io_begun :: "('c, 'j) env"
  io_build :: "('c, 'j) tick list"
  io_built :: "('c, 'j) env"
  io_seconds :: rat
  io_hold :: "('c, 'j) tick list"
  io_last :: "('c, 'j) env"
  io_late :: "msg list"

definition after_build :: "('c, 'j) cycle_io \<Rightarrow> chain_state \<Rightarrow> json \<Rightarrow> blocks \<Rightarrow> (string \<times> string \<times> rat) option
    \<Rightarrow> (('c, 'j) node, bool) act" where
  "after_build io cs iterations acc own =
     bind_act (modify (\<lambda>n. case own of None \<Rightarrow> n | Some (_, _, seconds) \<Rightarrow> note_build (io_built io) seconds n)) (\<lambda>_.
     bind_act get_state (\<lambda>n.
       if moved cs n then return False
       else (case own of
         None \<Rightarrow> settle (io_built io) cs None acc
       | Some (out, proof, _) \<Rightarrow>
           bind_act (await_spacing (io_built io) cs (io_hold io) acc) (\<lambda>acc'.
           bind_act get_state (\<lambda>n.
             if moved cs n then return False
             else bind_act (publish_own (io_last io) cs out proof iterations) (\<lambda>candidate. case candidate of
               None \<Rightarrow> return False
             | Some c \<Rightarrow> decide (io_last io) cs c (io_late io) acc'))))))"

definition build :: "('c, 'j) cycle_io \<Rightarrow> chain_state \<Rightarrow> blocks \<Rightarrow> (('c, 'j) node, bool) act" where
  "build io cs pre =
     (let E = io_begun io in
      bind_act (lift_res (get_vdf_iterations (cs_chain cs))) (\<lambda>iterations.
      bind_act (consider_all E cs pre []) (\<lambda>acc.
      bind_act (lift_res (rbind (read_str ''hash'' (cs_tip cs)) (\<lambda>h. vdf_challenge (e_prims E) h (e_addr E)))) (\<lambda>challenge.
      bind_act (build_loop cs (e_mono E) False (io_build io) acc) (\<lambda>(acc', cancelled).
      bind_act (if cancelled then return None else lift_res (own_proof (e_prims E) challenge iterations (io_seconds io))) (\<lambda>own.
        after_build io cs iterations acc' own))))))"

definition odds_are_zero :: "('c, 'j) env \<Rightarrow> chain_state \<Rightarrow> ('c, 'j) node \<Rightarrow> bool res" where
  "odds_are_zero E cs n = rbind (own_vdf_median n) (\<lambda>pace.
     rbind (race_odds (e_draws E) (e_window E) (cs_chain cs) pace (Some (e_addr E)) (Some (e_window E))) (\<lambda>race.
       Inr (case race of None \<Rightarrow> False | Some r \<Rightarrow> r_odds_pct r = Some 0)))"

definition run_cycle :: "('c, 'j) cycle_io \<Rightarrow> (('c, 'j) node, bool) act" where
  "run_cycle io =
     (let E = io_start io in
      bind_act (drain_queue E) (\<lambda>pre.
      bind_act (retry_unconfirmed_spreads E) (\<lambda>_.
      bind_act (sync_if_triggered E) (\<lambda>_.
      bind_act get_state (\<lambda>n. (let cs = n_cs n in
      bind_act (modify (\<lambda>n. n\<lparr>n_mempool := snd (mp_prune_stale (e_mono E) MEMPOOL_TTL_SECONDS (cs_state cs) (n_mempool n))\<rparr>)) (\<lambda>_.
      bind_act (lift_res (rbind (add_int (cs_height cs) 1) (\<lambda>_. short_hash (cs_tip cs)))) (\<lambda>_.
        if \<not> e_mining E then run_cycle_paused E cs pre (io_watch io) (io_begun io)
        else bind_act get_state (\<lambda>n. bind_act (lift_res (odds_are_zero E cs n)) (\<lambda>zero.
          if zero
          then bind_act (wait_for_field E cs pre (io_watch io)) (\<lambda>settled.
                 if settled then return True else build io cs [])
          else build io cs pre))))))))))"

text \<open>Every environment a cycle meets.\<close>

definition io_envs :: "('c, 'j) cycle_io \<Rightarrow> ('c, 'j) env set" where
  "io_envs io = {io_start io, io_begun io, io_built io, io_last io} \<union> t_env ` set (io_watch io @ io_build io @ io_hold io)"

text \<open>The loop of \<^verbatim>\<open>start\<close>: a cycle that raises is logged, and the next one begins; meanwhile the network fills the queue.\<close>

inductive node_run :: "(('c, 'j) env \<Rightarrow> bool) \<Rightarrow> ('c, 'j) node \<Rightarrow> ('c, 'j) node \<Rightarrow> bool" for ok where
  idle: "node_run ok n n"
| cycle: "node_run ok n n' \<Longrightarrow> \<forall>E\<in>io_envs io. ok E \<Longrightarrow> node_run ok n (snd (run_cycle io n'))"
| heard: "node_run ok n n' \<Longrightarrow> node_run ok n (offer m n')"

section \<open>What the node reports\<close>

definition calculate_sync_percent :: "rat \<Rightarrow> rat \<Rightarrow> int" where
  "calculate_sync_percent local_height max_height =
     (if max_height \<le> local_height then 100
      else if max_height - local_height \<le> 3 then 100
      else max 0 (min 99 \<lfloor>100 * local_height / max_height\<rfloor>))"

definition own_block_time_ratio :: "('c, 'j) node \<Rightarrow> rat option res" where
  "own_block_time_ratio n = rbind (own_vdf_median n) (\<lambda>own_median. case own_median of
     None \<Rightarrow> Inr None
   | Some own \<Rightarrow> rbind (chain_pace (cs_chain (n_view n))) (\<lambda>pace. Inr (map_option (\<lambda>m. own / m) pace)))"

text \<open>What \<^verbatim>\<open>get_info\<close> computes; what it only passes on is read from the same places.\<close>

record info_report =
  f_height :: json
  f_sync_percent :: int
  f_sync_target :: rat
  f_mempool_size :: nat
  f_peer_count :: nat
  f_total_minted :: int
  f_burned :: int
  f_circulating :: int
  f_can_mint :: int
  f_block_reward :: int
  f_block_time_ratio :: "rat option"
  f_age :: rat

definition get_info :: "('c, 'j) env \<Rightarrow> ('c, 'j) node \<Rightarrow> info_report res" where
  "get_info E n =
     (let v = n_view n; s = cs_state v in
      rbind (read_num ''timestamp'' (hd (cs_chain v))) (\<lambda>stamped.
      (let age = max 0 (e_now E - stamped);
           target = (if max_height_observed (n_pool n) = 0 then of_int \<lfloor>age / 120\<rfloor> else max_height_observed (n_pool n))
       in rbind (case jnum (cs_height v) of None \<Rightarrow> Inl TypeError | Some h \<Rightarrow> Inr h) (\<lambda>h.
          rbind (own_block_time_ratio n) (\<lambda>ratio.
            Inr \<lparr>f_height = cs_height v, f_sync_percent = calculate_sync_percent h target, f_sync_target = target,
              f_mempool_size = mp_size (n_mempool n), f_peer_count = pool_count (n_pool n), f_total_minted = total_minted s,
              f_burned = get_balance s (burn_address (e_prims E)),
              f_circulating = total_minted s - get_balance s (burn_address (e_prims E)),
              f_can_mint = compute_can_mint (total_minted s), f_block_reward = compute_block_reward s,
              f_block_time_ratio = ratio, f_age = age\<rparr>)))))"

section \<open>What is committed links to the tip it was chosen for\<close>

lemma pick_winner_judging:
  assumes "lru_laws (e_lru E)" "pick_winner E cs candidate blks n = (r, n')"
  shows "judging n n'"
proof -
  have v: "keeps judging (valid_peers E cs bs)" for bs
  proof (induction bs)
    case Nil
    show ?case by (simp add: judge.return)
  next
    case (Cons b bs)
    then show ?case unfolding valid_peers.simps
      by (intro judge.bind judge.cond judge.lift judge.return keeps_judging[OF assms(1)]) 
  qed
  have "keeps judging (pick_winner E cs candidate blks)"
    unfolding pick_winner_def by (intro judge.bind v judge.lift) (auto simp: judge.return judge.lift split: list.split)
  then show ?thesis using assms(2) by (rule keepsD)
qed

lemma commit_chain:
  assumes "commit E blk n = (Inr (), n')"
  shows "cs_chain (n_cs n') = cs_chain (n_cs n) @ [blk]"
proof -
  obtain confirmed where t: "rbind (block_txs blk) (map_res (json_tx_hash (e_prims E))) = Inr confirmed"
    using assms by (cases "rbind (block_txs blk) (map_res (json_tx_hash (e_prims E)))") (simp_all add: commit_def bind_act_def lift_res_def)
  obtain cs' where a: "apply_block (n_cs n) blk = Inr cs'"
    using assms t by (cases "apply_block (n_cs n) blk") (simp_all add: commit_def bind_act_def lift_res_def get_state_def)
  obtain n2 where r: "remember_state cs' (n\<lparr>n_cs := cs'\<rparr>) = Inr n2"
    using assms t a by (cases "remember_state cs' (n\<lparr>n_cs := cs'\<rparr>)") (simp_all add: commit_def bind_act_def lift_res_def get_state_def modify_def)
  obtain st s where v: "save_block_and_state (e_prims E) (e_lib E) (n_storage n2) blk (cs_state (n_cs n2)) = Inr (st, s)"
    using assms t a r by (cases "save_block_and_state (e_prims E) (e_lib E) (n_storage n2) blk (cs_state (n_cs n2))")
      (auto simp: commit_def bind_act_def lift_res_def get_state_def modify_def)
  obtain h where h: "read_field ''height'' blk = Inr h"
    using assms t a r v by (cases "read_field ''height'' blk") (simp_all add: commit_def bind_act_def lift_res_def get_state_def modify_def)
  have "n_cs n' = (n_cs n2)\<lparr>cs_state := s\<rparr>"
    using assms by (auto simp: commit_def bind_act_def lift_res_def get_state_def modify_def t a r v h)
  moreover have "n_cs n2 = cs'" using r by (auto simp: remember_state_def rbind_Inr_conv Let_def)
  moreover have "cs_chain cs' = cs_chain (n_cs n) @ [blk]" using a
    by (auto simp: apply_block_def apply_block_with_state_def rbind_Inr_conv)
  ultimately show ?thesis by simp
qed

lemma linked_peers:
  "valid_peers E cs blks n = (Inr bs, n') \<Longrightarrow> b \<in> set bs \<Longrightarrow>
     \<exists>h. read_field ''hash'' (cs_tip cs) = Inr h \<and> py_eq (jget b ''previous_hash'') h"
proof (induction blks arbitrary: n bs)
  case Nil
  then show ?case by (simp add: return_def)
next
  case (Cons x blks)
  from Cons.prems(1) obtain ok n1 where v: "validate_candidate E x cs n = (Inr ok, n1)"
    and r: "(if \<not> ok then valid_peers E cs blks
     else bind_act (lift_res (log_block x (Inr (get_or x ''transactions'' (JArr []))))) (\<lambda>_.
       bind_act (valid_peers E cs blks) (\<lambda>rest. return (x # rest)))) n1 = (Inr bs, n')"
    unfolding valid_peers.simps bind_act_Inr by blast
  show ?case
  proof (cases ok)
    case False
    with r Cons.IH Cons.prems(2) show ?thesis by simp
  next
    case True
    with r obtain n2 rest where "valid_peers E cs blks n2 = (Inr rest, n')" "bs = x # rest"
      by (auto simp: bind_act_Inr lift_res_def return_def)
    moreover have "\<exists>h. read_field ''hash'' (cs_tip cs) = Inr h \<and> py_eq (jget x ''previous_hash'') h"
      using v True by (cases rule: validate_candidate_cases) auto
    ultimately show ?thesis using Cons.IH Cons.prems(2) by auto
  qed
qed

lemma settle_links:
  assumes L: "lru_laws (e_lru E)" and s: "settle E cs candidate blks n = (Inr True, n')"
  obtains w h where "cs_chain (n_cs n') = cs_chain (n_cs n) @ [w]" "read_field ''hash'' (cs_tip cs) = Inr h"
    "py_eq (jget w ''previous_hash'') h"
proof -
  from s obtain w peer n1 where pw: "pick_winner E cs candidate blks n = (Inr (Some (w, peer)), n1)" and cm: "commit E w n1 = (Inr (), n')"
    by (auto simp: settle_def bind_act_Inr return_def split: option.splits)
  have j: "n_cs n1 = n_cs n" using pick_winner_judging[OF L pw] by (auto simp: judging_def)
  from pw obtain bs own e es key where p: "valid_peers E cs blks n = (Inr bs, n1)"
    "own @ map (\<lambda>b. (b, True)) bs = e # es" "least_entrant e key es = Inr (w, peer)"
    "own = (case candidate of None \<Rightarrow> [] | Some c \<Rightarrow> if py_eq (jget c ''previous_hash'') (projr (read_field ''hash'' (cs_tip cs)))
       then [(c, False)] else [])" by (rule pick_winner_run)
  have "(w, peer) \<in> set (e # es)" by (rule least_entrant_mem[OF p(3)])
  then have w: "(w, peer) \<in> set own \<or> w \<in> set bs" unfolding p(2)[symmetric] by auto
  have "\<exists>h. read_field ''hash'' (cs_tip cs) = Inr h \<and> py_eq (jget w ''previous_hash'') h"
  proof (cases "w \<in> set bs")
    case True
    with linked_peers[OF p(1)] show ?thesis by blast
  next
    case False
    with w p(4) have "candidate = Some w" "py_eq (jget w ''previous_hash'') (projr (read_field ''hash'' (cs_tip cs)))"
      by (auto split: option.splits if_splits)
    moreover have "\<exists>h. read_field ''hash'' (cs_tip cs) = Inr h"
      using pw calculation(1) p(1) by (cases "read_field ''hash'' (cs_tip cs)") (auto simp: pick_winner_def bind_act_def lift_res_def)
    ultimately show ?thesis by auto
  qed
  with commit_chain[OF cm] j that show thesis by auto
qed


lemma py_eq_trans: "py_eq a b \<Longrightarrow> py_eq b c \<Longrightarrow> py_eq a c"
  by (auto simp: py_eq_def split: option.splits)

end
