(* ===== verification/Within.thy ===== *)
theory Within
  imports Cycle
begin

text \<open>
  The limits of a node of \<^verbatim>\<open>src/src/node.py\<close> as an invariant of its run: every act of a cycle, whether it
  returns or raises, keeps the bounds on what the node holds.
\<close>

section \<open>What every message and every cycle respects\<close>

text \<open>The limits of what a node keeps: the pools' own invariants, and the lengths of its windows and of its queue.\<close>

definition within_limits :: "prims \<Rightarrow> ip_lib \<Rightarrow> ('c, 'j) node \<Rightarrow> bool" where
  "within_limits P L n \<longleftrightarrow> mempool_inv P (n_mempool n) \<and> total_bytes (n_mempool n) \<le> MEMPOOL_MAX_BYTES
     \<and> gossip_inv (n_seen n) \<and> pool_inv L (n_pool n) \<and> length (n_builds n) \<le> 30 \<and> length (n_echo n) \<le> ECHO_SAMPLES
     \<and> length (n_recent n) \<le> RECENT_STATE_CACHE_SIZE \<and> length (n_queue n) \<le> NET_QUEUE_SIZE"

definition limited :: "prims \<Rightarrow> ip_lib \<Rightarrow> ('c, 'j) node \<Rightarrow> ('c, 'j) node \<Rightarrow> bool" where
  "limited P L n n' \<longleftrightarrow> (within_limits P L n \<longrightarrow> within_limits P L n')"

interpretation lim: frame "limited P L" for P L
  by unfold_locales (simp_all add: limited_def)

text \<open>The fields the limits speak of, when an act leaves them all alone.\<close>

definition same_stock :: "('c, 'j) node \<Rightarrow> ('c, 'j) node \<Rightarrow> bool" where
  "same_stock n n' \<longleftrightarrow> n_mempool n' = n_mempool n \<and> n_seen n' = n_seen n \<and> n_pool n' = n_pool n \<and> n_builds n' = n_builds n
     \<and> n_echo n' = n_echo n \<and> n_recent n' = n_recent n \<and> n_queue n' = n_queue n"

interpretation stock: frame same_stock
  by unfold_locales (simp_all add: same_stock_def)

lemma stock_limited: "keeps same_stock m \<Longrightarrow> keeps (limited P L) m"
  by (auto simp: keeps_def same_stock_def limited_def within_limits_def)

lemma stock_modify: "(\<And>n. same_stock n (f n)) \<Longrightarrow> keeps same_stock (modify f)"
  by (simp add: keeps_def modify_def)

lemma lim_modify: "(\<And>n. within_limits P L n \<Longrightarrow> within_limits P L (f n)) \<Longrightarrow> keeps (limited P L) (modify f)"
  by (simp add: keeps_def modify_def limited_def)

section \<open>Gossip\<close>

lemma fluff_inv: "fluff C ps item kind h ex g = Inr (ss, g') \<Longrightarrow> gossip_inv g \<Longrightarrow> gossip_inv g'"
  by (auto simp: fluff_def rbind_Inr_conv Let_def split: if_splits prod.splits dest: mark_seen_inv)

lemma forward_inv: "forward C pick bits ps item kind h pre g = Inr (t, ss, g') \<Longrightarrow> gossip_inv g \<Longrightarrow> gossip_inv g'"
  by (auto simp: forward_def rbind_Inr_conv split: option.splits dest: fluff_inv)

lemma relay_inv: "relay C pick bits ps item kind h sender st g = Inr (b, ss, g') \<Longrightarrow> gossip_inv g \<Longrightarrow> gossip_inv g'"
  by (auto simp: relay_def rbind_Inr_conv split: if_splits dest: fluff_inv forward_inv)

lemma lim_spread: "keeps (limited P L) (node_spread E item kind h)"
  unfolding keeps_def limited_def node_spread_def spread_def within_limits_def
  by (auto split: sum.split dest: forward_inv)

lemma lim_relay: "keeps (limited P L) (relay_item E item kind h sender st)"
  unfolding keeps_def limited_def relay_item_def within_limits_def
  by (auto split: sum.split dest: relay_inv)

lemma lim_relay_block: "keeps (limited P L) (relay_block E blk sender st)"
  unfolding relay_block_def by (intro lim.bind lim.lift lim_relay lim.return)

section \<open>The mempool\<close>

lemma mp_add_limits:
  assumes "mempool_inv P m" "total_bytes m \<le> MEMPOOL_MAX_BYTES" "mp_add P now m t = (r, m')"
  shows "mempool_inv P m' \<and> total_bytes m' \<le> MEMPOOL_MAX_BYTES"
  using mp_add_effect[OF assms(1,2), where now = now and t = t] assms(3) by simp

lemma remove_bytes: "mempool_inv P m \<Longrightarrow> total_bytes (mp_remove_many m hs) \<le> total_bytes m"
proof (induction hs arbitrary: m)
  case (Cons h hs)
  have "total_bytes (mp_remove m h) \<le> total_bytes m"
  proof (cases "map_of (pool m) h")
    case (Some e)
    then have "entry_ok P (h, e)" using Cons.prems by (auto simp: mempool_inv_def dest: map_of_SomeD)
    with Some show ?thesis by (simp add: mp_remove_def entry_ok_def tx_size_def)
  qed (simp add: mp_remove_def)
  moreover have "mempool_inv P (mp_remove m h)" using Cons.prems by blast
  ultimately show ?case using Cons.IH by (fastforce simp: mp_remove_many_def)
qed (simp add: mp_remove_many_def)

lemma lim_remove_many: "keeps (limited P L) (modify (\<lambda>n. n\<lparr>n_mempool := mp_remove_many (n_mempool n) (hs n)\<rparr>))"
proof (rule lim_modify)
  fix n :: "('a, 'b) node" assume w: "within_limits P L n"
  then have "mempool_inv P (n_mempool n)" "total_bytes (n_mempool n) \<le> MEMPOOL_MAX_BYTES" by (simp_all add: within_limits_def)
  from mp_remove_many_inv[OF this(1)] order.trans[OF remove_bytes[OF this(1)] this(2)] w
  show "within_limits P L (n\<lparr>n_mempool := mp_remove_many (n_mempool n) (hs n)\<rparr>)" by (simp add: within_limits_def)
qed

lemma limits_added:
  assumes "within_limits (e_prims E) L n" "mp_add (e_prims E) now (n_mempool n) t = (r, m)"
  shows "within_limits (e_prims E) L (n\<lparr>n_mempool := m\<rparr>)"
  using assms(1) mp_add_limits[OF _ _ assms(2)] by (simp add: within_limits_def)

lemma lim_pool_add: "keeps (limited (e_prims E) L) (pool_add_tx E t)"
  unfolding keeps_def limited_def pool_add_tx_def by (auto split: prod.split dest: limits_added)

lemma lim_readd: "keeps (limited (e_prims E) L) (readd_tx E ex s j)"
proof (cases j)
  case (JObj t)
  have "within_limits (e_prims E) L (snd (case mp_add (e_prims E) (e_mono E) (n_mempool n) t of
        (Inl _, m) \<Rightarrow> (Inr (), n\<lparr>n_mempool := m\<rparr>)
      | (Inr _, m) \<Rightarrow> node_spread E j KIND_TX (tx_hash (e_prims E) t) (n\<lparr>n_mempool := m\<rparr>)))"
    if w: "within_limits (e_prims E) L n" for n :: "('a, 'b) node"
  proof -
    obtain r m where m: "mp_add (e_prims E) (e_mono E) (n_mempool n) t = (r, m)" by fastforce
    have w1: "within_limits (e_prims E) L (n\<lparr>n_mempool := m\<rparr>)" by (rule limits_added[OF w m])
    moreover have "within_limits (e_prims E) L (snd (node_spread E j KIND_TX h (n\<lparr>n_mempool := m\<rparr>)))" for h
      using lim_spread w1 unfolding keeps_def limited_def by blast
    ultimately show ?thesis unfolding m by (cases r) simp_all
  qed
  then have "keeps (limited (e_prims E) L) (\<lambda>n. case mp_add (e_prims E) (e_mono E) (n_mempool n) t of
        (Inl _, m) \<Rightarrow> (Inr (), n\<lparr>n_mempool := m\<rparr>)
      | (Inr _, m) \<Rightarrow> node_spread E j KIND_TX (tx_hash (e_prims E) t) (n\<lparr>n_mempool := m\<rparr>))"
    unfolding keeps_def limited_def by blast
  then show ?thesis unfolding readd_tx_def JObj by (auto intro!: lim.bind lim.return lim.lift)
qed (simp_all add: readd_tx_def lim.lift)

lemma lim_readds: "keeps (limited (e_prims E) L) (readd_valid_txs E txs ex s)"
  unfolding readd_valid_txs_def by (rule lim.for_each) (rule lim_readd)

lemma lim_reorg_mempool: "keeps (limited (e_prims E) L) (reorg_mempool E f old new s)"
  unfolding reorg_mempool_def by (intro lim.bind lim.lift lim_readds lim_remove_many)

lemma lim_salvage: "keeps (limited (e_prims E) L) (salvage_fork_txs E f tail)"
proof -
  have "keeps (limited (e_prims E) L) (bind_act (lift_res r) (\<lambda>confirmed. bind_act (lift_res q) (\<lambda>txs. readd_valid_txs E txs confirmed s)))" for r q s
    by (intro lim.bind lim.lift lim_readds)
  then show ?thesis unfolding salvage_fork_txs_def keeps_def by blast
qed

section \<open>Adopting and judging\<close>

lemma remember_recent:
  assumes "remember_state cs n = Inr n'"
  shows "\<exists>d. n' = n\<lparr>n_recent := d\<rparr> \<and> length d \<le> RECENT_STATE_CACHE_SIZE"
proof -
  from assms obtain d where "n' = n\<lparr>n_recent := drop (length d - RECENT_STATE_CACHE_SIZE) d\<rparr>"
    unfolding remember_state_def rbind_Inr_conv Let_def by blast
  then show ?thesis by (intro exI[of _ "drop (length d - RECENT_STATE_CACHE_SIZE) d"]) simp
qed

lemma lim_adopt: "keeps (limited (e_prims E) L) (apply_better_chain E remote)"
  unfolding keeps_def limited_def
proof (intro allI impI)
  fix n :: "('a, 'b) node" assume w: "within_limits (e_prims E) L n"
  let ?W = "within_limits (e_prims E) L"
  show "?W (snd (apply_better_chain E remote n))"
  proof (cases "evaluate_remote_chain (e_prims E) (e_now E) n remote")
    case (Inl e)
    with w show ?thesis by (simp add: apply_better_chain_def)
  next
    case (Inr ev)
    show ?thesis
    proof (cases ev)
      case (Rejected e)
      with w Inr show ?thesis by (simp add: apply_better_chain_def)
    next
      case (NoBetter f tail)
      have "keeps (limited (e_prims E) L) (bind_act (if tail \<noteq> [] then salvage_fork_txs E f tail else return ()) (\<lambda>_. return (Some NotBetter)))"
        by (intro lim.bind lim.cond lim_salvage lim.return)
      with w Inr NoBetter show ?thesis by (simp add: apply_better_chain_def keeps_def limited_def)
    next
      case (Better f tail cs')
      show ?thesis
      proof (cases "replace_chain_and_state (e_prims E) (e_lib E) (n_storage n) f tail (cs_state cs')")
        case (Inl e)
        with w Inr Better show ?thesis by (simp add: apply_better_chain_def)
      next
        case (Inr p)
        obtain st s where p: "p = (st, s)" by fastforce
        let ?cs = "cs'\<lparr>cs_state := s\<rparr>"
        define n1 where "n1 = (forget_states_from f (n\<lparr>n_storage := st\<rparr>))\<lparr>n_cs := ?cs\<rparr>"
        have l: "length (filter Q xs) \<le> k" if "length xs \<le> k" for Q :: "rat \<times> state \<times> rat \<Rightarrow> bool" and xs k
          using that le_trans[OF length_filter_le] by blast
        have w1: "?W n1" using w l by (simp add: n1_def within_limits_def forget_states_from_def)
        show ?thesis
        proof (cases "remember_state ?cs n1")
          case (Inl e)
          with w1 \<open>evaluate_remote_chain _ _ _ _ = Inr ev\<close> Better Inr p show ?thesis
            by (simp add: apply_better_chain_def n1_def Let_def)
        next
          case r: (Inr n2)
          from remember_recent[OF r] w1 have "?W (n2\<lparr>n_view := ?cs\<rparr>)" by (auto simp: within_limits_def)
          moreover obtain x n3 where n3: "reorg_mempool E f (cs_chain (n_cs n)) remote s (n2\<lparr>n_view := ?cs\<rparr>) = (x, n3)" by fastforce
          ultimately have "?W n3" using keepsD[OF lim_reorg_mempool n3] by (simp add: limited_def)
          then have "?W (n3\<lparr>n_storage := st'\<rparr>)" for st' by (simp add: within_limits_def)
          with \<open>?W n3\<close> \<open>evaluate_remote_chain _ _ _ _ = Inr ev\<close> Better Inr p r n3 show ?thesis
            by (simp add: apply_better_chain_def n1_def Let_def)
        qed
      qed
    qed
  qed
qed

lemma lim_page: "keeps (limited (e_prims E) L) (sync_page_outcome E chain)"
  unfolding sync_page_outcome_def by (intro lim.bind lim_adopt lim.return)

lemma stock_judged_cache: "keeps same_stock (judged_cache E cs)"
  unfolding judged_cache_def by (intro stock.bind stock.lift stock_modify) (simp add: same_stock_def)

lemma stock_validate: "keeps same_stock (validate_candidate E blk cs)"
proof -
  have j: "keeps same_stock (judged E blk cs)"
    unfolding judged_def by (intro stock.bind stock_judged_cache) (auto simp: keeps_def same_stock_def split: prod.split)
  have r: "keeps same_stock (remember_judgement E blk cs v)" for v
    unfolding remember_judgement_def Let_def
    by (intro stock.cond stock.bind stock_judged_cache stock_modify stock.return) (simp add: same_stock_def)
  show ?thesis unfolding validate_candidate_def
    by (intro stock.bind stock.lift stock.cond stock.return stock.opt stock.pair j r)
qed

lemma stock_draw: "keeps same_stock (modify (open_draw E h))"
  by (rule stock_modify) (simp add: open_draw_def same_stock_def)

lemma stock_consider: "keeps same_stock (consider_all E cs blks acc)"
  by (induction blks arbitrary: acc)
    (auto simp: consider_inbound_block_def intro!: stock.bind stock.lift stock.cond stock.return stock_validate stock_draw)

lemma stock_valid_peers: "keeps same_stock (valid_peers E cs blks)"
  by (induction blks) (auto intro!: stock.bind stock.lift stock.cond stock.return stock_validate)

lemma stock_pick: "keeps same_stock (pick_winner E cs c blks)"
proof -
  have "keeps same_stock (case xs of [] \<Rightarrow> return None | e # es \<Rightarrow> lift_res (g e es))" for xs :: "'x list" and g
    by (cases xs) (simp_all add: stock.return stock.lift)
  then show ?thesis unfolding pick_winner_def by (intro stock.bind stock.lift stock_valid_peers)
qed

lemma lim_commit: "keeps (limited P L) (commit E blk)"
proof -
  have m: "keeps (limited P L) (modify (\<lambda>n. n\<lparr>n_cs := cs\<rparr>))" for cs
    by (intro stock_limited stock_modify) (simp add: same_stock_def)
  have r: "keeps (limited P L) (\<lambda>n. case remember_state cs n of Inl e \<Rightarrow> (Inl e, n) | Inr n' \<Rightarrow> (Inr (), n'))" for cs
    unfolding keeps_def limited_def by (auto simp: within_limits_def split: sum.split dest!: remember_recent)
  have s: "keeps (limited P L) (\<lambda>n. case save_block_and_state (e_prims E) (e_lib E) (n_storage n) blk (cs_state (n_cs n)) of
                 Inl e \<Rightarrow> (Inl e, n)
               | Inr (st, s) \<Rightarrow> (Inr (), n\<lparr>n_storage := st, n_cs := (n_cs n)\<lparr>cs_state := s\<rparr>\<rparr>))"
    by (rule stock_limited) (auto simp: keeps_def same_stock_def split: sum.split prod.split)
  have v: "keeps (limited P L) (modify (\<lambda>n. n\<lparr>n_view := n_cs n\<rparr>))"
    by (intro stock_limited stock_modify) (simp add: same_stock_def)
  show ?thesis unfolding commit_def
    by (intro lim.bind lim.lift lim.get m r s v lim_remove_many stock_limited[OF stock_draw])
qed

lemma lim_settle: "keeps (limited P L) (settle E cs c blks)"
  unfolding settle_def by (intro lim.bind stock_limited[OF stock_pick] lim.opt lim.pair lim.return lim_commit)

lemma lim_sibling: "keeps (limited (e_prims E) L) (reorg_to_sibling E blk cs)"
  unfolding reorg_to_sibling_def by (intro lim.bind lim.get lim.lift lim.cond lim.return lim_adopt)


section \<open>Messages\<close>

lemma lim_echo: "keeps (limited P L) (modify (note_echo E h sender))"
  by (rule lim_modify) (auto simp: within_limits_def note_echo_def Let_def split: option.split)

lemma lim_retry: "keeps (limited P L) (retry_unconfirmed_spreads E)"
proof -
  have "keeps same_stock (retry_one E d h)" for d h
    unfolding keeps_def by (auto simp: retry_one_def same_stock_def Let_def split: option.split sum.split)
  then show ?thesis unfolding retry_unconfirmed_spreads_def
    by (intro lim.bind lim.get lim.for_each stock_limited)
qed

lemma lim_submit: "keeps (limited (e_prims E) L) (submit_tx E t)"
proof -
  have "keeps (limited (e_prims E) L) (case r of
         Inl e \<Rightarrow> bind_act (lift_res (log_sender t)) (\<lambda>_. return (NotPooled e))
       | Inr h \<Rightarrow> bind_act (node_spread E (JObj t) KIND_TX h) (\<lambda>_.
           bind_act (lift_res (log_sender t)) (\<lambda>_. return (Submitted h))))" for r
    by (cases r) (auto intro!: lim.bind lim.lift lim.return lim_spread)
  then show ?thesis unfolding submit_tx_def
    by (intro lim.bind lim.get lim.lift lim.opt lim.return lim_pool_add)
qed

lemma lim_inbound_tx: "keeps (limited (e_prims E) L) (handle_inbound_tx E j sender st)"
proof (cases j)
  case (JObj t)
  then show ?thesis unfolding handle_inbound_tx_def
    by (auto simp: Let_def intro!: lim.bind lim.get lim.lift lim.return lim_echo lim_relay lim_pool_add)
qed (simp_all add: handle_inbound_tx_def lim.lift)

lemma lim_inbound_block: "keeps (limited (e_prims E) L) (handle_inbound_block E blk sender st)"
proof -
  have s: "keeps (limited P L) (modify (\<lambda>n. n\<lparr>n_last_block_seen := e_mono E\<rparr>))" for P
    by (intro stock_limited stock_modify) (simp add: same_stock_def)
  have h: "keeps (limited P L) (modify (\<lambda>n. if of_int h > n_sync_hint_height n
                              then n\<lparr>n_sync_hint := Some sender, n_sync_hint_height := of_int h\<rparr> else n))" for P h
    by (intro stock_limited stock_modify) (simp add: same_stock_def)
  show ?thesis unfolding handle_inbound_block_def Let_def
    by (intro lim.bind lim.get lim.opt lim.cond lim.return lim.lift lim_relay_block lim_sibling lim_echo s h stock_limited[OF stock_validate])
qed

lemma lim_handle: "keeps (limited (e_prims E) L) (handle E m)"
proof -
  have r: "keeps (limited P L) (modify (\<lambda>n. n\<lparr>n_replies := n_replies n @ [r]\<rparr>))" for P r
    by (intro stock_limited stock_modify) (simp add: same_stock_def)
  show ?thesis unfolding handle_def
    by (cases m) (auto intro!: lim.bind lim.return lim_inbound_block lim_submit lim_inbound_tx r)
qed

lemma lim_drain: "length ms \<le> NET_QUEUE_SIZE \<Longrightarrow> keeps (limited (e_prims E) L) (drain E ms)"
proof (induction ms)
  case (Cons m ms)
  have "keeps (limited (e_prims E) L) (modify (\<lambda>n. n\<lparr>n_queue := ms\<rparr>))"
    by (rule lim_modify) (use Cons.prems in \<open>simp add: within_limits_def\<close>)
  with Cons show ?case by (auto intro!: lim.bind lim_handle lim.return)
qed (simp add: lim.return)

lemma lim_drain_queue: "keeps (limited (e_prims E) L) (drain_queue E)"
  unfolding keeps_def
proof
  fix n :: "('a, 'b) node"
  show "limited (e_prims E) L n (snd (drain_queue E n))"
    using lim_drain[of "n_queue n" E L] by (auto simp: drain_queue_def bind_get limited_def within_limits_def keeps_def)
qed

lemma lim_offer: "keeps (limited P L) (modify (fold offer ms))"
proof (rule lim_modify)
  show "within_limits P L n \<Longrightarrow> within_limits P L (fold offer ms n)" for n :: "('a, 'b) node"
    by (induction ms arbitrary: n) (auto simp: offer_def within_limits_def)
qed

section \<open>A whole cycle\<close>

lemma lim_note_info: "within_limits P L n \<Longrightarrow> within_limits P L (snd (note_info E who h v t n))"
proof -
  assume w: "within_limits P L n"
  then have "pool_inv L (snd (update_info (n_pool n) who h v t))" using pool_operations_inv by (auto simp: within_limits_def)
  moreover obtain r p where "update_info (n_pool n) who h v t = (r, p)" by fastforce
  ultimately show "within_limits P L (snd (note_info E who h v t n))" using w by (simp add: note_info_def within_limits_def)
qed

lemma lim_pass: "keeps (limited (e_prims E) L) (sync_pass E peer)"
  unfolding keeps_def limited_def
proof (intro allI impI)
  fix n :: "('a, 'b) node" assume w: "within_limits (e_prims E) L n"
  have f: "within_limits (e_prims E) L n \<Longrightarrow> within_limits (e_prims E) L (snd (sync_page_outcome E c n))" for c n
    using lim_page unfolding keeps_def limited_def by blast
  let ?w = "\<lparr>w_node = n, w_sync = n_syncer n, w_clock = e_mono E, w_asked = 0\<rparr>"
  obtain r w' where r: "check_and_sync (e_net E) (note_info E) (random_peer (e_pick E) (e_mono E) (n_pool n)) (cs_chain (n_cs n))
      (sync_page_outcome E) (Some peer) SYNC_INFO_TIMEOUT_SECONDS (Some (cumulative_iterations (n_cs n)))
      (Some SYNC_PAGES_PER_PASS) (Some SYNC_BUDGET_SECONDS) ?w = (r, w')" by fastforce
  have "within_limits (e_prims E) L (w_node w')"
    using pass_keeps[where I = "within_limits (e_prims E) L" and f = "sync_page_outcome E" and note_info = "note_info E"
        and w = ?w, OF f lim_note_info] w r by (metis snd_conv world.select_convs(1))
  then show "within_limits (e_prims E) L (snd (sync_pass E peer n))"
    unfolding sync_pass_def r by (simp add: within_limits_def)
qed

lemma lim_ask: "e_ip E = L \<Longrightarrow> keeps (limited (e_prims E) L) (ask_peer E peer hinted)"
proof -
  assume L: "e_ip E = L"
  have h: "keeps (limited P L) (modify (\<lambda>n. n\<lparr>n_sync_hint := x\<rparr>))" "keeps (limited P L) (modify (\<lambda>n. n\<lparr>n_sync_hint_height := y\<rparr>))" for P x y
    by (intro stock_limited stock_modify; simp add: same_stock_def)+
  have s: "keeps (limited P L) (modify (\<lambda>n. if hinted \<and> \<not> adopted \<and> y_conclusive (n_syncer n)
        then n\<lparr>n_pool := strike (e_ip E) (e_mono E) (n_pool n) peer\<rparr> else n))" for P adopted
    by (rule lim_modify) (simp add: within_limits_def L pool_operations_inv)
  show ?thesis unfolding ask_peer_def by (intro lim.bind lim.get lim.cond lim.return lim.lift lim_pass h s)
qed

lemma lim_whom: "keeps (limited P L) (whom_to_ask E)"
proof -
  have m: "keeps same_stock (modify (\<lambda>n. n\<lparr>n_last_silence_poll := e_mono E\<rparr>))" "keeps same_stock (modify (\<lambda>n. n\<lparr>n_last_probe := e_mono E\<rparr>))"
    by (intro stock_modify; simp add: same_stock_def)+
  show ?thesis unfolding whom_to_ask_def
    by (intro stock_limited stock.bind stock.get stock.lift stock.cond stock.return m)
qed

lemma lim_sync: "e_ip E = L \<Longrightarrow> keeps (limited (e_prims E) L) (sync_if_triggered E)"
proof -
  assume L: "e_ip E = L"
  have m: "keeps (limited P L) (modify (\<lambda>n. n\<lparr>n_sync_hint := None, n_sync_hint_height := 0\<rparr>))" for P
    by (intro stock_limited stock_modify) (simp add: same_stock_def)
  show ?thesis unfolding sync_if_triggered_def
    by (intro lim.bind lim.get lim.opt lim.return lim_ask[OF L] lim_whom m)
qed

lemma lim_hear: "keeps (limited (e_prims (t_env t)) L) (hear t cs acc)"
  unfolding hear_def by (intro lim.bind lim_retry lim_offer lim_drain_queue stock_limited[OF stock_consider])

text \<open>The environments that share the library and the addresses.\<close>

abbreviation same_host :: "prims \<Rightarrow> ip_lib \<Rightarrow> ('c, 'j) env \<Rightarrow> bool" where
  "same_host P L E \<equiv> e_prims E = P \<and> e_ip E = L"

lemma lim_settle_heard: "keeps (limited P L) (settle_heard E cs acc)"
  unfolding settle_heard_def by (intro lim.cond lim.return lim_settle)

lemma lim_paused_loop: "\<forall>t\<in>set ts. same_host P L (t_env t) \<Longrightarrow> keeps (limited P L) (paused_loop cs d ts acc)"
proof (induction ts arbitrary: acc)
  case (Cons t ts)
  then show ?case using lim_hear[of t L cs acc] lim_sync[of "t_env t" L] 
    by (auto intro!: lim.bind lim.get lim.cond lim.return)
qed (simp add: lim.return)

lemma lim_wait_loop: "\<forall>t\<in>set ts. same_host P L (t_env t) \<Longrightarrow> keeps (limited P L) (wait_loop cs d ts acc)"
proof (induction ts arbitrary: acc)
  case (Cons t ts)
  then show ?case using lim_hear[of t L cs acc] lim_sync[of "t_env t" L] 
    by (auto intro!: lim.bind lim.get lim.cond lim.return lim_settle_heard)
qed (simp add: lim.return lim.bind lim.get)

lemma lim_build_loop: "\<forall>t\<in>set ts. same_host P L (t_env t) \<Longrightarrow> keeps (limited P L) (build_loop cs s c ts acc)"
proof (induction ts arbitrary: acc c)
  case (Cons t ts)
  then show ?case using lim_hear[of t L cs acc] lim_sync[of "t_env t" L] 
    by (auto intro!: lim.bind lim.get lim.cond lim.return lim.lift)
qed (simp add: lim.return)

lemma lim_hold_loop: "\<forall>t\<in>set ts. same_host P L (t_env t) \<Longrightarrow> keeps (limited P L) (hold_loop cs d ts acc)"
proof (induction ts arbitrary: acc)
  case (Cons t ts)
  then show ?case using lim_hear[of t L cs acc]
    by (auto intro!: lim.bind lim.get lim.cond lim.return)
qed (simp add: lim.return)

lemma lim_note_build: "within_limits P L n \<Longrightarrow> within_limits P L (note_build E s n)"
  by (simp add: note_build_def within_limits_def Let_def)

lemma lim_publish: "keeps (limited P L) (publish_own E cs out proof its)"
  unfolding publish_own_def Let_def by (intro lim.bind lim.get lim.lift lim.pair lim.cond lim.return lim_spread)

lemma lim_decide: "keeps (limited (e_prims E) L) (decide E cs c late acc)"
  unfolding decide_def by (intro lim.bind lim_offer lim_drain_queue lim_settle)

lemma lim_await: "\<forall>t\<in>set ts. same_host P L (t_env t) \<Longrightarrow> keeps (limited P L) (await_spacing E cs ts acc)"
  unfolding await_spacing_def Let_def by (intro lim.bind lim.lift lim.cond lim.return lim_hold_loop)

lemma lim_paused:
  assumes "\<forall>t\<in>set ts. same_host P L (t_env t)"
  shows "keeps (limited P L) (run_cycle_paused E cs pre ts E')"
  unfolding run_cycle_paused_def
  by (intro lim.bind lim.get lim.cond lim.return lim_settle lim_paused_loop[OF assms] stock_limited[OF stock_consider])

lemma lim_wait:
  assumes "\<forall>t\<in>set ts. same_host P L (t_env t)"
  shows "keeps (limited P L) (wait_for_field E cs pre ts)"
  unfolding wait_for_field_def
  by (intro lim.bind lim.get lim.lift lim.cond lim.return lim_settle_heard lim_wait_loop[OF assms] stock_limited[OF stock_consider])

lemma io_envsD:
  assumes "\<forall>E\<in>io_envs io. same_host P L E"
  shows "e_prims (io_start io) = P" "e_ip (io_start io) = L" "e_prims (io_last io) = P"
    "\<forall>t\<in>set (io_watch io). same_host P L (t_env t)" "\<forall>t\<in>set (io_build io). same_host P L (t_env t)"
    "\<forall>t\<in>set (io_hold io). same_host P L (t_env t)"
  using assms by (auto simp: io_envs_def)

lemma lim_after_build:
  assumes "\<forall>E\<in>io_envs io. same_host P L E"
  shows "keeps (limited P L) (after_build io cs its acc own)"
proof -
  note e = io_envsD[OF assms]
  have b: "keeps (limited P L) (modify (\<lambda>n. case own of None \<Rightarrow> n | Some (_, _, s) \<Rightarrow> note_build (io_built io) s n))"
    by (rule lim_modify) (simp add: lim_note_build split: option.split prod.split)
  have d: "keeps (limited P L) (decide (io_last io) cs c (io_late io) acc')" for c acc'
    using lim_decide[of "io_last io" L] e(3) by simp
  show ?thesis unfolding after_build_def
    by (intro lim.bind lim.get lim.cond lim.return lim.opt lim.pair lim_settle lim_await lim_publish b d e(6))
qed

lemma lim_build:
  assumes "\<forall>E\<in>io_envs io. same_host P L E"
  shows "keeps (limited P L) (build io cs pre)"
  unfolding build_def Let_def
  by (intro lim.bind lim.lift lim.pair lim.cond lim.return stock_limited[OF stock_consider] lim_build_loop[OF io_envsD(5)[OF assms]]
      lim_after_build[OF assms])

lemma lim_cycle:
  assumes "\<forall>E\<in>io_envs io. same_host P L E"
  shows "keeps (limited P L) (run_cycle io)"
proof -
  note e = io_envsD[OF assms]
  have s: "keeps (limited P L) (sync_if_triggered (io_start io))" using lim_sync[of "io_start io" L] e(1,2) by simp
  have d: "keeps (limited P L) (drain_queue (io_start io))" using lim_drain_queue[of "io_start io" L] e(1) by simp
  have p: "keeps (limited P L) (modify (\<lambda>n. n\<lparr>n_mempool := snd (mp_prune_stale t ttl s (n_mempool n))\<rparr>))" for t ttl s
    unfolding mp_prune_stale_def Let_def snd_conv by (rule lim_remove_many)
  show ?thesis unfolding run_cycle_def Let_def
    by (intro lim.bind lim.get lim.lift lim.cond lim.return lim_retry s d p lim_paused[OF e(4)] lim_wait[OF e(4)] lim_build[OF assms])
qed


lemma demo_within: "within_limits key_prims no_ips (demo_node cs st)"
  unfolding within_limits_def
  by (intro conjI) (simp_all add: demo_node_def gossip_inv_init pool_init_inv empty_mempool_def mempool_inv_def
      MEMPOOL_MAX_BYTES_def BLOCK_SIZE_LIMIT_def)

definition demo_io :: "(string list, (json, bool) dict) cycle_io" where
  "demo_io = \<lparr>io_start = demo_env 0, io_watch = [\<lparr>t_env = demo_env 1, t_new = [MsgBlock first_block ''p'' False], t_done = False\<rparr>],
     io_begun = demo_env 0, io_build = [\<lparr>t_env = demo_env 2, t_new = [MsgTx (JObj []) ''p'' False], t_done = False\<rparr>],
     io_built = demo_env 3, io_seconds = 60, io_hold = [], io_last = demo_env 4, io_late = []\<rparr>"


end
