(* ===== verification/Splice.thy ===== *)
theory Splice
  imports Within
begin

text \<open>
  Commits onto a tip that has gone: what a cycle of \<^verbatim>\<open>src/src/node.py\<close> commits links to the tip the cycle began with, which
  the waits re-check only at some places. A worked example of a node whose chain breaks.
\<close>

section \<open>Where commits land\<close>

text \<open>A cycle of a node that does not mine commits onto the very tip it began with: if it commits, the new chain is the one
  it began with and one more block, which names that tip as its parent.\<close>

lemma paused_cycle_extends_tip:
  assumes "lru_laws (e_lru E')" and "run_cycle_paused E cs pre ticks E' n = (Inr True, n')"
  shows "\<exists>w h. cs_chain (n_cs n') = cs_chain cs @ [w] \<and> read_field ''hash'' (cs_tip cs) = Inr h \<and> py_eq (jget w ''previous_hash'') h"
proof -
  from assms(2) obtain acc n1 where "(if moved cs n1 then return False else settle E' cs None acc) n1 = (Inr True, n')"
    by (auto simp: run_cycle_paused_def bind_act_Inr get_state_def)
  then have "\<not> moved cs n1" "settle E' cs None acc n1 = (Inr True, n')"
    by (auto simp: return_def split: if_splits)
  from settle_links[OF assms(1) this(2)] obtain w h where "cs_chain (n_cs n') = cs_chain (n_cs n1) @ [w]"
    "read_field ''hash'' (cs_tip cs) = Inr h" "py_eq (jget w ''previous_hash'') h" .
  with \<open>\<not> moved cs n1\<close> show ?thesis by (auto simp: moved_def)
qed

text \<open>C19: The wait of a node without odds settles after every message it heard, without looking whether its tip is still the
  one it began with: when among the messages there was a sibling that took the tip, and a block on the old tip, the block is committed
  on the new one, so that the last block of the node's chain does not name its predecessor as its parent.\<close>

theorem late_sibling_spliced:
  assumes "lru_laws (e_lru (t_env t))" and "\<not> moved cs n" and "e_mono (t_env t) < deadline"
    and "hear t cs acc n = (Inr acc', n1)" and "settle_heard (t_env t) cs acc' n1 = (Inr True, n')"
    and "read_field ''hash'' (cs_tip (n_cs n1)) = Inr h'" and "\<And>h. read_field ''hash'' (cs_tip cs) = Inr h \<Longrightarrow> \<not> py_eq h h'"
  shows "wait_loop cs deadline (t # ts) acc n = (Inr True, n')
    \<and> (\<exists>w. cs_chain (n_cs n') = cs_chain (n_cs n1) @ [w] \<and> \<not> py_eq (jget w ''previous_hash'') h')"
proof -
  have "settle (t_env t) cs None acc' n1 = (Inr True, n')" using assms(5) by (auto simp: settle_heard_def return_def split: if_splits)
  from settle_links[OF assms(1) this] obtain w h where w: "cs_chain (n_cs n') = cs_chain (n_cs n1) @ [w]"
    "read_field ''hash'' (cs_tip cs) = Inr h" "py_eq (jget w ''previous_hash'') h" .
  have "\<not> py_eq (jget w ''previous_hash'') h'"
  proof
    assume "py_eq (jget w ''previous_hash'') h'"
    with w(3) have "py_eq h h'" using py_eq_trans[of h "jget w ''previous_hash''" h'] py_eq_sym by blast
    with assms(7)[OF w(2)] show False by blast
  qed
  moreover have "wait_loop cs deadline (t # ts) acc n = (Inr True, n')"
    using assms(2-5) by (simp add: bind_get bind_Inr[of "hear t cs acc", OF assms(4)] bind_Inr[of "settle_heard (t_env t) cs acc'", OF assms(5)] return_def)
  ultimately show ?thesis using w(1) by blast
qed

section \<open>Verdicts outlive an adoption\<close>

definition same_verdicts :: "('c, 'j) node \<Rightarrow> ('c, 'j) node \<Rightarrow> bool" where
  "same_verdicts n n' \<longleftrightarrow> n_judged n' = n_judged n \<and> n_judged_tip n' = n_judged_tip n"

interpretation verdicts: frame same_verdicts
  by unfold_locales (simp_all add: same_verdicts_def)

lemma core_verdicts: "same_core n n' \<Longrightarrow> same_verdicts n n'"
  by (simp add: same_core_def same_verdicts_def)

lemma adopt_verdicts: "keeps same_verdicts (apply_better_chain E remote)"
  unfolding keeps_def
proof
  fix n :: "('a, 'b) node"
  have s: "same_verdicts n (snd (bind_act (if tail \<noteq> [] then salvage_fork_txs E f tail else return ()) (\<lambda>_. return (Some NotBetter)) n))" for f tail
  proof -
    have "keeps same_core (bind_act (if tail \<noteq> [] then salvage_fork_txs E f tail else return ()) (\<lambda>_. return (Some NotBetter)))"
      by (intro core.bind core.cond core.return keeps_core_salvage)
    then show ?thesis unfolding keeps_def using core_verdicts by blast
  qed
  have m: "same_verdicts m (snd (reorg_mempool E f old new s m))" for f old new s and m :: "('a, 'b) node"
    using keeps_core_reorg_mempool unfolding keeps_def using core_verdicts by blast
  have r: "n_judged m' = n_judged m \<and> n_judged_tip m' = n_judged_tip m" if "remember_state cs m = Inr m'" for cs and m m' :: "('a, 'b) node"
    using remember_recent[OF that] by auto
  show "same_verdicts n (snd (apply_better_chain E remote n))"
  proof (cases "evaluate_remote_chain (e_prims E) (e_now E) n remote")
    case (Inr ev)
    show ?thesis
    proof (cases ev)
      case (Better f tail cs')
      show ?thesis
      proof (cases "replace_chain_and_state (e_prims E) (e_lib E) (n_storage n) f tail (cs_state cs')")
        case i: (Inr p)
        obtain st s where p: "p = (st, s)" by fastforce
        let ?cs = "cs'\<lparr>cs_state := s\<rparr>"
        define n1 where "n1 = (forget_states_from f (n\<lparr>n_storage := st\<rparr>))\<lparr>n_cs := ?cs\<rparr>"
        have n1: "n_judged n1 = n_judged n" "n_judged_tip n1 = n_judged_tip n" by (simp_all add: n1_def forget_states_from_def)
        show ?thesis
        proof (cases "remember_state ?cs n1")
          case (Inr n2)
          obtain x n3 where n3: "reorg_mempool E f (cs_chain (n_cs n)) remote s (n2\<lparr>n_view := ?cs\<rparr>) = (x, n3)" by fastforce
          from m[of "n2\<lparr>n_view := ?cs\<rparr>" f "cs_chain (n_cs n)" remote s] n3 r[OF Inr] n1
          show ?thesis using \<open>evaluate_remote_chain _ _ _ _ = Inr ev\<close> Better i p Inr
            by (simp add: apply_better_chain_def n1_def[symmetric] Let_def same_verdicts_def)
        qed (use \<open>evaluate_remote_chain _ _ _ _ = Inr ev\<close> Better i p n1 in
            \<open>simp add: apply_better_chain_def n1_def[symmetric] Let_def same_verdicts_def\<close>)
      qed (use Inr Better in \<open>simp add: apply_better_chain_def verdicts.refl\<close>)
    qed (use Inr s in \<open>simp_all add: apply_better_chain_def verdicts.refl\<close>)
  qed (simp add: apply_better_chain_def verdicts.refl)
qed

section \<open>A sibling that takes the tip\<close>

text \<open>Two siblings at height 1; the tip is the one with the greater output.\<close>

abbreviation tip_block :: block where "tip_block \<equiv> key_block 1 ''00'' ''22''"
abbreviation next_block :: block where "next_block \<equiv> key_block 2 ''22'' ''33''"

lemma siblings:
  obtains now st cs csS where "rooted key_prims cs" "on_disk key_prims (list_lib []) st cs" "cs_chain cs = [create_genesis key_prims, tip_block]"
    "validate_and_apply key_prims now (from_genesis key_prims) first_block = Inr (None, csS)"
    "cs_chain csS = [create_genesis key_prims, first_block]" "cumulative_iterations csS = cumulative_iterations cs"
proof -
  let ?g = "from_genesis key_prims" and ?now = "of_int (GENESIS_TIMESTAMP + 100 * int 1) :: rat"
  have g: "cs_tip ?g = create_genesis key_prims" "cs_chain ?g = [create_genesis key_prims]" "length (cs_chain ?g) = 1"
    by (simp_all add: from_genesis_def cs_tip_def)
  have grow: "\<exists>cs'. validate_and_apply key_prims ?now ?g (key_block 1 ''00'' k) = Inr (None, cs') \<and> grown key_prims cs'
      \<and> cs_chain cs' = [create_genesis key_prims, key_block 1 ''00'' k] \<and> cumulative_iterations cs' = of_int VDF_ITERATIONS"
    if "k = ''11'' \<or> k = ''22''" for k
    using that key_grow[OF grown_genesis g(3), of "''00''" k] key_hex[of k k k] by (auto simp: g key_genesis) (simp_all add: from_genesis_def)
  obtain csT where t: "validate_and_apply key_prims ?now ?g tip_block = Inr (None, csT)" "grown key_prims csT"
    "cs_chain csT = [create_genesis key_prims, tip_block]" "cumulative_iterations csT = of_int VDF_ITERATIONS" using grow by blast
  obtain csS where s: "validate_and_apply key_prims ?now ?g first_block = Inr (None, csS)"
    "cs_chain csS = [create_genesis key_prims, first_block]" "cumulative_iterations csS = of_int VDF_ITERATIONS"
    using grow unfolding first_block_def by blast
  obtain st0 where st0: "on_disk key_prims (list_lib []) st0 ?g" by (rule fresh_start)
  have h: "jnum (jget tip_block ''height'') = Some 1" "(1 :: rat) \<noteq> 0" by (simp_all add: key_block_fields)
  obtain st where st: "on_disk key_prims (list_lib []) st (csT\<lparr>cs_state := mark_persisted (cs_state csT)\<rparr>)"
    by (rule commit_on_disk[OF st0 t(1) h]) blast
  let ?cs = "csT\<lparr>cs_state := mark_persisted (cs_state csT)\<rparr>"
  have "rooted key_prims csT" using t(2) alike_cs_refl by (auto simp: rooted_def)
  then have "rooted key_prims ?cs" by (rule rooted_alike) (simp add: alike_cs_def)
  from that[OF this st _ s(1,2)] t(3,4) s(3) show thesis by simp
qed

lemma sibling_better:
  assumes "cs_chain csS = [create_genesis key_prims, first_block]" "cs_chain cs = [create_genesis key_prims, tip_block]"
    "cumulative_iterations csS = cumulative_iterations cs"
  shows "is_better_than key_prims csS cs = Inr True"
proof -
  have h: "hash_of (key_block n p k) = JStr (key_hash k)" for n p k by (simp add: hash_of_def key_block_fields)
  have "fork_search [create_genesis key_prims, first_block] [create_genesis key_prims, tip_block] 0 2 = 1"
    by (simp add: fork_search.simps first_block_def h key_hash_inj Let_def)
  then have "fork_point [create_genesis key_prims, first_block] [create_genesis key_prims, tip_block] = 1" by (simp add: fork_point_def eval_nat_numeral)
  then show ?thesis
    by (simp add: is_better_than_def wins_tie_break_def cs_tip_def assms first_block_def h key_hash_inj key_of_block Let_def)
qed

lemma sibling_taken:
  assumes cs: "rooted key_prims cs" "on_disk key_prims (list_lib []) st cs" "cs_chain cs = [create_genesis key_prims, tip_block]"
    and s: "validate_and_apply key_prims now (from_genesis key_prims) first_block = Inr (None, csS)"
      "cs_chain csS = [create_genesis key_prims, first_block]" "cumulative_iterations csS = cumulative_iterations cs"
    and n: "n_cs n = cs" "n_recent n = []" "n_storage n = st" "n_view n = cs" "within_limits key_prims L n"
  shows "\<exists>n'. apply_better_chain (demo_env now) [create_genesis key_prims, first_block] n = (Inr None, n')
    \<and> node_ok key_prims (list_lib []) n' \<and> cs_chain (n_cs n') = [create_genesis key_prims, first_block]
    \<and> within_limits key_prims L n'"
proof -
  let ?g = "from_genesis key_prims" and ?r = "[create_genesis key_prims, first_block]"
  have ok: "node_ok key_prims (list_lib []) n" using cs(1,2) n by (simp add: node_ok_def recent_ok_def)
  have hh: "hash_of first_block = JStr (key_hash ''11'')" "hash_of tip_block = JStr (key_hash ''22'')"
    by (simp_all add: hash_of_def first_block_def key_block_fields)
  have faith: "faithful (cs_chain (n_cs n)) ?r" unfolding n cs(3) faithful_def using hh key_hash_inj by (auto simp: less_Suc_eq)
  have h0: "\<forall>b\<in>set (tl ?r). jnum (jget b ''height'') \<noteq> Some 0" by (simp add: first_block_def key_block_fields)
  have g: "read_field ''hash'' (create_genesis key_prims) = Inr (genesis_hash cs)"
    by (simp add: read_field_def genesis_hash_def hash_of_def cs(3) create_genesis_def Let_def jget_def get_or_def)
  have rp: "resume_point n 1 ?r = Some ?g" by (simp add: resume_point_def n cs(3) from_genesis_def)
  have "apply_tail key_prims now ?g [first_block] = Inr (Inr csS)" by (simp add: s(1))
  with rp have ev: "evaluate_tail key_prims now n 1 ?r = Inr csS" by (simp add: evaluate_tail_def catch_def del: apply_tail.simps)
  have "first_difference 0 (cs_chain cs) ?r = Inr 1"
  proof -
    have "read_field ''hash'' first_block = Inr (JStr (key_hash ''11''))" "read_field ''hash'' tip_block = Inr (JStr (key_hash ''22''))"
      by (simp_all add: first_block_def key_block_def read_field_def)
    then show ?thesis using g by (simp add: cs(3) py_eq_def key_hash_inj split: option.split)
  qed
  with g ev sibling_better[OF s(2) cs(3) s(3)] have "evaluate_remote_chain key_prims now n ?r = Inr (Better 1 [first_block] csS)"
    by (simp add: evaluate_remote_chain_def n py_eq_def split: option.split)
  then have B: "evaluate_remote_chain (e_prims (demo_env now)) (e_now (demo_env now)) n ?r = Inr (Better 1 [first_block] csS)"
    by (simp add: demo_env_def)
  from adopt_better[OF _ faith h0 B] ok obtain n' where r: "apply_better_chain (demo_env now) ?r n = (Inr None, n')"
    "node_ok key_prims (list_lib []) n'" "cs_chain (n_cs n') = ?r" by auto
  from keepsD[OF lim_adopt r(1), of L] n(5) r show ?thesis by (auto simp: limited_def)
qed

text \<open>The node hears of the sibling while it waits, with a block on the old tip already among the candidates.\<close>

lemma sibling_heard:
  assumes cs: "cs_chain cs = [create_genesis key_prims, tip_block]"
    and n: "n_cs n = cs" "n_draw_height n = JInt 1" "n_draw_closes n = 115"
    and ad: "apply_better_chain (demo_env now) [create_genesis key_prims, first_block] n = (Inr None, n')"
    and w: "gossip_inv (n_seen n')"
  shows "\<exists>g sends. handle_inbound_block (demo_env now) first_block [] False n = (Inr (), n'\<lparr>n_seen := g, n_sent := sends\<rparr>)"
proof -
  let ?E = "demo_env now"
  have f: "jget first_block ''height'' = JInt 1" "jget first_block ''hash'' = JStr (key_hash ''11'')"
    "jget first_block ''previous_hash'' = JStr (key_hash ''00'')" "map_of first_block ''hash'' = Some (JStr (key_hash ''11''))"
    "tie_break_key first_block = Inr (JStr ''11'')" "read_field ''height'' first_block = Inr (JInt 1)"
    by (simp_all add: first_block_def key_block_def jget_def get_or_def tie_break_key_def read_field_def)
  have t: "cs_height cs = JInt 1" "read_field ''hash'' (cs_tip cs) = Inr (JStr (key_hash ''22''))"
    "tie_break_key (cs_tip cs) = Inr (JStr ''22'')"
    by (simp_all add: cs_height_def cs_tip_def cs key_block_def jget_def get_or_def tie_break_key_def read_field_def)
  have p: "read_field ''hash'' (create_genesis key_prims) = Inr (JStr (key_hash ''00''))"
    using key_genesis(1) by (simp add: read_field_def create_genesis_def Let_def block_hash_def without_def)
  have d: "draw_is_open ?E (JInt 1) n" using n by (simp add: draw_is_open_def demo_env_def)
  have k: "py_eq (JStr a) (JStr b) = (a = b)" "py_eq (JInt i) (JInt j) = (i = j)" for a b i j by (simp_all add: py_eq_def)
  have r: "reorg_to_sibling ?E first_block cs n = (Inr True, n')"
    unfolding reorg_to_sibling_def bind_get using d t p ad
    by (simp add: f k cs bind_lift bind_Inr[of "apply_better_chain ?E [create_genesis key_prims, first_block]"] key_hash_inj
        first_logged bind_act_def lift_res_def return_def)
  have L: "cache_laws (e_cache ?E)" by (simp add: demo_cache_laws)
  obtain g sends where "relay_block ?E first_block [] False n' = (Inr (), n'\<lparr>n_seen := g, n_sent := sends\<rparr>)"
    by (rule relay_block_public[OF L w f(4), of "[]"]) blast
  then have "handle_inbound_block ?E first_block [] False n = (Inr (), n'\<lparr>n_seen := g, n_sent := sends\<rparr>)"
    unfolding handle_inbound_block_def bind_get Let_def
    by (simp add: f n t k bind_lift bind_Inr[of "reorg_to_sibling ?E first_block cs", OF r] key_hash_inj)
  then show ?thesis by blast
qed

text \<open>The block on the old tip has its verdict, and is committed whatever the chain has become.\<close>

lemma stale_settled:
  assumes ok: "node_ok key_prims (list_lib []) n" and c: "cs_chain (n_cs n) = [create_genesis key_prims, first_block]"
    and cs: "cs_chain cs = [create_genesis key_prims, tip_block]"
    and j: "n_judged n = [(JStr (key_hash ''33''), True)]" "n_judged_tip n = JStr (key_hash ''22'')"
  shows "\<exists>n'. settle_heard (demo_env now) cs [next_block] n = (Inr True, n')"
proof -
  let ?E = "demo_env now"
  have t: "add_int (cs_height cs) 1 = Inr (JInt 2)" "read_field ''hash'' (cs_tip cs) = Inr (JStr (key_hash ''22''))"
    "rbind (read_field ''height'' (cs_tip cs)) (\<lambda>h. add_int h 1) = Inr (JInt 2)"
    by (simp_all add: cs_height_def cs_tip_def cs key_block_def jget_def get_or_def read_field_def)
  have b: "py_eq (jget next_block ''height'') (JInt 2)" "py_eq (jget next_block ''previous_hash'') (JStr (key_hash ''22''))"
    "jget next_block ''hash'' = JStr (key_hash ''33'')" by (simp_all add: key_block_fields)
  have "n\<lparr>n_judged := n_judged n\<rparr> = n" by simp
  then have v: "validate_candidate ?E next_block cs n = (Inr True, n)"
    unfolding validate_candidate_run[OF t(1) b(1) t(2) b(2)]
    using j by (simp add: bind_act_def judged_run[OF t(2)] Let_def b(3) demo_lru_def refresh_def return_def)
  have lg: "log_block next_block (Inr (get_or next_block ''transactions'' (JArr []))) = Inr ()"
    by (rule log_block_ok[where s = "key_hash ''33''" and t = "JArr []" and m = 0 and a = "demo_addr CHR ''a''"])
      (simp_all add: key_block_def dict_simps jget_def get_or_def)
  have sh: "short_hash next_block = Inr ()" by (simp add: short_hash_def read_field_def key_block_def)
  have k: "tie_break_key next_block = Inr (JStr ''33'')" by (simp add: tie_break_key_def key_block_fields)
  have pw: "pick_winner ?E cs None [next_block] n = (Inr (Some (next_block, True)), n)"
    using t(3) by (simp add: pick_winner_def bind_act_def v lg lift_res_def return_def k sh)
  have r: "rooted key_prims (n_cs n)" using ok by (simp add: node_ok_def)
  obtain s' where "apply_builder_reward (cs_state (n_cs n)) (demo_addr CHR ''a'') next_block = Inr s'"
    using apply_builder_reward_effect[OF rooted_state(1)[OF r] key_block_fields(9) order.refl rooted_state(2,3)[OF r]] by blast
  moreover have "demo_addr CHR ''a'' \<noteq> []" by (simp add: demo_addr_def numeral_eq_Suc)
  ultimately have ap: "apply_to_state (cs_state (n_cs n)) next_block = Inr s'" by (simp add: apply_to_state_def key_block_fields)
  have "\<exists>n'. commit ?E next_block n = (Inr (), n')"
  proof -
    have tx: "block_txs next_block = Inr (map JObj [])" "foldr_res apply_tx (cs_state (n_cs n)) [] = Inr (cs_state (n_cs n))"
      by (simp_all add: block_txs_def key_block_def get_or_def)
    have pl: "placed (e_prims ?E) (length (cs_chain (n_cs n))) next_block"
      by (simp add: c placed_def key_block_fields indexable_def) (simp add: key_block_def get_or_def dict_simps)
    have m: "map_of next_block ''hash'' = Some (JStr (key_hash ''33''))" "map_of next_block ''height'' = Some (JInt 2)" "jnum (JInt 2) = Some 2"
      by (simp_all add: key_block_def)
    have l: "log_block next_block (read_field ''transactions'' next_block) = Inr ()"
      by (rule log_block_ok[where s = "key_hash ''33''" and t = "JArr []" and m = 0 and a = "demo_addr CHR ''a''"])
        (simp_all add: key_block_def dict_simps jget_def get_or_def read_field_def)
    from commit_lands[OF tx ap key_block_fields(10) pl m l] show ?thesis by blast
  qed
  then obtain n' where "commit ?E next_block n = (Inr (), n')" by blast
  with pw show ?thesis by (simp add: settle_heard_def settle_def bind_act_def return_def)
qed

lemma splice_steps:
  obtains n :: demo_node and cs now n1 n' where "n_cs n = cs" "cs_chain cs = [create_genesis key_prims, tip_block]"
    "hear \<lparr>t_env = demo_env now, t_new = [MsgBlock first_block [] False], t_done = False\<rparr> cs [next_block] n = (Inr [next_block], n1)"
    "cs_chain (n_cs n1) = [create_genesis key_prims, first_block]" "settle_heard (demo_env now) cs [next_block] n1 = (Inr True, n')"
proof -
  obtain now st cs csS where s: "rooted key_prims cs" "on_disk key_prims (list_lib []) st cs" "cs_chain cs = [create_genesis key_prims, tip_block]"
    "validate_and_apply key_prims now (from_genesis key_prims) first_block = Inr (None, csS)"
    "cs_chain csS = [create_genesis key_prims, first_block]" "cumulative_iterations csS = cumulative_iterations cs" by (rule siblings)
  define n :: demo_node where "n = (demo_node cs st)\<lparr>n_draw_height := JInt 1, n_draw_closes := 115,
    n_judged := [(JStr (key_hash ''33''), True)], n_judged_tip := JStr (key_hash ''22'')\<rparr>"
  have w: "within_limits key_prims no_ips n" using demo_within[of cs st] by (simp add: n_def within_limits_def)
  have f: "n_cs n = cs" "n_recent n = []" "n_storage n = st" "n_view n = cs" "n_draw_height n = JInt 1" "n_draw_closes n = 115"
    "n_judged n = [(JStr (key_hash ''33''), True)]" "n_judged_tip n = JStr (key_hash ''22'')" "n_queue n = []" "n_unconfirmed n = []"
    "n\<lparr>n_queue := []\<rparr> = n"
    by (simp_all add: n_def demo_node_def)
  from sibling_taken[OF s f(1-4) w] obtain n2 where a: "apply_better_chain (demo_env now) [create_genesis key_prims, first_block] n = (Inr None, n2)"
    "node_ok key_prims (list_lib []) n2" "cs_chain (n_cs n2) = [create_genesis key_prims, first_block]" "within_limits key_prims no_ips n2" by blast
  from a(4) have g: "gossip_inv (n_seen n2)" by (simp add: within_limits_def)
  have v: "n_judged n2 = n_judged n" "n_judged_tip n2 = n_judged_tip n"
    using keepsD[OF adopt_verdicts a(1)] by (simp_all add: same_verdicts_def)
  from sibling_heard[OF s(3) f(1,5,6) a(1) g] obtain sn ss where
    h: "handle_inbound_block (demo_env now) first_block [] False n = (Inr (), n2\<lparr>n_seen := sn, n_sent := ss\<rparr>)" by blast
  let ?n1 = "n2\<lparr>n_seen := sn, n_sent := ss\<rparr>" and ?t = "\<lparr>t_env = demo_env now, t_new = [MsgBlock first_block [] False], t_done = False\<rparr>"
  have "add_int (cs_height cs) 1 = Inr (JInt 2)" by (simp add: cs_height_def cs_tip_def s(3) key_block_fields)
  then have c: "consider_all (demo_env now) cs [first_block] acc m = (Inr acc, m)" for acc m
    by (simp add: consider_inbound_block_def validate_candidate_def bind_act_def lift_res_def return_def first_block_def key_block_fields py_eq_def)
  have o: "fold offer [MsgBlock first_block [] False] n = n\<lparr>n_queue := [MsgBlock first_block [] False]\<rparr>"
    by (simp add: offer_def f NET_QUEUE_SIZE_def)
  have d: "drain_queue (demo_env now) (n\<lparr>n_queue := [MsgBlock first_block [] False]\<rparr>) = (Inr [first_block], ?n1)"
    by (simp add: drain_queue_def get_state_def modify_def f handle_def bind_act_def h return_def)
  have r: "retry_unconfirmed_spreads (demo_env now) n = (Inr (), n)" by (simp add: retry_unconfirmed_spreads_def bind_get f return_def)
  have hr: "hear ?t cs [next_block] n = (Inr [next_block], ?n1)"
    by (simp add: hear_def bind_Inr[of "retry_unconfirmed_spreads (demo_env now)", OF r] bind_modify o[simplified]
        bind_Inr[of "drain_queue (demo_env now)", OF d] c[simplified])
  have "node_ok key_prims (list_lib []) ?n1" using a(2) by (simp add: node_ok_def)
  from stale_settled[OF this _ s(3)] a(3) v f(7,8) obtain n' where "settle_heard (demo_env now) cs [next_block] ?n1 = (Inr True, n')" by auto
  from that[OF f(1) s(3) hr _ this] a(3) show thesis by simp
qed

theorem late_sibling_spliced_witness:
  "\<exists>(n :: demo_node) t cs n'. n_cs n = cs \<and> cs_chain cs = [create_genesis key_prims, tip_block] \<and> t_new t = [MsgBlock first_block [] False]
     \<and> wait_loop cs 110 [t] [next_block] n = (Inr True, n')
     \<and> (\<exists>w. cs_chain (n_cs n') = [create_genesis key_prims, first_block, w] \<and> \<not> py_eq (jget w ''previous_hash'') (JStr (key_hash ''11'')))"
proof -
  obtain n :: demo_node and cs now n1 n' where s: "n_cs n = cs" "cs_chain cs = [create_genesis key_prims, tip_block]"
    "hear \<lparr>t_env = demo_env now, t_new = [MsgBlock first_block [] False], t_done = False\<rparr> cs [next_block] n = (Inr [next_block], n1)"
    "cs_chain (n_cs n1) = [create_genesis key_prims, first_block]" "settle_heard (demo_env now) cs [next_block] n1 = (Inr True, n')"
    by (rule splice_steps)
  let ?t = "\<lparr>t_env = demo_env now, t_new = [MsgBlock first_block [] False], t_done = False\<rparr>"
  have h: "read_field ''hash'' (cs_tip (n_cs n1)) = Inr (JStr (key_hash ''11''))"
    by (simp add: cs_tip_def s(4) read_field_def first_block_def key_block_def)
  have d: "\<not> py_eq h (JStr (key_hash ''11''))" if "read_field ''hash'' (cs_tip cs) = Inr h" for h
    using that by (simp add: cs_tip_def s(2) read_field_def key_block_def) (auto simp: py_eq_def key_hash_inj)
  have m: "\<not> moved cs n" "e_mono (t_env ?t) < 110" "lru_laws (e_lru (t_env ?t))" by (simp_all add: moved_def s(1) demo_env_def)
  from late_sibling_spliced[OF m(3,1,2) s(3) _ h d] s(4,5) have
    "wait_loop cs 110 [?t] [next_block] n = (Inr True, n')
     \<and> (\<exists>w. cs_chain (n_cs n') = [create_genesis key_prims, first_block, w] \<and> \<not> py_eq (jget w ''previous_hash'') (JStr (key_hash ''11'')))" by auto
  with s(1,2) show ?thesis by (intro exI[of _ n] exI[of _ ?t] exI[of _ cs] exI[of _ n']) simp
qed


end
