(* ===== verification/Stall.thy ===== *)
theory Stall
  imports Splice
begin

text \<open>
  What stops a node of \<^verbatim>\<open>src/src/node.py\<close>, and what does not: a stored height that is no number, and the deadlines of its waits.
\<close>

section \<open>A height that is no number\<close>

text \<open>An active peer of the pool whose stored height is a string.\<close>

definition poisoned :: "('c, 'j) env \<Rightarrow> ('c, 'j) node \<Rightarrow> bool" where
  "poisoned E n \<longleftrightarrow> (\<exists>addr s. has_key (peers (n_pool n)) addr \<and> e_mono E \<ge> cooldown_until (n_pool n) addr
     \<and> i_height (get_or (info (n_pool n)) addr no_info) = JStr s)"

definition silent_for :: "rat \<Rightarrow> ('c, 'j) env \<Rightarrow> ('c, 'j) node \<Rightarrow> bool" where
  "silent_for threshold E n \<longleftrightarrow> silence_threshold n = Inr threshold \<and> threshold \<le> e_mono E - n_last_block_seen n
     \<and> threshold \<le> e_mono E - n_last_silence_poll n"

lemma json_less_number:
  assumes "jnum a = Some x"
  shows "json_less a b = (case jnum b of Some y \<Rightarrow> Inr (x < y) | None \<Rightarrow> Inl TypeError)"
  using assms by (cases a; cases b) (simp_all add: json_less.simps)

lemma highest_claim_raises:
  assumes "jnum best_height = Some k" and "(addr, True, JStr s) \<in> set rows"
  shows "highest_claim best best_height rows = Inl TypeError"
  using assms
proof (induction rows arbitrary: best best_height k)
  case (Cons row rows)
  obtain a act h where row: "row = (a, act, h)" by (cases row)
  show ?case
  proof (cases "\<not> act \<or> h = JNull")
    case True
    with Cons row show ?thesis by auto
  next
    case False
    show ?thesis
    proof (cases "jnum h")
      case None
      with False row Cons.prems(1) show ?thesis by (simp add: json_less_number)
    next
      case (Some x)
      then have "(addr, True, JStr s) \<in> set rows" using Cons.prems(2) row by auto
      with Some False row Cons show ?thesis by (simp add: json_less_number)
    qed
  qed
qed simp

lemma poisoned_poll_raises:
  assumes "poisoned E n"
  shows "best_known_peer E n = Inl TypeError"
proof -
  from assms obtain addr s where a: "has_key (peers (n_pool n)) addr" "e_mono E \<ge> cooldown_until (n_pool n) addr"
    "i_height (get_or (info (n_pool n)) addr no_info) = JStr s" by (auto simp: poisoned_def)
  from a(1) obtain seen where "(addr, seen) \<in> set (peers (n_pool n))" by (auto simp: dict_simps dest: map_of_SomeD)
  with a(2,3) have "(addr, True, JStr s) \<in> set (map (\<lambda>(addr, _, active, height, _). (addr, active, height))
              (pool_snapshot (e_mono E) (e_now E) (n_pool n)))"
    by (force simp: pool_snapshot_def Let_def)
  then show ?thesis unfolding best_known_peer_def by (subst highest_claim_raises) simp_all
qed

lemma poisoned_sync_raises:
  assumes "poisoned E n" "silent_for th E n" "n_sync_hint n = None"
  shows "sync_if_triggered E n = (Inl TypeError, n\<lparr>n_sync_hint := None, n_sync_hint_height := 0\<rparr>)"
proof -
  let ?n = "n\<lparr>n_sync_hint := None, n_sync_hint_height := 0\<rparr>"
  have th: "silence_threshold ?n = Inr th" using assms(2) by (simp add: silent_for_def silence_threshold_def)
  have p: "poisoned E ?n" using assms(1) by (simp add: poisoned_def)
  have "whom_to_ask E ?n = (Inl TypeError, ?n)"
    using assms(2) poisoned_poll_raises[OF p] by (simp add: whom_to_ask_def bind_get th bind_lift silent_for_def) (simp add: bind_act_def lift_res_def)
  then show ?thesis using assms(3) by (simp add: sync_if_triggered_def bind_get bind_modify) (simp add: bind_act_def)
qed

text \<open>One peer that answered an info request with a string as its height stops a node that has not seen a block for a while: every cycle raises
  when it looks for the peer with the highest claim, before it builds, listens or asks anybody, and since the time of the poll is only noted
  afterwards, so does the next one, as long as the peer is in the pool and no block comes.\<close>

theorem poisoned_height_halts_cycles:
  assumes "poisoned (io_start io) n" and "silent_for th (io_start io) n" and "n_sync_hint n = None"
    and "n_queue n = []" and "n_unconfirmed n = []"
  shows "run_cycle io n = (Inl TypeError, n\<lparr>n_sync_hint := None, n_sync_hint_height := 0\<rparr>)
    \<and> (if e_mono (io_start io) \<le> e_mono (io_start io')
       then run_cycle io' (snd (run_cycle io n)) = (Inl TypeError, n\<lparr>n_sync_hint := None, n_sync_hint_height := 0\<rparr>) else True)"
proof -
  have step: "run_cycle io n = (Inl TypeError, n\<lparr>n_sync_hint := None, n_sync_hint_height := 0\<rparr>)"
    if "poisoned (io_start io) n" "silent_for th (io_start io) n" "n_sync_hint n = None" "n_queue n = []" "n_unconfirmed n = []"
    for io :: "('a, 'b) cycle_io" and n
  proof -
    let ?E = "io_start io"
    have d: "drain_queue ?E n = (Inr [], n)" using that(4) by (simp add: drain_queue_def bind_get return_def)
    have r: "retry_unconfirmed_spreads ?E n = (Inr (), n)" using that(5) by (simp add: retry_unconfirmed_spreads_def bind_get return_def)
    show ?thesis unfolding run_cycle_def Let_def
      by (simp add: bind_Inr[of "drain_queue ?E", OF d] bind_Inr[of "retry_unconfirmed_spreads ?E", OF r])
        (simp add: bind_act_def poisoned_sync_raises[OF that(1-3)])
  qed
  let ?n = "n\<lparr>n_sync_hint := None, n_sync_hint_height := 0\<rparr>"
  have "run_cycle io' ?n = (Inl TypeError, ?n)" if le: "e_mono (io_start io) \<le> e_mono (io_start io')"
  proof -
    have "poisoned (io_start io') ?n" using assms(1) le unfolding poisoned_def by (auto intro: order.trans)
    moreover have "silent_for th (io_start io') ?n" using assms(2) le by (simp add: silent_for_def silence_threshold_def)
    ultimately show ?thesis using step[of io' ?n] assms(4,5) by simp
  qed
  with step[OF assms] show ?thesis by simp
qed

theorem poisoned_height_halts_cycles_witness:
  "\<exists>n :: demo_node. n_pool n = snd (update_info ((pool_init None)\<lparr>peers := [(''p'', 0)]\<rparr>) ''p'' (JStr ''x'') JNull JNull)
     \<and> e_mono (io_start demo_io) = 100 \<and> fst (run_cycle (demo_io\<lparr>io_start := (demo_env 0)\<lparr>e_mono := 1000\<rparr>\<rparr>) n) = Inl TypeError"
proof -
  let ?E = "(demo_env 0)\<lparr>e_mono := 1000\<rparr>" and ?io = "demo_io\<lparr>io_start := (demo_env 0)\<lparr>e_mono := 1000\<rparr>\<rparr>"
  let ?n = "(demo_node (from_genesis key_prims) empty_storage)\<lparr>n_pool := snd (update_info ((pool_init None)\<lparr>peers := [(''p'', 0)]\<rparr>) ''p'' (JStr ''x'') JNull JNull)\<rparr>"
  have "poisoned (io_start ?io) ?n"
    unfolding poisoned_def
    by (intro exI[of _ "''p''"] exI[of _ "''x''"])
      (simp add: demo_env_def update_info_def pool_init_def dict_simps cooldown_until_def no_info_def get_or_def)
  moreover have "silent_for 600 (io_start ?io) ?n"
    by (simp add: silent_for_def silence_threshold_def chain_pace_def block_time_stats_def demo_node_def from_genesis_def
        SILENCE_FALLBACK_SECONDS_def demo_env_def)
  ultimately have "fst (run_cycle ?io ?n) = Inl TypeError"
    using poisoned_height_halts_cycles[of ?io ?n 600 ?io] by (simp add: demo_node_def)
  then show ?thesis by (intro exI[of _ ?n]) (simp add: demo_io_def demo_env_def)
qed

section \<open>The loops end\<close>

lemma get_ignored: "bind_act get_state (\<lambda>n. c) = c"
  by (rule ext) (simp add: bind_get)

lemma loops_end:
  assumes "deadline \<le> e_mono (t_env t)"
  shows "paused_loop cs deadline (ts @ t # rest) acc = paused_loop cs deadline ts acc"
    and "wait_loop cs deadline (ts @ t # rest) acc = wait_loop cs deadline ts acc"
    and "hold_loop cs deadline (ts @ t # rest) acc = hold_loop cs deadline ts acc"
proof -
  show "paused_loop cs deadline (ts @ t # rest) acc = paused_loop cs deadline ts acc"
  proof (induction ts arbitrary: acc)
    case Nil
    show ?case using assms by (simp add: get_ignored)
  next
    case (Cons u ts)
    then show ?case by (simp cong: if_cong)
  qed
  show "wait_loop cs deadline (ts @ t # rest) acc = wait_loop cs deadline ts acc"
  proof (induction ts arbitrary: acc)
    case Nil
    show ?case using assms by simp
  next
    case (Cons u ts)
    then show ?case by (simp cong: if_cong)
  qed
  show "hold_loop cs deadline (ts @ t # rest) acc = hold_loop cs deadline ts acc"
  proof (induction ts arbitrary: acc)
    case Nil
    show ?case using assms by (simp add: get_ignored)
  next
    case (Cons u ts)
    have "hold_loop cs deadline (ts @ t # rest) = hold_loop cs deadline ts" by (rule ext) (rule Cons.IH)
    then show ?case by (simp cong: if_cong)
  qed
qed



end
