(* ===== verification/Swap.thy ===== *)
theory Swap
  imports Crypto
begin

text \<open>
  \<^verbatim>\<open>src/src/swap.py\<close>: how a trade is cut into steps and how much one step may put at risk.
  Amounts are Python integers; trust scores and quotients are rationals (the rounding of floats is
  not modelled). \<^verbatim>\<open>math.sqrt\<close> is the argument \<open>sqroot\<close>.
\<close>

section \<open>Constants\<close>

definition MAX_INCREMENTS :: int where "MAX_INCREMENTS = 20"
definition MIN_INCREMENTS :: int where "MIN_INCREMENTS = 2"
definition MIN_CONFIRM_DEPTH_FLOOR :: int where "MIN_CONFIRM_DEPTH_FLOOR = 2"
definition PROBE_FRACTION :: rat where "PROBE_FRACTION = 1 / 4"
definition DEFAULT_STRANGER_CAP_STROOPS :: int where "DEFAULT_STRANGER_CAP_STROOPS = 5 * 10000000"
definition MAX_TRUST_MULTIPLIER :: rat where "MAX_TRUST_MULTIPLIER = 20"
definition MIN_STEP_STROOPS :: int where "MIN_STEP_STROOPS = 1000"
definition MIN_STEP_TICKS :: int where "MIN_STEP_TICKS = 1"
definition ORDER_TAG_LEN :: nat where "ORDER_TAG_LEN = 8"
definition SESSION_TAG_LEN :: nat where "SESSION_TAG_LEN = 8"

section \<open>Session tags\<close>

text \<open>\<^verbatim>\<open>str(n)\<close> of an integer.\<close>

definition py_str :: "int \<Rightarrow> string" where
  "py_str n = (if n < 0 then CHR ''-'' # digits (nat (- n)) else digits (nat n))"

definition new_session_id :: "prims \<Rightarrow> string \<Rightarrow> string \<Rightarrow> string \<Rightarrow> string" where
  "new_session_id P order_id taker nonce =
     take 16 (sha256_hex P (utf8_encode (order_id @ ''|'' @ taker @ ''|'' @ nonce)))"

definition session_tag :: "string \<Rightarrow> string \<Rightarrow> int \<Rightarrow> string res" where
  "session_tag order_id session_id n =
     (let order8 = take ORDER_TAG_LEN (filter (\<lambda>c. c \<noteq> CHR ''-'') order_id);
          session8 = take SESSION_TAG_LEN session_id;
          tag = order8 @ '':'' @ session8 @ '':'' @ py_str n
      in if length (utf8_encode tag) > 28 then Inl ValueError else Inr tag)"

text \<open>
  \<^verbatim>\<open>int(s, 16)\<close>: white space around, a sign, a \<^verbatim>\<open>0x\<close> prefix, upper-case digits and
  single underscores between digits are all accepted. \<open>hex_body\<close> reads the digits after the prefix.
\<close>

fun hex_body :: "string \<Rightarrow> bool" where
  "hex_body [] = False"
| "hex_body [c] = (hexval c \<noteq> None)"
| "hex_body (c # d # s) =
     (hexval c \<noteq> None \<and> (if d = CHR ''_'' then hex_body s else hex_body (d # s)))"

fun drop_sign :: "string \<Rightarrow> string" where
  "drop_sign (c # s) = (if c = CHR ''+'' \<or> c = CHR ''-'' then s else c # s)"
| "drop_sign [] = []"

fun drop_0x :: "string \<Rightarrow> string" where
  "drop_0x (c # d # s) =
     (if c = CHR ''0'' \<and> (d = CHR ''x'' \<or> d = CHR ''X'')
      then (case s of u # s' \<Rightarrow> if u = CHR ''_'' then s' else s | [] \<Rightarrow> [])
      else c # d # s)"
| "drop_0x s = s"

definition int16_ok :: "string \<Rightarrow> bool" where
  "int16_ok s = hex_body (drop_0x (drop_sign (strip s)))"

definition is_hex_of_length :: "string \<Rightarrow> nat \<Rightarrow> bool" where
  "is_hex_of_length s n \<longleftrightarrow> length s = n \<and> int16_ok s"

text \<open>
  \<^verbatim>\<open>str.isdigit\<close>, which is also true of the superscripts 1, 2 and 3, and \<^verbatim>\<open>int(step)\<close>, which
  raises on those.
\<close>

definition decimal :: "char \<Rightarrow> nat option" where
  "decimal c = (let n = (of_char c :: nat) in if 48 \<le> n \<and> n \<le> 57 then Some (n - 48) else None)"

definition py_isdigit :: "string \<Rightarrow> bool" where
  "py_isdigit s \<longleftrightarrow> s \<noteq> [] \<and> list_all (\<lambda>c. decimal c \<noteq> None
     \<or> (of_char c :: nat) = 178 \<or> (of_char c :: nat) = 179 \<or> (of_char c :: nat) = 185) s"

definition py_int10 :: "string \<Rightarrow> int res" where
  "py_int10 s = (if list_all (\<lambda>c. decimal c \<noteq> None) s
     then Inr (int (foldl (\<lambda>n c. 10 * n + the (decimal c)) 0 s)) else Inl ValueError)"

definition parse_session_tag :: "json \<Rightarrow> (string \<times> string \<times> int) option res" where
  "parse_session_tag memo =
     (case memo of
        JStr s \<Rightarrow>
          (case split_on CHR '':'' s of
             [order8, session8, step] \<Rightarrow>
               if \<not> is_hex_of_length order8 ORDER_TAG_LEN then Inr None
               else if \<not> is_hex_of_length session8 SESSION_TAG_LEN then Inr None
               else if \<not> py_isdigit step then Inr None
               else rbind (py_int10 step) (\<lambda>n. Inr (Some (order8, session8, n)))
           | _ \<Rightarrow> Inr None)
      | _ \<Rightarrow> Inr None)"

section \<open>The exposure cap\<close>

definition exposure_cap_stroops :: "(rat \<Rightarrow> rat) \<Rightarrow> rat \<Rightarrow> int \<Rightarrow> int option \<Rightarrow> int" where
  "exposure_cap_stroops sqroot trust_score stranger_cap peer_stake =
     (let cap = (if trust_score \<le> 0 then stranger_cap
                 else (let multiplier = min (1 + sqroot trust_score) MAX_TRUST_MULTIPLIER
                       in \<lfloor>of_int stranger_cap * multiplier\<rfloor>));
          cap = (case peer_stake of None \<Rightarrow> cap | Some stake \<Rightarrow> min cap (max stake 0))
      in max cap MIN_STEP_STROOPS)"

definition max_safe_trade_stroops :: "int \<Rightarrow> int" where
  "max_safe_trade_stroops cap = \<lfloor>of_int cap * (of_int (MAX_INCREMENTS - 1) + PROBE_FRACTION)\<rfloor>"

section \<open>The schedule\<close>

definition increment_count :: "int \<Rightarrow> int \<Rightarrow> int res" where
  "increment_count xlm_total cap =
     (if xlm_total \<le> 0 then Inl ValueError
      else (let needed = \<lceil>(of_int xlm_total / of_int cap :: rat) + 1 - PROBE_FRACTION\<rceil>;
                n = max needed MIN_INCREMENTS
            in if n > MAX_INCREMENTS
               then Inl (TradeTooLarge xlm_total (max_safe_trade_stroops cap) cap)
               else Inr n))"

text \<open>
  The inner \<^verbatim>\<open>split\<close>. The two loops over the amounts add \<^verbatim>\<open>each\<close> to every body step and one to
  the first \<^verbatim>\<open>extra\<close> of them.
\<close>

definition split_body :: "int \<Rightarrow> int \<Rightarrow> int" where
  "split_body amt n = \<lfloor>(of_int amt :: rat) / (of_int (n - 1) + PROBE_FRACTION)\<rfloor>"

definition split_probe :: "int \<Rightarrow> int" where
  "split_probe body = max \<lfloor>of_int body * PROBE_FRACTION\<rfloor> 1"

definition split_total :: "int \<Rightarrow> int \<Rightarrow> int list" where
  "split_total n amt =
     (if n = 1 then [amt]
      else (let body = split_body amt n;
                probe = split_probe body;
                bodies = replicate (nat (n - 1)) body;
                short = amt - (probe + sum_list bodies)
            in if short > 0
               then (let each = short div (n - 1); extra = short mod (n - 1)
                     in probe # map (\<lambda>i. body + each + (if i < nat extra then 1 else 0)) [0..<nat (n - 1)])
               else probe # bodies))"

definition build_schedule :: "int \<Rightarrow> int \<Rightarrow> int \<Rightarrow> (int \<times> int) list res" where
  "build_schedule lapse_total xlm_total n =
     (if n < 1 then Inl ValueError
      else if lapse_total < n \<or> xlm_total < n then Inl ValueError
      else (let lapse_parts = split_total n lapse_total; xlm_parts = split_total n xlm_total
            in if sum_list lapse_parts \<noteq> lapse_total then Inl AssertionError
               else if sum_list xlm_parts \<noteq> xlm_total then Inl AssertionError
               else if list_ex (\<lambda>p. p < MIN_STEP_TICKS) lapse_parts then Inl ValueError
               else if list_ex (\<lambda>p. p < 1) xlm_parts then Inl ValueError
               else Inr (zip lapse_parts xlm_parts)))"

text \<open>The \<^verbatim>\<open>while\<close> loop of \<^verbatim>\<open>_plan_for_cap\<close>.\<close>

function plan_loop :: "int \<Rightarrow> int \<Rightarrow> int \<Rightarrow> int \<Rightarrow> ((int \<times> int) list \<times> int \<times> int) res" where
  "plan_loop lapse_total xlm_total cap n =
     (if n \<le> MAX_INCREMENTS then
        rbind (build_schedule lapse_total xlm_total n) (\<lambda>schedule.
          if Max (set (map snd schedule)) \<le> cap then Inr (schedule, n, cap)
          else plan_loop lapse_total xlm_total cap (n + 1))
      else Inl (TradeTooLarge xlm_total (max_safe_trade_stroops cap) cap))"
  by pat_completeness auto

termination by (relation "measure (\<lambda>(l, x, c, n). nat (MAX_INCREMENTS + 1 - n))") auto

declare plan_loop.simps [simp del]

definition plan_for_cap :: "int \<Rightarrow> int \<Rightarrow> int \<Rightarrow> ((int \<times> int) list \<times> int \<times> int) res" where
  "plan_for_cap lapse_total xlm_total cap =
     rbind (increment_count xlm_total cap) (plan_loop lapse_total xlm_total cap)"

definition plan :: "(rat \<Rightarrow> rat) \<Rightarrow> int \<Rightarrow> int \<Rightarrow> rat \<Rightarrow> int \<Rightarrow> int option
    \<Rightarrow> ((int \<times> int) list \<times> int \<times> int) res" where
  "plan sqroot lapse_total xlm_total trust_score stranger_cap peer_stake =
     plan_for_cap lapse_total xlm_total (exposure_cap_stroops sqroot trust_score stranger_cap peer_stake)"

definition mutual_exposure_cap_stroops :: "(rat \<Rightarrow> rat) \<Rightarrow> rat \<Rightarrow> rat \<Rightarrow> int \<Rightarrow> int option \<Rightarrow> int option \<Rightarrow> int" where
  "mutual_exposure_cap_stroops sqroot my_trust peer_trust stranger_cap peer_stake my_stake =
     min (exposure_cap_stroops sqroot my_trust stranger_cap peer_stake)
         (exposure_cap_stroops sqroot peer_trust stranger_cap my_stake)"

definition plan_mutual :: "(rat \<Rightarrow> rat) \<Rightarrow> int \<Rightarrow> int \<Rightarrow> rat \<Rightarrow> rat \<Rightarrow> int \<Rightarrow> int option \<Rightarrow> int option
    \<Rightarrow> ((int \<times> int) list \<times> int \<times> int) res" where
  "plan_mutual sqroot lapse_total xlm_total my_trust peer_trust stranger_cap peer_stake my_stake =
     plan_for_cap lapse_total xlm_total
       (mutual_exposure_cap_stroops sqroot my_trust peer_trust stranger_cap peer_stake my_stake)"

section \<open>Who moves first, and prices\<close>

definition opening_mover :: "rat \<Rightarrow> rat \<Rightarrow> string \<Rightarrow> string \<Rightarrow> bool" where
  "opening_mover my_trust_of_peer peer_trust_of_me my_addr peer_addr =
     (if my_trust_of_peer \<noteq> peer_trust_of_me then my_trust_of_peer > peer_trust_of_me
      else my_addr < peer_addr)"

definition i_move_first :: "int \<Rightarrow> bool \<Rightarrow> bool res" where
  "i_move_first step_n i_open =
     (if step_n < 1 then Inl ValueError
      else Inr (if step_n mod 2 = 1 then i_open else \<not> i_open))"

definition xlm_for_lapse :: "int \<Rightarrow> int \<Rightarrow> int res" where
  "xlm_for_lapse lapse_ticks price =
     (if price \<le> 0 then Inl ValueError else Inr (- (- lapse_ticks * price div TICKS_PER_LAPSE)))"

definition lapse_for_xlm :: "int \<Rightarrow> int \<Rightarrow> int res" where
  "lapse_for_xlm stroops price =
     (if price \<le> 0 then Inl ValueError else Inr (stroops * TICKS_PER_LAPSE div price))"

section \<open>The split is exact and even\<close>

text \<open>The body step in integer arithmetic: \<^verbatim>\<open>amt / (count - 1 + 0.25)\<close> is \<open>4 amt / (4 count - 3)\<close>.\<close>

lemma split_body_div:
  assumes "2 \<le> n"
  shows "split_body amt n = (4 * amt) div (4 * n - 3)"
proof -
  have "(of_int amt :: rat) / (of_int (n - 1) + 1 / 4) = of_int (4 * amt) / of_int (4 * n - 3)"
    using assms by (simp add: field_simps)
  then show ?thesis unfolding split_body_def PROBE_FRACTION_def by (simp only: floor_divide_of_int_eq)
qed

lemma split_probe_div: "split_probe body = max (body div 4) 1"
proof -
  have "(of_int body :: rat) * (1 / 4) = of_int body / of_int 4" by simp
  then have "\<lfloor>(of_int body :: rat) * (1 / 4)\<rfloor> = body div 4" by (simp only: floor_divide_of_int_eq)
  then show ?thesis by (simp add: split_probe_def PROBE_FRACTION_def)
qed

lemma sum_spread:
  assumes "e \<le> m"
  shows "sum_list (map (\<lambda>i. b + (if i < e then 1 else 0)) [0..<m]) = int m * b + (int e :: int)"
  using assms
proof (induction m)
  case (Suc m)
  then show ?case
  proof (cases "e = Suc m")
    case True
    have "sum_list (map (\<lambda>i. b + (if i < Suc m then 1 else 0)) [0..<Suc m]) = sum_list (map (\<lambda>i. b + 1) [0..<Suc m])"
      by (intro arg_cong[where f = sum_list] map_cong) auto
    with True show ?thesis by (simp add: sum_list_triv algebra_simps)
  next
    case False
    with Suc show ?thesis by (simp add: algebra_simps)
  qed
qed simp

text \<open>
  Everything about the split of one total, over two steps or more: the body is at least one, what
  is left over is less than one per body step, so a body step is \<open>body\<close> or \<open>body + 1\<close>.
\<close>

lemma split_shape:
  assumes n: "2 \<le> n" "n \<le> amt"
  defines "body \<equiv> split_body amt n"
  defines "probe \<equiv> split_probe body"
  shows "1 \<le> body" "probe \<le> body" "0 \<le> amt - (probe + (n - 1) * body)"
    "amt - (probe + (n - 1) * body) \<le> n - 1"
    "(4 * n - 3) * body \<le> 4 * amt" "body mod 4 = 0 \<longrightarrow> (4 * n - 3) * body = 4 * amt \<longrightarrow>
       amt - (probe + (n - 1) * body) = 0 \<or> body = 0"
proof -
  let ?d = "4 * n - 3"
  have d: "0 < ?d" using n by simp
  have b: "body = (4 * amt) div ?d" by (simp add: body_def split_body_div n)
  have lo: "?d * body \<le> 4 * amt" unfolding b using d pos_mod_sign[OF d, of "4 * amt"] by (simp add: minus_mod_eq_mult_div[symmetric])
  have hi: "4 * amt < ?d * body + ?d"
    unfolding b using pos_mod_bound[OF d, of "4 * amt"] by (simp add: minus_mod_eq_mult_div[symmetric])
  have "?d \<le> 4 * amt" using n by simp
  then show b1: "1 \<le> body" unfolding b using d
    by (metis div_self int_one_le_iff_zero_less less_irrefl zdiv_mono1 zero_less_one)
  have p: "probe = max (body div 4) 1" by (simp add: probe_def split_probe_div)
  show "probe \<le> body" unfolding p using b1 by auto
  have e: "?d * body = 4 * ((n - 1) * body) + body" by (simp add: algebra_simps)
  show "0 \<le> amt - (probe + (n - 1) * body)"
  proof (cases "4 \<le> body")
    case True
    then have "probe = body div 4" unfolding p by auto
    then have "4 * probe \<le> body" by simp
    with lo e show ?thesis by linarith
  next
    case False
    then have "probe = 1" unfolding p by auto
    with lo e b1 show ?thesis by linarith
  qed
  have "body - 3 \<le> 4 * probe" unfolding p by auto
  with hi e show "amt - (probe + (n - 1) * body) \<le> n - 1" using n by linarith
  show "?d * body \<le> 4 * amt" by (rule lo)
  show "body mod 4 = 0 \<longrightarrow> ?d * body = 4 * amt \<longrightarrow> amt - (probe + (n - 1) * body) = 0 \<or> body = 0"
  proof (intro impI)
    assume m: "body mod 4 = 0" and eq: "?d * body = 4 * amt"
    from m b1 have "4 * (body div 4) = body" "4 \<le> body" by presburger+
    then have "4 * probe = body" unfolding p by auto
    with eq e show "amt - (probe + (n - 1) * body) = 0 \<or> body = 0" by linarith
  qed
qed

lemma split_total_facts:
  assumes n: "1 \<le> n" "n \<le> amt"
  shows "length (split_total n amt) = nat n \<and> sum_list (split_total n amt) = amt
    \<and> (\<forall>p\<in>set (split_total n amt). 1 \<le> p)
    \<and> (2 \<le> n \<longrightarrow> hd (split_total n amt) = split_probe (split_body amt n)
        \<and> (\<forall>p\<in>set (tl (split_total n amt)). p = split_body amt n \<or> p = split_body amt n + 1)
        \<and> (amt = split_probe (split_body amt n) + (n - 1) * split_body amt n \<longrightarrow>
             (\<forall>p\<in>set (tl (split_total n amt)). p = split_body amt n)))"
proof (cases "n = 1")
  case True
  with n show ?thesis by (simp add: split_total_def)
next
  case False
  with n have n2: "2 \<le> n" by simp
  define body where "body = split_body amt n"
  define probe where "probe = split_probe body"
  define m where "m = nat (n - 1)"
  define short where "short = amt - (probe + (n - 1) * body)"
  have m: "int m = n - 1" using n2 by (simp add: m_def)
  note sh = split_shape[OF n2 n(2), folded body_def, folded probe_def, folded short_def]
  have p1: "1 \<le> probe" by (simp add: probe_def split_probe_def)
  have sb: "sum_list (replicate m body) = (n - 1) * body" using m by (simp add: sum_list_replicate)
  show ?thesis
  proof (cases "0 < short")
    case True
    define each where "each = short div (n - 1)"
    define extra where "extra = short mod (n - 1)"
    have st: "split_total n amt = probe # map (\<lambda>i. body + each + (if i < nat extra then 1 else 0)) [0..<m]"
      using True False sb
      by (simp add: split_total_def Let_def body_def[symmetric] probe_def[symmetric] m_def[symmetric]
          short_def each_def extra_def)
    have ex: "0 \<le> extra" "extra < n - 1" using n2 by (simp_all add: extra_def)
    have se: "short = each * (n - 1) + extra" unfolding each_def extra_def by (simp only: div_mult_mod_eq)
    have sum: "sum_list (split_total n amt) = amt"
    proof -
      have "sum_list (map (\<lambda>i. body + each + (if i < nat extra then 1 else 0)) [0..<m]) = int m * (body + each) + int (nat extra)"
        by (rule sum_spread) (use ex m in simp)
      also have "\<dots> = (n - 1) * (body + each) + extra" using m ex by simp
      also have "\<dots> = (n - 1) * body + short" unfolding se by (simp add: algebra_simps)
      finally show ?thesis unfolding st short_def by simp
    qed
    have step: "body + each + (if i < nat extra then 1 else 0) \<in> {body, body + 1}" for i
    proof (cases "short = n - 1")
      case True
      then have "each = 1" "extra = 0" using n2 by (simp_all add: each_def extra_def)
      then show ?thesis by simp
    next
      case False
      with sh(4) \<open>0 < short\<close> have "each = 0" unfolding each_def by (intro div_pos_pos_trivial) auto
      then show ?thesis by simp
    qed
    have tlset: "\<forall>p\<in>set (tl (split_total n amt)). p = body \<or> p = body + 1"
      unfolding st using step by auto
    have len: "length (split_total n amt) = nat n" unfolding st using m n2 by simp
    have ge1: "\<forall>p\<in>set (split_total n amt). 1 \<le> p"
    proof
      fix p assume "p \<in> set (split_total n amt)"
      then have "p = probe \<or> p \<in> set (tl (split_total n amt))" unfolding st by auto
      with tlset sh(1) p1 show "1 \<le> p" by fastforce
    qed
    have "hd (split_total n amt) = probe" unfolding st by simp
    moreover have "amt \<noteq> probe + (n - 1) * body" using True by (simp add: short_def)
    ultimately show ?thesis
      using sum tlset len ge1 by (simp add: body_def probe_def)
  next
    case z: False
    have st: "split_total n amt = probe # replicate m body"
      using False z sb
      by (simp add: split_total_def Let_def body_def[symmetric] probe_def[symmetric] m_def[symmetric] short_def)
    have "sum_list (split_total n amt) = amt" using st sb z sh(3) by (simp add: short_def)
    moreover have "length (split_total n amt) = nat n" unfolding st using m n2 by simp
    moreover have "\<forall>p\<in>set (split_total n amt). 1 \<le> p" unfolding st using p1 sh(1) by auto
    ultimately show ?thesis unfolding st by (simp add: body_def probe_def)
  qed
qed

lemma schedule_exact:
  assumes "1 \<le> n" and "n \<le> lapse_total" and "n \<le> xlm_total"
  shows "\<exists>sched. build_schedule lapse_total xlm_total n = Inr sched \<and> length sched = nat n
    \<and> sum_list (map fst sched) = lapse_total \<and> sum_list (map snd sched) = xlm_total
    \<and> (\<forall>(l, x)\<in>set sched. 1 \<le> l \<and> 1 \<le> x \<and> fst (hd sched) \<le> l \<and> snd (hd sched) \<le> x)"
proof -
  let ?l = "split_total n lapse_total" and ?x = "split_total n xlm_total"
  have first: "hd (split_total n amt) \<le> p" if a: "n \<le> amt" and p: "p \<in> set (split_total n amt)" for amt p
  proof (cases "n = 1")
    case True
    with p show ?thesis by (simp add: split_total_def)
  next
    case False
    with assms(1) have n2: "2 \<le> n" by simp
    note f = split_total_facts[OF assms(1) a]
    have "split_total n amt \<noteq> []" using p by auto
    then have "p = hd (split_total n amt) \<or> p \<in> set (tl (split_total n amt))"
      using p by (cases "split_total n amt") auto
    then show ?thesis using f n2 split_shape(2)[OF n2 a] by fastforce
  qed
  note fl = split_total_facts[OF assms(1,2)] and fx = split_total_facts[OF assms(1,3)]
  have len: "length ?l = length ?x" "length ?l = nat n" using fl fx by simp_all
  have "\<not> list_ex (\<lambda>p. p < MIN_STEP_TICKS) ?l" "\<not> list_ex (\<lambda>p. p < 1) ?x"
    using fl fx by (auto simp: list_ex_iff MIN_STEP_TICKS_def)
  then have b: "build_schedule lapse_total xlm_total n = Inr (zip ?l ?x)"
    using assms fl fx by (simp add: build_schedule_def Let_def)
  have ne: "?l \<noteq> []" "?x \<noteq> []" using len assms(1) by auto
  have hds: "fst (hd (zip ?l ?x)) = hd ?l" "snd (hd (zip ?l ?x)) = hd ?x" using ne by (simp_all add: hd_zip)
  have "1 \<le> l \<and> 1 \<le> x \<and> fst (hd (zip ?l ?x)) \<le> l \<and> snd (hd (zip ?l ?x)) \<le> x" if "(l, x) \<in> set (zip ?l ?x)" for l x
    using set_zip_leftD[OF that] set_zip_rightD[OF that] fl fx first[OF assms(2)] first[OF assms(3)]
    unfolding hds by blast
  with b len fl fx show ?thesis by (intro exI[of _ "zip ?l ?x"]) auto
qed


section \<open>The plan bounds the loss\<close>

text \<open>The step count in integer arithmetic.\<close>

lemma increment_count_div:
  assumes "0 < cap" "0 < amt"
  shows "increment_count amt cap = (let n = max (- ((- (4 * amt + 3 * cap)) div (4 * cap))) 2
    in if n > 20 then Inl (TradeTooLarge amt (max_safe_trade_stroops cap) cap) else Inr n)"
proof -
  have "(of_int amt / of_int cap :: rat) + 1 - 1 / 4 = of_int (4 * amt + 3 * cap) / of_int (4 * cap)"
    using assms(1) by (simp add: field_simps)
  then have "\<lceil>(of_int amt / of_int cap :: rat) + 1 - 1 / 4\<rceil> = - ((- (4 * amt + 3 * cap)) div (4 * cap))"
    by (simp only: ceiling_divide_eq_div)
  with assms(2) show ?thesis
    by (simp add: increment_count_def PROBE_FRACTION_def MIN_INCREMENTS_def MAX_INCREMENTS_def Let_def)
qed

lemma max_safe_div: "max_safe_trade_stroops cap = (77 * cap) div 4"
proof -
  have "(of_int cap :: rat) * (of_int (MAX_INCREMENTS - 1) + PROBE_FRACTION) = of_int (77 * cap) / of_int 4"
    by (simp add: MAX_INCREMENTS_def PROBE_FRACTION_def field_simps)
  then show ?thesis unfolding max_safe_trade_stroops_def by (simp only: floor_divide_of_int_eq)
qed

text \<open>A count that was solved for keeps \<open>4 amt \<le> (4 n - 3) cap\<close>, and it exists up to the limit named.\<close>

lemma increment_count_Inr:
  assumes "0 < cap" "increment_count amt cap = Inr n"
  shows "2 \<le> n \<and> n \<le> 20 \<and> 4 * amt \<le> (4 * n - 3) * cap \<and> 0 < amt"
proof -
  have pos: "0 < amt" using assms(2) by (auto simp: increment_count_def split: if_splits)
  define q where "q = - ((- (4 * amt + 3 * cap)) div (4 * cap))"
  have "n = max q 2" "n \<le> 20"
    using assms(2) unfolding increment_count_div[OF assms(1) pos] q_def[symmetric]
    by (auto simp: Let_def split: if_splits)
  moreover have "4 * amt + 3 * cap \<le> (4 * cap) * q"
    unfolding q_def using assms(1) pos_mod_sign[of "4 * cap" "- (4 * amt + 3 * cap)"]
    by (simp add: minus_mod_eq_mult_div[symmetric])
  moreover have "(4 * cap) * q \<le> (4 * cap) * n" using assms(1) calculation(1) by (intro mult_left_mono) auto
  ultimately show ?thesis using pos by (auto simp: algebra_simps)
qed

lemma increment_count_exists:
  assumes "0 < cap" "0 < amt" "amt \<le> max_safe_trade_stroops cap"
  shows "\<exists>n. increment_count amt cap = Inr n"
proof -
  define q where "q = - ((- (4 * amt + 3 * cap)) div (4 * cap))"
  have "4 * amt \<le> 77 * cap" using assms(3) unfolding max_safe_div by linarith
  then have "(- 20) * (4 * cap) \<le> - (4 * amt + 3 * cap)" by linarith
  then have "((- 20) * (4 * cap)) div (4 * cap) \<le> (- (4 * amt + 3 * cap)) div (4 * cap)"
    using assms(1) by (intro zdiv_mono1) auto
  moreover have "((- 20) * (4 * cap)) div (4 * cap) = - 20" using assms(1) by (intro nonzero_mult_div_cancel_right) simp
  ultimately have "q \<le> 20" unfolding q_def by linarith
  then show ?thesis unfolding increment_count_div[OF assms(1,2)] q_def[symmetric] by (auto simp: Let_def)
qed

text \<open>With a count that was solved for, no step of the first schedule is above the cap.\<close>

lemma split_within_cap:
  assumes n: "2 \<le> n" "n \<le> amt" and cap: "0 < cap" "4 * amt \<le> (4 * n - 3) * cap"
    and p: "p \<in> set (split_total n amt)"
  shows "p \<le> cap"
proof -
  let ?b = "split_body amt n"
  note sh = split_shape[OF n] and f = split_total_facts[of n amt]
  have "(4 * n - 3) * ?b \<le> (4 * n - 3) * cap" using sh(5) cap(2) by linarith
  then have bc: "?b \<le> cap" using n(1) by simp
  have f': "hd (split_total n amt) = split_probe ?b"
    "\<forall>p\<in>set (tl (split_total n amt)). p = ?b \<or> p = ?b + 1"
    "amt = split_probe ?b + (n - 1) * ?b \<longrightarrow> (\<forall>p\<in>set (tl (split_total n amt)). p = ?b)"
    using f n by simp_all
  from p have "p = hd (split_total n amt) \<or> p \<in> set (tl (split_total n amt))"
    by (cases "split_total n amt") auto
  then consider "p = split_probe ?b" | "p \<in> set (tl (split_total n amt))" using f'(1) by auto
  then show ?thesis
  proof cases
    case 1
    with sh(2) bc show ?thesis by simp
  next
    case 2
    show ?thesis
    proof (cases "?b = cap")
      case True
      with cap(2) sh(5) have eq: "(4 * n - 3) * ?b = 4 * amt" by simp
      have "?b = 4 * (amt - (n - 1) * ?b)" using eq by (simp add: algebra_simps)
      then have m: "?b mod 4 = 0" by (metis mod_mult_self1_is_0)
      from sh(6) m eq have "amt - (split_probe ?b + (n - 1) * ?b) = 0 \<or> ?b = 0" by blast
      with sh(1) f'(3) 2 have "p = ?b" by auto
      with bc show ?thesis by simp
    next
      case False
      with bc f'(2) 2 show ?thesis by fastforce
    qed
  qed
qed

lemma plan_loop_Inr:
  assumes "plan_loop l x cap n = Inr (sched, k, c)" "1 \<le> n"
  shows "n \<le> k \<and> k \<le> 20 \<and> c = cap \<and> build_schedule l x k = Inr sched \<and> (\<forall>p\<in>set sched. snd p \<le> cap)"
  using assms
proof (induction l x cap n rule: plan_loop.induct)
  case (1 l x cap n)
  from "1.prems"(1) obtain s where s: "n \<le> MAX_INCREMENTS" "build_schedule l x n = Inr s"
      "(if Max (set (map snd s)) \<le> cap then Inr (s, n, cap) else plan_loop l x cap (n + 1)) = Inr (sched, k, c)"
    by (subst (asm) plan_loop.simps) (auto simp: rbind_Inr_conv split: if_splits)
  show ?case
  proof (cases "Max (set (map snd s)) \<le> cap")
    case True
    then have "\<forall>p\<in>set s. snd p \<le> cap" by (metis List.finite_set Max_ge imageI list.set_map order_trans)
    with s True show ?thesis by (simp add: MAX_INCREMENTS_def)
  next
    case False
    with "1.IH"[OF s(1,2) False] s(3) "1.prems"(2) show ?thesis by simp
  qed
qed

lemma build_schedule_Inr:
  "build_schedule l x n = Inr sched \<Longrightarrow> 1 \<le> n \<and> n \<le> l \<and> n \<le> x"
  by (auto simp: build_schedule_def split: if_splits)

lemma exposure_cap_min: "MIN_STEP_STROOPS \<le> exposure_cap_stroops sqroot t stranger stake"
  unfolding exposure_cap_stroops_def Let_def by (rule max.cobounded2)

lemma mutual_cap_pos: "0 < mutual_exposure_cap_stroops sqroot a b stranger s s'"
  using exposure_cap_min[of sqroot a stranger s] exposure_cap_min[of sqroot b stranger s']
  by (simp add: mutual_exposure_cap_stroops_def MIN_STEP_STROOPS_def)

text \<open>Whatever the trust, the stake and the totals, a planned trade never puts more than the cap at risk
  in one step: if a mutual plan is made, every step is at most the cap that each side alone would allow
  the other, there are 2 to 20 steps, and they add up to both totals exactly.\<close>

theorem plan_bounds_loss:
  assumes "plan_mutual sqroot lapse_total xlm_total mine theirs stranger_cap peer_stake my_stake
    = Inr (sched, n, cap)"
  shows "(\<forall>(l, x)\<in>set sched. 1 \<le> l \<and> 1 \<le> x \<and> x \<le> cap)
    \<and> cap \<le> exposure_cap_stroops sqroot mine stranger_cap peer_stake
    \<and> cap \<le> exposure_cap_stroops sqroot theirs stranger_cap my_stake
    \<and> 2 \<le> n \<and> n \<le> 20 \<and> length sched = nat n
    \<and> sum_list (map fst sched) = lapse_total \<and> sum_list (map snd sched) = xlm_total"
proof -
  let ?c = "mutual_exposure_cap_stroops sqroot mine theirs stranger_cap peer_stake my_stake"
  have cpos: "0 < ?c" by (rule mutual_cap_pos)
  from assms obtain k where k: "increment_count xlm_total ?c = Inr k"
      "plan_loop lapse_total xlm_total ?c k = Inr (sched, n, cap)"
    by (auto simp: plan_mutual_def plan_for_cap_def rbind_Inr_conv)
  from increment_count_Inr[OF cpos k(1)] have "2 \<le> k" by simp
  with plan_loop_Inr[OF k(2)] have p: "2 \<le> n" "n \<le> 20" "cap = ?c"
      "build_schedule lapse_total xlm_total n = Inr sched" "\<forall>p\<in>set sched. snd p \<le> cap" by auto
  from build_schedule_Inr[OF p(4)] obtain s where s: "build_schedule lapse_total xlm_total n = Inr s"
      "length s = nat n" "sum_list (map fst s) = lapse_total" "sum_list (map snd s) = xlm_total"
      "\<forall>(l, x)\<in>set s. 1 \<le> l \<and> 1 \<le> x" using schedule_exact[of n lapse_total xlm_total] by fast
  with p(4) have "s = sched" by simp
  moreover have "?c \<le> exposure_cap_stroops sqroot mine stranger_cap peer_stake"
    "?c \<le> exposure_cap_stroops sqroot theirs stranger_cap my_stake"
    by (simp_all add: mutual_exposure_cap_stroops_def)
  ultimately show ?thesis using s p by auto
qed

text \<open>The stated limit is the real one: with a positive cap, a trade is planned exactly when its
  amount is positive, at most \<^verbatim>\<open>max_safe_trade_stroops\<close>, and both totals have a unit per step of the count
  that was solved for; the plan is then the first schedule built, its retry loop never runs. Above the
  limit the refusal names it.\<close>

theorem plan_accepts_up_to_limit:
  assumes "0 < cap" and "0 < xlm_total"
  shows "if xlm_total \<le> max_safe_trade_stroops cap
    then (\<exists>n. increment_count xlm_total cap = Inr n \<and> 2 \<le> n \<and> n \<le> 20
      \<and> plan_for_cap lapse_total xlm_total cap
         = (if n \<le> lapse_total \<and> n \<le> xlm_total
            then rbind (build_schedule lapse_total xlm_total n) (\<lambda>s. Inr (s, n, cap))
            else Inl ValueError))
    else plan_for_cap lapse_total xlm_total cap
      = Inl (TradeTooLarge xlm_total (max_safe_trade_stroops cap) cap)"
proof (cases "xlm_total \<le> max_safe_trade_stroops cap")
  case True
  from increment_count_exists[OF assms True] obtain n where n: "increment_count xlm_total cap = Inr n" by blast
  from increment_count_Inr[OF assms(1) n] have b: "2 \<le> n" "n \<le> 20" "4 * xlm_total \<le> (4 * n - 3) * cap" by auto
  have "plan_loop lapse_total xlm_total cap n
      = (if n \<le> lapse_total \<and> n \<le> xlm_total
         then rbind (build_schedule lapse_total xlm_total n) (\<lambda>s. Inr (s, n, cap)) else Inl ValueError)"
  proof (cases "n \<le> lapse_total \<and> n \<le> xlm_total")
    case fit: True
    then have "1 \<le> n" "n \<le> lapse_total" "n \<le> xlm_total" using b by auto
    from schedule_exact[OF this] obtain s where s: "build_schedule lapse_total xlm_total n = Inr s"
        "length s = nat n" by blast
    have "map snd s = split_total n xlm_total"
    proof -
      have "s = zip (split_total n lapse_total) (split_total n xlm_total)"
        using s(1) by (auto simp: build_schedule_def Let_def split: if_splits)
      moreover have "length (split_total n lapse_total) = length (split_total n xlm_total)"
        using split_total_facts[of n lapse_total] split_total_facts[of n xlm_total] fit b by simp
      ultimately show ?thesis by simp
    qed
    then have "\<forall>p\<in>set (map snd s). p \<le> cap"
      using split_within_cap[OF b(1) _ assms(1) b(3)] fit by simp
    moreover have "set (map snd s) \<noteq> {}" using s(2) b(1) by auto
    ultimately have "Max (set (map snd s)) \<le> cap" using Max.boundedI[of "set (map snd s)" cap] by blast
    with s(1) fit b(2) show ?thesis by (subst plan_loop.simps) (simp add: MAX_INCREMENTS_def)
  next
    case False
    with b show ?thesis by (subst plan_loop.simps) (auto simp: MAX_INCREMENTS_def build_schedule_def)
  qed
  with True n b(1,2) show ?thesis by (simp add: plan_for_cap_def)
next
  case False
  have "increment_count xlm_total cap = Inl (TradeTooLarge xlm_total (max_safe_trade_stroops cap) cap)"
  proof (rule ccontr)
    assume no: "increment_count xlm_total cap \<noteq> Inl (TradeTooLarge xlm_total (max_safe_trade_stroops cap) cap)"
    then obtain n where n: "increment_count xlm_total cap = Inr n"
      unfolding increment_count_div[OF assms] by (auto simp: Let_def split: if_splits)
    from increment_count_Inr[OF assms(1) n] have "n \<le> 20" "4 * xlm_total \<le> (4 * n - 3) * cap" by auto
    moreover from this(1) assms(1) have "(4 * n - 3) * cap \<le> 77 * cap" by (intro mult_right_mono) auto
    ultimately have "4 * xlm_total \<le> 77 * cap" by linarith
    then have "xlm_total \<le> max_safe_trade_stroops cap" unfolding max_safe_div by linarith
    with False show False by simp
  qed
  with False show ?thesis by (simp add: plan_for_cap_def)
qed

section \<open>Trust raises the cap within bounds\<close>

text \<open>The exposure cap stays bounded: with a square root that is non-negative, the cap for any trust is
  at most twenty times the stranger cap and at least the stranger cap (or the 1000-stroop floor) when
  no stake is known; a known stake caps it too, and the mutual cap is the same from both sides.\<close>

theorem exposure_cap_bounds:
  assumes "\<And>x. 0 \<le> x \<Longrightarrow> 0 \<le> sqroot x" and "MIN_STEP_STROOPS \<le> stranger_cap"
  shows "stranger_cap \<le> exposure_cap_stroops sqroot t stranger_cap None
    \<and> exposure_cap_stroops sqroot t stranger_cap stake \<le> 20 * stranger_cap
    \<and> exposure_cap_stroops sqroot t stranger_cap (Some k) \<le> max k MIN_STEP_STROOPS
    \<and> mutual_exposure_cap_stroops sqroot t u stranger_cap a b
      = mutual_exposure_cap_stroops sqroot u t stranger_cap b a"
proof -
  define c where "c = (if t \<le> 0 then stranger_cap
    else \<lfloor>of_int stranger_cap * min (1 + sqroot t) MAX_TRUST_MULTIPLIER\<rfloor>)"
  have s: "0 \<le> (of_int stranger_cap :: rat)" using assms(2) by (simp add: MIN_STEP_STROOPS_def)
  have c: "stranger_cap \<le> c \<and> c \<le> 20 * stranger_cap"
  proof (cases "t \<le> 0")
    case True
    with assms(2) show ?thesis by (simp add: c_def MIN_STEP_STROOPS_def)
  next
    case False
    let ?m = "min (1 + sqroot t) MAX_TRUST_MULTIPLIER"
    have m: "1 \<le> ?m" "?m \<le> 20" using assms(1)[of t] False by (auto simp: MAX_TRUST_MULTIPLIER_def)
    have "of_int stranger_cap * 1 \<le> of_int stranger_cap * ?m" by (rule mult_left_mono[OF m(1) s])
    then have "stranger_cap \<le> \<lfloor>of_int stranger_cap * ?m\<rfloor>" by (simp add: le_floor_iff)
    moreover have "of_int stranger_cap * ?m \<le> of_int stranger_cap * 20" by (rule mult_left_mono[OF m(2) s])
    then have "\<lfloor>of_int stranger_cap * ?m\<rfloor> \<le> 20 * stranger_cap"
      by (simp add: floor_le_iff mult.commute)
    ultimately show ?thesis using False by (simp add: c_def)
  qed
  have e: "exposure_cap_stroops sqroot t stranger_cap x
      = max (case x of None \<Rightarrow> c | Some v \<Rightarrow> min c (max v 0)) MIN_STEP_STROOPS" for x
    by (simp only: exposure_cap_stroops_def c_def Let_def)
  have "MIN_STEP_STROOPS \<le> 20 * stranger_cap" using assms(2) by (simp add: MIN_STEP_STROOPS_def)
  with c have "exposure_cap_stroops sqroot t stranger_cap stake \<le> 20 * stranger_cap"
    unfolding e by (cases stake) auto
  moreover have "exposure_cap_stroops sqroot t stranger_cap (Some k) \<le> max k MIN_STEP_STROOPS"
    unfolding e by (auto simp: MIN_STEP_STROOPS_def)
  moreover have "stranger_cap \<le> exposure_cap_stroops sqroot t stranger_cap None" unfolding e using c by auto
  ultimately show ?thesis by (simp add: mutual_exposure_cap_stroops_def min.commute)
qed

section \<open>Both sides agree on who moves\<close>

text \<open>Two parties with different addresses always agree who opens and who sends first on every step:
  each computes it from its own side, exactly one of the two moves first, and the first move
  alternates from one step to the next.\<close>

theorem exactly_one_moves_first:
  assumes "my_addr \<noteq> peer_addr" and "1 \<le> n"
  shows "opening_mover my_trust peer_trust my_addr peer_addr = (\<not> opening_mover peer_trust my_trust peer_addr my_addr)
    \<and> (\<exists>b. i_move_first n (opening_mover my_trust peer_trust my_addr peer_addr) = Inr b
         \<and> i_move_first n (opening_mover peer_trust my_trust peer_addr my_addr) = Inr (\<not> b)
         \<and> i_move_first (n + 1) (opening_mover my_trust peer_trust my_addr peer_addr) = Inr (\<not> b))"
proof -
  have o: "opening_mover my_trust peer_trust my_addr peer_addr = (\<not> opening_mover peer_trust my_trust peer_addr my_addr)"
    using assms(1) by (auto simp: opening_mover_def)
  have "n mod 2 = 1 \<longleftrightarrow> (n + 1) mod 2 \<noteq> 1" by presburger
  with assms(2) show ?thesis unfolding o by (auto simp: i_move_first_def)
qed

section \<open>Prices\<close>

text \<open>The price of an amount is the exact ceiling, never less than the amount is worth and less than one
  stroop above it; and what a number of stroops buys always costs no more than those stroops.\<close>

theorem prices_round_up:
  assumes "0 < price"
  shows "\<exists>c. xlm_for_lapse ticks price = Inr c
    \<and> ticks * price \<le> c * TICKS_PER_LAPSE \<and> c * TICKS_PER_LAPSE < ticks * price + TICKS_PER_LAPSE
    \<and> (\<exists>l c'. lapse_for_xlm stroops price = Inr l \<and> xlm_for_lapse l price = Inr c' \<and> c' \<le> stroops)"
proof -
  let ?T = TICKS_PER_LAPSE
  have T: "0 < ?T" by (simp add: TICKS_PER_LAPSE_def)
  have up: "k \<le> - (- k div ?T) * ?T \<and> - (- k div ?T) * ?T < k + ?T" for k
    using pos_mod_sign[OF T, of "- k"] pos_mod_bound[OF T, of "- k"] div_mult_mod_eq[of "- k" ?T] by linarith
  let ?l = "stroops * ?T div price"
  have "?l * price \<le> stroops * ?T"
    using pos_mod_sign[OF assms, of "stroops * ?T"] div_mult_mod_eq[of "stroops * ?T" price] by linarith
  with up[of "?l * price"] have "- (- (?l * price) div ?T) * ?T < (stroops + 1) * ?T" by (simp add: algebra_simps)
  then have "- (- (?l * price) div ?T) < stroops + 1" by (rule mult_right_less_imp_less) (use T in simp)
  then show ?thesis using assms up[of "ticks * price"] by (simp add: xlm_for_lapse_def lapse_for_xlm_def)
qed

section \<open>Session tags\<close>

lemma hexval_not:
  assumes "hexval c \<noteq> None"
  shows "c \<noteq> CHR '':''" "c \<noteq> CHR ''+''" "c \<noteq> CHR ''-''" "c \<noteq> CHR ''x''" "c \<noteq> CHR ''X''" "c \<noteq> CHR ''_''"
    "\<not> str_space c"
proof -
  let ?n = "of_char c :: nat"
  have n: "(48 \<le> ?n \<and> ?n \<le> 57) \<or> (97 \<le> ?n \<and> ?n \<le> 102) \<or> (65 \<le> ?n \<and> ?n \<le> 70)"
    using assms by (auto simp: hexval_def Let_def split: if_splits)
  then show "c \<noteq> CHR '':''" "c \<noteq> CHR ''+''" "c \<noteq> CHR ''-''" "c \<noteq> CHR ''x''" "c \<noteq> CHR ''X''" "c \<noteq> CHR ''_''"
    by auto
  from n show "\<not> str_space c" by (auto simp: str_space_def Let_def)
qed

lemma strip_id: "list_all (\<lambda>c. \<not> str_space c) s \<Longrightarrow> strip s = s"
proof -
  assume a: "list_all (\<lambda>c. \<not> str_space c) s"
  then have "dropWhile str_space s = s" by (cases s) auto
  moreover have "dropWhile str_space (rev s) = rev s" using a by (cases "rev s") (auto simp: list_all_iff)
  ultimately show ?thesis by (simp add: strip_def)
qed

lemma hex_body_all: "s \<noteq> [] \<Longrightarrow> list_all (\<lambda>c. hexval c \<noteq> None) s \<Longrightarrow> hex_body s"
proof (induction s rule: hex_body.induct)
  case (3 c d s)
  then have "d \<noteq> CHR ''_''" by (intro hexval_not(6)) simp
  with 3 show ?case by simp
qed auto

lemma int16_hex:
  assumes "list_all (\<lambda>c. hexval c \<noteq> None) s" "s \<noteq> []"
  shows "int16_ok s"
proof -
  have "strip s = s" using assms(1) hexval_not(7) by (intro strip_id) (auto simp: list_all_iff)
  moreover have "drop_sign s = s" using assms hexval_not(2,3) by (cases s) auto
  moreover have "drop_0x s = s" using assms(1) hexval_not(4,5) by (cases s rule: drop_0x.cases) auto
  ultimately show ?thesis using hex_body_all[OF assms(2,1)] by (simp add: int16_ok_def)
qed

text \<open>Decimal strings read back.\<close>

lemma decimal_digit: "n < 10 \<Longrightarrow> decimal (char_of (48 + n)) = Some n"
  by (simp add: decimal_def Let_def)

lemma digits_decimal:
  "list_all (\<lambda>c. decimal c \<noteq> None) (digits n) \<and> foldl (\<lambda>n c. 10 * n + the (decimal c)) 0 (digits n) = n"
proof (induction n rule: digits.induct)
  case (1 n)
  show ?case
  proof (cases "n < 10")
    case True
    then show ?thesis by (subst (1 2) digits.simps) (simp add: decimal_digit)
  next
    case False
    with 1 have IH: "list_all (\<lambda>c. decimal c \<noteq> None) (digits (n div 10))"
      "foldl (\<lambda>n c. 10 * n + the (decimal c)) 0 (digits (n div 10)) = n div 10" by blast+
    have "decimal (char_of (48 + n mod 10)) = Some (n mod 10)" by (rule decimal_digit) simp
    with False IH show ?thesis by (subst (1 2) digits.simps) simp
  qed
qed

lemma digits_ne: "digits n \<noteq> []"
  by (subst digits.simps) simp

lemma length_digits: "n < 10 ^ Suc k \<Longrightarrow> length (digits n) \<le> Suc k"
proof (induction k arbitrary: n)
  case 0
  then show ?case by (subst digits.simps) simp
next
  case (Suc k)
  show ?case
  proof (cases "n < 10")
    case False
    have "n div 10 < 10 ^ Suc k" using Suc.prems by (simp add: less_mult_imp_div_less mult.commute)
    from Suc.IH[OF this] False show ?thesis by (subst digits.simps) simp
  qed (subst digits.simps, simp)
qed

lemma utf8_ascii: "list_all (\<lambda>c. (of_char c :: nat) < 128) s \<Longrightarrow> length (utf8_encode s) = length s"
  by (induction s) (auto simp: utf8_encode_def Let_def)

text \<open>A tag reads back: for an order id and a session id that start with eight hex digits (dashes of the
  order id aside) and a step number below ten billion, \<^verbatim>\<open>session_tag\<close> builds a tag of at most 28
  bytes and \<^verbatim>\<open>parse_session_tag\<close> returns the two prefixes and the step.\<close>

theorem session_tag_roundtrip:
  fixes order_id session_id :: string and n :: int
  defines "o8 \<equiv> take 8 (filter (\<lambda>c. c \<noteq> CHR ''-'') order_id)" and "s8 \<equiv> take 8 session_id"
  assumes "length o8 = 8" and "list_all (\<lambda>c. hexval c \<noteq> None) o8"
    and "length s8 = 8" and "list_all (\<lambda>c. hexval c \<noteq> None) s8"
    and "0 \<le> n" and "n < 10 ^ 10"
  shows "\<exists>tag. session_tag order_id session_id n = Inr tag \<and> length (utf8_encode tag) \<le> 28
    \<and> parse_session_tag (JStr tag) = Inr (Some (o8, s8, n))"
proof -
  let ?d = "digits (nat n)"
  define tag where "tag = o8 @ '':'' @ s8 @ '':'' @ ?d"
  have d: "list_all (\<lambda>c. decimal c \<noteq> None) ?d" "foldl (\<lambda>n c. 10 * n + the (decimal c)) 0 ?d = nat n"
    using digits_decimal by blast+
  have "nat n < 10 ^ Suc 9" using assms(8) by simp
  then have ld: "length ?d \<le> 10" using length_digits[of "nat n" 9] by simp
  have hexlt: "(of_char c :: nat) < 128" if "hexval c \<noteq> None" for c
    using that by (auto simp: hexval_def Let_def split: if_splits)
  have declt: "(of_char c :: nat) < 128 \<and> c \<noteq> CHR '':''" if "decimal c \<noteq> None" for c
    using that by (auto simp: decimal_def Let_def split: if_splits)
  have "list_all (\<lambda>c. (of_char c :: nat) < 128) tag"
    using assms(4,6) d(1) hexlt declt by (auto simp: tag_def list_all_iff)
  then have len: "length (utf8_encode tag) \<le> 28"
    using ld assms(3,5) by (simp add: utf8_ascii tag_def)
  have sp: "split_on CHR '':'' tag = [o8, s8, ?d]"
  proof -
    have "CHR '':'' \<notin> set o8" "CHR '':'' \<notin> set s8" "CHR '':'' \<notin> set ?d"
      using assms(4,6) d(1) hexval_not(1) declt unfolding list_all_iff by metis+
    then show ?thesis unfolding tag_def by (simp add: split_on_append_word split_on_word)
  qed
  have ne: "o8 \<noteq> []" "s8 \<noteq> []" using assms(3,5) by auto
  have st: "session_tag order_id session_id n = Inr tag"
  proof -
    have "py_str n = ?d" using assms(7) by (simp add: py_str_def)
    then have "session_tag order_id session_id n = (if length (utf8_encode tag) > 28 then Inl ValueError else Inr tag)"
      unfolding session_tag_def tag_def o8_def s8_def Let_def ORDER_TAG_LEN_def SESSION_TAG_LEN_def by simp
    with len show ?thesis by simp
  qed
  have "py_isdigit ?d" using d(1) digits_ne by (auto simp: py_isdigit_def list_all_iff)
  moreover have "py_int10 ?d = Inr n" using d assms(7) by (simp add: py_int10_def)
  ultimately have "parse_session_tag (JStr tag) = Inr (Some (o8, s8, n))"
    using sp int16_hex assms(3-6) ne
    by (simp add: parse_session_tag_def is_hex_of_length_def ORDER_TAG_LEN_def SESSION_TAG_LEN_def)
  with st len show ?thesis by blast
qed

text \<open>The parser is not as strict as its description: prefixes with a \<^verbatim>\<open>0x\<close>, upper case, a sign or
  underscores pass as lowercase hex, because \<^verbatim>\<open>int(s, 16)\<close> takes them, and a superscript digit in the
  step number passes \<^verbatim>\<open>isdigit\<close> and makes the parser raise instead of returning None.\<close>

theorem session_tag_parser_lenient:
  "parse_session_tag (JStr ''0xABCDEF:+1_2_3_4:7'') = Inr (Some (''0xABCDEF'', ''+1_2_3_4'', 7))
   \<and> parse_session_tag (JStr (''00000000:00000000:'' @ [CHR 0xB2])) = Inl ValueError"
  by code_simp

section \<open>Examples\<close>


lemma demo_plan: "plan_mutual (\<lambda>x. x) 4000 2500 1 0 1000 None (Some 3000)
    = Inr ([(307, 192), (1231, 770), (1231, 769), (1231, 769)], 4, 1000)"
  by code_simp

theorem plan_bounds_loss_witness:
  "\<exists>sched n cap. plan_mutual (\<lambda>x. x) 4000 2500 1 0 1000 None (Some 3000) = Inr (sched, n, cap)
     \<and> cap \<le> exposure_cap_stroops (\<lambda>x. x) 0 1000 (Some 3000) \<and> length sched = nat n"
  using plan_bounds_loss[OF demo_plan] demo_plan by blast

theorem plan_accepts_up_to_limit_witness:
  "plan_for_cap 5 20000 1000 = Inl (TradeTooLarge 20000 19250 1000)"
  using plan_accepts_up_to_limit[of 1000 20000 5] by (simp add: max_safe_div)

theorem exposure_cap_bounds_witness:
  "exposure_cap_stroops (\<lambda>x. x) 9 5000 (Some 70) \<le> 1000 \<and> exposure_cap_stroops (\<lambda>x. x) 9 5000 None \<le> 100000"
proof -
  have "MIN_STEP_STROOPS \<le> 5000" by (simp add: MIN_STEP_STROOPS_def)
  from exposure_cap_bounds[where sqroot = "\<lambda>x. x" and t = 9 and k = 70 and stake = None, OF _ this] show ?thesis
    by (simp add: MIN_STEP_STROOPS_def)
qed

theorem exactly_one_moves_first_witness:
  "opening_mover 1 1 ''a'' ''b'' = (\<not> opening_mover 1 1 ''b'' ''a'')"
  using exactly_one_moves_first[of "''a''" "''b''" 1 1 1] by simp

theorem prices_round_up_witness:
  "\<exists>c. xlm_for_lapse 3 7 = Inr c \<and> 21 \<le> c * TICKS_PER_LAPSE"
  using prices_round_up[of 7 3 5] by auto

theorem session_tag_roundtrip_witness:
  "\<exists>tag. session_tag ''0123-4567-89'' ''abcdef0123'' 12 = Inr tag
     \<and> parse_session_tag (JStr tag) = Inr (Some (''01234567'', ''abcdef01'', 12))"
  using session_tag_roundtrip[of "''0123-4567-89''" "''abcdef0123''" 12] by (auto simp: hexval_def)

end
