(* ===== verification/Trade.thy ===== *)
theory Trade
  imports Swap Act
begin

text \<open>
  \<^verbatim>\<open>src/src/trade_storage.py\<close> and the driver of \<^verbatim>\<open>src/src/swap_engine.py\<close>: the rows of a trade and of its
  steps, the two chains behind adapters, one pass over a trade, and the recovery at startup. A row read from the
  database is an object of its own: the functions take and return it, and a save writes every field of it back.
  The outside of the engine, with both chains and the clock, is a state of its own type, which every call may find
  changed.
\<close>

section \<open>Rows\<close>

datatype leg = LegPending | LegIntent | LegSubmitted | LegSettled | LegDead

datatype trade_status = TradeActive | TradeStalled | TradeCompleted

text \<open>The signed envelope is kept as the value it loads to; an empty one is None.\<close>

record 'e increment =
  inc_session :: string
  inc_n :: int
  lapse_amount :: int
  xlm_amount :: int
  moves_first :: bool
  out_state :: leg
  out_envelope :: "'e option"
  out_tx_hash :: string
  out_seq :: int
  out_submitted_at :: rat
  out_settled_at :: rat
  out_detail :: string
  in_state :: leg
  in_tx_hash :: string
  in_settled_at :: rat
  deadline_at :: rat
  completed_height :: int
  due_height :: int

record trade =
  tr_session :: string
  tr_order :: string
  tr_maker :: bool
  my_lapse_addr :: string
  my_xlm_addr :: string
  peer_lapse_addr :: string
  peer_xlm_addr :: string
  sends_lapse :: bool
  lapse_total :: int
  xlm_total :: int
  tr_count :: int
  confirm_depth :: int
  accepted_height :: int
  tr_status :: trade_status
  updated_at :: rat
  stalled_since :: rat

section \<open>Step timing\<close>

definition MIN_CONFIRM_DEPTH :: int where "MIN_CONFIRM_DEPTH = MIN_CONFIRM_DEPTH_FLOOR"
definition STEP_TIMEOUT_MULTIPLIER :: int where "STEP_TIMEOUT_MULTIPLIER = 6"
definition ABANDON_AFTER_SECONDS :: int where "ABANDON_AFTER_SECONDS = 3600"
definition ABANDON_AFTER_BLOCKS :: int where "ABANDON_AFTER_BLOCKS = ABANDON_AFTER_SECONDS div 120"

definition step_timeout_seconds :: "int \<Rightarrow> int" where
  "step_timeout_seconds depth = depth * 120 * STEP_TIMEOUT_MULTIPLIER"

definition step_timeout_blocks :: "int \<Rightarrow> int" where
  "step_timeout_blocks depth = depth * STEP_TIMEOUT_MULTIPLIER"

definition deadline_height :: "int \<Rightarrow> int \<Rightarrow> int" where
  "deadline_height base_height depth = base_height + step_timeout_blocks depth"

definition step_done :: "'e increment \<Rightarrow> bool" where
  "step_done i \<longleftrightarrow> out_state i = LegSettled \<and> in_state i = LegSettled"

text \<open>The steps come in the order of their numbers.\<close>

fun delinquent_in :: "'e increment list \<Rightarrow> int \<Rightarrow> bool" where
  "delinquent_in [] current_height = False"
| "delinquent_in (i # is) current_height =
     (if step_done i then delinquent_in is current_height
      else if out_state i \<noteq> LegSettled then False
      else if due_height i = 0 then False
      else current_height \<ge> due_height i + ABANDON_AFTER_BLOCKS)"

definition is_delinquent :: "trade \<Rightarrow> 'e increment list \<Rightarrow> int \<Rightarrow> bool" where
  "is_delinquent t steps current_height =
     (if tr_status t \<noteq> TradeStalled then False else delinquent_in steps current_height)"

section \<open>The outside\<close>

text \<open>
  The calls the engine makes on a chain, each of which may find the outside changed and may raise. The last
  argument of \<open>a_build\<close> asks for an operation that creates the recipient's account.
\<close>

record ('w, 'e) adapter =
  a_lapse :: bool
  a_find :: "string \<Rightarrow> string \<Rightarrow> string \<Rightarrow> int \<Rightarrow> ('w, (string \<times> int) option) act"
  a_confirmations :: "string \<Rightarrow> ('w, int option) act"
  a_exists :: "string \<Rightarrow> ('w, bool) act"
  a_build :: "string \<Rightarrow> int \<Rightarrow> string \<Rightarrow> string option \<Rightarrow> bool \<Rightarrow> ('w, 'e \<times> string \<times> int) act"
  a_submit :: "'e \<Rightarrow> ('w, bool \<times> string) act"
  a_consumed :: "string \<Rightarrow> int \<Rightarrow> ('w, bool) act"
  a_forget :: "string \<Rightarrow> ('w, unit) act"

record ('w, 'e) engine =
  g_lapse :: "('w, 'e) adapter"
  g_xlm :: "('w, 'e) adapter"
  g_height :: "('w, int) act"
  g_secrets :: "('w, string option \<times> string option) act"
  g_time :: "('w, rat) act"
  g_min_depth :: int

definition mk_engine :: "('w, 'e) adapter \<Rightarrow> ('w, 'e) adapter \<Rightarrow> ('w, int) act \<Rightarrow> ('w, string option \<times> string option) act
    \<Rightarrow> ('w, rat) act \<Rightarrow> int \<Rightarrow> ('w, 'e) engine" where
  "mk_engine lapse xlm height secrets time min_confirm_depth =
     \<lparr>g_lapse = lapse, g_xlm = xlm, g_height = height, g_secrets = secrets, g_time = time,
      g_min_depth = max min_confirm_depth MIN_CONFIRM_DEPTH\<rparr>"

text \<open>The database beside the outside.\<close>

record ('w, 'e) desk =
  d_trades :: "(string, trade) dict"
  d_steps :: "(string \<times> int, 'e increment) dict"
  d_out :: 'w

definition outside :: "('w, 'a) act \<Rightarrow> (('w, 'e) desk, 'a) act" where
  "outside m = (\<lambda>s. case m (d_out s) of (r, w) \<Rightarrow> (r, s\<lparr>d_out := w\<rparr>))"

text \<open>\<^verbatim>\<open>save()\<close> is an update of the row with that key.\<close>

definition save_step :: "'e increment \<Rightarrow> (('w, 'e) desk, unit) act" where
  "save_step i = modify (\<lambda>s. if has_key (d_steps s) (inc_session i, inc_n i)
     then s\<lparr>d_steps := AList.update (inc_session i, inc_n i) i (d_steps s)\<rparr> else s)"

definition saved :: "'e increment \<Rightarrow> (('w, 'e) desk, 'e increment) act" where
  "saved i = bind_act (save_step i) (\<lambda>_. return i)"

definition save_trade :: "trade \<Rightarrow> (('w, 'e) desk, unit) act" where
  "save_trade t = modify (\<lambda>s. if has_key (d_trades s) (tr_session t)
     then s\<lparr>d_trades := AList.update (tr_session t) t (d_trades s)\<rparr> else s)"

definition steps_of :: "string \<Rightarrow> (('w, 'e) desk, 'e increment list) act" where
  "steps_of session = (\<lambda>s. (Inr (sort_key inc_n (map snd (filter (\<lambda>((k, _), _). k = session) (d_steps s)))), s))"

definition step_at :: "string \<Rightarrow> int \<Rightarrow> (('w, 'e) desk, 'e increment option) act" where
  "step_at session n = (\<lambda>s. (Inr (map_of (d_steps s) (session, n)), s))"

section \<open>Terms\<close>

definition out_adapter :: "('w, 'e) engine \<Rightarrow> trade \<Rightarrow> ('w, 'e) adapter" where
  "out_adapter G t = (if sends_lapse t then g_lapse G else g_xlm G)"

definition in_adapter :: "('w, 'e) engine \<Rightarrow> trade \<Rightarrow> ('w, 'e) adapter" where
  "in_adapter G t = (if sends_lapse t then g_xlm G else g_lapse G)"

definition out_terms :: "trade \<Rightarrow> 'e increment \<Rightarrow> (string \<times> string \<times> string \<times> int) res" where
  "out_terms t i = rbind (session_tag (tr_order t) (tr_session t) (inc_n i)) (\<lambda>memo.
     Inr (if sends_lapse t then (my_lapse_addr t, peer_lapse_addr t, memo, lapse_amount i)
          else (my_xlm_addr t, peer_xlm_addr t, memo, xlm_amount i)))"

definition in_terms :: "trade \<Rightarrow> 'e increment \<Rightarrow> (string \<times> string \<times> string \<times> int) res" where
  "in_terms t i = rbind (session_tag (tr_order t) (tr_session t) (inc_n i)) (\<lambda>memo.
     Inr (if sends_lapse t then (peer_xlm_addr t, my_xlm_addr t, memo, xlm_amount i)
          else (peer_lapse_addr t, my_lapse_addr t, memo, lapse_amount i)))"

definition required_depth :: "('w, 'e) engine \<Rightarrow> trade \<Rightarrow> ('w, 'e) adapter \<Rightarrow> int" where
  "required_depth G t A = (if a_lapse A then max (max (confirm_depth t) MIN_CONFIRM_DEPTH) (g_min_depth G) else 1)"

section \<open>The send\<close>

definition record_outbound :: "('w, 'e) engine \<Rightarrow> 'e increment \<Rightarrow> string \<Rightarrow> int \<Rightarrow> int \<Rightarrow> (('w, 'e) desk, 'e increment) act" where
  "record_outbound G i tx_hash depth required =
     (if depth \<ge> required
      then if out_state i \<noteq> LegSettled
           then bind_act (outside (g_time G)) (\<lambda>now. saved (i\<lparr>out_tx_hash := tx_hash, out_settled_at := now, out_state := LegSettled\<rparr>))
           else saved (i\<lparr>out_tx_hash := tx_hash, out_state := LegSettled\<rparr>)
      else saved (i\<lparr>out_tx_hash := tx_hash, out_state := LegSubmitted\<rparr>))"

text \<open>The stored envelope again: True beside the row when it is still in play.\<close>

definition resend :: "('w, 'e) engine \<Rightarrow> 'e increment \<Rightarrow> ('w, 'e) adapter \<Rightarrow> string \<Rightarrow> 'e
    \<Rightarrow> (('w, 'e) desk, 'e increment \<times> bool) act" where
  "resend G i A from_addr envelope =
     bind_act (outside (a_submit A envelope)) (\<lambda>(ok, detail).
       if ok then bind_act (outside (g_time G)) (\<lambda>now.
         bind_act (saved (i\<lparr>out_state := LegSubmitted, out_submitted_at := now, out_detail := detail\<rparr>)) (\<lambda>i1. return (i1, True)))
       else bind_act (outside (a_consumed A from_addr (out_seq i))) (\<lambda>consumed.
         if consumed
         then bind_act (saved (i\<lparr>out_state := LegDead, out_envelope := None, out_detail := detail\<rparr>)) (\<lambda>i1.
              bind_act (outside (a_forget A from_addr)) (\<lambda>_. return (i1, False)))
         else bind_act (saved (i\<lparr>out_detail := detail\<rparr>)) (\<lambda>i1. return (i1, True))))"

definition ACCOUNT_MIN_BALANCE_STROOPS :: int where "ACCOUNT_MIN_BALANCE_STROOPS = 10000000"

definition xlm_send_amount :: "('w, 'e) adapter \<Rightarrow> string \<Rightarrow> int \<Rightarrow> ('w, int \<times> bool) act" where
  "xlm_send_amount A to_addr agreed_amount = bind_act (a_exists A to_addr) (\<lambda>known.
     return (if known then (agreed_amount, False) else (max agreed_amount ACCOUNT_MIN_BALANCE_STROOPS, True)))"

definition build_envelope :: "('w, 'e) adapter \<Rightarrow> string \<Rightarrow> string \<Rightarrow> int \<Rightarrow> string option \<Rightarrow> string option
    \<Rightarrow> ('w, 'e \<times> string \<times> int) act" where
  "build_envelope A to_addr memo amount kek seed =
     (if a_lapse A then a_build A to_addr amount memo kek False
      else bind_act (xlm_send_amount A to_addr amount) (\<lambda>(send_amount, create). a_build A to_addr send_amount memo seed create))"

text \<open>Written down before it is sent.\<close>

definition submit_new :: "('w, 'e) engine \<Rightarrow> ('w, 'e) adapter \<Rightarrow> 'e \<Rightarrow> 'e increment \<Rightarrow> (('w, 'e) desk, 'e increment) act" where
  "submit_new G A envelope i =
     bind_act (outside (a_submit A envelope)) (\<lambda>(ok, detail).
       if ok then bind_act (outside (g_time G)) (\<lambda>now.
              saved (i\<lparr>out_detail := detail, out_state := LegSubmitted, out_submitted_at := now\<rparr>))
       else saved (i\<lparr>out_detail := detail\<rparr>))"

definition build_and_send :: "('w, 'e) engine \<Rightarrow> 'e increment \<Rightarrow> ('w, 'e) adapter \<Rightarrow> string \<Rightarrow> string \<Rightarrow> int
    \<Rightarrow> (('w, 'e) desk, 'e increment) act" where
  "build_and_send G i A to_addr memo amount =
     bind_act (outside (g_secrets G)) (\<lambda>(kek, seed).
       if kek = None \<and> seed = None then lift_res (Inl SwapError)
       else bind_act (outside (build_envelope A to_addr memo amount kek seed)) (\<lambda>(envelope, tx_hash, seq).
         bind_act (saved (i\<lparr>out_envelope := Some envelope, out_tx_hash := tx_hash, out_seq := seq, out_state := LegIntent\<rparr>))
           (submit_new G A envelope)))"

text \<open>No payment on the chain: the stored envelope first, then a new one.\<close>

definition send_unpaid :: "('w, 'e) engine \<Rightarrow> 'e increment \<Rightarrow> ('w, 'e) adapter \<Rightarrow> string \<Rightarrow> string \<Rightarrow> string \<Rightarrow> int
    \<Rightarrow> (('w, 'e) desk, 'e increment) act" where
  "send_unpaid G i A from_addr to_addr memo amount =
     (case (if out_state i = LegIntent \<or> out_state i = LegSubmitted then out_envelope i else None) of
        Some envelope \<Rightarrow> bind_act (resend G i A from_addr envelope) (\<lambda>(i1, in_play).
          if in_play then return i1 else build_and_send G i1 A to_addr memo amount)
      | None \<Rightarrow> build_and_send G i A to_addr memo amount)"

definition ensure_sent :: "('w, 'e) engine \<Rightarrow> trade \<Rightarrow> 'e increment \<Rightarrow> (('w, 'e) desk, 'e increment) act" where
  "ensure_sent G t i =
     (if out_state i = LegSettled then return i
      else bind_act (lift_res (out_terms t i)) (\<lambda>(from_addr, to_addr, memo, amount).
       bind_act (outside (a_find (out_adapter G t) from_addr to_addr memo amount)) (\<lambda>found. case found of
         Some (tx_hash, depth) \<Rightarrow> record_outbound G i tx_hash depth (required_depth G t (out_adapter G t))
       | None \<Rightarrow> send_unpaid G i (out_adapter G t) from_addr to_addr memo amount)))"

section \<open>Watching\<close>

definition clear_due :: "trade \<Rightarrow> int \<Rightarrow> int \<Rightarrow> (('w, 'e) desk, unit) act" where
  "clear_due t n stale = bind_act (step_at (tr_session t) (n + 1)) (\<lambda>nxt. case nxt of
     None \<Rightarrow> return ()
   | Some x \<Rightarrow> if due_height x = deadline_height stale (confirm_depth t) then save_step (x\<lparr>due_height := 0\<rparr>) else return ())"

definition unpropagate_deadline :: "trade \<Rightarrow> 'e increment \<Rightarrow> (('w, 'e) desk, 'e increment) act" where
  "unpropagate_deadline t i =
     (if completed_height i = 0 then return i
      else bind_act (saved (i\<lparr>completed_height := 0\<rparr>)) (\<lambda>i1.
        bind_act (clear_due t (inc_n i) (completed_height i)) (\<lambda>_. return i1)))"

definition check_outbound :: "('w, 'e) engine \<Rightarrow> trade \<Rightarrow> 'e increment \<Rightarrow> (('w, 'e) desk, 'e increment) act" where
  "check_outbound G t i =
     (if out_tx_hash i = [] then return i
      else bind_act (outside (a_confirmations (out_adapter G t) (out_tx_hash i))) (\<lambda>depth. case depth of
          None \<Rightarrow> bind_act (saved (i\<lparr>out_state := LegSubmitted, out_settled_at := 0\<rparr>)) (unpropagate_deadline t)
        | Some d \<Rightarrow> record_outbound G i (out_tx_hash i) d (required_depth G t (out_adapter G t))))"

text \<open>The two halves of \<^verbatim>\<open>check_inbound\<close>: a leg already settled, and one that is not.\<close>

definition recheck_inbound :: "('w, 'e) engine \<Rightarrow> trade \<Rightarrow> 'e increment \<Rightarrow> (('w, 'e) desk, 'e increment) act" where
  "recheck_inbound G t i =
     bind_act (outside (a_confirmations (in_adapter G t) (in_tx_hash i))) (\<lambda>depth.
       if (case depth of None \<Rightarrow> True | Some d \<Rightarrow> d < required_depth G t (in_adapter G t))
       then bind_act (saved (i\<lparr>in_state := LegPending, in_settled_at := 0\<rparr>)) (unpropagate_deadline t)
       else return i)"

definition seek_inbound :: "('w, 'e) engine \<Rightarrow> trade \<Rightarrow> 'e increment \<Rightarrow> (('w, 'e) desk, 'e increment) act" where
  "seek_inbound G t i =
     bind_act (lift_res (in_terms t i)) (\<lambda>(from_addr, to_addr, memo, amount).
     bind_act (outside (a_find (in_adapter G t) from_addr to_addr memo amount)) (\<lambda>found. case found of
       None \<Rightarrow> return i
     | Some (tx_hash, depth) \<Rightarrow>
         if depth \<ge> required_depth G t (in_adapter G t)
         then bind_act (outside (g_time G)) (\<lambda>now. saved (i\<lparr>in_tx_hash := tx_hash, in_state := LegSettled, in_settled_at := now\<rparr>))
         else saved (i\<lparr>in_tx_hash := tx_hash\<rparr>)))"

definition check_inbound :: "('w, 'e) engine \<Rightarrow> trade \<Rightarrow> 'e increment \<Rightarrow> (('w, 'e) desk, 'e increment) act" where
  "check_inbound G t i = bind_act (lift_res (in_terms t i)) (\<lambda>_.
     if in_state i = LegSettled \<and> in_tx_hash i \<noteq> [] then recheck_inbound G t i else seek_inbound G t i)"

section \<open>A pass\<close>

definition propagate_deadline :: "trade \<Rightarrow> 'e increment \<Rightarrow> (('w, 'e) desk, unit) act" where
  "propagate_deadline t i =
     bind_act (step_at (tr_session t) (inc_n i + 1)) (\<lambda>nxt. case nxt of
       None \<Rightarrow> return ()
     | Some x \<Rightarrow> if due_height x = 0
                 then save_step (x\<lparr>due_height := deadline_height (completed_height i) (confirm_depth t)\<rparr>) else return ())"

definition note_completed :: "('w, 'e) engine \<Rightarrow> trade \<Rightarrow> 'e increment \<Rightarrow> (('w, 'e) desk, 'e increment) act" where
  "note_completed G t i =
     (if completed_height i = 0
      then bind_act (outside (g_height G)) (\<lambda>h. bind_act (saved (i\<lparr>completed_height := h\<rparr>)) (\<lambda>i1.
             bind_act (propagate_deadline t i1) (\<lambda>_. return i1)))
      else return i)"

definition saved_trade :: "trade \<Rightarrow> (('w, 'e) desk, trade) act" where
  "saved_trade t = bind_act (save_trade t) (\<lambda>_. return t)"

definition update_timing :: "('w, 'e) engine \<Rightarrow> trade \<Rightarrow> 'e increment \<Rightarrow> (('w, 'e) desk, trade \<times> 'e increment) act" where
  "update_timing G t i =
     bind_act (outside (g_time G)) (\<lambda>now.
       if step_done i
       then bind_act (note_completed G t i) (\<lambda>i1.
            bind_act (saved_trade (if tr_status t = TradeStalled
                                   then t\<lparr>tr_status := TradeActive, stalled_since := 0, updated_at := now\<rparr>
                                   else t\<lparr>updated_at := now\<rparr>)) (\<lambda>t1. return (t1, i1)))
       else if deadline_at i \<noteq> 0 \<and> now > deadline_at i
       then bind_act (saved_trade (if tr_status t = TradeActive
                                   then t\<lparr>tr_status := TradeStalled, stalled_since := now, updated_at := now\<rparr>
                                   else t\<lparr>updated_at := now\<rparr>)) (\<lambda>t1. return (t1, i))
       else return (t, i))"

text \<open>\<^verbatim>\<open>check_outbound\<close>, and when the leg is not settled, \<^verbatim>\<open>ensure_sent\<close> and \<^verbatim>\<open>check_outbound\<close> again.\<close>

definition pay_leg :: "('w, 'e) engine \<Rightarrow> trade \<Rightarrow> 'e increment \<Rightarrow> (('w, 'e) desk, 'e increment) act" where
  "pay_leg G t i = bind_act (check_outbound G t i) (\<lambda>i1.
     if out_state i1 = LegSettled then return i1
     else bind_act (ensure_sent G t i1) (check_outbound G t))"

definition legs :: "('w, 'e) engine \<Rightarrow> trade \<Rightarrow> 'e increment \<Rightarrow> (('w, 'e) desk, 'e increment) act" where
  "legs G t i =
     (if moves_first i
      then bind_act (pay_leg G t i) (\<lambda>i1. if out_state i1 = LegSettled then check_inbound G t i1 else return i1)
      else bind_act (check_inbound G t i) (\<lambda>i1. if in_state i1 = LegSettled then pay_leg G t i1 else return i1))"

definition advance_step :: "('w, 'e) engine \<Rightarrow> trade \<Rightarrow> 'e increment \<Rightarrow> (('w, 'e) desk, trade \<times> 'e increment) act" where
  "advance_step G t i = bind_act (legs G t i) (update_timing G t)"

definition complete :: "('w, 'e) engine \<Rightarrow> trade \<Rightarrow> (('w, 'e) desk, trade) act" where
  "complete G t =
     (if tr_status t = TradeCompleted then return t
      else bind_act (outside (g_time G)) (\<lambda>now.
        saved_trade (t\<lparr>tr_status := TradeCompleted, updated_at := now, stalled_since := 0\<rparr>)))"

fun first_open :: "'e increment list \<Rightarrow> 'e increment option" where
  "first_open [] = None"
| "first_open (i # is) = (if step_done i then first_open is else Some i)"

definition advance :: "('w, 'e) engine \<Rightarrow> trade \<Rightarrow> (('w, 'e) desk, trade \<times> 'e increment option) act" where
  "advance G t =
     bind_act (steps_of (tr_session t)) (\<lambda>steps. case first_open steps of
       Some i \<Rightarrow> bind_act (advance_step G t i) (\<lambda>(t1, i1). return (t1, Some i1))
     | None \<Rightarrow> bind_act (complete G t) (\<lambda>t1. return (t1, None)))"

definition peer_ever_reciprocated :: "string \<Rightarrow> (('w, 'e) desk, bool) act" where
  "peer_ever_reciprocated session = bind_act (steps_of session) (\<lambda>steps. return (\<exists>i\<in>set steps. in_state i = LegSettled))"

section \<open>Recovery\<close>

text \<open>One step; every row was read before the first of them was worked on.\<close>

definition recover_outbound :: "('w, 'e) engine \<Rightarrow> trade \<Rightarrow> 'e increment \<Rightarrow> (('w, 'e) desk, 'e increment) act" where
  "recover_outbound G t i =
     (if out_tx_hash i = []
      then bind_act (lift_res (out_terms t i)) (\<lambda>(from_addr, to_addr, memo, amount).
         bind_act (outside (a_find (out_adapter G t) from_addr to_addr memo amount)) (\<lambda>found. case found of
           None \<Rightarrow> return i
         | Some (tx_hash, depth) \<Rightarrow> record_outbound G i tx_hash depth (required_depth G t (out_adapter G t))))
      else return i)"

definition reconcile_step :: "('w, 'e) engine \<Rightarrow> trade \<Rightarrow> 'e increment \<Rightarrow> (('w, 'e) desk, 'e increment) act" where
  "reconcile_step G t i =
     bind_act (check_outbound G t i) (\<lambda>i1. bind_act (recover_outbound G t i1) (check_inbound G t))"

fun reconcile_steps :: "('w, 'e) engine \<Rightarrow> trade \<Rightarrow> 'e increment list \<Rightarrow> nat \<Rightarrow> (('w, 'e) desk, nat) act" where
  "reconcile_steps G t [] recovered = return recovered"
| "reconcile_steps G t (i # is) recovered = (\<lambda>s. case reconcile_step G t i s of
     (Inl Unreachable, s') \<Rightarrow> reconcile_steps G t is recovered s'
   | (Inl e, s') \<Rightarrow> (Inl e, s')
   | (Inr i1, s') \<Rightarrow> reconcile_steps G t is
       (if (out_state i1, in_state i1) \<noteq> (out_state i, in_state i) then recovered + 1 else recovered) s')"

definition reconcile :: "('w, 'e) engine \<Rightarrow> trade \<Rightarrow> (('w, 'e) desk, nat) act" where
  "reconcile G t = bind_act (steps_of (tr_session t)) (\<lambda>steps. reconcile_steps G t steps 0)"

fun reconcile_trades :: "('w, 'e) engine \<Rightarrow> trade list \<Rightarrow> nat \<Rightarrow> (('w, 'e) desk, nat) act" where
  "reconcile_trades G [] n = return n"
| "reconcile_trades G (t # ts) n = bind_act (reconcile G t) (\<lambda>k. reconcile_trades G ts (n + k))"

definition reconcile_all :: "('w, 'e) engine \<Rightarrow> (('w, 'e) desk, nat) act" where
  "reconcile_all G = bind_act get_state (\<lambda>s.
     reconcile_trades G (filter (\<lambda>t. tr_status t = TradeActive \<or> tr_status t = TradeStalled) (map snd (d_trades s))) 0)"

section \<open>Checking a trade from its signed terms\<close>

text \<open>What the signed pair of a request and its acceptance says; the answered order may be long gone.\<close>

record fill_request =
  rq_id :: string
  rq_order :: string
  rq_session :: string
  taker_lapse_addr :: string
  taker_xlm_addr :: string
  rq_lapse_total :: int
  rq_pubkey :: string
  rq_signature :: string
  rq_received_at :: rat

text \<open>The count is NULL exactly on a declined row; it is 0 here.\<close>

record fill_response =
  rs_id :: string
  rs_order :: string
  rs_session :: string
  rs_lapse_total :: int
  rs_xlm_total :: int
  rs_accepted :: bool
  rs_count :: int
  rs_maker_pubkey :: string
  rs_height :: int
  rs_depth :: int
  rs_sells :: bool
  rs_maker_xlm_addr :: string
  rs_maker_opens :: bool
  rs_reason :: string
  rs_signature :: string
  rs_received_at :: rat

definition trade_expired_by :: "fill_response \<Rightarrow> int \<Rightarrow> bool" where
  "trade_expired_by resp current_height =
     (let worst_case_done = rs_height resp + rs_count resp * step_timeout_blocks (rs_depth resp)
      in current_height \<ge> worst_case_done + ABANDON_AFTER_BLOCKS)"

text \<open>\<^verbatim>\<open>crypto.public_key_to_address(bytes.fromhex(resp.maker_pubkey))\<close>\<close>

definition address_of :: "prims \<Rightarrow> string \<Rightarrow> string res" where
  "address_of P pubkey = (case fromhex pubkey of None \<Rightarrow> Inl ValueError | Some b \<Rightarrow> Inr (public_key_to_address P b))"

text \<open>A leg: from, to, memo, amount, and whether it moves LAPSE.\<close>

type_synonym leg_terms = "string \<times> string \<times> string \<times> int \<times> bool"

definition step_legs :: "prims \<Rightarrow> fill_request \<Rightarrow> fill_response \<Rightarrow> int \<Rightarrow> int \<Rightarrow> int \<Rightarrow> (leg_terms \<times> leg_terms) res" where
  "step_legs P req resp n lapse_amt xlm_amt =
     rbind (address_of P (rs_maker_pubkey resp)) (\<lambda>maker_addr.
     rbind (session_tag (rs_order resp) (rs_session resp) n) (\<lambda>memo.
       Inr (if rs_sells resp
            then ((maker_addr, taker_lapse_addr req, memo, lapse_amt, True),
                  (taker_xlm_addr req, rs_maker_xlm_addr resp, memo, xlm_amt, False))
            else ((rs_maker_xlm_addr resp, taker_xlm_addr req, memo, xlm_amt, False),
                  (taker_lapse_addr req, maker_addr, memo, lapse_amt, True)))))"

text \<open>Whether the leg is settled, and the block a LAPSE leg is in.\<close>

definition leg_settled :: "('w, 'e) engine \<Rightarrow> leg_terms \<Rightarrow> int \<Rightarrow> ('w, bool \<times> int option) act" where
  "leg_settled G l depth_agreed = (case l of (from_addr, to_addr, memo, amount, lapse) \<Rightarrow>
     bind_act (a_find (if lapse then g_lapse G else g_xlm G) from_addr to_addr memo amount) (\<lambda>found. case found of
       None \<Rightarrow> return (False, None)
     | Some (_, depth) \<Rightarrow>
         if depth < (if lapse then max depth_agreed MIN_CONFIRM_DEPTH else 1) then return (False, None)
         else if lapse then bind_act (g_height G) (\<lambda>h. return (True, Some (h - depth + 1)))
         else return (True, None)))"

text \<open>The loop over the steps, from step \<open>n\<close> on; \<open>k\<close> steps are settled before it.\<close>

fun verify_steps :: "prims \<Rightarrow> ('w, 'e) engine \<Rightarrow> fill_request \<Rightarrow> fill_response \<Rightarrow> string \<Rightarrow> int \<Rightarrow> nat
    \<Rightarrow> (int \<times> int) list \<Rightarrow> ('w, nat \<times> string option) act" where
  "verify_steps P G req resp maker_addr base k [] = return (k, None)"
| "verify_steps P G req resp maker_addr base k ((lapse_amt, xlm_amt) # rest) =
     (let n = int k + 1 in
      bind_act (lift_res (step_legs P req resp n lapse_amt xlm_amt)) (\<lambda>(maker_leg, taker_leg).
      bind_act (leg_settled G maker_leg (rs_depth resp)) (\<lambda>(maker_settled, maker_height).
      bind_act (leg_settled G taker_leg (rs_depth resp)) (\<lambda>(taker_settled, taker_height).
        if maker_settled \<and> taker_settled
        then verify_steps P G req resp maker_addr
               (case maker_height of Some h \<Rightarrow> h | None \<Rightarrow> (case taker_height of Some h \<Rightarrow> h | None \<Rightarrow> base)) (k + 1) rest
        else bind_act (lift_res (i_move_first n (rs_maker_opens resp))) (\<lambda>maker_first.
          let (first_settled, second_addr) =
                (if maker_first then (maker_settled, taker_lapse_addr req) else (taker_settled, maker_addr))
          in if \<not> first_settled then return (k, None)
             else bind_act (g_height G) (\<lambda>h.
               if h < deadline_height base (rs_depth resp) + ABANDON_AFTER_BLOCKS then return (k, None)
               else return (k, Some second_addr)))))))"

definition verify_trade_against_chain :: "prims \<Rightarrow> ('w, 'e) engine \<Rightarrow> fill_request \<Rightarrow> fill_response
    \<Rightarrow> ('w, nat \<times> nat \<times> string option) act" where
  "verify_trade_against_chain P G req resp =
     bind_act (lift_res (build_schedule (rs_lapse_total resp) (rs_xlm_total resp) (rs_count resp))) (\<lambda>schedule.
     bind_act (lift_res (address_of P (rs_maker_pubkey resp))) (\<lambda>maker_addr.
     bind_act (verify_steps P G req resp maker_addr (rs_height resp) 0 schedule) (\<lambda>(settled, at_fault).
       return (settled, length schedule, at_fault))))"

end
