(* ===== verification/Market.thy ===== *)
theory Market
  imports Trade
begin

text \<open>
  \<^verbatim>\<open>src/src/market.py\<close>: signed orders, fill requests and fill responses, their tables, what is left of an order,
  and the views of the book. A row is a record, a table a dict under its primary key in the order of insertion, which
  is the order SQLite scans it in. Peewee's conversion of a value to text, the key decoding of the Stellar package and
  the UUIDs are parameters. The text of a rejection is kept where it is signed into a response; elsewhere the lists and
  limits it shows are left out of it.
\<close>

section \<open>Tables\<close>

record order =
  or_id :: string
  or_maker :: string
  or_xlm_addr :: string
  or_sells :: bool
  or_total :: int
  or_price :: int
  or_min :: int
  or_max :: int
  or_expiry :: int
  or_pubkey :: string
  or_signature :: string
  or_received_at :: rat
  or_cancelled :: bool
  or_margin :: int

record 'e book =
  b_orders :: "(string, order) dict"
  b_requests :: "(string, fill_request) dict"
  b_responses :: "(string, fill_response) dict"
  b_trades :: "(string, trade) dict"
  b_steps :: "(string \<times> int, 'e increment) dict"

definition empty_book :: "'e book" where
  "empty_book = \<lparr>b_orders = [], b_requests = [], b_responses = [], b_trades = [], b_steps = []\<rparr>"

record deps =
  dp_prims :: prims
  dp_xlm_key :: "string \<Rightarrow> bool"
  dp_text :: "json \<Rightarrow> string res"

text \<open>What SQLite takes as an integer.\<close>

definition db_int64 :: "int \<Rightarrow> int res" where
  "db_int64 n = (if - (2 ^ 63) \<le> n \<and> n < 2 ^ 63 then Inr n else Inl OverflowError)"

definition rows :: "('k, 'r) dict \<Rightarrow> 'r list" where
  "rows d = map snd d"

definition count_rows :: "('r \<Rightarrow> bool) \<Rightarrow> ('k, 'r) dict \<Rightarrow> int" where
  "count_rows p d = int (length (filter p (rows d)))"

section \<open>Signed content\<close>

definition SIGNED_FIELDS :: "string list" where
  "SIGNED_FIELDS = [''order_id'', ''maker_lapse_addr'', ''maker_xlm_addr'', ''direction'', ''lapse_total'',
     ''price_stroops_per_lapse'', ''min_fill'', ''max_fill'', ''expiry_block'', ''pubkey'']"

definition FILL_REQUEST_SIGNED_FIELDS :: "string list" where
  "FILL_REQUEST_SIGNED_FIELDS = [''request_id'', ''order_id'', ''session_id'', ''taker_lapse_addr'', ''taker_xlm_addr'',
     ''lapse_total'', ''pubkey'']"

definition FILL_RESPONSE_SIGNED_FIELDS :: "string list" where
  "FILL_RESPONSE_SIGNED_FIELDS = [''request_id'', ''order_id'', ''session_id'', ''lapse_total'', ''accepted'',
     ''increment_count'', ''reason'', ''maker_pubkey'', ''accepted_height'', ''confirm_depth'', ''xlm_total'', ''direction'',
     ''maker_xlm_addr'', ''maker_opens'']"

definition MAX_ORDERS_PER_MAKER :: int where "MAX_ORDERS_PER_MAKER = 20"
definition MAX_EXPIRY_HORIZON_BLOCKS :: int where "MAX_EXPIRY_HORIZON_BLOCKS = 100000"
definition MAX_ORDERS_TOTAL :: int where "MAX_ORDERS_TOTAL = 50000"
definition MAX_FILL_REQUESTS_PER_TAKER :: int where "MAX_FILL_REQUESTS_PER_TAKER = 20"
definition MAX_FILL_REQUESTS_TOTAL :: int where "MAX_FILL_REQUESTS_TOTAL = 10000"
definition FILL_REQUEST_MAX_AGE_SECONDS :: rat where "FILL_REQUEST_MAX_AGE_SECONDS = 3600"
definition MAX_FILL_RESPONSES_TOTAL :: int where "MAX_FILL_RESPONSES_TOTAL = 10000"
definition MAX_FILL_RESPONSES_PER_MAKER :: int where "MAX_FILL_RESPONSES_PER_MAKER = 200"
definition MAX_ACCEPTED_RESPONSES_PER_MAKER :: int where "MAX_ACCEPTED_RESPONSES_PER_MAKER = 500"
definition MAX_ACCEPTED_RESPONSES_TOTAL :: int where "MAX_ACCEPTED_RESPONSES_TOTAL = 200000"
definition FILL_RESPONSE_MAX_AGE_SECONDS :: rat where "FILL_RESPONSE_MAX_AGE_SECONDS = 3600"

text \<open>The dict over the signed fields, of an object that has them all, and its canonical bytes.\<close>

definition signed_part :: "string list \<Rightarrow> (string, json) dict \<Rightarrow> json" where
  "signed_part ks d = JObj (map (\<lambda>k. (k, jget d k)) ks)"

definition signing_bytes :: "deps \<Rightarrow> (string, json) dict \<Rightarrow> string" where
  "signing_bytes D order = canonical_json (dp_prims D) (signed_part SIGNED_FIELDS order)"

definition fill_request_signing_bytes :: "deps \<Rightarrow> (string, json) dict \<Rightarrow> string" where
  "fill_request_signing_bytes D req = canonical_json (dp_prims D) (signed_part FILL_REQUEST_SIGNED_FIELDS req)"

definition fill_response_signing_bytes :: "deps \<Rightarrow> (string, json) dict \<Rightarrow> string" where
  "fill_response_signing_bytes D resp = canonical_json (dp_prims D) (signed_part FILL_RESPONSE_SIGNED_FIELDS resp)"

definition direction_json :: "bool \<Rightarrow> json" where
  "direction_json sells = JStr (if sells then ''sell'' else ''buy'')"

definition build_order :: "string \<Rightarrow> string \<Rightarrow> string \<Rightarrow> string \<Rightarrow> int \<Rightarrow> int \<Rightarrow> int \<Rightarrow> string \<Rightarrow> int \<Rightarrow> int
    \<Rightarrow> (string, json) dict res" where
  "build_order uuid maker_lapse_addr maker_xlm_addr direction lapse price expiry pubkey_hex min_fill max_fill =
     (if direction \<notin> {''buy'', ''sell''} then Inl ValueError
      else Inr [(''order_id'', JStr uuid), (''maker_lapse_addr'', JStr maker_lapse_addr), (''maker_xlm_addr'', JStr maker_xlm_addr),
        (''direction'', JStr direction), (''lapse_total'', JInt lapse), (''price_stroops_per_lapse'', JInt price),
        (''min_fill'', JInt min_fill), (''max_fill'', JInt max_fill), (''expiry_block'', JInt expiry), (''pubkey'', JStr pubkey_hex)])"

text \<open>The key file holds \<open>sk\<close>.\<close>

definition signed_with :: "deps \<Rightarrow> string \<Rightarrow> string \<Rightarrow> (string, json) dict \<Rightarrow> (string, json) dict" where
  "signed_with D sk msg d = AList.update ''signature'' (JStr (tohex (sign (dp_prims D) msg sk))) d"

definition sign_order :: "deps \<Rightarrow> string \<Rightarrow> (string, json) dict \<Rightarrow> (string, json) dict" where
  "sign_order D sk order = signed_with D sk (signing_bytes D order) order"

definition cancel_bytes :: "deps \<Rightarrow> json \<Rightarrow> json \<Rightarrow> string" where
  "cancel_bytes D order_id pubkey = canonical_json (dp_prims D) (JObj [(''cancel'', order_id), (''pubkey'', pubkey)])"

definition cancellation_for :: "deps \<Rightarrow> string \<Rightarrow> string \<Rightarrow> string \<Rightarrow> (string, json) dict" where
  "cancellation_for D sk order_id pubkey_hex =
     signed_with D sk (cancel_bytes D (JStr order_id) (JStr pubkey_hex)) [(''cancel'', JStr order_id), (''pubkey'', JStr pubkey_hex)]"

section \<open>Verifying orders\<close>

definition has_all :: "string list \<Rightarrow> (string, json) dict \<Rightarrow> bool" where
  "has_all ks d = list_all (has_key d) ks"

definition only_fields :: "string list \<Rightarrow> (string, json) dict \<Rightarrow> bool" where
  "only_fields ks d = list_all (\<lambda>k. k \<in> set ks \<or> k = ''signature'') (keys d)"

text \<open>\<^verbatim>\<open>isinstance(x, int)\<close> and not a bool.\<close>

fun plain_int :: "json \<Rightarrow> int option" where
  "plain_int (JInt n) = Some n"
| "plain_int _ = None"

definition int_of :: "(string, json) dict \<Rightarrow> string \<Rightarrow> int" where
  "int_of d k = (case plain_int (jget d k) of Some n \<Rightarrow> n | None \<Rightarrow> 0)"

definition is_int :: "(string, json) dict \<Rightarrow> string \<Rightarrow> bool" where
  "is_int d k = (plain_int (jget d k) \<noteq> None)"

definition text_of :: "(string, json) dict \<Rightarrow> string \<Rightarrow> string" where
  "text_of d k = (case jget d k of JStr s \<Rightarrow> s | _ \<Rightarrow> [])"

definition is_direction :: "json \<Rightarrow> bool" where
  "is_direction j = (j = JStr ''buy'' \<or> j = JStr ''sell'')"

definition xlm_address_ok :: "deps \<Rightarrow> json \<Rightarrow> bool" where
  "xlm_address_ok D j = (case j of JStr s \<Rightarrow> dp_xlm_key D s | _ \<Rightarrow> False)"

definition hex_field :: "(string, json) dict \<Rightarrow> string \<Rightarrow> string option" where
  "hex_field d k = (case jget d k of JStr s \<Rightarrow> fromhex s | _ \<Rightarrow> None)"

definition live_orders_of :: "string \<Rightarrow> 'e book \<Rightarrow> int" where
  "live_orders_of maker B = count_rows (\<lambda>r. or_maker r = maker \<and> \<not> or_cancelled r) (b_orders B)"

definition check_admission :: "'e book \<Rightarrow> string \<Rightarrow> unit res" where
  "check_admission B maker =
     rbind (require (int (length (b_orders B)) < MAX_ORDERS_TOTAL) (OrderRejected ''the order book is full'')) (\<lambda>_.
     require (live_orders_of maker B < MAX_ORDERS_PER_MAKER) (OrderRejected ''maker already has too many live orders here''))"

definition verify_signature :: "deps \<Rightarrow> (string, json) dict \<Rightarrow> unit res" where
  "verify_signature D order =
     (case (hex_field order ''pubkey'', hex_field order ''signature'') of
        (Some pubkey, Some signature) \<Rightarrow>
          rbind (require (JStr (public_key_to_address (dp_prims D) pubkey) = jget order ''maker_lapse_addr'')
            (OrderRejected ''pubkey does not match maker_lapse_addr'')) (\<lambda>_.
          require (verify (dp_prims D) (signing_bytes D order) signature pubkey) (OrderRejected ''signature does not verify''))
      | _ \<Rightarrow> Inl (OrderRejected ''pubkey and signature must be hex''))"

definition check_order_terms :: "deps \<Rightarrow> (string, json) dict \<Rightarrow> int option \<Rightarrow> unit res" where
  "check_order_terms D order current_height =
     rbind (require (has_all SIGNED_FIELDS order) (OrderRejected ''missing field(s)'')) (\<lambda>_.
     rbind (require (has_key order ''signature'') (OrderRejected ''missing signature'')) (\<lambda>_.
     rbind (require (only_fields SIGNED_FIELDS order) (OrderRejected ''unexpected field(s)'')) (\<lambda>_.
     rbind (require (is_direction (jget order ''direction'')) (OrderRejected ''direction must be buy or sell'')) (\<lambda>_.
     rbind (require (list_all (is_int order) [''lapse_total'', ''price_stroops_per_lapse'', ''min_fill'', ''max_fill'', ''expiry_block''])
       (OrderRejected ''must be an integer'')) (\<lambda>_.
     rbind (require (int_of order ''lapse_total'' > 0) (OrderRejected ''lapse_total must be positive'')) (\<lambda>_.
     rbind (require (int_of order ''price_stroops_per_lapse'' > 0) (OrderRejected ''price must be positive'')) (\<lambda>_.
     rbind (require (int_of order ''min_fill'' \<ge> 0 \<and> int_of order ''max_fill'' \<ge> 0) (OrderRejected ''fill bounds must not be negative'')) (\<lambda>_.
     rbind (require (int_of order ''min_fill'' \<le> int_of order ''lapse_total'') (OrderRejected ''min_fill exceeds the order size'')) (\<lambda>_.
     rbind (require (int_of order ''max_fill'' = 0 \<or> int_of order ''max_fill'' \<ge> int_of order ''min_fill'')
       (OrderRejected ''max_fill is below min_fill'')) (\<lambda>_.
     rbind (require (is_valid_address (dp_prims D) (jget order ''maker_lapse_addr'')) (OrderRejected ''maker_lapse_addr is not a valid address'')) (\<lambda>_.
     rbind (require (xlm_address_ok D (jget order ''maker_xlm_addr'')) (OrderRejected ''maker_xlm_addr is not a valid Stellar address'')) (\<lambda>_.
     case current_height of None \<Rightarrow> Inr () | Some h \<Rightarrow>
       rbind (require (int_of order ''expiry_block'' > h) (OrderRejected ''already expired'')) (\<lambda>_.
       require (int_of order ''expiry_block'' \<le> h + MAX_EXPIRY_HORIZON_BLOCKS) (OrderRejected ''expiry is too far ahead''))))))))))))))"

definition verify_order :: "deps \<Rightarrow> 'e book \<Rightarrow> json \<Rightarrow> int option \<Rightarrow> unit res" where
  "verify_order D B item current_height = (case item of
     JObj order \<Rightarrow>
       rbind (check_order_terms D order current_height) (\<lambda>_.
       rbind (check_admission B (text_of order ''maker_lapse_addr'')) (\<lambda>_. verify_signature D order))
   | _ \<Rightarrow> Inl (OrderRejected ''not an object''))"

definition verify_cancellation :: "deps \<Rightarrow> json \<Rightarrow> string res" where
  "verify_cancellation D item = (case item of
     JObj body \<Rightarrow>
       rbind (require (has_key body ''cancel'') (OrderRejected ''not a cancellation'')) (\<lambda>_.
       rbind (require (has_key body ''pubkey'' \<and> has_key body ''signature'') (OrderRejected ''missing field'')) (\<lambda>_.
       case (hex_field body ''pubkey'', hex_field body ''signature'') of
         (Some pubkey, Some signature) \<Rightarrow>
           rbind (require (verify (dp_prims D) (cancel_bytes D (jget body ''cancel'') (jget body ''pubkey'')) signature pubkey)
             (OrderRejected ''signature does not verify'')) (\<lambda>_. Inr (public_key_to_address (dp_prims D) pubkey))
       | _ \<Rightarrow> Inl (OrderRejected ''pubkey and signature must be hex'')))
   | _ \<Rightarrow> Inl (OrderRejected ''not a cancellation''))"

definition is_cancellation :: "json \<Rightarrow> bool" where
  "is_cancellation item = (case item of JObj d \<Rightarrow> has_key d ''cancel'' | _ \<Rightarrow> False)"

text \<open>\<^verbatim>\<open>item.get\<close> raises on anything but an object.\<close>

definition order_hash :: "deps \<Rightarrow> json \<Rightarrow> string res" where
  "order_hash D item = (case item of
     JObj d \<Rightarrow> Inr (sha256_hex (dp_prims D) (canonical_json (dp_prims D)
       (if has_key d ''cancel'' then JObj [(''cancel'', jget d ''cancel''), (''pubkey'', get_or d ''pubkey'' (JStr []))]
        else signed_part SIGNED_FIELDS d)))
   | _ \<Rightarrow> Inl AttributeError)"


section \<open>Storing orders\<close>

definition order_row :: "deps \<Rightarrow> (string, json) dict \<Rightarrow> rat \<Rightarrow> int \<Rightarrow> order res" where
  "order_row D d now margin =
     rbind (dp_text D (jget d ''order_id'')) (\<lambda>oid.
     rbind (map_res (\<lambda>k. db_int64 (int_of d k)) [''lapse_total'', ''price_stroops_per_lapse'', ''min_fill'', ''max_fill'', ''expiry_block'']) (\<lambda>_.
     rbind (db_int64 (max margin 0)) (\<lambda>m.
       Inr \<lparr>or_id = oid, or_maker = text_of d ''maker_lapse_addr'', or_xlm_addr = text_of d ''maker_xlm_addr'',
         or_sells = (jget d ''direction'' = JStr ''sell''), or_total = int_of d ''lapse_total'',
         or_price = int_of d ''price_stroops_per_lapse'', or_min = int_of d ''min_fill'', or_max = int_of d ''max_fill'',
         or_expiry = int_of d ''expiry_block'', or_pubkey = text_of d ''pubkey'', or_signature = text_of d ''signature'',
         or_received_at = now, or_cancelled = False, or_margin = m\<rparr>)))"

text \<open>A verified order; False when it is known.\<close>

definition store_order :: "deps \<Rightarrow> (string, json) dict \<Rightarrow> rat \<Rightarrow> int \<Rightarrow> ('e book, bool) act" where
  "store_order D d now margin = (\<lambda>B. case dp_text D (jget d ''order_id'') of
     Inl e \<Rightarrow> (Inl e, B)
   | Inr oid \<Rightarrow>
       if has_key (b_orders B) oid then (Inr False, B)
       else (case rbind (check_admission B (text_of d ''maker_lapse_addr'')) (\<lambda>_. order_row D d now margin) of
           Inl e \<Rightarrow> (Inl e, B)
         | Inr r \<Rightarrow> (Inr True, B\<lparr>b_orders := AList.update oid r (b_orders B)\<rparr>)))"

definition get_order :: "'e book \<Rightarrow> string \<Rightarrow> order option" where
  "get_order B order_id = map_of (b_orders B) order_id"

definition apply_cancellation :: "string \<Rightarrow> string \<Rightarrow> ('e book, bool) act" where
  "apply_cancellation order_id canceller_addr = (\<lambda>B. case get_order B order_id of
     None \<Rightarrow> (Inr False, B)
   | Some r \<Rightarrow>
       if or_maker r \<noteq> canceller_addr then (Inl (OrderRejected ''only the maker may cancel their own order''), B)
       else if or_cancelled r then (Inr False, B)
       else (Inr True, B\<lparr>b_orders := AList.update order_id (r\<lparr>or_cancelled := True\<rparr>) (b_orders B)\<rparr>))"

definition order_to_wire :: "order \<Rightarrow> (string, json) dict" where
  "order_to_wire r = [(''order_id'', JStr (or_id r)), (''maker_lapse_addr'', JStr (or_maker r)), (''maker_xlm_addr'', JStr (or_xlm_addr r)),
     (''direction'', direction_json (or_sells r)), (''lapse_total'', JInt (or_total r)), (''price_stroops_per_lapse'', JInt (or_price r)),
     (''min_fill'', JInt (or_min r)), (''max_fill'', JInt (or_max r)), (''expiry_block'', JInt (or_expiry r)), (''pubkey'', JStr (or_pubkey r)),
     (''signature'', JStr (or_signature r))]"

text \<open>The one-time repair of a cap that an older version stored in place of 0.\<close>

definition repaired :: "deps \<Rightarrow> order \<Rightarrow> order" where
  "repaired D r =
     (if or_max r \<noteq> or_total r then r
      else (case (fromhex (or_pubkey r), fromhex (or_signature r)) of
          (Some pubkey, Some signature) \<Rightarrow>
            if verify (dp_prims D) (signing_bytes D (order_to_wire (r\<lparr>or_max := 0\<rparr>))) signature pubkey then r\<lparr>or_max := 0\<rparr> else r
        | _ \<Rightarrow> r))"

definition repair_legacy_max_fill :: "deps \<Rightarrow> 'e book \<Rightarrow> 'e book" where
  "repair_legacy_max_fill D B = B\<lparr>b_orders := map (\<lambda>(k, r). (k, repaired D r)) (b_orders B)\<rparr>"

definition already_known :: "deps \<Rightarrow> 'e book \<Rightarrow> json \<Rightarrow> bool res" where
  "already_known D B item = (case item of
     JObj d \<Rightarrow>
       rbind (dp_text D (get_or d (if has_key d ''cancel'' then ''cancel'' else ''order_id'') (JStr []))) (\<lambda>oid.
         Inr (case get_order B oid of None \<Rightarrow> False | Some r \<Rightarrow> has_key d ''cancel'' \<longrightarrow> or_cancelled r))
   | _ \<Rightarrow> Inr False)"

definition prune_expired :: "int \<Rightarrow> 'e book \<Rightarrow> int \<times> 'e book" where
  "prune_expired current_height B =
     (count_rows (\<lambda>r. or_expiry r \<le> current_height) (b_orders B),
      B\<lparr>b_orders := filter (\<lambda>(_, r). or_expiry r > current_height) (b_orders B)\<rparr>)"

section \<open>What is left of an order\<close>

definition sessions_of :: "'e book \<Rightarrow> string \<Rightarrow> string list" where
  "sessions_of B order_id = map tr_session (filter (\<lambda>t. tr_order t = order_id) (rows (b_trades B)))"

definition delivered_ticks :: "'e book \<Rightarrow> string \<Rightarrow> int" where
  "delivered_ticks B order_id = sum_list (map lapse_amount (filter (\<lambda>i. inc_session i \<in> set (sessions_of B order_id)
     \<and> out_state i = LegSettled \<and> in_state i = LegSettled) (rows (b_steps B))))"

definition received_ticks :: "'e book \<Rightarrow> string \<Rightarrow> int" where
  "received_ticks B order_id = sum_list (map lapse_amount (filter (\<lambda>i. inc_session i \<in> set (sessions_of B order_id)
     \<and> in_state i = LegSettled) (rows (b_steps B))))"

definition signed_by_maker :: "deps \<Rightarrow> string \<Rightarrow> string \<Rightarrow> bool" where
  "signed_by_maker D pubkey_hex maker = (case fromhex pubkey_hex of
     None \<Rightarrow> False | Some pubkey \<Rightarrow> public_key_to_address (dp_prims D) pubkey = maker)"

definition reserves :: "deps \<Rightarrow> 'e book \<Rightarrow> order \<Rightarrow> int \<Rightarrow> fill_response \<Rightarrow> bool" where
  "reserves D B o' current_height r \<longleftrightarrow> rs_order r = or_id o' \<and> rs_accepted r
     \<and> rs_session r \<notin> set (sessions_of B (or_id o')) \<and> signed_by_maker D (rs_maker_pubkey r) (or_maker o')
     \<and> \<not> trade_expired_by r current_height"

definition reserved_ticks :: "deps \<Rightarrow> 'e book \<Rightarrow> string \<Rightarrow> int \<Rightarrow> int" where
  "reserved_ticks D B order_id current_height = (case get_order B order_id of
     None \<Rightarrow> 0
   | Some o' \<Rightarrow> sum_list (map rs_lapse_total (filter (reserves D B o' current_height) (rows (b_responses B)))))"

definition remaining_ticks :: "deps \<Rightarrow> 'e book \<Rightarrow> order \<Rightarrow> int \<Rightarrow> int" where
  "remaining_ticks D B r current_height =
     max (or_total r - (delivered_ticks B (or_id r) + reserved_ticks D B (or_id r) current_height)) 0"

definition validate_fill :: "deps \<Rightarrow> 'e book \<Rightarrow> order \<Rightarrow> int \<Rightarrow> int \<Rightarrow> string option \<Rightarrow> unit res" where
  "validate_fill D B r lapse current_height taker =
     rbind (require (lapse > 0) (OrderRejected ''fill amount must be positive'')) (\<lambda>_.
     rbind (require (taker \<noteq> Some (or_maker r)) (OrderRejected ''a maker cannot fill their own order'')) (\<lambda>_.
     rbind (require (lapse \<le> remaining_ticks D B r current_height) (OrderRejected ''that is more than the order has left'')) (\<lambda>_.
     rbind (require (or_min r = 0 \<or> lapse \<ge> or_min r)
       (OrderRejected (''this order will not go below '' @ py_str (or_min r) @ '' ticks''))) (\<lambda>_.
     require (lapse \<le> (if or_max r = 0 then or_total r else or_max r)) (OrderRejected ''that is more than this order's max fill'')))))"

section \<open>The book\<close>

definition on_offer :: "int \<Rightarrow> string option \<Rightarrow> order \<Rightarrow> bool" where
  "on_offer current_height exclude_maker r \<longleftrightarrow> \<not> or_cancelled r \<and> or_expiry r > current_height
     \<and> (exclude_maker = None \<or> exclude_maker = Some [] \<or> exclude_maker \<noteq> Some (or_maker r))"

definition newest :: "order list \<Rightarrow> order list" where
  "newest rs = sort_key (\<lambda>r. - or_received_at r) rs"

definition open_orders :: "deps \<Rightarrow> 'e book \<Rightarrow> int \<Rightarrow> string option \<Rightarrow> order list" where
  "open_orders D B current_height exclude_maker =
     filter (\<lambda>r. remaining_ticks D B r current_height \<ge> max (or_min r) 1)
       (newest (filter (on_offer current_height exclude_maker) (rows (b_orders B))))"

definition orders_by_maker :: "'e book \<Rightarrow> string \<Rightarrow> int \<Rightarrow> order list" where
  "orders_by_maker B addr current_height =
     newest (filter (\<lambda>r. or_maker r = addr \<and> \<not> or_cancelled r \<and> or_expiry r > current_height) (rows (b_orders B)))"

definition orders_by_maker_with_claims :: "'e book \<Rightarrow> string \<Rightarrow> order list" where
  "orders_by_maker_with_claims B addr =
     filter (\<lambda>r. or_maker r = addr \<and> or_id r \<in> set (map rq_order (rows (b_requests B)))) (rows (b_orders B))"

definition recent_orders :: "'e book \<Rightarrow> nat \<Rightarrow> order list" where
  "recent_orders B limit = take limit (newest (filter (\<lambda>r. \<not> or_cancelled r) (rows (b_orders B))))"

fun committed_sum :: "deps \<Rightarrow> 'e book \<Rightarrow> int \<Rightarrow> string option \<Rightarrow> order list \<Rightarrow> int \<times> int \<Rightarrow> (int \<times> int) res" where
  "committed_sum D B h exclude [] acc = Inr acc"
| "committed_sum D B h exclude (r # rs) acc =
     (if exclude = Some (or_id r) then committed_sum D B h exclude rs acc
      else if or_sells r then committed_sum D B h exclude rs (fst acc + remaining_ticks D B r h, snd acc)
      else rbind (xlm_for_lapse (remaining_ticks D B r h) (or_price r)) (\<lambda>x.
        committed_sum D B h exclude rs (fst acc, snd acc + x)))"

definition maker_committed :: "deps \<Rightarrow> 'e book \<Rightarrow> string \<Rightarrow> int \<Rightarrow> string option \<Rightarrow> (int \<times> int) res" where
  "maker_committed D B maker current_height exclude =
     committed_sum D B current_height exclude (orders_by_maker B maker current_height) (0, 0)"

text \<open>A row of a listing: the order and what is left of it.\<close>

type_synonym listed = "order \<times> int"

definition order_entry :: "deps \<Rightarrow> 'e book \<Rightarrow> int \<Rightarrow> order \<Rightarrow> listed" where
  "order_entry D B current_height r = (r, remaining_ticks D B r current_height)"

definition book_depth :: "deps \<Rightarrow> 'e book \<Rightarrow> int \<Rightarrow> string option \<Rightarrow> listed list \<times> listed list" where
  "book_depth D B current_height exclude_maker =
     (let entries = map (order_entry D B current_height) (open_orders D B current_height exclude_maker)
      in (sort_key (\<lambda>(r, _). - or_price r) (filter (\<lambda>(r, _). \<not> or_sells r) entries),
          sort_key (\<lambda>(r, _). or_price r) (filter (\<lambda>(r, _). or_sells r) entries)))"

definition BOOK_PAGE_SIZE :: nat where "BOOK_PAGE_SIZE = 20"
definition AMOUNT_SORT_CANDIDATE_WINDOW :: nat where "AMOUNT_SORT_CANDIDATE_WINDOW = 500"

datatype book_sort = ByPrice | ByAmount | ByRecent

definition BOOK_SORTS :: "(string \<times> book_sort) list" where
  "BOOK_SORTS = [(''price'', ByPrice), (''amount'', ByAmount), (''recent'', ByRecent)]"

definition open_orders_query :: "'e book \<Rightarrow> int \<Rightarrow> bool \<Rightarrow> string option \<Rightarrow> order list" where
  "open_orders_query B current_height sells exclude_maker =
     filter (\<lambda>r. or_sells r = sells \<and> on_offer current_height exclude_maker r) (rows (b_orders B))"

definition count_open_orders :: "'e book \<Rightarrow> int \<Rightarrow> bool \<Rightarrow> string option \<Rightarrow> int" where
  "count_open_orders B current_height sells exclude_maker = int (length (open_orders_query B current_height sells exclude_maker))"

definition worth_listing :: "listed \<Rightarrow> bool" where
  "worth_listing e \<longleftrightarrow> snd e \<ge> max (or_min (fst e)) 1"

definition list_orders :: "deps \<Rightarrow> 'e book \<Rightarrow> int \<Rightarrow> bool \<Rightarrow> string option \<Rightarrow> string \<Rightarrow> nat \<Rightarrow> nat \<Rightarrow> listed list \<times> int" where
  "list_orders D B current_height sells exclude_maker by offset limit =
     (let found = open_orders_query B current_height sells exclude_maker;
          entry = order_entry D B current_height;
          page = (\<lambda>rs. filter worth_listing (map entry (take limit (drop offset rs))))
      in ((case get_or BOOK_SORTS by ByPrice of
             ByAmount \<Rightarrow> take limit (drop offset (sort_key (\<lambda>(_, left). - left)
               (filter worth_listing (map entry (take AMOUNT_SORT_CANDIDATE_WINDOW (newest found))))))
           | ByRecent \<Rightarrow> page (newest found)
           | ByPrice \<Rightarrow> page (sort_key (\<lambda>r. if sells then or_price r else - or_price r) found)),
          int (length found)))"

definition best_prices :: "deps \<Rightarrow> 'e book \<Rightarrow> int \<Rightarrow> string option \<Rightarrow> int option \<times> int option \<times> int option \<times> int \<times> int" where
  "best_prices D B current_height exclude_maker = (case book_depth D B current_height exclude_maker of (buys, sells) \<Rightarrow>
     (let top = (\<lambda>es. case es of [] \<Rightarrow> None | (r, _) # _ \<Rightarrow> Some (or_price r));
          spread = (case (top buys, top sells) of
            (Some b, Some s) \<Rightarrow> (if b \<noteq> 0 \<and> s \<noteq> 0 then Some (s - b) else None) | _ \<Rightarrow> None)
      in (top buys, top sells, spread, sum_list (map snd buys), sum_list (map snd sells))))"

section \<open>The ticker\<close>

definition DEFAULT_PRICE_STROOPS_PER_LAPSE :: int where "DEFAULT_PRICE_STROOPS_PER_LAPSE = 10000"
definition TICKER_MIN_WEIGHT :: rat where "TICKER_MIN_WEIGHT = 1 / 1000000000"

fun reach_half :: "rat \<Rightarrow> rat \<Rightarrow> (int \<times> rat) list \<Rightarrow> int option" where
  "reach_half half cum [] = None"
| "reach_half half cum ((price, weight) # rest) =
     (if cum + weight \<ge> half then Some price else reach_half half (cum + weight) rest)"

definition weighted_median :: "(int \<times> rat) list \<Rightarrow> int res" where
  "weighted_median samples =
     (let ordered = sort_key fst samples; half = sum_list (map snd ordered) / 2
      in case reach_half half 0 ordered of
           Some p \<Rightarrow> Inr p
         | None \<Rightarrow> if ordered = [] then Inl IndexError else Inr (fst (last ordered)))"

section \<open>Fill requests\<close>

definition build_fill_request :: "string \<Rightarrow> string \<Rightarrow> string \<Rightarrow> string \<Rightarrow> string \<Rightarrow> int \<Rightarrow> string \<Rightarrow> (string, json) dict" where
  "build_fill_request uuid order_id session_id taker_lapse taker_xlm lapse pubkey_hex =
     [(''request_id'', JStr uuid), (''order_id'', JStr order_id), (''session_id'', JStr session_id),
      (''taker_lapse_addr'', JStr taker_lapse), (''taker_xlm_addr'', JStr taker_xlm), (''lapse_total'', JInt lapse),
      (''pubkey'', JStr pubkey_hex)]"

definition sign_fill_request :: "deps \<Rightarrow> string \<Rightarrow> (string, json) dict \<Rightarrow> (string, json) dict" where
  "sign_fill_request D sk req = signed_with D sk (fill_request_signing_bytes D req) req"

definition accepted_ids :: "'e book \<Rightarrow> string list" where
  "accepted_ids B = map rs_id (filter rs_accepted (rows (b_responses B)))"

definition pending_fill_requests :: "'e book \<Rightarrow> fill_request list" where
  "pending_fill_requests B = filter (\<lambda>q. rq_id q \<notin> set (accepted_ids B)) (rows (b_requests B))"

definition check_fill_request_admission :: "'e book \<Rightarrow> string \<Rightarrow> unit res" where
  "check_fill_request_admission B taker =
     rbind (require (int (length (pending_fill_requests B)) < MAX_FILL_REQUESTS_TOTAL) (FillRequestRejected ''the request book is full'')) (\<lambda>_.
     require (int (length (filter (\<lambda>q. taker_lapse_addr q = taker) (pending_fill_requests B))) < MAX_FILL_REQUESTS_PER_TAKER)
       (FillRequestRejected ''taker already has too many live requests here''))"

definition nonempty_text :: "(string, json) dict \<Rightarrow> string \<Rightarrow> bool" where
  "nonempty_text d k = (text_of d k \<noteq> [])"

definition verify_fill_request_signature :: "deps \<Rightarrow> (string, json) dict \<Rightarrow> unit res" where
  "verify_fill_request_signature D req =
     (case (hex_field req ''pubkey'', hex_field req ''signature'') of
        (Some pubkey, Some signature) \<Rightarrow>
          rbind (require (JStr (public_key_to_address (dp_prims D) pubkey) = jget req ''taker_lapse_addr'')
            (FillRequestRejected ''pubkey does not match taker_lapse_addr'')) (\<lambda>_.
          require (verify (dp_prims D) (fill_request_signing_bytes D req) signature pubkey) (FillRequestRejected ''signature does not verify''))
      | _ \<Rightarrow> Inl (FillRequestRejected ''pubkey and signature must be hex''))"

definition verify_fill_request :: "deps \<Rightarrow> 'e book \<Rightarrow> json \<Rightarrow> unit res" where
  "verify_fill_request D B item = (case item of
     JObj req \<Rightarrow>
       rbind (require (has_all FILL_REQUEST_SIGNED_FIELDS req) (FillRequestRejected ''missing field(s)'')) (\<lambda>_.
       rbind (require (has_key req ''signature'') (FillRequestRejected ''missing signature'')) (\<lambda>_.
       rbind (require (only_fields FILL_REQUEST_SIGNED_FIELDS req) (FillRequestRejected ''unexpected field(s)'')) (\<lambda>_.
       rbind (require (list_all (nonempty_text req) [''request_id'', ''order_id'', ''session_id''])
         (FillRequestRejected ''must be a non-empty string'')) (\<lambda>_.
       rbind (require (is_int req ''lapse_total'') (FillRequestRejected ''lapse_total must be an integer'')) (\<lambda>_.
       rbind (require (int_of req ''lapse_total'' > 0) (FillRequestRejected ''lapse_total must be positive'')) (\<lambda>_.
       rbind (require (is_valid_address (dp_prims D) (jget req ''taker_lapse_addr'')) (FillRequestRejected ''taker_lapse_addr is not a valid address'')) (\<lambda>_.
       rbind (require (xlm_address_ok D (jget req ''taker_xlm_addr'')) (FillRequestRejected ''taker_xlm_addr is not a valid Stellar address'')) (\<lambda>_.
       rbind (check_fill_request_admission B (text_of req ''taker_lapse_addr'')) (\<lambda>_.
         verify_fill_request_signature D req)))))))))
   | _ \<Rightarrow> Inl (FillRequestRejected ''not an object''))"

definition fill_request_hash :: "deps \<Rightarrow> json \<Rightarrow> string res" where
  "fill_request_hash D item = (case item of
     JObj d \<Rightarrow> Inr (sha256_hex (dp_prims D) (canonical_json (dp_prims D) (signed_part FILL_REQUEST_SIGNED_FIELDS d)))
   | _ \<Rightarrow> Inl AttributeError)"

definition already_known_fill_request :: "'e book \<Rightarrow> json \<Rightarrow> bool" where
  "already_known_fill_request B item = (case item of
     JObj d \<Rightarrow> (case jget d ''request_id'' of JStr s \<Rightarrow> has_key (b_requests B) s | _ \<Rightarrow> False)
   | _ \<Rightarrow> False)"

definition request_row :: "(string, json) dict \<Rightarrow> rat \<Rightarrow> fill_request" where
  "request_row d now = \<lparr>rq_id = text_of d ''request_id'', rq_order = text_of d ''order_id'', rq_session = text_of d ''session_id'',
     taker_lapse_addr = text_of d ''taker_lapse_addr'', taker_xlm_addr = text_of d ''taker_xlm_addr'',
     rq_lapse_total = int_of d ''lapse_total'', rq_pubkey = text_of d ''pubkey'', rq_signature = text_of d ''signature'',
     rq_received_at = now\<rparr>"

text \<open>The column of sessions is unique.\<close>

definition store_fill_request :: "(string, json) dict \<Rightarrow> rat \<Rightarrow> ('e book, bool) act" where
  "store_fill_request d now = (\<lambda>B.
     if has_key (b_requests B) (text_of d ''request_id'') then (Inr False, B)
     else (case rbind (check_fill_request_admission B (text_of d ''taker_lapse_addr'')) (\<lambda>_.
                rbind (db_int64 (int_of d ''lapse_total'')) (\<lambda>_.
                require (text_of d ''session_id'' \<notin> set (map rq_session (rows (b_requests B)))) IntegrityError)) of
         Inl e \<Rightarrow> (Inl e, B)
       | Inr _ \<Rightarrow> (Inr True, B\<lparr>b_requests := AList.update (text_of d ''request_id'') (request_row d now) (b_requests B)\<rparr>)))"

definition get_fill_request :: "'e book \<Rightarrow> string \<Rightarrow> fill_request option" where
  "get_fill_request B request_id = map_of (b_requests B) request_id"

definition requests_for_order :: "'e book \<Rightarrow> string \<Rightarrow> fill_request list" where
  "requests_for_order B order_id = sort_key rq_received_at (filter (\<lambda>q. rq_order q = order_id) (rows (b_requests B)))"

definition requests_by_taker :: "'e book \<Rightarrow> string \<Rightarrow> fill_request list" where
  "requests_by_taker B taker = filter (\<lambda>q. taker_lapse_addr q = taker) (rows (b_requests B))"

definition prune_fill_requests :: "rat \<Rightarrow> 'e book \<Rightarrow> int \<times> 'e book" where
  "prune_fill_requests now B =
     (let old = (\<lambda>q. rq_received_at q \<le> now - FILL_REQUEST_MAX_AGE_SECONDS \<and> rq_id q \<notin> set (accepted_ids B))
      in (count_rows old (b_requests B), B\<lparr>b_requests := filter (\<lambda>(_, q). \<not> old q) (b_requests B)\<rparr>))"

definition fill_request_to_wire :: "fill_request \<Rightarrow> (string, json) dict" where
  "fill_request_to_wire q = AList.update ''signature'' (JStr (rq_signature q))
     (build_fill_request (rq_id q) (rq_order q) (rq_session q) (taker_lapse_addr q) (taker_xlm_addr q) (rq_lapse_total q) (rq_pubkey q))"

section \<open>Fill responses\<close>

definition build_fill_response :: "string \<Rightarrow> string \<Rightarrow> string \<Rightarrow> int \<Rightarrow> bool \<Rightarrow> string \<Rightarrow> int \<Rightarrow> int \<Rightarrow> int \<Rightarrow> bool \<Rightarrow> string \<Rightarrow> bool
    \<Rightarrow> int option \<Rightarrow> string \<Rightarrow> (string, json) dict" where
  "build_fill_response request_id order_id session_id lapse accepted maker_pubkey_hex hgt dep xlm sells maker_xlm maker_opens
       cnt reason =
     [(''request_id'', JStr request_id), (''order_id'', JStr order_id), (''session_id'', JStr session_id), (''lapse_total'', JInt lapse),
      (''accepted'', JBool accepted), (''increment_count'', (case cnt of None \<Rightarrow> JNull | Some n \<Rightarrow> JInt n)), (''reason'', JStr reason),
      (''maker_pubkey'', JStr maker_pubkey_hex), (''accepted_height'', JInt hgt), (''confirm_depth'', JInt dep),
      (''xlm_total'', JInt xlm), (''direction'', direction_json sells), (''maker_xlm_addr'', JStr maker_xlm), (''maker_opens'', JBool maker_opens)]"

definition sign_fill_response :: "deps \<Rightarrow> string \<Rightarrow> (string, json) dict \<Rightarrow> (string, json) dict" where
  "sign_fill_response D sk resp = signed_with D sk (fill_response_signing_bytes D resp) resp"

definition is_bool :: "(string, json) dict \<Rightarrow> string \<Rightarrow> bool" where
  "is_bool d k = (case jget d k of JBool _ \<Rightarrow> True | _ \<Rightarrow> False)"

definition bool_of :: "(string, json) dict \<Rightarrow> string \<Rightarrow> bool" where
  "bool_of d k = (jget d k = JBool True)"

definition check_fill_response_admission :: "'e book \<Rightarrow> string \<Rightarrow> bool \<Rightarrow> unit res" where
  "check_fill_response_admission B maker_pubkey accepted =
     (let kept = filter (\<lambda>r. rs_accepted r = accepted) (rows (b_responses B))
      in rbind (require (int (length kept) < (if accepted then MAX_ACCEPTED_RESPONSES_TOTAL else MAX_FILL_RESPONSES_TOTAL))
           (FillResponseRejected ''the response book is full'')) (\<lambda>_.
         require (int (length (filter (\<lambda>r. rs_maker_pubkey r = maker_pubkey) kept))
             < (if accepted then MAX_ACCEPTED_RESPONSES_PER_MAKER else MAX_FILL_RESPONSES_PER_MAKER))
           (FillResponseRejected ''this signer already has too many responses here'')))"

definition check_response_terms :: "deps \<Rightarrow> (string, json) dict \<Rightarrow> unit res" where
  "check_response_terms D resp =
     rbind (require (has_all FILL_RESPONSE_SIGNED_FIELDS resp) (FillResponseRejected ''missing field(s)'')) (\<lambda>_.
     rbind (require (has_key resp ''signature'') (FillResponseRejected ''missing signature'')) (\<lambda>_.
     rbind (require (only_fields FILL_RESPONSE_SIGNED_FIELDS resp) (FillResponseRejected ''unexpected field(s)'')) (\<lambda>_.
     rbind (require (list_all (nonempty_text resp) [''request_id'', ''order_id'', ''session_id''])
       (FillResponseRejected ''must be a non-empty string'')) (\<lambda>_.
     rbind (require (is_int resp ''lapse_total'') (FillResponseRejected ''lapse_total must be an integer'')) (\<lambda>_.
     rbind (require (int_of resp ''lapse_total'' > 0) (FillResponseRejected ''lapse_total must be positive'')) (\<lambda>_.
     rbind (require (is_bool resp ''accepted'') (FillResponseRejected ''accepted must be a boolean'')) (\<lambda>_.
     rbind (if bool_of resp ''accepted''
       then rbind (require (is_int resp ''increment_count'') (FillResponseRejected ''increment_count must be an integer when accepted'')) (\<lambda>_.
            require (MIN_INCREMENTS \<le> int_of resp ''increment_count'' \<and> int_of resp ''increment_count'' \<le> MAX_INCREMENTS)
              (FillResponseRejected ''increment_count out of range''))
       else require (jget resp ''increment_count'' = JNull) (FillResponseRejected ''increment_count must be null when not accepted'')) (\<lambda>_.
     rbind (require (is_str (jget resp ''reason'')) (FillResponseRejected ''reason must be a string'')) (\<lambda>_.
     rbind (require (list_all (is_int resp) [''accepted_height'', ''confirm_depth'']) (FillResponseRejected ''must be an integer'')) (\<lambda>_.
     rbind (require (int_of resp ''accepted_height'' \<ge> 0) (FillResponseRejected ''accepted_height must not be negative'')) (\<lambda>_.
     rbind (require (int_of resp ''confirm_depth'' \<ge> MIN_CONFIRM_DEPTH_FLOOR) (FillResponseRejected ''confirm_depth too small'')) (\<lambda>_.
     rbind (require (is_int resp ''xlm_total'') (FillResponseRejected ''xlm_total must be an integer'')) (\<lambda>_.
     rbind (require (int_of resp ''xlm_total'' > 0) (FillResponseRejected ''xlm_total must be positive'')) (\<lambda>_.
     rbind (require (is_direction (jget resp ''direction'')) (FillResponseRejected ''direction must be buy or sell'')) (\<lambda>_.
     rbind (require (xlm_address_ok D (jget resp ''maker_xlm_addr'')) (FillResponseRejected ''maker_xlm_addr is not a valid Stellar address'')) (\<lambda>_.
     require (is_bool resp ''maker_opens'') (FillResponseRejected ''maker_opens must be a boolean'')))))))))))))))))"

definition check_against_order :: "(string, json) dict \<Rightarrow> order \<Rightarrow> unit res" where
  "check_against_order resp r =
     rbind (require (jget resp ''direction'' = direction_json (or_sells r)) (FillResponseRejected ''direction does not match the order'')) (\<lambda>_.
     rbind (require (jget resp ''maker_xlm_addr'' = JStr (or_xlm_addr r)) (FillResponseRejected ''maker_xlm_addr does not match the order'')) (\<lambda>_.
     rbind (xlm_for_lapse (int_of resp ''lapse_total'') (or_price r)) (\<lambda>x.
       require (int_of resp ''xlm_total'' = x) (FillResponseRejected ''xlm_total does not match the order's own price''))))"

definition check_against_request :: "(string, json) dict \<Rightarrow> fill_request \<Rightarrow> unit res" where
  "check_against_request resp q =
     rbind (require (text_of resp ''session_id'' = rq_session q) (FillResponseRejected ''session_id does not match the request'')) (\<lambda>_.
     require (text_of resp ''order_id'' = rq_order q) (FillResponseRejected ''order_id does not match the request''))"

definition check_if :: "'a option \<Rightarrow> ('a \<Rightarrow> unit res) \<Rightarrow> unit res" where
  "check_if v f = (case v of None \<Rightarrow> Inr () | Some x \<Rightarrow> f x)"

definition verify_response_signature :: "deps \<Rightarrow> (string, json) dict \<Rightarrow> string option \<Rightarrow> unit res" where
  "verify_response_signature D resp expected_maker =
     (case (hex_field resp ''maker_pubkey'', hex_field resp ''signature'') of
        (Some pubkey, Some signature) \<Rightarrow>
          rbind (check_if expected_maker (\<lambda>m. require (public_key_to_address (dp_prims D) pubkey = m)
            (FillResponseRejected ''not signed by the maker this request was sent to''))) (\<lambda>_.
          require (verify (dp_prims D) (fill_response_signing_bytes D resp) signature pubkey) (FillResponseRejected ''signature does not verify''))
      | _ \<Rightarrow> Inl (FillResponseRejected ''pubkey and signature must be hex''))"

definition verify_fill_response :: "deps \<Rightarrow> 'e book \<Rightarrow> json \<Rightarrow> string option \<Rightarrow> order option \<Rightarrow> fill_request option \<Rightarrow> unit res" where
  "verify_fill_response D B item expected_maker ord_row req_row = (case item of
     JObj resp \<Rightarrow>
       rbind (check_response_terms D resp) (\<lambda>_.
       rbind (check_if ord_row (check_against_order resp)) (\<lambda>_.
       rbind (check_if req_row (check_against_request resp)) (\<lambda>_.
       rbind (check_fill_response_admission B (text_of resp ''maker_pubkey'') (bool_of resp ''accepted'')) (\<lambda>_.
         verify_response_signature D resp expected_maker))))
   | _ \<Rightarrow> Inl (FillResponseRejected ''not an object''))"

definition fill_response_hash :: "deps \<Rightarrow> json \<Rightarrow> string res" where
  "fill_response_hash D item = (case item of
     JObj d \<Rightarrow> Inr (sha256_hex (dp_prims D) (canonical_json (dp_prims D) (signed_part FILL_RESPONSE_SIGNED_FIELDS d)))
   | _ \<Rightarrow> Inl AttributeError)"

definition already_known_fill_response :: "'e book \<Rightarrow> json \<Rightarrow> bool" where
  "already_known_fill_response B item = (case item of
     JObj d \<Rightarrow> (case jget d ''request_id'' of JStr s \<Rightarrow> has_key (b_responses B) s | _ \<Rightarrow> False)
   | _ \<Rightarrow> False)"

definition response_row :: "(string, json) dict \<Rightarrow> rat \<Rightarrow> fill_response" where
  "response_row d now = \<lparr>rs_id = text_of d ''request_id'', rs_order = text_of d ''order_id'', rs_session = text_of d ''session_id'',
     rs_lapse_total = int_of d ''lapse_total'', rs_xlm_total = int_of d ''xlm_total'', rs_accepted = bool_of d ''accepted'',
     rs_count = int_of d ''increment_count'', rs_maker_pubkey = text_of d ''maker_pubkey'', rs_height = int_of d ''accepted_height'',
     rs_depth = int_of d ''confirm_depth'', rs_sells = (jget d ''direction'' = JStr ''sell''), rs_maker_xlm_addr = text_of d ''maker_xlm_addr'',
     rs_maker_opens = bool_of d ''maker_opens'', rs_reason = text_of d ''reason'', rs_signature = text_of d ''signature'', rs_received_at = now\<rparr>"

definition store_fill_response :: "(string, json) dict \<Rightarrow> rat \<Rightarrow> ('e book, bool) act" where
  "store_fill_response d now = (\<lambda>B.
     if has_key (b_responses B) (text_of d ''request_id'') then (Inr False, B)
     else (case rbind (check_fill_response_admission B (text_of d ''maker_pubkey'') (bool_of d ''accepted'')) (\<lambda>_.
                rbind (map_res (\<lambda>k. db_int64 (int_of d k)) [''lapse_total'', ''accepted_height'', ''confirm_depth'', ''xlm_total'']) (\<lambda>_.
                require (text_of d ''session_id'' \<notin> set (map rs_session (rows (b_responses B)))) IntegrityError)) of
         Inl e \<Rightarrow> (Inl e, B)
       | Inr _ \<Rightarrow> (Inr True, B\<lparr>b_responses := AList.update (text_of d ''request_id'') (response_row d now) (b_responses B)\<rparr>)))"

definition get_fill_response :: "'e book \<Rightarrow> string \<Rightarrow> fill_response option" where
  "get_fill_response B request_id = map_of (b_responses B) request_id"

definition prune_fill_responses :: "rat \<Rightarrow> 'e book \<Rightarrow> int \<times> 'e book" where
  "prune_fill_responses now B =
     (let old = (\<lambda>r. rs_received_at r \<le> now - FILL_RESPONSE_MAX_AGE_SECONDS \<and> \<not> rs_accepted r)
      in (count_rows old (b_responses B), B\<lparr>b_responses := filter (\<lambda>(_, r). \<not> old r) (b_responses B)\<rparr>))"

definition fill_response_to_wire :: "fill_response \<Rightarrow> (string, json) dict" where
  "fill_response_to_wire r = AList.update ''signature'' (JStr (rs_signature r))
     (build_fill_response (rs_id r) (rs_order r) (rs_session r) (rs_lapse_total r) (rs_accepted r) (rs_maker_pubkey r) (rs_height r)
       (rs_depth r) (rs_xlm_total r) (rs_sells r) (rs_maker_xlm_addr r) (rs_maker_opens r)
       (if rs_accepted r then Some (rs_count r) else None) (rs_reason r))"

definition accepted_fill_to_wire :: "fill_request \<Rightarrow> fill_response \<Rightarrow> (string, json) dict \<times> (string, json) dict" where
  "accepted_fill_to_wire q r = (fill_request_to_wire q, fill_response_to_wire r)"

definition with_request :: "'e book \<Rightarrow> fill_response list \<Rightarrow> (fill_request \<times> fill_response) list" where
  "with_request B rs = List.map_filter (\<lambda>r. map_option (\<lambda>q. (q, r)) (get_fill_request B (rs_id r))) rs"

definition accepted_fills_for_addr :: "deps \<Rightarrow> 'e book \<Rightarrow> string \<Rightarrow> (fill_request \<times> fill_response) list" where
  "accepted_fills_for_addr D B addr = filter (\<lambda>(q, r). case fromhex (rs_maker_pubkey r) of
       None \<Rightarrow> False | Some pk \<Rightarrow> addr = public_key_to_address (dp_prims D) pk \<or> addr = taker_lapse_addr q)
     (with_request B (filter rs_accepted (rows (b_responses B))))"

definition recent_accepted_fills :: "'e book \<Rightarrow> nat \<Rightarrow> (fill_request \<times> fill_response) list" where
  "recent_accepted_fills B limit = with_request B
     (take limit (sort_key (\<lambda>r. - rs_received_at r) (filter rs_accepted (rows (b_responses B)))))"

end
