(* ===== verification/Orders.thy ===== *)
theory Orders
  imports Market
begin

text \<open>
  What the order book keeps to: the caps of its four populations and the uniqueness of its keys over any sequence of changes,
  who can take from an order, what a node hands on from storage, and the median behind the ticker.
\<close>

section \<open>Tables\<close>

lemma rows_simps [simp]: "rows [] = []" "rows (p # d) = snd p # rows d" "rows (d @ d') = rows d @ rows d'" "length (rows d) = length d"
  by (simp_all add: rows_def)

lemma rows_insert: "\<not> has_key d k \<Longrightarrow> rows (AList.update k r d) = rows d @ [r]"
  by (simp add: update_notin)

lemma rows_filter: "rows (filter (\<lambda>(_, r). P r) d) = filter P (rows d)"
  by (induction d) auto

lemma rows_map: "rows (map (\<lambda>(k, r). (k, f r)) d) = map f (rows d)"
  by (induction d) auto

lemma count_rows_filter: "count_rows p d = int (length (filter p (rows d)))"
  by (simp add: count_rows_def)

lemma rows_replace:
  "map_of d k = Some r \<Longrightarrow> \<exists>xs ys. rows d = xs @ r # ys \<and> rows (AList.update k r' d) = xs @ r' # ys"
proof (induction d)
  case (Cons p d)
  obtain k0 r0 where p: "p = (k0, r0)" by (cases p)
  show ?case
  proof (cases "k0 = k")
    case True
    then show ?thesis using Cons.prems by (intro exI[of _ "[]"] exI[of _ "rows d"]) (simp add: p)
  next
    case False
    then obtain xs ys where "rows d = xs @ r # ys" "rows (AList.update k r' d) = xs @ r' # ys" using Cons by (auto simp: p)
    then show ?thesis using False by (intro exI[of _ "r0 # xs"] exI[of _ ys]) (simp add: p)
  qed
qed simp

lemma filtered_twice: "length (filter P (filter Q xs)) \<le> length (filter P xs)"
  by (induction xs) auto

section \<open>Caps\<close>

text \<open>
  The contract of a table that is bounded twice, as a whole and for each owner: the check before an insertion passes
  only while there is room. \<open>mine w r\<close> says that \<open>r\<close> counts against \<open>w\<close>.
\<close>

definition within_caps :: "int \<Rightarrow> int \<Rightarrow> (string \<Rightarrow> 'r \<Rightarrow> bool) \<Rightarrow> 'r list \<Rightarrow> bool" where
  "within_caps cap own mine rs \<longleftrightarrow> int (length rs) \<le> cap \<and> (\<forall>w. int (length (filter (mine w) rs)) \<le> own)"

locale admission =
  fixes admit :: "'b \<Rightarrow> string \<Rightarrow> unit res" and counted :: "'b \<Rightarrow> 'r list" and mine :: "string \<Rightarrow> 'r \<Rightarrow> bool"
    and total_cap own_cap :: int
  assumes room: "admit b w = Inr () \<Longrightarrow> int (length (counted b)) < total_cap \<and> int (length (filter (mine w) (counted b))) < own_cap"
    and caps_nonneg: "0 \<le> total_cap" "0 \<le> own_cap"
begin

lemma empty: "within_caps total_cap own_cap mine []"
  using caps_nonneg by (simp add: within_caps_def)

lemma insert:
  assumes "within_caps total_cap own_cap mine (counted b)" and adm: "admit b w = Inr ()"
    and grown: "counted b' = counted b @ rs" "length rs \<le> 1" and owner: "\<And>r v. r \<in> set rs \<Longrightarrow> mine v r \<Longrightarrow> v = w"
  shows "within_caps total_cap own_cap mine (counted b')"
proof -
  have "int (length (filter (mine v) (counted b'))) \<le> own_cap" for v
  proof (cases "filter (mine v) rs = []")
    case True
    then show ?thesis using assms(1) grown by (simp add: within_caps_def)
  next
    case False
    then obtain r where "r \<in> set rs" "mine v r" by (auto simp: filter_empty_conv)
    then have "v = w" by (rule owner)
    moreover have "length (filter (mine v) rs) \<le> 1" using grown(2) length_filter_le[of "mine v" rs] by linarith
    ultimately show ?thesis using room[OF adm] grown(1) by simp
  qed
  moreover have "int (length (counted b')) \<le> total_cap" using room[OF adm] grown by simp
  ultimately show ?thesis by (simp add: within_caps_def)
qed

lemma shrink:
  assumes "within_caps total_cap own_cap mine (counted b)" and "length (counted b') \<le> length (counted b)"
    and "\<And>v. length (filter (mine v) (counted b')) \<le> length (filter (mine v) (counted b))"
  shows "within_caps total_cap own_cap mine (counted b')"
  unfolding within_caps_def
proof (intro conjI allI)
  show "int (length (counted b')) \<le> total_cap" using assms(1,2) by (simp add: within_caps_def)
  show "int (length (filter (mine w) (counted b'))) \<le> own_cap" for w
    using assms(1) assms(3)[of w] unfolding within_caps_def by (meson int_ops(6) of_nat_mono order_trans)
qed

lemma filtered:
  assumes "within_caps total_cap own_cap mine (counted b)" and "counted b' = filter P (counted b)"
  shows "within_caps total_cap own_cap mine (counted b')"
proof (rule shrink[OF assms(1)])
  show "length (counted b') \<le> length (counted b)" by (simp add: assms(2))
  show "length (filter (mine v) (counted b')) \<le> length (filter (mine v) (counted b))" for v
    by (simp only: assms(2) filtered_twice)
qed

end

definition live_for :: "string \<Rightarrow> order \<Rightarrow> bool" where
  "live_for w r \<longleftrightarrow> or_maker r = w \<and> \<not> or_cancelled r"

definition asked_by :: "string \<Rightarrow> fill_request \<Rightarrow> bool" where
  "asked_by w q \<longleftrightarrow> taker_lapse_addr q = w"

definition answered_with :: "string \<Rightarrow> fill_response \<Rightarrow> bool" where
  "answered_with w r \<longleftrightarrow> rs_maker_pubkey r = w"

definition kept_responses :: "bool \<Rightarrow> 'e book \<Rightarrow> fill_response list" where
  "kept_responses accepted B = filter (\<lambda>r. rs_accepted r = accepted) (rows (b_responses B))"

lemmas market_caps = MAX_ORDERS_TOTAL_def MAX_ORDERS_PER_MAKER_def MAX_FILL_REQUESTS_TOTAL_def MAX_FILL_REQUESTS_PER_TAKER_def
  MAX_FILL_RESPONSES_TOTAL_def MAX_FILL_RESPONSES_PER_MAKER_def MAX_ACCEPTED_RESPONSES_TOTAL_def MAX_ACCEPTED_RESPONSES_PER_MAKER_def

interpretation orders: admission check_admission "\<lambda>B. rows (b_orders B)" live_for MAX_ORDERS_TOTAL MAX_ORDERS_PER_MAKER
  by unfold_locales
    (auto simp: check_admission_def live_orders_of_def count_rows_def live_for_def[abs_def] market_caps rbind_Inr_conv res_simps)

interpretation requests: admission check_fill_request_admission pending_fill_requests asked_by MAX_FILL_REQUESTS_TOTAL MAX_FILL_REQUESTS_PER_TAKER
  by unfold_locales (auto simp: check_fill_request_admission_def asked_by_def[abs_def] market_caps rbind_Inr_conv res_simps)

interpretation declines: admission "\<lambda>B w. check_fill_response_admission B w False" "kept_responses False" answered_with
    MAX_FILL_RESPONSES_TOTAL MAX_FILL_RESPONSES_PER_MAKER
  by unfold_locales
    (auto simp: check_fill_response_admission_def Let_def kept_responses_def answered_with_def[abs_def] market_caps rbind_Inr_conv res_simps)

interpretation accepts: admission "\<lambda>B w. check_fill_response_admission B w True" "kept_responses True" answered_with
    MAX_ACCEPTED_RESPONSES_TOTAL MAX_ACCEPTED_RESPONSES_PER_MAKER
  by unfold_locales
    (auto simp: check_fill_response_admission_def Let_def kept_responses_def answered_with_def[abs_def] market_caps rbind_Inr_conv res_simps)

section \<open>A book within its limits\<close>

text \<open>Every change to the tables; trades and steps are written by the swap engine.\<close>

inductive market_run :: "deps \<Rightarrow> 'e book \<Rightarrow> bool" for D where
  empty: "market_run D empty_book"
| order: "market_run D B \<Longrightarrow> market_run D (snd (store_order D d now margin B))"
| cancel: "market_run D B \<Longrightarrow> market_run D (snd (apply_cancellation order_id addr B))"
| expire: "market_run D B \<Longrightarrow> market_run D (snd (prune_expired h B))"
| repair: "market_run D B \<Longrightarrow> market_run D (repair_legacy_max_fill D B)"
| request: "market_run D B \<Longrightarrow> market_run D (snd (store_fill_request d now B))"
| drop_requests: "market_run D B \<Longrightarrow> market_run D (snd (prune_fill_requests now B))"
| response: "market_run D B \<Longrightarrow> market_run D (snd (store_fill_response d now B))"
| drop_responses: "market_run D B \<Longrightarrow> market_run D (snd (prune_fill_responses now B))"
| trade: "market_run D B \<Longrightarrow> market_run D (B\<lparr>b_trades := T, b_steps := S\<rparr>)"

definition keyed_by :: "('r \<Rightarrow> 'k) \<Rightarrow> ('k, 'r) dict \<Rightarrow> bool" where
  "keyed_by f d \<longleftrightarrow> wf_dict d \<and> list_all (\<lambda>(k, r). f r = k) d"

definition orders_ok :: "'e book \<Rightarrow> bool" where
  "orders_ok B \<longleftrightarrow> keyed_by or_id (b_orders B) \<and> within_caps MAX_ORDERS_TOTAL MAX_ORDERS_PER_MAKER live_for (rows (b_orders B))"

definition requests_ok :: "'e book \<Rightarrow> bool" where
  "requests_ok B \<longleftrightarrow> keyed_by rq_id (b_requests B) \<and> distinct (map rq_session (rows (b_requests B)))
     \<and> within_caps MAX_FILL_REQUESTS_TOTAL MAX_FILL_REQUESTS_PER_TAKER asked_by (pending_fill_requests B)"

definition responses_ok :: "'e book \<Rightarrow> bool" where
  "responses_ok B \<longleftrightarrow> keyed_by rs_id (b_responses B) \<and> distinct (map rs_session (rows (b_responses B)))
     \<and> within_caps MAX_FILL_RESPONSES_TOTAL MAX_FILL_RESPONSES_PER_MAKER answered_with (kept_responses False B)
     \<and> within_caps MAX_ACCEPTED_RESPONSES_TOTAL MAX_ACCEPTED_RESPONSES_PER_MAKER answered_with (kept_responses True B)"

lemma keyed_insert: "keyed_by f d \<Longrightarrow> f r = k \<Longrightarrow> \<not> has_key d k \<Longrightarrow> keyed_by f (AList.update k r d)"
  by (auto simp: keyed_by_def update_notin has_key_def)

lemma keyed_filter: "keyed_by f d \<Longrightarrow> keyed_by f (filter P d)"
  by (auto simp: keyed_by_def list_all_iff distinct_map_filter)

lemma keyed_map: "keyed_by f d \<Longrightarrow> (\<And>r. f (g r) = f r) \<Longrightarrow> keyed_by f (map (\<lambda>(k, r). (k, g r)) d)"
  by (auto simp: keyed_by_def list_all_iff o_def case_prod_unfold)

lemma keyed_replace: "keyed_by f d \<Longrightarrow> map_of d k = Some r \<Longrightarrow> f r' = f r \<Longrightarrow> keyed_by f (AList.update k r' d)"
  unfolding keyed_by_def list_all_iff using set_update_sub map_of_SomeD by fastforce

lemma distinct_filtered: "distinct (map f xs) \<Longrightarrow> distinct (map f (filter P xs))"
  by (rule distinct_map_filter)

lemma book_reads [simp]:
  "pending_fill_requests (B\<lparr>b_orders := Q\<rparr>) = pending_fill_requests B" "kept_responses c (B\<lparr>b_orders := Q\<rparr>) = kept_responses c B"
  "pending_fill_requests (B\<lparr>b_trades := T, b_steps := S\<rparr>) = pending_fill_requests B"
  "kept_responses c (B\<lparr>b_trades := T, b_steps := S\<rparr>) = kept_responses c B" "kept_responses c (B\<lparr>b_requests := R\<rparr>) = kept_responses c B"
  by (simp_all add: pending_fill_requests_def accepted_ids_def kept_responses_def)

lemma untouched_ok [simp]:
  "requests_ok (B\<lparr>b_orders := Q\<rparr>) = requests_ok B" "responses_ok (B\<lparr>b_orders := Q\<rparr>) = responses_ok B"
  "orders_ok (B\<lparr>b_requests := R\<rparr>) = orders_ok B" "responses_ok (B\<lparr>b_requests := R\<rparr>) = responses_ok B"
  "orders_ok (B\<lparr>b_responses := P\<rparr>) = orders_ok B" "orders_ok (B\<lparr>b_trades := T, b_steps := S\<rparr>) = orders_ok B"
  "requests_ok (B\<lparr>b_trades := T, b_steps := S\<rparr>) = requests_ok B" "responses_ok (B\<lparr>b_trades := T, b_steps := S\<rparr>) = responses_ok B"
  by (simp_all add: requests_ok_def responses_ok_def orders_ok_def)

definition market_ok :: "'e book \<Rightarrow> bool" where
  "market_ok B \<longleftrightarrow> orders_ok B \<and> requests_ok B \<and> responses_ok B"

lemma order_row_facts:
  "order_row D d now m = Inr r \<Longrightarrow> dp_text D (jget d ''order_id'') = Inr (or_id r) \<and> or_maker r = text_of d ''maker_lapse_addr''"
  by (auto simp: order_row_def rbind_Inr_conv)

lemma store_order_cases:
  assumes "store_order D d now m B = (res, B')"
  obtains "B' = B" | r where "B' = B\<lparr>b_orders := AList.update (or_id r) r (b_orders B)\<rparr>" "\<not> has_key (b_orders B) (or_id r)"
    "check_admission B (or_maker r) = Inr ()" "order_row D d now m = Inr r" "res = Inr True"
proof (cases "dp_text D (jget d ''order_id'')")
  case (Inl e)
  then show thesis using assms that(1) by (auto simp: store_order_def)
next
  case (Inr oid)
  show thesis
  proof (cases "has_key (b_orders B) oid")
    case True
    then show thesis using assms that(1) Inr by (auto simp: store_order_def)
  next
    case False
    show thesis
    proof (cases "rbind (check_admission B (text_of d ''maker_lapse_addr'')) (\<lambda>_. order_row D d now m)")
      case (Inl e)
      then show thesis using assms that(1) Inr False by (auto simp: store_order_def)
    next
      case (Inr r)
      then have ok: "check_admission B (text_of d ''maker_lapse_addr'') = Inr ()" "order_row D d now m = Inr r" by (auto simp: rbind_Inr_conv)
      then show thesis using that(2)[of r] assms \<open>dp_text D (jget d ''order_id'') = Inr oid\<close> False Inr order_row_facts[OF ok(2)]
        by (auto simp: store_order_def)
    qed
  qed
qed

lemma store_order_ok:
  assumes "market_ok B"
  shows "market_ok (snd (store_order D d now m B))"
proof -
  obtain res B' where run: "store_order D d now m B = (res, B')" by (cases "store_order D d now m B")
  then show ?thesis
  proof (cases rule: store_order_cases)
    case (2 r)
    have "orders_ok B'" unfolding orders_ok_def
    proof
      show "keyed_by or_id (b_orders B')" using assms 2 by (simp add: market_ok_def orders_ok_def keyed_insert)
      show "within_caps MAX_ORDERS_TOTAL MAX_ORDERS_PER_MAKER live_for (rows (b_orders B'))"
        by (rule orders.insert[OF _ 2(3), of B' "[r]"]) (use assms 2 in \<open>simp_all add: market_ok_def orders_ok_def rows_insert live_for_def\<close>)
    qed
    then show ?thesis using assms 2 by (simp add: run market_ok_def)
  qed (use assms run in simp)
qed

lemma cancel_order_ok:
  assumes "market_ok B"
  shows "market_ok (snd (apply_cancellation oid addr B))"
proof (cases "snd (apply_cancellation oid addr B) = B")
  case False
  then obtain r where r: "map_of (b_orders B) oid = Some r"
    and B': "snd (apply_cancellation oid addr B) = B\<lparr>b_orders := AList.update oid (r\<lparr>or_cancelled := True\<rparr>) (b_orders B)\<rparr>"
    by (auto simp: apply_cancellation_def get_order_def split: option.splits if_splits)
  obtain xs ys where rs: "rows (b_orders B) = xs @ r # ys"
    "rows (AList.update oid (r\<lparr>or_cancelled := True\<rparr>) (b_orders B)) = xs @ r\<lparr>or_cancelled := True\<rparr> # ys"
    using rows_replace[OF r] by blast
  have "within_caps MAX_ORDERS_TOTAL MAX_ORDERS_PER_MAKER live_for (rows (AList.update oid (r\<lparr>or_cancelled := True\<rparr>) (b_orders B)))"
    using orders.shrink[of B "B\<lparr>b_orders := AList.update oid (r\<lparr>or_cancelled := True\<rparr>) (b_orders B)\<rparr>"] assms
    by (simp add: rs market_ok_def orders_ok_def live_for_def)
  moreover have "keyed_by or_id (AList.update oid (r\<lparr>or_cancelled := True\<rparr>) (b_orders B))"
    using assms r by (intro keyed_replace) (simp_all add: market_ok_def orders_ok_def)
  ultimately have "orders_ok (B\<lparr>b_orders := AList.update oid (r\<lparr>or_cancelled := True\<rparr>) (b_orders B)\<rparr>)"
    by (simp add: orders_ok_def)
  then show ?thesis using assms unfolding B' market_ok_def by simp
qed (use assms in simp)

lemma filtered_orders_ok: "market_ok B \<Longrightarrow> market_ok (B\<lparr>b_orders := filter (\<lambda>(_, r). P r) (b_orders B)\<rparr>)"
  using orders.filtered[of B "B\<lparr>b_orders := filter (\<lambda>(_, r). P r) (b_orders B)\<rparr>" P]
  by (simp add: market_ok_def) (simp add: orders_ok_def rows_filter keyed_filter)

lemma repaired_same: "or_id (repaired D r) = or_id r" "or_maker (repaired D r) = or_maker r" "or_cancelled (repaired D r) = or_cancelled r"
  by (simp_all add: repaired_def split: option.splits)

lemma filter_map_same: "(\<And>x. P (f x) = P x) \<Longrightarrow> length (filter P (map f xs)) = length (filter P xs)"
  by (induction xs) auto

lemma repaired_live: "length (filter (live_for v) (map (repaired D) rs)) = length (filter (live_for v) rs)"
  by (rule filter_map_same) (simp add: live_for_def repaired_same)

lemma repair_ok:
  assumes "market_ok B"
  shows "market_ok (repair_legacy_max_fill D B)"
proof -
  have rs: "rows (b_orders (repair_legacy_max_fill D B)) = map (repaired D) (rows (b_orders B))"
    by (simp add: repair_legacy_max_fill_def rows_map)
  have "within_caps MAX_ORDERS_TOTAL MAX_ORDERS_PER_MAKER live_for (rows (b_orders (repair_legacy_max_fill D B)))"
    by (rule orders.shrink[of B]) (use assms in \<open>simp_all only: rs repaired_live length_map market_ok_def orders_ok_def order_refl\<close>)
  moreover have "keyed_by or_id (b_orders (repair_legacy_max_fill D B))"
    using assms by (simp add: repair_legacy_max_fill_def keyed_map repaired_same market_ok_def orders_ok_def)
  ultimately have "orders_ok (repair_legacy_max_fill D B)" by (simp add: orders_ok_def)
  then show ?thesis using assms by (simp add: market_ok_def repair_legacy_max_fill_def)
qed

lemma store_request_cases:
  assumes "store_fill_request d now B = (res, B')"
  obtains "B' = B" | "B' = B\<lparr>b_requests := AList.update (text_of d ''request_id'') (request_row d now) (b_requests B)\<rparr>"
    "\<not> has_key (b_requests B) (text_of d ''request_id'')" "check_fill_request_admission B (text_of d ''taker_lapse_addr'') = Inr ()"
    "text_of d ''session_id'' \<notin> set (map rq_session (rows (b_requests B)))" "res = Inr True"
proof (cases "has_key (b_requests B) (text_of d ''request_id'')")
  case True
  then show thesis using assms that(1) by (simp add: store_fill_request_def)
next
  case False
  then show thesis using assms that(1,2)
    by (auto simp: store_fill_request_def rbind_Inr_conv res_simps split: sum.splits)
qed

lemma store_response_cases:
  assumes "store_fill_response d now B = (res, B')"
  obtains "B' = B" | "B' = B\<lparr>b_responses := AList.update (text_of d ''request_id'') (response_row d now) (b_responses B)\<rparr>"
    "\<not> has_key (b_responses B) (text_of d ''request_id'')"
    "check_fill_response_admission B (text_of d ''maker_pubkey'') (bool_of d ''accepted'') = Inr ()"
    "text_of d ''session_id'' \<notin> set (map rs_session (rows (b_responses B)))" "res = Inr True"
proof (cases "has_key (b_responses B) (text_of d ''request_id'')")
  case True
  then show thesis using assms that(1) by (simp add: store_fill_response_def)
next
  case False
  then show thesis using assms that(1,2)
    by (auto simp: store_fill_response_def rbind_Inr_conv res_simps split: sum.splits)
qed

lemma store_request_ok:
  assumes "market_ok B"
  shows "market_ok (snd (store_fill_request d now B))"
proof -
  obtain res B' where run: "store_fill_request d now B = (res, B')" by (cases "store_fill_request d now B")
  then show ?thesis
  proof (cases rule: store_request_cases)
    case 2
    let ?q = "request_row d now"
    have grown: "rows (b_requests B') = rows (b_requests B) @ [?q]" using 2 by (simp add: rows_insert)
    have "pending_fill_requests B' = pending_fill_requests B @ filter (\<lambda>q. rq_id q \<notin> set (accepted_ids B)) [?q]"
      unfolding pending_fill_requests_def grown using 2 by (simp add: accepted_ids_def)
    then have "within_caps MAX_FILL_REQUESTS_TOTAL MAX_FILL_REQUESTS_PER_TAKER asked_by (pending_fill_requests B')"
      by (rule requests.insert[rotated 2])
        (use assms 2(3) in \<open>simp_all add: market_ok_def requests_ok_def asked_by_def request_row_def split: if_splits\<close>)
    moreover have "keyed_by rq_id (b_requests B')"
      using assms 2 by (simp add: market_ok_def requests_ok_def keyed_insert request_row_def)
    moreover have "distinct (map rq_session (rows (b_requests B')))"
      using assms 2(4) by (simp add: grown market_ok_def requests_ok_def request_row_def)
    ultimately have "requests_ok B'" by (simp add: requests_ok_def)
    then show ?thesis using assms 2(1) by (simp add: run market_ok_def)
  qed (use assms run in simp)
qed

lemma prune_requests_ok: "market_ok B \<Longrightarrow> market_ok (snd (prune_fill_requests now B))"
proof -
  assume ok: "market_ok B"
  define P where "P = (\<lambda>q::fill_request. \<not> (rq_received_at q \<le> now - FILL_REQUEST_MAX_AGE_SECONDS \<and> rq_id q \<notin> set (accepted_ids B)))"
  have B': "snd (prune_fill_requests now B) = B\<lparr>b_requests := filter (\<lambda>(_, q). P q) (b_requests B)\<rparr>"
    by (simp add: prune_fill_requests_def P_def)
  have "pending_fill_requests (B\<lparr>b_requests := filter (\<lambda>(_, q). P q) (b_requests B)\<rparr>) = filter P (pending_fill_requests B)"
    by (simp add: pending_fill_requests_def accepted_ids_def rows_filter) (metis filter_filter conj_commute)
  from requests.filtered[OF _ this] ok
  have "requests_ok (B\<lparr>b_requests := filter (\<lambda>(_, q). P q) (b_requests B)\<rparr>)"
    by (simp add: market_ok_def requests_ok_def rows_filter keyed_filter distinct_map_filter)
  then show ?thesis using ok by (simp add: B' market_ok_def)
qed

lemma kept_insert:
  "rows (b_responses B') = rows (b_responses B) @ [r] \<Longrightarrow>
   kept_responses c B' = kept_responses c B @ (if rs_accepted r = c then [r] else [])"
  by (simp add: kept_responses_def)

lemma pending_after_response:
  "b_requests B' = b_requests B \<Longrightarrow> set (accepted_ids B) \<subseteq> set (accepted_ids B') \<Longrightarrow>
   pending_fill_requests B' = filter (\<lambda>q. rq_id q \<notin> set (accepted_ids B')) (pending_fill_requests B)"
  unfolding pending_fill_requests_def by (simp, rule filter_cong) auto

lemma fewer_pending: "market_ok (B :: 'e book) \<Longrightarrow> b_requests (B' :: 'e book) = b_requests B \<Longrightarrow> set (accepted_ids B) \<subseteq> set (accepted_ids B') \<Longrightarrow> requests_ok B'"
  using requests.filtered[of B B'] pending_after_response[of B' B] by (simp add: market_ok_def requests_ok_def)

lemma store_response_ok:
  assumes "market_ok B"
  shows "market_ok (snd (store_fill_response d now B))"
proof -
  obtain res B' where run: "store_fill_response d now B = (res, B')" by (cases "store_fill_response d now B")
  then show ?thesis
  proof (cases rule: store_response_cases)
    case 2
    let ?r = "response_row d now"
    have grown: "rows (b_responses B') = rows (b_responses B) @ [?r]" using 2 by (simp add: rows_insert)
    have row: "rs_maker_pubkey ?r = text_of d ''maker_pubkey''" "rs_accepted ?r = bool_of d ''accepted''" "rs_id ?r = text_of d ''request_id''"
      "rs_session ?r = text_of d ''session_id''"
      by (simp_all add: response_row_def)
    have kept: "within_caps MAX_FILL_RESPONSES_TOTAL MAX_FILL_RESPONSES_PER_MAKER answered_with (kept_responses False B)"
      "within_caps MAX_ACCEPTED_RESPONSES_TOTAL MAX_ACCEPTED_RESPONSES_PER_MAKER answered_with (kept_responses True B)"
      using assms by (simp_all add: market_ok_def responses_ok_def)
    have no: "within_caps MAX_FILL_RESPONSES_TOTAL MAX_FILL_RESPONSES_PER_MAKER answered_with (kept_responses False B')"
    proof (cases "bool_of d ''accepted''")
      case False
      then show ?thesis using declines.insert[OF kept(1), of "rs_maker_pubkey ?r" B' "[?r]"] 2(3) kept_insert[OF grown]
        by (simp add: row answered_with_def)
    qed (use kept kept_insert[OF grown] in \<open>simp add: row\<close>)
    have yes: "within_caps MAX_ACCEPTED_RESPONSES_TOTAL MAX_ACCEPTED_RESPONSES_PER_MAKER answered_with (kept_responses True B')"
    proof (cases "bool_of d ''accepted''")
      case True
      then show ?thesis using accepts.insert[OF kept(2), of "rs_maker_pubkey ?r" B' "[?r]"] 2(3) kept_insert[OF grown]
        by (simp add: row answered_with_def)
    qed (use kept kept_insert[OF grown] in \<open>simp add: row\<close>)
    have "responses_ok B'"
      using assms 2 no yes by (simp add: market_ok_def responses_ok_def keyed_insert grown row rows_insert)
    moreover have "requests_ok B'"
      by (rule fewer_pending[OF assms]) (use 2 grown in \<open>auto simp: accepted_ids_def\<close>)
    ultimately show ?thesis using assms 2(1) by (simp add: run market_ok_def)
  qed (use assms run in simp)
qed

lemma prune_responses_ok: "market_ok B \<Longrightarrow> market_ok (snd (prune_fill_responses now B))"
proof -
  assume ok: "market_ok B"
  define P where "P = (\<lambda>r::fill_response. \<not> (rs_received_at r \<le> now - FILL_RESPONSE_MAX_AGE_SECONDS \<and> \<not> rs_accepted r))"
  define B' where "B' = B\<lparr>b_responses := filter (\<lambda>(_, r). P r) (b_responses B)\<rparr>"
  have run: "snd (prune_fill_responses now B) = B'" by (simp add: prune_fill_responses_def P_def B'_def)
  have kept: "kept_responses c B' = filter P (kept_responses c B)" for c
    by (simp add: kept_responses_def B'_def rows_filter conj_commute)
  have "responses_ok B'"
    using ok declines.filtered[OF _ kept] accepts.filtered[OF _ kept]
    by (simp add: market_ok_def responses_ok_def) (simp add: B'_def rows_filter keyed_filter distinct_map_filter)
  moreover have "requests_ok B'"
    by (rule fewer_pending[OF ok]) (auto simp: B'_def accepted_ids_def rows_filter P_def)
  ultimately show ?thesis using ok by (simp add: run B'_def market_ok_def)
qed

lemma empty_book_ok: "market_ok empty_book"
  using orders.empty requests.empty declines.empty accepts.empty
  by (simp add: market_ok_def orders_ok_def requests_ok_def responses_ok_def empty_book_def keyed_by_def pending_fill_requests_def kept_responses_def)

lemma market_run_ok: "market_run D B \<Longrightarrow> market_ok B"
proof (induction rule: market_run.induct)
  case (expire B h)
  then show ?case by (simp add: prune_expired_def filtered_orders_ok)
next
  case (trade B T S)
  then show ?case by (simp add: market_ok_def)
qed (simp_all add: empty_book_ok store_order_ok cancel_order_ok repair_ok store_request_ok prune_requests_ok store_response_ok prune_responses_ok)

text \<open>C23: Over any sequence of stored, cancelled, expired and pruned rows, whatever arrives: at most 50000 orders and 20 live
  orders of a maker, 10000 unanswered requests and 20 of a taker, 10000 declines and 200 of a key, 200000 acceptances and 500 of a
  key are kept; each row is kept under its own identifier, and no two requests, nor two responses, share a session.\<close>

theorem market_within_limits:
  assumes "market_run D B"
  shows "within_caps 50000 20 live_for (rows (b_orders B)) \<and> within_caps 10000 20 asked_by (pending_fill_requests B)
    \<and> within_caps 10000 200 answered_with (kept_responses False B) \<and> within_caps 200000 500 answered_with (kept_responses True B)
    \<and> keyed_by or_id (b_orders B) \<and> keyed_by rq_id (b_requests B) \<and> keyed_by rs_id (b_responses B)
    \<and> distinct (map rq_session (rows (b_requests B))) \<and> distinct (map rs_session (rows (b_responses B)))"
  using market_run_ok[OF assms] by (simp add: market_ok_def orders_ok_def requests_ok_def responses_ok_def market_caps)

section \<open>Reservations\<close>

text \<open>The terms under which a response takes from an order, written out.\<close>

definition binds :: "deps \<Rightarrow> 'e book \<Rightarrow> order \<Rightarrow> int \<Rightarrow> (string, json) dict \<Rightarrow> bool" where
  "binds D B o' h d \<longleftrightarrow> text_of d ''order_id'' = or_id o' \<and> bool_of d ''accepted''
     \<and> signed_by_maker D (text_of d ''maker_pubkey'') (or_maker o')
     \<and> text_of d ''session_id'' \<notin> set (sessions_of B (or_id o'))
     \<and> h < int_of d ''accepted_height'' + int_of d ''increment_count'' * int_of d ''confirm_depth'' * 6 + 30"

lemma binds_row: "reserves D B o' h (response_row d now) = binds D B o' h d"
  by (auto simp: reserves_def binds_def response_row_def trade_expired_by_def Let_def step_timeout_blocks_def STEP_TIMEOUT_MULTIPLIER_def
      ABANDON_AFTER_BLOCKS_def ABANDON_AFTER_SECONDS_def)

lemma reserves_same: "b_trades B' = b_trades B \<Longrightarrow> reserves D B' o' h r = reserves D B o' h r"
  by (simp add: reserves_def sessions_of_def)

lemma reserved_after_response:
  assumes run: "store_fill_response d now B = (res, B')" and o': "get_order B (or_id o') = Some o'"
  shows "reserved_ticks D B' (or_id o') h = reserved_ticks D B (or_id o') h
      + (if res = Inr True \<and> binds D B o' h d then int_of d ''lapse_total'' else 0)
    \<and> delivered_ticks B' (or_id o') = delivered_ticks B (or_id o')"
  using run
proof (cases rule: store_response_cases)
  case 1
  have "res \<noteq> Inr True"
  proof
    assume "res = Inr True"
    then have "b_responses B' = AList.update (text_of d ''request_id'') (response_row d now) (b_responses B)"
      "\<not> has_key (b_responses B) (text_of d ''request_id'')"
      using run by (auto simp: store_fill_response_def split: if_splits sum.splits)
    then show False using 1 has_key_update[of "text_of d ''request_id''" "response_row d now" "b_responses B"] by metis
  qed
  then show ?thesis using 1 by simp
next
  case 2
  have same: "b_trades B' = b_trades B" "b_steps B' = b_steps B" "get_order B' (or_id o') = Some o'"
    using 2(1) o' by (simp_all add: get_order_def)
  have "rows (b_responses B') = rows (b_responses B) @ [response_row d now]" using 2 by (simp add: rows_insert)
  moreover have "reserves D B' o' h = reserves D B o' h" by (rule ext, rule reserves_same) (rule same)
  ultimately have "reserved_ticks D B' (or_id o') h = reserved_ticks D B (or_id o') h
      + (if binds D B o' h d then int_of d ''lapse_total'' else 0)"
    using o' by (simp add: reserved_ticks_def same(3) binds_row) (simp add: response_row_def)
  then show ?thesis using 2(5) by (simp add: delivered_ticks_def sessions_of_def same)
qed

text \<open>C22: A stored response changes what is left of an order only if it names the order, accepts, is unknown here, carries a key whose
  address is the maker's, belongs to no trade of this node, and its time has not run out; then the order has exactly its amount
  less. The response of a stranger, however well signed, takes nothing from anybody's order.\<close>

theorem only_the_maker_reserves:
  assumes "store_fill_response d now B = (res, B')" and "get_order B (or_id o') = Some o'"
  shows "remaining_ticks D B' o' h = (if res = Inr True \<and> binds D B o' h d
      then max (or_total o' - delivered_ticks B (or_id o') - reserved_ticks D B (or_id o') h - int_of d ''lapse_total'') 0
      else remaining_ticks D B o' h)
    \<and> (fromhex (text_of d ''maker_pubkey'') = Some key \<and> public_key_to_address (dp_prims D) key \<noteq> or_maker o'
        \<longrightarrow> remaining_ticks D B' o' h = remaining_ticks D B o' h)"
proof (intro conjI impI)
  show *: "remaining_ticks D B' o' h = (if res = Inr True \<and> binds D B o' h d
      then max (or_total o' - delivered_ticks B (or_id o') - reserved_ticks D B (or_id o') h - int_of d ''lapse_total'') 0
      else remaining_ticks D B o' h)"
    using reserved_after_response[OF assms, of D h] by (simp add: remaining_ticks_def algebra_simps)
  assume "fromhex (text_of d ''maker_pubkey'') = Some key \<and> public_key_to_address (dp_prims D) key \<noteq> or_maker o'"
  then have "\<not> binds D B o' h d" by (simp add: binds_def signed_by_maker_def)
  then show "remaining_ticks D B' o' h = remaining_ticks D B o' h" using * by simp
qed

section \<open>An order handed on from storage\<close>

text \<open>What SQLite and peewee do to a text: nothing.\<close>

definition keeps_text :: "deps \<Rightarrow> bool" where
  "keeps_text D \<longleftrightarrow> (\<forall>s. dp_text D (JStr s) = Inr s)"

lemma is_int_jget: "is_int d k \<Longrightarrow> jget d k = JInt (int_of d k)"
  by (cases "jget d k") (simp_all add: is_int_def int_of_def)

lemma hex_field_text: "hex_field d k = Some b \<Longrightarrow> jget d k = JStr (text_of d k)"
  by (cases "jget d k") (simp_all add: hex_field_def text_of_def)

lemma order_terms_read:
  assumes "check_order_terms D d h = Inr ()"
  shows "is_direction (jget d ''direction'')" "is_int d ''lapse_total''" "is_int d ''price_stroops_per_lapse''" "is_int d ''min_fill''"
    "is_int d ''max_fill''" "is_int d ''expiry_block''" "is_valid_address (dp_prims D) (jget d ''maker_lapse_addr'')"
    "xlm_address_ok D (jget d ''maker_xlm_addr'')"
  using assms by (auto simp: check_order_terms_def rbind_Inr_conv res_simps)

lemma valid_address_text: "is_valid_address P j \<Longrightarrow> \<exists>s. j = JStr s"
  by (cases j) (simp_all add: is_valid_address_def)

lemma xlm_address_text: "xlm_address_ok D j \<Longrightarrow> \<exists>s. j = JStr s"
  by (cases j) (simp_all add: xlm_address_ok_def)

definition agree_on :: "string list \<Rightarrow> (string, json) dict \<Rightarrow> (string, json) dict \<Rightarrow> bool" where
  "agree_on ks w d \<longleftrightarrow> has_all (''signature'' # ks) w \<and> has_all (''signature'' # ks) d \<and> only_fields ks w \<and> only_fields ks d
     \<and> list_all (\<lambda>k. jget w k = jget d k) (''signature'' # ks)"

lemma agree_signed_part: "agree_on ks w d \<Longrightarrow> signed_part ks w = signed_part ks d"
  by (simp add: agree_on_def signed_part_def list_all_iff)

lemma agree_reads:
  "jget w k = jget d k \<Longrightarrow> is_int w k = is_int d k \<and> int_of w k = int_of d k \<and> text_of w k = text_of d k \<and> hex_field w k = hex_field d k"
  by (simp add: is_int_def int_of_def text_of_def hex_field_def)

lemma agree_order_verdict:
  assumes a: "agree_on SIGNED_FIELDS w d"
  shows "verify_order D B (JObj w) h = verify_order D B (JObj d) h"
proof -
  have j: "jget w k = jget d k" if "k \<in> {''signature'', ''pubkey'', ''maker_lapse_addr'', ''maker_xlm_addr'', ''direction'', ''lapse_total'',
      ''price_stroops_per_lapse'', ''min_fill'', ''max_fill'', ''expiry_block''}" for k
    using a that by (auto simp: agree_on_def SIGNED_FIELDS_def)
  have "check_order_terms D w h = check_order_terms D d h"
    using a by (cases h) (simp_all add: check_order_terms_def agree_on_def has_all_def j agree_reads[OF j])
  moreover have "verify_signature D w = verify_signature D d"
    by (simp add: verify_signature_def signing_bytes_def agree_signed_part[OF a] j agree_reads[OF j] split: option.split)
  ultimately show ?thesis by (simp add: verify_order_def agree_reads[OF j])
qed

lemma verified_order:
  "verify_order D B (JObj d) h = Inr () \<Longrightarrow> check_order_terms D d h = Inr () \<and> check_admission B (text_of d ''maker_lapse_addr'') = Inr ()
     \<and> verify_signature D d = Inr ()"
  by (simp add: verify_order_def rbind_Inr_conv)

lemma signature_texts: "verify_signature D d = Inr () \<Longrightarrow> jget d ''pubkey'' = JStr (text_of d ''pubkey'') \<and> jget d ''signature'' = JStr (text_of d ''signature'')"
  by (auto simp: verify_signature_def hex_field_text split: option.splits)

lemma wire_fields: "map (jget (order_to_wire r)) (SIGNED_FIELDS @ [''signature'']) = map snd (order_to_wire r)" "map fst (order_to_wire r) = SIGNED_FIELDS @ [''signature'']"
  by (simp_all add: order_to_wire_def SIGNED_FIELDS_def jget_def get_or_def)

lemma wire_agrees:
  assumes v: "verify_order D B (JObj d) h = Inr ()" and r: "order_row D d now m = Inr r"
    and oid: "jget d ''order_id'' = JStr oid" and D: "keeps_text D"
  shows "agree_on SIGNED_FIELDS (order_to_wire r) d"
proof -
  note t = verified_order[OF v]
  note reads = order_terms_read[OF t[THEN conjunct1]]
  have d: "has_all (''signature'' # SIGNED_FIELDS) d" "only_fields SIGNED_FIELDS d"
    using t by (auto simp: check_order_terms_def rbind_Inr_conv res_simps has_all_def)
  have w: "has_all (''signature'' # SIGNED_FIELDS) (order_to_wire r)" "only_fields SIGNED_FIELDS (order_to_wire r)"
    by (simp_all add: has_all_def only_fields_def has_key_def order_to_wire_def SIGNED_FIELDS_def)
  have addrs: "jget d ''maker_lapse_addr'' = JStr (text_of d ''maker_lapse_addr'')" "jget d ''maker_xlm_addr'' = JStr (text_of d ''maker_xlm_addr'')"
    using valid_address_text[OF reads(7)] xlm_address_text[OF reads(8)] by (auto simp: text_of_def)
  have dir: "jget d ''direction'' = direction_json (jget d ''direction'' = JStr ''sell'')"
    using reads(1) by (auto simp: is_direction_def direction_json_def)
  have "dp_text D (JStr oid) = Inr oid" using D by (simp add: keeps_text_def)
  then have "r = \<lparr>or_id = oid, or_maker = text_of d ''maker_lapse_addr'', or_xlm_addr = text_of d ''maker_xlm_addr'',
         or_sells = (jget d ''direction'' = JStr ''sell''), or_total = int_of d ''lapse_total'',
         or_price = int_of d ''price_stroops_per_lapse'', or_min = int_of d ''min_fill'', or_max = int_of d ''max_fill'',
         or_expiry = int_of d ''expiry_block'', or_pubkey = text_of d ''pubkey'', or_signature = text_of d ''signature'',
         or_received_at = now, or_cancelled = False, or_margin = or_margin r\<rparr>"
    using r oid by (auto simp: order_row_def rbind_Inr_conv)
  then obtain mg where row: "r = \<lparr>or_id = oid, or_maker = text_of d ''maker_lapse_addr'', or_xlm_addr = text_of d ''maker_xlm_addr'',
         or_sells = (jget d ''direction'' = JStr ''sell''), or_total = int_of d ''lapse_total'',
         or_price = int_of d ''price_stroops_per_lapse'', or_min = int_of d ''min_fill'', or_max = int_of d ''max_fill'',
         or_expiry = int_of d ''expiry_block'', or_pubkey = text_of d ''pubkey'', or_signature = text_of d ''signature'',
         or_received_at = now, or_cancelled = False, or_margin = mg\<rparr>" by blast
  have "map (jget (order_to_wire r)) (SIGNED_FIELDS @ [''signature'']) = map (jget d) (SIGNED_FIELDS @ [''signature''])"
    unfolding wire_fields using reads addrs dir signature_texts[of D d] t
    by (simp add: row order_to_wire_def SIGNED_FIELDS_def oid is_int_jget)
  then show ?thesis using d w by (simp add: agree_on_def list_all_iff)
qed


section \<open>The median of the ticker\<close>

definition weight_where :: "(int \<Rightarrow> bool) \<Rightarrow> (int \<times> rat) list \<Rightarrow> rat" where
  "weight_where P samples = sum_list (map snd (filter (\<lambda>(p, _). P p) samples))"

lemma weight_simps [simp]:
  "weight_where P [] = 0" "weight_where P ((p, w) # xs) = (if P p then w else 0) + weight_where P xs"
  "weight_where P (xs @ ys) = weight_where P xs + weight_where P ys"
  by (simp_all add: weight_where_def)

lemma weight_sort: "weight_where P (sort_key f xs) = weight_where P xs"
proof -
  have "mset (map snd (filter (\<lambda>(p, _). P p) (sort_key f xs))) = mset (map snd (filter (\<lambda>(p, _). P p) xs))" by simp
  then show ?thesis unfolding weight_where_def by (metis sum_mset_sum_list)
qed

lemma weight_nonneg: "\<forall>(p, w)\<in>set xs. 0 < w \<Longrightarrow> 0 \<le> weight_where P xs"
  by (induction xs) (auto simp: less_imp_le add_nonneg_nonneg)

lemma weight_all: "\<forall>(p, w)\<in>set xs. P p \<Longrightarrow> weight_where P xs = sum_list (map snd xs)"
  by (induction xs) auto

lemma reach_half_at:
  "reach_half half cum xs = Some p \<Longrightarrow>
   \<exists>ys w zs. xs = ys @ (p, w) # zs \<and> half \<le> cum + sum_list (map snd ys) + w \<and> (ys = [] \<or> cum + sum_list (map snd ys) < half)"
proof (induction xs arbitrary: cum)
  case (Cons x xs)
  obtain q v where x: "x = (q, v)" by (cases x)
  show ?case
  proof (cases "cum + v \<ge> half")
    case True
    then show ?thesis using Cons.prems by (intro exI[of _ "[]"] exI[of _ v] exI[of _ xs]) (simp add: x)
  next
    case False
    then obtain ys w zs where "xs = ys @ (p, w) # zs" "half \<le> cum + v + sum_list (map snd ys) + w"
      "ys = [] \<or> cum + v + sum_list (map snd ys) < half"
      using Cons.IH[of "cum + v"] Cons.prems by (auto simp: x)
    then show ?thesis using False by (intro exI[of _ "x # ys"] exI[of _ w] exI[of _ zs]) (auto simp: x add.assoc)
  qed
qed simp

lemma reach_half_reaches: "xs \<noteq> [] \<Longrightarrow> half \<le> cum + sum_list (map snd xs) \<Longrightarrow> reach_half half cum xs \<noteq> None"
proof (induction xs arbitrary: cum)
  case (Cons x xs)
  show ?case
  proof (cases "xs = []")
    case False
    then show ?thesis using Cons.IH[of "cum + snd x"] Cons.prems by (cases x) (auto simp: add.assoc)
  qed (use Cons.prems in \<open>cases x, auto\<close>)
qed simp

lemma weighted_median_reached:
  assumes "samples \<noteq> []" and pos: "\<forall>(p, w)\<in>set samples. 0 < w"
  obtains p where "weighted_median samples = Inr p" "p \<in> fst ` set samples"
    "reach_half (sum_list (map snd (sort_key fst samples)) / 2) 0 (sort_key fst samples) = Some p"
proof -
  let ?xs = "sort_key fst samples"
  have "0 \<le> sum_list (map snd ?xs)" using weight_nonneg[of ?xs "\<lambda>_. True"] pos by (simp add: weight_where_def case_prod_unfold)
  moreover have ne: "?xs \<noteq> []" using assms(1) by (metis length_0_conv length_sort)
  ultimately obtain p where p: "reach_half (sum_list (map snd ?xs) / 2) 0 ?xs = Some p"
    using reach_half_reaches[of ?xs "sum_list (map snd ?xs) / 2" 0] by fastforce
  obtain ys w zs where "?xs = ys @ (p, w) # zs" using reach_half_at[OF p] by blast
  then have "(p, w) \<in> set ?xs" by simp
  then have "p \<in> fst ` set samples" by (force simp: set_sort_key_eq)
  then show thesis using that p by (simp add: weighted_median_def Let_def)
qed

lemma sorted_parts:
  assumes "sorted (map fst (ys @ (p, w) # zs))"
  shows "\<forall>(q, v)\<in>set ys. q \<le> p" "\<forall>(q, v)\<in>set zs. p \<le> q"
  using assms by (auto simp: sorted_append)

text \<open>The price shown is one that was paid; the samples above it hold at most half of the weight, those below it less than half.\<close>

lemma weighted_median_splits:
  assumes "samples \<noteq> []" and pos: "\<forall>(p, w)\<in>set samples. 0 < w"
  obtains p where "weighted_median samples = Inr p" "p \<in> fst ` set samples"
    "2 * weight_where (\<lambda>q. q < p) samples < sum_list (map snd samples)" "2 * weight_where (\<lambda>q. q > p) samples \<le> sum_list (map snd samples)"
proof -
  let ?xs = "sort_key fst samples"
  obtain p where p: "weighted_median samples = Inr p" "p \<in> fst ` set samples" "reach_half (sum_list (map snd ?xs) / 2) 0 ?xs = Some p"
    using weighted_median_reached[OF assms] .
  obtain ys w zs where xs: "?xs = ys @ (p, w) # zs" and half0: "sum_list (map snd ?xs) / 2 \<le> 0 + sum_list (map snd ys) + w"
    "ys = [] \<or> 0 + sum_list (map snd ys) < sum_list (map snd ?xs) / 2"
    using reach_half_at[OF p(3)] by blast
  note half = half0[unfolded add_0]
  have "sorted (map fst (ys @ (p, w) # zs))" unfolding xs[symmetric] by simp
  note parts = sorted_parts[OF this]
  have pos': "\<forall>(q, v)\<in>set ys. 0 < v" "\<forall>(q, v)\<in>set zs. 0 < v" "0 < w"
    using pos set_sort_key_eq[of fst samples] by (auto simp: xs)
  have tot: "sum_list (map snd ?xs) = sum_list (map snd samples)" using weight_sort[of "\<lambda>_. True" fst samples] by (simp add: weight_where_def case_prod_unfold)
  have zero: "weight_where P us = 0" if "\<forall>(q, v)\<in>set us. \<not> P q" for P us using that by (induction us) auto
  have le: "weight_where P us \<le> sum_list (map snd us)" if "\<forall>(q, v)\<in>set us. 0 < v" for P us using that by (induction us) auto
  have z1: "weight_where (\<lambda>q. q < p) zs = 0" by (rule zero) (use parts(2) in fastforce)
  have z2: "weight_where (\<lambda>q. q > p) ys = 0" by (rule zero) (use parts(1) in fastforce)
  have "weight_where (\<lambda>q. q < p) ?xs \<le> sum_list (map snd ys)" unfolding xs by (simp add: z1 le[OF pos'(1)])
  moreover have "0 \<le> sum_list (map snd ys)" "0 \<le> sum_list (map snd zs)"
    using weight_nonneg[OF pos'(1), of "\<lambda>_. True"] weight_nonneg[OF pos'(2), of "\<lambda>_. True"] by (simp_all add: weight_where_def case_prod_unfold)
  then have "0 < sum_list (map snd ?xs)" unfolding xs using pos'(3) by simp
  ultimately have a: "2 * weight_where (\<lambda>q. q < p) samples < sum_list (map snd samples)"
    using half(2) by (auto simp: weight_sort tot)
  have "weight_where (\<lambda>q. q > p) ?xs \<le> sum_list (map snd zs)" unfolding xs by (simp add: z2 le[OF pos'(2)])
  then have b: "2 * weight_where (\<lambda>q. q > p) samples \<le> sum_list (map snd samples)"
    using half(1) unfolding weight_sort tot[symmetric] by (simp add: xs)
  show thesis using that[OF p(1,2) a b] .
qed

lemma weight_mono: "\<forall>(p, w)\<in>set xs. 0 < w \<and> (P p \<longrightarrow> Q p) \<Longrightarrow> weight_where P xs \<le> weight_where Q xs"
  by (induction xs) (auto intro: add_mono add_increasing)

text \<open>What blunts a wash trade: whatever prices a minority pays itself, the price shown is one that was paid, and lies within any
  range of prices that carries more than half of the weight.\<close>

theorem ticker_resists_minority:
  assumes "samples \<noteq> []" and pos: "\<forall>(p, w)\<in>set samples. 0 < w"
    and majority: "2 * weight_where (\<lambda>p. lo \<le> p \<and> p \<le> hi) samples > sum_list (map snd samples)"
  shows "case weighted_median samples of Inl e \<Rightarrow> False | Inr p \<Rightarrow> p \<in> fst ` set samples \<and> lo \<le> p \<and> p \<le> hi"
proof -
  obtain p where p: "weighted_median samples = Inr p" "p \<in> fst ` set samples"
    "2 * weight_where (\<lambda>q. q < p) samples < sum_list (map snd samples)" "2 * weight_where (\<lambda>q. q > p) samples \<le> sum_list (map snd samples)"
    using weighted_median_splits[OF assms(1,2)] .
  have "lo \<le> p"
  proof (rule ccontr)
    assume "\<not> lo \<le> p"
    then have "weight_where (\<lambda>q. lo \<le> q \<and> q \<le> hi) samples \<le> weight_where (\<lambda>q. q > p) samples"
      using pos by (intro weight_mono) auto
    then show False using p(4) majority by linarith
  qed
  moreover have "p \<le> hi"
  proof (rule ccontr)
    assume "\<not> p \<le> hi"
    then have "weight_where (\<lambda>q. lo \<le> q \<and> q \<le> hi) samples \<le> weight_where (\<lambda>q. q < p) samples"
      using pos by (intro weight_mono) auto
    then show False using p(3) majority by linarith
  qed
  ultimately show ?thesis using p by simp
qed

section \<open>Instances\<close>

definition demo_text :: "json \<Rightarrow> string res" where
  "demo_text j = (case j of JStr s \<Rightarrow> Inr s | JInt n \<Rightarrow> Inr (py_str n) | _ \<Rightarrow> Inl TypeError)"

definition demo_deps :: deps where
  "demo_deps = \<lparr>dp_prims = demo_prims, dp_xlm_key = (\<lambda>s. s = ''GA''), dp_text = demo_text\<rparr>"

definition demo_order :: "(string, json) dict" where
  "demo_order = [(''order_id'', JStr ''o1''), (''maker_lapse_addr'', JStr (demo_addr CHR ''a'')), (''maker_xlm_addr'', JStr ''GA''),
     (''direction'', JStr ''sell''), (''lapse_total'', JInt 1000), (''price_stroops_per_lapse'', JInt 10), (''min_fill'', JInt 0),
     (''max_fill'', JInt 0), (''expiry_block'', JInt 900), (''pubkey'', JStr ''01''), (''signature'', JStr ''02'')]"

definition demo_response :: "(string, json) dict" where
  "demo_response = [(''request_id'', JStr ''r1''), (''order_id'', JStr ''o1''), (''session_id'', JStr ''s1''), (''lapse_total'', JInt 400),
     (''accepted'', JBool True), (''increment_count'', JInt 5), (''reason'', JStr []), (''maker_pubkey'', JStr ''01''),
     (''accepted_height'', JInt 100), (''confirm_depth'', JInt 2), (''xlm_total'', JInt 1), (''direction'', JStr ''sell''),
     (''maker_xlm_addr'', JStr ''GA''), (''maker_opens'', JBool False), (''signature'', JStr ''02'')]"

lemma demo_deps_fields [simp]: "dp_prims demo_deps = demo_prims" "dp_xlm_key demo_deps s = (s = ''GA'')" "dp_text demo_deps = demo_text"
  by (simp_all add: demo_deps_def)

lemma demo_keeps_text: "keeps_text demo_deps"
  by (simp add: keeps_text_def demo_text_def)

lemma demo_order_fields:
  "jget demo_order ''order_id'' = JStr ''o1''" "jget demo_order ''maker_lapse_addr'' = JStr (demo_addr CHR ''a'')"
  "jget demo_order ''maker_xlm_addr'' = JStr ''GA''" "jget demo_order ''direction'' = JStr ''sell''" "jget demo_order ''lapse_total'' = JInt 1000"
  "jget demo_order ''price_stroops_per_lapse'' = JInt 10" "jget demo_order ''min_fill'' = JInt 0" "jget demo_order ''max_fill'' = JInt 0"
  "jget demo_order ''expiry_block'' = JInt 900" "jget demo_order ''pubkey'' = JStr ''01''" "jget demo_order ''signature'' = JStr ''02''"
  "has_all SIGNED_FIELDS demo_order" "has_key demo_order ''signature''" "only_fields SIGNED_FIELDS demo_order" "\<not> has_key demo_order ''cancel''"
  by (simp_all add: demo_order_def jget_def get_or_def has_all_def only_fields_def SIGNED_FIELDS_def has_key_def)

lemmas demo_reads = is_int_def int_of_def text_of_def hex_field_def bool_of_def

lemma demo_key_hex: "fromhex ''01'' = Some [CHR 0x01]" "fromhex ''02'' = Some [CHR 0x02]"
  by code_simp+

lemma demo_order_verifies: "verify_order demo_deps empty_book (JObj demo_order) (Some 100) = Inr ()"
  by (simp add: verify_order_def check_order_terms_def demo_order_fields demo_reads is_direction_def xlm_address_ok_def require_def
      check_admission_def live_orders_of_def count_rows_def empty_book_def market_caps verify_signature_def demo_key_hex demo_key_address
      verify_def MAX_EXPIRY_HORIZON_BLOCKS_def del: fromhex.simps)

definition demo_order_row :: order where
  "demo_order_row = \<lparr>or_id = ''o1'', or_maker = demo_addr CHR ''a'', or_xlm_addr = ''GA'', or_sells = True, or_total = 1000, or_price = 10,
     or_min = 0, or_max = 0, or_expiry = 900, or_pubkey = ''01'', or_signature = ''02'', or_received_at = 5, or_cancelled = False, or_margin = 0\<rparr>"

lemma demo_order_stored: "store_order demo_deps demo_order 5 0 (empty_book :: string book)
    = (Inr True, empty_book\<lparr>b_orders := [(''o1'', demo_order_row)]\<rparr>)"
  by (simp add: store_order_def order_row_def demo_order_fields demo_reads demo_text_def empty_book_def check_admission_def live_orders_of_def
      count_rows_def market_caps require_def db_int64_def has_key_def demo_order_row_def)

theorem market_within_limits_witness:
  "case store_order demo_deps demo_order 5 0 (empty_book :: string book) of (_, B) \<Rightarrow>
     length (b_orders B) = 1 \<and> within_caps 50000 20 live_for (rows (b_orders B))"
proof -
  have "market_run demo_deps (snd (store_order demo_deps demo_order 5 0 (empty_book :: string book)))"
    by (rule market_run.order) (rule market_run.empty)
  from market_within_limits[OF this] show ?thesis by (simp add: demo_order_stored)
qed

lemma demo_response_fields:
  "jget demo_response ''request_id'' = JStr ''r1''" "jget demo_response ''order_id'' = JStr ''o1''" "jget demo_response ''session_id'' = JStr ''s1''"
  "jget demo_response ''lapse_total'' = JInt 400" "jget demo_response ''accepted'' = JBool True" "jget demo_response ''increment_count'' = JInt 5"
  "jget demo_response ''maker_pubkey'' = JStr ''01''" "jget demo_response ''accepted_height'' = JInt 100"
  "jget demo_response ''confirm_depth'' = JInt 2" "jget demo_response ''xlm_total'' = JInt 1"
  by (simp_all add: demo_response_def jget_def get_or_def)

lemma demo_response_stored:
  "store_fill_response demo_response 6 (empty_book\<lparr>b_orders := [(''o1'', r)]\<rparr> :: string book)
    = (Inr True, empty_book\<lparr>b_orders := [(''o1'', r)], b_responses := [(''r1'', response_row demo_response 6)]\<rparr>)"
  by (simp add: store_fill_response_def demo_response_fields demo_reads empty_book_def check_fill_response_admission_def market_caps require_def
      db_int64_def has_key_def)

text \<open>The key behind the response belongs to one address; of two orders under the same number, the one of that address gives way.\<close>

theorem only_the_maker_reserves_witness:
  "(case store_fill_response demo_response 6 (empty_book\<lparr>b_orders := [(''o1'', demo_order_row)]\<rparr> :: string book) of (_, B) \<Rightarrow>
     remaining_ticks demo_deps B demo_order_row 100 = 600)
  \<and> (case store_fill_response demo_response 6 (empty_book\<lparr>b_orders := [(''o1'', demo_order_row\<lparr>or_maker := demo_addr CHR ''b''\<rparr>)]\<rparr> :: string book) of (_, B) \<Rightarrow>
     remaining_ticks demo_deps B (demo_order_row\<lparr>or_maker := demo_addr CHR ''b''\<rparr>) 100 = 1000)"
proof -
  let ?B = "\<lambda>r. empty_book\<lparr>b_orders := [(''o1'', r)]\<rparr> :: string book"
  have g: "get_order (?B r) (or_id r) = Some r" if "or_id r = ''o1''" for r using that by (simp add: get_order_def)
  have left: "remaining_ticks demo_deps (?B r) r 100 = or_total r" "reserved_ticks demo_deps (?B r) (or_id r) 100 = 0"
    "delivered_ticks (?B r) (or_id r) = 0" if "or_id r = ''o1''" "or_total r = 1000" for r
    using that by (simp_all add: remaining_ticks_def delivered_ticks_def reserved_ticks_def get_order_def empty_book_def)
  have ids: "or_id demo_order_row = ''o1''" "or_total demo_order_row = 1000" "or_maker demo_order_row = demo_addr CHR ''a''"
    by (simp_all add: demo_order_row_def)
  have binds: "binds demo_deps (?B demo_order_row) demo_order_row 100 demo_response"
    by (simp add: binds_def demo_response_fields demo_reads ids signed_by_maker_def demo_key_hex demo_key_address sessions_of_def empty_book_def del: fromhex.simps)
  have "case store_fill_response demo_response 6 (?B demo_order_row) of (_, B) \<Rightarrow> remaining_ticks demo_deps B demo_order_row 100 = 600"
    using only_the_maker_reserves[OF demo_response_stored g, of demo_order_row demo_deps 100] ids left[of demo_order_row] binds
    by (simp add: demo_response_stored) (simp add: demo_response_fields demo_reads)
  moreover have "case store_fill_response demo_response 6 (?B (demo_order_row\<lparr>or_maker := demo_addr CHR ''b''\<rparr>)) of (_, B) \<Rightarrow>
     remaining_ticks demo_deps B (demo_order_row\<lparr>or_maker := demo_addr CHR ''b''\<rparr>) 100 = 1000"
    using only_the_maker_reserves[OF demo_response_stored g, of "demo_order_row\<lparr>or_maker := demo_addr CHR ''b''\<rparr>" demo_deps 100 "[CHR 0x01]"]
      ids left[of "demo_order_row\<lparr>or_maker := demo_addr CHR ''b''\<rparr>"]
    by (simp add: demo_response_stored demo_response_fields text_of_def demo_key_hex demo_key_address del: fromhex.simps)
  ultimately show ?thesis by (rule conjI)
qed


theorem ticker_resists_minority_witness: "weighted_median [(10, 1), (9000, 1 / 2), (11, 1)] = Inr 11
   \<and> (case weighted_median [(10, 1), (9000, 1 / 2), (11, 1)] of Inl e \<Rightarrow> False | Inr p \<Rightarrow> 10 \<le> p \<and> p \<le> 11)"
  using ticker_resists_minority[of "[(10, 1), (9000, 1 / 2), (11, 1)]" 10 11] by (simp add: weighted_median_def)

end
