(* ===== verification/Answer.thy ===== *)
theory Answer
  imports Orders
begin

text \<open>
  The handshake of \<^verbatim>\<open>src/src/swap_engine.py\<close>: a maker answering fill requests, by itself and by hand, the matching of
  its own orders against the book, and a taker opening the trade of an accepted request. The database is the book; the wallet,
  the chains, the clock, the standing of two parties and the publishing of messages are calls on the outside, which each may find
  changed and may raise. One answer runs under \<^verbatim>\<open>_ACCEPT_LOCK\<close> and is one step here.
\<close>

section \<open>The node that trades\<close>

record ('w, 'e) shop =
  sh_book :: "'e book"
  sh_out :: 'w

record ('w, 'e) dealer =
  dl_deps :: deps
  dl_sqroot :: "rat \<Rightarrow> rat"
  dl_addr :: string
  dl_pk_hex :: string
  dl_key :: "string \<Rightarrow> string res"
  dl_secrets :: "('w, string option \<times> string option) act"
  dl_height :: "('w, int) act"
  dl_time :: "('w, rat) act"
  dl_nonce :: "('w, string) act"
  dl_lapse_balance :: "string \<Rightarrow> ('w, int) act"
  dl_xlm_balance :: "string \<Rightarrow> ('w, int) act"
  dl_scores :: "'e book \<Rightarrow> string \<Rightarrow> ('w, rat \<times> rat) act"
  dl_publish :: "(string, json) dict \<Rightarrow> ('w, unit) act"

definition calling :: "('w, 'a) act \<Rightarrow> (('w, 'e) shop, 'a) act" where
  "calling m = (\<lambda>s. case m (sh_out s) of (r, w) \<Rightarrow> (r, s\<lparr>sh_out := w\<rparr>))"

definition on_book :: "('e book, 'a) act \<Rightarrow> (('w, 'e) shop, 'a) act" where
  "on_book m = (\<lambda>s. case m (sh_book s) of (r, B) \<Rightarrow> (r, s\<lparr>sh_book := B\<rparr>))"

definition reading :: "('e book \<Rightarrow> 'a) \<Rightarrow> (('w, 'e) shop, 'a) act" where
  "reading f = (\<lambda>s. (Inr (f (sh_book s)), s))"

text \<open>\<^verbatim>\<open>trust.mutual_scores\<close> reads the database too: my trust of the other and the other's of me.\<close>

definition mutual_scores_of :: "('w, 'e) dealer \<Rightarrow> string \<Rightarrow> (('w, 'e) shop, rat \<times> rat) act" where
  "mutual_scores_of T peer = bind_act (reading (\<lambda>B. B)) (\<lambda>B. calling (dl_scores T B peer))"

section \<open>Rows of a new trade\<close>

definition int_columns :: "int list \<Rightarrow> unit res" where
  "int_columns ns = rbind (map_res db_int64 ns) (\<lambda>_. Inr ())"

definition create_trade :: "trade \<Rightarrow> ('e book, unit) act" where
  "create_trade t = (\<lambda>B.
     case int_columns [lapse_total t, xlm_total t, tr_count t, confirm_depth t, accepted_height t] of
       Inl e \<Rightarrow> (Inl e, B)
     | Inr _ \<Rightarrow> if has_key (b_trades B) (tr_session t) then (Inl IntegrityError, B)
                else (Inr (), B\<lparr>b_trades := AList.update (tr_session t) t (b_trades B)\<rparr>))"

definition new_step :: "string \<Rightarrow> int \<Rightarrow> int \<times> int \<Rightarrow> bool \<Rightarrow> rat \<Rightarrow> int \<Rightarrow> 'e increment" where
  "new_step session n amounts first deadline due =
     \<lparr>inc_session = session, inc_n = n, lapse_amount = fst amounts, xlm_amount = snd amounts, moves_first = first,
      out_state = LegPending, out_envelope = None, out_tx_hash = [], out_seq = 0, out_submitted_at = 0, out_settled_at = 0,
      out_detail = [], in_state = LegPending, in_tx_hash = [], in_settled_at = 0, deadline_at = deadline, completed_height = 0,
      due_height = due\<rparr>"

definition create_step :: "'e increment \<Rightarrow> ('e book, unit) act" where
  "create_step i = (\<lambda>B.
     case int_columns [lapse_amount i, xlm_amount i, due_height i] of
       Inl e \<Rightarrow> (Inl e, B)
     | Inr _ \<Rightarrow> if has_key (b_steps B) (inc_session i, inc_n i) then (Inl IntegrityError, B)
                else (Inr (), B\<lparr>b_steps := AList.update (inc_session i, inc_n i) i (b_steps B)\<rparr>))"

definition numbered :: "'a list \<Rightarrow> (int \<times> 'a) list" where
  "numbered xs = zip (map int [1..<Suc (length xs)]) xs"

text \<open>Only the first step has its deadline from the start.\<close>

definition create_steps :: "string \<Rightarrow> bool \<Rightarrow> rat \<Rightarrow> int \<Rightarrow> (int \<times> int) list \<Rightarrow> ('e book, unit) act" where
  "create_steps session i_open deadline due schedule =
     for_each (\<lambda>(n, amounts). bind_act (lift_res (i_move_first n i_open)) (\<lambda>first.
         create_step (new_step session n amounts first deadline (if n = 1 then due else 0))))
       (numbered schedule)"

section \<open>A maker's answer\<close>

definition owed_on :: "bool \<Rightarrow> trade \<Rightarrow> int" where
  "owed_on lapse t = (if lapse then lapse_total t else xlm_total t)"

definition sent_on :: "bool \<Rightarrow> 'e book \<Rightarrow> string \<Rightarrow> int" where
  "sent_on lapse B session = sum_list (map (\<lambda>i. if lapse then lapse_amount i else xlm_amount i)
     (filter (\<lambda>i. inc_session i = session \<and> out_state i = LegSettled) (rows (b_steps B))))"

definition pending_send_total :: "bool \<Rightarrow> 'e book \<Rightarrow> int" where
  "pending_send_total lapse B = sum_list (map (\<lambda>t. max (owed_on lapse t - sent_on lapse B (tr_session t)) 0)
     (filter (\<lambda>t. (tr_status t = TradeActive \<or> tr_status t = TradeStalled) \<and> sends_lapse t = lapse) (rows (b_trades B))))"

definition answer_dict :: "('w, 'e) dealer \<Rightarrow> order \<Rightarrow> fill_request \<Rightarrow> int \<Rightarrow> int \<Rightarrow> int \<Rightarrow> bool \<Rightarrow> int option \<Rightarrow> string \<Rightarrow> bool
    \<Rightarrow> (string, json) dict" where
  "answer_dict T r q h dep x accepted cnt reason maker_opens =
     build_fill_response (rq_id q) (or_id r) (rq_session q) (rq_lapse_total q) accepted (dl_pk_hex T) h dep x (or_sells r)
       (or_xlm_addr r) maker_opens cnt reason"

definition respond :: "('w, 'e) dealer \<Rightarrow> string \<Rightarrow> (string, json) dict \<Rightarrow> (('w, 'e) shop, unit) act" where
  "respond T kek resp = bind_act (lift_res (dl_key T kek)) (\<lambda>sk. bind_act (calling (dl_time T)) (\<lambda>now.
     bind_act (on_book (store_fill_response (sign_fill_response (dl_deps T) sk resp) now)) (\<lambda>_.
       calling (dl_publish T (sign_fill_response (dl_deps T) sk resp)))))"

text \<open>The inputs of one answer: the order and request, the height and price it was judged at.\<close>

record deal =
  de_order :: order
  de_request :: fill_request
  de_height :: int
  de_depth :: int
  de_xlm :: int

definition decline :: "('w, 'e) dealer \<Rightarrow> string \<Rightarrow> deal \<Rightarrow> string \<Rightarrow> (('w, 'e) shop, bool) act" where
  "decline T kek d reason = bind_act
     (respond T kek (answer_dict T (de_order d) (de_request d) (de_height d) (de_depth d) (de_xlm d) False None reason True)) (\<lambda>_. return False)"

definition maker_trade :: "('w, 'e) dealer \<Rightarrow> string \<Rightarrow> deal \<Rightarrow> int \<Rightarrow> rat \<Rightarrow> trade" where
  "maker_trade T my_xlm d cnt now =
     \<lparr>tr_session = rq_session (de_request d), tr_order = or_id (de_order d), tr_maker = True, my_lapse_addr = dl_addr T,
      my_xlm_addr = my_xlm, peer_lapse_addr = taker_lapse_addr (de_request d), peer_xlm_addr = taker_xlm_addr (de_request d),
      sends_lapse = or_sells (de_order d), lapse_total = rq_lapse_total (de_request d), xlm_total = de_xlm d, tr_count = cnt,
      confirm_depth = de_depth d, accepted_height = de_height d, tr_status = TradeActive, updated_at = now, stalled_since = 0\<rparr>"

definition accept_fill :: "('w, 'e) dealer \<Rightarrow> string \<Rightarrow> string \<Rightarrow> deal \<Rightarrow> (int \<times> int) list \<Rightarrow> int \<Rightarrow> bool \<Rightarrow> (('w, 'e) shop, bool) act" where
  "accept_fill T kek my_xlm d schedule cnt maker_opens =
     bind_act (calling (dl_time T)) (\<lambda>now.
     bind_act (on_book (create_trade (maker_trade T my_xlm d cnt now))) (\<lambda>_.
     bind_act (on_book (create_steps (rq_session (de_request d)) maker_opens (now + of_int (step_timeout_seconds (de_depth d)))
       (deadline_height (de_height d) (de_depth d)) schedule)) (\<lambda>_.
     bind_act (respond T kek (answer_dict T (de_order d) (de_request d) (de_height d) (de_depth d) (de_xlm d) True (Some cnt) [] maker_opens))
       (\<lambda>_. return True))))"

definition funds :: "('w, 'e) dealer \<Rightarrow> string \<Rightarrow> bool \<Rightarrow> (('w, 'e) shop, int) act" where
  "funds T my_xlm lapse = calling (if lapse then dl_lapse_balance T (dl_addr T) else dl_xlm_balance T my_xlm)"

text \<open>A floor of None is infinity: every request waits for a person.\<close>

definition below_floor :: "rat option \<Rightarrow> rat \<Rightarrow> bool" where
  "below_floor min_trust score = (case min_trust of None \<Rightarrow> True | Some m \<Rightarrow> score < m)"

text \<open>The last part: what this node can pay, and the floor.\<close>

definition settle_terms :: "('w, 'e) dealer \<Rightarrow> string \<Rightarrow> string \<Rightarrow> rat option \<Rightarrow> deal \<Rightarrow> rat \<times> rat \<Rightarrow> (int \<times> int) list \<Rightarrow> int
    \<Rightarrow> (('w, 'e) shop, bool) act" where
  "settle_terms T kek my_xlm min_trust d scores schedule cnt =
     bind_act (funds T my_xlm (or_sells (de_order d))) (\<lambda>have.
     bind_act (reading (pending_send_total (or_sells (de_order d)))) (\<lambda>owed.
       if have - owed < (if or_sells (de_order d) then rq_lapse_total (de_request d) else de_xlm d)
       then decline T kek d ''the maker cannot currently fund this fill''
       else if below_floor min_trust (fst scores) then return False
       else accept_fill T kek my_xlm d schedule cnt
         (\<not> opening_mover (snd scores) (fst scores) (taker_lapse_addr (de_request d)) (dl_addr T))))"

definition size_up :: "('w, 'e) dealer \<Rightarrow> string \<Rightarrow> string \<Rightarrow> rat option \<Rightarrow> deal \<Rightarrow> (('w, 'e) shop, bool) act" where
  "size_up T kek my_xlm min_trust d =
     bind_act (mutual_scores_of T (taker_lapse_addr (de_request d))) (\<lambda>scores.
       case plan_mutual (dl_sqroot T) (rq_lapse_total (de_request d)) (de_xlm d) (fst scores) (snd scores)
           DEFAULT_STRANGER_CAP_STROOPS None None of
         Inl (TradeTooLarge _ _ _) \<Rightarrow> decline T kek d ''more than this node will risk with this counterparty in one go''
       | Inl e \<Rightarrow> lift_res (Inl e)
       | Inr (schedule, cnt, _) \<Rightarrow> settle_terms T kek my_xlm min_trust d scores schedule cnt)"

definition judge_fill :: "('w, 'e) dealer \<Rightarrow> string \<Rightarrow> string \<Rightarrow> rat option \<Rightarrow> deal \<Rightarrow> (('w, 'e) shop, bool) act" where
  "judge_fill T kek my_xlm min_trust d =
     bind_act (reading (\<lambda>B. validate_fill (dl_deps T) B (de_order d) (rq_lapse_total (de_request d)) (de_height d)
         (Some (taker_lapse_addr (de_request d))))) (\<lambda>verdict. case verdict of
       Inl (OrderRejected why) \<Rightarrow> decline T kek d why
     | Inl e \<Rightarrow> lift_res (Inl e)
     | Inr _ \<Rightarrow> size_up T kek my_xlm min_trust d)"

definition answer_one :: "('w, 'e) dealer \<Rightarrow> string \<Rightarrow> int \<Rightarrow> rat option \<Rightarrow> order \<Rightarrow> fill_request \<Rightarrow> (('w, 'e) shop, bool) act" where
  "answer_one T my_xlm dep min_trust r q =
     bind_act (calling (dl_secrets T)) (\<lambda>(kek, _). case kek of
       None \<Rightarrow> return False
     | Some k \<Rightarrow> bind_act (calling (dl_height T)) (\<lambda>h.
         bind_act (lift_res (xlm_for_lapse (rq_lapse_total q) (or_price r))) (\<lambda>x.
           judge_fill T k my_xlm min_trust \<lparr>de_order = r, de_request = q, de_height = h, de_depth = dep, de_xlm = x\<rparr>)))"

definition settled_already :: "fill_request \<Rightarrow> 'e book \<Rightarrow> bool" where
  "settled_already q B \<longleftrightarrow> get_fill_response B (rq_id q) \<noteq> None \<or> has_key (b_trades B) (rq_session q)"

fun answer_requests :: "('w, 'e) dealer \<Rightarrow> string \<Rightarrow> int \<Rightarrow> rat option \<Rightarrow> order \<Rightarrow> fill_request list \<Rightarrow> nat \<Rightarrow> (('w, 'e) shop, nat) act" where
  "answer_requests T my_xlm dep min_trust r [] n = return n"
| "answer_requests T my_xlm dep min_trust r (q # qs) n =
     bind_act (reading (settled_already q)) (\<lambda>skip.
       if skip then answer_requests T my_xlm dep min_trust r qs n
       else bind_act (answer_one T my_xlm dep min_trust r q) (\<lambda>ok.
         answer_requests T my_xlm dep min_trust r qs (if ok then n + 1 else n)))"

fun answer_orders :: "('w, 'e) dealer \<Rightarrow> string \<Rightarrow> int \<Rightarrow> rat option \<Rightarrow> order list \<Rightarrow> nat \<Rightarrow> (('w, 'e) shop, nat) act" where
  "answer_orders T my_xlm dep min_trust [] n = return n"
| "answer_orders T my_xlm dep min_trust (r # rs) n =
     bind_act (reading (\<lambda>B. requests_for_order B (or_id r))) (\<lambda>qs.
     bind_act (answer_requests T my_xlm dep min_trust r qs n) (answer_orders T my_xlm dep min_trust rs))"

definition answer_fill_requests :: "('w, 'e) dealer \<Rightarrow> string \<Rightarrow> int \<Rightarrow> rat option \<Rightarrow> (('w, 'e) shop, nat) act" where
  "answer_fill_requests T my_xlm dep min_trust =
     bind_act (reading (\<lambda>B. orders_by_maker_with_claims B (dl_addr T))) (\<lambda>rs. answer_orders T my_xlm dep min_trust rs 0)"

text \<open>The answer of a person.\<close>

definition decline_by_hand :: "('w, 'e) dealer \<Rightarrow> int \<Rightarrow> order \<Rightarrow> fill_request \<Rightarrow> (('w, 'e) shop, bool) act" where
  "decline_by_hand T dep r q =
     bind_act (calling (dl_secrets T)) (\<lambda>(kek, _). case kek of
       None \<Rightarrow> return False
     | Some k \<Rightarrow> bind_act (calling (dl_height T)) (\<lambda>h.
         bind_act (lift_res (xlm_for_lapse (rq_lapse_total q) (or_price r))) (\<lambda>x.
         bind_act (respond T k (answer_dict T r q h dep x False None ''declined by the maker'' True)) (\<lambda>_. return True))))"

definition decide_fill_request :: "('w, 'e) dealer \<Rightarrow> string \<Rightarrow> int \<Rightarrow> string \<Rightarrow> bool \<Rightarrow> (('w, 'e) shop, bool) act" where
  "decide_fill_request T my_xlm dep request_id accept =
     bind_act (reading (\<lambda>B. B)) (\<lambda>B. case get_fill_request B request_id of
       None \<Rightarrow> return False
     | Some q \<Rightarrow> (case get_order B (rq_order q) of
         None \<Rightarrow> return False
       | Some r \<Rightarrow>
           if or_maker r \<noteq> dl_addr T \<or> settled_already q B then return False
           else if accept then answer_one T my_xlm dep (Some 0) r q
           else decline_by_hand T dep r q))"

section \<open>Matching the book\<close>

definition AUTO_MATCH_CANDIDATES :: nat where "AUTO_MATCH_CANDIDATES = 5"

text \<open>What this pass has promised on each chain, LAPSE first.\<close>

type_synonym promised = "int \<times> int"

definition promised_on :: "bool \<Rightarrow> promised \<Rightarrow> int" where
  "promised_on lapse p = (if lapse then fst p else snd p)"

definition promise :: "bool \<Rightarrow> int \<Rightarrow> promised \<Rightarrow> promised" where
  "promise lapse n p = (if lapse then (fst p + n, snd p) else (fst p, snd p + n))"

definition send_request :: "('w, 'e) dealer \<Rightarrow> string \<Rightarrow> string \<Rightarrow> order \<Rightarrow> int \<Rightarrow> (('w, 'e) shop, unit) act" where
  "send_request T my_xlm kek r lapse =
     bind_act (calling (dl_nonce T)) (\<lambda>nonce.
     bind_act (calling (dl_nonce T)) (\<lambda>uuid.
     bind_act (lift_res (dl_key T kek)) (\<lambda>sk.
     bind_act (calling (dl_time T)) (\<lambda>now.
     bind_act (on_book (store_fill_request (sign_fill_request (dl_deps T) sk (build_fill_request uuid (or_id r)
       (new_session_id (dp_prims (dl_deps T)) (or_id r) (dl_addr T) nonce) (dl_addr T) my_xlm lapse (dl_pk_hex T))) now)) (\<lambda>_.
       calling (dl_publish T (sign_fill_request (dl_deps T) sk (build_fill_request uuid (or_id r)
         (new_session_id (dp_prims (dl_deps T)) (or_id r) (dl_addr T) nonce) (dl_addr T) my_xlm lapse (dl_pk_hex T)))))))))"

text \<open>The size asked for.\<close>

definition match_size :: "('w, 'e) dealer \<Rightarrow> order \<Rightarrow> int \<Rightarrow> rat \<times> rat \<Rightarrow> int res" where
  "match_size T r left scores =
     rbind (lapse_for_xlm (max_safe_trade_stroops (mutual_exposure_cap_stroops (dl_sqroot T) (fst scores) (snd scores)
         DEFAULT_STRANGER_CAP_STROOPS None None)) (or_price r)) (\<lambda>max_safe_lapse.
       Inr (min (min left (if or_max r = 0 then left else or_max r)) max_safe_lapse))"

text \<open>The checks after the size is known; what is owed afterwards beside the verdict.\<close>

definition match_checked :: "('w, 'e) dealer \<Rightarrow> string \<Rightarrow> string \<Rightarrow> order \<Rightarrow> int \<Rightarrow> int \<Rightarrow> rat \<times> rat \<Rightarrow> promised
    \<Rightarrow> (('w, 'e) shop, bool \<times> promised) act" where
  "match_checked T my_xlm kek r lapse x scores p =
     (case plan_mutual (dl_sqroot T) lapse x (fst scores) (snd scores) DEFAULT_STRANGER_CAP_STROOPS None None of
        Inl (TradeTooLarge _ _ _) \<Rightarrow> return (False, p)
      | Inl e \<Rightarrow> lift_res (Inl e)
      | Inr _ \<Rightarrow> bind_act (calling (dl_height T)) (\<lambda>h.
          bind_act (reading (\<lambda>B. validate_fill (dl_deps T) B r lapse h (Some (dl_addr T)))) (\<lambda>verdict. case verdict of
            Inl (OrderRejected _) \<Rightarrow> return (False, p)
          | Inl e \<Rightarrow> lift_res (Inl e)
          | Inr _ \<Rightarrow> bind_act (send_request T my_xlm kek r lapse) (\<lambda>_.
              return (True, promise (\<not> or_sells r) (if or_sells r then x else lapse) p)))))"

definition match_funded :: "('w, 'e) dealer \<Rightarrow> string \<Rightarrow> string \<Rightarrow> order \<Rightarrow> int \<Rightarrow> rat \<times> rat \<Rightarrow> promised
    \<Rightarrow> (('w, 'e) shop, bool \<times> promised) act" where
  "match_funded T my_xlm kek r lapse scores p =
     bind_act (lift_res (xlm_for_lapse lapse (or_price r))) (\<lambda>x.
     bind_act (funds T my_xlm (\<not> or_sells r)) (\<lambda>have.
     bind_act (reading (pending_send_total (\<not> or_sells r))) (\<lambda>owed.
       if have - (owed + promised_on (\<not> or_sells r) p) < (if or_sells r then x else lapse) then return (False, p)
       else match_checked T my_xlm kek r lapse x scores p)))"

definition send_auto_match :: "('w, 'e) dealer \<Rightarrow> string \<Rightarrow> string \<Rightarrow> string \<Rightarrow> promised \<Rightarrow> (('w, 'e) shop, bool \<times> promised) act" where
  "send_auto_match T my_xlm kek order_id p =
     bind_act (reading (\<lambda>B. get_order B order_id)) (\<lambda>found. case found of
       None \<Rightarrow> return (False, p)
     | Some r \<Rightarrow> bind_act (calling (dl_height T)) (\<lambda>h.
         if or_expiry r \<le> h then return (False, p)
         else bind_act (calling (dl_height T)) (\<lambda>h'.
           bind_act (reading (\<lambda>B. remaining_ticks (dl_deps T) B r h')) (\<lambda>left.
             if left < max (or_min r) 1 then return (False, p)
             else bind_act (mutual_scores_of T (or_maker r)) (\<lambda>scores.
               bind_act (lift_res (match_size T r left scores)) (\<lambda>lapse.
                 if lapse < max (or_min r) 1 then return (False, p)
                 else match_funded T my_xlm kek r lapse scores p))))))"

definition crosses :: "order \<Rightarrow> int \<Rightarrow> bool" where
  "crosses mine price = (if or_sells mine then price \<ge> or_price mine - max (or_margin mine) 0
                         else price \<le> or_price mine + max (or_margin mine) 0)"

text \<open>The state of a pass: requests sent, orders asked, promises.\<close>

type_synonym matching = "nat \<times> string list \<times> promised"

fun match_candidates :: "('w, 'e) dealer \<Rightarrow> string \<Rightarrow> string \<Rightarrow> order \<Rightarrow> listed list \<Rightarrow> matching \<Rightarrow> (('w, 'e) shop, matching) act" where
  "match_candidates T my_xlm kek mine [] st = return st"
| "match_candidates T my_xlm kek mine (theirs # rest) (n, asked, p) =
     (if \<not> crosses mine (or_price (fst theirs)) then return (n, asked, p)
      else if or_id (fst theirs) \<in> set asked then match_candidates T my_xlm kek mine rest (n, asked, p)
      else bind_act (send_auto_match T my_xlm kek (or_id (fst theirs)) p) (\<lambda>(ok, p').
        match_candidates T my_xlm kek mine rest (if ok then (n + 1, or_id (fst theirs) # asked, p') else (n, asked, p'))))"

fun match_orders :: "('w, 'e) dealer \<Rightarrow> string \<Rightarrow> string \<Rightarrow> int \<Rightarrow> order list \<Rightarrow> matching \<Rightarrow> (('w, 'e) shop, matching) act" where
  "match_orders T my_xlm kek h [] st = return st"
| "match_orders T my_xlm kek h (mine # rest) st =
     bind_act (reading (\<lambda>B. B)) (\<lambda>B.
       if remaining_ticks (dl_deps T) B mine h < max (or_min mine) 1 then match_orders T my_xlm kek h rest st
       else bind_act (match_candidates T my_xlm kek mine
           (fst (list_orders (dl_deps T) B h (\<not> or_sells mine) (Some (dl_addr T)) ''price'' 0 AUTO_MATCH_CANDIDATES)) st)
         (match_orders T my_xlm kek h rest))"

definition auto_match_orders :: "('w, 'e) dealer \<Rightarrow> string \<Rightarrow> (('w, 'e) shop, nat) act" where
  "auto_match_orders T my_xlm =
     bind_act (calling (dl_secrets T)) (\<lambda>(kek, _). case kek of
       None \<Rightarrow> return 0
     | Some k \<Rightarrow> bind_act (calling (dl_height T)) (\<lambda>h.
         bind_act (reading (\<lambda>B. B)) (\<lambda>B.
         bind_act (match_orders T my_xlm k h (orders_by_maker B (dl_addr T) h)
             (0, map rq_order (requests_by_taker B (dl_addr T)), (0, 0))) (\<lambda>(n, _, _). return n))))"

section \<open>A taker's trade\<close>

definition response_dict :: "fill_response \<Rightarrow> (string, json) dict" where
  "response_dict r = [(''request_id'', JStr (rs_id r)), (''order_id'', JStr (rs_order r)), (''session_id'', JStr (rs_session r)),
     (''lapse_total'', JInt (rs_lapse_total r)), (''accepted'', JBool (rs_accepted r)),
     (''increment_count'', (if rs_accepted r then JInt (rs_count r) else JNull)), (''reason'', JStr (rs_reason r)),
     (''maker_pubkey'', JStr (rs_maker_pubkey r)), (''accepted_height'', JInt (rs_height r)), (''confirm_depth'', JInt (rs_depth r)),
     (''xlm_total'', JInt (rs_xlm_total r)), (''direction'', direction_json (rs_sells r)), (''maker_xlm_addr'', JStr (rs_maker_xlm_addr r)),
     (''maker_opens'', JBool (rs_maker_opens r)), (''signature'', JStr (rs_signature r))]"

definition taker_trade :: "('w, 'e) dealer \<Rightarrow> fill_request \<Rightarrow> fill_response \<Rightarrow> order \<Rightarrow> int \<Rightarrow> rat \<Rightarrow> trade" where
  "taker_trade T q resp r x now =
     \<lparr>tr_session = rq_session q, tr_order = rq_order q, tr_maker = False, my_lapse_addr = dl_addr T, my_xlm_addr = taker_xlm_addr q,
      peer_lapse_addr = or_maker r, peer_xlm_addr = or_xlm_addr r, sends_lapse = (\<not> or_sells r), lapse_total = rq_lapse_total q,
      xlm_total = x, tr_count = rs_count resp, confirm_depth = rs_depth resp, accepted_height = rs_height resp,
      tr_status = TradeActive, updated_at = now, stalled_since = 0\<rparr>"

definition write_taker_trade :: "('w, 'e) dealer \<Rightarrow> fill_request \<Rightarrow> fill_response \<Rightarrow> order \<Rightarrow> int \<Rightarrow> int \<Rightarrow> (int \<times> int) list
    \<Rightarrow> (('w, 'e) shop, bool) act" where
  "write_taker_trade T q resp r dep x schedule =
     bind_act (calling (dl_time T)) (\<lambda>now.
     bind_act (on_book (create_trade (taker_trade T q resp r x now))) (\<lambda>_.
     bind_act (on_book (create_steps (rq_session q) (\<not> rs_maker_opens resp) (now + of_int (step_timeout_seconds dep))
       (deadline_height (rs_height resp) (rs_depth resp)) schedule)) (\<lambda>_. return True)))"

definition open_taker_trade :: "('w, 'e) dealer \<Rightarrow> fill_request \<Rightarrow> fill_response \<Rightarrow> order \<Rightarrow> int \<Rightarrow> (('w, 'e) shop, bool) act" where
  "open_taker_trade T q resp r dep =
     bind_act (lift_res (xlm_for_lapse (rq_lapse_total q) (or_price r))) (\<lambda>x.
       case build_schedule (rq_lapse_total q) x (rs_count resp) of
         Inl ValueError \<Rightarrow> return False
       | Inl e \<Rightarrow> lift_res (Inl e)
       | Inr schedule \<Rightarrow> bind_act (mutual_scores_of T (or_maker r)) (\<lambda>scores.
           if Max (set (map snd schedule)) > mutual_exposure_cap_stroops (dl_sqroot T) (fst scores) (snd scores) DEFAULT_STRANGER_CAP_STROOPS None None
           then return False
           else write_taker_trade T q resp r dep x schedule))"

text \<open>One of this node's own requests: True when its trade was opened.\<close>

definition check_response :: "('w, 'e) dealer \<Rightarrow> int \<Rightarrow> fill_request \<Rightarrow> (('w, 'e) shop, bool) act" where
  "check_response T dep q =
     bind_act (reading (\<lambda>B. B)) (\<lambda>B.
       if has_key (b_trades B) (rq_session q) then return False
       else (case (get_fill_response B (rq_id q), get_order B (rq_order q)) of
           (Some resp, Some r) \<Rightarrow>
             (case verify_fill_response (dl_deps T) B (JObj (response_dict resp)) (Some (or_maker r)) (Some r) (Some q) of
                Inl (FillResponseRejected _) \<Rightarrow> return False
              | Inl e \<Rightarrow> lift_res (Inl e)
              | Inr _ \<Rightarrow> if rs_accepted resp then open_taker_trade T q resp r dep else return False)
         | _ \<Rightarrow> return False))"

fun check_responses :: "('w, 'e) dealer \<Rightarrow> int \<Rightarrow> fill_request list \<Rightarrow> nat \<Rightarrow> (('w, 'e) shop, nat) act" where
  "check_responses T dep [] n = return n"
| "check_responses T dep (q # qs) n =
     bind_act (check_response T dep q) (\<lambda>ok. check_responses T dep qs (if ok then n + 1 else n))"

definition check_fill_responses :: "('w, 'e) dealer \<Rightarrow> int \<Rightarrow> (('w, 'e) shop, nat) act" where
  "check_fill_responses T dep = bind_act (reading (\<lambda>B. requests_by_taker B (dl_addr T))) (\<lambda>qs. check_responses T dep qs 0)"

end
