(* ===== verification/Handshake.thy ===== *)
theory Handshake
  imports Answer
begin

text \<open>
  What the handshake of a fill guarantees: acceptances stay within what this node can pay, a taker opens only what the maker of the
  order signed, and the two sides hold one and the same trade. Then what it does not: the size of an order, or of an own order that
  is matched, does not bound what is promised, and one answer that raises holds up all that come after it.
\<close>

section \<open>Calls and rows\<close>

lemma bind_reading [simp]: "bind_act (reading f) g s = g (f (sh_book s)) s"
  by (simp add: bind_act_def reading_def)

lemma calling_book: "calling m s = (r, s') \<Longrightarrow> sh_book s' = sh_book s"
  by (auto simp: calling_def split: prod.splits)

lemma on_book_book: "on_book m s = (r, s') \<Longrightarrow> m (sh_book s) = (r, sh_book s')"
  by (auto simp: on_book_def split: prod.splits)

lemma scores_book: "mutual_scores_of T a s = (r, s') \<Longrightarrow> sh_book s' = sh_book s"
  by (simp add: mutual_scores_of_def calling_book)

text \<open>What a handler may do to the book: a relation that every change to the tables of the market respects, and every creation of a
  trade of its own.\<close>

definition books :: "('e book \<Rightarrow> 'e book \<Rightarrow> bool) \<Rightarrow> ('w, 'e) shop \<Rightarrow> ('w, 'e) shop \<Rightarrow> bool" where
  "books R s s' \<longleftrightarrow> R (sh_book s) (sh_book s')"

locale book_frame =
  fixes R :: "'e book \<Rightarrow> 'e book \<Rightarrow> bool"
  assumes R_refl: "R B B" and R_trans: "R A B \<Longrightarrow> R B C \<Longrightarrow> R A C"
begin

lemma is_frame: "frame (books R :: ('w, 'e) shop \<Rightarrow> ('w, 'e) shop \<Rightarrow> bool)"
  by unfold_locales (auto simp: books_def intro: R_refl R_trans)

lemma calling: "keeps (books R) (calling m)"
  by (rule keepsI) (simp add: books_def calling_book R_refl)

lemma scores: "keeps (books R) (mutual_scores_of T a)"
  by (rule keepsI) (simp add: books_def scores_book R_refl)

lemma reading: "keeps (books R) (reading f)"
  by (rule keepsI) (auto simp: books_def reading_def R_refl)

lemma on_book: "keeps R m \<Longrightarrow> keeps (books R) (on_book m)"
  by (rule keepsI) (metis books_def keepsD on_book_book)

lemma bind: "keeps (books R) m \<Longrightarrow> (\<And>x. keeps (books R) (f x)) \<Longrightarrow> keeps (books R) (bind_act m f)"
  by (rule frame.bind[OF is_frame])

lemmas return = frame.return[OF is_frame] and lift = frame.lift[OF is_frame] and cond = frame.cond[OF is_frame]
  and opt = frame.opt[OF is_frame] and pair = frame.pair[OF is_frame]

lemmas parts = bind calling scores reading return lift cond opt pair

lemma respond:
  assumes "\<And>d now. keeps R (store_fill_response d now)"
  shows "keeps (books R) (respond T kek resp)" "keeps (books R) (decline T kek d reason)"
  by (simp_all add: respond_def decline_def parts on_book assms)

end

section \<open>Promises stay covered\<close>

text \<open>Every step belongs to a trade on file.\<close>

definition owned_steps :: "'e book \<Rightarrow> bool" where
  "owned_steps B \<longleftrightarrow> list_all (\<lambda>(k, i). inc_session i = fst k \<and> has_key (b_trades B) (fst k)) (b_steps B)"

definition covered :: "int \<Rightarrow> int \<Rightarrow> 'e book \<Rightarrow> bool" where
  "covered L X B \<longleftrightarrow> owned_steps B \<and> pending_send_total True B \<le> L \<and> pending_send_total False B \<le> X"

definition stays_covered :: "int \<Rightarrow> int \<Rightarrow> 'e book \<Rightarrow> 'e book \<Rightarrow> bool" where
  "stays_covered L X B B' \<longleftrightarrow> (covered L X B \<longrightarrow> covered L X B')"

interpretation cover: book_frame "stays_covered L X"
  by unfold_locales (auto simp: stays_covered_def)

lemma same_trades_covered:
  assumes "b_trades B' = b_trades B" "b_steps B' = b_steps B"
  shows "pending_send_total lapse B' = pending_send_total lapse B" "owned_steps B' = owned_steps B"
proof -
  have "sent_on lapse B' k = sent_on lapse B k" for k by (simp add: sent_on_def assms)
  then show "pending_send_total lapse B' = pending_send_total lapse B" by (simp add: pending_send_total_def assms)
  show "owned_steps B' = owned_steps B" by (simp add: owned_steps_def assms)
qed

lemma store_response_trades: "store_fill_response d now B = (r, B') \<Longrightarrow> b_trades B' = b_trades B \<and> b_steps B' = b_steps B \<and> b_orders B' = b_orders B \<and> b_requests B' = b_requests B"
  by (auto elim: store_response_cases)

lemma store_response_covered: "keeps (stays_covered L X) (store_fill_response d now)"
  by (rule keepsI) (metis store_response_trades same_trades_covered covered_def stays_covered_def)

lemma unsent: "owned_steps B \<Longrightarrow> \<not> has_key (b_trades B) k \<Longrightarrow> sent_on lapse B k = 0"
proof -
  assume a: "owned_steps B" "\<not> has_key (b_trades B) k"
  have "filter (\<lambda>i. inc_session i = k \<and> out_state i = LegSettled) (rows (b_steps B)) = []"
    using a by (auto simp: filter_empty_conv owned_steps_def list_all_iff rows_def)
  then show ?thesis by (simp add: sent_on_def)
qed

lemma create_trade_effect:
  "create_trade t B = (r, B') \<Longrightarrow> (\<exists>e. r = Inl e) \<and> B' = B \<or>
     r = Inr () \<and> \<not> has_key (b_trades B) (tr_session t) \<and> B' = B\<lparr>b_trades := AList.update (tr_session t) t (b_trades B)\<rparr>"
  by (cases "int_columns [lapse_total t, xlm_total t, tr_count t, confirm_depth t, accepted_height t]";
      cases "has_key (b_trades B) (tr_session t)") (simp_all add: create_trade_def, metis+)

lemma create_step_effect:
  "create_step i B = (r, B') \<Longrightarrow> (\<exists>e. r = Inl e) \<and> B' = B \<or>
     r = Inr () \<and> \<not> has_key (b_steps B) (inc_session i, inc_n i) \<and> B' = B\<lparr>b_steps := AList.update (inc_session i, inc_n i) i (b_steps B)\<rparr>"
  by (cases "int_columns [lapse_amount i, xlm_amount i, due_height i]"; cases "has_key (b_steps B) (inc_session i, inc_n i)")
    (simp_all add: create_step_def, metis+)

lemma pending_new_trade:
  assumes "owned_steps B" and "\<not> has_key (b_trades B) (tr_session t)"
  shows "pending_send_total lapse (B\<lparr>b_trades := AList.update (tr_session t) t (b_trades B)\<rparr>)
    = pending_send_total lapse B + (if (tr_status t = TradeActive \<or> tr_status t = TradeStalled) \<and> sends_lapse t = lapse then max (owed_on lapse t) 0 else 0)"
proof -
  have "sent_on lapse (B\<lparr>b_trades := D\<rparr>) k = sent_on lapse B k" for D k by (simp add: sent_on_def)
  then show ?thesis using unsent[OF assms] assms(2) by (simp add: pending_send_total_def rows_insert)
qed

lemma create_trade_covered:
  assumes run: "create_trade t B = (r, B')" and cov: "covered L X B"
    and room: "pending_send_total (sends_lapse t) B + owed_on (sends_lapse t) t \<le> (if sends_lapse t then L else X)"
  shows "covered L X B'"
  using create_trade_effect[OF run]
proof (elim disjE)
  assume 2: "r = Inr () \<and> \<not> has_key (b_trades B) (tr_session t) \<and> B' = B\<lparr>b_trades := AList.update (tr_session t) t (b_trades B)\<rparr>"
  have "owned_steps B'" using cov 2 by (auto simp: covered_def owned_steps_def list_all_iff)
  moreover have "pending_send_total lapse B' \<le> (if lapse then L else X)" for lapse
    using pending_new_trade[of B t lapse] cov room 2 by (cases "sends_lapse t"; cases lapse) (auto simp: covered_def max_def)
  from this[of True] this[of False] calculation show ?thesis by (simp add: covered_def)
qed (use cov in simp)

definition stays_open :: "int \<Rightarrow> int \<Rightarrow> string \<Rightarrow> 'e book \<Rightarrow> 'e book \<Rightarrow> bool" where
  "stays_open L X k B B' \<longleftrightarrow> (covered L X B \<and> has_key (b_trades B) k \<longrightarrow> covered L X B' \<and> has_key (b_trades B') k)"

interpretation opened: frame "stays_open L X k"
  by unfold_locales (auto simp: stays_open_def)

lemma create_step_open:
  assumes "out_state i \<noteq> LegSettled" "inc_session i = k"
  shows "keeps (stays_open L X k) (create_step i)"
proof (rule keepsI)
  fix B r B' assume "create_step i B = (r, B')"
  from create_step_effect[OF this] show "stays_open L X k B B'"
  proof (elim disjE)
    assume 2: "r = Inr () \<and> \<not> has_key (b_steps B) (inc_session i, inc_n i) \<and> B' = B\<lparr>b_steps := AList.update (inc_session i, inc_n i) i (b_steps B)\<rparr>"
    then have "sent_on lapse B' ses = sent_on lapse B ses" for lapse ses using assms by (simp add: sent_on_def rows_insert)
    then have "pending_send_total lapse B' = pending_send_total lapse B" for lapse using 2 by (simp add: pending_send_total_def)
    moreover have "owned_steps B \<and> has_key (b_trades B) k \<longrightarrow> owned_steps B'"
      using assms 2 by (auto simp: owned_steps_def update_notin)
    ultimately show ?thesis using 2 by (simp add: stays_open_def covered_def)
  qed (simp add: stays_open_def)
qed

lemma create_steps_open: "keeps (stays_open L X k) (create_steps k i_open deadline due schedule)"
  unfolding create_steps_def
  by (rule opened.for_each) (auto intro!: opened.pair opened.bind opened.lift create_step_open simp: new_step_def)

lemma create_trade_run: "create_trade t B = (Inr u, B') \<Longrightarrow> has_key (b_trades B') (tr_session t)"
  using create_trade_effect by fastforce

lemma reading_at: "(\<And>s. R s (snd (g (f (sh_book s)) s))) \<Longrightarrow> keeps R (bind_act (reading f) g)"
  by (simp add: keeps_def)

lemma covered_keeps: "keeps (books (stays_covered L X)) m \<Longrightarrow> covered L X (sh_book s) \<Longrightarrow> covered L X (sh_book (snd (m s)))"
  by (auto simp: keeps_def books_def stays_covered_def)

lemma respond_covered: "keeps (books (stays_covered L X)) (respond T kek resp)" "keeps (books (stays_covered L X)) (decline T kek d reason)"
  by (rule cover.respond, rule store_response_covered)+

lemma accept_fill_covered:
  assumes cov: "covered L X (sh_book s)"
    and room: "pending_send_total (or_sells (de_order d)) (sh_book s) + (if or_sells (de_order d) then rq_lapse_total (de_request d) else de_xlm d)
      \<le> (if or_sells (de_order d) then L else X)"
  shows "covered L X (sh_book (snd (accept_fill T kek my_xlm d schedule cnt opens s)))"
proof -
  let ?k = "rq_session (de_request d)"
  obtain r1 s1 where c: "calling (dl_time T) s = (r1, s1)" by fastforce
  then have b1: "sh_book s1 = sh_book s" by (rule calling_book)
  show ?thesis
  proof (cases r1)
    case (Inl e)
    then show ?thesis using c b1 cov by (simp add: accept_fill_def bind_act_def)
  next
    case (Inr now)
    let ?t = "maker_trade T my_xlm d cnt now"
    let ?rest = "bind_act (on_book (create_steps ?k opens (now + of_int (step_timeout_seconds (de_depth d))) (deadline_height (de_height d) (de_depth d)) schedule)) (\<lambda>_.
      bind_act (respond T kek (answer_dict T (de_order d) (de_request d) (de_height d) (de_depth d) (de_xlm d) True (Some cnt) [] opens)) (\<lambda>_. return True))"
    have run: "accept_fill T kek my_xlm d schedule cnt opens s = bind_act (on_book (create_trade ?t)) (\<lambda>_. ?rest) s1"
      using c Inr by (simp add: accept_fill_def bind_act_def)
    obtain r2 s2 where t: "on_book (create_trade ?t) s1 = (r2, s2)" by fastforce
    have made: "create_trade ?t (sh_book s) = (r2, sh_book s2)" using on_book_book[OF t] b1 by simp
    have cov2: "covered L X (sh_book s2)"
      by (rule create_trade_covered[OF made cov]) (use room in \<open>simp add: maker_trade_def owed_on_def split: if_splits\<close>)
    show ?thesis
    proof (cases r2)
      case (Inl e)
      then show ?thesis using run t cov2 by (simp add: bind_act_def)
    next
      case (Inr u)
      have key: "has_key (b_trades (sh_book s2)) ?k" using create_trade_run[of ?t "sh_book s" u "sh_book s2"] made Inr by (simp add: maker_trade_def)
      obtain r3 s3 where st: "on_book (create_steps ?k opens (now + of_int (step_timeout_seconds (de_depth d)))
          (deadline_height (de_height d) (de_depth d)) schedule) s2 = (r3, s3)" by fastforce
      have cov3: "covered L X (sh_book s3)"
        using keepsD[OF create_steps_open on_book_book[OF st], of L X] cov2 key by (simp add: stays_open_def)
      have "keeps (books (stays_covered L X)) (bind_act (respond T kek (answer_dict T (de_order d) (de_request d) (de_height d) (de_depth d)
          (de_xlm d) True (Some cnt) [] opens)) (\<lambda>_. return True))"
        by (intro cover.bind respond_covered cover.return)
      then show ?thesis using covered_keeps[OF _ cov3] cov3 run t Inr st by (cases r3) (simp_all add: bind_act_def[of "on_book m" for m])
    qed
  qed
qed

text \<open>The balances the chains answer with are at most \<open>L\<close> and \<open>X\<close>.\<close>

definition balances_within :: "('w, 'e) dealer \<Rightarrow> string \<Rightarrow> int \<Rightarrow> int \<Rightarrow> bool" where
  "balances_within T my_xlm L X \<longleftrightarrow> (\<forall>w n w'. dl_lapse_balance T (dl_addr T) w = (Inr n, w') \<longrightarrow> n \<le> L)
     \<and> (\<forall>w n w'. dl_xlm_balance T my_xlm w = (Inr n, w') \<longrightarrow> n \<le> X)"

lemma funds_within: "balances_within T my_xlm L X \<Longrightarrow> funds T my_xlm lapse s = (Inr n, s') \<Longrightarrow> n \<le> (if lapse then L else X)"
  unfolding balances_within_def funds_def calling_def by (cases lapse) (auto split: prod.splits, blast+)

lemma settle_terms_covered:
  assumes "balances_within T my_xlm L X"
  shows "keeps (books (stays_covered L X)) (settle_terms T kek my_xlm min_trust d scores schedule cnt)"
  unfolding settle_terms_def
proof (rule frame.bind_with[OF cover.is_frame])
  show "keeps (books (stays_covered L X)) (funds T my_xlm (or_sells (de_order d)))" by (simp add: funds_def cover.calling)
  show "x \<le> (if or_sells (de_order d) then L else X)" if "funds T my_xlm (or_sells (de_order d)) s = (Inr x, s')" for s x s'
    by (rule funds_within[OF assms that])
  fix got assume h: "got \<le> (if or_sells (de_order d) then L else X)"
  let ?need = "if or_sells (de_order d) then rq_lapse_total (de_request d) else de_xlm d"
  show "keeps (books (stays_covered L X)) (bind_act (reading (pending_send_total (or_sells (de_order d)))) (\<lambda>owed.
       if got - owed < ?need then decline T kek d ''the maker cannot currently fund this fill''
       else if below_floor min_trust (fst scores) then return False
       else accept_fill T kek my_xlm d schedule cnt
         (\<not> opening_mover (snd scores) (fst scores) (taker_lapse_addr (de_request d)) (dl_addr T))))"
  proof (rule reading_at)
    fix s :: "('a, 'b) shop"
    let ?owed = "pending_send_total (or_sells (de_order d)) (sh_book s)"
    show "books (stays_covered L X) s (snd ((if got - ?owed < ?need then decline T kek d ''the maker cannot currently fund this fill''
       else if below_floor min_trust (fst scores) then return False
       else accept_fill T kek my_xlm d schedule cnt
         (\<not> opening_mover (snd scores) (fst scores) (taker_lapse_addr (de_request d)) (dl_addr T))) s))"
    proof (cases "got - ?owed < ?need \<or> below_floor min_trust (fst scores)")
      case True
      then show ?thesis
        using respond_covered(2)[of L X T kek d "''the maker cannot currently fund this fill''"] cover.return[of L X False]
        by (auto simp: keeps_def)
    next
      case False
      then show ?thesis using accept_fill_covered[of L X s d] h by (simp add: books_def stays_covered_def)
    qed
  qed
qed

lemmas answer_parts = cover.parts respond_covered

lemma size_up_covered: "balances_within T my_xlm L X \<Longrightarrow> keeps (books (stays_covered L X)) (size_up T kek my_xlm min_trust d)"
  unfolding size_up_def
  by (rule cover.bind[OF cover.scores]) (auto split: sum.split exn.split prod.split intro: settle_terms_covered respond_covered cover.lift)

lemma judge_fill_covered: "balances_within T my_xlm L X \<Longrightarrow> keeps (books (stays_covered L X)) (judge_fill T kek my_xlm min_trust d)"
  unfolding judge_fill_def
  by (rule cover.bind[OF cover.reading]) (auto split: sum.split exn.split intro: size_up_covered respond_covered cover.lift)

lemma answer_one_covered: "balances_within T my_xlm L X \<Longrightarrow> keeps (books (stays_covered L X)) (answer_one T my_xlm dep min_trust r q)"
  unfolding answer_one_def by (auto intro!: cover.parts judge_fill_covered)

lemma answer_requests_covered:
  "balances_within T my_xlm L X \<Longrightarrow> keeps (books (stays_covered L X)) (answer_requests T my_xlm dep min_trust r qs n)"
  by (induction qs arbitrary: n) (auto intro!: cover.parts answer_one_covered)

lemma answer_orders_covered:
  "balances_within T my_xlm L X \<Longrightarrow> keeps (books (stays_covered L X)) (answer_orders T my_xlm dep min_trust rs n)"
  by (induction rs arbitrary: n) (auto intro!: cover.parts answer_requests_covered)

lemma decide_covered:
  "balances_within T my_xlm L X \<Longrightarrow> keeps (books (stays_covered L X)) (decide_fill_request T my_xlm dep request_id accept)"
  unfolding decide_fill_request_def decline_by_hand_def
  by (rule cover.bind[OF cover.reading]) (auto split: option.split intro!: cover.parts respond_covered answer_one_covered)

text \<open>C25: Whatever requests arrive and whatever an answer returns or raises: as long as what this node still has to send on each chain was
  within its balance there, it stays within, over a whole pass of automatic answers and over any answer of a person. No two
  acceptances are promised the same coins.\<close>

theorem acceptances_stay_funded:
  assumes "balances_within T my_xlm L X" and "covered L X (sh_book s)"
  shows "covered L X (sh_book (snd (answer_fill_requests T my_xlm dep min_trust s)))
    \<and> covered L X (sh_book (snd (decide_fill_request T my_xlm dep request_id accept s)))"
proof
  have "keeps (books (stays_covered L X)) (answer_fill_requests T my_xlm dep min_trust)"
    unfolding answer_fill_requests_def by (intro cover.bind cover.reading answer_orders_covered assms(1))
  then show "covered L X (sh_book (snd (answer_fill_requests T my_xlm dep min_trust s)))" by (rule covered_keeps[OF _ assms(2)])
  show "covered L X (sh_book (snd (decide_fill_request T my_xlm dep request_id accept s)))"
    by (rule covered_keeps[OF decide_covered[OF assms(1)] assms(2)])
qed

section \<open>Two views of one trade\<close>

lemma calling_Inr: "calling m s = (Inr x, s') \<longleftrightarrow> (\<exists>w. m (sh_out s) = (Inr x, w) \<and> s' = s\<lparr>sh_out := w\<rparr>)"
  by (auto simp: calling_def split: prod.splits)

lemma on_book_Inr: "on_book m s = (Inr x, s') \<longleftrightarrow> (\<exists>B. m (sh_book s) = (Inr x, B) \<and> s' = s\<lparr>sh_book := B\<rparr>)"
  by (auto simp: on_book_def split: prod.splits)

lemma decline_False: "decline T kek d why s = (Inr b, s') \<Longrightarrow> \<not> b"
  by (auto simp: decline_def bind_act_Inr return_def)

definition alternates :: "int \<Rightarrow> bool \<Rightarrow> bool" where
  "alternates n i_open = (if n mod 2 = 1 then i_open else \<not> i_open)"

definition step_rows :: "string \<Rightarrow> bool \<Rightarrow> rat \<Rightarrow> int \<Rightarrow> (int \<times> int) list \<Rightarrow> ((string \<times> int) \<times> 'e increment) list" where
  "step_rows k i_open deadline due schedule =
     map (\<lambda>(n, a). ((k, n), new_step k n a (alternates n i_open) deadline (if n = 1 then due else 0))) (numbered schedule)"

lemma created_steps:
  assumes "for_each (\<lambda>(n, amounts). bind_act (lift_res (i_move_first n i_open)) (\<lambda>first.
         create_step (new_step k n amounts first deadline (if n = 1 then due else 0)))) ns B = (Inr (), B')"
  shows "B' = B\<lparr>b_steps := b_steps B @ map (\<lambda>(n, a). ((k, n), new_step k n a (alternates n i_open) deadline (if n = 1 then due else 0))) ns\<rparr>"
  using assms
proof (induction ns arbitrary: B)
  case Nil
  then show ?case by (simp add: return_def)
next
  case (Cons x ns)
  obtain n a where x: "x = (n, a)" by (cases x)
  obtain first B1 where f: "i_move_first n i_open = Inr first"
    and c: "create_step (new_step k n a first deadline (if n = 1 then due else 0)) B = (Inr (), B1)"
    and rest: "for_each (\<lambda>(n, amounts). bind_act (lift_res (i_move_first n i_open)) (\<lambda>first.
         create_step (new_step k n amounts first deadline (if n = 1 then due else 0)))) ns B1 = (Inr (), B')"
    using Cons.prems by (auto simp: x bind_act_Inr lift_res_def)
  have "first = alternates n i_open" using f by (auto simp: i_move_first_def alternates_def split: if_splits)
  moreover have "B1 = B\<lparr>b_steps := b_steps B @ [((k, n), new_step k n a first deadline (if n = 1 then due else 0))]\<rparr>"
    using create_step_effect[OF c] by (auto simp: update_notin new_step_def)
  ultimately show ?case using Cons.IH[OF rest] by (simp add: x)
qed

lemma created_rows: "create_steps k i_open deadline due schedule B = (Inr (), B') \<Longrightarrow>
   B' = B\<lparr>b_steps := b_steps B @ step_rows k i_open deadline due schedule\<rparr>"
  unfolding create_steps_def step_rows_def by (rule created_steps)

lemma created_trade: "create_trade t B = (Inr (), B') \<Longrightarrow> \<not> has_key (b_trades B) (tr_session t) \<and> B' = B\<lparr>b_trades := b_trades B @ [(tr_session t, t)]\<rparr>"
  using create_trade_effect[of t B "Inr ()" B'] by (auto simp: update_notin)

lemma plan_schedule: "plan_loop l x cap n = Inr (schedule, m, c) \<Longrightarrow> build_schedule l x m = Inr schedule \<and> c = cap \<and> Max (set (map snd schedule)) \<le> cap"
  by (induction l x cap n rule: plan_loop.induct) (subst (asm) plan_loop.simps, auto simp: rbind_Inr_conv split: if_splits)

lemma plan_mutual_schedule: "plan_mutual sq l x a b c p m = Inr (schedule, n, cap) \<Longrightarrow> build_schedule l x n = Inr schedule"
  by (auto simp: plan_mutual_def plan_for_cap_def rbind_Inr_conv dest: plan_schedule)

definition signed_answer :: "('w, 'e) dealer \<Rightarrow> string \<Rightarrow> deal \<Rightarrow> int \<Rightarrow> bool \<Rightarrow> (string, json) dict" where
  "signed_answer T sk d cnt opens =
     sign_fill_response (dl_deps T) sk (answer_dict T (de_order d) (de_request d) (de_height d) (de_depth d) (de_xlm d) True (Some cnt) [] opens)"

lemma accept_fill_run:
  assumes "accept_fill T kek my_xlm d schedule cnt opens s = (Inr True, s')"
  obtains now now' sk stored where
    "b_trades (sh_book s') = b_trades (sh_book s) @ [(rq_session (de_request d), maker_trade T my_xlm d cnt now)]"
    "b_steps (sh_book s') = b_steps (sh_book s) @ step_rows (rq_session (de_request d)) opens
        (now + of_int (step_timeout_seconds (de_depth d))) (deadline_height (de_height d) (de_depth d)) schedule"
    "dl_key T kek = Inr sk" "\<not> has_key (b_trades (sh_book s)) (rq_session (de_request d))"
    "store_fill_response (signed_answer T sk d cnt opens) now' (sh_book s\<lparr>b_trades := b_trades (sh_book s'), b_steps := b_steps (sh_book s')\<rparr>)
       = (Inr stored, sh_book s')"
proof -
  from assms obtain now B1 B2 sk now' stored B3 where
    t: "create_trade (maker_trade T my_xlm d cnt now) (sh_book s) = (Inr (), B1)" and
    st: "create_steps (rq_session (de_request d)) opens (now + of_int (step_timeout_seconds (de_depth d)))
      (deadline_height (de_height d) (de_depth d)) schedule B1 = (Inr (), B2)" and
    sk: "dl_key T kek = Inr sk" and rp: "store_fill_response (signed_answer T sk d cnt opens) now' B2 = (Inr stored, B3)" and
    s': "sh_book s' = B3"
    by (auto simp: accept_fill_def respond_def bind_act_Inr calling_Inr on_book_Inr lift_res_def signed_answer_def return_def)
  have b: "B1 = sh_book s\<lparr>b_trades := b_trades (sh_book s) @ [(rq_session (de_request d), maker_trade T my_xlm d cnt now)]\<rparr>"
    "\<not> has_key (b_trades (sh_book s)) (rq_session (de_request d))"
    using created_trade[OF t] by (simp_all add: maker_trade_def)
  note B2 = created_rows[OF st]
  have "b_trades B3 = b_trades B2" "b_steps B3 = b_steps B2" using store_response_trades[OF rp] by simp_all
  then show thesis using that[of now sk now' stored] sk rp b B2 s' by simp
qed

lemma answer_one_run:
  assumes "answer_one T my_xlm dep min_trust r q s = (Inr True, s')"
  obtains kek h x scores schedule cnt cap s0 where
    "xlm_for_lapse (rq_lapse_total q) (or_price r) = Inr x" "build_schedule (rq_lapse_total q) x cnt = Inr schedule"
    "sh_book s0 = sh_book s"
    "accept_fill T kek my_xlm \<lparr>de_order = r, de_request = q, de_height = h, de_depth = dep, de_xlm = x\<rparr> schedule cnt
       (\<not> opening_mover (snd scores) (fst scores) (taker_lapse_addr q) (dl_addr T)) s0 = (Inr True, s')"
    "plan_mutual (dl_sqroot T) (rq_lapse_total q) x (fst scores) (snd scores) DEFAULT_STRANGER_CAP_STROOPS None None = Inr (schedule, cnt, cap)"
proof -
  from assms obtain kek h x w where x: "xlm_for_lapse (rq_lapse_total q) (or_price r) = Inr x"
    and j: "judge_fill T kek my_xlm min_trust \<lparr>de_order = r, de_request = q, de_height = h, de_depth = dep, de_xlm = x\<rparr> (s\<lparr>sh_out := w\<rparr>) = (Inr True, s')"
    by (auto simp: answer_one_def bind_act_Inr calling_Inr lift_res_def return_def split: option.splits)
  let ?d = "\<lparr>de_order = r, de_request = q, de_height = h, de_depth = dep, de_xlm = x\<rparr>"
  from j have sz: "size_up T kek my_xlm min_trust ?d (s\<lparr>sh_out := w\<rparr>) = (Inr True, s')"
    by (auto simp: judge_fill_def lift_res_def split: sum.splits exn.splits dest: decline_False)
  then obtain scores s2 where sc: "mutual_scores_of T (taker_lapse_addr q) (s\<lparr>sh_out := w\<rparr>) = (Inr scores, s2)"
    and pl: "(case plan_mutual (dl_sqroot T) (rq_lapse_total q) x (fst scores) (snd scores) DEFAULT_STRANGER_CAP_STROOPS None None of
         Inl (TradeTooLarge _ _ _) \<Rightarrow> decline T kek ?d ''more than this node will risk with this counterparty in one go''
       | Inl e \<Rightarrow> lift_res (Inl e)
       | Inr (schedule, cnt, _) \<Rightarrow> settle_terms T kek my_xlm min_trust ?d scores schedule cnt) s2 = (Inr True, s')"
    by (auto simp: size_up_def bind_act_Inr)
  from pl obtain schedule cnt cap where p: "plan_mutual (dl_sqroot T) (rq_lapse_total q) x (fst scores) (snd scores) DEFAULT_STRANGER_CAP_STROOPS None None
       = Inr (schedule, cnt, cap)" and stl: "settle_terms T kek my_xlm min_trust ?d scores schedule cnt s2 = (Inr True, s')"
    by (auto simp: lift_res_def split: sum.splits exn.splits dest: decline_False)
  have b2: "sh_book s2 = sh_book s" using scores_book[OF sc] by simp
  from stl obtain s3 where "sh_book s3 = sh_book s2"
    "accept_fill T kek my_xlm ?d schedule cnt (\<not> opening_mover (snd scores) (fst scores) (taker_lapse_addr q) (dl_addr T)) s3 = (Inr True, s')"
    by (auto simp: settle_terms_def funds_def bind_act_Inr reading_def return_def dest: decline_False calling_book split: if_splits)
  then show thesis using that[of x cnt schedule s3 kek h scores cap] x p plan_mutual_schedule[OF p] b2 by simp
qed

lemma write_taker_run:
  assumes "write_taker_trade T q resp r dep x schedule s = (Inr True, s')"
  obtains now where
    "sh_book s' = sh_book s\<lparr>b_trades := b_trades (sh_book s) @ [(rq_session q, taker_trade T q resp r x now)],
       b_steps := b_steps (sh_book s) @ step_rows (rq_session q) (\<not> rs_maker_opens resp) (now + of_int (step_timeout_seconds dep))
         (deadline_height (rs_height resp) (rs_depth resp)) schedule\<rparr>"
    "\<not> has_key (b_trades (sh_book s)) (rq_session q)"
proof -
  from assms obtain now w B1 B2 where
    t: "create_trade (taker_trade T q resp r x now) (sh_book s) = (Inr (), B1)" and
    st: "create_steps (rq_session q) (\<not> rs_maker_opens resp) (now + of_int (step_timeout_seconds dep))
      (deadline_height (rs_height resp) (rs_depth resp)) schedule B1 = (Inr (), B2)" and s': "s' = s\<lparr>sh_out := w, sh_book := B2\<rparr>"
    by (auto simp: write_taker_trade_def bind_act_Inr calling_Inr on_book_Inr return_def)
  show thesis using that[of now] created_trade[OF t] created_rows[OF st] s' by (simp add: taker_trade_def)
qed

text \<open>What stands before a taker's trade.\<close>

definition agreed :: "('w, 'e) dealer \<Rightarrow> 'e book \<Rightarrow> fill_request \<Rightarrow> fill_response \<Rightarrow> order \<Rightarrow> bool" where
  "agreed T B q resp r \<longleftrightarrow> \<not> has_key (b_trades B) (rq_session q) \<and> rs_accepted resp
     \<and> verify_fill_response (dl_deps T) B (JObj (response_dict resp)) (Some (or_maker r)) (Some r) (Some q) = Inr ()"

definition capped_schedule :: "('w, 'e) dealer \<Rightarrow> 'e book \<Rightarrow> fill_request \<Rightarrow> fill_response \<Rightarrow> order \<Rightarrow> int \<Rightarrow> (int \<times> int) list \<Rightarrow> bool" where
  "capped_schedule T B q resp r x schedule \<longleftrightarrow> xlm_for_lapse (rq_lapse_total q) (or_price r) = Inr x
     \<and> build_schedule (rq_lapse_total q) x (rs_count resp) = Inr schedule
     \<and> (\<exists>s mine theirs s'. sh_book s = B \<and> mutual_scores_of T (or_maker r) s = (Inr (mine, theirs), s')
          \<and> Max (set (map snd schedule)) \<le> mutual_exposure_cap_stroops (dl_sqroot T) mine theirs DEFAULT_STRANGER_CAP_STROOPS None None)"

lemma open_taker_cases:
  assumes "open_taker_trade T q resp r dep s = (res, s')"
  obtains "sh_book s' = sh_book s" "res \<noteq> Inr True"
  | x schedule s1 where "capped_schedule T (sh_book s) q resp r x schedule" "sh_book s1 = sh_book s"
    "write_taker_trade T q resp r dep x schedule s1 = (res, s')"
proof (cases "xlm_for_lapse (rq_lapse_total q) (or_price r)")
  case (Inl e)
  then show thesis using assms that(1) by (auto simp: open_taker_trade_def bind_act_def lift_res_def)
next
  case x: (Inr x)
  show thesis
  proof (cases "build_schedule (rq_lapse_total q) x (rs_count resp)")
    case (Inl e)
    then have "(case e of ValueError \<Rightarrow> return False | _ \<Rightarrow> lift_res (Inl e)) s = (res, s')"
      using assms x by (cases e) (simp_all add: open_taker_trade_def bind_lift)
    then show thesis using that(1) by (cases e) (auto simp: lift_res_def return_def)
  next
    case b: (Inr schedule)
    obtain sc s1 where m: "mutual_scores_of T (or_maker r) s = (sc, s1)" by fastforce
    have b1: "sh_book s1 = sh_book s" by (rule scores_book[OF m])
    show thesis
    proof (cases sc)
      case (Inl e)
      then show thesis using assms x b m b1 that(1) by (auto simp: open_taker_trade_def bind_lift bind_act_def[of "mutual_scores_of T (or_maker r)"])
    next
      case (Inr p)
      obtain mine theirs where p: "p = (mine, theirs)" by (cases p)
      have run: "(if Max (set (map snd schedule)) > mutual_exposure_cap_stroops (dl_sqroot T) mine theirs DEFAULT_STRANGER_CAP_STROOPS None None
           then return False else write_taker_trade T q resp r dep x schedule) s1 = (res, s')"
        using assms x b m Inr p by (simp add: open_taker_trade_def bind_lift bind_act_def[of "mutual_scores_of T (or_maker r)"])
      show thesis
      proof (cases "Max (set (map snd schedule)) > mutual_exposure_cap_stroops (dl_sqroot T) mine theirs DEFAULT_STRANGER_CAP_STROOPS None None")
        case True
        then show thesis using run that(1) b1 by (auto simp: return_def)
      next
        case False
        then have "capped_schedule T (sh_book s) q resp r x schedule"
          unfolding capped_schedule_def using x b m Inr p by (intro conjI exI[of _ s] exI[of _ mine] exI[of _ theirs] exI[of _ s1]) auto
        moreover have "write_taker_trade T q resp r dep x schedule s1 = (res, s')" using run False by simp
        ultimately show thesis using that(2) b1 by blast
      qed
    qed
  qed
qed

lemma check_response_cases:
  assumes "check_response T dep q s = (res, s')"
  obtains "sh_book s' = sh_book s" "res \<noteq> Inr True"
  | resp r x schedule s1 where "get_fill_response (sh_book s) (rq_id q) = Some resp" "get_order (sh_book s) (rq_order q) = Some r"
    "agreed T (sh_book s) q resp r" "capped_schedule T (sh_book s) q resp r x schedule" "sh_book s1 = sh_book s"
    "write_taker_trade T q resp r dep x schedule s1 = (res, s')"
proof (cases "has_key (b_trades (sh_book s)) (rq_session q) \<or> get_fill_response (sh_book s) (rq_id q) = None \<or> get_order (sh_book s) (rq_order q) = None")
  case True
  then show thesis using assms that(1) by (auto simp: check_response_def return_def split: if_splits option.splits)
next
  case False
  then obtain resp r where f: "get_fill_response (sh_book s) (rq_id q) = Some resp" "get_order (sh_book s) (rq_order q) = Some r" by auto
  let ?v = "verify_fill_response (dl_deps T) (sh_book s) (JObj (response_dict resp)) (Some (or_maker r)) (Some r) (Some q)"
  have run: "(case ?v of Inl (FillResponseRejected _) \<Rightarrow> return False | Inl e \<Rightarrow> lift_res (Inl e)
      | Inr _ \<Rightarrow> if rs_accepted resp then open_taker_trade T q resp r dep else return False) s = (res, s')"
    using assms False f by (simp add: check_response_def)
  show thesis
  proof (cases ?v)
    case (Inl e)
    then show thesis using run that(1) by (cases e) (auto simp: lift_res_def return_def)
  next
    case (Inr u)
    show thesis
    proof (cases "rs_accepted resp")
      case True
      then have o: "open_taker_trade T q resp r dep s = (res, s')" using run Inr by simp
      have a: "agreed T (sh_book s) q resp r" using False Inr True by (simp add: agreed_def)
      from o show thesis
      proof (cases rule: open_taker_cases)
        case (2 x schedule s1)
        show thesis by (rule that(2)[OF f a 2])
      qed (rule that(1))
    next
      case False
      then show thesis using run Inr that(1) by (auto simp: return_def)
    qed
  qed
qed

lemma verified_response:
  assumes "verify_fill_response D B (JObj d) (Some m) (Some r) (Some q) = Inr ()"
  shows "check_against_request d q = Inr ()" "verify_response_signature D d (Some m) = Inr ()" "check_against_order d r = Inr ()"
  using assms by (simp_all add: verify_fill_response_def rbind_Inr_conv check_if_def)

lemma response_dict_reads:
  "text_of (response_dict r) ''session_id'' = rs_session r" "text_of (response_dict r) ''order_id'' = rs_order r"
  "hex_field (response_dict r) ''maker_pubkey'' = fromhex (rs_maker_pubkey r)" "hex_field (response_dict r) ''signature'' = fromhex (rs_signature r)"
  by (simp_all add: text_of_def hex_field_def response_dict_def jget_def get_or_def)

text \<open>C27: A taker's book changes only for a response the maker of the order signed with its key, that accepts this very request, and for
  a schedule, built from the taker's own request and the price of the order, that adds up and has no step above what the two parties'
  standing allows; so nothing else can make this node pay.\<close>

theorem taker_opens_only_what_was_signed:
  assumes run: "check_response T dep q s = (res, s')" and changed: "sh_book s' \<noteq> sh_book s"
  shows "case (get_fill_response (sh_book s) (rq_id q), get_order (sh_book s) (rq_order q)) of
     (Some resp, Some r) \<Rightarrow> rs_accepted resp \<and> rs_session resp = rq_session q \<and> rs_order resp = rq_order q
       \<and> (case (fromhex (rs_maker_pubkey resp), fromhex (rs_signature resp)) of
            (Some key, Some sig) \<Rightarrow> public_key_to_address (dp_prims (dl_deps T)) key = or_maker r
              \<and> verify (dp_prims (dl_deps T)) (fill_response_signing_bytes (dl_deps T) (response_dict resp)) sig key
          | _ \<Rightarrow> False)
       \<and> (\<exists>x schedule. capped_schedule T (sh_book s) q resp r x schedule)
   | _ \<Rightarrow> False"
  using run
proof (cases rule: check_response_cases)
  case (2 resp r x schedule s1)
  note v = verified_response[OF 2(3)[unfolded agreed_def, THEN conjunct2, THEN conjunct2]]
  have a: "rs_accepted resp" using 2(3) by (simp add: agreed_def)
  have ids: "rs_session resp = rq_session q" "rs_order resp = rq_order q"
    using v(1) by (simp_all add: check_against_request_def rbind_Inr_conv res_simps response_dict_reads)
  have "case (fromhex (rs_maker_pubkey resp), fromhex (rs_signature resp)) of
            (Some key, Some sig) \<Rightarrow> public_key_to_address (dp_prims (dl_deps T)) key = or_maker r
              \<and> verify (dp_prims (dl_deps T)) (fill_response_signing_bytes (dl_deps T) (response_dict resp)) sig key
          | _ \<Rightarrow> False"
    using v(2) by (auto simp: verify_response_signature_def response_dict_reads check_if_def rbind_Inr_conv res_simps split: option.splits)
  then show ?thesis using a ids 2(1,2,4) by auto
qed (use changed in simp)

section \<open>The two rows of one trade\<close>

definition mirror_trades :: "trade \<Rightarrow> trade \<Rightarrow> bool" where
  "mirror_trades m k \<longleftrightarrow> tr_session m = tr_session k \<and> tr_order m = tr_order k \<and> tr_maker m \<and> \<not> tr_maker k
     \<and> lapse_total m = lapse_total k \<and> xlm_total m = xlm_total k \<and> tr_count m = tr_count k \<and> confirm_depth m = confirm_depth k
     \<and> accepted_height m = accepted_height k \<and> sends_lapse m = (\<not> sends_lapse k)
     \<and> my_lapse_addr m = peer_lapse_addr k \<and> peer_lapse_addr m = my_lapse_addr k
     \<and> my_xlm_addr m = peer_xlm_addr k \<and> peer_xlm_addr m = my_xlm_addr k"

text \<open>What one pays is, address by address, memo and amount, what the other waits for; one of them moves first.\<close>

definition mirror_steps :: "trade \<Rightarrow> 'a increment \<Rightarrow> trade \<Rightarrow> 'b increment \<Rightarrow> bool" where
  "mirror_steps m i k j \<longleftrightarrow> out_terms m i = in_terms k j \<and> in_terms m i = out_terms k j
     \<and> moves_first i = (\<not> moves_first j) \<and> due_height i = due_height j"

lemma map_of_numbered: "map_of (map (\<lambda>(n, a). ((k, n), f n a)) ns) (k, n) = map_option (f n) (map_of ns n)"
  by (induction ns) auto

lemma step_rows_at: "map_of (step_rows k opens dl due schedule) (k, n)
    = map_option (\<lambda>a. new_step k n a (alternates n opens) dl (if n = 1 then due else 0)) (map_of (numbered schedule) n)"
  unfolding step_rows_def by (rule map_of_numbered)

lemma no_steps: "owned_steps B \<Longrightarrow> \<not> has_key (b_trades B) k \<Longrightarrow> map_of (b_steps B) (k, n) = None"
  by (auto simp: owned_steps_def list_all_iff map_of_eq_None_iff)

lemma answered_row:
  "response_row (signed_answer T sk d cnt opens) now =
     \<lparr>rs_id = rq_id (de_request d), rs_order = or_id (de_order d), rs_session = rq_session (de_request d),
      rs_lapse_total = rq_lapse_total (de_request d), rs_xlm_total = de_xlm d, rs_accepted = True, rs_count = cnt,
      rs_maker_pubkey = dl_pk_hex T, rs_height = de_height d, rs_depth = de_depth d, rs_sells = or_sells (de_order d),
      rs_maker_xlm_addr = or_xlm_addr (de_order d), rs_maker_opens = opens, rs_reason = [],
      rs_signature = tohex (sign (dp_prims (dl_deps T)) (fill_response_signing_bytes (dl_deps T)
        (answer_dict T (de_order d) (de_request d) (de_height d) (de_depth d) (de_xlm d) True (Some cnt) [] opens)) sk),
      rs_received_at = now\<rparr>"
  by (simp add: response_row_def signed_answer_def sign_fill_response_def signed_with_def answer_dict_def build_fill_response_def
      text_of_def int_of_def bool_of_def jget_def get_or_def direction_json_def)

lemma same_order_terms:
  "order_to_wire r' = order_to_wire r \<Longrightarrow> or_id r' = or_id r \<and> or_maker r' = or_maker r \<and> or_xlm_addr r' = or_xlm_addr r
     \<and> or_sells r' = or_sells r \<and> or_price r' = or_price r"
  by (auto simp: order_to_wire_def direction_json_def split: if_splits)

lemma mirrored_steps:
  assumes "tr_order m = tr_order k" "tr_session m = tr_session k" "sends_lapse m = (\<not> sends_lapse k)"
    "my_lapse_addr m = peer_lapse_addr k" "peer_lapse_addr m = my_lapse_addr k" "my_xlm_addr m = peer_xlm_addr k" "peer_xlm_addr m = my_xlm_addr k"
  shows "mirror_steps m (new_step ses n a (alternates n opens) d1 due) k (new_step ses n a (alternates n (\<not> opens)) d2 due)"
  using assms by (auto simp: mirror_steps_def out_terms_def in_terms_def new_step_def alternates_def)


section \<open>An instance\<close>

definition demo_dealer :: "char \<Rightarrow> (unit, string) dealer" where
  "demo_dealer c = \<lparr>dl_deps = demo_deps, dl_sqroot = (\<lambda>x. x), dl_addr = demo_addr c, dl_pk_hex = ''01'', dl_key = (\<lambda>_. Inr ''sk''),
     dl_secrets = return (Some ''kek'', None), dl_height = return 100, dl_time = return 7, dl_nonce = return ''n'',
     dl_lapse_balance = (\<lambda>_. return 1500), dl_xlm_balance = (\<lambda>_. return 1500), dl_scores = (\<lambda>_ _. return (0, 0)),
     dl_publish = (\<lambda>_. return ())\<rparr>"

definition demo_offer :: order where
  "demo_offer = demo_order_row\<lparr>or_price := 1000000\<rparr>"

definition demo_ask :: fill_request where
  "demo_ask = \<lparr>rq_id = ''r1'', rq_order = ''o1'', rq_session = ''5e55'', taker_lapse_addr = demo_addr CHR ''b'', taker_xlm_addr = ''GB'',
     rq_lapse_total = 1000, rq_pubkey = ''01'', rq_signature = ''02'', rq_received_at = 6\<rparr>"

definition demo_shop :: "fill_response option \<Rightarrow> (unit, string) shop" where
  "demo_shop resp = \<lparr>sh_book = \<lparr>b_orders = [(''o1'', demo_offer)], b_requests = [(''r1'', demo_ask)],
     b_responses = (case resp of None \<Rightarrow> [] | Some r \<Rightarrow> [(rs_id r, r)]), b_trades = [], b_steps = []\<rparr>, sh_out = ()\<rparr>"

definition demo_accepted :: "(unit, string) shop" where
  "demo_accepted = snd (answer_one (demo_dealer CHR ''a'') ''GA'' 2 (Some 0) demo_offer demo_ask (demo_shop None))"

definition demo_sent :: fill_response where
  "demo_sent = the (get_fill_response (sh_book demo_accepted) ''r1'')"

definition demo_opened :: "(unit, string) shop" where
  "demo_opened = snd (check_response (demo_dealer CHR ''b'') 2 demo_ask (demo_shop (Some demo_sent)))"

lemma demo_accepts: "fst (answer_one (demo_dealer CHR ''a'') ''GA'' 2 (Some 0) demo_offer demo_ask (demo_shop None)) = Inr True"
  by code_simp

lemma demo_opens: "fst (check_response (demo_dealer CHR ''b'') 2 demo_ask (demo_shop (Some demo_sent))) = Inr True"
  by code_simp

lemma demo_sent_found: "get_fill_response (sh_book demo_accepted) ''r1'' \<noteq> None" "rs_id demo_sent = ''r1''"
  "b_trades (sh_book demo_opened) \<noteq> []"
  by code_simp+

lemma demo_shop_fields: "b_trades (sh_book (demo_shop x)) = []" "b_steps (sh_book (demo_shop x)) = []"
  "get_order (sh_book (demo_shop x)) ''o1'' = Some demo_offer" "owned_steps (sh_book (demo_shop x))"
  by (simp_all add: demo_shop_def get_order_def owned_steps_def)

lemma demo_ask_fields: "rq_id demo_ask = ''r1''" "rq_order demo_ask = ''o1''" "rq_session demo_ask = ''5e55''"
  "taker_lapse_addr demo_ask = demo_addr CHR ''b''" "dl_addr (demo_dealer c) = demo_addr c" "or_maker demo_offer = demo_addr CHR ''a''"
  "or_xlm_addr demo_offer = ''GA''"
  by (simp_all add: demo_ask_def demo_dealer_def demo_offer_def demo_order_row_def)


theorem taker_opens_only_what_was_signed_witness:
  "rs_accepted demo_sent \<and> rs_session demo_sent = ''5e55''
   \<and> (\<exists>x schedule. capped_schedule (demo_dealer CHR ''b'') (sh_book (demo_shop (Some demo_sent))) demo_ask demo_sent demo_offer x schedule)"
proof -
  have g: "get_fill_response (sh_book (demo_shop (Some demo_sent))) (rq_id demo_ask) = Some demo_sent"
    by (simp add: get_fill_response_def demo_shop_def demo_sent_found demo_ask_fields)
  have "sh_book demo_opened \<noteq> sh_book (demo_shop (Some demo_sent))"
    using demo_sent_found(3) demo_shop_fields(1) by metis
  from taker_opens_only_what_was_signed[OF _ this, of "demo_dealer CHR ''b''" 2 demo_ask "Inr True"] demo_opens g
  show ?thesis by (simp add: demo_opened_def prod_eq_iff demo_shop_fields demo_ask_fields)
qed

theorem acceptances_stay_funded_witness:
  "covered 1500 1500 (sh_book (snd (answer_fill_requests (demo_dealer CHR ''a'') ''GA'' 2 (Some 0) (demo_shop None))))"
proof -
  have "balances_within (demo_dealer CHR ''a'') ''GA'' 1500 1500" by (simp add: balances_within_def demo_dealer_def return_def)
  moreover have "covered 1500 1500 (sh_book (demo_shop None))"
    by (simp add: covered_def demo_shop_fields pending_send_total_def)
  ultimately show ?thesis using acceptances_stay_funded by blast
qed

end
