(* ===== verification/Overreach.thy ===== *)
theory Overreach
  imports Handshake
begin

text \<open>
  Where the handshake promises more than it means to: an acceptance reserves nothing on the maker's own node, a match is as large as
  the other side's order, a full table strands a trade nobody else hears of, and a height out of range leaves a trade without steps,
  which the next pass takes for completed.
\<close>

section \<open>An acceptance takes nothing from the order at home\<close>

lemma sum_filter_same: "(\<And>x. x \<in> set xs \<Longrightarrow> P x = Q x) \<Longrightarrow> filter P xs = filter Q xs"
  by (rule filter_cong) simp_all

lemma delivered_new_trade:
  assumes "\<And>k i. (k, i) \<in> set (b_steps B) \<Longrightarrow> inc_session i \<noteq> tr_session t"
    and "b_trades B' = b_trades B @ [(tr_session t, t)]" and "b_steps B' = b_steps B @ step_rows (tr_session t) opens dl due schedule"
  shows "delivered_ticks B' oid = delivered_ticks B oid"
proof -
  have old: "filter (\<lambda>i. inc_session i \<in> set (sessions_of B' oid) \<and> out_state i = LegSettled \<and> in_state i = LegSettled) (rows (b_steps B))
      = filter (\<lambda>i. inc_session i \<in> set (sessions_of B oid) \<and> out_state i = LegSettled \<and> in_state i = LegSettled) (rows (b_steps B))"
  proof (rule sum_filter_same)
    fix i assume "i \<in> set (rows (b_steps B))"
    then obtain k where "(k, i) \<in> set (b_steps B)" by (auto simp: rows_def)
    then have "inc_session i \<noteq> tr_session t" by (rule assms(1))
    then show "(inc_session i \<in> set (sessions_of B' oid) \<and> out_state i = LegSettled \<and> in_state i = LegSettled)
        = (inc_session i \<in> set (sessions_of B oid) \<and> out_state i = LegSettled \<and> in_state i = LegSettled)"
      by (simp add: sessions_of_def assms(2) rows_def)
  qed
  have new: "filter (\<lambda>i. inc_session i \<in> set (sessions_of B' oid) \<and> out_state i = LegSettled \<and> in_state i = LegSettled)
      (rows (step_rows (tr_session t) opens dl due schedule)) = []"
    by (auto simp: filter_empty_conv step_rows_def rows_def new_step_def)
  show ?thesis unfolding delivered_ticks_def assms(3) rows_simps filter_append old new by simp
qed

text \<open>C28: Of an order accepted in part or in whole, the maker's own node goes on counting as much left as before: the accepted response
  is passed over because the trade is on file, and the trade counts nothing until its steps have settled on both sides. So one order
  is accepted again and again, far beyond its size, although accepting is meant to reserve the capacity at once.\<close>

theorem acceptance_reserves_nothing_at_home:
  assumes run: "answer_one T my_xlm dep min_trust r q s = (Inr True, s')"
    and book: "owned_steps (sh_book s)" "get_order (sh_book s) (or_id r) = Some r" "\<not> settled_already q (sh_book s)"
  shows "remaining_ticks (dl_deps T) (sh_book s') r h = remaining_ticks (dl_deps T) (sh_book s) r h"
proof -
  obtain kek h0 x scores schedule cnt cap s0 where s0: "sh_book s0 = sh_book s"
    and acc: "accept_fill T kek my_xlm \<lparr>de_order = r, de_request = q, de_height = h0, de_depth = dep, de_xlm = x\<rparr> schedule cnt
       (\<not> opening_mover (snd scores) (fst scores) (taker_lapse_addr q) (dl_addr T)) s0 = (Inr True, s')"
    using answer_one_run[OF run] .
  define d where "d = \<lparr>de_order = r, de_request = q, de_height = h0, de_depth = dep, de_xlm = x\<rparr>"
  have dsel: "de_order d = r" "de_request d = q" "de_height d = h0" "de_depth d = dep" "de_xlm d = x" by (simp_all add: d_def)
  define opens where "opens = (\<not> opening_mover (snd scores) (fst scores) (taker_lapse_addr q) (dl_addr T))"
  obtain now now' sk stored where mt: "b_trades (sh_book s') = b_trades (sh_book s0) @ [(rq_session q, maker_trade T my_xlm d cnt now)]"
    and ms: "b_steps (sh_book s') = b_steps (sh_book s0) @ step_rows (rq_session q) opens (now + of_int (step_timeout_seconds dep))
        (deadline_height h0 dep) schedule"
    and fresh: "\<not> has_key (b_trades (sh_book s0)) (rq_session q)"
    and st: "store_fill_response (signed_answer T sk d cnt opens) now' (sh_book s0\<lparr>b_trades := b_trades (sh_book s'), b_steps := b_steps (sh_book s')\<rparr>)
       = (Inr stored, sh_book s')"
    using accept_fill_run[OF acc[folded d_def opens_def]] unfolding dsel .
  let ?B = "sh_book s0\<lparr>b_trades := b_trades (sh_book s'), b_steps := b_steps (sh_book s')\<rparr>"
  let ?row = "response_row (signed_answer T sk d cnt opens) now'"
  have unanswered: "\<not> has_key (b_responses (sh_book s0)) (rq_id q)"
    using book(3) s0 by (simp add: settled_already_def get_fill_response_def has_key_map_of)
  have ids: "text_of (signed_answer T sk d cnt opens) ''request_id'' = rq_id q" "text_of (signed_answer T sk d cnt opens) ''session_id'' = rq_session q"
    using answered_row[of T sk d cnt opens now'] by (simp_all add: response_row_def dsel)
  have kept: "rows (b_responses (sh_book s')) = rows (b_responses (sh_book s0)) @ [?row]"
    and apart: "rq_session q \<notin> set (map rs_session (rows (b_responses (sh_book s0))))" and same: "b_orders (sh_book s') = b_orders (sh_book s0)"
  proof -
    have c: "sh_book s' = ?B\<lparr>b_responses := AList.update (rq_id q) ?row (b_responses ?B)\<rparr>
        \<and> rq_session q \<notin> set (map rs_session (rows (b_responses ?B)))"
      using st unanswered
      by (auto simp: store_fill_response_def ids rbind_Inr_conv res_simps split: sum.splits if_splits)
    have b: "b_responses (sh_book s') = AList.update (rq_id q) ?row (b_responses (sh_book s0))"
      using arg_cong[OF c[THEN conjunct1], of b_responses] by simp
    from b show "rows (b_responses (sh_book s')) = rows (b_responses (sh_book s0)) @ [?row]" using unanswered by (simp add: rows_insert)
    show "rq_session q \<notin> set (map rs_session (rows (b_responses (sh_book s0))))" using c by simp
    show "b_orders (sh_book s') = b_orders (sh_book s0)" using store_response_trades[OF st] by simp
  qed
  have ses: "sessions_of (sh_book s') (or_id r) = sessions_of (sh_book s0) (or_id r) @ [rq_session q]"
    by (simp add: sessions_of_def mt rows_def maker_trade_def dsel)
  have "filter (reserves (dl_deps T) (sh_book s') r h) (rows (b_responses (sh_book s0)))
      = filter (reserves (dl_deps T) (sh_book s0) r h) (rows (b_responses (sh_book s0)))"
    by (rule sum_filter_same) (use apart in \<open>auto simp: reserves_def ses image_iff\<close>)
  moreover have "\<not> reserves (dl_deps T) (sh_book s') r h ?row" by (simp add: reserves_def ses answered_row dsel)
  ultimately have "reserved_ticks (dl_deps T) (sh_book s') (or_id r) h = reserved_ticks (dl_deps T) (sh_book s0) (or_id r) h"
    using book(2) s0 by (simp add: reserved_ticks_def get_order_def same kept)
  moreover have "delivered_ticks (sh_book s') (or_id r) = delivered_ticks (sh_book s0) (or_id r)"
  proof (rule delivered_new_trade)
    show "b_trades (sh_book s') = b_trades (sh_book s0) @ [(tr_session (maker_trade T my_xlm d cnt now), maker_trade T my_xlm d cnt now)]"
      using mt by (simp add: maker_trade_def dsel)
    show "b_steps (sh_book s') = b_steps (sh_book s0) @ step_rows (tr_session (maker_trade T my_xlm d cnt now)) opens
        (now + of_int (step_timeout_seconds dep)) (deadline_height h0 dep) schedule" using ms by (simp add: maker_trade_def dsel)
    show "inc_session i \<noteq> tr_session (maker_trade T my_xlm d cnt now)" if "(k, i) \<in> set (b_steps (sh_book s0))" for k i
      using that fresh book(1) s0 by (auto simp: owned_steps_def list_all_iff maker_trade_def dsel)
  qed
  ultimately show ?thesis by (simp add: remaining_ticks_def s0)
qed

section \<open>A match as large as the other order\<close>

text \<open>Two own orders on the same side, at the same price and with the same margin, of whatever sizes, send the same requests against
  the same book: what is asked for is bounded by the other order, the standing of its maker and the balance, never by what the own
  order still offers.\<close>

theorem match_ignores_own_size:
  assumes "or_sells mine = or_sells mine'" "or_price mine = or_price mine'" "or_margin mine = or_margin mine'"
  shows "match_candidates T my_xlm kek mine es st = match_candidates T my_xlm kek mine' es st"
proof (induction es arbitrary: st)
  case (Cons e es)
  obtain n asked p where "st = (n, asked, p)" by (cases st)
  moreover have "crosses mine x = crosses mine' x" for x using assms by (simp add: crosses_def)
  ultimately show ?case using Cons.IH by simp
qed simp

section \<open>A full table of acceptances\<close>

text \<open>An answer leaves the trades alone, or is an acceptance.\<close>

definition accepting :: "('w, 'e) dealer \<Rightarrow> string \<Rightarrow> fill_request \<Rightarrow> 'e book \<Rightarrow> bool res \<times> ('w, 'e) shop \<Rightarrow> bool" where
  "accepting T my_xlm q B out \<longleftrightarrow> b_trades (sh_book (snd out)) = b_trades B
     \<or> (\<exists>kek d schedule cnt opens s. sh_book s = B \<and> de_request d = q \<and> accept_fill T kek my_xlm d schedule cnt opens s = out)"

definition quiet :: "(('w, 'e) shop, 'a) act \<Rightarrow> bool" where
  "quiet m \<longleftrightarrow> (\<forall>s. sh_book (snd (m s)) = sh_book s)"

lemma quiet_calls: "quiet (calling m)" "quiet (mutual_scores_of T a)" "quiet (lift_res r)" "quiet (reading f)" "quiet (funds T a b)"
  unfolding quiet_def funds_def
  by (metis calling_book prod.collapse, metis scores_book prod.collapse, simp_all add: lift_res_def reading_def)
    (metis calling_book prod.collapse)

lemma accepting_bind:
  assumes "quiet m" "sh_book s = B" "\<And>x s1. sh_book s1 = B \<Longrightarrow> accepting T my_xlm q B (f x s1)"
  shows "accepting T my_xlm q B (bind_act m f s)"
proof -
  obtain r s1 where m: "m s = (r, s1)" by fastforce
  have b: "sh_book s1 = B" using assms(1,2) m by (metis quiet_def snd_conv)
  then show ?thesis using assms(3)[OF b] m by (cases r) (simp_all add: bind_act_def, simp add: accepting_def)
qed

lemma accepting_still: "b_trades (sh_book s1) = b_trades B \<Longrightarrow> accepting T my_xlm q B (return b s1) \<and> accepting T my_xlm q B (lift_res e s1)"
  by (simp add: accepting_def return_def lift_res_def)

definition same_trades :: "'e book \<Rightarrow> 'e book \<Rightarrow> bool" where
  "same_trades B B' \<longleftrightarrow> b_trades B' = b_trades B"

interpretation untraded: book_frame same_trades
  by unfold_locales (simp_all add: same_trades_def)

lemma accepting_decline: "sh_book s1 = B \<Longrightarrow> accepting T my_xlm q B (decline T kek d why s1)"
proof -
  assume b: "sh_book s1 = B"
  have "keeps (books same_trades) (decline T kek d why)"
    by (rule untraded.respond(2)) (auto intro!: keepsI simp: same_trades_def dest: store_response_trades)
  then show ?thesis using b by (simp add: accepting_def keeps_def books_def same_trades_def)
qed

lemma accepting_accept:
  "sh_book s1 = B \<Longrightarrow> de_request d = q \<Longrightarrow> accepting T my_xlm q B (accept_fill T kek my_xlm d schedule cnt opens s1)"
  unfolding accepting_def by blast

lemma accepting_settle:
  assumes "sh_book s = B" "de_request d = q"
  shows "accepting T my_xlm q B (settle_terms T kek my_xlm min_trust d scores schedule cnt s)"
  unfolding settle_terms_def
  by (intro accepting_bind[OF quiet_calls(5)] accepting_bind[OF quiet_calls(4)] assms)
    (simp_all add: accepting_decline accepting_accept accepting_still assms(2))

lemma accepting_size:
  assumes "sh_book s = B" "de_request d = q"
  shows "accepting T my_xlm q B (size_up T kek my_xlm min_trust d s)"
  unfolding size_up_def
  by (intro accepting_bind[OF quiet_calls(2)] assms)
    (auto split: sum.split exn.split prod.split simp: accepting_decline accepting_settle accepting_still assms(2))

lemma accepting_judge:
  assumes "sh_book s = B" "de_request d = q"
  shows "accepting T my_xlm q B (judge_fill T kek my_xlm min_trust d s)"
  unfolding judge_fill_def
  by (intro accepting_bind[OF quiet_calls(4)] assms)
    (auto split: sum.split exn.split simp: accepting_decline accepting_size accepting_still assms(2))

lemma answer_accepting:
  assumes "sh_book s = B"
  shows "accepting T my_xlm q B (answer_one T my_xlm dep min_trust r q s)"
  unfolding answer_one_def
proof (rule accepting_bind[OF quiet_calls(1) assms])
  fix x :: "string option \<times> string option" and s1 :: "('b, 'a) shop" assume b: "sh_book s1 = B"
  show "accepting T my_xlm q B ((case x of (kek, _) \<Rightarrow> (case kek of None \<Rightarrow> return False
     | Some k \<Rightarrow> bind_act (calling (dl_height T)) (\<lambda>h. bind_act (lift_res (xlm_for_lapse (rq_lapse_total q) (or_price r))) (\<lambda>x.
           judge_fill T k my_xlm min_trust \<lparr>de_order = r, de_request = q, de_height = h, de_depth = dep, de_xlm = x\<rparr>)))) s1)"
  proof (cases x)
    case (Pair kek seed)
    have "accepting T my_xlm q B (bind_act (calling (dl_height T)) (\<lambda>h. bind_act (lift_res (xlm_for_lapse (rq_lapse_total q) (or_price r))) (\<lambda>x.
           judge_fill T k my_xlm min_trust \<lparr>de_order = r, de_request = q, de_height = h, de_depth = dep, de_xlm = x\<rparr>)) s1)" for k
      by (intro accepting_bind[OF quiet_calls(1)] accepting_bind[OF quiet_calls(3)] b accepting_judge) simp_all
    then show ?thesis using b by (cases kek) (simp_all add: Pair accepting_still)
  qed
qed

definition same_rows :: "'e book \<Rightarrow> 'e book \<Rightarrow> bool" where
  "same_rows B B' \<longleftrightarrow> b_trades B' = b_trades B \<and> b_responses B' = b_responses B"

interpretation rows_kept: frame same_rows
  by unfold_locales (simp_all add: same_rows_def)

lemma create_step_rows: "keeps same_rows (create_step i)"
  by (rule keepsI) (auto simp: same_rows_def dest: create_step_effect)

lemma create_steps_rows: "create_steps k opens dl due schedule B = (r, B') \<Longrightarrow> same_rows B B'"
  by (rule keepsD[of same_rows "create_steps k opens dl due schedule"])
    (auto simp: create_steps_def intro!: rows_kept.for_each rows_kept.pair rows_kept.bind rows_kept.lift create_step_rows)

lemma respond_full:
  assumes run: "respond T kek (answer_dict T (de_order d) (de_request d) h dep x True (Some cnt) [] opens) s = (r, s')"
    and full: "check_fill_response_admission (sh_book s) (dl_pk_hex T) True = Inl e"
    and new: "\<not> has_key (b_responses (sh_book s)) (rq_id (de_request d))"
  shows "(\<exists>e. r = Inl e) \<and> sh_book s' = sh_book s"
proof (cases "dl_key T kek")
  case (Inl k)
  then show ?thesis using run by (auto simp: respond_def bind_act_def lift_res_def)
next
  case (Inr sk)
  let ?resp = "sign_fill_response (dl_deps T) sk (answer_dict T (de_order d) (de_request d) h dep x True (Some cnt) [] opens)"
  have ids: "text_of ?resp ''request_id'' = rq_id (de_request d)" "text_of ?resp ''maker_pubkey'' = dl_pk_hex T" "bool_of ?resp ''accepted''"
    by (simp_all add: sign_fill_response_def signed_with_def answer_dict_def build_fill_response_def text_of_def bool_of_def jget_def get_or_def)
  have st: "store_fill_response ?resp now (sh_book s) = (Inl e, sh_book s)" for now
    using full new by (simp add: store_fill_response_def ids)
  obtain t s1 where t: "calling (dl_time T) s = (t, s1)" by fastforce
  have b: "sh_book s1 = sh_book s" by (rule calling_book[OF t])
  have "on_book (store_fill_response ?resp now) s1 = (Inl e, s1)" for now
    using st[of now] b by (simp add: on_book_def)
  then show ?thesis using run t b Inr by (cases t) (auto simp: respond_def bind_lift bind_act_def[of "calling m" for m] bind_act_def[of "on_book m" for m])
qed

lemma accept_without_room:
  assumes run: "accept_fill T kek my_xlm d schedule cnt opens s = (res, s')"
    and full: "check_fill_response_admission (sh_book s) (dl_pk_hex T) True = Inl e"
    and new: "\<not> has_key (b_responses (sh_book s)) (rq_id (de_request d))" and changed: "b_trades (sh_book s') \<noteq> b_trades (sh_book s)"
  shows "res \<noteq> Inr True \<and> b_responses (sh_book s') = b_responses (sh_book s)
    \<and> (\<exists>now. map_of (b_trades (sh_book s')) (rq_session (de_request d)) = Some (maker_trade T my_xlm d cnt now))"
proof -
  obtain t s1 where t: "calling (dl_time T) s = (t, s1)" by fastforce
  have b: "sh_book s1 = sh_book s" by (rule calling_book[OF t])
  show ?thesis
  proof (cases t)
    case (Inl u)
    then show ?thesis using run t b changed by (simp add: accept_fill_def bind_act_def)
  next
    case now: (Inr now)
    obtain c s2 where c: "on_book (create_trade (maker_trade T my_xlm d cnt now)) s1 = (c, s2)" by fastforce
    have made: "create_trade (maker_trade T my_xlm d cnt now) (sh_book s) = (c, sh_book s2)" using on_book_book[OF c] b by simp
    show ?thesis
    proof (cases c)
      case (Inl u)
      then have "sh_book s2 = sh_book s" using create_trade_effect[OF made] by auto
      then show ?thesis using run t now c Inl changed by (simp add: accept_fill_def bind_act_def)
    next
      case made2: (Inr u)
      have s2: "sh_book s2 = sh_book s\<lparr>b_trades := b_trades (sh_book s) @ [(rq_session (de_request d), maker_trade T my_xlm d cnt now)]\<rparr>"
        "\<not> has_key (b_trades (sh_book s)) (rq_session (de_request d))"
        using created_trade[of "maker_trade T my_xlm d cnt now" "sh_book s" "sh_book s2"] made made2 by (simp_all add: maker_trade_def)
      obtain v s3 where v: "on_book (create_steps (rq_session (de_request d)) opens (now + of_int (step_timeout_seconds (de_depth d)))
          (deadline_height (de_height d) (de_depth d)) schedule) s2 = (v, s3)" by fastforce
      have kept: "same_rows (sh_book s2) (sh_book s3)" by (rule create_steps_rows[OF on_book_book[OF v]])
      obtain w s4 where w: "respond T kek (answer_dict T (de_order d) (de_request d) (de_height d) (de_depth d) (de_xlm d) True (Some cnt) [] opens) s3 = (w, s4)"
        by fastforce
      have "check_fill_response_admission (sh_book s3) (dl_pk_hex T) True = Inl e" "\<not> has_key (b_responses (sh_book s3)) (rq_id (de_request d))"
        using full new kept s2 by (simp_all add: check_fill_response_admission_def same_rows_def)
      from respond_full[OF w this] obtain e' where w': "w = Inl e'" "sh_book s4 = sh_book s3" by blast
      have "(\<exists>e. res = Inl e) \<and> sh_book s' = sh_book s3"
        using run t now c made2 v w w' by (cases v) (simp_all add: accept_fill_def bind_act_def, metis+)
      moreover have "b_responses (sh_book s3) = b_responses (sh_book s)" "map_of (b_trades (sh_book s3)) (rq_session (de_request d)) = Some (maker_trade T my_xlm d cnt now)"
        using kept s2 by (simp_all add: same_rows_def map_add_def has_key_map_of)
      ultimately show ?thesis by auto
    qed
  qed
qed


section \<open>A trade without steps\<close>

lemma int_columns_over: "\<not> (- (2 ^ 63) \<le> n \<and> n < 2 ^ 63) \<Longrightarrow> int_columns (ns @ [n]) = Inl OverflowError"
proof (induction ns)
  case (Cons a ns)
  then show ?case by (cases "map_res db_int64 (ns @ [n])"; cases "db_int64 a") (auto simp: int_columns_def db_int64_def split: if_splits)
qed (auto simp: int_columns_def db_int64_def)

lemma schedule_nonempty: "build_schedule l x n = Inr schedule \<Longrightarrow> schedule \<noteq> []"
  by (auto simp: build_schedule_def Let_def split_total_def split: if_splits)

lemma steps_overflow:
  assumes "schedule \<noteq> []" "due \<ge> 2 ^ 63"
  shows "create_steps k opens dl due schedule B = (Inl OverflowError, B)"
proof -
  obtain a rest where s: "schedule = a # rest" using assms(1) by (cases schedule) auto
  have "numbered schedule = (1, a) # zip (map int [Suc (Suc 0)..<Suc (length schedule)]) rest"
    by (simp add: numbered_def s upt_conv_Cons del: upt_Suc)
  moreover have "create_step (new_step k 1 a first dl due) B = (Inl OverflowError, B)" for first
    using int_columns_over[of due "[fst a, snd a]"] assms(2) by (simp add: create_step_def new_step_def)
  ultimately show ?thesis
    by (simp add: create_steps_def i_move_first_def bind_lift bind_act_def[of "create_step i" for i] bind_act_def[of "bind_act m f" for m f])
qed

text \<open>C30: A maker that signs a height so large that the first deadline leaves 64 bits makes the taker write the trade and fail on its
  first step. The trade stays behind, active and without steps, and the next pass of the worker finds none left to do and marks it
  completed: a trade on the maker's record that nobody paid for.\<close>

theorem huge_height_completes_an_unpaid_trade:
  assumes run: "check_response T dep q s = (res, s')" and changed: "sh_book s' \<noteq> sh_book s" and book: "owned_steps (sh_book s)"
    and resp: "get_fill_response (sh_book s) (rq_id q) = Some resp" "rs_height resp + rs_depth resp * 6 \<ge> 2 ^ 63"
  shows "res = Inl OverflowError \<and> b_steps (sh_book s') = b_steps (sh_book s)
    \<and> (case map_of (b_trades (sh_book s')) (rq_session q) of None \<Rightarrow> False
       | Some k \<Rightarrow> (\<forall>G w now w'. g_time G w = (Inr now, w') \<longrightarrow>
           fst (advance G k \<lparr>d_trades = b_trades (sh_book s'), d_steps = b_steps (sh_book s'), d_out = w\<rparr>)
             = Inr (k\<lparr>tr_status := TradeCompleted, updated_at := now, stalled_since := 0\<rparr>, None)))"
  using run
proof (cases rule: check_response_cases)
  case (2 resp' r x schedule s1)
  have due: "deadline_height (rs_height resp) (rs_depth resp) \<ge> 2 ^ 63"
    using resp(2) by (simp add: deadline_height_def step_timeout_blocks_def STEP_TIMEOUT_MULTIPLIER_def)
  have ne: "schedule \<noteq> []" using 2(4) schedule_nonempty by (auto simp: capped_schedule_def)
  have eq: "resp' = resp" using 2(1) resp by simp
  note wr = 2(6)[unfolded eq]
  obtain t s2 where t: "calling (dl_time T) s1 = (t, s2)" by fastforce
  have b: "sh_book s2 = sh_book s" using calling_book[OF t] 2(5) by simp
  show ?thesis
  proof (cases t)
    case (Inl u)
    then show ?thesis using wr t b changed by (simp add: write_taker_trade_def bind_act_def)
  next
    case now: (Inr now)
    let ?t = "taker_trade T q resp r x now"
    obtain c s3 where c: "on_book (create_trade ?t) s2 = (c, s3)" by fastforce
    have made: "create_trade ?t (sh_book s) = (c, sh_book s3)" using on_book_book[OF c] b by simp
    show ?thesis
    proof (cases c)
      case (Inl u)
      then have "sh_book s3 = sh_book s" using create_trade_effect[OF made] by auto
      then show ?thesis using wr t now c Inl changed by (simp add: write_taker_trade_def bind_act_def)
    next
      case made2: (Inr u)
      have s3: "sh_book s3 = sh_book s\<lparr>b_trades := b_trades (sh_book s) @ [(rq_session q, ?t)]\<rparr>" "\<not> has_key (b_trades (sh_book s)) (rq_session q)"
        using created_trade[of ?t "sh_book s" "sh_book s3"] made made2 by (simp_all add: taker_trade_def)
      have "on_book (create_steps (rq_session q) (\<not> rs_maker_opens resp) (now + of_int (step_timeout_seconds dep))
          (deadline_height (rs_height resp) (rs_depth resp)) schedule) s3 = (Inl OverflowError, s3)"
        by (simp add: on_book_def steps_overflow[OF ne due])
      then have out: "res = Inl OverflowError" "s' = s3"
        using wr t now c made2 by (simp_all add: write_taker_trade_def bind_act_def)
      have none: "filter (\<lambda>((k, _), _). k = rq_session q) (b_steps (sh_book s)) = []"
        using book s3(2) by (auto simp: filter_empty_conv owned_steps_def list_all_iff)
      have adv: "fst (advance G ?t \<lparr>d_trades = b_trades (sh_book s'), d_steps = b_steps (sh_book s'), d_out = w\<rparr>)
             = Inr (?t\<lparr>tr_status := TradeCompleted, updated_at := now', stalled_since := 0\<rparr>, None)"
        if "g_time G w = (Inr now', w')" for G w now' w'
        using that none
        by (simp add: advance_def steps_of_def complete_def taker_trade_def bind_act_def outside_def saved_trade_def save_trade_def modify_def
            return_def out s3)
      have row: "map_of (b_trades (sh_book s')) (rq_session q) = Some ?t" using out s3 by (simp add: map_add_def has_key_map_of)
      have "b_steps (sh_book s') = b_steps (sh_book s)" using out s3 by simp
      then show ?thesis unfolding row option.case using out(1) adv by blast
    qed
  qed
qed (use changed in simp)

section \<open>Instances of the failures\<close>

lemma demo_offer_row: "or_id demo_offer = ''o1''"
  by (simp add: demo_offer_def demo_order_row_def)

lemma demo_all_left: "remaining_ticks demo_deps (sh_book (demo_shop None)) demo_offer 100 = 1000"
  by code_simp

lemma demo_fields_more: "dl_deps (demo_dealer c) = demo_deps" "dl_pk_hex (demo_dealer c) = ''01''"
  by (simp_all add: demo_dealer_def)

text \<open>An order of 1000 of which 1000 were just accepted still has 1000 left.\<close>

theorem acceptance_reserves_nothing_at_home_witness:
  "remaining_ticks demo_deps (sh_book demo_accepted) demo_offer 100 = 1000
   \<and> fst (answer_one (demo_dealer CHR ''a'') ''GA'' 2 (Some 0) demo_offer demo_ask (demo_shop None)) = Inr True"
proof -
  have a: "answer_one (demo_dealer CHR ''a'') ''GA'' 2 (Some 0) demo_offer demo_ask (demo_shop None) = (Inr True, demo_accepted)"
    using demo_accepts by (simp add: demo_accepted_def prod_eq_iff)
  have n: "\<not> settled_already demo_ask (sh_book (demo_shop None))"
    by (simp add: settled_already_def demo_shop_fields has_key_def get_fill_response_def) (simp add: demo_shop_def)
  show ?thesis
    using acceptance_reserves_nothing_at_home[OF a demo_shop_fields(4) demo_shop_fields(3)[folded demo_offer_row] n, of 100]
      demo_all_left demo_accepts by (simp add: demo_fields_more)
qed

definition demo_small :: order where
  "demo_small = demo_order_row\<lparr>or_id := ''o2'', or_maker := demo_addr CHR ''b'', or_sells := False, or_price := 1000000, or_total := 1\<rparr>"

definition demo_asked :: "order \<Rightarrow> int list" where
  "demo_asked mine = map (\<lambda>(_, q). rq_lapse_total q) (b_requests (sh_book (snd (match_candidates (demo_dealer CHR ''b'') ''GB'' ''kek'' mine
     [(demo_offer, 1000)] (0, [], (0, 0)) ((demo_shop None)\<lparr>sh_book := (sh_book (demo_shop None))\<lparr>b_requests := []\<rparr>\<rparr>)))))"

lemma demo_asked_large: "demo_asked (demo_small\<lparr>or_total := 1000\<rparr>) = [1000]"
  by code_simp

text \<open>An own order over 1 makes this node ask for 1000.\<close>

theorem match_ignores_own_size_witness: "or_total demo_small = 1 \<and> demo_asked demo_small = [1000]"
  using demo_asked_large match_ignores_own_size[of demo_small "demo_small\<lparr>or_total := 1000\<rparr>" "demo_dealer CHR ''b''" "''GB''" "''kek''"
    "[(demo_offer, 1000)]" "(0, [], (0, 0))"]
  by (simp add: demo_asked_def) (simp add: demo_small_def)

definition demo_full :: "(unit, string) shop" where
  "demo_full = (demo_shop None)\<lparr>sh_book := (sh_book (demo_shop None))\<lparr>b_responses := replicate 500 (''x'', demo_sent\<lparr>rs_order := ''o9''\<rparr>)\<rparr>\<rparr>"

definition demo_run :: "bool res \<times> (unit, string) shop" where
  "demo_run = answer_one (demo_dealer CHR ''a'') ''GA'' 2 (Some 0) demo_offer demo_ask demo_full"

lemma demo_full_fields: "b_trades (sh_book demo_full) = []" "b_steps (sh_book demo_full) = []"
  "get_order (sh_book demo_full) ''o1'' = Some demo_offer" "b_responses (sh_book demo_full) = replicate 500 (''x'', demo_sent\<lparr>rs_order := ''o9''\<rparr>)"
  by (simp_all add: demo_full_def demo_shop_def get_order_def)

lemma rows_replicate: "rows (replicate n (k, r)) = replicate n r"
  by (simp add: rows_def)

lemma demo_sent_fields: "rs_maker_pubkey demo_sent = ''01''" "rs_accepted demo_sent"
  by code_simp+

lemma demo_full_cap: "check_fill_response_admission (sh_book demo_full) ''01'' True = Inl (FillResponseRejected ''this signer already has too many responses here'')"
  by (simp add: check_fill_response_admission_def demo_full_fields rows_replicate market_caps demo_sent_fields require_def)

lemma demo_full_new: "\<not> settled_already demo_ask (sh_book demo_full)"
  by (simp add: settled_already_def demo_full_fields get_fill_response_def demo_ask_fields has_key_def map_of_eq_None_iff)

lemma demo_full_fits: "validate_fill demo_deps (sh_book demo_full) demo_offer 1000 100 (Some (demo_addr CHR ''b'')) = Inr ()"
proof -
  have "reserved_ticks demo_deps (sh_book demo_full) ''o1'' 100 = 0"
    by (simp add: reserved_ticks_def demo_full_fields rows_replicate reserves_def demo_offer_row)
  then show ?thesis
    by (simp add: validate_fill_def remaining_ticks_def delivered_ticks_def demo_full_fields demo_offer_row require_def)
      (simp add: demo_offer_def demo_order_row_def)
qed

lemma demo_fill_plan: "map_sum (\<lambda>_. ()) (\<lambda>_. ()) (plan_mutual (\<lambda>x. x) 1000 10 0 0 DEFAULT_STRANGER_CAP_STROOPS None None) = Inr ()"
  "xlm_for_lapse 1000 1000000 = Inr 10"
  by code_simp+

lemma accept_writes_trade:
  assumes "calling (dl_time T) s = (Inr now, s)" "create_trade (maker_trade T my_xlm d cnt now) (sh_book s) = (Inr (), B)"
  shows "b_trades (sh_book (snd (accept_fill T kek my_xlm d schedule cnt opens s))) = b_trades B"
proof -
  have "keeps same_trades (create_steps k o' dl due sch)" for k o' dl due sch
    by (rule keepsI) (use create_steps_rows in \<open>fastforce simp: same_rows_def same_trades_def\<close>)
  moreover have "keeps same_trades (store_fill_response x now)" for x now
    by (rule keepsI) (auto simp: same_trades_def dest: store_response_trades)
  ultimately have "keeps (books same_trades) (bind_act (on_book (create_steps k o' dl due sch)) (\<lambda>_. bind_act (respond T kek resp) (\<lambda>_. return True)))"
    for k o' dl due sch resp
    by (intro untraded.bind untraded.on_book untraded.respond untraded.return)
  moreover have "on_book (create_trade (maker_trade T my_xlm d cnt now)) s = (Inr (), s\<lparr>sh_book := B\<rparr>)"
    using assms(2) by (simp add: on_book_def)
  ultimately show ?thesis using assms(1) by (simp add: accept_fill_def bind_Inr keeps_def books_def same_trades_def)
qed

lemma demo_calls: "dl_secrets (demo_dealer c) = return (Some ''kek'', None)" "dl_height (demo_dealer c) = return 100"
  "dl_sqroot (demo_dealer c) = (\<lambda>x. x)" "dl_scores (demo_dealer c) = (\<lambda>_ _. return (0, 0))"
  "dl_lapse_balance (demo_dealer c) = (\<lambda>_. return 1500)"
  by (simp_all add: demo_dealer_def)

lemma same_out: "s\<lparr>sh_out := ()\<rparr> = (s :: (unit, string) shop)"
  by simp

lemma demo_stranded: "b_trades (sh_book (snd demo_run)) \<noteq> []"
proof -
  obtain schedule cnt cap where p: "plan_mutual (\<lambda>x. x) 1000 10 0 0 DEFAULT_STRANGER_CAP_STROOPS None None = Inr (schedule, cnt, cap)"
    using demo_fill_plan(1) by (cases "plan_mutual (\<lambda>x. x) 1000 10 0 0 DEFAULT_STRANGER_CAP_STROOPS None None") auto
  have "1 \<le> cnt" "cnt \<le> 10" using plan_mutual_schedule[OF p] by (auto simp: build_schedule_def split: if_splits)
  then have cnt: "int_columns [1000, 10, cnt, 2, 100] = Inr ()" by (simp add: int_columns_def db_int64_def)
  let ?d = "\<lparr>de_order = demo_offer, de_request = demo_ask, de_height = 100, de_depth = 2, de_xlm = 10\<rparr>"
  have ask: "rq_lapse_total demo_ask = 1000" "or_price demo_offer = 1000000" "or_sells demo_offer" "below_floor (Some 0) (0::rat) = False"
    by (simp_all add: demo_ask_def demo_offer_def demo_order_row_def below_floor_def)
  have owed: "pending_send_total True (sh_book demo_full) = 0" by (simp add: pending_send_total_def demo_full_fields)
  let ?opens = "\<not> opening_mover 0 0 (demo_addr CHR ''b'') (demo_addr CHR ''a'')"
  have run: "demo_run = accept_fill (demo_dealer CHR ''a'') ''kek'' ''GA'' ?d schedule cnt ?opens demo_full"
    by (simp add: demo_run_def answer_one_def judge_fill_def size_up_def settle_terms_def funds_def mutual_scores_of_def bind_act_def
        calling_def reading_def lift_res_def demo_calls demo_fields_more return_def ask demo_ask_fields demo_fill_plan(2) demo_full_fits p owed same_out)
  have "create_trade (maker_trade (demo_dealer CHR ''a'') ''GA'' ?d cnt 7) (sh_book demo_full)
      = (Inr (), sh_book demo_full\<lparr>b_trades := [(''5e55'', maker_trade (demo_dealer CHR ''a'') ''GA'' ?d cnt 7)]\<rparr>)"
    by (simp add: create_trade_def maker_trade_def cnt ask demo_ask_fields demo_full_fields has_key_def)
  moreover have "calling (dl_time (demo_dealer CHR ''a'')) demo_full = (Inr 7, demo_full)"
    by (simp add: calling_def demo_dealer_def return_def)
  ultimately show ?thesis unfolding run by (simp add: accept_writes_trade)
qed


definition demo_plain :: "(unit, string) dealer" where
  "demo_plain = (demo_dealer CHR ''b'')\<lparr>dl_deps := demo_deps\<lparr>dp_prims := demo_prims\<lparr>dumps := (\<lambda>_. ''x'')\<rparr>\<rparr>\<rparr>"

definition demo_huge :: fill_response where
  "demo_huge = demo_sent\<lparr>rs_height := 2 ^ 63 - 5\<rparr>"

definition demo_empty_trade :: "(unit, string) shop" where
  "demo_empty_trade = snd (check_response demo_plain 2 demo_ask (demo_shop (Some demo_huge)))"

lemma demo_empty_trade_keys: "map fst (b_trades (sh_book demo_empty_trade)) = [''5e55'']" "rs_id demo_huge = ''r1''"
  "rs_height demo_huge + rs_depth demo_huge * 6 \<ge> 2 ^ 63"
  by code_simp+

theorem huge_height_completes_an_unpaid_trade_witness:
  "fst (check_response demo_plain 2 demo_ask (demo_shop (Some demo_huge))) = Inl OverflowError \<and> b_steps (sh_book demo_empty_trade) = []"
proof -
  have g: "get_fill_response (sh_book (demo_shop (Some demo_huge))) (rq_id demo_ask) = Some demo_huge"
    by (simp add: get_fill_response_def demo_shop_def demo_empty_trade_keys demo_ask_fields)
  have "b_trades (sh_book demo_empty_trade) \<noteq> []" using demo_empty_trade_keys(1) by auto
  then have c: "sh_book demo_empty_trade \<noteq> sh_book (demo_shop (Some demo_huge))" by (metis demo_shop_fields(1))
  have r: "check_response demo_plain 2 demo_ask (demo_shop (Some demo_huge))
      = (fst (check_response demo_plain 2 demo_ask (demo_shop (Some demo_huge))), demo_empty_trade)" by (simp add: demo_empty_trade_def)
  show ?thesis
    using huge_height_completes_an_unpaid_trade[OF r c demo_shop_fields(4) g demo_empty_trade_keys(3)] unfolding demo_shop_fields by blast
qed

end
