(* ===== verification/Trust.thy ===== *)
theory Trust
  imports Overreach Storage
begin

text \<open>
  \<^verbatim>\<open>src/src/trust.py\<close> and the ticker of \<^verbatim>\<open>src/src/market.py\<close>: the standing of an address, from this node's own trades with
  it and from the accepted pairs on file, each checked against both chains, weighed by the age and the balance of the address. The
  square root, the logarithm and the power of one half are parameters; ages and scores are rationals, and an age of infinity is None.
  The view of the chain, the storage, the two chains of the swap engine and the clock are calls on the outside.
\<close>

section \<open>Constants\<close>

definition DECAY_HALFLIFE_SECONDS :: int where "DECAY_HALFLIFE_SECONDS = 90 * 86400"
definition AGE_FLOOR_BLOCKS :: rat where "AGE_FLOOR_BLOCKS = 720"
definition AGE_FULL_BLOCKS :: rat where "AGE_FULL_BLOCKS = 21600"
definition STAKE_FULL_TICKS :: int where "STAKE_FULL_TICKS = 100 * 100000000"
definition STAKE_MIN_TICKS :: int where "STAKE_MIN_TICKS = 5 * 100000000"
definition SEASONING_FLOOR_BLOCKS :: rat where "SEASONING_FLOOR_BLOCKS = AGE_FLOOR_BLOCKS"
definition SEASONING_SIGNIFICANCE_TICKS :: int where "SEASONING_SIGNIFICANCE_TICKS = 100000000 div 100"
definition SEASONING_SCAN_LIMIT :: nat where "SEASONING_SCAN_LIMIT = 50"
definition HISTORY_SATURATION_CEILING :: rat where "HISTORY_SATURATION_CEILING = 50"
definition STANDING_WEIGHT :: rat where "STANDING_WEIGHT = 3 / 10"
definition MAX_CHAIN_CHECKS_PER_LOOKUP :: nat where "MAX_CHAIN_CHECKS_PER_LOOKUP = 20"

section \<open>Scoring\<close>

text \<open>\<^verbatim>\<open>math.sqrt\<close>, \<^verbatim>\<open>math.log1p\<close> and \<^verbatim>\<open>0.5 ** x\<close>.\<close>

record fmath =
  fm_sqrt :: "rat \<Rightarrow> rat"
  fm_log1p :: "rat \<Rightarrow> rat"
  fm_half :: "rat \<Rightarrow> rat"

definition counted :: "(int \<times> int) list \<Rightarrow> (int \<times> int) list" where
  "counted per_counterparty = filter (\<lambda>(_, n). n > 0) per_counterparty"

definition relationship :: "fmath \<Rightarrow> int \<times> int \<Rightarrow> rat" where
  "relationship F p = fm_sqrt F (of_int (max (fst p) 0) / of_int TICKS_PER_LAPSE) * fm_log1p F (of_int (snd p))"

definition history_component :: "fmath \<Rightarrow> (int \<times> int) list \<Rightarrow> rat \<Rightarrow> rat \<Rightarrow> rat" where
  "history_component F per_counterparty last_completed_at now =
     (if counted per_counterparty = [] then 0
      else min (sum_list (map (relationship F) (counted per_counterparty))
                  * fm_half F (max (now - last_completed_at) 0 / of_int DECAY_HALFLIFE_SECONDS))
               HISTORY_SATURATION_CEILING)"

definition below :: "rat option \<Rightarrow> rat \<Rightarrow> bool" where
  "below since n = (case since of None \<Rightarrow> False | Some k \<Rightarrow> k < n)"

definition balance_factor :: "int \<Rightarrow> rat option \<Rightarrow> rat" where
  "balance_factor balance_ticks since =
     (if below since SEASONING_FLOOR_BLOCKS then 0
      else if balance_ticks < STAKE_MIN_TICKS then 0
      else min (of_int (balance_ticks - STAKE_MIN_TICKS) / of_int (max (STAKE_FULL_TICKS - STAKE_MIN_TICKS) 1)) 1)"

definition stake_component :: "rat \<Rightarrow> int \<Rightarrow> rat option \<Rightarrow> rat" where
  "stake_component age balance_ticks since =
     (if age < AGE_FLOOR_BLOCKS then 0
      else min ((age - AGE_FLOOR_BLOCKS) / max (AGE_FULL_BLOCKS - AGE_FLOOR_BLOCKS) 1) 1 * balance_factor balance_ticks since)"

definition score :: "fmath \<Rightarrow> (int \<times> int) list \<Rightarrow> int \<Rightarrow> rat \<Rightarrow> rat \<Rightarrow> int \<Rightarrow> rat option \<Rightarrow> rat \<Rightarrow> rat" where
  "score F per_counterparty abandoned_count last_completed_at age balance_ticks since now =
     (if abandoned_count > 0 then 0
      else STANDING_WEIGHT * stake_component age balance_ticks since
         + history_component F per_counterparty last_completed_at now * stake_component age balance_ticks since)"

section \<open>This node's own trades\<close>

definition steps_on :: "'e book \<Rightarrow> string \<Rightarrow> 'e increment list" where
  "steps_on B session = sort_key inc_n (filter (\<lambda>i. inc_session i = session) (rows (b_steps B)))"

record tally =
  ta_count :: int
  ta_lapse :: int
  ta_last :: rat
  ta_abandoned :: int
  ta_abandoned_at :: rat
  ta_session :: string

definition latest :: "rat list \<Rightarrow> rat" where
  "latest ts = (if ts = [] then 0 else Max (set ts))"

definition completed_with :: "'e book \<Rightarrow> string \<Rightarrow> trade list" where
  "completed_with B addr = filter (\<lambda>t. peer_lapse_addr t = addr \<and> tr_status t = TradeCompleted) (rows (b_trades B))"

definition delinquent_with :: "'e book \<Rightarrow> string \<Rightarrow> int option \<Rightarrow> trade list" where
  "delinquent_with B addr current_height = (case current_height of
     None \<Rightarrow> []
   | Some h \<Rightarrow> filter (\<lambda>t. is_delinquent t (steps_on B (tr_session t)) h)
       (sort_key (\<lambda>t. - updated_at t) (filter (\<lambda>t. peer_lapse_addr t = addr \<and> tr_status t = TradeStalled) (rows (b_trades B)))))"

definition local_tally :: "'e book \<Rightarrow> string \<Rightarrow> int option \<Rightarrow> tally" where
  "local_tally B addr current_height =
     \<lparr>ta_count = int (length (completed_with B addr)), ta_lapse = sum_list (map lapse_total (completed_with B addr)),
      ta_last = latest (map updated_at (completed_with B addr)),
      ta_abandoned = int (length (delinquent_with B addr current_height)),
      ta_abandoned_at = (case delinquent_with B addr current_height of [] \<Rightarrow> 0 | t # _ \<Rightarrow> updated_at t),
      ta_session = (case delinquent_with B addr current_height of [] \<Rightarrow> [] | t # _ \<Rightarrow> tr_session t)\<rparr>"

section \<open>The node that asks\<close>

text \<open>The published view of the chain.\<close>

record node_view =
  nv_chain :: blocks
  nv_height :: int
  nv_state :: state

record ('w, 'e) observer =
  ob_deps :: deps
  ob_fmath :: fmath
  ob_addr :: string
  ob_engine :: "('w, 'e) engine"
  ob_view :: "('w, node_view) act"
  ob_storage :: "('w, storage) act"
  ob_time :: "('w, rat) act"

section \<open>Trades of others, checked against both chains\<close>

record net_tally =
  nt_abandoned :: int
  nt_by :: "(string, int \<times> int) dict"
  nt_last :: rat
  nt_abandoned_at :: rat
  nt_session :: string

definition no_tally :: net_tally where
  "no_tally = \<lparr>nt_abandoned = 0, nt_by = [], nt_last = 0, nt_abandoned_at = 0, nt_session = []\<rparr>"

text \<open>An unreachable chain is caught.\<close>

definition if_reachable :: "('w, 'a) act \<Rightarrow> ('w, 'a option) act" where
  "if_reachable m = (\<lambda>w. case m w of
     (Inl e, w') \<Rightarrow> (if e = Unreachable then Inr None else Inl e, w') | (Inr x, w') \<Rightarrow> (Inr (Some x), w'))"

definition note_settled :: "fill_response \<Rightarrow> string \<Rightarrow> nat \<Rightarrow> net_tally \<Rightarrow> net_tally res" where
  "note_settled r counterparty settled N =
     (if settled = 0 then Inr N
      else rbind (build_schedule (rs_lapse_total r) (rs_xlm_total r) (rs_count r)) (\<lambda>schedule.
        Inr (N\<lparr>nt_by := AList.update counterparty
                 (fst (get_or (nt_by N) counterparty (0, 0)) + sum_list (map fst (take settled schedule)),
                  snd (get_or (nt_by N) counterparty (0, 0)) + 1) (nt_by N),
               nt_last := max (nt_last N) (rs_received_at r)\<rparr>)))"

definition note_fault :: "string \<Rightarrow> fill_request \<Rightarrow> fill_response \<Rightarrow> string option \<Rightarrow> net_tally \<Rightarrow> net_tally" where
  "note_fault addr q r at_fault N =
     (if at_fault \<noteq> Some addr then N
      else if rs_received_at r \<ge> nt_abandoned_at N
      then N\<lparr>nt_abandoned := nt_abandoned N + 1, nt_abandoned_at := rs_received_at r, nt_session := rq_session q\<rparr>
      else N\<lparr>nt_abandoned := nt_abandoned N + 1\<rparr>)"

definition check_pair :: "('w, 'e) observer \<Rightarrow> string \<Rightarrow> fill_request \<Rightarrow> fill_response \<Rightarrow> net_tally \<Rightarrow> ('w, net_tally) act" where
  "check_pair Q addr q r N = (case address_of (dp_prims (ob_deps Q)) (rs_maker_pubkey r) of
     Inl _ \<Rightarrow> return N
   | Inr maker_addr \<Rightarrow>
       bind_act (if_reachable (verify_trade_against_chain (dp_prims (ob_deps Q)) (ob_engine Q) q r)) (\<lambda>verdict. case verdict of
         None \<Rightarrow> return N
       | Some (settled, _, at_fault) \<Rightarrow>
           bind_act (lift_res (note_settled r (if addr = maker_addr then taker_lapse_addr q else maker_addr) settled N))
             (\<lambda>N1. return (note_fault addr q r at_fault N1))))"

fun check_pairs :: "('w, 'e) observer \<Rightarrow> string \<Rightarrow> string list \<Rightarrow> (fill_request \<times> fill_response) list \<Rightarrow> nat \<Rightarrow> net_tally
    \<Rightarrow> ('w, net_tally) act" where
  "check_pairs Q addr known [] checked N = return N"
| "check_pairs Q addr known ((q, r) # rest) checked N =
     (if rq_session q \<in> set known then check_pairs Q addr known rest checked N
      else if checked \<ge> MAX_CHAIN_CHECKS_PER_LOOKUP then return N
      else bind_act (check_pair Q addr q r N) (check_pairs Q addr known rest (checked + 1)))"

definition sessions_with :: "'e book \<Rightarrow> string \<Rightarrow> string list" where
  "sessions_with B addr = map tr_session (filter (\<lambda>t. peer_lapse_addr t = addr) (rows (b_trades B)))"

definition network_tally_by_counterparty :: "('w, 'e) observer \<Rightarrow> 'e book \<Rightarrow> string \<Rightarrow> ('w, net_tally) act" where
  "network_tally_by_counterparty Q B addr =
     check_pairs Q addr (sessions_with B addr) (accepted_fills_for_addr (ob_deps Q) B addr) 0 no_tally"

section \<open>Standing\<close>

text \<open>The clock is read only when there is a settled trade to age.\<close>

definition history_at :: "('w, 'e) observer \<Rightarrow> (int \<times> int) list \<Rightarrow> rat \<Rightarrow> rat option \<Rightarrow> ('w, rat) act" where
  "history_at Q per_counterparty last_completed_at now =
     (if counted per_counterparty = [] then return 0
      else case now of
        Some t \<Rightarrow> return (history_component (ob_fmath Q) per_counterparty last_completed_at t)
      | None \<Rightarrow> bind_act (ob_time Q) (\<lambda>t. return (history_component (ob_fmath Q) per_counterparty last_completed_at t)))"

definition score_at :: "('w, 'e) observer \<Rightarrow> (int \<times> int) list \<Rightarrow> int \<Rightarrow> rat \<Rightarrow> rat \<Rightarrow> int \<Rightarrow> rat option \<Rightarrow> rat option \<Rightarrow> ('w, rat) act" where
  "score_at Q per_counterparty abandoned_count last_completed_at age balance_ticks since now =
     (if abandoned_count > 0 then return 0
      else bind_act (history_at Q per_counterparty last_completed_at now) (\<lambda>history.
        return (STANDING_WEIGHT * stake_component age balance_ticks since + history * stake_component age balance_ticks since)))"

record standing =
  sd_score :: rat
  sd_completed :: int
  sd_lapse :: int
  sd_net_completed :: int
  sd_net_abandoned :: int
  sd_distinct :: int
  sd_abandoned :: int
  sd_last :: rat
  sd_abandoned_at :: rat
  sd_session :: string
  sd_history :: rat
  sd_stake :: rat
  sd_known :: bool
  sd_per :: "(int \<times> int) list"

definition own_entry :: "tally \<Rightarrow> (int \<times> int) list" where
  "own_entry L = (if ta_count L > 0 then [(ta_lapse L, ta_count L)] else [])"

text \<open>The dict at the end, once both tallies are there.\<close>

definition weigh :: "('w, 'e) observer \<Rightarrow> rat \<Rightarrow> int \<Rightarrow> rat option \<Rightarrow> rat option \<Rightarrow> tally \<Rightarrow> net_tally \<Rightarrow> ('w, standing) act" where
  "weigh Q age balance_ticks since now L N =
     bind_act (history_at Q (own_entry L @ map snd (nt_by N)) (max (ta_last L) (nt_last N)) now) (\<lambda>history.
     bind_act (score_at Q (own_entry L @ map snd (nt_by N)) (ta_abandoned L + nt_abandoned N) (max (ta_last L) (nt_last N))
         age balance_ticks since now) (\<lambda>s.
       return \<lparr>sd_score = s, sd_completed = ta_count L + sum_list (map (snd \<circ> snd) (nt_by N)),
         sd_lapse = ta_lapse L + sum_list (map (fst \<circ> snd) (nt_by N)), sd_net_completed = sum_list (map (snd \<circ> snd) (nt_by N)),
         sd_net_abandoned = nt_abandoned N, sd_distinct = int (length (own_entry L @ map snd (nt_by N))),
         sd_abandoned = ta_abandoned L + nt_abandoned N, sd_last = max (ta_last L) (nt_last N),
         sd_abandoned_at = (if nt_abandoned_at N \<ge> ta_abandoned_at L then nt_abandoned_at N else ta_abandoned_at L),
         sd_session = (if nt_abandoned_at N \<ge> ta_abandoned_at L then nt_session N else ta_session L),
         sd_history = history, sd_stake = stake_component age balance_ticks since,
         sd_known = (ta_count L \<noteq> 0 \<or> ta_abandoned L \<noteq> 0 \<or> nt_abandoned N \<noteq> 0 \<or> sum_list (map (snd \<circ> snd) (nt_by N)) \<noteq> 0),
         sd_per = own_entry L @ map snd (nt_by N)\<rparr>))"

text \<open>With the node, as every caller in the sources asks, and without it.\<close>

definition get_detail :: "('w, 'e) observer \<Rightarrow> 'e book \<Rightarrow> string \<Rightarrow> rat \<Rightarrow> int \<Rightarrow> rat option \<Rightarrow> rat option \<Rightarrow> ('w, standing) act" where
  "get_detail Q B addr age balance_ticks since now =
     bind_act (ob_view Q) (\<lambda>v.
     bind_act (network_tally_by_counterparty Q B addr) (\<lambda>N.
       weigh Q age balance_ticks since now (local_tally B addr (Some (nv_height v))) N))"

definition get_detail_alone :: "('w, 'e) observer \<Rightarrow> 'e book \<Rightarrow> string \<Rightarrow> rat \<Rightarrow> int \<Rightarrow> rat option \<Rightarrow> rat option \<Rightarrow> ('w, standing) act" where
  "get_detail_alone Q B addr age balance_ticks since now = weigh Q age balance_ticks since now (local_tally B addr None) no_tally"

section \<open>Facts of the chain\<close>

definition tip_height :: "blocks \<Rightarrow> rat res" where
  "tip_height chain = (if chain = [] then Inl IndexError else read_num ''height'' (last chain))"

definition address_age_blocks :: "('w, 'e) observer \<Rightarrow> string \<Rightarrow> ('w, rat) act" where
  "address_age_blocks Q addr =
     bind_act (ob_storage Q) (\<lambda>st.
       if get_tx_heights_for_addr st addr = [] then return 0
       else bind_act (ob_view Q) (\<lambda>v. bind_act (lift_res (tip_height (nv_chain v))) (\<lambda>tip.
         return (max (tip - of_int (Min (set (map fst (get_tx_heights_for_addr st addr))))) 0))))"

fun credit_in :: "string \<Rightarrow> json \<Rightarrow> int res" where
  "credit_in addr (JObj d) = (if jget d ''to'' = JStr addr then read_int ''amount'' d else Inr 0)"
| "credit_in addr _ = Inl AttributeError"

definition paid_to :: "string \<Rightarrow> tx \<Rightarrow> int res" where
  "paid_to addr t = rbind (iter_json (get_or t ''outputs'' (JArr []))) (\<lambda>outs.
     rbind (map_res (credit_in addr) outs) (\<lambda>ns. Inr (sum_list ns)))"

text \<open>The entries of the index, each looked up in the chain: the first whose transaction passes the test.\<close>

fun has_tx :: "prims \<Rightarrow> (tx \<Rightarrow> bool res) \<Rightarrow> string \<Rightarrow> json list \<Rightarrow> bool res" where
  "has_tx P p h [] = Inr False"
| "has_tx P p h (JObj t # ts) =
     (if tx_hash P t \<noteq> h then has_tx P p h ts else rbind (p t) (\<lambda>b. if b then Inr True else has_tx P p h ts))"
| "has_tx P p h (_ # ts) = Inl AttributeError"

definition found_at :: "prims \<Rightarrow> (tx \<Rightarrow> bool res) \<Rightarrow> blocks \<Rightarrow> int \<times> string \<Rightarrow> bool res" where
  "found_at P p chain e =
     (if \<not> (0 \<le> fst e \<and> fst e < int (length chain)) then Inr False
      else rbind (read_field ''transactions'' (chain ! nat (fst e))) (\<lambda>ts. rbind (iter_json ts) (has_tx P p (snd e))))"

fun first_found :: "prims \<Rightarrow> (tx \<Rightarrow> bool res) \<Rightarrow> blocks \<Rightarrow> (int \<times> string) list \<Rightarrow> (int \<times> string) option res" where
  "first_found P p chain [] = Inr None"
| "first_found P p chain (e # es) = rbind (found_at P p chain e) (\<lambda>b. if b then Inr (Some e) else first_found P p chain es)"

definition tops_up :: "string \<Rightarrow> tx \<Rightarrow> bool res" where
  "tops_up addr t = rbind (paid_to addr t) (\<lambda>paid. Inr (paid \<ge> SEASONING_SIGNIFICANCE_TICKS))"

definition scan_topups :: "prims \<Rightarrow> string \<Rightarrow> blocks \<Rightarrow> rat \<Rightarrow> (int \<times> string) list \<Rightarrow> rat option res" where
  "scan_topups P addr chain tip es =
     rbind (first_found P (tops_up addr) chain es) (\<lambda>found. Inr (map_option (\<lambda>e. tip - of_int (fst e)) found))"

definition blocks_since_last_significant_topup :: "('w, 'e) observer \<Rightarrow> string \<Rightarrow> ('w, rat option) act" where
  "blocks_since_last_significant_topup Q addr =
     bind_act (ob_storage Q) (\<lambda>st. bind_act (ob_view Q) (\<lambda>v. bind_act (lift_res (tip_height (nv_chain v))) (\<lambda>tip.
       lift_res (scan_topups (dp_prims (ob_deps Q)) addr (nv_chain v) tip
         (take SEASONING_SCAN_LIMIT (get_tx_heights_for_addr st addr))))))"

definition balance_of :: "('w, 'e) observer \<Rightarrow> string \<Rightarrow> ('w, int) act" where
  "balance_of Q addr = bind_act (ob_view Q) (\<lambda>v. return (get_balance (nv_state v) addr))"

section \<open>Both halves\<close>

definition detail_of :: "('w, 'e) observer \<Rightarrow> 'e book \<Rightarrow> string \<Rightarrow> ('w, standing) act" where
  "detail_of Q B addr =
     bind_act (address_age_blocks Q addr) (\<lambda>age. bind_act (balance_of Q addr) (\<lambda>balance.
     bind_act (blocks_since_last_significant_topup Q addr) (\<lambda>since. get_detail Q B addr age balance since None)))"

definition mutual_scores :: "('w, 'e) observer \<Rightarrow> 'e book \<Rightarrow> string \<Rightarrow> ('w, rat \<times> rat) act" where
  "mutual_scores Q B peer_addr =
     bind_act (detail_of Q B peer_addr) (\<lambda>detail.
     bind_act (address_age_blocks Q (ob_addr Q)) (\<lambda>age. bind_act (balance_of Q (ob_addr Q)) (\<lambda>balance.
     bind_act (blocks_since_last_significant_topup Q (ob_addr Q)) (\<lambda>since.
     bind_act (score_at Q (sd_per detail) (sd_abandoned detail) (sd_last detail) age balance since None) (\<lambda>mine.
       return (sd_score detail, mine))))))"

section \<open>The ticker\<close>

fun sample_rows :: "('w, 'e) observer \<Rightarrow> 'e book \<Rightarrow> trade list \<Rightarrow> (int \<times> rat) list \<Rightarrow> ('w, (int \<times> rat) list) act" where
  "sample_rows Q B [] out = return out"
| "sample_rows Q B (t # ts) out =
     (if lapse_total t \<le> 0 \<or> xlm_total t \<le> 0 \<or> xlm_total t * TICKS_PER_LAPSE div lapse_total t \<le> 0 then sample_rows Q B ts out
      else bind_act (detail_of Q B (peer_lapse_addr t)) (\<lambda>detail.
        sample_rows Q B ts (out @ [(xlm_total t * TICKS_PER_LAPSE div lapse_total t, max (sd_score detail) TICKER_MIN_WEIGHT)])))"

definition executed_trade_prices :: "('w, 'e) observer \<Rightarrow> 'e book \<Rightarrow> nat \<Rightarrow> ('w, (int \<times> rat) list) act" where
  "executed_trade_prices Q B limit = sample_rows Q B
     (take limit (sort_key (\<lambda>t. - updated_at t) (filter (\<lambda>t. tr_status t = TradeCompleted) (rows (b_trades B))))) []"

definition ticker_price :: "('w, 'e) observer \<Rightarrow> 'e book \<Rightarrow> nat \<Rightarrow> ('w, int option) act" where
  "ticker_price Q B limit = bind_act (executed_trade_prices Q B limit) (\<lambda>samples.
     if samples = [] then return None else bind_act (lift_res (weighted_median samples)) (\<lambda>p. return (Some p)))"


section \<open>What a score is worth\<close>

lemma balance_factor_unit: "0 \<le> balance_factor b since" "balance_factor b since \<le> 1"
  by (simp_all add: balance_factor_def STAKE_FULL_TICKS_def STAKE_MIN_TICKS_def)

lemma balance_factor_pos: "0 < balance_factor b since \<Longrightarrow> \<not> below since SEASONING_FLOOR_BLOCKS \<and> STAKE_MIN_TICKS < b"
  by (auto simp: balance_factor_def STAKE_FULL_TICKS_def STAKE_MIN_TICKS_def split: if_splits)

definition age_factor :: "rat \<Rightarrow> rat" where
  "age_factor age = (if age < AGE_FLOOR_BLOCKS then 0
     else min ((age - AGE_FLOOR_BLOCKS) / max (AGE_FULL_BLOCKS - AGE_FLOOR_BLOCKS) 1) 1)"

lemma stake_factors: "stake_component age b since = age_factor age * balance_factor b since"
  by (simp add: stake_component_def age_factor_def)

lemma age_factor_unit: "0 \<le> age_factor age" "age_factor age \<le> 1"
  by (simp_all add: age_factor_def AGE_FULL_BLOCKS_def AGE_FLOOR_BLOCKS_def)

lemma age_factor_pos: "0 < age_factor age \<Longrightarrow> AGE_FLOOR_BLOCKS < age"
  by (auto simp: age_factor_def AGE_FULL_BLOCKS_def AGE_FLOOR_BLOCKS_def split: if_splits)

lemma stake_unit: "0 \<le> stake_component age b since" "stake_component age b since \<le> 1"
  using age_factor_unit[of age] balance_factor_unit[of b since] by (simp_all add: stake_factors mult_le_one)

lemma stake_pos:
  assumes "0 < stake_component age b since"
  shows "AGE_FLOOR_BLOCKS < age" "STAKE_MIN_TICKS < b" "\<not> below since SEASONING_FLOOR_BLOCKS"
proof -
  have "0 < age_factor age" "0 < balance_factor b since"
    using assms age_factor_unit(1)[of age] balance_factor_unit(1)[of b since]
    by (simp_all add: stake_factors zero_less_mult_iff)
  then show "AGE_FLOOR_BLOCKS < age" "STAKE_MIN_TICKS < b" "\<not> below since SEASONING_FLOOR_BLOCKS"
    using age_factor_pos balance_factor_pos by blast+
qed

definition fmath_ok :: "fmath \<Rightarrow> bool" where
  "fmath_ok F \<longleftrightarrow> (\<forall>x\<ge>0. 0 \<le> fm_sqrt F x \<and> 0 \<le> fm_log1p F x \<and> 0 \<le> fm_half F x)"

lemma history_bounds:
  assumes "fmath_ok F"
  shows "0 \<le> history_component F ps l now" "history_component F ps l now \<le> HISTORY_SATURATION_CEILING"
proof -
  have "0 \<le> relationship F p" if "p \<in> set (counted ps)" for p
    using that assms by (auto simp: relationship_def counted_def fmath_ok_def TICKS_PER_LAPSE_def split_beta)
  then have "0 \<le> sum_list (map (relationship F) (counted ps))" by (intro sum_list_nonneg) auto
  moreover have "0 \<le> fm_half F (max (now - l) 0 / of_int DECAY_HALFLIFE_SECONDS)"
    using assms by (simp add: fmath_ok_def DECAY_HALFLIFE_SECONDS_def)
  ultimately show "0 \<le> history_component F ps l now" by (simp add: history_component_def HISTORY_SATURATION_CEILING_def)
  show "history_component F ps l now \<le> HISTORY_SATURATION_CEILING" by (simp add: history_component_def HISTORY_SATURATION_CEILING_def)
qed

text \<open>C31: A score lies between zero and the saturated history plus the standing weight; it is above zero only for an address that owes
  nothing, is older than the age floor, and has held more than the least stake for the whole seasoning time; and without a settled
  trade it stays below what the standing weight allows.\<close>

theorem score_bounded:
  assumes "fmath_ok F"
  shows "0 \<le> score F ps owed l age b since now \<and> score F ps owed l age b since now \<le> HISTORY_SATURATION_CEILING + STANDING_WEIGHT
    \<and> (0 < score F ps owed l age b since now \<longrightarrow>
         owed \<le> 0 \<and> AGE_FLOOR_BLOCKS < age \<and> STAKE_MIN_TICKS < b \<and> \<not> below since SEASONING_FLOOR_BLOCKS)
    \<and> (counted ps = [] \<longrightarrow> score F ps owed l age b since now \<le> STANDING_WEIGHT)"
proof -
  note h = history_bounds[OF assms, of ps l now]
  note k = stake_unit[of age b since]
  have w: "score F ps owed l age b since now = (if owed > 0 then 0
      else (STANDING_WEIGHT + history_component F ps l now) * stake_component age b since)"
    by (simp add: score_def distrib_right)
  have "(STANDING_WEIGHT + history_component F ps l now) * stake_component age b since
      \<le> (STANDING_WEIGHT + HISTORY_SATURATION_CEILING) * 1"
    using h k by (intro mult_mono) (simp_all add: STANDING_WEIGHT_def)
  then have hi: "score F ps owed l age b since now \<le> HISTORY_SATURATION_CEILING + STANDING_WEIGHT"
    by (simp add: w HISTORY_SATURATION_CEILING_def STANDING_WEIGHT_def)
  have pos: "owed \<le> 0 \<and> 0 < stake_component age b since" if "0 < score F ps owed l age b since now"
  proof -
    have o: "\<not> 0 < owed" using that by (auto simp: w)
    with that have "0 < (STANDING_WEIGHT + history_component F ps l now) * stake_component age b since" by (simp add: w)
    moreover have "stake_component age b since \<noteq> 0" using calculation by auto
    ultimately show ?thesis using k(1) o by linarith
  qed
  have "score F ps owed l age b since now \<le> STANDING_WEIGHT" if "counted ps = []"
    using that k mult_left_mono[OF k(2), of STANDING_WEIGHT] by (simp add: score_def history_component_def STANDING_WEIGHT_def)
  moreover have "0 \<le> score F ps owed l age b since now" using h k by (simp add: w STANDING_WEIGHT_def)
  ultimately show ?thesis using hi pos stake_pos by blast
qed

text \<open>Plain rational functions in the place of the library's, for the runs below.\<close>

definition demo_fmath :: fmath where
  "demo_fmath = \<lparr>fm_sqrt = (\<lambda>x. x), fm_log1p = (\<lambda>x. x / 2), fm_half = (\<lambda>x. if x = 0 then 1 else 1 / 2)\<rparr>"

lemma demo_fmath_ok: "fmath_ok demo_fmath"
  by (simp add: fmath_ok_def demo_fmath_def)

theorem score_bounded_witness: "0 < score demo_fmath [(100000000, 2)] 0 0 21600 10000000000 None 0
    \<and> score demo_fmath [(100000000, 2)] 0 0 21600 10000000000 None 0 \<le> HISTORY_SATURATION_CEILING + STANDING_WEIGHT"
  using score_bounded[OF demo_fmath_ok, of "[(100000000, 2)]" 0 0 21600 10000000000 None 0]
  by (simp add: score_def stake_component_def balance_factor_def history_component_def counted_def relationship_def demo_fmath_def
      AGE_FLOOR_BLOCKS_def AGE_FULL_BLOCKS_def STAKE_MIN_TICKS_def STAKE_FULL_TICKS_def below_def TICKS_PER_LAPSE_def
      HISTORY_SATURATION_CEILING_def STANDING_WEIGHT_def)


section \<open>The pairs that are checked\<close>

definition foreign :: "'e book \<Rightarrow> string \<Rightarrow> (fill_request \<times> fill_response) list \<Rightarrow> (fill_request \<times> fill_response) list" where
  "foreign B addr ps = filter (\<lambda>(q, _). rq_session q \<notin> set (sessions_with B addr)) ps"

text \<open>The first twenty pairs of sessions this node has no trade row for.\<close>

definition checked_pairs :: "('w, 'e) observer \<Rightarrow> 'e book \<Rightarrow> string \<Rightarrow> (fill_request \<times> fill_response) list" where
  "checked_pairs Q B addr = take MAX_CHAIN_CHECKS_PER_LOOKUP (foreign B addr (accepted_fills_for_addr (ob_deps Q) B addr))"

fun each_pair :: "('w, 'e) observer \<Rightarrow> string \<Rightarrow> (fill_request \<times> fill_response) list \<Rightarrow> net_tally \<Rightarrow> ('w, net_tally) act" where
  "each_pair Q addr [] N = return N"
| "each_pair Q addr ((q, r) # rest) N = bind_act (check_pair Q addr q r N) (each_pair Q addr rest)"

lemma check_pairs_each:
  "check_pairs Q addr (sessions_with B addr) ps k N = each_pair Q addr (take (MAX_CHAIN_CHECKS_PER_LOOKUP - k) (foreign B addr ps)) N"
proof (induction ps arbitrary: k N)
  case (Cons p ps)
  obtain q r where p: "p = (q, r)" by fastforce
  have "MAX_CHAIN_CHECKS_PER_LOOKUP - k = Suc (MAX_CHAIN_CHECKS_PER_LOOKUP - (k + 1))" if "\<not> MAX_CHAIN_CHECKS_PER_LOOKUP \<le> k"
    using that by simp
  moreover have "check_pairs Q addr (sessions_with B addr) ps (k + 1)
      = each_pair Q addr (take (MAX_CHAIN_CHECKS_PER_LOOKUP - (k + 1)) (foreign B addr ps))" by (rule ext) (rule Cons.IH)
  ultimately show ?case using Cons.IH by (auto simp: p foreign_def)
qed (simp add: foreign_def)

lemma network_tally_each: "network_tally_by_counterparty Q B addr = each_pair Q addr (checked_pairs Q B addr) no_tally"
  by (simp add: network_tally_by_counterparty_def check_pairs_each checked_pairs_def)

lemma each_pair_runs:
  assumes "each_pair Q addr ps N w = (Inr M, w')" "(q, r) \<in> set ps"
  shows "\<exists>N1 w1 N2 w2. check_pair Q addr q r N1 w1 = (Inr N2, w2)"
  using assms
proof (induction ps arbitrary: N w)
  case (Cons p ps)
  obtain q0 r0 where p: "p = (q0, r0)" by fastforce
  from Cons.prems(1) p obtain N1 w1 where one: "check_pair Q addr q0 r0 N w = (Inr N1, w1)" and rest: "each_pair Q addr ps N1 w1 = (Inr M, w')"
    by (auto simp: bind_act_Inr)
  show ?case
  proof (cases "(q, r) = p")
    case True
    with one p show ?thesis by blast
  next
    case False
    with Cons.prems(2) have "(q, r) \<in> set ps" by auto
    with Cons.IH[OF rest] show ?thesis .
  qed
qed simp

lemma if_reachable_Some: "if_reachable m w = (Inr (Some x), w') \<Longrightarrow> m w = (Inr x, w')"
  by (auto simp: if_reachable_def split: prod.splits sum.splits if_splits)

lemma note_settled_abandoned: "note_settled r c k N = Inr N' \<Longrightarrow> nt_abandoned N' = nt_abandoned N"
  by (auto simp: note_settled_def rbind_Inr_conv split: if_splits)

lemma note_fault_abandoned:
  "nt_abandoned (note_fault addr q r f N) = nt_abandoned N + (if f = Some addr then 1 else 0)"
  by (simp add: note_fault_def)

lemma check_pair_charges:
  assumes run: "check_pair Q addr q r N w = (Inr M, w')"
  shows "nt_abandoned M = nt_abandoned N \<or> (nt_abandoned M = nt_abandoned N + 1
    \<and> (\<exists>settled total w1. verify_trade_against_chain (dp_prims (ob_deps Q)) (ob_engine Q) q r w = (Inr (settled, total, Some addr), w1)))"
proof (cases "address_of (dp_prims (ob_deps Q)) (rs_maker_pubkey r)")
  case (Inl e)
  with run show ?thesis by (simp add: check_pair_def return_def)
next
  case (Inr a)
  from run Inr obtain v w1 where v: "if_reachable (verify_trade_against_chain (dp_prims (ob_deps Q)) (ob_engine Q) q r) w = (Inr v, w1)"
    and rest: "(case v of None \<Rightarrow> return N | Some (settled, _, at_fault) \<Rightarrow>
       bind_act (lift_res (note_settled r (if addr = a then taker_lapse_addr q else a) settled N))
         (\<lambda>N1. return (note_fault addr q r at_fault N1))) w1 = (Inr M, w')"
    by (auto simp: check_pair_def bind_act_Inr)
  show ?thesis
  proof (cases v)
    case None
    with rest show ?thesis by (simp add: return_def)
  next
    case (Some x)
    obtain settled total f where x: "x = (settled, total, f)" by (cases x) auto
    from rest Some x obtain N1 where n1: "note_settled r (if addr = a then taker_lapse_addr q else a) settled N = Inr N1"
      and M: "M = note_fault addr q r f N1" by (auto simp: bind_act_Inr lift_res_def return_def)
    have ver: "verify_trade_against_chain (dp_prims (ob_deps Q)) (ob_engine Q) q r w = (Inr (settled, total, f), w1)"
      by (rule if_reachable_Some[OF v[unfolded Some x]])
    show ?thesis using ver by (simp add: M note_fault_abandoned note_settled_abandoned[OF n1])
  qed
qed

lemma each_pair_charges:
  assumes "each_pair Q addr ps N w = (Inr M, w')"
  shows "nt_abandoned M \<le> nt_abandoned N + int (length ps) \<and> (nt_abandoned N < nt_abandoned M \<longrightarrow>
    (\<exists>q r settled total w1 w2. (q, r) \<in> set ps
       \<and> verify_trade_against_chain (dp_prims (ob_deps Q)) (ob_engine Q) q r w1 = (Inr (settled, total, Some addr), w2)))"
  using assms
proof (induction ps arbitrary: N w)
  case (Cons p ps)
  obtain q r where p: "p = (q, r)" by fastforce
  from Cons.prems p obtain N1 w1 where one: "check_pair Q addr q r N w = (Inr N1, w1)" and rest: "each_pair Q addr ps N1 w1 = (Inr M, w')"
    by (auto simp: bind_act_Inr)
  note c = check_pair_charges[OF one]
  note ih = Cons.IH[OF rest]
  have "\<exists>q r settled total w1 w2. (q, r) \<in> set (p # ps)
       \<and> verify_trade_against_chain (dp_prims (ob_deps Q)) (ob_engine Q) q r w1 = (Inr (settled, total, Some addr), w2)"
    if less: "nt_abandoned N < nt_abandoned M"
  proof (cases "nt_abandoned N1 = nt_abandoned N")
    case True
    with ih less show ?thesis by (metis list.set_intros(2))
  next
    case False
    with c p show ?thesis by (metis list.set_intros(1))
  qed
  then show ?case using c ih by auto
qed (simp add: return_def)


section \<open>Who is charged\<close>

text \<open>What one look at a leg showed.\<close>

definition seen :: "('w, 'e) engine \<Rightarrow> leg_terms \<Rightarrow> int \<Rightarrow> bool \<Rightarrow> bool" where
  "seen G l depth settled \<longleftrightarrow> (\<exists>w h w'. leg_settled G l depth w = (Inr (settled, h), w'))"

text \<open>The step whose second leg is missing past its margin: the other side's leg was seen settled, the owing side's was not.\<close>

definition owes_step :: "prims \<Rightarrow> ('w, 'e) engine \<Rightarrow> fill_request \<Rightarrow> fill_response \<Rightarrow> string \<Rightarrow> string \<Rightarrow> int \<Rightarrow> int \<Rightarrow> bool" where
  "owes_step P G q r maker addr base n \<longleftrightarrow> (\<exists>lapse xlm maker_leg taker_leg maker_first w h w'.
     step_legs P q r n lapse xlm = Inr (maker_leg, taker_leg) \<and> i_move_first n (rs_maker_opens r) = Inr maker_first
     \<and> addr = (if maker_first then taker_lapse_addr q else maker)
     \<and> seen G (if maker_first then maker_leg else taker_leg) (rs_depth r) True
     \<and> seen G (if maker_first then taker_leg else maker_leg) (rs_depth r) False
     \<and> g_height G w = (Inr h, w') \<and> deadline_height base (rs_depth r) + ABANDON_AFTER_BLOCKS \<le> h)"

lemma verify_steps_fault:
  assumes "verify_steps P G q r maker base k schedule w = (Inr (j, Some a), w')"
  shows "\<exists>b. k \<le> j \<and> j < k + length schedule \<and> (j = k \<longrightarrow> b = base) \<and> owes_step P G q r maker a b (int j + 1)"
  using assms
proof (induction schedule arbitrary: base k w)
  case (Cons x schedule)
  obtain lapse xlm where x: "x = (lapse, xlm)" by fastforce
  from Cons.prems obtain ml tl ms mh ts th w1 w2 where legs: "step_legs P q r (int k + 1) lapse xlm = Inr (ml, tl)"
    and m: "leg_settled G ml (rs_depth r) w = (Inr (ms, mh), w1)" and t: "leg_settled G tl (rs_depth r) w1 = (Inr (ts, th), w2)"
    and rest: "(if ms \<and> ts
        then verify_steps P G q r maker (case mh of Some h \<Rightarrow> h | None \<Rightarrow> (case th of Some h \<Rightarrow> h | None \<Rightarrow> base)) (k + 1) schedule
        else bind_act (lift_res (i_move_first (int k + 1) (rs_maker_opens r))) (\<lambda>maker_first.
          let (first_settled, second_addr) = (if maker_first then (ms, taker_lapse_addr q) else (ts, maker))
          in if \<not> first_settled then return (k, None)
             else bind_act (g_height G) (\<lambda>h.
               if h < deadline_height base (rs_depth r) + ABANDON_AFTER_BLOCKS then return (k, None)
               else return (k, Some second_addr)))) w2 = (Inr (j, Some a), w')"
    by (auto simp: x Let_def bind_act_Inr lift_res_def)
  show ?case
  proof (cases "ms \<and> ts")
    case True
    with rest obtain b' where "verify_steps P G q r maker b' (k + 1) schedule w2 = (Inr (j, Some a), w')" by auto
    from Cons.IH[OF this] show ?thesis by fastforce
  next
    case False
    from rest False obtain first h w3 where f: "i_move_first (int k + 1) (rs_maker_opens r) = Inr first"
      and settled: "if first then ms else ts" and h: "g_height G w2 = (Inr h, w3)"
      and late: "deadline_height base (rs_depth r) + ABANDON_AFTER_BLOCKS \<le> h"
      and j: "j = k" and a: "a = (if first then taker_lapse_addr q else maker)"
      by (auto simp: bind_act_Inr lift_res_def return_def Let_def split: if_splits)
    have seen: "seen G (if first then ml else tl) (rs_depth r) True" "seen G (if first then tl else ml) (rs_depth r) False"
      using settled False m t unfolding seen_def by (cases first; simp; blast)+
    have "owes_step P G q r maker a base (int j + 1)"
      unfolding owes_step_def j by (intro exI conjI) (rule legs f a seen h late)+
    with j show ?thesis by (intro exI[of _ base]) simp
  qed
qed (simp add: return_def)

lemma verify_trade_fault:
  assumes "verify_trade_against_chain P G q r w = (Inr (settled, len, Some a), w')"
  obtains maker base where "address_of P (rs_maker_pubkey r) = Inr maker" "settled < len"
    "settled = 0 \<longrightarrow> base = rs_height r" "owes_step P G q r maker a base (int settled + 1)"
proof -
  from assms obtain schedule maker w1 w2 where a: "address_of P (rs_maker_pubkey r) = Inr maker"
    and v: "verify_steps P G q r maker (rs_height r) 0 schedule w1 = (Inr (settled, Some a), w2)" and "len = length schedule"
    by (auto simp: verify_trade_against_chain_def bind_act_Inr lift_res_def return_def)
  with verify_steps_fault[OF v] that show thesis by auto
qed



section \<open>A pair that cannot be rebuilt\<close>

lemma build_schedule_reachable: "build_schedule l x n = Inl e \<Longrightarrow> e \<noteq> Unreachable"
  by (auto simp: build_schedule_def Let_def split: if_splits)

lemma checked_pairs_addressed:
  "(q, r) \<in> set (checked_pairs Q B addr) \<Longrightarrow> \<exists>a. address_of (dp_prims (ob_deps Q)) (rs_maker_pubkey r) = Inr a"
  by (auto simp: checked_pairs_def foreign_def accepted_fills_for_addr_def address_of_def dest!: in_set_takeD split: option.splits)

lemma poisoned_pair_raises:
  assumes "(q, r) \<in> set (checked_pairs Q B addr)" "build_schedule (rs_lapse_total r) (rs_xlm_total r) (rs_count r) = Inl e"
  shows "network_tally_by_counterparty Q B addr w \<noteq> (Inr N, w')"
proof
  assume "network_tally_by_counterparty Q B addr w = (Inr N, w')"
  from each_pair_runs[OF this[unfolded network_tally_each] assms(1)] obtain N1 w1 N2 w2
    where "check_pair Q addr q r N1 w1 = (Inr N2, w2)" by blast
  moreover obtain a where "address_of (dp_prims (ob_deps Q)) (rs_maker_pubkey r) = Inr a" using checked_pairs_addressed[OF assms(1)] by blast
  ultimately show False using assms(2) build_schedule_reachable[OF assms(2)]
    by (simp add: check_pair_def verify_trade_against_chain_def bind_act_def lift_res_def if_reachable_def)
qed

lemma poisoned_scores_raise:
  assumes "(q, r) \<in> set (checked_pairs Q B addr)" "build_schedule (rs_lapse_total r) (rs_xlm_total r) (rs_count r) = Inl e"
  shows "\<exists>e' w'. mutual_scores Q B addr w = (Inl e', w')"
proof -
  have d: "detail_of Q B addr w \<noteq> (Inr d, w')" for d w w'
  proof
    assume "detail_of Q B addr w = (Inr d, w')"
    then obtain age balance since w1 where "get_detail Q B addr age balance since None w1 = (Inr d, w')"
      by (auto simp: detail_of_def bind_act_Inr)
    then obtain w2 N w3 where "network_tally_by_counterparty Q B addr w2 = (Inr N, w3)"
      by (auto simp: get_detail_def bind_act_Inr)
    with poisoned_pair_raises[OF assms] show False by blast
  qed
  have "mutual_scores Q B addr w \<noteq> (Inr v, w')" for v w' using d by (auto simp: mutual_scores_def bind_act_Inr)
  then show ?thesis by (cases "mutual_scores Q B addr w"; cases "fst (mutual_scores Q B addr w)") auto
qed

lemma scores_raise:
  assumes "dl_scores T = mutual_scores Q" "(q0, r0) \<in> set (checked_pairs Q (sh_book s) addr)"
    "build_schedule (rs_lapse_total r0) (rs_xlm_total r0) (rs_count r0) = Inl e"
  shows "\<exists>e' s'. mutual_scores_of T addr s = (Inl e', s') \<and> sh_book s' = sh_book s"
proof -
  obtain e' w' where "mutual_scores Q (sh_book s) addr (sh_out s) = (Inl e', w')" using poisoned_scores_raise[OF assms(2,3)] by blast
  then show ?thesis by (simp add: mutual_scores_of_def bind_act_def reading_def calling_def assms(1))
qed


section \<open>A long record hides what comes later\<close>

lemma with_request_append: "with_request B (xs @ ys) = with_request B xs @ with_request B ys"
  by (simp add: with_request_def List.map_filter_def)

lemma map_filter_same: "(\<And>x. x \<in> set xs \<Longrightarrow> f x = g x) \<Longrightarrow> List.map_filter f xs = List.map_filter g xs"
  by (induction xs) (auto simp: List.map_filter_def)

lemma fills_append:
  assumes "b_requests B' = b_requests B @ qs" "b_responses B' = b_responses B @ rs"
    and "\<forall>r\<in>set (rows (b_responses B)). rs_accepted r \<longrightarrow> has_key (b_requests B) (rs_id r)"
  obtains later where "accepted_fills_for_addr D B' addr = accepted_fills_for_addr D B addr @ later"
proof -
  have old: "with_request B' (filter rs_accepted (rows (b_responses B))) = with_request B (filter rs_accepted (rows (b_responses B)))"
    unfolding with_request_def
  proof (rule map_filter_same)
    fix r assume "r \<in> set (filter rs_accepted (rows (b_responses B)))"
    then have "has_key (b_requests B) (rs_id r)" using assms(3) by auto
    then show "map_option (\<lambda>q. (q, r)) (get_fill_request B' (rs_id r)) = map_option (\<lambda>q. (q, r)) (get_fill_request B (rs_id r))"
      by (auto simp: get_fill_request_def assms(1) map_add_def has_key_map_of split: option.splits)
  qed
  then show thesis
    by (intro that[of "filter _ (with_request B' (filter rs_accepted (rows rs)))"])
      (simp add: accepted_fills_for_addr_def assms(2) rows_def with_request_append)
qed

lemma checked_pairs_full:
  assumes "accepted_fills_for_addr (ob_deps Q) B' addr = accepted_fills_for_addr (ob_deps Q) B addr @ later"
    "b_trades B' = b_trades B" "MAX_CHAIN_CHECKS_PER_LOOKUP \<le> length (foreign B addr (accepted_fills_for_addr (ob_deps Q) B addr))"
  shows "checked_pairs Q B' addr = checked_pairs Q B addr"
proof -
  have "sessions_with B' addr = sessions_with B addr" by (simp add: sessions_with_def assms(2))
  then show ?thesis using assms(3) by (simp add: checked_pairs_def foreign_def assms(1))
qed

text \<open>C34: Once twenty accepted pairs that name an address are on file, of sessions this node has no trade of its own for, no later pair is
  ever looked at: with any number of further requests and responses behind them, the standing of the address and both scores come
  out the same, whatever the address has defected on since.\<close>

theorem later_defections_unseen:
  assumes later: "b_requests B' = b_requests B @ qs" "b_responses B' = b_responses B @ rs" "b_trades B' = b_trades B" "b_steps B' = b_steps B"
    and on_file: "\<forall>r\<in>set (rows (b_responses B)). rs_accepted r \<longrightarrow> has_key (b_requests B) (rs_id r)"
    and long: "MAX_CHAIN_CHECKS_PER_LOOKUP \<le> length (foreign B addr (accepted_fills_for_addr (ob_deps Q) B addr))"
  shows "detail_of Q B' addr = detail_of Q B addr \<and> mutual_scores Q B' addr = mutual_scores Q B addr"
proof -
  obtain more where "accepted_fills_for_addr (ob_deps Q) B' addr = accepted_fills_for_addr (ob_deps Q) B addr @ more"
    using fills_append[OF later(1,2) on_file] .
  from checked_pairs_full[OF this later(3) long]
  have "network_tally_by_counterparty Q B' addr = network_tally_by_counterparty Q B addr" by (simp add: network_tally_each)
  moreover have "local_tally B' addr h = local_tally B addr h" for h
  proof -
    have "steps_on B' = steps_on B" by (simp add: steps_on_def later fun_eq_iff)
    then have "delinquent_with B' addr h = delinquent_with B addr h" by (simp add: delinquent_with_def later split: option.split)
    moreover have "completed_with B' addr = completed_with B addr" by (simp add: completed_with_def later)
    ultimately show ?thesis by (simp add: local_tally_def)
  qed
  ultimately have "detail_of Q B' addr = detail_of Q B addr" by (simp add: detail_of_def get_detail_def)
  then show ?thesis by (simp add: mutual_scores_def)
qed


section \<open>Instances\<close>

text \<open>A node that sees every LAPSE payment settled and no payment of XLM.\<close>

definition demo_scout :: "bool \<Rightarrow> (unit, string) adapter" where
  "demo_scout lapse = \<lparr>a_lapse = lapse, a_find = (\<lambda>_ _ _ _. return (if lapse then Some (''aa'', 5) else None)),
     a_confirmations = (\<lambda>_. return (Some 5)), a_exists = (\<lambda>_. return True), a_build = (\<lambda>_ _ _ _ _. return (''e'', ''aa'', 1)),
     a_submit = (\<lambda>_. return (True, [])), a_consumed = (\<lambda>_ _. return False), a_forget = (\<lambda>_. return ())\<rparr>"

definition demo_observer :: "(unit, string) observer" where
  "demo_observer = \<lparr>ob_deps = demo_deps, ob_fmath = demo_fmath, ob_addr = demo_addr CHR ''a'',
     ob_engine = mk_engine (demo_scout True) (demo_scout False) (return 1000) (return (None, None)) (return 7) 2,
     ob_view = return \<lparr>nv_chain = [], nv_height = 1000, nv_state = demo_state\<rparr>, ob_storage = return empty_storage, ob_time = return 7\<rparr>"

definition demo_owed :: "string book" where
  "demo_owed = sh_book (demo_shop (Some (demo_sent\<lparr>rs_maker_opens := True\<rparr>)))"

lemma demo_charge: "case network_tally_by_counterparty demo_observer demo_owed (demo_addr CHR ''b'') () of
    (Inl _, _) \<Rightarrow> False | (Inr N, _) \<Rightarrow> nt_abandoned N = 1"
  by code_simp


text \<open>The taker's request of 1,000 units, answered by the maker with one unit in two steps; every node takes the answer.\<close>

definition demo_poison :: "(string, json) dict" where
  "demo_poison = sign_fill_response demo_deps ''sk'' (build_fill_response ''r1'' ''o1'' ''5e55'' 1 True ''01'' 100 2 1 True ''GA'' True (Some 2) [])"

definition demo_poisoned :: "(unit, string) shop" where
  "demo_poisoned = demo_shop (Some (response_row demo_poison 7))"

definition demo_again :: fill_request where
  "demo_again = demo_ask\<lparr>rq_id := ''r2'', rq_session := ''5e56'', rq_lapse_total := 999\<rparr>"

definition demo_market :: "(unit, string) dealer" where
  "demo_market = (demo_dealer CHR ''a'')\<lparr>dl_scores := mutual_scores demo_observer\<rparr>"

lemma demo_poison_taken: "verify_fill_response demo_deps (sh_book (demo_shop None)) (JObj demo_poison) (Some (or_maker demo_offer))
    (Some demo_offer) (Some demo_ask) = Inr ()"
  by code_simp

lemma demo_poison_pair: "map (rq_id \<circ> fst) (checked_pairs demo_observer (sh_book demo_poisoned) (demo_addr CHR ''b'')) = [''r1'']"
  "list_all (\<lambda>(q, r). (rs_lapse_total r, rs_xlm_total r, rs_count r) = (1, 1, 2))
     (checked_pairs demo_observer (sh_book demo_poisoned) (demo_addr CHR ''b''))"
  by code_simp+

lemma demo_again_reached: "settled_already demo_again (sh_book demo_poisoned) = False" "xlm_for_lapse (rq_lapse_total demo_again) (or_price demo_offer) = Inr 10"
  "validate_fill (dl_deps demo_market) (sh_book demo_poisoned) demo_offer (rq_lapse_total demo_again) 100 (Some (taker_lapse_addr demo_again)) = Inr ()"
  by code_simp+


text \<open>Twenty harmless pairs of one address, and then the one above.\<close>

definition demo_name :: "nat \<Rightarrow> string" where
  "demo_name i = ''r'' @ replicate (i + 2) CHR ''x''"

definition demo_quiet :: "nat \<Rightarrow> fill_response" where
  "demo_quiet i = \<lparr>rs_id = demo_name i, rs_order = ''o1'', rs_session = demo_name i, rs_lapse_total = 1000, rs_xlm_total = 10, rs_accepted = True,
     rs_count = 2, rs_maker_pubkey = ''01'', rs_height = 100, rs_depth = 2, rs_sells = True, rs_maker_xlm_addr = ''GA'', rs_maker_opens = False,
     rs_reason = [], rs_signature = ''02'', rs_received_at = 6\<rparr>"

definition demo_worn :: "string book" where
  "demo_worn = \<lparr>b_orders = [], b_requests = map (\<lambda>i. (demo_name i, demo_ask\<lparr>rq_id := demo_name i, rq_session := demo_name i\<rparr>)) [0..<20],
     b_responses = map (\<lambda>i. (demo_name i, demo_quiet i)) [0..<20], b_trades = [], b_steps = []\<rparr>"

definition demo_defected :: "string book" where
  "demo_defected = demo_worn\<lparr>b_requests := b_requests demo_worn @ b_requests demo_owed,
     b_responses := b_responses demo_worn @ b_responses demo_owed\<rparr>"

definition demo_file :: "(fill_request \<times> fill_response) list" where
  "demo_file = map (\<lambda>i. (demo_ask\<lparr>rq_id := demo_name i, rq_session := demo_name i\<rparr>, demo_quiet i)) [0..<20]"

lemma demo_worn_pairs: "with_request demo_worn (filter rs_accepted (rows (b_responses demo_worn))) = demo_file"
  "list_all (\<lambda>r. has_key (b_requests demo_worn) (rs_id r)) (rows (b_responses demo_worn))" "fromhex ''01'' \<noteq> None" "length demo_file = 20"
  by code_simp+

lemma demo_worn_long: "length (foreign demo_worn (demo_addr CHR ''b'') (accepted_fills_for_addr (ob_deps demo_observer) demo_worn (demo_addr CHR ''b''))) = 20"
proof -
  have "accepted_fills_for_addr (ob_deps demo_observer) demo_worn (demo_addr CHR ''b'') = demo_file"
    using demo_worn_pairs(3)
    by (auto simp: accepted_fills_for_addr_def demo_worn_pairs(1) demo_file_def demo_quiet_def demo_ask_def filter_id_conv simp del: upt_Suc)
  moreover have "sessions_with demo_worn a = []" for a by (simp add: sessions_with_def demo_worn_def rows_def)
  ultimately show ?thesis by (simp add: foreign_def demo_worn_pairs(4))
qed

theorem later_defections_unseen_witness:
  "mutual_scores demo_observer demo_defected (demo_addr CHR ''b'') = mutual_scores demo_observer demo_worn (demo_addr CHR ''b'')"
  using later_defections_unseen[of demo_defected demo_worn "b_requests demo_owed" "b_responses demo_owed" "demo_addr CHR ''b''" demo_observer]
    demo_worn_long demo_worn_pairs(2) by (simp add: demo_defected_def MAX_CHAIN_CHECKS_PER_LOOKUP_def list_all_iff)


section \<open>Seasoning\<close>

lemma first_found_find:
  assumes "\<And>e. e \<in> set es \<Longrightarrow> \<exists>b. found_at P p chain e = Inr b"
  shows "first_found P p chain es = Inr (find (\<lambda>e. found_at P p chain e = Inr True) es)"
  using assms
proof (induction es)
  case (Cons e es)
  obtain b where b: "found_at P p chain e = Inr b" using Cons.prems[of e] by auto
  have "first_found P p chain es = Inr (find (\<lambda>e. found_at P p chain e = Inr True) es)"
    by (rule Cons.IH) (rule Cons.prems, simp)
  with b show ?case by simp
qed simp

lemma find_newest:
  assumes "sorted (map (\<lambda>e. - fst e) es)" "e \<in> set es" "p e"
  shows "\<exists>d. find p es = Some d \<and> d \<in> set es \<and> p d \<and> (fst e :: int) \<le> fst d"
  using assms by (induction es) auto

lemma heights_newest_first: "sorted (map (\<lambda>e. - fst e) (get_tx_heights_for_addr st addr))"
proof -
  have "(\<lambda>(h :: int, _ :: string). - h) = (\<lambda>e. - fst e)" by (simp add: fun_eq_iff)
  then show ?thesis unfolding get_tx_heights_for_addr_def by (simp only: sorted_sort_key_map)
qed

text \<open>C35: The look back for the last significant payment ends after fifty transactions, and finding none there counts as fully seasoned. An
  address topped up less than a day of blocks ago has no stake by the rule; the same address, once fifty later payments too small to
  count have pushed the top-up out of the look back, has the whole stake of its age and balance.\<close>

theorem dust_seasons:
  assumes calls: "ob_storage Q w = (Inr st, w1)" "ob_view Q w1 = (Inr v, w2)" "tip_height (nv_chain v) = Inr tip"
    and read: "\<And>e. e \<in> set (get_tx_heights_for_addr st addr) \<Longrightarrow> \<exists>b. found_at (dp_prims (ob_deps Q)) (tops_up addr) (nv_chain v) e = Inr b"
    and dust: "\<And>e. e \<in> set (take SEASONING_SCAN_LIMIT (get_tx_heights_for_addr st addr))
      \<Longrightarrow> found_at (dp_prims (ob_deps Q)) (tops_up addr) (nv_chain v) e = Inr False"
    and topup: "e \<in> set (get_tx_heights_for_addr st addr)" "found_at (dp_prims (ob_deps Q)) (tops_up addr) (nv_chain v) e = Inr True"
      "tip - of_int (fst e) < SEASONING_FLOOR_BLOCKS"
    and grown: "AGE_FULL_BLOCKS \<le> age" "STAKE_FULL_TICKS \<le> b"
  shows "blocks_since_last_significant_topup Q addr w = (Inr None, w2) \<and> stake_component age b None = 1
    \<and> (\<exists>k. scan_topups (dp_prims (ob_deps Q)) addr (nv_chain v) tip (get_tx_heights_for_addr st addr) = Inr (Some k)
        \<and> stake_component age b (Some k) = 0)"
proof -
  let ?P = "dp_prims (ob_deps Q)" and ?es = "get_tx_heights_for_addr st addr"
  have "find (\<lambda>e. found_at ?P (tops_up addr) (nv_chain v) e = Inr True) (take SEASONING_SCAN_LIMIT ?es) = None"
    using dust by (auto simp: find_None_iff)
  then have "scan_topups ?P addr (nv_chain v) tip (take SEASONING_SCAN_LIMIT ?es) = Inr None"
    unfolding scan_topups_def by (subst first_found_find) (use dust in auto)
  then have a: "blocks_since_last_significant_topup Q addr w = (Inr None, w2)"
    using calls by (simp add: blocks_since_last_significant_topup_def bind_act_def lift_res_def)
  obtain d where d: "find (\<lambda>e. found_at ?P (tops_up addr) (nv_chain v) e = Inr True) ?es = Some d" "fst e \<le> fst d"
    using find_newest[OF heights_newest_first topup(1), of "\<lambda>e. found_at ?P (tops_up addr) (nv_chain v) e = Inr True"] topup(2) by auto
  have "scan_topups ?P addr (nv_chain v) tip ?es = Inr (Some (tip - of_int (fst d)))"
    unfolding scan_topups_def by (subst first_found_find) (use read d in auto)
  moreover have "tip - of_int (fst d) < SEASONING_FLOOR_BLOCKS" 
  proof -
    have "(of_int (fst e) :: rat) \<le> of_int (fst d)" using d(2) by simp
    with topup(3) show ?thesis by linarith
  qed
  ultimately have c: "\<exists>k. scan_topups ?P addr (nv_chain v) tip ?es = Inr (Some k) \<and> stake_component age b (Some k) = 0"
    by (simp add: stake_component_def balance_factor_def below_def)
  have "stake_component age b None = 1"
    using grown by (simp add: stake_component_def balance_factor_def below_def AGE_FULL_BLOCKS_def AGE_FLOOR_BLOCKS_def
        STAKE_FULL_TICKS_def STAKE_MIN_TICKS_def)
  with a c show ?thesis by blast
qed

text \<open>A payment in each of the blocks 1 to 51, the first of 50 LAPSE, the others of one tick.\<close>

definition demo_pay :: "nat \<Rightarrow> tx" where
  "demo_pay i = [(''from'', JStr (demo_addr CHR ''b'')), (''nonce'', JInt (int i)), (''outputs'', JArr [JObj
     [(''to'', JStr (demo_addr CHR ''a'')), (''amount'', JInt (if i = 1 then 5000000000 else 1))]])]"

definition demo_chain_of :: blocks where
  "demo_chain_of = map (\<lambda>i. [(''height'', JInt (int i)), (''transactions'', JArr [JObj (demo_pay i)])]) [0..<52]"

definition demo_index :: storage where
  "demo_index = empty_storage\<lparr>addr_table :=
     map (\<lambda>i. ((demo_addr CHR ''a'', tx_hash demo_prims (demo_pay i)), \<lparr>a_height = int i, a_memo = None\<rparr>)) (rev [1..<52])\<rparr>"

definition demo_cycler :: "(unit, string) observer" where
  "demo_cycler = demo_observer\<lparr>ob_view := return \<lparr>nv_chain = demo_chain_of, nv_height = 51, nv_state = demo_state\<rparr>,
     ob_storage := return demo_index\<rparr>"

lemma descending: "sorted (map (\<lambda>i. - int i) (rev [a..<b]))"
  by (induction b) auto

lemma demo_heights: "get_tx_heights_for_addr demo_index (demo_addr CHR ''a'') = map (\<lambda>i. (int i, tx_hash demo_prims (demo_pay i))) (rev [1..<52])"
proof -
  let ?es = "map (\<lambda>i. (int i, tx_hash demo_prims (demo_pay i))) (rev [1..<52])"
  have "get_tx_heights_for_addr demo_index (demo_addr CHR ''a'') = sort_key (\<lambda>(h, _). - h) ?es"
    by (simp add: get_tx_heights_for_addr_def demo_index_def o_def del: upt_rec_numeral)
  moreover have "sorted (map (\<lambda>(h, _). - h) ?es)" by (simp add: o_def descending)
  ultimately show ?thesis by (simp only: sort_key_id_if_sorted)
qed

lemma demo_pay_tops_up:
  assumes "i < 52"
  shows "found_at demo_prims (tops_up (demo_addr CHR ''a'')) demo_chain_of (int i, tx_hash demo_prims (demo_pay i)) = Inr (i = 1)"
proof -
  have "demo_chain_of ! i = [(''height'', JInt (int i)), (''transactions'', JArr [JObj (demo_pay i)])]" "length demo_chain_of = 52"
    using assms by (simp_all add: demo_chain_of_def del: upt_rec_numeral)
  moreover have "paid_to (demo_addr CHR ''a'') (demo_pay i) = Inr (if i = 1 then 5000000000 else 1)"
    by (simp add: paid_to_def demo_pay_def get_or_def jget_def read_int_def)
  ultimately show ?thesis
    using assms by (simp add: found_at_def tops_up_def read_field_def SEASONING_SIGNIFICANCE_TICKS_def)
qed

theorem dust_seasons_witness:
  "blocks_since_last_significant_topup demo_cycler (demo_addr CHR ''a'') () = (Inr None, ())
   \<and> stake_component AGE_FULL_BLOCKS STAKE_FULL_TICKS None = 1"
proof -
  let ?h = "\<lambda>i. (int i, tx_hash demo_prims (demo_pay i))"
  have v: "ob_view demo_cycler () = (Inr \<lparr>nv_chain = demo_chain_of, nv_height = 51, nv_state = demo_state\<rparr>, ())"
    "ob_storage demo_cycler () = (Inr demo_index, ())" "dp_prims (ob_deps demo_cycler) = demo_prims"
    by (simp_all add: demo_cycler_def demo_observer_def demo_deps_def return_def)
  have t: "tip_height demo_chain_of = Inr 51"
    by (simp add: tip_height_def demo_chain_of_def read_num_def read_field_def last_map)
  have i: "i < 52" if "i \<in> set (rev [1..<52])" for i :: nat using that by (simp del: upt_rec_numeral)
  have "take SEASONING_SCAN_LIMIT (rev [1..<52]) = rev [2..<52::nat]" by (simp add: SEASONING_SCAN_LIMIT_def take_rev numeral_2_eq_2 del: upt_rec_numeral)
  then have take: "take SEASONING_SCAN_LIMIT (map ?h (rev [1..<52])) = map ?h (rev [2..<52])" by (simp only: take_map)
  have r: "\<exists>b. found_at demo_prims (tops_up (demo_addr CHR ''a'')) demo_chain_of e = Inr b" if "e \<in> set (map ?h (rev [1..<52]))" for e
    using that demo_pay_tops_up by (auto simp del: upt_rec_numeral)
  have d: "found_at demo_prims (tops_up (demo_addr CHR ''a'')) demo_chain_of e = Inr False" if "e \<in> set (map ?h (rev [2..<52]))" for e
    using that demo_pay_tops_up by (auto simp del: upt_rec_numeral)
  have m: "?h 1 \<in> set (map ?h (rev [1..<52]))" unfolding set_map by (rule imageI) (simp del: upt_rec_numeral)
  have x: "found_at demo_prims (tops_up (demo_addr CHR ''a'')) demo_chain_of (?h 1) = Inr True" using demo_pay_tops_up[of 1] by simp
  have late: "51 - of_int (fst (?h 1)) < SEASONING_FLOOR_BLOCKS" by (simp add: SEASONING_FLOOR_BLOCKS_def AGE_FLOOR_BLOCKS_def)
  note dusty = dust_seasons[OF v(2,1), of 51 "demo_addr CHR ''a''" "?h 1" AGE_FULL_BLOCKS STAKE_FULL_TICKS, unfolded v(3) node_view.simps demo_heights take]
  show ?thesis using dusty[OF t r d m x late order_refl order_refl] by blast
qed


section \<open>One payment for many trades\<close>

lemma session_tag_prefix:
  "take SESSION_TAG_LEN ses' = take SESSION_TAG_LEN ses \<Longrightarrow> session_tag ord ses' n = session_tag ord ses n"
  by (simp add: session_tag_def Let_def)

lemma verify_steps_same:
  assumes "\<And>n l x. step_legs P q' r' n l x = step_legs P q r n l x" "taker_lapse_addr q' = taker_lapse_addr q"
    "rs_depth r' = rs_depth r" "rs_maker_opens r' = rs_maker_opens r"
  shows "verify_steps P G q' r' m base k schedule w = verify_steps P G q r m base k schedule w"
proof (induction schedule arbitrary: base k w)
  case (Cons x schedule)
  obtain l y where x: "x = (l, y)" by fastforce
  have "verify_steps P G q' r' m b j schedule = verify_steps P G q r m b j schedule" for b j using Cons.IH by (simp add: fun_eq_iff)
  then show ?case unfolding x verify_steps.simps assms by (simp only:)
qed simp



end
