(* ===== verification/Settlement.thy ===== *)
theory Settlement
  imports Trade
begin

text \<open>
  What a pass of \<^verbatim>\<open>swap_engine.Engine\<close> and its recovery at startup guarantee, whatever the two chains answer: when a
  step counts as done, who sends nothing yet, which rows a pass leaves alone, and what is not looked at again.
\<close>

section \<open>The calls a pass makes\<close>

inductive called :: "('w, 'e) adapter \<Rightarrow> 'w \<Rightarrow> 'w \<Rightarrow> bool" for A where
  find: "called A w (snd (a_find A from_addr to_addr memo amount w))"
| confirmations: "called A w (snd (a_confirmations A h w))"
| exists_: "called A w (snd (a_exists A addr w))"
| build: "called A w (snd (a_build A to_addr amount memo key create w))"
| submit: "called A w (snd (a_submit A envelope w))"
| consumed: "called A w (snd (a_consumed A addr seq w))"
| forget: "called A w (snd (a_forget A addr w))"

text \<open>The outside after any number of the engine's own calls.\<close>

inductive moved :: "('w, 'e) engine \<Rightarrow> 'w \<Rightarrow> 'w \<Rightarrow> bool" for G where
  here: "moved G w w"
| lapse: "moved G w w1 \<Longrightarrow> called (g_lapse G) w1 w2 \<Longrightarrow> moved G w w2"
| xlm: "moved G w w1 \<Longrightarrow> called (g_xlm G) w1 w2 \<Longrightarrow> moved G w w2"
| height: "moved G w w1 \<Longrightarrow> moved G w (snd (g_height G w1))"
| secrets: "moved G w w1 \<Longrightarrow> moved G w (snd (g_secrets G w1))"
| time: "moved G w w1 \<Longrightarrow> moved G w (snd (g_time G w1))"

lemma moved_trans: "moved G a b \<Longrightarrow> moved G b c \<Longrightarrow> moved G a c"
  by (rotate_tac 1) (induction rule: moved.induct; blast intro: moved.intros)

definition later :: "('w, 'e) engine \<Rightarrow> ('w, 'e) desk \<Rightarrow> ('w, 'e) desk \<Rightarrow> bool" where
  "later G s s' \<longleftrightarrow> moved G (d_out s) (d_out s')"

interpretation out: frame "moved G" for G
  by unfold_locales (blast intro: moved.here moved_trans)+

interpretation pass: frame "later G" for G
  by unfold_locales (auto simp: later_def intro: moved.here moved_trans)

lemma outside_later: "keeps (moved G) m \<Longrightarrow> keeps (later G) (outside m)"
  by (auto simp: keeps_def later_def outside_def split: prod.splits)
     (metis snd_conv)

lemma called_moves:
  assumes "A = g_lapse G \<or> A = g_xlm G"
  shows "keeps (moved G) (a_find A f t m a)" "keeps (moved G) (a_confirmations A h)" "keeps (moved G) (a_exists A t)"
    "keeps (moved G) (a_build A t a m k c)" "keeps (moved G) (a_submit A e)" "keeps (moved G) (a_consumed A f n)"
    "keeps (moved G) (a_forget A f)"
  using assms unfolding keeps_def by (blast intro: called.intros moved.intros)+

lemma engine_moves: "keeps (moved G) (g_height G)" "keeps (moved G) (g_secrets G)" "keeps (moved G) (g_time G)"
  unfolding keeps_def by (blast intro: moved.intros)+

lemma adapters: "out_adapter G t = g_lapse G \<or> out_adapter G t = g_xlm G" "in_adapter G t = g_lapse G \<or> in_adapter G t = g_xlm G"
  by (simp_all add: out_adapter_def in_adapter_def)

lemma rows_later:
  "keeps (later G) (save_step i)" "keeps (later G) (save_trade t)" "keeps (later G) (steps_of k)" "keeps (later G) (step_at k n)"
  by (simp_all add: keeps_def later_def save_step_def save_trade_def steps_of_def step_at_def modify_def moved.here)

lemma saved_later: "keeps (later G) (saved i)" "keeps (later G) (saved_trade t)"
  by (auto simp: saved_def saved_trade_def intro!: pass.bind pass.return rows_later)

lemmas out_calls = called_moves[OF adapters(1)] called_moves[OF adapters(2)] engine_moves
lemmas pass_parts = pass.bind pass.return pass.lift pass.cond pass.opt pass.pair rows_later saved_later

lemma record_outbound_later: "keeps (later G) (record_outbound G i h d k)"
  unfolding record_outbound_def by (intro pass_parts outside_later out_calls)

lemma unpropagate_later: "keeps (later G) (unpropagate_deadline t i)"
  unfolding unpropagate_deadline_def clear_due_def by (intro pass_parts)

lemma check_outbound_later: "keeps (later G) (check_outbound G t i)"
  unfolding check_outbound_def by (intro pass_parts outside_later out_calls record_outbound_later unpropagate_later)

lemma check_inbound_later: "keeps (later G) (check_inbound G t i)"
  unfolding check_inbound_def recheck_inbound_def seek_inbound_def
  by (intro pass_parts outside_later out_calls unpropagate_later)

lemma resend_later: "A = g_lapse G \<or> A = g_xlm G \<Longrightarrow> keeps (later G) (resend G i A f e)"
  unfolding resend_def by (intro pass_parts outside_later engine_moves called_moves)

lemma build_and_send_later: "A = g_lapse G \<or> A = g_xlm G \<Longrightarrow> keeps (later G) (build_and_send G i A to_addr memo amount)"
  unfolding build_and_send_def submit_new_def build_envelope_def xlm_send_amount_def
  by (intro pass_parts outside_later engine_moves called_moves out.bind out.return out.cond out.pair)

lemma ensure_sent_later: "keeps (later G) (ensure_sent G t i)"
  unfolding ensure_sent_def send_unpaid_def
  by (intro pass_parts outside_later out_calls record_outbound_later build_and_send_later[OF adapters(1)] resend_later[OF adapters(1)])

lemma pay_later: "keeps (later G) (pay_leg G t i)"
  unfolding pay_leg_def by (intro pass_parts check_outbound_later ensure_sent_later)
section \<open>A step is only done when the chains say so\<close>

type_synonym terms = "string \<times> string \<times> string \<times> int"

text \<open>Asked now, the chain has this transaction at that depth.\<close>

definition says :: "('w, 'e) adapter \<Rightarrow> terms res \<Rightarrow> string \<Rightarrow> int \<Rightarrow> 'w \<Rightarrow> bool" where
  "says A terms h depth w \<longleftrightarrow>
     (case a_confirmations A h w of (Inr (Some d), _) \<Rightarrow> d \<ge> depth | _ \<Rightarrow> False)
   \<or> (case terms of Inl _ \<Rightarrow> False | Inr (from_addr, to_addr, memo, amount) \<Rightarrow>
       (case a_find A from_addr to_addr memo amount w of (Inr (Some (g, d)), _) \<Rightarrow> g = h \<and> d \<ge> depth | _ \<Rightarrow> False))"

definition vouched :: "('w, 'e) engine \<Rightarrow> trade \<Rightarrow> ('w, 'e) adapter \<Rightarrow> terms res \<Rightarrow> string \<Rightarrow> ('w, 'e) desk \<Rightarrow> bool" where
  "vouched G t A terms h s \<longleftrightarrow> (\<exists>w. moved G (d_out s) w \<and> says A terms h (required_depth G t A) w)"

lemma vouched_earlier: "later G s s1 \<Longrightarrow> vouched G t A terms h s1 \<Longrightarrow> vouched G t A terms h s"
  unfolding vouched_def later_def by (blast intro: moved_trans)

lemma vouched_conf:
  "a_confirmations A h (d_out s) = (Inr (Some d), w) \<Longrightarrow> d \<ge> required_depth G t A \<Longrightarrow> vouched G t A terms h s"
  unfolding vouched_def by (rule exI[of _ "d_out s"]) (simp add: says_def moved.here)

lemma vouched_find:
  "terms = Inr (f, g, m, a) \<Longrightarrow> a_find A f g m a (d_out s) = (Inr (Some (h, d)), w) \<Longrightarrow> d \<ge> required_depth G t A
   \<Longrightarrow> vouched G t A terms h s"
  unfolding vouched_def by (rule exI[of _ "d_out s"]) (simp add: says_def moved.here)

text \<open>What no call changes in a row.\<close>

definition same_step :: "'e increment \<Rightarrow> 'e increment \<Rightarrow> bool" where
  "same_step i j \<longleftrightarrow> inc_session j = inc_session i \<and> inc_n j = inc_n i \<and> lapse_amount j = lapse_amount i
     \<and> xlm_amount j = xlm_amount i \<and> moves_first j = moves_first i \<and> deadline_at j = deadline_at i \<and> due_height j = due_height i"

lemma same_step_refl: "same_step i i"
  by (simp add: same_step_def)

lemma same_step_trans: "same_step i j \<Longrightarrow> same_step j k \<Longrightarrow> same_step i k"
  by (simp add: same_step_def)

lemma same_terms: "same_step i j \<Longrightarrow> out_terms t j = out_terms t i \<and> in_terms t j = in_terms t i"
  by (simp add: same_step_def out_terms_def in_terms_def cong: if_cong)

definition same_in :: "'e increment \<Rightarrow> 'e increment \<Rightarrow> bool" where
  "same_in i j \<longleftrightarrow> same_step i j \<and> in_state j = in_state i \<and> in_tx_hash j = in_tx_hash i"

definition same_out :: "'e increment \<Rightarrow> 'e increment \<Rightarrow> bool" where
  "same_out i j \<longleftrightarrow> same_step i j \<and> out_state j = out_state i \<and> out_tx_hash j = out_tx_hash i"

lemmas same_defs = same_in_def same_out_def same_step_def

lemma outside_Inr: "outside m s = (Inr x, s') \<longleftrightarrow> (\<exists>w'. m (d_out s) = (Inr x, w') \<and> s' = s\<lparr>d_out := w'\<rparr>)"
  by (auto simp: outside_def split: prod.splits)

lemma saved_run: "saved i s = (r, s') \<Longrightarrow> r = Inr i"
  by (simp add: saved_def save_step_def bind_modify) (simp add: return_def)

lemma unpropagate_states:
  "unpropagate_deadline t i s = (Inr i1, s') \<Longrightarrow> same_in i i1 \<and> same_out i i1"
  by (auto simp: unpropagate_deadline_def return_def bind_act_Inr same_defs dest!: saved_run split: if_splits)

lemma record_outbound_states:
  assumes "record_outbound G i h d required s = (Inr i1, s')"
  shows "same_in i i1 \<and> out_state i1 = (if d \<ge> required then LegSettled else LegSubmitted) \<and> out_tx_hash i1 = h"
  using assms by (auto simp: record_outbound_def bind_act_Inr same_defs dest!: saved_run split: if_splits)

text \<open>A row that says settled names the transaction.\<close>

definition row_ok :: "'e increment \<Rightarrow> bool" where
  "row_ok i \<longleftrightarrow> (out_state i = LegSettled \<longrightarrow> out_tx_hash i \<noteq> []) \<and> (in_state i = LegSettled \<longrightarrow> in_tx_hash i \<noteq> [])"

lemma check_outbound_states:
  assumes "check_outbound G t i s = (Inr i1, s')"
  shows "same_in i i1 \<and> out_tx_hash i1 = out_tx_hash i \<and> (out_tx_hash i = [] \<longrightarrow> i1 = i)
    \<and> (out_state i1 = LegSettled \<longrightarrow> out_tx_hash i \<noteq> [] \<longrightarrow> vouched G t (out_adapter G t) (out_terms t i) (out_tx_hash i1) s)"
proof (cases "out_tx_hash i = []")
  case True
  with assms show ?thesis by (simp add: check_outbound_def return_def same_defs)
next
  case False
  with assms have "bind_act (outside (a_confirmations (out_adapter G t) (out_tx_hash i))) (\<lambda>depth. case depth of
          None \<Rightarrow> bind_act (saved (i\<lparr>out_state := LegSubmitted, out_settled_at := 0\<rparr>)) (unpropagate_deadline t)
        | Some d \<Rightarrow> record_outbound G i (out_tx_hash i) d (required_depth G t (out_adapter G t))) s = (Inr i1, s')"
    by (simp add: check_outbound_def)
  then obtain depth w where d: "a_confirmations (out_adapter G t) (out_tx_hash i) (d_out s) = (Inr depth, w)"
    and r: "(case depth of None \<Rightarrow> bind_act (saved (i\<lparr>out_state := LegSubmitted, out_settled_at := 0\<rparr>)) (unpropagate_deadline t)
        | Some d \<Rightarrow> record_outbound G i (out_tx_hash i) d (required_depth G t (out_adapter G t))) (s\<lparr>d_out := w\<rparr>) = (Inr i1, s')"
    unfolding bind_act_Inr outside_Inr by blast
  show ?thesis
  proof (cases depth)
    case None
    with r False show ?thesis by (auto simp: bind_act_Inr same_defs dest!: saved_run unpropagate_states)
  next
    case (Some k)
    with r have "same_in i i1" "out_state i1 = (if k \<ge> required_depth G t (out_adapter G t) then LegSettled else LegSubmitted)"
      "out_tx_hash i1 = out_tx_hash i"
      using record_outbound_states by fastforce+
    with False vouched_conf[OF d[unfolded Some]] show ?thesis by (simp split: if_splits)
  qed
qed

lemma check_inbound_states:
  assumes "check_inbound G t i s = (Inr i1, s')"
  shows "same_out i i1 \<and> (in_state i1 = LegSettled \<longrightarrow> (in_state i = LegSettled \<longrightarrow> in_tx_hash i \<noteq> [])
       \<longrightarrow> vouched G t (in_adapter G t) (in_terms t i) (in_tx_hash i1) s)"
proof (cases "in_state i = LegSettled \<and> in_tx_hash i \<noteq> []")
  case True
  with assms have "recheck_inbound G t i s = (Inr i1, s')"
    by (auto simp: check_inbound_def bind_act_Inr lift_res_def)
  then obtain depth w where d: "a_confirmations (in_adapter G t) (in_tx_hash i) (d_out s) = (Inr depth, w)"
    and r: "(if (case depth of None \<Rightarrow> True | Some d \<Rightarrow> d < required_depth G t (in_adapter G t))
       then bind_act (saved (i\<lparr>in_state := LegPending, in_settled_at := 0\<rparr>)) (unpropagate_deadline t)
       else return i) (s\<lparr>d_out := w\<rparr>) = (Inr i1, s')"
    unfolding recheck_inbound_def bind_act_Inr outside_Inr by blast
  show ?thesis
  proof (cases "case depth of None \<Rightarrow> True | Some d \<Rightarrow> d < required_depth G t (in_adapter G t)")
    case True
    with r show ?thesis by (auto simp: bind_act_Inr same_defs dest!: saved_run unpropagate_states)
  next
    case False
    then obtain k where k: "depth = Some k" "k \<ge> required_depth G t (in_adapter G t)" by (cases depth) auto
    from vouched_conf[OF d[unfolded k(1)] k(2)] False r show ?thesis by (simp add: return_def same_defs)
  qed
next
  case False
  with assms have "seek_inbound G t i s = (Inr i1, s')"
    by (auto simp: check_inbound_def bind_act_Inr lift_res_def)
  then obtain f g m a found w where tm: "in_terms t i = Inr (f, g, m, a)"
    and d: "a_find (in_adapter G t) f g m a (d_out s) = (Inr found, w)"
    and r: "(case found of None \<Rightarrow> return i
     | Some (tx_hash, depth) \<Rightarrow>
         if depth \<ge> required_depth G t (in_adapter G t)
         then bind_act (outside (g_time G)) (\<lambda>now. saved (i\<lparr>in_tx_hash := tx_hash, in_state := LegSettled, in_settled_at := now\<rparr>))
         else saved (i\<lparr>in_tx_hash := tx_hash\<rparr>)) (s\<lparr>d_out := w\<rparr>) = (Inr i1, s')"
    by (cases "in_terms t i") (auto simp: seek_inbound_def lift_res_def bind_act_def outside_def split: prod.splits sum.splits)
  show ?thesis
  proof (cases found)
    case None
    with r False show ?thesis by (auto simp: return_def same_defs)
  next
    case (Some p)
    then obtain h k where p: "found = Some (h, k)" by (cases p) simp
    show ?thesis
    proof (cases "k \<ge> required_depth G t (in_adapter G t)")
      case True
      with r p show ?thesis using vouched_find[OF tm d[unfolded p] True] by (auto simp: bind_act_Inr same_defs dest!: saved_run)
    next
      case low: False
      with r p False show ?thesis by (auto simp: same_defs dest!: saved_run)
    qed
  qed
qed

lemma build_and_send_states:
  "build_and_send G i A to_addr memo amount s = (Inr i1, s') \<Longrightarrow> same_in i i1 \<and> out_state i1 \<noteq> LegSettled"
  by (auto simp: build_and_send_def submit_new_def bind_act_Inr lift_res_def same_defs dest!: saved_run split: if_splits)

lemma resend_states:
  "resend G i A f e s = (Inr (i1, q), s') \<Longrightarrow> same_in i i1 \<and> (out_state i \<noteq> LegSettled \<longrightarrow> out_state i1 \<noteq> LegSettled)"
  by (auto simp: resend_def bind_act_Inr return_def same_defs dest!: saved_run split: if_splits)

lemma send_unpaid_states:
  assumes "send_unpaid G i A f to_addr memo amount s = (Inr i1, s')" "out_state i \<noteq> LegSettled"
  shows "same_in i i1 \<and> out_state i1 \<noteq> LegSettled"
  using assms
  by (auto simp: send_unpaid_def bind_act_Inr return_def same_in_def split: option.splits if_splits
      dest!: build_and_send_states resend_states intro: same_step_trans)

lemma ensure_sent_states:
  assumes "ensure_sent G t i s = (Inr i1, s')" and open_: "out_state i \<noteq> LegSettled"
  shows "same_in i i1 \<and> (out_state i1 = LegSettled \<longrightarrow> vouched G t (out_adapter G t) (out_terms t i) (out_tx_hash i1) s)"
proof -
  from assms obtain f g m a found w where tm: "out_terms t i = Inr (f, g, m, a)"
    and d: "a_find (out_adapter G t) f g m a (d_out s) = (Inr found, w)"
    and r: "(case found of
         Some (tx_hash, depth) \<Rightarrow> record_outbound G i tx_hash depth (required_depth G t (out_adapter G t))
       | None \<Rightarrow> send_unpaid G i (out_adapter G t) f g m a) (s\<lparr>d_out := w\<rparr>) = (Inr i1, s')"
    by (cases "out_terms t i") (auto simp: ensure_sent_def lift_res_def bind_act_def outside_def split: prod.splits sum.splits)
  show ?thesis
  proof (cases found)
    case None
    with r send_unpaid_states[OF _ open_] show ?thesis by force
  next
    case (Some p)
    then obtain h k where p: "found = Some (h, k)" by (cases p) simp
    with r have "same_in i i1" "out_tx_hash i1 = h"
      "out_state i1 = (if k \<ge> required_depth G t (out_adapter G t) then LegSettled else LegSubmitted)"
      using record_outbound_states by fastforce+
    with vouched_find[OF tm d[unfolded p]] show ?thesis by (simp split: if_splits)
  qed
qed

lemma pay_states:
  assumes "pay_leg G t i s = (Inr i', s')" "out_state i = LegSettled \<Longrightarrow> out_tx_hash i \<noteq> []"
  shows "same_in i i' \<and> (out_state i' = LegSettled \<longrightarrow> vouched G t (out_adapter G t) (out_terms t i) (out_tx_hash i') s)"
proof -
  from assms(1) obtain i1 s1 where c: "check_outbound G t i s = (Inr i1, s1)"
    and r: "(if out_state i1 = LegSettled then return i1 else bind_act (ensure_sent G t i1) (check_outbound G t)) s1 = (Inr i', s')"
    unfolding pay_leg_def bind_act_Inr by blast
  note c1 = check_outbound_states[OF c] and l1 = keepsD[OF check_outbound_later c]
  show ?thesis
  proof (cases "out_state i1 = LegSettled")
    case True
    with r have "i' = i1" by (simp add: return_def)
    moreover have "out_tx_hash i \<noteq> []" using True c1 assms(2) by auto
    ultimately show ?thesis using c1 True by metis
  next
    case open_: False
    with r obtain i2 s2 where e: "ensure_sent G t i1 s1 = (Inr i2, s2)" and c2: "check_outbound G t i2 s2 = (Inr i', s')"
      by (auto simp: bind_act_Inr)
    note e1 = ensure_sent_states[OF e open_] and c3 = check_outbound_states[OF c2]
    have l2: "later G s s2" by (rule pass.trans[OF l1 keepsD[OF ensure_sent_later e]])
    have same: "same_in i i1" "same_in i1 i2" "same_in i2 i'" using c1 e1 c3 by simp_all
    then have tm: "out_terms t i1 = out_terms t i" "out_terms t i2 = out_terms t i"
      using same_terms unfolding same_in_def by metis+
    have "vouched G t (out_adapter G t) (out_terms t i) (out_tx_hash i') s" if st: "out_state i' = LegSettled"
    proof (cases "out_tx_hash i2 = []")
      case True
      with c3 st e1 have "vouched G t (out_adapter G t) (out_terms t i) (out_tx_hash i') s1" by (simp add: tm)
      then show ?thesis by (rule vouched_earlier[OF l1])
    next
      case False
      with c3 st have "vouched G t (out_adapter G t) (out_terms t i) (out_tx_hash i') s2" unfolding tm by metis
      then show ?thesis by (rule vouched_earlier[OF l2])
    qed
    with same show ?thesis unfolding same_in_def using same_step_trans by metis
  qed
qed

lemma update_timing_states:
  "update_timing G t i s = (Inr (t1, i1), s') \<Longrightarrow> same_in i i1 \<and> same_out i i1"
  by (auto simp: update_timing_def note_completed_def saved_trade_def bind_act_Inr return_def same_defs dest!: saved_run
      split: if_splits)

lemma legs_done:
  assumes "legs G t i s = (Inr i', s')" "row_ok i" "step_done i'"
  shows "same_step i i' \<and> vouched G t (out_adapter G t) (out_terms t i) (out_tx_hash i') s
    \<and> vouched G t (in_adapter G t) (in_terms t i) (in_tx_hash i') s"
proof (cases "moves_first i")
  case True
  with assms(1) obtain i1 s1 where p: "pay_leg G t i s = (Inr i1, s1)"
    and r: "(if out_state i1 = LegSettled then check_inbound G t i1 else return i1) s1 = (Inr i', s')"
    by (auto simp: legs_def bind_act_Inr)
  have row: "out_state i = LegSettled \<Longrightarrow> out_tx_hash i \<noteq> []" using assms(2) by (simp add: row_ok_def)
  note ps = pay_states[OF p row]
  have "out_state i1 = LegSettled" using r assms(3) by (auto simp: step_done_def return_def split: if_splits)
  with r have c: "check_inbound G t i1 s1 = (Inr i', s')" by simp
  note cs = check_inbound_states[OF c]
  have st: "same_step i i1" "same_step i1 i'" "in_state i1 = in_state i" "in_tx_hash i1 = in_tx_hash i"
    "out_tx_hash i' = out_tx_hash i1" using ps cs by (simp_all add: same_in_def same_out_def)
  have "vouched G t (in_adapter G t) (in_terms t i1) (in_tx_hash i') s1"
    using cs assms(2,3) st by (simp add: row_ok_def step_done_def)
  then have "vouched G t (in_adapter G t) (in_terms t i) (in_tx_hash i') s"
    using vouched_earlier[OF keepsD[OF pay_later p]] same_terms[OF st(1)] by metis
  then show ?thesis using ps st \<open>out_state i1 = LegSettled\<close> same_step_trans[OF st(1,2)] by simp
next
  case False
  with assms(1) obtain i1 s1 where c: "check_inbound G t i s = (Inr i1, s1)"
    and r: "(if in_state i1 = LegSettled then pay_leg G t i1 else return i1) s1 = (Inr i', s')"
    by (auto simp: legs_def bind_act_Inr)
  note cs = check_inbound_states[OF c]
  have sett: "in_state i1 = LegSettled" using r assms(3) by (auto simp: step_done_def return_def split: if_splits)
  with r have p: "pay_leg G t i1 s1 = (Inr i', s')" by simp
  have row: "out_state i1 = LegSettled \<Longrightarrow> out_tx_hash i1 \<noteq> []" using assms(2) cs by (simp add: row_ok_def same_out_def)
  note ps = pay_states[OF p row]
  have st: "same_step i i1" "same_step i1 i'" "in_tx_hash i' = in_tx_hash i1" using ps cs by (simp_all add: same_in_def same_out_def)
  have i: "vouched G t (in_adapter G t) (in_terms t i) (in_tx_hash i') s"
    using cs sett assms(2) st by (simp add: row_ok_def)
  have "vouched G t (out_adapter G t) (out_terms t i1) (out_tx_hash i') s1" using ps assms(3) by (simp add: step_done_def)
  then have "vouched G t (out_adapter G t) (out_terms t i) (out_tx_hash i') s"
    using vouched_earlier[OF keepsD[OF check_inbound_later c]] same_terms[OF st(1)] by metis
  with i show ?thesis using same_step_trans[OF st(1,2)] by simp
qed

lemma advance_step_done:
  assumes "advance_step G t i s = (Inr (t1, i1), s')" "row_ok i" "step_done i1"
  shows "vouched G t (out_adapter G t) (out_terms t i) (out_tx_hash i1) s
    \<and> vouched G t (in_adapter G t) (in_terms t i) (in_tx_hash i1) s"
proof -
  from assms(1) obtain i' s2 where l: "legs G t i s = (Inr i', s2)" and u: "update_timing G t i' s2 = (Inr (t1, i1), s')"
    unfolding advance_step_def bind_act_Inr by blast
  have "same_in i' i1" "same_out i' i1" using update_timing_states[OF u] by simp_all
  with legs_done[OF l assms(2)] assms(3) show ?thesis by (simp add: step_done_def same_in_def same_out_def)
qed

section \<open>One step at a time\<close>

text \<open>Every row stands under its own key.\<close>

definition keyed :: "('w, 'e) desk \<Rightarrow> bool" where
  "keyed s = list_all (\<lambda>(k, i). k = (inc_session i, inc_n i)) (d_steps s)"

lemma keyed_row: "keyed s \<Longrightarrow> map_of (d_steps s) k = Some i \<Longrightarrow> k = (inc_session i, inc_n i)"
  by (auto simp: keyed_def list_all_iff dest!: map_of_SomeD)

lemma keyed_update:
  "keyed s \<Longrightarrow> inc_session i = k \<Longrightarrow> inc_n i = n \<Longrightarrow> keyed (s\<lparr>d_steps := AList.update (k, n) i (d_steps s)\<rparr>)"
  by (auto simp: keyed_def list_all_iff dest!: set_update_sub)

text \<open>
  Nothing is changed but the legs of one step, the height by which the next step is due, and the row of the trade.
\<close>

definition legs_only :: "'e increment \<Rightarrow> ('w, 'e) desk \<Rightarrow> ('w, 'e) desk \<Rightarrow> bool" where
  "legs_only j s s' \<longleftrightarrow> map_of (d_steps s') (inc_session j, inc_n j) = map_of (d_steps s) (inc_session j, inc_n j)
     \<or> (\<exists>x. map_of (d_steps s') (inc_session j, inc_n j) = Some x \<and> same_step j x)"

definition due_only :: "'e increment \<Rightarrow> string \<times> int \<Rightarrow> ('w, 'e) desk \<Rightarrow> ('w, 'e) desk \<Rightarrow> bool" where
  "due_only j key s s' \<longleftrightarrow> map_of (d_steps s') key = map_of (d_steps s) key
     \<or> key = (inc_session j, inc_n j + 1) \<and> (\<exists>i h. map_of (d_steps s) key = Some i \<and> map_of (d_steps s') key = Some (i\<lparr>due_height := h\<rparr>))"

definition touches :: "'e increment \<Rightarrow> ('w, 'e) desk \<Rightarrow> ('w, 'e) desk \<Rightarrow> bool" where
  "touches j s s' \<longleftrightarrow>
     (keyed s \<longrightarrow> keyed s' \<and> legs_only j s s' \<and> (\<forall>key. key \<noteq> (inc_session j, inc_n j) \<longrightarrow> due_only j key s s'))
   \<and> (\<forall>k'. k' \<noteq> inc_session j \<longrightarrow> map_of (d_trades s') k' = map_of (d_trades s) k')"

lemmas touch_defs = touches_def legs_only_def due_only_def

lemma touches_refl: "touches j s s"
  by (simp add: touch_defs)

lemma due_twice: "i\<lparr>due_height := h, due_height := g\<rparr> = i\<lparr>due_height := g\<rparr>"
  by simp

lemma due_only_trans: "due_only j key a b \<Longrightarrow> due_only j key b c \<Longrightarrow> due_only j key a c"
  unfolding due_only_def using due_twice by (metis option.inject)

lemma legs_only_trans: "legs_only j a b \<Longrightarrow> legs_only j b c \<Longrightarrow> legs_only j a c"
  unfolding legs_only_def by metis

lemma touches_trans: "touches j a b \<Longrightarrow> touches j b c \<Longrightarrow> touches j a c"
  unfolding touches_def by (simp, blast intro: due_only_trans legs_only_trans)

interpretation one: frame "touches j" for j
  by unfold_locales (rule touches_refl, rule touches_trans)

lemma save_step_one: "same_step j i \<Longrightarrow> keeps (touches j) (save_step i)"
  by (auto simp: keeps_def save_step_def modify_def touch_defs update_conv' keyed_update same_step_def)

lemma saved_one: "same_step j i \<Longrightarrow> keeps (touches j) (saved i)"
  unfolding saved_def by (intro one.bind save_step_one one.return)

lemma save_trade_one: "tr_session t = inc_session j \<Longrightarrow> keeps (touches j) (save_trade t)"
  by (simp add: keeps_def save_trade_def modify_def touch_defs update_conv' keyed_def)

lemma saved_trade_one: "tr_session t = inc_session j \<Longrightarrow> keeps (touches j) (saved_trade t)"
  unfolding saved_trade_def by (intro one.bind save_trade_one one.return)

lemma outside_one: "keeps (touches j) (outside m)"
  by (auto simp: keeps_def outside_def touch_defs keyed_def split: prod.splits)

lemma set_due_one:
  assumes "map_of (d_steps s) (inc_session j, inc_n j + 1) = Some x"
  shows "touches j s (snd (save_step (x\<lparr>due_height := h\<rparr>) s))"
proof (cases "has_key (d_steps s) (inc_session x, inc_n x)")
  case False
  then show ?thesis by (simp add: save_step_def modify_def touches_refl)
next
  case True
  let ?s = "s\<lparr>d_steps := AList.update (inc_session x, inc_n x) (x\<lparr>due_height := h\<rparr>) (d_steps s)\<rparr>"
  have "touches j s ?s"
    unfolding touches_def
  proof (intro conjI impI allI)
    assume ks: "keyed s"
    then show "keyed ?s" by (simp add: keyed_update)
    show "legs_only j s ?s" using keyed_row[OF ks assms] by (simp add: legs_only_def update_conv')
    fix key assume "key \<noteq> (inc_session j, inc_n j)"
    show "due_only j key s ?s" using assms keyed_row[OF ks assms] by (auto simp: due_only_def update_conv')
  qed simp
  with True show ?thesis by (simp add: save_step_def modify_def)
qed

lemma clear_due_one: "tr_session t = inc_session j \<Longrightarrow> inc_n j = n \<Longrightarrow> keeps (touches j) (clear_due t n h)"
  by (auto simp: keeps_def clear_due_def bind_act_def step_at_def return_def touches_refl set_due_one
      split: option.splits)

lemma propagate_one: "tr_session t = inc_session j \<Longrightarrow> inc_n i = inc_n j \<Longrightarrow> keeps (touches j) (propagate_deadline t i)"
  by (auto simp: keeps_def propagate_deadline_def bind_act_def step_at_def return_def touches_refl set_due_one
      split: option.splits)

lemma saved_bind_one:
  assumes "same_step j i" "keeps (touches j) (f i)"
  shows "keeps (touches j) (bind_act (saved i) f)"
  by (rule one.bind_with[where Q = "\<lambda>x. x = i"]) (use assms in \<open>auto simp: saved_one dest: saved_run\<close>)

lemma record_outbound_one: "same_step j i \<Longrightarrow> keeps (touches j) (record_outbound G i h d r)"
  unfolding record_outbound_def by (intro one.bind one.cond outside_one saved_one) (simp_all add: same_step_def)

lemma unpropagate_one: "same_step j i \<Longrightarrow> tr_session t = inc_session j \<Longrightarrow> keeps (touches j) (unpropagate_deadline t i)"
  unfolding unpropagate_deadline_def
  by (intro one.cond one.return saved_bind_one one.bind) (simp_all add: same_step_def clear_due_one)

lemma check_outbound_one:
  "same_step j i \<Longrightarrow> tr_session t = inc_session j \<Longrightarrow> keeps (touches j) (check_outbound G t i)"
  unfolding check_outbound_def
  by (intro one.cond one.return one.bind one.opt outside_one saved_bind_one record_outbound_one unpropagate_one)
     (simp_all add: same_step_def)

lemma check_inbound_one:
  "same_step j i \<Longrightarrow> tr_session t = inc_session j \<Longrightarrow> keeps (touches j) (check_inbound G t i)"
  unfolding check_inbound_def recheck_inbound_def seek_inbound_def
  by (intro one.cond one.return one.lift one.bind one.opt one.pair outside_one saved_bind_one saved_one unpropagate_one)
     (simp_all add: same_step_def)

lemma build_and_send_one: "same_step j i \<Longrightarrow> keeps (touches j) (build_and_send G i A to_addr memo amount)"
  unfolding build_and_send_def submit_new_def
  by (intro one.cond one.lift one.bind one.pair outside_one saved_bind_one saved_one)
     (simp_all add: same_step_def)

lemma resend_one: "same_step j i \<Longrightarrow> keeps (touches j) (resend G i A f e)"
  unfolding resend_def
  by (intro one.cond one.return one.bind one.pair outside_one saved_bind_one) (simp_all add: same_step_def)

lemma send_unpaid_one:
  assumes "same_step j i" shows "keeps (touches j) (send_unpaid G i A f to_addr memo amount)"
  unfolding send_unpaid_def
proof (intro one.opt build_and_send_one assms)
  fix e
  show "keeps (touches j) (bind_act (resend G i A f e) (\<lambda>(i1, in_play).
          if in_play then return i1 else build_and_send G i1 A to_addr memo amount))"
  proof (rule one.bind_with[where Q = "\<lambda>p. same_step j (fst p)", OF resend_one[OF assms]])
    fix s x s' assume r: "resend G i A f e s = (Inr x, s')"
    from resend_states[of G i A f e s "fst x" "snd x" s'] r have "same_step i (fst x)" by (simp add: same_in_def)
    then show "same_step j (fst x)" by (rule same_step_trans[OF assms])
  next
    fix x :: "'a increment \<times> bool" assume "same_step j (fst x)"
    then show "keeps (touches j) (case x of (i1, in_play) \<Rightarrow> if in_play then return i1 else build_and_send G i1 A to_addr memo amount)"
      by (cases x) (simp add: one.return build_and_send_one)
  qed
qed

lemma ensure_sent_one: "same_step j i \<Longrightarrow> keeps (touches j) (ensure_sent G t i)"
  unfolding ensure_sent_def
  by (intro one.cond one.return one.lift one.bind one.opt one.pair outside_one record_outbound_one send_unpaid_one)

lemma send_unpaid_same: "send_unpaid G i A f to_addr memo amount s = (Inr i1, s') \<Longrightarrow> same_in i i1"
  by (auto simp: send_unpaid_def bind_act_Inr return_def same_in_def split: option.splits if_splits
      dest!: build_and_send_states resend_states intro: same_step_trans)

lemma ensure_sent_same: "ensure_sent G t i s = (Inr i1, s') \<Longrightarrow> out_state i \<noteq> LegSettled \<Longrightarrow> same_step i i1"
  using ensure_sent_states[of G t i s i1 s'] by (simp add: same_in_def)

lemma check_outbound_stands: "check_outbound G t i s = (Inr i', s') \<Longrightarrow> same_step j i \<Longrightarrow> same_step j i'"
  using check_outbound_states same_step_trans unfolding same_in_def by blast

lemma ensure_sent_stands:
  "ensure_sent G t i s = (Inr i', s') \<Longrightarrow> out_state i \<noteq> LegSettled \<Longrightarrow> same_step j i \<Longrightarrow> same_step j i'"
  using ensure_sent_same same_step_trans by blast

lemma send_and_check_one:
  assumes "same_step j i" "tr_session t = inc_session j" "out_state i \<noteq> LegSettled"
  shows "keeps (touches j) (bind_act (ensure_sent G t i) (check_outbound G t))"
  by (rule one.bind_with[where Q = "same_step j", OF ensure_sent_one[OF assms(1)]])
     (erule ensure_sent_stands[OF _ assms(3,1)], erule check_outbound_one[OF _ assms(2)])

lemma pay_one:
  assumes "same_step j i" "tr_session t = inc_session j"
  shows "keeps (touches j) (pay_leg G t i)"
  unfolding pay_leg_def
  by (rule one.bind_with[where Q = "same_step j", OF check_outbound_one[OF assms]])
     (erule check_outbound_stands[OF _ assms(1)], simp add: one.return send_and_check_one assms(2))

lemma pay_stands:
  assumes "pay_leg G t i s = (Inr i', s')" "same_step j i"
  shows "same_step j i'"
proof -
  from assms(1) obtain i1 s1 where c: "check_outbound G t i s = (Inr i1, s1)"
    and r: "(if out_state i1 = LegSettled then return i1 else bind_act (ensure_sent G t i1) (check_outbound G t)) s1 = (Inr i', s')"
    unfolding pay_leg_def bind_act_Inr by blast
  from check_outbound_stands[OF c assms(2)] r show ?thesis
    by (auto simp: return_def bind_act_Inr split: if_splits dest: ensure_sent_stands check_outbound_stands)
qed

lemma check_inbound_same: "check_inbound G t i s = (Inr i', s') \<Longrightarrow> same_out i i'"
  using check_inbound_states by blast

lemma check_inbound_stands: "check_inbound G t i s = (Inr i', s') \<Longrightarrow> same_step j i \<Longrightarrow> same_step j i'"
  using check_inbound_same same_step_trans unfolding same_out_def by blast

lemma legs_stands: "legs G t i s = (Inr i', s') \<Longrightarrow> same_step j i \<Longrightarrow> same_step j i'"
  by (auto simp: legs_def bind_act_Inr return_def split: if_splits dest: pay_stands check_inbound_stands)

lemma legs_one:
  assumes "same_step j i" "tr_session t = inc_session j"
  shows "keeps (touches j) (legs G t i)"
  unfolding legs_def
proof (intro one.cond)
  show "keeps (touches j) (bind_act (pay_leg G t i) (\<lambda>i1. if out_state i1 = LegSettled then check_inbound G t i1 else return i1))"
    by (rule one.bind_with[where Q = "same_step j", OF pay_one[OF assms]])
       (erule pay_stands[OF _ assms(1)], simp add: one.return check_inbound_one assms(2))
  show "keeps (touches j) (bind_act (check_inbound G t i) (\<lambda>i1. if in_state i1 = LegSettled then pay_leg G t i1 else return i1))"
    by (rule one.bind_with[where Q = "same_step j", OF check_inbound_one[OF assms]])
       (erule check_inbound_stands[OF _ assms(1)], simp add: one.return pay_one assms(2))
qed

lemma update_timing_one:
  assumes "same_step j i" "tr_session t = inc_session j"
  shows "keeps (touches j) (update_timing G t i)"
proof -
  have st: "same_step j (i\<lparr>completed_height := h\<rparr>)" for h using assms(1) by (simp add: same_step_def)
  have "keeps (touches j) (note_completed G t i)" unfolding note_completed_def
    by (intro one.cond one.return one.bind saved_bind_one outside_one st propagate_one assms(2)) (use assms(1) in \<open>simp add: same_step_def\<close>)
  with assms(2) show ?thesis unfolding update_timing_def
    by (intro one.cond one.return one.bind outside_one saved_trade_one) simp_all
qed

lemma first_open_set: "first_open is = Some i \<Longrightarrow> i \<in> set is \<and> \<not> step_done i"
  by (induction "is") (auto split: if_splits)

lemma rows_of: "i \<in> set (sort_key inc_n (map snd (filter (\<lambda>((k, _), _). k = session) (d_steps s)))) \<Longrightarrow> keyed s \<Longrightarrow> inc_session i = session"
  by (auto simp: keyed_def list_all_iff)

text \<open>The step a pass works on.\<close>

definition open_step :: "string \<Rightarrow> ('w, 'e) desk \<Rightarrow> 'e increment option" where
  "open_step session s = first_open (sort_key inc_n (map snd (filter (\<lambda>((k, _), _). k = session) (d_steps s))))"

lemma advance_open:
  "advance G t s = (case open_step (tr_session t) s of
       Some i \<Rightarrow> bind_act (advance_step G t i) (\<lambda>(t1, i1). return (t1, Some i1)) s
     | None \<Rightarrow> bind_act (complete G t) (\<lambda>t1. return (t1, None)) s)"
  by (simp add: advance_def steps_of_def open_step_def bind_act_def split: option.splits)

lemma open_step_session: "keyed s \<Longrightarrow> open_step k s = Some i \<Longrightarrow> inc_session i = k"
  using first_open_set rows_of unfolding open_step_def by blast

lemma pass_touches_one_step:
  assumes "keyed s" "open_step (tr_session t) s = Some i"
  shows "touches i s (snd (advance G t s))"
proof -
  have t: "tr_session t = inc_session i" using open_step_session[OF assms] by simp
  have "keeps (touches i) (advance_step G t i)"
    unfolding advance_step_def
    by (rule one.bind_with[where Q = "same_step i", OF legs_one[OF same_step_refl t]])
       (erule legs_stands[OF _ same_step_refl], rule update_timing_one[OF _ t])
  then have "keeps (touches i) (bind_act (advance_step G t i) (\<lambda>(t1, i1). return (t1, Some i1)))"
    by (intro one.bind one.pair one.return)
  then show ?thesis using assms(2) by (simp add: advance_open keeps_def)
qed
section \<open>Recovery works on what it read first\<close>

text \<open>The row stands in the database as it was read, but for its legs.\<close>

definition written :: "'e increment \<Rightarrow> ('w, 'e) desk \<Rightarrow> bool" where
  "written j s \<longleftrightarrow> (\<exists>x. map_of (d_steps s) (inc_session j, inc_n j) = Some x \<and> same_step j x)"

definition there :: "'e increment \<Rightarrow> ('w, 'e) desk \<Rightarrow> bool" where
  "there j s \<longleftrightarrow> has_key (d_steps s) (inc_session j, inc_n j)"

lemma touches_written: "touches j s s' \<Longrightarrow> keyed s \<Longrightarrow> written j s \<Longrightarrow> written j s'"
  by (auto simp: touch_defs written_def)

lemma touches_other:
  assumes "touches i s s'" "keyed s" "inc_session i = inc_session j" "inc_n j < inc_n i"
  shows "map_of (d_steps s') (inc_session j, inc_n j) = map_of (d_steps s) (inc_session j, inc_n j)"
proof -
  have "due_only i (inc_session j, inc_n j) s s'" using assms by (simp add: touches_def)
  with assms(4) show ?thesis by (simp add: due_only_def)
qed

lemma touches_there: "touches i s s' \<Longrightarrow> keyed s \<Longrightarrow> there j s \<Longrightarrow> there j s'"
  unfolding touch_defs there_def has_key_map_of by (metis option.distinct(1))

lemma save_writes: "there j s \<Longrightarrow> same_step j i \<Longrightarrow> written j (snd (saved i s))"
  by (simp add: saved_def save_step_def bind_modify return_def there_def written_def same_step_def update_conv')

lemma later_writes: "keeps (touches j) m \<Longrightarrow> keyed s \<Longrightarrow> written j s \<Longrightarrow> written j (snd (m s))"
  unfolding keeps_def using touches_written by blast

lemma saved_bind_writes:
  assumes "there j s" "same_step j i" "keyed s" "keeps (touches j) (f i)"
  shows "written j (snd (bind_act (saved i) f s))"
proof -
  obtain s1 where s1: "saved i s = (Inr i, s1)" using saved_run[of i s] by (cases "saved i s") auto
  have "written j s1" using save_writes[OF assms(1,2)] by (simp add: s1)
  moreover have "keyed s1" using keepsD[OF saved_one[OF assms(2)] s1] assms(3) by (simp add: touches_def)
  ultimately show ?thesis using later_writes[OF assms(4)] by (simp add: bind_act_def s1)
qed

text \<open>A call on the outside that returns.\<close>

definition answers :: "('w, 'a) act \<Rightarrow> bool" where
  "answers m \<longleftrightarrow> (\<forall>w. \<exists>x w'. m w = (Inr x, w'))"

lemma outside_answers:
  assumes "answers m"
  shows "\<exists>x w'. outside m s = (Inr x, s\<lparr>d_out := w'\<rparr>)"
proof -
  from assms obtain x w' where "m (d_out s) = (Inr x, w')" unfolding answers_def by blast
  then have "outside m s = (Inr x, s\<lparr>d_out := w'\<rparr>)" by (simp add: outside_def)
  then show ?thesis by blast
qed

lemma keyed_out: "keyed (s\<lparr>d_out := w\<rparr>) = keyed s" "there j (s\<lparr>d_out := w\<rparr>) = there j s"
  by (simp_all add: keyed_def there_def)

lemma record_outbound_writes:
  assumes "answers (g_time G)" "there j s"
  shows "written j (snd (record_outbound G j h d r s))"
proof -
  obtain now w' where t: "outside (g_time G) s = (Inr now, s\<lparr>d_out := w'\<rparr>)"
    using outside_answers[OF assms(1), of s] by blast
  show ?thesis
    by (simp add: record_outbound_def bind_Inr[where m = "outside m" for m, OF t]) (intro conjI impI save_writes; simp add: assms(2) keyed_out same_step_def)
qed

lemma check_outbound_writes:
  assumes "answers (g_time G)" "answers (a_confirmations (out_adapter G t) (out_tx_hash j))"
    and "there j s" "keyed s" "out_tx_hash j \<noteq> []" "tr_session t = inc_session j"
  shows "written j (snd (check_outbound G t j s))"
proof -
  obtain depth w where d: "outside (a_confirmations (out_adapter G t) (out_tx_hash j)) s = (Inr depth, s\<lparr>d_out := w\<rparr>)"
    using outside_answers[OF assms(2), of s] by blast
  have st: "same_step j (j\<lparr>out_state := LegSubmitted, out_settled_at := 0\<rparr>)" by (simp add: same_step_def)
  show ?thesis
  proof (cases depth)
    case None
    have "written j (snd (bind_act (saved (j\<lparr>out_state := LegSubmitted, out_settled_at := 0\<rparr>)) (unpropagate_deadline t) (s\<lparr>d_out := w\<rparr>)))"
      by (intro saved_bind_writes st unpropagate_one assms(6)) (simp_all add: keyed_out assms(3,4))
    with None assms(5) show ?thesis by (simp add: check_outbound_def bind_Inr[where m = "outside m" for m, OF d])
  next
    case (Some k)
    have "written j (snd (record_outbound G j (out_tx_hash j) k (required_depth G t (out_adapter G t)) (s\<lparr>d_out := w\<rparr>)))"
      by (rule record_outbound_writes[OF assms(1)]) (simp add: keyed_out assms(3))
    with Some assms(5) show ?thesis by (simp add: check_outbound_def bind_Inr[where m = "outside m" for m, OF d])
  qed
qed

lemma recover_one:
  assumes "tr_session t = inc_session j" "same_step j i"
  shows "keeps (touches j) (bind_act (recover_outbound G t i) (check_inbound G t))"
proof -
  have rec: "keeps (touches j) (recover_outbound G t x)" if "same_step j x" for x
    unfolding recover_outbound_def
    by (intro one.cond one.return one.lift one.bind one.opt one.pair outside_one record_outbound_one that)
  have rec_same: "same_step j x'" if r: "recover_outbound G t x s = (Inr x', s')" and x: "same_step j x" for x x' s s'
  proof -
    have "same_step x x'" using r
      by (auto simp: recover_outbound_def bind_act_Inr lift_res_def return_def same_step_refl same_in_def
          split: if_splits option.splits dest!: record_outbound_states)
    then show ?thesis by (rule same_step_trans[OF x])
  qed
  have tail: "keeps (touches j) (bind_act (recover_outbound G t x) (check_inbound G t))" if x: "same_step j x" for x
    by (rule one.bind_with[where Q = "same_step j", OF rec[OF x]])
       (erule rec_same[OF _ x], erule check_inbound_one[OF _ assms(1)])
  from tail[OF assms(2)] show ?thesis .
qed

lemma reconcile_step_one:
  assumes "same_step j i" "tr_session t = inc_session j"
  shows "keeps (touches j) (reconcile_step G t i)"
  unfolding reconcile_step_def
  by (rule one.bind_with[where Q = "same_step j", OF check_outbound_one[OF assms]])
     (erule check_outbound_stands[OF _ assms(1)], erule recover_one[OF assms(2)])

lemma reconcile_step_writes:
  assumes "answers (g_time G)" "\<And>h. answers (a_confirmations (out_adapter G t) h)"
    and "there j s" "keyed s" "out_tx_hash j \<noteq> []" "tr_session t = inc_session j"
  shows "written j (snd (reconcile_step G t j s))"
proof -
  obtain q s1 where c: "check_outbound G t j s = (q, s1)" by fastforce
  have w: "written j s1" using check_outbound_writes[OF assms(1) assms(2) assms(3-6)] by (simp add: c)
  have k: "keyed s1" using keepsD[OF check_outbound_one[OF same_step_refl assms(6)] c] assms(4) by (simp add: touches_def)
  show ?thesis
  proof (cases q)
    case (Inl e)
    with w c show ?thesis by (simp add: reconcile_step_def bind_act_def)
  next
    case (Inr i)
    have "same_step j i" by (rule check_outbound_stands[OF c[unfolded Inr] same_step_refl])
    from recover_one[OF assms(6) this, of G] have "touches j s1 (snd (bind_act (recover_outbound G t i) (check_inbound G t) s1))"
      unfolding keeps_def by blast
    then have "touches j s1 (snd (reconcile_step G t j s))"
      by (simp add: reconcile_step_def bind_act_def c Inr)
    then show ?thesis using touches_written k w by blast
  qed
qed

text \<open>The rows a pass or a recovery reads, in order.\<close>

definition rows_read :: "string \<Rightarrow> ('w, 'e) desk \<Rightarrow> 'e increment list" where
  "rows_read session s = sort_key inc_n (map snd (filter (\<lambda>((k, _), _). k = session) (d_steps s)))"

lemma reconcile_rows: "reconcile G t s = reconcile_steps G t (rows_read (tr_session t) s) 0 s"
  by (simp add: reconcile_def steps_of_def rows_read_def bind_act_def)

lemma reconcile_steps_frame:
  assumes "frame R" "\<And>i. i \<in> set is \<Longrightarrow> keeps R (reconcile_step G t i)"
  shows "keeps R (reconcile_steps G t is n)"
  using assms(2)
proof (induction "is" arbitrary: n)
  case Nil
  show ?case by (simp add: frame.return[OF assms(1)])
next
  case (Cons i "is")
  show ?case
  proof (rule keepsI)
    fix s r s' assume r: "reconcile_steps G t (i # is) n s = (r, s')"
    obtain q s1 where q: "reconcile_step G t i s = (q, s1)" by fastforce
    have 1: "R s s1" by (rule keepsD[OF Cons.prems q]) simp
    have rest: "keeps R (reconcile_steps G t is m)" for m using Cons by simp
    have refl: "R s1 s1" by (rule frame.refl[OF assms(1)])
    have 2: "R s1 s'"
    proof (cases q)
      case (Inl e)
      with r q refl show ?thesis by (cases e) (auto dest: keepsD[OF rest])
    next
      case (Inr x)
      with r q show ?thesis by (auto dest: keepsD[OF rest])
    qed
    show "R s s'" by (rule frame.trans[OF assms(1) 1 2])
  qed
qed

text \<open>What working on later steps keeps of a row.\<close>

definition keeps_row :: "'e increment \<Rightarrow> ('w, 'e) desk \<Rightarrow> ('w, 'e) desk \<Rightarrow> bool" where
  "keeps_row j s s' \<longleftrightarrow> keyed s \<longrightarrow> keyed s' \<and> (written j s \<longrightarrow> written j s')"

interpretation row: frame "keeps_row j" for j
  by unfold_locales (auto simp: keeps_row_def)

lemma later_step_keeps_row:
  assumes "inc_session i = inc_session j" "inc_n j < inc_n i" "tr_session t = inc_session j"
  shows "keeps (keeps_row j) (reconcile_step G t i)"
proof (rule keepsI)
  fix s r s' assume "reconcile_step G t i s = (r, s')"
  with reconcile_step_one[OF same_step_refl] assms have "touches i s s'" by (metis keepsD)
  with assms show "keeps_row j s s'"
    using touches_other[of i s s' j] by (auto simp: keeps_row_def written_def touches_def)
qed

lemma reconcile_steps_write:
  assumes "answers (g_time G)" "\<And>h. answers (a_confirmations (out_adapter G t) h)"
    and "j \<in> set is" "sorted_wrt (\<lambda>a b. inc_n a < inc_n b) is" "\<forall>i\<in>set is. inc_session i = tr_session t"
    and "there j s" "keyed s" "out_tx_hash j \<noteq> []"
  shows "written j (snd (reconcile_steps G t is n s)) \<or> (\<exists>e. fst (reconcile_steps G t is n s) = Inl e)"
  using assms(3-7)
proof (induction "is" arbitrary: n s)
  case (Cons i "is")
  obtain q s1 where q: "reconcile_step G t i s = (q, s1)" by fastforce
  have t: "tr_session t = inc_session i" "inc_session j = inc_session i" using Cons.prems by auto
  have tj: "tr_session t = inc_session j" using t by simp
  have ti: "touches i s s1" by (rule keepsD[OF reconcile_step_one[OF same_step_refl t(1)] q])
  have k1: "keyed s1" and th: "there j s1"
    using ti Cons.prems touches_there[OF ti] by (auto simp: touches_def)
  have rest: "written j (snd (reconcile_steps G t is m s1)) \<or> (\<exists>e. fst (reconcile_steps G t is m s1) = Inl e)" for m
  proof (cases "i = j")
    case True
    have "written j s1"
      using reconcile_step_writes[OF assms(1,2) _ _ assms(8) tj] Cons.prems(4,5) q True by (metis snd_conv)
    moreover have "keeps (keeps_row j) (reconcile_steps G t is m)"
      by (rule reconcile_steps_frame[OF row.frame_axioms], rule later_step_keeps_row) (use Cons.prems(2,3) True in auto)
    ultimately show ?thesis using k1 by (metis keeps_def keeps_row_def)
  next
    case False
    then show ?thesis by (intro Cons.IH) (use Cons.prems k1 th in auto)
  qed
  show ?case
  proof (cases q)
    case (Inl e)
    with q rest show ?thesis by (cases e) auto
  next
    case (Inr x)
    with q rest show ?thesis by auto
  qed
qed simp

section \<open>An example\<close>

text \<open>A chain that always answers the same depth, and rows of a trade between two parties.\<close>

definition demo_chain :: "bool \<Rightarrow> int option \<Rightarrow> (unit, string) adapter" where
  "demo_chain lapse depth = \<lparr>a_lapse = lapse,
     a_find = (\<lambda>_ _ _ _. return (case depth of None \<Rightarrow> None | Some d \<Rightarrow> Some (''aa'', d))),
     a_confirmations = (\<lambda>_. return depth), a_exists = (\<lambda>_. return True), a_build = (\<lambda>_ _ _ _ _. return (''e'', ''bb'', 1)),
     a_submit = (\<lambda>_. return (True, [])), a_consumed = (\<lambda>_ _. return False), a_forget = (\<lambda>_. return ())\<rparr>"

definition demo_engine :: "int option \<Rightarrow> int option \<Rightarrow> (unit, string) engine" where
  "demo_engine lapse xlm = mk_engine (demo_chain True lapse) (demo_chain False xlm) (return 1000)
     (return (Some [], Some [])) (return 0) 2"

definition demo_trade :: trade where
  "demo_trade = \<lparr>tr_session = ''12345678'', tr_order = ''abcdefab'', tr_maker = True, my_lapse_addr = ''m'', my_xlm_addr = ''M'',
     peer_lapse_addr = ''p'', peer_xlm_addr = ''P'', sends_lapse = True, lapse_total = 20, xlm_total = 20, tr_count = 2,
     confirm_depth = 2, accepted_height = 900, tr_status = TradeActive, updated_at = 0, stalled_since = 0\<rparr>"

definition demo_row :: "int \<Rightarrow> leg \<Rightarrow> leg \<Rightarrow> string increment" where
  "demo_row n out_leg in_leg = \<lparr>inc_session = ''12345678'', inc_n = n, lapse_amount = 10, xlm_amount = 10, moves_first = (n = 1),
     out_state = out_leg, out_envelope = None, out_tx_hash = (if out_leg = LegPending then [] else ''aa''), out_seq = 0,
     out_submitted_at = 0, out_settled_at = 0, out_detail = [], in_state = in_leg,
     in_tx_hash = (if in_leg = LegPending then [] else ''aa''), in_settled_at = 0, deadline_at = 0,
     completed_height = (if out_leg = LegSettled \<and> in_leg = LegSettled then 950 else 0),
     due_height = (if n = 1 then 912 else 962)\<rparr>"

definition demo_desk :: "string increment list \<Rightarrow> (unit, string) desk" where
  "demo_desk rows = \<lparr>d_trades = [(''12345678'', demo_trade)], d_steps = map (\<lambda>i. ((inc_session i, inc_n i), i)) rows, d_out = ()\<rparr>"

lemmas demo_swap_defs = demo_chain_def demo_engine_def demo_trade_def demo_row_def demo_desk_def

section \<open>What a pass guarantees\<close>

text \<open>when a pass leaves a step with both legs settled, each chain was asked during that pass and had the named
  transaction at the required depth: the sender's chain and the receiver's. No stored state alone completes a step.\<close>

theorem step_done_only_if_vouched:
  assumes "advance_step G t i s = (Inr (t1, i1), s')" "row_ok i" "step_done i1"
  shows "vouched G t (out_adapter G t) (out_terms t i) (out_tx_hash i1) s
    \<and> vouched G t (in_adapter G t) (in_terms t i) (in_tx_hash i1) s"
  using assms by (rule advance_step_done)

definition demo_open :: "string increment" where "demo_open = demo_row 1 LegSubmitted LegPending"

lemma demo_advance: "case advance_step (demo_engine (Some 2) (Some 9)) demo_trade demo_open (demo_desk [demo_open])
    of (Inr (_, i1), _) \<Rightarrow> step_done i1 \<and> out_tx_hash i1 = ''aa'' | _ \<Rightarrow> False"
  unfolding demo_open_def demo_swap_defs by code_simp

lemma step_done_only_if_vouched_witness:
  "vouched (demo_engine (Some 2) (Some 9)) demo_trade (out_adapter (demo_engine (Some 2) (Some 9)) demo_trade)
     (out_terms demo_trade demo_open) ''aa'' (demo_desk [demo_open])"
proof -
  obtain t1 i1 s' where r: "advance_step (demo_engine (Some 2) (Some 9)) demo_trade demo_open (demo_desk [demo_open])
      = (Inr (t1, i1), s')" and d: "step_done i1" and h: "out_tx_hash i1 = ''aa''"
    using demo_advance by (auto split: prod.splits sum.splits)
  have "row_ok demo_open" by (simp add: row_ok_def demo_open_def demo_row_def)
  from step_done_only_if_vouched[OF r this d] h show ?thesis by simp
qed

text \<open>The same engine with another chain to pay on.\<close>

definition paying_on :: "('w, 'e) adapter \<Rightarrow> trade \<Rightarrow> ('w, 'e) engine \<Rightarrow> ('w, 'e) engine" where
  "paying_on B t G = (if sends_lapse t then G\<lparr>g_lapse := B\<rparr> else G\<lparr>g_xlm := B\<rparr>)"

lemma paying_on_in: "in_adapter (paying_on B t G) t = in_adapter G t" "g_time (paying_on B t G) = g_time G"
  "g_height (paying_on B t G) = g_height G" "required_depth (paying_on B t G) t A = required_depth G t A"
  by (simp_all add: paying_on_def in_adapter_def required_depth_def)

lemma paying_on_inbound: "check_inbound (paying_on B t G) t i = check_inbound G t i"
  by (simp add: check_inbound_def recheck_inbound_def seek_inbound_def paying_on_in cong: if_cong option.case_cong)

lemma paying_on_timing: "update_timing (paying_on B t G) t i = update_timing G t i"
  by (simp add: update_timing_def note_completed_def paying_on_in cong: if_cong)

text \<open>C21: the party that moves second is never exposed: while the other side's payment is not settled, a pass does
  the same whatever the chain it would pay on answers, so it sends nothing there.\<close>

theorem second_mover_waits:
  assumes "\<not> moves_first i"
    and "case check_inbound G t i s of (Inr i1, _) \<Rightarrow> in_state i1 \<noteq> LegSettled | (Inl _, _) \<Rightarrow> True"
  shows "advance_step (paying_on B t G) t i s = advance_step G t i s"
proof -
  obtain q s1 where c: "check_inbound G t i s = (q, s1)" by fastforce
  show ?thesis
    using assms by (cases q)
      (simp_all add: advance_step_def legs_def bind_act_def c paying_on_inbound paying_on_timing return_def)
qed

lemma second_mover_waits_witness:
  "advance_step (paying_on (demo_chain True None) demo_trade (demo_engine (Some 2) None)) demo_trade
     (demo_row 2 LegPending LegPending) (demo_desk [demo_row 2 LegPending LegPending])
   = advance_step (demo_engine (Some 2) None) demo_trade (demo_row 2 LegPending LegPending)
     (demo_desk [demo_row 2 LegPending LegPending])"
proof (rule second_mover_waits)
  show "\<not> moves_first (demo_row 2 LegPending LegPending)" by (simp add: demo_row_def)
  show "case check_inbound (demo_engine (Some 2) None) demo_trade (demo_row 2 LegPending LegPending)
      (demo_desk [demo_row 2 LegPending LegPending])
    of (Inr i1, _) \<Rightarrow> in_state i1 \<noteq> LegSettled | (Inl _, _) \<Rightarrow> True"
    unfolding demo_swap_defs by code_simp
qed

text \<open>a pass over a trade changes no row of another trade, no trade but its own, and in its own trade only the
  legs of the first unfinished step and the height by which the next step is due.\<close>

theorem pass_is_one_step:
  assumes "keyed s" "open_step (tr_session t) s = Some i" "advance G t s = (r, s')"
  shows "(\<forall>session n. (session, n) \<noteq> (tr_session t, inc_n i) \<longrightarrow> (session, n) \<noteq> (tr_session t, inc_n i + 1)
        \<longrightarrow> map_of (d_steps s') (session, n) = map_of (d_steps s) (session, n))
    \<and> map_option (due_height_update (\<lambda>_. 0)) (map_of (d_steps s') (tr_session t, inc_n i + 1))
      = map_option (due_height_update (\<lambda>_. 0)) (map_of (d_steps s) (tr_session t, inc_n i + 1))
    \<and> (\<forall>session. session \<noteq> tr_session t \<longrightarrow> map_of (d_trades s') session = map_of (d_trades s) session)"
proof -
  have t: "inc_session i = tr_session t" by (rule open_step_session[OF assms(1,2)])
  have to: "touches i s s'" using pass_touches_one_step[OF assms(1,2), of G] assms(3) by simp
  then have due: "due_only i key s s'" if "key \<noteq> (tr_session t, inc_n i)" for key
    using that assms(1) unfolding touches_def t by blast
  from to have tr: "\<forall>k'. k' \<noteq> tr_session t \<longrightarrow> map_of (d_trades s') k' = map_of (d_trades s) k'"
    unfolding touches_def t by blast
  have "due_only i (tr_session t, inc_n i + 1) s s'" by (rule due) simp
  then have "map_option (due_height_update (\<lambda>_. 0)) (map_of (d_steps s') (tr_session t, inc_n i + 1))
      = map_option (due_height_update (\<lambda>_. 0)) (map_of (d_steps s) (tr_session t, inc_n i + 1))"
    by (auto simp: due_only_def)
  moreover have "map_of (d_steps s') (k, n) = map_of (d_steps s) (k, n)"
    if "(k, n) \<noteq> (tr_session t, inc_n i)" "(k, n) \<noteq> (tr_session t, inc_n i + 1)" for k n
    using due[OF that(1)] that(2) by (auto simp: due_only_def t)
  ultimately show ?thesis using tr by blast
qed

definition two_rows :: "(unit, string) desk" where
  "two_rows = demo_desk [demo_row 1 LegSettled LegPending, demo_row 2 LegPending LegPending]"

lemma pass_is_one_step_witness:
  "map_option (due_height_update (\<lambda>_. 0)) (map_of (d_steps (snd (advance (demo_engine (Some 2) (Some 9)) demo_trade two_rows)))
       (''12345678'', 2)) = Some (demo_row 2 LegPending LegPending\<lparr>due_height := 0\<rparr>)"
proof -
  have o: "open_step (tr_session demo_trade) two_rows = Some (demo_row 1 LegSettled LegPending)"
    and k: "keyed two_rows" unfolding two_rows_def demo_swap_defs by code_simp+
  have n: "map_of (d_steps two_rows) (''12345678'', 2) = Some (demo_row 2 LegPending LegPending)"
    by (simp add: two_rows_def demo_desk_def demo_row_def)
  obtain r s' where a: "advance (demo_engine (Some 2) (Some 9)) demo_trade two_rows = (r, s')" by fastforce
  from pass_is_one_step[OF k o a] n a show ?thesis by (simp add: demo_trade_def demo_row_def)
qed

lemma first_open_None: "list_all step_done is \<Longrightarrow> first_open is = None"
  by (induction "is") auto

text \<open>a step whose stored legs both say settled is not looked at again: once all do, a pass completes the trade
  whatever the two chains answer.\<close>

theorem finished_steps_are_not_rechecked:
  assumes "list_all step_done (rows_read (tr_session t) s)"
  shows "advance (G\<lparr>g_lapse := A, g_xlm := B\<rparr>) t s = advance G t s
    \<and> (case advance G t s of (Inr (t1, i), _) \<Rightarrow> i = None \<and> tr_status t1 = TradeCompleted | (Inl _, _) \<Rightarrow> True)"
proof -
  from first_open_None[OF assms] have none: "open_step (tr_session t) s = None" by (simp only: open_step_def rows_read_def)
  have "\<And>F. open_step (tr_session t) s = None \<Longrightarrow> advance F t s = bind_act (complete F t) (\<lambda>t1. return (t1, None)) s"
    by (simp add: advance_open)
  note eq = this[OF none]
  have "complete (G\<lparr>g_lapse := A, g_xlm := B\<rparr>) t = complete G t" by (simp add: complete_def)
  moreover have "case complete G t s of (Inr t1, _) \<Rightarrow> tr_status t1 = TradeCompleted | (Inl _, _) \<Rightarrow> True"
    by (auto simp: complete_def saved_trade_def save_trade_def bind_act_def modify_def return_def outside_def
        split: prod.splits sum.splits)
  ultimately show ?thesis by (auto simp: eq bind_act_def return_def split: prod.splits sum.splits)
qed

lemma finished_steps_are_not_rechecked_witness:
  "advance (demo_engine None None) demo_trade (demo_desk [demo_row 1 LegSettled LegSettled])
   = advance (demo_engine (Some 2) (Some 9)) demo_trade (demo_desk [demo_row 1 LegSettled LegSettled])"
proof -
  have "list_all step_done (rows_read (tr_session demo_trade) (demo_desk [demo_row 1 LegSettled LegSettled]))"
    unfolding demo_swap_defs by code_simp
  from finished_steps_are_not_rechecked[OF this, where G = "demo_engine (Some 2) (Some 9)" and A = "demo_chain True None" and B = "demo_chain False None"]
  show ?thesis by (simp add: demo_engine_def mk_engine_def)
qed

section \<open>A deadline that comes back\<close>

text \<open>In one pass, a payment taken back by a reorganisation takes back the deadline it had set for the next step.\<close>

lemma taken_back_clears_deadline:
  fixes s :: "('w, 'e) desk"
  assumes "out_tx_hash i \<noteq> []" "a_confirmations (out_adapter G t) (out_tx_hash i) (d_out s) = (Inr None, w)"
    and "completed_height i \<noteq> 0" "tr_session t = inc_session i" "keyed s" "there i s"
    and "map_of (d_steps s) (inc_session i, inc_n i + 1) = Some x"
    and "due_height x = deadline_height (completed_height i) (confirm_depth t)"
  shows "map_of (d_steps (snd (check_outbound G t i s))) (inc_session i, inc_n i + 1) = Some (x\<lparr>due_height := 0\<rparr>)"
proof -
  let ?a = "i\<lparr>out_state := LegSubmitted, out_settled_at := 0\<rparr>" and ?b = "i\<lparr>out_state := LegSubmitted, out_settled_at := 0, completed_height := 0\<rparr>"
  let ?key = "(inc_session i, inc_n i)"
  have sv: "saved j r = (Inr j, r\<lparr>d_steps := AList.update ?key j (d_steps r)\<rparr>)" if "same_step i j" "there i r" for j r
    using that by (simp add: saved_def save_step_def bind_modify return_def there_def same_step_def)
  have x: "(inc_session x, inc_n x) = (inc_session i, inc_n i + 1)" using keyed_row[OF assms(5,7)] by simp
  have th: "there i (r\<lparr>d_steps := AList.update ?key j d\<rparr>)" for j d and r :: "('w, 'e) desk"
    by (simp add: there_def has_key_map_of update_conv')
  have st: "same_step i ?a" "same_step i ?b" by (simp_all add: same_step_def)
  let ?s2 = "s\<lparr>d_out := w, d_steps := AList.update ?key ?b (AList.update ?key ?a (d_steps s))\<rparr>"
  have "check_outbound G t i s = bind_act (clear_due t (inc_n i) (completed_height i)) (\<lambda>_. return ?b) ?s2"
    using assms(1,3,6) by (simp add: check_outbound_def bind_act_def outside_def assms(2) unpropagate_deadline_def
        sv[OF st(1)] sv[OF st(2)] keyed_out th)
  moreover have "map_of (d_steps ?s2) (inc_session i, inc_n i + 1) = Some x" using assms(7) by (simp add: update_conv')
  ultimately show ?thesis using x assms(4,7,8)
    by (simp add: clear_due_def step_at_def bind_act_def return_def save_step_def modify_def has_key_map_of update_conv')
qed

lemma distinct_numbers:
  "distinct (map (\<lambda>i. (inc_session i, inc_n i)) is) \<Longrightarrow> \<forall>i\<in>set is. inc_session i = k \<Longrightarrow> distinct (map inc_n is)"
  by (induction "is") (auto simp: image_iff)

lemma rows_in_order:
  assumes "keyed s" "distinct (map fst (d_steps s))"
  shows "sorted_wrt (\<lambda>a b. inc_n a < inc_n b) (rows_read k s)" "\<forall>i\<in>set (rows_read k s). inc_session i = k"
proof -
  have fk: "map (\<lambda>i. (inc_session i, inc_n i)) (map snd d) = map fst d" if "list_all (\<lambda>(k, i). k = (inc_session i, inc_n i)) d" for d :: "((string \<times> int) \<times> 'b increment) list"
    using that by (induction d) auto
  let ?d = "filter (\<lambda>((k', _), _). k' = k) (d_steps s)"
  have l: "list_all (\<lambda>(k, i). k = (inc_session i, inc_n i)) ?d" using assms(1) by (auto simp: keyed_def list_all_iff)
  show ses: "\<forall>i\<in>set (rows_read k s). inc_session i = k" unfolding rows_read_def using rows_of[OF _ assms(1)] by blast
  have "distinct (map fst ?d)" using assms(2) by (rule distinct_map_filter)
  then have "distinct (map (\<lambda>i. (inc_session i, inc_n i)) (map snd ?d))" unfolding fk[OF l] .
  then have "distinct (map inc_n (map snd ?d))"
    by (rule distinct_numbers[where k = k]) (use ses in \<open>simp add: rows_read_def\<close>)
  moreover have "mset (map inc_n (rows_read k s)) = mset (map inc_n (map snd ?d))"
    unfolding rows_read_def mset_map mset_sort ..
  ultimately have "distinct (map inc_n (rows_read k s))" using mset_eq_imp_distinct_iff by blast
  then have "sorted_wrt (<) (map inc_n (rows_read k s))" by (simp add: strict_sorted_iff rows_read_def)
  then show "sorted_wrt (\<lambda>a b. inc_n a < inc_n b) (rows_read k s)" by (simp add: sorted_wrt_map)
qed

text \<open>the recovery at startup never takes back a deadline of a step that names an outgoing payment, whatever the
  chains say of the step before: every row was read first, and saving the later one writes its old deadline again.\<close>

theorem recovery_keeps_stale_deadlines:
  assumes "keyed s" "distinct (map fst (d_steps s))"
    and "answers (g_time G)" "\<And>h. answers (a_confirmations (out_adapter G t) h)"
    and "reconcile G t s = (Inr m, s')" "map_of (d_steps s) (tr_session t, n) = Some j" "out_tx_hash j \<noteq> []"
  shows "map_option due_height (map_of (d_steps s') (tr_session t, n)) = Some (due_height j)"
proof -
  have k: "tr_session t = inc_session j" "n = inc_n j" using keyed_row[OF assms(1,6)] by simp_all
  have "j \<in> set (rows_read (tr_session t) s)"
    using map_of_SomeD[OF assms(6)] by (force simp: rows_read_def)
  moreover have "there j s" using assms(6) k by (simp add: there_def has_key_map_of)
  ultimately have "written j (snd (reconcile G t s)) \<or> (\<exists>e. fst (reconcile G t s) = Inl e)"
    unfolding reconcile_rows using rows_in_order[OF assms(1,2)] assms(1,7)
    by (intro reconcile_steps_write[OF assms(3,4)]) simp_all
  then show ?thesis using assms(5) k by (auto simp: written_def same_step_def)
qed

definition stale_desk :: "(unit, string) desk" where
  "stale_desk = demo_desk [demo_row 1 LegSettled LegSettled, demo_row 2 LegSubmitted LegPending]"

lemma recovery_keeps_stale_deadlines_witness:
  "map_option due_height (map_of (d_steps (snd (reconcile (demo_engine None (Some 9)) demo_trade stale_desk))) (''12345678'', 2))
   = Some 962"
proof -
  let ?G = "demo_engine None (Some 9)"
  have k: "keyed stale_desk" "distinct (map fst (d_steps stale_desk))"
    and r: "case reconcile ?G demo_trade stale_desk of (Inr _, _) \<Rightarrow> True | _ \<Rightarrow> False"
    unfolding stale_desk_def demo_swap_defs by code_simp+
  then obtain m s' where rec: "reconcile ?G demo_trade stale_desk = (Inr m, s')" by (auto split: prod.splits sum.splits)
  have a: "answers (g_time ?G)" "\<And>h. answers (a_confirmations (out_adapter ?G demo_trade) h)"
    by (simp_all add: answers_def demo_swap_defs mk_engine_def out_adapter_def return_def)
  have "map_of (d_steps stale_desk) (tr_session demo_trade, 2) = Some (demo_row 2 LegSubmitted LegPending)"
    by (simp add: stale_desk_def demo_desk_def demo_row_def demo_trade_def)
  from recovery_keeps_stale_deadlines[OF k a rec this] rec show ?thesis by (simp add: demo_row_def demo_trade_def)
qed

end
