(* ===== verification/Chains.thy ===== *)
theory Chains
  imports Trust Mempool Settlement
begin

text \<open>
  The two chain adapters of \<^verbatim>\<open>src/src/swap_engine.py\<close> and the fee estimate of \<^verbatim>\<open>src/src/api.py\<close> they price a step by. The LAPSE
  side reads this node's own mempool, published view and storage, each read a call of its own since the node's thread may commit between
  two of them; the XLM side wraps the Stellar client, which is a parameter, behind an allocator of sequence numbers.
\<close>

section \<open>This node's chain\<close>

record 'w lapse_node =
  ln_prims :: prims
  ln_addr :: string
  ln_pk_hex :: string
  ln_mempool :: "('w, mempool) act"
  ln_view :: "('w, node_view) act"
  ln_storage :: "('w, storage) act"
  ln_submit :: "tx \<Rightarrow> ('w, bool \<times> string) act"
  ln_key :: "string option \<Rightarrow> ('w, string) act"
  ln_time :: "('w, rat) act"

definition pays :: "string \<Rightarrow> string \<Rightarrow> string \<Rightarrow> int \<Rightarrow> tx \<Rightarrow> bool res" where
  "pays from_addr to_addr memo min_amount t =
     (if jget t ''from'' \<noteq> JStr from_addr then Inr False
      else if jget t ''memo'' \<noteq> JStr memo then Inr False
      else rbind (paid_to to_addr t) (\<lambda>paid. Inr (paid \<ge> min_amount)))"

fun first_passing :: "(tx \<Rightarrow> bool res) \<Rightarrow> tx list \<Rightarrow> tx option res" where
  "first_passing p [] = Inr None"
| "first_passing p (t # ts) = rbind (p t) (\<lambda>b. if b then Inr (Some t) else first_passing p ts)"

definition depth_at :: "rat \<Rightarrow> int \<Rightarrow> int" where
  "depth_at tip height = \<lfloor>tip\<rfloor> - height + 1"

text \<open>The part of the search after the mempool.\<close>

definition find_confirmed :: "'w lapse_node \<Rightarrow> string \<Rightarrow> string \<Rightarrow> string \<Rightarrow> int \<Rightarrow> ('w, (string \<times> int) option) act" where
  "find_confirmed L from_addr to_addr memo min_amount =
     bind_act (ln_view L) (\<lambda>v. bind_act (lift_res (tip_height (nv_chain v))) (\<lambda>tip. bind_act (ln_storage L) (\<lambda>st.
     bind_act (lift_res (first_found (ln_prims L) (pays from_addr to_addr memo min_amount) (nv_chain v)
         (get_tx_by_addr_and_memo st from_addr memo))) (\<lambda>found.
       return (map_option (\<lambda>e. (snd e, depth_at tip (fst e))) found)))))"

definition lapse_find :: "'w lapse_node \<Rightarrow> string \<Rightarrow> string \<Rightarrow> string \<Rightarrow> int \<Rightarrow> ('w, (string \<times> int) option) act" where
  "lapse_find L from_addr to_addr memo min_amount =
     bind_act (ln_mempool L) (\<lambda>m. bind_act (lift_res (first_passing (pays from_addr to_addr memo min_amount) (mp_all_txs m))) (\<lambda>hit.
       case hit of Some t \<Rightarrow> return (Some (tx_hash (ln_prims L) t, 0)) | None \<Rightarrow> find_confirmed L from_addr to_addr memo min_amount))"

definition lapse_confirmations :: "'w lapse_node \<Rightarrow> string \<Rightarrow> ('w, int option) act" where
  "lapse_confirmations L h =
     bind_act (ln_mempool L) (\<lambda>m. if mp_get m h \<noteq> None then return (Some 0)
       else bind_act (ln_storage L) (\<lambda>st. case get_tx_height st h of
         None \<Rightarrow> return None
       | Some height \<Rightarrow> bind_act (ln_view L) (\<lambda>v.
           if \<not> (0 \<le> height \<and> height < int (length (nv_chain v))) then return None
           else bind_act (lift_res (tip_height (nv_chain v))) (\<lambda>tip. return (Some (depth_at tip height))))))"

section \<open>Fees\<close>

text \<open>How many wait, the lowest, median and highest rate, and the rate that clears the next block.\<close>

type_synonym fee_picture = "int \<times> rat \<times> rat \<times> rat \<times> rat"

definition included_in :: "block \<Rightarrow> json list res" where
  "included_in candidate = rbind (read_field ''transactions'' candidate) iter_json"

definition lowest_rate :: "prims \<Rightarrow> tx list \<Rightarrow> rat res" where
  "lowest_rate P ts = (if ts = [] then Inl ValueError else Inr (Min (set (map (fee_rate P) ts))))"

definition clearing_rate :: "prims \<Rightarrow> rat \<Rightarrow> node_view \<Rightarrow> tx list \<Rightarrow> rat res" where
  "clearing_rate P now v pending =
     rbind (get_vdf_iterations (nv_chain v)) (\<lambda>iterations.
     rbind (if nv_chain v = [] then Inl IndexError else Inr (last (nv_chain v))) (\<lambda>tip.
     rbind (assemble P now tip (map JObj pending) (case jget tip ''builder'' of JStr s \<Rightarrow> s | _ \<Rightarrow> []) iterations
         (board_fee_floor (total_board_posts (nv_state v)))) (\<lambda>candidate.
     rbind (included_in candidate) (\<lambda>included.
       if length included < length pending then lowest_rate P (tx_dicts included) else Inr (of_int MIN_RELAY_FEE_RATE)))))"

definition fee_estimate :: "'w lapse_node \<Rightarrow> ('w, fee_picture) act" where
  "fee_estimate L =
     bind_act (ln_mempool L) (\<lambda>m.
       if mp_all_txs m = [] then return (0, 0, 0, 0, of_int MIN_RELAY_FEE_RATE)
       else bind_act (ln_view L) (\<lambda>v. bind_act (ln_time L) (\<lambda>now.
         bind_act (lift_res (clearing_rate (ln_prims L) now v (mp_all_txs m))) (\<lambda>next_block.
           return (int (length (mp_all_txs m)), Min (set (map (fee_rate (ln_prims L)) (mp_all_txs m))),
             median (map (fee_rate (ln_prims L)) (mp_all_txs m)), Max (set (map (fee_rate (ln_prims L)) (mp_all_txs m))), next_block)))))"

definition next_nonce :: "'w lapse_node \<Rightarrow> ('w, int) act" where
  "next_nonce L = bind_act (ln_view L) (\<lambda>v. bind_act (ln_mempool L) (\<lambda>m.
     return (max (get_nonce (nv_state v) (ln_addr L)) (mp_pending_nonce m (JStr (ln_addr L))) + 1)))"

definition payment_to :: "string \<Rightarrow> int \<Rightarrow> json" where
  "payment_to to_addr amount = JObj [(''to'', JStr to_addr), (''amount'', JInt amount)]"

definition fee_probe :: "'w lapse_node \<Rightarrow> string \<Rightarrow> int \<Rightarrow> string \<Rightarrow> int \<Rightarrow> tx" where
  "fee_probe L to_addr amount memo nonce =
     [(''from'', JStr (ln_addr L)), (''pubkey'', JStr (ln_pk_hex L)), (''outputs'', JArr [payment_to to_addr amount]),
      (''nonce'', JInt nonce), (''fee'', JInt 0)] @ (if memo \<noteq> [] then [(''memo'', JStr memo)] else [])"

definition suggested_fee :: "'w lapse_node \<Rightarrow> string \<Rightarrow> int \<Rightarrow> string \<Rightarrow> ('w, int) act" where
  "suggested_fee L to_addr amount memo =
     bind_act (fee_estimate L) (\<lambda>(_, _, _, _, rate).
       if rate \<le> 0 then return 0
       else bind_act (next_nonce L) (\<lambda>nonce.
         return \<lceil>rate * of_int (tx_size (ln_prims L) (fee_probe L to_addr amount memo nonce))\<rceil>))"

text \<open>\<^verbatim>\<open>node._build_and_sign_tx_with_kek\<close> for one recipient.\<close>

definition sign_payment :: "'w lapse_node \<Rightarrow> string \<Rightarrow> int \<Rightarrow> string \<Rightarrow> int \<Rightarrow> string option \<Rightarrow> ('w, tx) act" where
  "sign_payment L to_addr amount memo fee kek =
     bind_act (next_nonce L) (\<lambda>nonce. bind_act (ln_key L kek) (\<lambda>sk.
       return (create_tx (ln_prims L) (ln_addr L) (ln_pk_hex L) [payment_to to_addr amount] nonce fee sk memo)))"

definition lapse_build :: "'w lapse_node \<Rightarrow> string \<Rightarrow> int \<Rightarrow> string \<Rightarrow> string option \<Rightarrow> ('w, json \<times> string \<times> int) act" where
  "lapse_build L to_addr amount memo kek =
     bind_act (suggested_fee L to_addr amount memo) (\<lambda>fee. bind_act (sign_payment L to_addr amount memo fee kek) (\<lambda>t.
       return (JObj t, tx_hash (ln_prims L) t, tx_nonce t)))"

definition lapse_submit :: "'w lapse_node \<Rightarrow> json \<Rightarrow> ('w, bool \<times> string) act" where
  "lapse_submit L e = (case e of JObj t \<Rightarrow> ln_submit L t | _ \<Rightarrow> lift_res (Inl AttributeError))"

definition lapse_consumed :: "'w lapse_node \<Rightarrow> string \<Rightarrow> int \<Rightarrow> ('w, bool) act" where
  "lapse_consumed L addr seq = bind_act (ln_view L) (\<lambda>v. return (get_nonce (nv_state v) addr \<ge> seq))"

definition lapse_height :: "'w lapse_node \<Rightarrow> ('w, int) act" where
  "lapse_height L = bind_act (ln_view L) (\<lambda>v. return (nv_height v))"

definition lapse_balance :: "'w lapse_node \<Rightarrow> string \<Rightarrow> ('w, int) act" where
  "lapse_balance L addr = bind_act (ln_view L) (\<lambda>v. return (get_balance (nv_state v) addr))"

definition lapse_adapter :: "'w lapse_node \<Rightarrow> ('w, json) adapter" where
  "lapse_adapter L = \<lparr>a_lapse = True, a_find = lapse_find L, a_confirmations = lapse_confirmations L, a_exists = (\<lambda>_. return True),
     a_build = (\<lambda>to_addr amount memo kek _. lapse_build L to_addr amount memo kek), a_submit = lapse_submit L,
     a_consumed = lapse_consumed L, a_forget = (\<lambda>_. return ())\<rparr>"

section \<open>Stellar\<close>

text \<open>The calls of \<^verbatim>\<open>xlm.py\<close>. An \<^verbatim>\<open>XLMUnreachable\<close> is re-raised as \<^verbatim>\<open>Unreachable\<close> everywhere, and is Unreachable here.\<close>

record ('w, 'e) stellar =
  st_exists :: "string \<Rightarrow> ('w, bool) act"
  st_spendable :: "string \<Rightarrow> ('w, int) act"
  st_find :: "string \<Rightarrow> string \<Rightarrow> int \<Rightarrow> string \<Rightarrow> ('w, string option) act"
  st_succeeded :: "string \<Rightarrow> ('w, bool) act"
  st_sequence :: "string \<Rightarrow> ('w, int) act"
  st_public :: "string option \<Rightarrow> string res"
  st_payment :: "string option \<Rightarrow> string \<Rightarrow> int \<Rightarrow> string \<Rightarrow> int \<Rightarrow> ('e \<times> string) res"
  st_create :: "string option \<Rightarrow> string \<Rightarrow> int \<Rightarrow> string \<Rightarrow> int \<Rightarrow> ('e \<times> string) res"
  st_submit :: "'e \<Rightarrow> ('w, bool \<times> string \<times> string) act"

text \<open>The outside with the numbers handed out in this process.\<close>

record 'w purse =
  pu_out :: 'w
  pu_next :: "(string, int) dict"

definition abroad :: "('w, 'a) act \<Rightarrow> ('w purse, 'a) act" where
  "abroad m = (\<lambda>s. case m (pu_out s) of (r, w) \<Rightarrow> (r, s\<lparr>pu_out := w\<rparr>))"

definition hand_out :: "string \<Rightarrow> int \<Rightarrow> ('w purse, int) act" where
  "hand_out addr seq = (\<lambda>s. (Inr seq, s\<lparr>pu_next := AList.update addr (seq + 1) (pu_next s)\<rparr>))"

definition allocate :: "('w, 'e) stellar \<Rightarrow> string \<Rightarrow> ('w purse, int) act" where
  "allocate S addr = bind_act get_state (\<lambda>s. case map_of (pu_next s) addr of
     Some seq \<Rightarrow> hand_out addr seq
   | None \<Rightarrow> bind_act (abroad (st_sequence S addr)) (hand_out addr))"

definition reset :: "string \<Rightarrow> ('w purse, unit) act" where
  "reset addr = modify (\<lambda>s. s\<lparr>pu_next := AList.delete addr (pu_next s)\<rparr>)"

definition FINAL_DEPTH :: int where "FINAL_DEPTH = 10 ^ 9"

definition xlm_balance :: "('w, 'e) stellar \<Rightarrow> string \<Rightarrow> ('w purse, int) act" where
  "xlm_balance S addr = abroad (st_spendable S addr)"

definition xlm_find :: "('w, 'e) stellar \<Rightarrow> string \<Rightarrow> string \<Rightarrow> string \<Rightarrow> int \<Rightarrow> ('w purse, (string \<times> int) option) act" where
  "xlm_find S from_addr to_addr memo min_amount =
     bind_act (abroad (st_find S to_addr memo min_amount from_addr)) (\<lambda>h. return (map_option (\<lambda>h. (h, FINAL_DEPTH)) h))"

definition xlm_confirmations :: "('w, 'e) stellar \<Rightarrow> string \<Rightarrow> ('w purse, int option) act" where
  "xlm_confirmations S h = bind_act (abroad (st_succeeded S h)) (\<lambda>ok. return (if ok then Some FINAL_DEPTH else None))"

definition xlm_build :: "('w, 'e) stellar \<Rightarrow> string \<Rightarrow> int \<Rightarrow> string \<Rightarrow> string option \<Rightarrow> bool \<Rightarrow> ('w purse, 'e \<times> string \<times> int) act" where
  "xlm_build S to_addr amount memo seed create_account =
     bind_act (lift_res (st_public S seed)) (\<lambda>addr. bind_act (allocate S addr) (\<lambda>seq.
     bind_act (lift_res (if create_account then st_create S seed to_addr amount memo seq else st_payment S seed to_addr amount memo seq))
       (\<lambda>(xdr, h). return (xdr, h, seq))))"

definition xlm_submit :: "('w, 'e) stellar \<Rightarrow> 'e \<Rightarrow> ('w purse, bool \<times> string) act" where
  "xlm_submit S xdr = bind_act (abroad (st_submit S xdr)) (\<lambda>(ok, _, detail). return (ok, detail))"

definition xlm_consumed :: "('w, 'e) stellar \<Rightarrow> string \<Rightarrow> int \<Rightarrow> ('w purse, bool) act" where
  "xlm_consumed S addr seq = (\<lambda>s. case abroad (st_sequence S addr) s of
     (Inr n, s') \<Rightarrow> (Inr (n \<ge> seq), s') | (Inl e, s') \<Rightarrow> (if e = XLMError then Inr False else Inl e, s'))"

definition xlm_adapter :: "('w, 'e) stellar \<Rightarrow> ('w purse, 'e) adapter" where
  "xlm_adapter S = \<lparr>a_lapse = False, a_find = xlm_find S, a_confirmations = xlm_confirmations S,
     a_exists = (\<lambda>addr. abroad (st_exists S addr)), a_build = xlm_build S, a_submit = xlm_submit S, a_consumed = xlm_consumed S,
     a_forget = reset\<rparr>"


section \<open>A settled leg is in the chain\<close>

lemma first_passing_Some: "first_passing p ts = Inr (Some t) \<Longrightarrow> t \<in> set ts \<and> p t = Inr True"
  by (induction ts) (auto simp: rbind_Inr_conv split: if_splits)

lemma first_found_Some: "first_found P p chain es = Inr (Some e) \<Longrightarrow> e \<in> set es \<and> found_at P p chain e = Inr True"
  by (induction es) (auto simp: rbind_Inr_conv split: if_splits)

lemma has_tx_True: "has_tx P p h ts = Inr True \<Longrightarrow> \<exists>t. JObj t \<in> set ts \<and> tx_hash P t = h \<and> p t = Inr True"
proof (induction ts)
  case (Cons j ts)
  then obtain t where j: "j = JObj t" by (cases j) auto
  show ?case
  proof (cases "tx_hash P t = h \<and> p t = Inr True")
    case True
    with j show ?thesis by auto
  next
    case False
    with Cons.prems j have "has_tx P p h ts = Inr True" by (auto simp: rbind_Inr_conv split: if_splits)
    with Cons.IH show ?thesis by auto
  qed
qed simp

text \<open>Block \<open>height\<close> of the chain holds a transaction of that hash which passes the test.\<close>

definition holds_at :: "prims \<Rightarrow> (tx \<Rightarrow> bool res) \<Rightarrow> blocks \<Rightarrow> int \<Rightarrow> string \<Rightarrow> bool" where
  "holds_at P p chain height h \<longleftrightarrow> 0 \<le> height \<and> height < int (length chain)
     \<and> (\<exists>ts t. rbind (read_field ''transactions'' (chain ! nat height)) iter_json = Inr ts \<and> JObj t \<in> set ts \<and> tx_hash P t = h \<and> p t = Inr True)"

lemma found_at_holds: "found_at P p chain e = Inr True \<Longrightarrow> holds_at P p chain (fst e) (snd e)"
  by (auto simp: found_at_def holds_at_def rbind_Inr_conv split: if_splits dest!: has_tx_True)

lemma lapse_find_shown:
  assumes "lapse_find L from_addr to_addr memo least w = (Inr (Some (h, d)), w')"
  obtains (pending) m w1 t where "d = 0" "ln_mempool L w = (Inr m, w1)" "t \<in> set (mp_all_txs m)" "tx_hash (ln_prims L) t = h"
      "pays from_addr to_addr memo least t = Inr True"
    | (confirmed) w1 v w2 tip height where "ln_view L w1 = (Inr v, w2)" "tip_height (nv_chain v) = Inr tip" "d = depth_at tip height"
      "holds_at (ln_prims L) (pays from_addr to_addr memo least) (nv_chain v) height h"
proof -
  from assms obtain m w1 hit where m: "ln_mempool L w = (Inr m, w1)"
    and hit: "first_passing (pays from_addr to_addr memo least) (mp_all_txs m) = Inr hit"
    and rest: "(case hit of Some t \<Rightarrow> return (Some (tx_hash (ln_prims L) t, 0)) | None \<Rightarrow> find_confirmed L from_addr to_addr memo least) w1
       = (Inr (Some (h, d)), w')"
    by (auto simp: lapse_find_def bind_act_Inr lift_res_def)
  show thesis
  proof (cases hit)
    case (Some t)
    with rest first_passing_Some[OF hit[unfolded Some]] m pending show ?thesis by (auto simp: return_def)
  next
    case None
    with rest obtain v w2 tip found es where v: "ln_view L w1 = (Inr v, w2)" "tip_height (nv_chain v) = Inr tip"
      and f: "first_found (ln_prims L) (pays from_addr to_addr memo least) (nv_chain v) es = Inr found"
      and r: "map_option (\<lambda>e. (snd e, depth_at tip (fst e))) found = Some (h, d)"
      by (auto simp: find_confirmed_def bind_act_Inr lift_res_def return_def)
    from r obtain e where e: "found = Some e" "h = snd e" "d = depth_at tip (fst e)" by auto
    from confirmed[OF v e(3)] found_at_holds first_found_Some[OF f[unfolded e(1)]] show ?thesis by (simp add: e(2))
  qed
qed

text \<open>What this node's chain shows of a transaction: the index puts it at that height, or the block there holds it with the terms.\<close>

definition confirmed_in :: "'w lapse_node \<Rightarrow> string \<times> string \<times> string \<times> int \<Rightarrow> string \<Rightarrow> int \<Rightarrow> bool" where
  "confirmed_in L terms h depth \<longleftrightarrow> (\<exists>w v w' tip height. ln_view L w = (Inr v, w') \<and> tip_height (nv_chain v) = Inr tip
     \<and> 0 \<le> height \<and> height < int (length (nv_chain v)) \<and> depth \<le> depth_at tip height
     \<and> ((\<exists>u st u'. ln_storage L u = (Inr st, u') \<and> get_tx_height st h = Some height)
        \<or> (case terms of (f, t, memo, amount) \<Rightarrow> holds_at (ln_prims L) (pays f t memo amount) (nv_chain v) height h)))"

lemma confirmations_confirmed:
  assumes "lapse_confirmations L h w = (Inr (Some d), w')" "0 < d" "depth \<le> d"
  shows "confirmed_in L terms h depth"
proof -
  from assms(1,2) obtain w1 st w2 height v w3 tip where "ln_storage L w1 = (Inr st, w2)" "get_tx_height st h = Some height"
    and "ln_view L w2 = (Inr v, w3)" "0 \<le> height" "height < int (length (nv_chain v))" "tip_height (nv_chain v) = Inr tip" "d = depth_at tip height"
    by (auto simp: lapse_confirmations_def bind_act_Inr lift_res_def return_def split: if_splits option.splits)
  with assms(3) show ?thesis unfolding confirmed_in_def by blast
qed

lemma says_confirmed:
  assumes "says (lapse_adapter L) (Inr terms) h depth w" "0 < depth"
  shows "confirmed_in L terms h depth"
proof -
  obtain f t memo amount where terms: "terms = (f, t, memo, amount)" by (cases terms) auto
  from assms(1) consider (c) d w' where "lapse_confirmations L h w = (Inr (Some d), w')" "depth \<le> d"
    | (f) d w' where "lapse_find L f t memo amount w = (Inr (Some (h, d)), w')" "depth \<le> d"
    by (auto simp: says_def lapse_adapter_def terms split: prod.splits sum.splits option.splits)
  then show ?thesis
  proof cases
    case c
    with assms(2) show ?thesis by (intro confirmations_confirmed) auto
  next
    case f
    from f(1) show ?thesis
    proof (cases rule: lapse_find_shown)
      case pending
      with f(2) assms(2) show ?thesis by simp
    next
      case confirmed
      with f(2) show ?thesis unfolding confirmed_in_def terms holds_at_def by blast
    qed
  qed
qed

text \<open>C37: When a pass leaves a step with both legs settled, the LAPSE leg is in the published chain of this node, at least as deep as the
  trade, the node and the floor of two ask for: the index puts its hash at such a height, or the block there holds a transaction of
  that hash from the agreed sender, with the tag of the step, paying the recipient at least the amount.\<close>

theorem settled_leg_in_chain:
  assumes run: "advance_step G t i s = (Inr (t1, i1), s')" "row_ok i" "step_done i1"
    and chain: "g_lapse G = lapse_adapter L"
    and terms: "(if sends_lapse t then out_terms t i else in_terms t i) = Inr terms"
  shows "confirmed_in L terms (if sends_lapse t then out_tx_hash i1 else in_tx_hash i1) (max (max (confirm_depth t) 2) (g_min_depth G))"
proof -
  let ?h = "if sends_lapse t then out_tx_hash i1 else in_tx_hash i1" and ?d = "max (max (confirm_depth t) 2) (g_min_depth G)"
  note v = advance_step_done[OF run]
  have "vouched G t (lapse_adapter L) (Inr terms) ?h s"
    using v terms chain by (auto simp: out_adapter_def in_adapter_def split: if_splits)
  moreover have "required_depth G t (lapse_adapter L) = ?d"
    by (simp add: required_depth_def lapse_adapter_def MIN_CONFIRM_DEPTH_def MIN_CONFIRM_DEPTH_FLOOR_def)
  ultimately obtain w where "says (lapse_adapter L) (Inr terms) ?h ?d w" by (auto simp: vouched_def)
  then show ?thesis by (rule says_confirmed) simp
qed


section \<open>A payment made twice\<close>

text \<open>
  \<^verbatim>\<open>node._commit\<close> writes the block to storage, takes its transactions out of the mempool and only then publishes the new view, in
  the node's own thread, while the swap worker reads all three one after the other.
\<close>

lemma first_found_ahead:
  assumes "\<And>e. e \<in> set es \<Longrightarrow> int (length chain) \<le> fst e"
  shows "first_found P p chain es = Inr None"
  using assms
proof (induction es)
  case (Cons e es)
  have "\<not> fst e < int (length chain)" using Cons.prems[of e] by simp
  then have "found_at P p chain e = Inr False" by (simp add: found_at_def)
  moreover have "first_found P p chain es = Inr None" by (rule Cons.IH) (rule Cons.prems, simp)
  ultimately show ?case by simp
qed simp

lemma lapse_find_window:
  assumes "ln_mempool L w = (Inr m, w1)" "first_passing (pays from_addr to_addr memo least) (mp_all_txs m) = Inr None"
    and "ln_view L w1 = (Inr v, w2)" "tip_height (nv_chain v) = Inr tip" "ln_storage L w2 = (Inr st, w3)"
    and "\<And>e. e \<in> set (get_tx_by_addr_and_memo st from_addr memo) \<Longrightarrow> int (length (nv_chain v)) \<le> fst e"
  shows "lapse_find L from_addr to_addr memo least w = (Inr None, w3)"
  using assms(1-5) first_found_ahead[OF assms(6)]
  by (simp add: lapse_find_def find_confirmed_def bind_act_def lift_res_def return_def)

lemma outside_run: "m (d_out s) = (r, w) \<Longrightarrow> outside m s = (r, s\<lparr>d_out := w\<rparr>)"
  by (simp add: outside_def)

text \<open>C38: A pass that looks for its own payment after the node took it out of the mempool and before it published the block that holds it finds
  nothing; the node then refuses the stored envelope, whose nonce is spent by that very payment, the published view says so, the envelope is
  dropped as dead, and a second payment of the same step is built, stored and sent.\<close>

theorem window_pays_twice:
  assumes leg: "sends_lapse t" "g_lapse G = lapse_adapter L" "out_terms t i = Inr (me, peer, memo, amount)"
      "out_state i = LegIntent \<or> out_state i = LegSubmitted" "out_envelope i = Some (JObj e)"
    and before: "ln_mempool L (d_out s) = (Inr m, w1)" "first_passing (pays me peer memo amount) (mp_all_txs m) = Inr None"
      "ln_view L w1 = (Inr v, w2)" "tip_height (nv_chain v) = Inr tip" "ln_storage L w2 = (Inr st, w3)"
      "\<And>x. x \<in> set (get_tx_by_addr_and_memo st me memo) \<Longrightarrow> int (length (nv_chain v)) \<le> fst x"
    and after: "ln_submit L e w3 = (Inr (False, why), w4)" "ln_view L w4 = (Inr v', w5)" "out_seq i \<le> get_nonce (nv_state v') me"
    and again: "g_secrets G w5 = (Inr (Some kek, seed), w6)" "lapse_build L peer amount memo (Some kek) w6 = (Inr (JObj e2, h2, n2), w7)"
      "ln_submit L e2 w7 = (Inr (True, detail), w8)" "g_time G w8 = (Inr now, w9)"
  shows "\<exists>i' s'. ensure_sent G t i s = (Inr i', s') \<and> out_envelope i' = Some (JObj e2) \<and> out_tx_hash i' = h2 \<and> out_seq i' = n2
    \<and> out_state i' = LegSubmitted \<and> d_out s' = w9"
proof -
  have find: "lapse_find L me peer memo amount (d_out s) = (Inr None, w3)" by (rule lapse_find_window[OF before])
  have consumed: "lapse_consumed L me (out_seq i) w4 = (Inr True, w5)"
    using after by (simp add: lapse_consumed_def bind_act_def return_def)
  have pending: "out_state i \<noteq> LegSettled" using leg(4) by auto
  show ?thesis
    using leg find consumed pending after(1) again
    by (simp add: ensure_sent_def out_adapter_def send_unpaid_def resend_def build_and_send_def build_envelope_def submit_new_def
        lapse_adapter_def lapse_submit_def bind_act_def lift_res_def outside_def saved_def save_step_def modify_def return_def)
qed


section \<open>A run\<close>

text \<open>A payment of the first step, in block 1 of a chain of three; the world is 0 until the node has published that chain.\<close>

definition demo_tag :: string where "demo_tag = ''abcdefab:12345678:1''"

definition demo_first :: tx where
  "demo_first = create_tx demo_prims ''m'' ''01'' [payment_to ''p'' 10] 1 0 ''sk'' demo_tag"

definition demo_bare :: "int \<Rightarrow> tx list \<Rightarrow> block" where
  "demo_bare h ts = [(''height'', JInt h), (''transactions'', JArr (map JObj ts))]"

definition demo_early :: node_view where
  "demo_early = \<lparr>nv_chain = [demo_bare 0 []], nv_height = 0, nv_state = demo_state\<rparr>"

definition demo_late :: node_view where
  "demo_late = \<lparr>nv_chain = [demo_bare 0 [], demo_bare 1 [demo_first], demo_bare 2 []], nv_height = 2,
     nv_state = demo_state\<lparr>nonces := [(''m'', 1)]\<rparr>\<rparr>"

definition demo_written :: storage where
  "demo_written = empty_storage\<lparr>tx_table := [(tx_hash demo_prims demo_first, 1)],
     addr_table := [((''m'', tx_hash demo_prims demo_first), \<lparr>a_height = 1, a_memo = Some demo_tag\<rparr>)]\<rparr>"

definition demo_lapse :: "nat lapse_node" where
  "demo_lapse = \<lparr>ln_prims = demo_prims, ln_addr = ''m'', ln_pk_hex = ''01'', ln_mempool = return empty_mempool,
     ln_view = (\<lambda>w. (Inr (if w = 0 then demo_early else demo_late), w)), ln_storage = return demo_written,
     ln_submit = (\<lambda>_ w. (Inr (if w = 0 then (False, ''nonce'') else (True, [])), w + 2)), ln_key = (\<lambda>_. return ''sk''), ln_time = return 0\<rparr>"

definition demo_far :: "(nat, json) adapter" where
  "demo_far = \<lparr>a_lapse = False, a_find = (\<lambda>_ _ _ _. return (Some (''cc'', 9))), a_confirmations = (\<lambda>_. return (Some 9)), a_exists = (\<lambda>_. return True),
     a_build = (\<lambda>_ _ _ _ _. return (JNull, ''cc'', 1)), a_submit = (\<lambda>_. return (True, [])), a_consumed = (\<lambda>_ _. return False), a_forget = (\<lambda>_. return ())\<rparr>"

definition demo_both :: "(nat, json) engine" where
  "demo_both = mk_engine (lapse_adapter demo_lapse) demo_far (return 2) (return (Some ''kek'', None)) (return 0) 2"

definition demo_leg :: "json increment" where
  "demo_leg = \<lparr>inc_session = ''12345678'', inc_n = 1, lapse_amount = 10, xlm_amount = 10, moves_first = True, out_state = LegSubmitted,
     out_envelope = Some (JObj demo_first), out_tx_hash = tx_hash demo_prims demo_first, out_seq = 1, out_submitted_at = 0, out_settled_at = 0,
     out_detail = [], in_state = LegPending, in_tx_hash = [], in_settled_at = 0, deadline_at = 0, completed_height = 0, due_height = 912\<rparr>"

definition demo_paying :: "nat \<Rightarrow> (nat, json) desk" where
  "demo_paying w = \<lparr>d_trades = [(''12345678'', demo_trade)], d_steps = [((''12345678'', 1), demo_leg)], d_out = w\<rparr>"

lemma demo_tag_of: "session_tag ''abcdefab'' ''12345678'' 1 = Inr demo_tag"
  by code_simp

lemma demo_window: "first_passing (pays ''m'' ''p'' demo_tag 10) (mp_all_txs empty_mempool) = Inr None"
  "tip_height (nv_chain demo_early) = Inr 0" "list_all (\<lambda>x. int (length (nv_chain demo_early)) \<le> fst x) (get_tx_by_addr_and_memo demo_written ''m'' demo_tag)"
  "get_nonce (nv_state demo_late) ''m'' = 1" "out_terms demo_trade demo_leg = Inr (''m'', ''p'', demo_tag, 10)" "sends_lapse demo_trade"
  using demo_tag_of
  by (simp_all add: mp_all_txs_def empty_mempool_def tip_height_def demo_early_def demo_bare_def read_num_def read_field_def
      get_tx_by_addr_and_memo_def demo_written_def demo_late_def get_nonce_def get_or_def out_terms_def demo_trade_def demo_leg_def)

lemma created_reads:
  assumes "memo \<noteq> []"
  shows "tx_nonce (create_tx P from_addr pk [payment_to to_addr amount] n fee sk memo) = n"
    "pays from_addr to_addr memo amount (create_tx P from_addr pk [payment_to to_addr amount] n fee sk memo) = Inr True"
  using assms by (simp_all add: create_tx_def tx_nonce_def pays_def paid_to_def payment_to_def jget_def get_or_def read_int_def)

lemma demo_second: "\<exists>t h. lapse_build demo_lapse ''p'' 10 demo_tag (Some ''kek'') 2 = (Inr (JObj t, h, 2), 2) \<and> pays ''m'' ''p'' demo_tag 10 t = Inr True"
proof -
  have n: "next_nonce demo_lapse 2 = (Inr 2, 2)"
    by (simp add: next_nonce_def demo_lapse_def demo_late_def mp_pending_nonce_def mp_all_txs_def empty_mempool_def get_nonce_def get_or_def
        bind_act_def return_def)
  then obtain fee where f: "suggested_fee demo_lapse ''p'' 10 demo_tag 2 = (Inr fee, 2)"
    by (simp add: suggested_fee_def fee_estimate_def demo_lapse_def mp_all_txs_def empty_mempool_def bind_act_def return_def MIN_RELAY_FEE_RATE_def)
  have "demo_tag \<noteq> []" by (simp add: demo_tag_def)
  note reads = created_reads[OF this]
  have k: "ln_key demo_lapse = (\<lambda>_. return ''sk'')" "ln_addr demo_lapse = ''m''" by (simp_all add: demo_lapse_def)
  show ?thesis by (simp add: lapse_build_def sign_payment_def bind_act_def f n k return_def reads)
qed

lemma demo_first_confirmed: "lapse_confirmations demo_lapse (tx_hash demo_prims demo_first) w = (Inr (Some 2), w)" if "w \<noteq> 0"
  using that by (simp add: lapse_confirmations_def demo_lapse_def demo_late_def demo_written_def empty_mempool_def mp_get_def get_tx_height_def tip_height_def
      read_num_def read_field_def demo_bare_def depth_at_def bind_act_def lift_res_def return_def)

theorem window_pays_twice_witness:
  "\<exists>i' s' t. ensure_sent demo_both demo_trade demo_leg (demo_paying 0) = (Inr i', s') \<and> out_state i' = LegSubmitted
     \<and> out_envelope i' = Some (JObj t) \<and> pays ''m'' ''p'' demo_tag 10 t = Inr True \<and> out_seq i' = 2
     \<and> lapse_confirmations demo_lapse (tx_hash demo_prims demo_first) (d_out s') = (Inr (Some 2), d_out s')"
proof -
  obtain t h where b: "lapse_build demo_lapse ''p'' 10 demo_tag (Some ''kek'') 2 = (Inr (JObj t, h, 2), 2)" "pays ''m'' ''p'' demo_tag 10 t = Inr True"
    using demo_second by blast
  have calls: "g_lapse demo_both = lapse_adapter demo_lapse" "ln_mempool demo_lapse 0 = (Inr empty_mempool, 0)"
    "ln_view demo_lapse 0 = (Inr demo_early, 0)" "ln_view demo_lapse 2 = (Inr demo_late, 2)" "ln_storage demo_lapse 0 = (Inr demo_written, 0)"
    "ln_submit demo_lapse e 0 = (Inr (False, ''nonce''), 2)" "ln_submit demo_lapse e 2 = (Inr (True, []), 4)"
    "g_secrets demo_both 2 = (Inr (Some ''kek'', None), 2)" "g_time demo_both 4 = (Inr 0, 4)" "d_out (demo_paying 0) = 0" for e
    by (simp_all add: demo_both_def mk_engine_def demo_lapse_def return_def demo_paying_def)
  have leg: "out_state demo_leg = LegIntent \<or> out_state demo_leg = LegSubmitted" "out_envelope demo_leg = Some (JObj demo_first)"
    "out_seq demo_leg \<le> get_nonce (nv_state demo_late) ''m''"
    unfolding demo_window by (simp_all add: demo_leg_def)
  have ahead: "int (length (nv_chain demo_early)) \<le> fst x" if "x \<in> set (get_tx_by_addr_and_memo demo_written ''m'' demo_tag)" for x
    using that demo_window(3) by (auto simp: list_all_iff)
  show ?thesis
    using demo_first_confirmed[of 4] window_pays_twice[of demo_trade demo_both demo_lapse demo_leg "''m''" "''p''" demo_tag 10 demo_first "demo_paying 0", unfolded calls(10),
        OF demo_window(6) calls(1) demo_window(5) leg(1,2) calls(2) demo_window(1) calls(3) demo_window(2) calls(5) ahead
           calls(6) calls(4) leg(3) calls(8) b(1) calls(7) calls(9)] b(2) by auto
qed

definition demo_done :: "json increment" where
  "demo_done = demo_leg\<lparr>out_state := LegSettled, in_state := LegSettled, in_tx_hash := ''cc'', completed_height := 1\<rparr>"

lemma demo_hash_nonempty: "tx_hash demo_prims t \<noteq> []"
proof -
  have "0 < length (tx_hash demo_prims t)" by (simp add: tx_hash_def sha256_hex_def demo_prims_def)
  then show ?thesis by auto
qed

lemma demo_done_fields: "moves_first demo_done" "out_tx_hash demo_done = tx_hash demo_prims demo_first" "out_state demo_done = LegSettled"
  "in_state demo_done = LegSettled" "in_tx_hash demo_done = ''cc''" "completed_height demo_done = 1" "tx_hash demo_prims demo_first \<noteq> []"
  "in_terms demo_trade demo_done = Inr (''P'', ''M'', demo_tag, 10)" "out_terms demo_trade demo_done = Inr (''m'', ''p'', demo_tag, 10)"
  using demo_tag_of
  by (simp_all add: demo_done_def demo_leg_def in_terms_def out_terms_def demo_trade_def demo_hash_nonempty)

lemma demo_done_same: "demo_done\<lparr>out_tx_hash := tx_hash demo_prims demo_first, out_state := LegSettled\<rparr> = demo_done"
  by (simp add: demo_done_def demo_leg_def)

lemma demo_paying_fields: "d_out (demo_paying w) = w" "has_key (d_steps (demo_paying w)) (inc_session demo_done, inc_n demo_done) = True"
  by (simp_all add: demo_paying_def has_key_def demo_done_def demo_leg_def)

lemma demo_both_fields: "g_lapse demo_both = lapse_adapter demo_lapse" "g_xlm demo_both = demo_far" "g_min_depth demo_both = 2"
  "g_time demo_both = return 0" "required_depth demo_both demo_trade (lapse_adapter demo_lapse) = 2" "required_depth demo_both demo_trade demo_far = 1"
  "a_confirmations demo_far = (\<lambda>_. return (Some 9))" "sends_lapse demo_trade" "tr_status demo_trade = TradeActive"
  by (simp_all add: demo_both_def mk_engine_def required_depth_def lapse_adapter_def demo_far_def demo_trade_def MIN_CONFIRM_DEPTH_def
      MIN_CONFIRM_DEPTH_FLOOR_def)

lemma demo_settled: "\<exists>t1 i1 s'. advance_step demo_both demo_trade demo_done (demo_paying 2) = (Inr (t1, i1), s') \<and> step_done i1
    \<and> out_tx_hash i1 = tx_hash demo_prims demo_first"
proof -
  have conf: "a_confirmations (lapse_adapter demo_lapse) (tx_hash demo_prims demo_first) 2 = (Inr (Some 2), 2)"
    using demo_first_confirmed[of 2] by (simp add: lapse_adapter_def)
  show ?thesis
    by (simp add: advance_step_def legs_def pay_leg_def check_outbound_def record_outbound_def check_inbound_def recheck_inbound_def
        update_timing_def note_completed_def saved_trade_def saved_def save_step_def save_trade_def modify_def bind_act_def outside_def
        lift_res_def return_def out_adapter_def in_adapter_def demo_done_fields demo_both_fields conf demo_done_same demo_paying_fields step_done_def)
qed

theorem settled_leg_in_chain_witness: "confirmed_in demo_lapse (''m'', ''p'', demo_tag, 10) (tx_hash demo_prims demo_first) 2"
proof -
  obtain t1 i1 s' where r: "advance_step demo_both demo_trade demo_done (demo_paying 2) = (Inr (t1, i1), s')" "step_done i1"
    "out_tx_hash i1 = tx_hash demo_prims demo_first"
    using demo_settled by blast
  have "row_ok demo_done" by (simp add: row_ok_def demo_done_fields)
  moreover have "g_lapse demo_both = lapse_adapter demo_lapse" "g_min_depth demo_both = 2" "confirm_depth demo_trade = 2"
    by (simp_all add: demo_both_def mk_engine_def demo_trade_def MIN_CONFIRM_DEPTH_def MIN_CONFIRM_DEPTH_FLOOR_def)
  ultimately show ?thesis using settled_leg_in_chain[OF r(1) _ r(2), of demo_lapse "(''m'', ''p'', demo_tag, 10)"] demo_done_fields(9) demo_both_fields(8) r(3) by simp
qed


section \<open>Stellar's sequence numbers\<close>



section \<open>An estimate over posts alone\<close>

lemma assembles_nothing:
  assumes "assemble P now tip (map JObj ts) builder iterations least = Inr candidate" "least \<noteq> 0"
    and "\<forall>t\<in>set ts. is_board_post t \<and> tx_fee t < least"
  shows "included_in candidate = Inr []"
proof -
  have "drop_cheap_posts least (map JObj ts) = []" using assms(2,3) by (auto simp: drop_cheap_posts_def filter_empty_conv)
  then have "sender_groups P (tx_dicts (drop_cheap_posts least (map JObj ts))) = []"
    by (simp add: tx_dicts_def sender_groups_def group_by_sender_def map_filter_def)
  with assms(1) show ?thesis
    by (cases rule: assemble_packed) (auto simp: included_in_def read_field_def packed_block_def)
qed

text \<open>C40: When all that waits are board posts below the present floor, which triples every 250 posts confirmed, the estimate of the fee raises:
  none of them can go into a block, and it asks for the least of no rates. No LAPSE leg of any trade can then be built, whatever it pays,
  until those posts have left the pool.\<close>

theorem posts_below_floor_block_legs:
  assumes "ln_mempool L w = (Inr m, w1)" "mp_all_txs m \<noteq> []" "ln_view L w1 = (Inr v, w2)"
    and cheap: "\<forall>t\<in>set (mp_all_txs m). is_board_post t \<and> tx_fee t < board_fee_floor (total_board_posts (nv_state v))"
  shows "(\<exists>e w'. fee_estimate L w = (Inl e, w')) \<and> (\<exists>e w'. lapse_build L to_addr amount memo kek w = (Inl e, w'))"
proof -
  have floor: "board_fee_floor n \<noteq> 0" for n
    by (simp add: board_fee_floor_def BOARD_BASE_FEE_def BOARD_FEE_RATIO_def)
  have never: "clearing_rate (ln_prims L) now v (mp_all_txs m) \<noteq> Inr rate" for now rate
  proof
    assume "clearing_rate (ln_prims L) now v (mp_all_txs m) = Inr rate"
    then obtain iterations tip builder candidate included where
      "assemble (ln_prims L) now tip (map JObj (mp_all_txs m)) builder iterations (board_fee_floor (total_board_posts (nv_state v))) = Inr candidate"
      and i: "included_in candidate = Inr included"
      and r: "(if length included < length (mp_all_txs m) then lowest_rate (ln_prims L) (tx_dicts included) else Inr (of_int MIN_RELAY_FEE_RATE)) = Inr rate"
      by (auto simp: clearing_rate_def rbind_Inr_conv)
    from assembles_nothing[OF this(1) floor cheap] i have "included = []" by simp
    with r assms(2) show False by (simp add: lowest_rate_def tx_dicts_def map_filter_def)
  qed
  have e: "\<exists>e w'. fee_estimate L w = (Inl e, w')"
  proof (cases "ln_time L w2")
    case (Pair r w3)
    show ?thesis
    proof (cases r)
      case (Inl e)
      with Pair assms(1-3) show ?thesis by (simp add: fee_estimate_def bind_act_def)
    next
      case (Inr now)
      obtain e where "clearing_rate (ln_prims L) now v (mp_all_txs m) = Inl e"
        using never by (cases "clearing_rate (ln_prims L) now v (mp_all_txs m)") auto
      with Pair Inr assms(1-3) show ?thesis by (simp add: fee_estimate_def bind_act_def lift_res_def)
    qed
  qed
  then have "\<exists>e w'. lapse_build L to_addr amount memo kek w = (Inl e, w')"
    by (auto simp: lapse_build_def suggested_fee_def bind_act_def)
  with e show ?thesis by blast
qed

definition demo_post :: tx where
  "demo_post = [(''from'', JStr ''b''), (''fee'', JInt 1), (''memo'', JStr ''[board] hi''), (''nonce'', JInt 1)]"

definition demo_posts :: "nat lapse_node" where
  "demo_posts = demo_lapse\<lparr>ln_mempool := return \<lparr>pool = [(tx_hash demo_prims demo_post, mk_entry demo_prims 0 demo_post)], total_bytes = 50\<rparr>,
     ln_view := return (demo_late\<lparr>nv_state := demo_state\<lparr>total_board_posts := 250\<rparr>\<rparr>)\<rparr>"

theorem posts_below_floor_block_legs_witness: "\<exists>e w'. lapse_build demo_posts ''p'' 10 demo_tag (Some ''kek'') 0 = (Inl e, w')"
proof -
  let ?m = "\<lparr>pool = [(tx_hash demo_prims demo_post, mk_entry demo_prims 0 demo_post)], total_bytes = 50\<rparr>"
  have calls: "ln_mempool demo_posts 0 = (Inr ?m, 0)" "ln_view demo_posts 0 = (Inr (demo_late\<lparr>nv_state := demo_state\<lparr>total_board_posts := 250\<rparr>\<rparr>), 0)"
    by (simp_all add: demo_posts_def return_def)
  have all: "mp_all_txs ?m = [demo_post]" by (simp add: mp_all_txs_def mk_entry_def)
  have "is_board_post demo_post" "tx_fee demo_post < board_fee_floor 250" by code_simp+
  with posts_below_floor_block_legs[OF calls(1) _ calls(2)] all show ?thesis by simp
qed


definition demo_horizon :: "(unit, string) stellar" where
  "demo_horizon = \<lparr>st_exists = (\<lambda>_. return True), st_spendable = (\<lambda>_. return 0), st_find = (\<lambda>_ _ _ _. return None), st_succeeded = (\<lambda>_. return False),
     st_sequence = (\<lambda>_. return 7), st_public = (\<lambda>_. Inr ''me''), st_payment = (\<lambda>_ _ _ _ _. Inr (''xdr'', ''hh'')),
     st_create = (\<lambda>_ _ _ _ _. Inr (''xdr'', ''hh'')), st_submit = (\<lambda>_. return (False, ''hh'', ''tx_insufficient_fee''))\<rparr>"

definition demo_swap :: "(unit purse, string) engine" where
  "demo_swap = mk_engine (xlm_adapter demo_horizon) (xlm_adapter demo_horizon) (return 1) (return (None, Some ''seed'')) (return 0) 2"

definition demo_refused :: "(unit purse, string) desk" where
  "demo_refused = \<lparr>d_trades = [], d_steps = [], d_out = \<lparr>pu_out = (), pu_next = [(''me'', 8)]\<rparr>\<rparr>"


end
